(* ===== verification/Skaidb_Prelude.thy ===== *)
theory Skaidb_Prelude
  imports Main "HOL-Library.Word" "HOL-Library.List_Lexorder"
begin

text \<open>
  Shared vocabulary of the development: the machine types of the Rust sources, results whose
  errors are values, counted loops, fixed-width integers as little- and big-endian byte strings,
  UTF-8 validation, the byte cursor that the three decoders of the repository have in common, and
  the interface (a locale) of a self-delimiting field codec.

  A Rust \<^verbatim>\<open>String\<close> or \<^verbatim>\<open>&str\<close> is the list of its UTF-8 bytes, because every comparison, length
  and slice in the sources counts bytes. A \<^verbatim>\<open>usize\<close> is a natural number; where the sources check
  it for overflow the bound \<open>2 ^ 64\<close> is written out.
\<close>

section \<open>Machine types\<close>

type_synonym u8 = "8 word"
type_synonym u16 = "16 word"
type_synonym u32 = "32 word"
type_synonym u64 = "64 word"
type_synonym i64 = "64 word"
type_synonym f64 = "64 word"
type_synonym i128 = "128 word"
type_synonym bytes = "u8 list"
type_synonym rstr = "u8 list"

named_theorems codec_simps \<open>rewriting of encoders and of cursor reads over appended buffers\<close>
named_theorems wf_intros \<open>introduction rules for the well-formedness predicates\<close>

text \<open>The bytes of a string literal.\<close>

definition of_str :: "string \<Rightarrow> rstr" where
  "of_str s = map of_char s"

section \<open>Results\<close>

text \<open>
  An operation returns \<open>Inr\<close> of its value or \<open>Inl\<close> of a fault: an error value of the source, a
  panic of the Rust runtime, or the exhaustion of a recursion bound that the model adds and the
  sources do not have. Theorems that a decoder is total exclude the last two.
\<close>

datatype 'e fault = Err 'e | Panic string | OutOfFuel

type_synonym ('e, 'a) res = "'e fault + 'a"

definition rbind :: "'e + 'a \<Rightarrow> ('a \<Rightarrow> 'e + 'b) \<Rightarrow> 'e + 'b" where
  "rbind m f = (case m of Inl e \<Rightarrow> Inl e | Inr x \<Rightarrow> f x)"

lemma rbind_simps [simp]:
  "rbind (Inl e) f = Inl e"
  "rbind (Inr x) f = f x"
  by (simp_all add: rbind_def)

lemma rbind_eq_Inr: "rbind m f = Inr y \<longleftrightarrow> (\<exists>x. m = Inr x \<and> f x = Inr y)"
  by (cases m) auto

lemma rbind_eq_Inl: "rbind m f = Inl e \<longleftrightarrow> m = Inl e \<or> (\<exists>x. m = Inr x \<and> f x = Inl e)"
  by (cases m) auto

lemma rbind_assoc: "rbind (rbind m f) g = rbind m (\<lambda>x. rbind (f x) g)"
  by (cases m) auto

lemma rbind_cong [fundef_cong]:
  assumes "m = m'" and "\<And>x. m' = Inr x \<Longrightarrow> f x = f' x"
  shows "rbind m f = rbind m' f'"
  using assms by (cases m') auto

text \<open>\<^verbatim>\<open>Result::map_err\<close>, and a plain error where the source writes \<^verbatim>\<open>Err(...)\<close>.\<close>

definition map_err :: "('e \<Rightarrow> 'f) \<Rightarrow> ('e, 'a) res \<Rightarrow> ('f, 'a) res" where
  "map_err f m = (case m of
     Inl (Err e) \<Rightarrow> Inl (Err (f e))
   | Inl (Panic s) \<Rightarrow> Inl (Panic s)
   | Inl OutOfFuel \<Rightarrow> Inl OutOfFuel
   | Inr x \<Rightarrow> Inr x)"

lemma map_err_Inr [simp]: "map_err f (Inr x) = Inr x"
  by (simp add: map_err_def)

lemma map_err_Err [simp]: "map_err f (Inl (Err e)) = Inl (Err (f e))"
  by (simp add: map_err_def)

definition clean :: "('e, 'a) res \<Rightarrow> bool" where
  "clean m \<longleftrightarrow> (case m of Inr x \<Rightarrow> True | Inl f \<Rightarrow> (\<exists>e. f = Err e))"

lemma clean_simps [simp]:
  "clean (Inr x)" "clean (Inl (Err e))" "\<not> clean (Inl (Panic s))" "\<not> clean (Inl OutOfFuel)"
  by (simp_all add: clean_def)

lemma clean_rbind: "clean m \<Longrightarrow> (\<And>x. m = Inr x \<Longrightarrow> clean (f x)) \<Longrightarrow> clean (rbind m f)"
  by (cases m) (auto simp: clean_def)

lemma clean_map_err [simp]: "clean (map_err f m) = clean m"
  by (auto simp: map_err_def clean_def split: sum.splits fault.splits)

section \<open>Counted loops\<close>

text \<open>\<^verbatim>\<open>for _ in 0..n { body?; }\<close>: the body maps the loop state, the first error leaves the loop.\<close>

primrec for_n :: "nat \<Rightarrow> ('s \<Rightarrow> 'e + 's) \<Rightarrow> 's \<Rightarrow> 'e + 's" where
  "for_n 0 body s = Inr s"
| "for_n (Suc n) body s = rbind (body s) (for_n n body)"

lemma for_n_invariant:
  assumes "for_n n body s = Inr t" and "P s"
    and "\<And>s t. P s \<Longrightarrow> body s = Inr t \<Longrightarrow> P t"
  shows "P t"
  using assms(1,2)
  by (induction n arbitrary: s) (auto simp: rbind_eq_Inr intro: assms(3))

lemma for_n_clean:
  assumes "P s" and "\<And>s. P s \<Longrightarrow> clean (body s)"
    and "\<And>s t. P s \<Longrightarrow> body s = Inr t \<Longrightarrow> P t"
  shows "clean (for_n n body s)"
  using assms(1)
  by (induction n arbitrary: s) (auto intro!: clean_rbind assms(2) intro: assms(3))

lemma for_n_simulation:
  assumes "for_n n f s = Inr t" and "R s u"
    and "\<And>s t u. R s u \<Longrightarrow> f s = Inr t \<Longrightarrow> \<exists>v. g u = Inr v \<and> R t v"
  shows "\<exists>v. for_n n g u = Inr v \<and> R t v"
  using assms(1,2)
proof (induction n arbitrary: s u)
  case 0
  then show ?case by simp
next
  case (Suc n)
  then obtain s' where s': "f s = Inr s'" "for_n n f s' = Inr t"
    by (auto simp: rbind_eq_Inr)
  from assms(3)[OF Suc.prems(2) s'(1)] obtain u' where u': "g u = Inr u'" "R s' u'"
    by blast
  from Suc.IH[OF s'(2) u'(2)] u'(1) show ?case by simp
qed

section \<open>Integers as byte strings\<close>

text \<open>\<^verbatim>\<open>to_le_bytes\<close>, \<^verbatim>\<open>to_be_bytes\<close> and their inverses, for an integer of \<open>n\<close> bytes.\<close>

primrec le_bytes :: "nat \<Rightarrow> nat \<Rightarrow> bytes" where
  "le_bytes 0 k = []"
| "le_bytes (Suc n) k = word_of_nat (k mod 256) # le_bytes n (k div 256)"

primrec le_val :: "bytes \<Rightarrow> nat" where
  "le_val [] = 0"
| "le_val (b # bs) = unat b + 256 * le_val bs"

definition be_bytes :: "nat \<Rightarrow> nat \<Rightarrow> bytes" where
  "be_bytes n k = rev (le_bytes n k)"

definition be_val :: "bytes \<Rightarrow> nat" where
  "be_val bs = le_val (rev bs)"

definition u16_le :: "nat \<Rightarrow> bytes" where "u16_le n = le_bytes 2 (n mod 2 ^ 16)"
definition u32_le :: "nat \<Rightarrow> bytes" where "u32_le n = le_bytes 4 (n mod 2 ^ 32)"
definition word32_le :: "u32 \<Rightarrow> bytes" where "word32_le w = le_bytes 4 (unat w)"
definition word64_le :: "u64 \<Rightarrow> bytes" where "word64_le w = le_bytes 8 (unat w)"
definition word64_be :: "u64 \<Rightarrow> bytes" where "word64_be w = be_bytes 8 (unat w)"
definition word128_le :: "i128 \<Rightarrow> bytes" where "word128_le w = le_bytes 16 (unat w)"

lemma length_le_bytes [simp]: "length (le_bytes n k) = n"
  by (induction n arbitrary: k) auto

lemma length_be_bytes [simp]: "length (be_bytes n k) = n"
  by (simp add: be_bytes_def)

lemma length_words [simp]:
  "length (u16_le k) = 2" "length (u32_le k) = 4" "length (word32_le a) = 4"
  "length (word64_le b) = 8" "length (word64_be c) = 8" "length (word128_le d) = 16"
  by (simp_all add: u16_le_def u32_le_def word32_le_def word64_le_def word64_be_def word128_le_def)

lemma le_bytes_4:
  "le_bytes 4 k = [word_of_nat (k mod 256), word_of_nat (k div 256 mod 256),
     word_of_nat (k div 256 div 256 mod 256), word_of_nat (k div 256 div 256 div 256 mod 256)]"
proof -
  have "(4::nat) = Suc (Suc (Suc (Suc 0)))" by simp
  then show ?thesis by (simp only: le_bytes.simps)
qed

lemma u32_le_small: "n < 256 \<Longrightarrow> u32_le n = [word_of_nat n, 0, 0, 0]"
  by (simp add: u32_le_def le_bytes_4)

lemma unat_bound: "unat (w :: 'a::len word) < 2 ^ LENGTH('a)"
  by (rule unsigned_less)

lemma unat_u8_less [simp]: "unat (b :: u8) < 256"
  using unat_bound[of b] by simp

lemma unat_byte [simp]: "unat (word_of_nat (k mod 256) :: u8) = k mod 256"
  by (simp add: unat_of_nat)

lemma le_val_le_bytes [simp]: "le_val (le_bytes n k) = k mod 256 ^ n"
proof (induction n arbitrary: k)
  case (Suc n)
  then show ?case
    by (simp add: mod_mult2_eq)
qed (simp add: mod_less)

lemma le_val_bound: "le_val bs < 256 ^ length bs"
proof (induction bs)
  case (Cons b bs)
  have "unat b < 256" by (rule unat_u8_less)
  moreover have "le_val bs \<le> 256 ^ length bs - 1" using Cons by simp
  ultimately have "unat b + 256 * le_val bs < 256 + 256 * (256 ^ length bs - 1)" by linarith
  also have "\<dots> = 256 * 256 ^ length bs" by (simp add: diff_mult_distrib2)
  finally show ?case by simp
qed simp

lemma le_bytes_le_val [simp]: "le_bytes (length bs) (le_val bs) = bs"
proof (induction bs)
  case (Cons b bs)
  have b: "unat b < 256" by (rule unat_u8_less)
  then have "(unat b + 256 * le_val bs) mod 256 = unat b"
    and "(unat b + 256 * le_val bs) div 256 = le_val bs" by simp_all
  with Cons show ?case by simp
qed simp

lemma be_val_be_bytes [simp]: "be_val (be_bytes n k) = k mod 256 ^ n"
  by (simp add: be_val_def be_bytes_def)

lemma le_val_words [simp]:
  "le_val (u16_le k) = k mod 2 ^ 16" "le_val (u32_le k) = k mod 2 ^ 32"
  "le_val (word32_le a) = unat a" "le_val (word64_le b) = unat b"
  "le_val (word128_le d) = unat d" "be_val (word64_be b) = unat b"
  using unat_bound[of a] unat_bound[of b] unat_bound[of d]
  by (simp_all add: u16_le_def u32_le_def word32_le_def word64_le_def word64_be_def
      word128_le_def)

text \<open>Big-endian byte strings of one length compare as the numbers they encode.\<close>

lemma be_bytes_Suc: "be_bytes (Suc n) k = be_bytes n (k div 256) @ [word_of_nat (k mod 256)]"
  by (simp add: be_bytes_def)

lemma append_less_same_length:
  "length xs = length ys \<Longrightarrow>
   (xs @ us < ys @ (vs :: 'a::linorder list)) \<longleftrightarrow> xs < ys \<or> (xs = ys \<and> us < vs)"
  by (induction xs ys rule: list_induct2) auto

lemma be_bytes_less:
  assumes "j < 256 ^ n" and "k < 256 ^ n"
  shows "be_bytes n j < be_bytes n k \<longleftrightarrow> j < k"
  using assms
proof (induction n arbitrary: j k)
  case 0
  then show ?case by (simp add: be_bytes_def)
next
  case (Suc n)
  from Suc.prems have d: "j div 256 < 256 ^ n" "k div 256 < 256 ^ n"
    by (simp_all add: less_mult_imp_div_less mult.commute)
  have inj: "be_bytes n (j div 256) = be_bytes n (k div 256) \<longleftrightarrow> j div 256 = k div 256"
    using d by (metis be_val_be_bytes mod_less)
  have w: "(word_of_nat (j mod 256) :: u8) < word_of_nat (k mod 256) \<longleftrightarrow> j mod 256 < k mod 256"
    by (simp add: word_less_nat_alt del: of_nat_mod)
  have "j < k \<longleftrightarrow> j div 256 < k div 256 \<or> j div 256 = k div 256 \<and> j mod 256 < k mod 256"
    using mult_div_mod_eq[of 256 j] mult_div_mod_eq[of 256 k]
      mod_less_divisor[of 256 j] mod_less_divisor[of 256 k] by linarith
  then show ?case
    using Suc.IH[OF d] inj w by (simp only: be_bytes_Suc append_less_same_length length_be_bytes) simp
qed

section \<open>UTF-8\<close>

text \<open>
  \<^verbatim>\<open>core::str::from_utf8\<close>: the well-formed byte sequences of the Unicode standard. \<open>utf8_cont\<close> is
  a continuation byte.
\<close>

definition utf8_cont :: "u8 \<Rightarrow> bool" where
  "utf8_cont b \<longleftrightarrow> 0x80 \<le> b \<and> b \<le> 0xBF"

fun utf8_ok :: "bytes \<Rightarrow> bool" where
  "utf8_ok [] = True"
| "utf8_ok (a # r) =
    (if a < 0x80 then utf8_ok r
     else if 0xC2 \<le> a \<and> a \<le> 0xDF then
       (case r of b # r2 \<Rightarrow> utf8_cont b \<and> utf8_ok r2 | _ \<Rightarrow> False)
     else if 0xE0 \<le> a \<and> a \<le> 0xEF then
       (case r of b # c # r3 \<Rightarrow>
          utf8_cont b \<and> (a = 0xE0 \<longrightarrow> 0xA0 \<le> b) \<and> (a = 0xED \<longrightarrow> b \<le> 0x9F)
          \<and> utf8_cont c \<and> utf8_ok r3
        | _ \<Rightarrow> False)
     else if 0xF0 \<le> a \<and> a \<le> 0xF4 then
       (case r of b # c # d # r4 \<Rightarrow>
          utf8_cont b \<and> (a = 0xF0 \<longrightarrow> 0x90 \<le> b) \<and> (a = 0xF4 \<longrightarrow> b \<le> 0x8F)
          \<and> utf8_cont c \<and> utf8_cont d \<and> utf8_ok r4
        | _ \<Rightarrow> False)
     else False)"

definition ascii :: "bytes \<Rightarrow> bool" where
  "ascii bs \<longleftrightarrow> (\<forall>b \<in> set bs. b < 0x80)"

lemma utf8_ok_ascii: "ascii bs \<Longrightarrow> utf8_ok bs"
  by (induction bs) (auto simp: ascii_def)

lemma ascii_append [simp]: "ascii (xs @ ys) \<longleftrightarrow> ascii xs \<and> ascii ys"
  by (auto simp: ascii_def)

end
