(* ===== verification/Text.thy ===== *)
theory Text
  imports Skaidb_Prelude
begin

text \<open>
  Text forms that several components print and parse: lower-case hex (\<^verbatim>\<open>hex\<close> in
  \<^verbatim>\<open>skaidb-auth/src/crypto.rs\<close>, \<^verbatim>\<open>from_hex\<close> and \<^verbatim>\<open>unhex\<close> in \<^verbatim>\<open>scram.rs\<close>), decimal numbers, and the
  parts of \<^verbatim>\<open>str\<close> the sources use: slicing with its panic off a character boundary,
  \<^verbatim>\<open>from_str_radix\<close>, \<^verbatim>\<open>split\<close> and \<^verbatim>\<open>split_once\<close>. A \<^verbatim>\<open>None\<close> of the source is \<open>Inl (Err ())\<close>.
\<close>

type_synonym 'a opt = "(unit, 'a) res"

definition of_opt :: "'a option \<Rightarrow> 'a opt" where
  "of_opt x = (case x of None \<Rightarrow> Inl (Err ()) | Some y \<Rightarrow> Inr y)"

lemma of_opt_simps [simp]: "of_opt None = Inl (Err ())" "of_opt (Some y) = Inr y"
  by (simp_all add: of_opt_def)

text \<open>\<^verbatim>\<open>iter.map(f).collect()\<close> into a \<^verbatim>\<open>Result\<close> or \<^verbatim>\<open>Option\<close>: the first failure is the result.\<close>

primrec rmap :: "('a \<Rightarrow> 'e + 'b) \<Rightarrow> 'a list \<Rightarrow> 'e + 'b list" where
  "rmap f [] = Inr []"
| "rmap f (x # xs) = rbind (f x) (\<lambda>y. rbind (rmap f xs) (\<lambda>ys. Inr (y # ys)))"

lemma rmap_Inr: "(\<And>x. x \<in> set xs \<Longrightarrow> f x = Inr (g x)) \<Longrightarrow> rmap f xs = Inr (map g xs)"
  by (induction xs) auto

section \<open>Slices of a string\<close>

definition is_char_boundary :: "rstr \<Rightarrow> nat \<Rightarrow> bool" where
  "is_char_boundary s i \<longleftrightarrow> i = 0 \<or> i = length s \<or> (i < length s \<and> \<not> utf8_cont (s ! i))"

definition str_slice :: "rstr \<Rightarrow> nat \<Rightarrow> nat \<Rightarrow> ('e, rstr) res" where
  "str_slice s i j =
    (if i \<le> j \<and> is_char_boundary s i \<and> is_char_boundary s j
     then Inr (take (j - i) (drop i s)) else Inl (Panic ''str slice''))"

lemma ascii_boundary: "ascii s \<Longrightarrow> i \<le> length s \<Longrightarrow> is_char_boundary s i"
  by (metis ascii_def is_char_boundary_def le_neq_implies_less not_le nth_mem utf8_cont_def)

lemma str_slice_ascii:
  "ascii s \<Longrightarrow> i \<le> j \<Longrightarrow> j \<le> length s \<Longrightarrow> str_slice s i j = Inr (take (j - i) (drop i s))"
  by (simp add: str_slice_def ascii_boundary)

section \<open>Hex\<close>

definition hex_char :: "nat \<Rightarrow> u8" where
  "hex_char n = (if n < 10 then word_of_nat (0x30 + n) else word_of_nat (0x57 + n))"

definition hex2 :: "u8 \<Rightarrow> rstr" where
  "hex2 b = [hex_char (unat b div 16), hex_char (unat b mod 16)]"

definition hex :: "bytes \<Rightarrow> rstr" where
  "hex bs = concat (map hex2 bs)"

definition hex_digit :: "u8 \<Rightarrow> nat option" where
  "hex_digit b =
    (if 0x30 \<le> b \<and> b \<le> 0x39 then Some (unat b - 0x30)
     else if 0x61 \<le> b \<and> b \<le> 0x66 then Some (unat b - 0x57)
     else if 0x41 \<le> b \<and> b \<le> 0x46 then Some (unat b - 0x37)
     else None)"

text \<open>The digit loop of \<^verbatim>\<open>from_str_radix\<close> for an unsigned type of \<open>limit\<close> values.\<close>

fun radix_digits :: "(u8 \<Rightarrow> nat option) \<Rightarrow> nat \<Rightarrow> nat \<Rightarrow> nat \<Rightarrow> rstr \<Rightarrow> nat option" where
  "radix_digits dig radix limit acc [] = Some acc"
| "radix_digits dig radix limit acc (b # bs) =
    (case dig b of
       None \<Rightarrow> None
     | Some d \<Rightarrow> (if acc * radix + d < limit
                  then radix_digits dig radix limit (acc * radix + d) bs else None))"

definition from_str_radix :: "(u8 \<Rightarrow> nat option) \<Rightarrow> nat \<Rightarrow> nat \<Rightarrow> rstr \<Rightarrow> nat option" where
  "from_str_radix dig radix limit s =
    (case s of
       [] \<Rightarrow> None
     | [b] \<Rightarrow> (if b = 0x2B \<or> b = 0x2D then None else radix_digits dig radix limit 0 [b])
     | b # bs \<Rightarrow> (if b = 0x2B then radix_digits dig radix limit 0 bs
                  else radix_digits dig radix limit 0 (b # bs)))"

definition u8_from_hex :: "rstr \<Rightarrow> u8 option" where
  "u8_from_hex s = map_option word_of_nat (from_str_radix hex_digit 16 256 s)"

definition from_hex :: "rstr \<Rightarrow> bytes opt" where
  "from_hex s =
    (if odd (length s) then Inl (Err ())
     else rmap (\<lambda>i. rbind (str_slice s (2 * i) (2 * i + 2)) (\<lambda>t. of_opt (u8_from_hex t)))
            [0..<length s div 2])"

lemma length_hex [simp]: "length (hex bs) = 2 * length bs"
  by (induction bs) (simp_all add: hex_def hex2_def)

lemma less16_cases:
  "(n::nat) < 16 \<Longrightarrow> n \<in> {0, 1, 2, 3, 4, 5, 6, 7, 8, 9, 10, 11, 12, 13, 14, 15}"
  by simp arith

lemma hex_digit_char [simp]: "n < 16 \<Longrightarrow> hex_digit (hex_char n) = Some n"
  by (drule less16_cases, elim insertE emptyE) (simp_all add: hex_digit_def hex_char_def)

lemma hex_char_facts:
  "n < 16 \<Longrightarrow> hex_char n < 0x80 \<and> hex_char n \<noteq> 0x2B \<and> hex_char n \<noteq> 0x2D \<and> hex_char n \<noteq> 0x3A
    \<and> hex_char n \<noteq> 0x24"
  by (drule less16_cases, elim insertE emptyE) (simp_all add: hex_char_def)

lemma unat_nibbles [simp]: "unat (b :: u8) div 16 < 16" "unat b mod 16 < 16"
  using unat_u8_less[of b] by (simp_all add: less_mult_imp_div_less)

lemma set_hex: "c \<in> set (hex bs) \<Longrightarrow> \<exists>n < 16. c = hex_char n"
  by (auto simp: hex_def hex2_def intro: unat_nibbles)

lemma ascii_hex [simp]: "ascii (hex bs)"
  using set_hex[of _ bs] hex_char_facts by (fastforce simp: ascii_def)

lemma u8_from_hex2 [simp]: "u8_from_hex (hex2 b) = Some b"
  using unat_nibbles[of b] hex_char_facts[of "unat b div 16"]
  by (simp add: u8_from_hex_def from_str_radix_def hex2_def less_trans[of _ 16 256])

lemma hex_slice: "i < length bs \<Longrightarrow> take 2 (drop (2 * i) (hex bs)) = hex2 (bs ! i)"
proof (induction bs arbitrary: i)
  case (Cons b bs)
  have "hex (b # bs) = hex2 b @ hex bs" "length (hex2 b) = 2"
    by (simp_all add: hex_def hex2_def)
  with Cons show ?case by (cases i) simp_all
qed simp

lemma from_hex_hex [simp]: "from_hex (hex bs) = Inr bs"
proof -
  have "rmap (\<lambda>i. rbind (str_slice (hex bs) (2 * i) (2 * i + 2)) (\<lambda>t. of_opt (u8_from_hex t)))
      [0..<length bs] = Inr (map (\<lambda>i. bs ! i) [0..<length bs])"
    by (rule rmap_Inr) (simp add: str_slice_ascii hex_slice)
  then show ?thesis
    by (simp add: from_hex_def map_nth)
qed

section \<open>Decimal numbers\<close>

definition dec_char :: "nat \<Rightarrow> u8" where
  "dec_char d = word_of_nat (0x30 + d)"

fun show_nat :: "nat \<Rightarrow> rstr" where
  "show_nat n = (if n < 10 then [dec_char n] else show_nat (n div 10) @ [dec_char (n mod 10)])"

declare show_nat.simps [simp del]

definition dec_digit :: "u8 \<Rightarrow> nat option" where
  "dec_digit b = (if 0x30 \<le> b \<and> b \<le> 0x39 then Some (unat b - 0x30) else None)"

definition parse_u32 :: "rstr \<Rightarrow> u32 option" where
  "parse_u32 s = map_option word_of_nat (from_str_radix dec_digit 10 (2 ^ 32) s)"

lemma less10_cases: "(n::nat) < 10 \<Longrightarrow> n \<in> {0, 1, 2, 3, 4, 5, 6, 7, 8, 9}"
  by simp arith

lemma dec_digit_char [simp]: "n < 10 \<Longrightarrow> dec_digit (dec_char n) = Some n"
  by (drule less10_cases, elim insertE emptyE) (simp_all add: dec_digit_def dec_char_def)

lemma set_show_nat: "c \<in> set (show_nat n) \<Longrightarrow> \<exists>d < 10. c = dec_char d"
proof (induction n rule: show_nat.induct)
  case (1 n)
  show ?case
  proof (cases "n < 10")
    case True
    with 1(2) show ?thesis by (auto simp: show_nat.simps[of n])
  next
    case False
    with 1(2) have "c \<in> set (show_nat (n div 10)) \<or> c = dec_char (n mod 10)"
      by (auto simp: show_nat.simps[of n])
    with 1(1)[OF False] show ?thesis
      by (metis mod_less_divisor zero_less_numeral)
  qed
qed

lemma show_nat_char_facts:
  "c \<in> set (show_nat n) \<Longrightarrow> c < 0x80 \<and> c \<noteq> 0x2B \<and> c \<noteq> 0x2D \<and> c \<noteq> 0x2E \<and> c \<noteq> 0x3A \<and> c \<noteq> 0x24"
  by (drule set_show_nat, elim exE conjE, drule less10_cases, elim insertE emptyE)
    (simp_all add: dec_char_def)

lemma show_nat_small: "n < 10 \<Longrightarrow> show_nat n = [dec_char n]"
  by (simp add: show_nat.simps)

lemma length_show_nat: "0 < w \<Longrightarrow> n < 10 ^ w \<Longrightarrow> length (show_nat n) \<le> w"
proof (induction w arbitrary: n)
  case (Suc w)
  show ?case
  proof (cases "n < 10")
    case False
    then have "0 < w" using Suc.prems(2) by (cases w) auto
    moreover have "n div 10 < 10 ^ w" using Suc.prems(2) by (simp add: less_mult_imp_div_less)
    ultimately show ?thesis using Suc.IH False by (simp add: show_nat.simps[of n])
  qed (simp add: show_nat_small)
qed simp

lemma ascii_show_nat [simp]: "ascii (show_nat n)"
  using show_nat_char_facts by (auto simp: ascii_def)

lemma show_nat_nonempty [simp]: "show_nat n \<noteq> []"
  by (subst show_nat.simps) simp

lemma radix_digits_append:
  "radix_digits dig r l a (xs @ ys)
   = (case radix_digits dig r l a xs of None \<Rightarrow> None | Some b \<Rightarrow> radix_digits dig r l b ys)"
  by (induction xs arbitrary: a) (auto split: option.splits)

lemma radix_digits_show: "n < l \<Longrightarrow> radix_digits dec_digit 10 l 0 (show_nat n) = Some n"
proof (induction n rule: show_nat.induct)
  case (1 n)
  show ?case
  proof (cases "n < 10")
    case True
    with 1(2) show ?thesis by (simp add: show_nat.simps[of n])
  next
    case False
    have "n div 10 < l" using 1(2) by (meson div_le_dividend le_less_trans)
    with 1(1)[OF False] have "radix_digits dec_digit 10 l 0 (show_nat (n div 10)) = Some (n div 10)"
      by simp
    moreover have "n div 10 * 10 + n mod 10 = n" by simp
    ultimately show ?thesis
      using False 1(2) by (simp add: show_nat.simps[of n] radix_digits_append)
  qed
qed

lemma from_str_radix_show:
  assumes "n < l"
  shows "from_str_radix dec_digit 10 l (show_nat n) = Some n"
proof -
  obtain b bs where s: "show_nat n = b # bs" by (cases "show_nat n") auto
  then have "b \<noteq> 0x2B" "b \<noteq> 0x2D" using show_nat_char_facts[of b n] by auto
  then show ?thesis
    using radix_digits_show[OF assms] s
    by (cases bs) (simp_all add: from_str_radix_def del: radix_digits.simps)
qed

lemma parse_u32_show [simp]: "parse_u32 (show_nat (unat w)) = Some w"
  using unat_bound[of w] by (simp add: parse_u32_def from_str_radix_show)

section \<open>Splitting\<close>

fun split_on :: "u8 \<Rightarrow> rstr \<Rightarrow> rstr list" where
  "split_on sep [] = [[]]"
| "split_on sep (b # bs) =
    (if b = sep then [] # split_on sep bs
     else (case split_on sep bs of [] \<Rightarrow> [[b]] | p # ps \<Rightarrow> (b # p) # ps))"

fun split_once :: "u8 \<Rightarrow> rstr \<Rightarrow> (rstr \<times> rstr) option" where
  "split_once sep [] = None"
| "split_once sep (b # bs) =
    (if b = sep then Some ([], bs)
     else map_option (\<lambda>(p, r). (b # p, r)) (split_once sep bs))"

lemma split_on_none: "sep \<notin> set xs \<Longrightarrow> split_on sep xs = [xs]"
  by (induction xs) auto

lemma split_on_append: "sep \<notin> set xs \<Longrightarrow> split_on sep (xs @ sep # ys) = xs # split_on sep ys"
  by (induction xs) auto

lemma split_once_Some: "split_once sep s = Some (p, r) \<Longrightarrow> s = p @ sep # r \<and> sep \<notin> set p"
  by (induction s arbitrary: p) (auto split: if_splits)

lemma split_once_append: "sep \<notin> set xs \<Longrightarrow> split_once sep (xs @ sep # ys) = Some (xs, ys)"
  by (induction xs) auto

lemma split_once_none: "split_once sep xs = None \<longleftrightarrow> sep \<notin> set xs"
  by (induction xs) auto

end
