(* ===== verification/Btree_Map.thy ===== *)
theory Btree_Map
  imports Skaidb_Prelude
begin

text \<open>
  \<^verbatim>\<open>std::collections::BTreeMap\<close> as the sources use it: an association list in strictly ascending
  key order, so that iteration order (on which the encodings and the balancer rely) is part of the
  model. \<open>bt_sorted\<close> is the container's own invariant. The locale \<open>ordered_map\<close> is the contract
  clients use; \<open>bt\<close> discharges it.
\<close>

type_synonym ('k, 'v) btree = "('k \<times> 'v) list"

definition bt_sorted :: "('k::linorder, 'v) btree \<Rightarrow> bool" where
  "bt_sorted m \<longleftrightarrow> sorted_wrt (<) (map fst m)"

definition bt_get :: "('k, 'v) btree \<Rightarrow> 'k \<Rightarrow> 'v option" where
  "bt_get m k = map_of m k"

fun bt_insert :: "'k::linorder \<Rightarrow> 'v \<Rightarrow> ('k, 'v) btree \<Rightarrow> ('k, 'v) btree" where
  "bt_insert k v [] = [(k, v)]"
| "bt_insert k v ((j, w) # m) =
     (if k < j then (k, v) # (j, w) # m
      else if k = j then (k, v) # m
      else (j, w) # bt_insert k v m)"

definition bt_remove :: "'k \<Rightarrow> ('k, 'v) btree \<Rightarrow> ('k, 'v) btree" where
  "bt_remove k m = filter (\<lambda>(j, _). j \<noteq> k) m"

text \<open>\<^verbatim>\<open>BTreeMap::retain\<close> whose closure may also change the value it keeps.\<close>

definition bt_retain :: "('k \<Rightarrow> 'v \<Rightarrow> 'v option) \<Rightarrow> ('k, 'v) btree \<Rightarrow> ('k, 'v) btree" where
  "bt_retain f m = List.map_filter (\<lambda>(k, v). map_option (Pair k) (f k v)) m"

text \<open>\<^verbatim>\<open>if let Some(x) = m.get_mut(k) { ... }\<close>.\<close>

definition bt_update :: "'k \<Rightarrow> ('v \<Rightarrow> 'v) \<Rightarrow> ('k, 'v) btree \<Rightarrow> ('k, 'v) btree" where
  "bt_update k f m = map (\<lambda>(j, v). (j, if j = k then f v else v)) m"

section \<open>Lemmas\<close>

lemma bt_sorted_Nil [simp]: "bt_sorted []"
  by (simp add: bt_sorted_def)

lemma bt_sorted_Cons [simp]:
  "bt_sorted ((k, v) # m) \<longleftrightarrow> (\<forall>j \<in> fst ` set m. k < j) \<and> bt_sorted m"
  by (auto simp: bt_sorted_def)

lemma bt_sorted_distinct: "bt_sorted m \<Longrightarrow> distinct (map fst m)"
  by (induction m) (auto simp: bt_sorted_def)

lemma set_bt_insert_keys [simp]: "fst ` set (bt_insert k v m) = insert k (fst ` set m)"
  by (induction k v m rule: bt_insert.induct) auto

lemma bt_sorted_insert [simp, intro]: "bt_sorted m \<Longrightarrow> bt_sorted (bt_insert k v m)"
  by (induction k v m rule: bt_insert.induct) auto

lemma bt_get_Nil [simp]: "bt_get [] k = None"
  by (simp add: bt_get_def)

lemma bt_get_Cons [simp]: "bt_get ((j, v) # m) k = (if k = j then Some v else bt_get m k)"
  by (simp add: bt_get_def)

lemma bt_get_None: "bt_get m k = None \<longleftrightarrow> k \<notin> fst ` set m"
  by (simp add: bt_get_def map_of_eq_None_iff)

lemma bt_get_SomeD: "bt_get m k = Some v \<Longrightarrow> (k, v) \<in> set m"
  by (simp add: bt_get_def map_of_SomeD)

lemma bt_get_Some_iff: "bt_sorted m \<Longrightarrow> bt_get m k = Some v \<longleftrightarrow> (k, v) \<in> set m"
  by (simp add: bt_get_def bt_sorted_distinct)

lemma bt_get_insert [simp]:
  "bt_get (bt_insert k v m) j = (if j = k then Some v else bt_get m j)"
  by (induction k v m rule: bt_insert.induct) auto

lemma set_bt_insertD: "x \<in> set (bt_insert k v m) \<Longrightarrow> x = (k, v) \<or> x \<in> set m"
  by (induction k v m rule: bt_insert.induct) (auto split: if_splits)

lemma bt_insert_last:
  "(\<And>j. j \<in> fst ` set m \<Longrightarrow> j < k) \<Longrightarrow> bt_insert k v m = m @ [(k, v)]"
proof (induction m)
  case (Cons x m)
  obtain j w where [simp]: "x = (j, w)" by (cases x)
  have "j < k" using Cons.prems by simp
  then have "\<not> k < j" "k \<noteq> j" by auto
  with Cons show ?case by simp
qed simp

lemma bt_sorted_append:
  "bt_sorted (m @ n) \<longleftrightarrow>
   bt_sorted m \<and> bt_sorted n \<and> (\<forall>j \<in> fst ` set m. \<forall>k \<in> fst ` set n. j < k)"
  by (auto simp: bt_sorted_def sorted_wrt_append)

lemma bt_sorted_remove [simp, intro]: "bt_sorted m \<Longrightarrow> bt_sorted (bt_remove k m)"
  by (induction m) (auto simp: bt_remove_def)

lemma bt_get_remove [simp]: "bt_get (bt_remove k m) j = (if j = k then None else bt_get m j)"
  by (induction m) (auto simp: bt_remove_def)

lemma keys_bt_update [simp]: "map fst (bt_update k f m) = map fst m"
  by (induction m) (auto simp: bt_update_def)

lemma bt_sorted_update [simp]: "bt_sorted (bt_update k f m) = bt_sorted m"
  by (simp add: bt_sorted_def)

lemma bt_get_update [simp]:
  "bt_get (bt_update k f m) j = (if j = k then map_option f (bt_get m j) else bt_get m j)"
  by (induction m) (auto simp: bt_update_def)

lemma bt_retain_Nil [simp]: "bt_retain f [] = []"
  by (simp add: bt_retain_def map_filter_simps)

lemma bt_retain_Cons [simp]:
  "bt_retain f ((k, v) # m) = (case f k v of None \<Rightarrow> bt_retain f m | Some w \<Rightarrow> (k, w) # bt_retain f m)"
  by (simp add: bt_retain_def map_filter_simps split: option.splits)

lemma keys_bt_retain: "fst ` set (bt_retain f m) \<subseteq> fst ` set m"
  by (induction m) (force split: option.splits)+

lemma bt_sorted_retain [simp, intro]: "bt_sorted m \<Longrightarrow> bt_sorted (bt_retain f m)"
proof (induction m)
  case (Cons x m)
  obtain k v where [simp]: "x = (k, v)" by (cases x)
  show ?case
    using Cons keys_bt_retain[of f m] by (force split: option.splits)
qed simp

lemma bt_get_retain:
  "bt_sorted m \<Longrightarrow>
   bt_get (bt_retain f m) k = (case bt_get m k of None \<Rightarrow> None | Some v \<Rightarrow> f k v)"
proof (induction m)
  case (Cons x m)
  obtain j v where [simp]: "x = (j, v)" by (cases x)
  from Cons.prems have "bt_get m j = None"
    by (auto simp: bt_get_None)
  with Cons show ?case by (auto split: option.splits)
qed simp

lemma bt_sorted_keys_unique:
  assumes "bt_sorted m" and "bt_sorted n" and "\<And>k. bt_get m k = bt_get n k"
  shows "m = n"
proof -
  have d: "distinct (map fst m)" "distinct (map fst n)"
    using assms bt_sorted_distinct by blast+
  have mo: "map_of m = map_of n" using assms(3) by (auto simp: bt_get_def)
  then have "fst ` set m = fst ` set n"
    by (metis dom_map_of_conv_image_fst)
  then have keys: "map fst m = map fst n"
    using assms(1,2) by (intro strict_sorted_equal) (simp_all add: bt_sorted_def)
  have rebuild: "distinct (map fst l) \<Longrightarrow> l = map (\<lambda>k. (k, the (map_of l k))) (map fst l)"
    for l :: "('a, 'b) btree"
    by (auto intro!: map_idI[symmetric])
  show ?thesis
    using rebuild[OF d(1)] rebuild[OF d(2)] keys mo by simp
qed

section \<open>The container's contract\<close>

locale ordered_map =
  fixes empty :: "'m" and insert_op :: "'k \<Rightarrow> 'v \<Rightarrow> 'm \<Rightarrow> 'm" and remove_op :: "'k \<Rightarrow> 'm \<Rightarrow> 'm"
    and get :: "'m \<Rightarrow> 'k \<Rightarrow> 'v option" and inv :: "'m \<Rightarrow> bool"
  assumes get_empty: "get empty k = None"
    and get_insert: "inv m \<Longrightarrow> get (insert_op k v m) j = (if j = k then Some v else get m j)"
    and get_remove: "inv m \<Longrightarrow> get (remove_op k m) j = (if j = k then None else get m j)"
    and inv_empty: "inv empty"
    and inv_insert: "inv m \<Longrightarrow> inv (insert_op k v m)"
    and inv_remove: "inv m \<Longrightarrow> inv (remove_op k m)"
    and extensional: "inv m \<Longrightarrow> inv n \<Longrightarrow> (\<And>k. get m k = get n k) \<Longrightarrow> m = n"
begin

lemma inv_fold_insert: "inv m \<Longrightarrow> inv (fold (\<lambda>(k, v). insert_op k v) kvs m)"
  by (induction kvs arbitrary: m) (auto intro: inv_insert)

lemma insert_idem: "inv m \<Longrightarrow> insert_op k v (insert_op k w m) = insert_op k v m"
  by (rule extensional) (auto simp: inv_insert get_insert)

lemma insert_commute:
  "inv m \<Longrightarrow> k \<noteq> j \<Longrightarrow> insert_op k v (insert_op j w m) = insert_op j w (insert_op k v m)"
  by (rule extensional) (auto simp: inv_insert get_insert)

end

interpretation bt: ordered_map "[]" bt_insert bt_remove bt_get bt_sorted
  by unfold_locales (auto intro: bt_sorted_keys_unique)

end
