(* ===== verification/Value.thy ===== *)
theory Value
  imports Text Btree_Map "HOL-Library.Signed_Division"
begin

text \<open>
  The value model of \<^verbatim>\<open>skaidb-types/src/value.rs\<close>: UUIDs, decimals, documents, values and their
  dynamic types, with the exact decimal comparisons. A \<^verbatim>\<open>BTreeMap\<close> document is an ordered
  association list (theory \<open>Btree_Map\<close>); an \<^verbatim>\<open>f64\<close> is its bit pattern.
\<close>

datatype ordering = Less | Equal | Greater

primrec ord_reverse :: "ordering \<Rightarrow> ordering" where
  "ord_reverse Less = Greater"
| "ord_reverse Equal = Equal"
| "ord_reverse Greater = Less"

definition ord_cmp :: "'a::linorder \<Rightarrow> 'a \<Rightarrow> ordering" where
  "ord_cmp a b = (if a < b then Less else if a = b then Equal else Greater)"

datatype value_error =
    InvalidUuid rstr
  | OutOfRange string
  | UnrepresentableJson string

section \<open>UUIDs\<close>

type_synonym uuid = bytes

definition uuid_nil :: uuid where
  "uuid_nil = replicate 16 0"

definition uuid_parse_str :: "rstr \<Rightarrow> (value_error, uuid) res" where
  "uuid_parse_str s =
    (let h = filter (\<lambda>c. c \<noteq> 0x2D) s in
     if length h \<noteq> 32 then Inl (Err (InvalidUuid s))
     else rmap (\<lambda>i. rbind (str_slice h (i * 2) (i * 2 + 2))
            (\<lambda>t. case u8_from_hex t of None \<Rightarrow> Inl (Err (InvalidUuid s)) | Some b \<Rightarrow> Inr b)) [0..<16])"

definition uuid_display :: "uuid \<Rightarrow> rstr" where
  "uuid_display u =
     hex (take 4 u) @ [0x2D] @ hex (take 2 (drop 4 u)) @ [0x2D] @ hex (take 2 (drop 6 u)) @ [0x2D]
     @ hex (take 2 (drop 8 u)) @ [0x2D] @ hex (take 6 (drop 10 u))"

section \<open>Decimals\<close>

record decimal =
  mantissa :: i128
  scale :: u32

definition decimal_new :: "i128 \<Rightarrow> u32 \<Rightarrow> decimal" where
  "decimal_new m s = \<lparr>mantissa = m, scale = s\<rparr>"

definition MAX_PLAIN_SCALE :: nat where
  "MAX_PLAIN_SCALE = 1000"

text \<open>The trailing-zero loop of \<^verbatim>\<open>normalized\<close>; \<^verbatim>\<open>%\<close> and \<^verbatim>\<open>/\<close> truncate toward zero.\<close>

primrec normalize_loop :: "nat \<Rightarrow> i128 \<Rightarrow> i128 \<times> nat" where
  "normalize_loop 0 m = (m, 0)"
| "normalize_loop (Suc s) m =
    (if sint m smod 10 = 0 then normalize_loop s (word_of_int (sint m sdiv 10)) else (m, Suc s))"

definition normalized :: "decimal \<Rightarrow> decimal" where
  "normalized d =
    (if mantissa d = 0 then \<lparr>mantissa = 0, scale = 0\<rparr>
     else let (m, s) = normalize_loop (unat (scale d)) (mantissa d)
          in \<lparr>mantissa = m, scale = word_of_nat s\<rparr>)"

definition exact_bytes :: "decimal \<Rightarrow> bytes" where
  "exact_bytes d = (let n = normalized d in be_bytes 16 (unat (mantissa n)) @ be_bytes 4 (unat (scale n)))"

text \<open>\<^verbatim>\<open>i128::checked_mul\<close>, and \<^verbatim>\<open>10i128.checked_pow\<close>: \<open>10 ^ 38\<close> is the largest power below \<open>2 ^ 127\<close>.\<close>

definition in_i128 :: "int \<Rightarrow> bool" where
  "in_i128 x \<longleftrightarrow> - (2 ^ 127) \<le> x \<and> x < 2 ^ 127"

definition checked_mul_i128 :: "i128 \<Rightarrow> i128 \<Rightarrow> i128 option" where
  "checked_mul_i128 a b = (if in_i128 (sint a * sint b) then Some (word_of_int (sint a * sint b)) else None)"

definition pow10_i128 :: "nat \<Rightarrow> i128 option" where
  "pow10_i128 n = (if n \<le> 38 then Some (word_of_int (10 ^ n)) else None)"

definition cmp_i64_decimal :: "i64 \<Rightarrow> decimal \<Rightarrow> ordering" where
  "cmp_i64_decimal i d =
    (let (whole, frac) =
       (case pow10_i128 (unat (scale d)) of
          Some p \<Rightarrow> (sint (mantissa d) sdiv sint p, sint (mantissa d) smod sint p)
        | None \<Rightarrow> (0, sint (mantissa d)))
     in case ord_cmp (sint i) whole of
          Equal \<Rightarrow> ord_cmp 0 frac
        | other \<Rightarrow> other)"

definition cmp_decimal :: "decimal \<Rightarrow> decimal \<Rightarrow> ordering" where
  "cmp_decimal a b =
    (if scale a = scale b then ord_cmp (sint (mantissa a)) (sint (mantissa b))
     else
       let (small, large, flip) = (if scale a < scale b then (a, b, False) else (b, a, True));
           scaled = Option.bind (pow10_i128 (unat (scale large - scale small)))
                      (\<lambda>p. checked_mul_i128 (mantissa small) p);
           ord = (case scaled of
                    Some m \<Rightarrow> ord_cmp (sint m) (sint (mantissa large))
                  | None \<Rightarrow> (if mantissa small = 0 then ord_cmp 0 (sint (mantissa large))
                            else ord_cmp (sint (mantissa small)) 0))
       in if flip then ord_reverse ord else ord)"

text \<open>\<^verbatim>\<open>Display for Decimal\<close>.\<close>

definition decimal_display :: "decimal \<Rightarrow> rstr" where
  "decimal_display d =
    (let sign = (if sint (mantissa d) < 0 then [0x2D] else []);
         digits = show_nat (nat \<bar>sint (mantissa d)\<bar>) in
     if scale d = 0 then sign @ digits
     else if MAX_PLAIN_SCALE < unat (scale d)
     then sign @ digits @ of_str ''E-'' @ show_nat (unat (scale d))
     else let sc = unat (scale d) in
       if length digits \<le> sc
       then sign @ of_str ''0.'' @ replicate (sc - length digits) 0x30 @ digits
       else let split = length digits - sc in sign @ take split digits @ [0x2E] @ drop split digits)"

section \<open>Values and documents\<close>

datatype value_type =
  TNull | TBool | TInt | TFloat | TDecimal | TString | TBytes | TUuid | TTimestamp | TArray | TDocument

datatype val =
    VNull
  | VBool bool
  | VInt i64
  | VFloat f64
  | VDecimal decimal
  | VString rstr
  | VBytes bytes
  | VUuid uuid
  | VTimestamp i64
  | VArray "val list"
  | VDocument "(rstr \<times> val) list"

type_synonym document = "(rstr, val) btree"

definition type_of :: "val \<Rightarrow> value_type" where
  "type_of v = (case v of
     VNull \<Rightarrow> TNull | VBool _ \<Rightarrow> TBool | VInt _ \<Rightarrow> TInt | VFloat _ \<Rightarrow> TFloat | VDecimal _ \<Rightarrow> TDecimal
   | VString _ \<Rightarrow> TString | VBytes _ \<Rightarrow> TBytes | VUuid _ \<Rightarrow> TUuid | VTimestamp _ \<Rightarrow> TTimestamp
   | VArray _ \<Rightarrow> TArray | VDocument _ \<Rightarrow> TDocument)"

definition is_null :: "val \<Rightarrow> bool" where
  "is_null v \<longleftrightarrow> (case v of VNull \<Rightarrow> True | _ \<Rightarrow> False)"

definition doc_new :: document where
  "doc_new = []"

definition doc_insert :: "rstr \<Rightarrow> val \<Rightarrow> document \<Rightarrow> document" where
  "doc_insert k v d = bt_insert k v d"

definition doc_get :: "document \<Rightarrow> rstr \<Rightarrow> val option" where
  "doc_get d k = bt_get d k"

definition doc_len :: "document \<Rightarrow> nat" where
  "doc_len d = length d"

definition doc_is_empty :: "document \<Rightarrow> bool" where
  "doc_is_empty d \<longleftrightarrow> d = []"

lemma split_once_shorter: "split_once sep s = Some (p, r) \<Longrightarrow> length r < length s"
  by (auto dest: split_once_Some)

function get_path_loop :: "document \<Rightarrow> rstr \<Rightarrow> val option" where
  "get_path_loop doc rest =
    (case split_once 0x2E rest of
       Some (part, tail) \<Rightarrow>
         (case doc_get doc part of
            Some (VDocument d) \<Rightarrow> get_path_loop d tail
          | _ \<Rightarrow> None)
     | None \<Rightarrow> doc_get doc rest)"
  by pat_completeness auto
termination
  by (relation "measure (\<lambda>(_, rest). length rest)") (auto dest: split_once_shorter)

declare get_path_loop.simps [simp del]

definition doc_get_path :: "document \<Rightarrow> rstr \<Rightarrow> val option" where
  "doc_get_path doc path =
    (case split_once 0x2E path of
       None \<Rightarrow> doc_get doc path
     | Some (first, rest) \<Rightarrow>
         (case doc_get doc first of
            Some (VDocument d) \<Rightarrow> get_path_loop d rest
          | _ \<Rightarrow> None))"

primrec contains_decimal :: "val \<Rightarrow> bool" where
  "contains_decimal VNull = False"
| "contains_decimal (VBool b) = False"
| "contains_decimal (VInt i) = False"
| "contains_decimal (VFloat f) = False"
| "contains_decimal (VDecimal d) = True"
| "contains_decimal (VString s) = False"
| "contains_decimal (VBytes b) = False"
| "contains_decimal (VUuid u) = False"
| "contains_decimal (VTimestamp t) = False"
| "contains_decimal (VArray items) = list_ex id (map contains_decimal items)"
| "contains_decimal (VDocument doc) = list_ex snd (map (map_prod id contains_decimal) doc)"

text \<open>What Rust's types guarantee of every value: strings are UTF-8, a UUID has 16 bytes, a document
  is an ordered map.\<close>

fun wf_val :: "val \<Rightarrow> bool" where
  "wf_val (VString s) = utf8_ok s"
| "wf_val (VUuid u) = (length u = 16)"
| "wf_val (VArray items) = (\<forall>v \<in> set items. wf_val v)"
| "wf_val (VDocument doc) = (bt_sorted doc \<and> (\<forall>(k, v) \<in> set doc. utf8_ok k \<and> wf_val v))"
| "wf_val _ = True"

section \<open>UUID text\<close>

lemma dash_notin_hex [simp]: "(0x2D :: u8) \<notin> set (hex bs)"
proof
  assume "(0x2D :: u8) \<in> set (hex bs)"
  then obtain n where "n < 16" "0x2D = hex_char n" using set_hex by blast
  then show False using hex_char_facts[of n] by simp
qed

lemma filter_dash_hex [simp]: "filter (\<lambda>c. c \<noteq> 0x2D) (hex bs) = hex bs"
  using dash_notin_hex[of bs] by (metis (mono_tags, lifting) filter_id_conv)

lemma hex_append: "hex (xs @ ys) = hex xs @ hex ys"
  by (simp add: hex_def)

lemma uuid_chunks:
  "length u = 16 \<Longrightarrow> take 4 u @ take 2 (drop 4 u) @ take 2 (drop 6 u) @ take 2 (drop 8 u) @ take 6 (drop 10 u) = u"
proof -
  assume "length u = 16"
  then have "take 6 (drop 10 u) = drop 10 u" by simp
  moreover have "take 2 (drop 8 u) @ drop 10 u = drop 8 u"
    and "take 2 (drop 6 u) @ drop 8 u = drop 6 u" and "take 2 (drop 4 u) @ drop 6 u = drop 4 u"
    using append_take_drop_id[of 2 "drop 8 u"] append_take_drop_id[of 2 "drop 6 u"]
      append_take_drop_id[of 2 "drop 4 u"] by simp_all
  ultimately show ?thesis by simp
qed

lemma filter_dash_display:
  assumes "length u = 16"
  shows "filter (\<lambda>c. c \<noteq> 0x2D) (uuid_display u) = hex u"
proof -
  have "filter (\<lambda>c. c \<noteq> 0x2D) (uuid_display u) =
    hex (take 4 u @ take 2 (drop 4 u) @ take 2 (drop 6 u) @ take 2 (drop 8 u) @ take 6 (drop 10 u))"
    by (simp only: uuid_display_def filter_append filter_dash_hex hex_append) simp
  then show ?thesis by (simp only: uuid_chunks[OF assms])
qed

section \<open>Paths into documents\<close>

text \<open>Reference: descend one document per segment.\<close>

fun path_lookup :: "document \<Rightarrow> rstr list \<Rightarrow> val option" where
  "path_lookup doc [] = None"
| "path_lookup doc [k] = doc_get doc k"
| "path_lookup doc (k # ks) =
    (case doc_get doc k of Some (VDocument d) \<Rightarrow> path_lookup d ks | _ \<Rightarrow> None)"

lemma split_on_nonempty [simp]: "split_on sep s \<noteq> []"
  by (induction s) (auto split: list.splits)

lemma split_on_cases:
  "split_on sep s = (case split_once sep s of None \<Rightarrow> [s] | Some (p, r) \<Rightarrow> p # split_on sep r)"
proof (cases "split_once sep s")
  case None
  then show ?thesis using split_on_none[of sep s] split_once_none[of sep s] by simp
next
  case (Some pr)
  obtain p r where pr: "pr = (p, r)" by (cases pr)
  with Some have "s = p @ sep # r" "sep \<notin> set p" by (auto dest: split_once_Some)
  then show ?thesis using Some pr by (simp add: split_on_append)
qed

lemma get_path_loop_lookup: "get_path_loop doc rest = path_lookup doc (split_on 0x2E rest)"
proof (induction doc rest rule: get_path_loop.induct)
  case (1 doc rest)
  show ?case
  proof (cases "split_once 0x2E rest")
    case None
    then show ?thesis by (simp add: get_path_loop.simps[of doc rest] split_on_cases[of _ rest])
  next
    case (Some pr)
    obtain p r where pr: "pr = (p, r)" by (cases pr)
    obtain q qs where q: "split_on 0x2E r = q # qs" by (cases "split_on 0x2E r") auto
    show ?thesis
      using Some pr q "1" [OF Some pr [symmetric]]
      by (auto simp: get_path_loop.simps[of doc rest] split_on_cases[of _ rest]
          split: option.splits val.splits)
  qed
qed

section \<open>Decimals as numbers\<close>

text \<open>Two decimals compared as the rationals \<open>mantissa / 10 ^ scale\<close>, cross-multiplied.\<close>

definition dec_cmp :: "decimal \<Rightarrow> decimal \<Rightarrow> ordering" where
  "dec_cmp a b = ord_cmp (sint (mantissa a) * 10 ^ unat (scale b)) (sint (mantissa b) * 10 ^ unat (scale a))"

lemma ord_cmp_mult: "0 < (k::int) \<Longrightarrow> ord_cmp (a * k) (b * k) = ord_cmp a b"
  by (simp add: ord_cmp_def)

lemma ord_cmp_flip: "ord_reverse (ord_cmp a b) = ord_cmp b a"
  by (auto simp: ord_cmp_def)

lemma dec_cmp_flip: "dec_cmp a b = ord_reverse (dec_cmp b a)"
  by (simp add: dec_cmp_def ord_cmp_flip)

lemma sint_i128_range: "in_i128 (sint (m :: i128))"
  using sint_greater_eq[of m] sint_less[of m] by (simp add: in_i128_def)

lemma sint_word_of_int_i128: "in_i128 x \<Longrightarrow> sint (word_of_int x :: i128) = x"
  by (simp add: in_i128_def sint_sbintrunc' signed_take_bit_int_eq_self)

lemma pow10_bound: "n \<le> 38 \<Longrightarrow> (10::int) ^ n < 2 ^ 127"
proof -
  assume "n \<le> 38"
  then have "(10::int) ^ n \<le> 10 ^ 38" by (rule power_increasing) simp
  also have "\<dots> < 2 ^ 127" by simp
  finally show ?thesis .
qed

lemma pow10_bound2: "38 < n \<Longrightarrow> (2::int) ^ 127 < 10 ^ n"
proof -
  assume "38 < n"
  then have "(10::int) ^ 39 \<le> 10 ^ n" by (intro power_increasing) auto
  moreover have "(2::int) ^ 127 < 10 ^ 39" by simp
  ultimately show ?thesis by simp
qed

lemma pow10_i128_Some:
  assumes "pow10_i128 n = Some p"
  shows "sint p = 10 ^ n \<and> n \<le> 38"
proof -
  have n: "n \<le> 38" and p: "p = word_of_int (10 ^ n)"
    using assms by (simp_all only: pow10_i128_def split: if_splits) simp_all
  have "in_i128 (10 ^ n)"
    using pow10_bound[OF n] by (simp add: in_i128_def order_trans[of _ 0])
  then show ?thesis using n by (simp only: p sint_word_of_int_i128)
qed

lemma pow10_i128_None: "pow10_i128 n = None \<Longrightarrow> 38 < n"
  by (simp add: pow10_i128_def split: if_splits)

lemma checked_mul_Some: "checked_mul_i128 a b = Some m \<Longrightarrow> sint m = sint a * sint b"
  by (cases "in_i128 (sint a * sint b)")
    (auto simp only: checked_mul_i128_def if_True if_False sint_word_of_int_i128 option.inject
      option.distinct)

lemma checked_mul_None: "checked_mul_i128 a b = None \<Longrightarrow> \<not> in_i128 (sint a * sint b)"
  by (simp add: checked_mul_i128_def split: if_splits)

lemma sint_eq_0_iff: "sint (w :: 'a::len word) = 0 \<longleftrightarrow> w = 0"
  by (rule signed_eq_0_iff)

lemma big_product_sign:
  fixes m x p :: int
  assumes "in_i128 x" and "m \<noteq> 0" and "0 < p" and "\<not> in_i128 (m * p) \<or> 2 ^ 127 < p"
  shows "ord_cmp (m * p) x = ord_cmp m 0"
proof (cases "0 < m")
  case True
  then have "p \<le> m * p" "0 < m * p" using assms(3) by auto
  then have "2 ^ 127 \<le> m * p" using assms(4) by (auto simp: in_i128_def)
  then have "x < m * p" using assms(1) by (auto simp: in_i128_def)
  with True show ?thesis by (simp add: ord_cmp_def)
next
  case False
  with assms(2) have "m \<le> - 1" by simp
  then have "m * p \<le> - p" using mult_right_mono[of m "-1" p] assms(3) by simp
  then have "m * p < - (2 ^ 127)" using assms(3,4) by (auto simp: in_i128_def)
  then have "m * p < x" using assms(1) by (auto simp: in_i128_def)
  with \<open>m \<le> - 1\<close> show ?thesis by (simp add: ord_cmp_def)
qed

lemma unat_scale_diff:
  "a \<le> b \<Longrightarrow> unat b = unat a + unat (b - a)" for a b :: u32
  by (simp add: unat_sub word_le_nat_alt)

lemma dec_cmp_align:
  assumes "scale a < scale b"
  shows "dec_cmp a b = ord_cmp (sint (mantissa a) * 10 ^ unat (scale b - scale a)) (sint (mantissa b))"
proof -
  have "unat (scale b) = unat (scale a) + unat (scale b - scale a)"
    using assms by (intro unat_scale_diff) simp
  then have "sint (mantissa a) * 10 ^ unat (scale b)
      = sint (mantissa a) * 10 ^ unat (scale b - scale a) * 10 ^ unat (scale a)"
    by (simp add: power_add mult.commute mult.left_commute)
  then show ?thesis by (simp only: dec_cmp_def ord_cmp_mult zero_less_power zero_less_numeral)
qed

lemma cmp_aligned:
  assumes "scale a < scale b"
  shows "(case Option.bind (pow10_i128 (unat (scale b - scale a))) (checked_mul_i128 (mantissa a)) of
            Some m \<Rightarrow> ord_cmp (sint m) (sint (mantissa b))
          | None \<Rightarrow> (if mantissa a = 0 then ord_cmp 0 (sint (mantissa b))
                    else ord_cmp (sint (mantissa a)) 0)) = dec_cmp a b"
proof (cases "pow10_i128 (unat (scale b - scale a))")
  case None
  then have "(2::int) ^ 127 < 10 ^ unat (scale b - scale a)"
    by (intro pow10_bound2 pow10_i128_None)
  then show ?thesis
    using None big_product_sign[OF sint_i128_range, of "sint (mantissa a)" "10 ^ unat (scale b - scale a)"]
    by (simp add: dec_cmp_align[OF assms] sint_eq_0_iff)
next
  case (Some p)
  then have p: "sint p = 10 ^ unat (scale b - scale a)" by (simp add: pow10_i128_Some)
  show ?thesis
  proof (cases "checked_mul_i128 (mantissa a) p")
    case None
    then have "\<not> in_i128 (sint (mantissa a) * 10 ^ unat (scale b - scale a))"
      using p by (auto dest: checked_mul_None)
    then show ?thesis
      using Some None
        big_product_sign[OF sint_i128_range, of "sint (mantissa a)" "10 ^ unat (scale b - scale a)"]
      by (simp add: dec_cmp_align[OF assms] sint_eq_0_iff)
  next
    case (Some m)
    with \<open>pow10_i128 _ = Some p\<close> show ?thesis
      by (simp add: dec_cmp_align[OF assms] checked_mul_Some p)
  qed
qed

lemma cmp_decimal_eq: "cmp_decimal a b = dec_cmp a b"
proof (cases "scale a = scale b")
  case True
  then show ?thesis by (simp add: cmp_decimal_def dec_cmp_def ord_cmp_mult)
next
  case False
  then consider "scale a < scale b" | "scale b < scale a" by fastforce
  then show ?thesis
  proof cases
    case 1
    then show ?thesis using cmp_aligned[OF 1] False by (simp add: cmp_decimal_def Let_def)
  next
    case 2
    then show ?thesis
      using cmp_aligned[OF 2] False dec_cmp_flip[of a b] order_less_not_sym[OF 2]
      by (simp add: cmp_decimal_def Let_def)
  qed
qed

text \<open>Truncated division: the remainder is smaller than the divisor and has the dividend's sign.\<close>

lemma smod_abs_less: "0 < (p::int) \<Longrightarrow> \<bar>m smod p\<bar> < p"
  using smod_int_compares(1-4)[of m p] by linarith

lemma cmp_trunc:
  fixes i m p :: int
  assumes "0 < p"
  shows "(case ord_cmp i (m sdiv p) of Equal \<Rightarrow> ord_cmp 0 (m smod p) | other \<Rightarrow> other)
       = ord_cmp (i * p) m"
proof -
  define w f where "w = m sdiv p" and "f = m smod p"
  have m: "m = w * p + f" unfolding w_def f_def by (simp add: mult.commute mult_sdiv_smod_eq)
  have f: "\<bar>f\<bar> < p" unfolding f_def using assms by (rule smod_abs_less)
  consider "i < w" | "i = w" | "w < i" by linarith
  then show ?thesis
  proof cases
    case 1
    then have "i * p \<le> (w - 1) * p" using assms by (intro mult_right_mono) auto
    then have "i * p < m" using m f by (simp add: left_diff_distrib)
    with 1 show ?thesis by (simp add: ord_cmp_def flip: w_def)
  next
    case 2
    have "ord_cmp (w * p) m = ord_cmp 0 f" unfolding m by (simp add: ord_cmp_def)
    with 2 show ?thesis by (simp add: ord_cmp_def[of w w] flip: w_def f_def)
  next
    case 3
    then have "(w + 1) * p \<le> i * p" using assms by (intro mult_right_mono) auto
    then have "m < i * p" using m f by (simp add: distrib_right)
    with 3 show ?thesis by (simp add: ord_cmp_def flip: w_def)
  qed
qed

lemma normalize_loop_spec:
  "normalize_loop s m = (m', s') \<Longrightarrow>
   sint m' * 10 ^ s = sint m * 10 ^ s' \<and> s' \<le> s \<and> (s' = 0 \<or> \<not> 10 dvd sint m')"
proof (induction s arbitrary: m)
  case (Suc s)
  show ?case
  proof (cases "sint m smod 10 = 0")
    case True
    define q where "q = sint m sdiv 10"
    have q: "sint m = 10 * q"
      using mult_sdiv_smod_eq[of 10 "sint m"] True by (simp add: q_def)
    then have "in_i128 q" using sint_i128_range[of m] by (auto simp: in_i128_def)
    then have "sint (word_of_int q :: i128) = q" by (rule sint_word_of_int_i128)
    moreover have "normalize_loop s (word_of_int q) = (m', s')"
      using Suc.prems True by (simp add: q_def)
    ultimately show ?thesis
      using Suc.IH[of "word_of_int q"] q by simp
  next
    case False
    have "\<not> 10 dvd sint m"
      using False by (metis dvd_0_right dvd_abs_iff dvd_imp_mod_0 mult_zero_right abs_numeral smod_int_alt_def)
    then show ?thesis using Suc.prems False by auto
  qed
qed auto

lemma normalized_spec:
  assumes "mantissa d \<noteq> 0"
  shows "sint (mantissa (normalized d)) * 10 ^ unat (scale d) = sint (mantissa d) * 10 ^ unat (scale (normalized d))
    \<and> (unat (scale (normalized d)) = 0 \<or> \<not> 10 dvd sint (mantissa (normalized d)))"
proof -
  obtain m s where ms: "normalize_loop (unat (scale d)) (mantissa d) = (m, s)" by fastforce
  note spec = normalize_loop_spec[OF ms]
  have "unat (word_of_nat s :: u32) = s"
    using spec unat_bound[of "scale d"] by (simp add: unat_of_nat)
  with spec ms assms show ?thesis by (simp add: normalized_def)
qed

lemma normalized_zero: "mantissa d = 0 \<Longrightarrow> normalized d = \<lparr>mantissa = 0, scale = 0\<rparr>"
  by (simp add: normalized_def)

lemma normalized_nonzero: "mantissa d \<noteq> 0 \<Longrightarrow> mantissa (normalized d) \<noteq> 0"
  using normalized_spec[of d] by (auto simp: sint_eq_0_iff)

lemma canonical_decimal:
  fixes m n :: int
  assumes "m * 10 ^ t = n * 10 ^ s" and "s = 0 \<or> \<not> 10 dvd m" and "t = 0 \<or> \<not> 10 dvd n"
  shows "s = t \<and> m = n"
proof -
  have no: "\<not> s' < t'" if "m' * 10 ^ t' = n' * 10 ^ s'" "t' = 0 \<or> \<not> 10 dvd n'" for m' n' :: int and s' t' :: nat
  proof
    assume "s' < t'"
    then obtain k where k: "t' = Suc k + s'" using less_imp_Suc_add[of s' t'] by (auto simp: add.commute)
    then have "m' * 10 ^ Suc k = n'" using that(1) by (simp add: power_add)
    then show False using that(2) k by auto
  qed
  have "s = t" using no[of m t n s] no[of n s m t] assms by (metis linorder_neqE_nat)
  with assms(1) show ?thesis by simp
qed

lemma normalized_eq_iff: "normalized a = normalized b \<longleftrightarrow> dec_cmp a b = Equal"
proof -
  have eq: "dec_cmp a b = Equal \<longleftrightarrow> sint (mantissa a) * 10 ^ unat (scale b) = sint (mantissa b) * 10 ^ unat (scale a)"
    by (auto simp: dec_cmp_def ord_cmp_def)
  show ?thesis
  proof (cases "mantissa a = 0 \<or> mantissa b = 0")
    case True
    then show ?thesis
      using normalized_nonzero[of a] normalized_nonzero[of b]
      by (auto simp: eq normalized_zero sint_eq_0_iff) (metis decimal.select_convs(1))+
  next
    case False
    define m n s t where "m = sint (mantissa (normalized a))" and "n = sint (mantissa (normalized b))"
      and "s = unat (scale (normalized a))" and "t = unat (scale (normalized b))"
    have a: "m * 10 ^ unat (scale a) = sint (mantissa a) * 10 ^ s" "s = 0 \<or> \<not> 10 dvd m"
      and b: "n * 10 ^ unat (scale b) = sint (mantissa b) * 10 ^ t" "t = 0 \<or> \<not> 10 dvd n"
      using normalized_spec[of a] normalized_spec[of b] False by (simp_all add: m_def n_def s_def t_def)
    have "sint (mantissa a) * 10 ^ unat (scale b) = sint (mantissa b) * 10 ^ unat (scale a)
        \<longleftrightarrow> m * 10 ^ t = n * 10 ^ s" (is "?l \<longleftrightarrow> ?r")
    proof -
      have "?l \<longleftrightarrow> (sint (mantissa a) * 10 ^ s) * (10 ^ unat (scale b) * 10 ^ t)
        = (sint (mantissa b) * 10 ^ t) * (10 ^ unat (scale a) * 10 ^ s)"
        by (simp add: mult.assoc mult.commute mult.left_commute)
      also have "\<dots> \<longleftrightarrow> m * 10 ^ t = n * 10 ^ s"
        unfolding a(1)[symmetric] b(1)[symmetric] by (simp add: mult.assoc mult.commute mult.left_commute)
      finally show ?thesis .
    qed
    also have "\<dots> \<longleftrightarrow> s = t \<and> m = n"
      using canonical_decimal[OF _ a(2) b(2)] by auto
    also have "\<dots> \<longleftrightarrow> normalized a = normalized b"
      by (auto simp: m_def n_def s_def t_def intro!: decimal.equality
          intro: signed_word_eqI unsigned_word_eqI)
    finally show ?thesis by (simp add: eq)
  qed
qed

lemma exact_bytes_eq_iff: "exact_bytes a = exact_bytes b \<longleftrightarrow> normalized a = normalized b"
proof
  assume "exact_bytes a = exact_bytes b"
  then have "be_bytes 16 (unat (mantissa (normalized a))) = be_bytes 16 (unat (mantissa (normalized b)))"
    and "be_bytes 4 (unat (scale (normalized a))) = be_bytes 4 (unat (scale (normalized b)))"
    by (auto simp: exact_bytes_def Let_def)
  then have "unat (mantissa (normalized a)) mod 256 ^ 16 = unat (mantissa (normalized b)) mod 256 ^ 16"
    and "unat (scale (normalized a)) mod 256 ^ 4 = unat (scale (normalized b)) mod 256 ^ 4"
    by (metis be_val_be_bytes)+
  then have "mantissa (normalized a) = mantissa (normalized b)" "scale (normalized a) = scale (normalized b)"
    using unat_bound[of "mantissa (normalized a)"] unat_bound[of "mantissa (normalized b)"]
      unat_bound[of "scale (normalized a)"] unat_bound[of "scale (normalized b)"]
    by (simp_all add: word_unat_eq_iff)
  then show "normalized a = normalized b" by (intro decimal.equality) auto
qed (simp add: exact_bytes_def)

section \<open>Properties\<close>

text \<open>C11: \<^verbatim>\<open>cmp_decimal\<close> is the mathematical order of the two numbers \<open>mantissa / 10 ^ scale\<close>
  (cross-multiplied over the unbounded integers) for all \<^verbatim>\<open>i128\<close> mantissas and \<^verbatim>\<open>u32\<close> scales,
  including the branches where \<open>10 ^ \<Delta>\<close> or the rescaled mantissa leaves \<^verbatim>\<open>i128\<close>.
\<close>

theorem cmp_decimal_exact:
  "cmp_decimal a b =
     ord_cmp (sint (mantissa a) * 10 ^ unat (scale b)) (sint (mantissa b) * 10 ^ unat (scale a))"
  by (simp add: cmp_decimal_eq dec_cmp_def)

text \<open>\<^verbatim>\<open>cmp_i64_decimal\<close> is the mathematical order of an integer and a decimal, for every integer
  and every scale, including scales past the 38 digits of an \<^verbatim>\<open>i128\<close>.
\<close>

theorem cmp_i64_decimal_exact:
  "cmp_i64_decimal i d = ord_cmp (sint i * 10 ^ unat (scale d)) (sint (mantissa d))"
proof (cases "pow10_i128 (unat (scale d))")
  case (Some p)
  then have "sint p = 10 ^ unat (scale d)" by (simp add: pow10_i128_Some)
  then show ?thesis
    using Some cmp_trunc[of "sint p" "sint i" "sint (mantissa d)"]
    by (simp add: cmp_i64_decimal_def cmp_trunc)
next
  case None
  then have big: "(2::int) ^ 127 < 10 ^ unat (scale d)" by (intro pow10_bound2 pow10_i128_None)
  show ?thesis
  proof (cases "i = 0")
    case True
    with None show ?thesis by (simp add: cmp_i64_decimal_def ord_cmp_def)
  next
    case False
    then have "ord_cmp (sint i * 10 ^ unat (scale d)) (sint (mantissa d)) = ord_cmp (sint i) 0"
      using big by (intro big_product_sign[OF sint_i128_range]) (auto simp: sint_eq_0_iff)
    moreover have "ord_cmp (sint i) 0 \<noteq> Equal"
      using False by (auto simp: ord_cmp_def sint_eq_0_iff)
    ultimately show ?thesis
      using None by (simp add: cmp_i64_decimal_def split: ordering.splits)
  qed
qed

text \<open>the canonical bytes of a decimal (the exact key of a UNIQUE reservation) agree for two
  decimals exactly when \<^verbatim>\<open>cmp_decimal\<close> finds them equal: every representation of one number meets on
  one byte string and different numbers never do.
\<close>

theorem exact_bytes_canonical: "exact_bytes a = exact_bytes b \<longleftrightarrow> cmp_decimal a b = Equal"
  by (simp add: exact_bytes_eq_iff normalized_eq_iff cmp_decimal_eq)

text \<open>a dotted path resolves exactly as descending one document per \<^verbatim>\<open>.\<close>-separated segment, the
  last segment naming the field: the split-once loop of \<^verbatim>\<open>Document::get_path\<close> equals the lookup over
  the list of segments.
\<close>

theorem get_path_segments: "doc_get_path doc path = path_lookup doc (split_on 0x2E path)"
  by (simp add: doc_get_path_def get_path_loop_lookup[symmetric] get_path_loop.simps[of doc path])

text \<open>a UUID's hyphenated text parses back to the UUID.
\<close>

theorem uuid_text_roundtrip:
  assumes "length u = 16"
  shows "uuid_parse_str (uuid_display u) = Inr u"
proof -
  have "rmap (\<lambda>i. rbind (str_slice (hex u) (i * 2) (i * 2 + 2))
      (\<lambda>t. case u8_from_hex t of None \<Rightarrow> Inl (Err (InvalidUuid (uuid_display u))) | Some b \<Rightarrow> Inr b)) [0..<16]
    = Inr (map (\<lambda>i. u ! i) [0..<16])"
    by (rule rmap_Inr) (use assms in \<open>simp add: str_slice_ascii hex_slice mult.commute[of _ 2]\<close>)
  then show ?thesis
    using assms map_nth[of u] by (simp add: uuid_parse_str_def filter_dash_display)
qed

theorem uuid_text_roundtrip_witness:
  "length uuid_nil = 16 \<and> uuid_parse_str (uuid_display uuid_nil) = Inr uuid_nil"
  using uuid_text_roundtrip[of uuid_nil] by (simp add: uuid_nil_def)

text \<open>\<^verbatim>\<open>Uuid::parse_str\<close> panics on a valid UTF-8 string whose 32 bytes put a character across one of
  the two-byte slices: here \<^verbatim>\<open>a\<close>, a two-byte character and 29 zeros. The input is a string, so this is
  reachable from any caller, and the documented result for text that is no UUID is an error.
\<close>

theorem uuid_parse_panics:
  "utf8_ok (0x61 # 0xC3 # 0xA9 # replicate 29 0x30)
   \<and> uuid_parse_str (0x61 # 0xC3 # 0xA9 # replicate 29 0x30) = Inl (Panic ''str slice'')"
proof -
  have "utf8_ok (replicate 29 0x30)" by (rule utf8_ok_ascii) (simp add: ascii_def)
  then have "utf8_ok (0x61 # 0xC3 # 0xA9 # replicate 29 0x30)" by (simp add: utf8_cont_def)
  moreover have "[0..<16] = 0 # [1..<16]" by (simp add: upt_conv_Cons)
  ultimately show ?thesis
    by (simp add: uuid_parse_str_def str_slice_def is_char_boundary_def utf8_cont_def)
qed

end
