(* ===== verification/Cursor.thy ===== *)
theory Cursor
  imports Skaidb_Prelude
begin

text \<open>
  The read cursor of the decoders. The repository has three copies of it, in
  \<^verbatim>\<open>skaidb-types/src/codec.rs\<close> (\<^verbatim>\<open>Cursor\<close>), \<^verbatim>\<open>skaidb-proto/src/message.rs\<close> (\<^verbatim>\<open>Cursor\<close>) and
  \<^verbatim>\<open>skaidb-proto/src/handshake.rs\<close> (\<^verbatim>\<open>Reader\<close>), which differ in their error values only; here they are
  one definition over the two error values (overflow of the position, end of the input), and each
  component instantiates it.

  The locale \<open>field_codec\<close> states what an encoder and a decoder of one field owe each other: decoding
  at the start of the field's bytes yields the field and leaves the cursor right behind them. Counted
  sequences of fields follow once, inside the locale.
\<close>

record cursor =
  buf :: bytes
  pos :: nat

definition cur_new :: "bytes \<Rightarrow> cursor" where
  "cur_new bs = \<lparr>buf = bs, pos = 0\<rparr>"

definition cur_remaining :: "cursor \<Rightarrow> nat" where
  "cur_remaining c = length (buf c) - pos c"

definition cur_take :: "'e \<Rightarrow> 'e \<Rightarrow> nat \<Rightarrow> cursor \<Rightarrow> ('e, bytes \<times> cursor) res" where
  "cur_take over short n c =
    (let e = pos c + n in
     if 2 ^ 64 \<le> e then Inl (Err over)
     else if e \<le> length (buf c) then Inr (take n (drop (pos c) (buf c)), c\<lparr>pos := e\<rparr>)
     else Inl (Err short))"

text \<open>Indexing the slice (\<^verbatim>\<open>[0]\<close>) and copying it into a fixed array panic on a wrong length.\<close>

definition cur_u8 :: "'e \<Rightarrow> 'e \<Rightarrow> cursor \<Rightarrow> ('e, u8 \<times> cursor) res" where
  "cur_u8 over short c = rbind (cur_take over short 1 c)
     (\<lambda>(s, c). case s of [] \<Rightarrow> Inl (Panic ''index'') | b # _ \<Rightarrow> Inr (b, c))"

definition cur_array :: "'e \<Rightarrow> 'e \<Rightarrow> nat \<Rightarrow> cursor \<Rightarrow> ('e, bytes \<times> cursor) res" where
  "cur_array over short n c = rbind (cur_take over short n c)
     (\<lambda>(s, c). if length s = n then Inr (s, c) else Inl (Panic ''slice length''))"

definition cur_u16 :: "'e \<Rightarrow> 'e \<Rightarrow> cursor \<Rightarrow> ('e, u16 \<times> cursor) res" where
  "cur_u16 over short c = rbind (cur_array over short 2 c) (\<lambda>(s, c). Inr (word_of_nat (le_val s), c))"

definition cur_u32 :: "'e \<Rightarrow> 'e \<Rightarrow> cursor \<Rightarrow> ('e, u32 \<times> cursor) res" where
  "cur_u32 over short c = rbind (cur_array over short 4 c) (\<lambda>(s, c). Inr (word_of_nat (le_val s), c))"

definition cur_u64 :: "'e \<Rightarrow> 'e \<Rightarrow> cursor \<Rightarrow> ('e, u64 \<times> cursor) res" where
  "cur_u64 over short c = rbind (cur_array over short 8 c) (\<lambda>(s, c). Inr (word_of_nat (le_val s), c))"

definition cur_bytes :: "'e \<Rightarrow> 'e \<Rightarrow> cursor \<Rightarrow> ('e, bytes \<times> cursor) res" where
  "cur_bytes over short c = rbind (cur_u32 over short c) (\<lambda>(n, c). cur_take over short (unat n) c)"

definition cur_string :: "'e \<Rightarrow> 'e \<Rightarrow> 'e \<Rightarrow> cursor \<Rightarrow> ('e, rstr \<times> cursor) res" where
  "cur_string over short bad c = rbind (cur_bytes over short c)
     (\<lambda>(s, c). if utf8_ok s then Inr (s, c) else Inl (Err bad))"

text \<open>A counted sequence: \<^verbatim>\<open>for _ in 0..n { out.push(dec(c)?) }\<close>, after a \<^verbatim>\<open>u32\<close> or a \<^verbatim>\<open>u16\<close> count.\<close>

definition read_n :: "nat \<Rightarrow> (cursor \<Rightarrow> ('e, 'a \<times> cursor) res) \<Rightarrow> cursor \<Rightarrow> ('e, 'a list \<times> cursor) res" where
  "read_n n dec c = for_n n (\<lambda>(acc, c). rbind (dec c) (\<lambda>(x, c). Inr (acc @ [x], c))) ([], c)"

definition read_vec32 ::
  "'e \<Rightarrow> 'e \<Rightarrow> (cursor \<Rightarrow> ('e, 'a \<times> cursor) res) \<Rightarrow> cursor \<Rightarrow> ('e, 'a list \<times> cursor) res" where
  "read_vec32 over short dec c = rbind (cur_u32 over short c) (\<lambda>(n, c). read_n (unat n) dec c)"

definition read_vec16 ::
  "'e \<Rightarrow> 'e \<Rightarrow> (cursor \<Rightarrow> ('e, 'a \<times> cursor) res) \<Rightarrow> cursor \<Rightarrow> ('e, 'a list \<times> cursor) res" where
  "read_vec16 over short dec c = rbind (cur_u16 over short c) (\<lambda>(n, c). read_n (unat n) dec c)"

lemmas cur_defs = cur_u8_def cur_array_def cur_u16_def cur_u32_def cur_u64_def cur_bytes_def
  cur_string_def

section \<open>Cursor progress and totality\<close>

text \<open>A read keeps the buffer and moves the position forward, never past the end.\<close>

definition cur_ext :: "cursor \<Rightarrow> cursor \<Rightarrow> bool" where
  "cur_ext c d \<longleftrightarrow> buf d = buf c \<and> pos c \<le> pos d \<and> (pos c \<le> length (buf c) \<longrightarrow> pos d \<le> length (buf d))"

lemma cur_ext_refl [simp]: "cur_ext c c"
  by (simp add: cur_ext_def)

lemma cur_ext_trans: "cur_ext a b \<Longrightarrow> cur_ext b c \<Longrightarrow> cur_ext a c"
  by (auto simp: cur_ext_def)

lemma cur_ext_remaining: "cur_ext c d \<Longrightarrow> cur_remaining d \<le> cur_remaining c"
  by (auto simp: cur_ext_def cur_remaining_def)

lemma cur_take_Inr:
  "cur_take ov sh n c = Inr (s, d) \<longleftrightarrow>
   pos c + n < 2 ^ 64 \<and> pos c + n \<le> length (buf c)
   \<and> s = take n (drop (pos c) (buf c)) \<and> d = c\<lparr>pos := pos c + n\<rparr>"
  by (auto simp: cur_take_def Let_def)

lemma cur_array_eq: "cur_array ov sh n c = cur_take ov sh n c"
  by (auto simp: cur_array_def cur_take_def Let_def)

lemma cur_take_ext: "cur_take ov sh n c = Inr (s, d) \<Longrightarrow> cur_ext c d \<and> pos d = pos c + n"
  by (auto simp: cur_take_Inr cur_ext_def)

lemma cur_u8_Inr:
  "cur_u8 ov sh c = Inr (b, d) \<longleftrightarrow>
   Suc (pos c) < 2 ^ 64 \<and> pos c < length (buf c) \<and> b = buf c ! pos c \<and> d = c\<lparr>pos := Suc (pos c)\<rparr>"
  by (auto simp: cur_u8_def rbind_eq_Inr cur_take_Inr take_Suc hd_drop_conv_nth Suc_le_eq
      split: list.splits dest: sym)

lemma cur_u8_ext: "cur_u8 ov sh c = Inr (b, d) \<Longrightarrow> cur_ext c d \<and> pos d = Suc (pos c)"
  by (auto simp: cur_u8_Inr cur_ext_def)

lemma cur_u16_ext: "cur_u16 ov sh c = Inr (b, d) \<Longrightarrow> cur_ext c d \<and> pos d = pos c + 2"
  by (auto simp: cur_u16_def cur_array_eq rbind_eq_Inr dest!: cur_take_ext)

lemma cur_u32_ext: "cur_u32 ov sh c = Inr (b, d) \<Longrightarrow> cur_ext c d \<and> pos d = pos c + 4"
  by (auto simp: cur_u32_def cur_array_eq rbind_eq_Inr dest!: cur_take_ext)

lemma cur_u64_ext: "cur_u64 ov sh c = Inr (b, d) \<Longrightarrow> cur_ext c d \<and> pos d = pos c + 8"
  by (auto simp: cur_u64_def cur_array_eq rbind_eq_Inr dest!: cur_take_ext)

lemma cur_bytes_ext: "cur_bytes ov sh c = Inr (b, d) \<Longrightarrow> cur_ext c d \<and> pos c + 4 \<le> pos d"
  by (auto simp: cur_bytes_def rbind_eq_Inr dest!: cur_take_ext cur_u32_ext elim: cur_ext_trans)

lemma cur_string_ext: "cur_string ov sh bad c = Inr (b, d) \<Longrightarrow> cur_ext c d \<and> pos c + 4 \<le> pos d"
  by (auto simp: cur_string_def rbind_eq_Inr dest!: cur_bytes_ext split: if_splits)

lemmas cur_exts = cur_take_ext cur_u8_ext cur_u16_ext cur_u32_ext cur_u64_ext cur_bytes_ext
  cur_string_ext

lemma cur_string_utf8: "cur_string ov sh bad c = Inr (b, d) \<Longrightarrow> utf8_ok b"
  by (auto simp: cur_string_def rbind_eq_Inr split: if_splits)

lemma cur_clean [simp]:
  "clean (cur_take ov sh n c)" "clean (cur_u8 ov sh c)" "clean (cur_array ov sh n c)"
  "clean (cur_u16 ov sh c)" "clean (cur_u32 ov sh c)" "clean (cur_u64 ov sh c)"
  "clean (cur_bytes ov sh c)" "clean (cur_string ov sh bad c)"
proof -
  show t: "clean (cur_take ov sh n c)" for n c by (simp add: cur_take_def Let_def)
  then show a: "clean (cur_array ov sh n c)" for n c by (simp add: cur_array_eq)
  show "clean (cur_u8 ov sh c)"
    unfolding cur_u8_def
    by (rule clean_rbind) (auto simp: t cur_take_Inr split: list.splits)
  show "clean (cur_u16 ov sh c)" "clean (cur_u64 ov sh c)"
    by (auto simp: cur_u16_def cur_u64_def a intro!: clean_rbind)
  show u: "clean (cur_u32 ov sh c)" for c
    by (auto simp: cur_u32_def a intro!: clean_rbind)
  show b: "clean (cur_bytes ov sh c)"
    by (auto simp: cur_bytes_def u t intro!: clean_rbind)
  then show "clean (cur_string ov sh bad c)"
    by (auto simp: cur_string_def intro!: clean_rbind)
qed

lemma clean_read_n: "(\<And>c. clean (dec c)) \<Longrightarrow> clean (read_n n dec c)"
  unfolding read_n_def by (rule for_n_clean[of "\<lambda>_. True"]) (auto intro!: clean_rbind split: prod.splits)

lemma clean_read_vec [simp]:
  "(\<And>c. clean (dec c)) \<Longrightarrow> clean (read_vec32 ov sh dec c)" "(\<And>c. clean (dec c)) \<Longrightarrow> clean (read_vec16 ov sh dec c)"
  by (auto simp: read_vec32_def read_vec16_def intro!: clean_rbind clean_read_n)

section \<open>Reading what was written\<close>

text \<open>The cursor that has consumed \<open>pre\<close> and has \<open>post\<close> left.\<close>

definition cur_at :: "bytes \<Rightarrow> bytes \<Rightarrow> cursor" where
  "cur_at pre post = \<lparr>buf = pre @ post, pos = length pre\<rparr>"

definition fits :: "bytes \<Rightarrow> bool" where
  "fits bs \<longleftrightarrow> length bs < 2 ^ 64"

lemma cur_new_at: "cur_new bs = cur_at [] bs"
  by (simp add: cur_new_def cur_at_def)

lemma cur_at_sel [simp]: "buf (cur_at pre post) = pre @ post" "pos (cur_at pre post) = length pre"
  by (simp_all add: cur_at_def)

lemma cur_remaining_at [simp]: "cur_remaining (cur_at pre post) = length post"
  by (simp add: cur_remaining_def)

lemma cur_at_cover: "pos c \<le> length (buf c) \<Longrightarrow> \<exists>pre post. c = cur_at pre post"
  by (rule exI[of _ "take (pos c) (buf c)"], rule exI[of _ "drop (pos c) (buf c)"])
    (cases c, simp add: cur_at_def)

lemma cur_take_at [codec_simps]:
  "fits (pre @ xs @ post) \<Longrightarrow> n = length xs \<Longrightarrow>
   cur_take ov sh n (cur_at pre (xs @ post)) = Inr (xs, cur_at (pre @ xs) post)"
  by (simp add: cur_take_def cur_at_def fits_def)

lemma cur_u8_at [codec_simps]:
  "fits (pre @ b # post) \<Longrightarrow>
   cur_u8 ov sh (cur_at pre (b # post)) = Inr (b, cur_at (pre @ [b]) post)"
  using cur_take_at[of pre "[b]" post 1 ov sh] by (simp add: cur_u8_def)

lemma cur_array_at [codec_simps]:
  "fits (pre @ xs @ post) \<Longrightarrow> n = length xs \<Longrightarrow>
   cur_array ov sh n (cur_at pre (xs @ post)) = Inr (xs, cur_at (pre @ xs) post)"
  by (simp add: cur_array_eq cur_take_at)

lemma cur_u16_at [codec_simps]:
  "fits (pre @ u16_le n @ post) \<Longrightarrow>
   cur_u16 ov sh (cur_at pre (u16_le n @ post)) = Inr (word_of_nat n, cur_at (pre @ u16_le n) post)"
  by (simp add: cur_u16_def cur_array_at unat_of_nat word_unat_eq_iff)

lemma cur_u32_at [codec_simps]:
  "fits (pre @ u32_le n @ post) \<Longrightarrow>
   cur_u32 ov sh (cur_at pre (u32_le n @ post)) = Inr (word_of_nat n, cur_at (pre @ u32_le n) post)"
  by (simp add: cur_u32_def cur_array_at unat_of_nat word_unat_eq_iff)

lemma cur_word32_at [codec_simps]:
  "fits (pre @ word32_le w @ post) \<Longrightarrow>
   cur_u32 ov sh (cur_at pre (word32_le w @ post)) = Inr (w, cur_at (pre @ word32_le w) post)"
  by (simp add: cur_u32_def cur_array_at)

lemma cur_word64_at [codec_simps]:
  "fits (pre @ word64_le w @ post) \<Longrightarrow>
   cur_u64 ov sh (cur_at pre (word64_le w @ post)) = Inr (w, cur_at (pre @ word64_le w) post)"
  by (simp add: cur_u64_def cur_array_at)

text \<open>A \<^verbatim>\<open>u32\<close> length and that many bytes.\<close>

definition len_bytes :: "bytes \<Rightarrow> bytes" where
  "len_bytes bs = u32_le (length bs) @ bs"

lemma length_len_bytes [simp]: "length (len_bytes bs) = 4 + length bs"
  by (simp add: len_bytes_def)

lemma cur_bytes_at [codec_simps]:
  assumes "fits (pre @ len_bytes bs @ post)" and "length bs < 2 ^ 32"
  shows "cur_bytes ov sh (cur_at pre (len_bytes bs @ post)) = Inr (bs, cur_at (pre @ len_bytes bs) post)"
  using assms cur_u32_at[of pre "length bs" "bs @ post" ov sh]
    cur_take_at[of "pre @ u32_le (length bs)" bs post "length bs" ov sh]
  by (simp add: cur_bytes_def len_bytes_def unat_of_nat)

lemma cur_string_at [codec_simps]:
  assumes "fits (pre @ len_bytes bs @ post)" and "length bs < 2 ^ 32" and "utf8_ok bs"
  shows "cur_string ov sh bad (cur_at pre (len_bytes bs @ post))
       = Inr (bs, cur_at (pre @ len_bytes bs) post)"
  using assms by (simp add: cur_string_def cur_bytes_at)

definition vec32 :: "('a \<Rightarrow> bytes) \<Rightarrow> 'a list \<Rightarrow> bytes" where
  "vec32 enc xs = u32_le (length xs) @ concat (map enc xs)"

definition vec16 :: "('a \<Rightarrow> bytes) \<Rightarrow> 'a list \<Rightarrow> bytes" where
  "vec16 enc xs = u16_le (length xs) @ concat (map enc xs)"

section \<open>Self-delimiting fields\<close>

locale field_codec =
  fixes enc :: "'a \<Rightarrow> bytes" and dec :: "cursor \<Rightarrow> ('e, 'a \<times> cursor) res" and ok :: "'a \<Rightarrow> bool"
  assumes dec_enc: "ok x \<Longrightarrow> fits (pre @ enc x @ post) \<Longrightarrow>
    dec (cur_at pre (enc x @ post)) = Inr (x, cur_at (pre @ enc x) post)"
begin

text \<open>\<^verbatim>\<open>for _ in 0..n { out.push(dec(c)?) }\<close>.\<close>

lemma dec_seq:
  assumes "\<And>x. x \<in> set xs \<Longrightarrow> ok x" and "fits (pre @ concat (map enc xs) @ post)"
  shows "for_n (length xs) (\<lambda>(acc, c). rbind (dec c) (\<lambda>(x, c). Inr (acc @ [x], c)))
      (acc, cur_at pre (concat (map enc xs) @ post))
    = Inr (acc @ xs, cur_at (pre @ concat (map enc xs)) post)"
  using assms
proof (induction xs arbitrary: acc pre)
  case (Cons x xs)
  have "dec (cur_at pre (enc x @ concat (map enc xs) @ post))
      = Inr (x, cur_at (pre @ enc x) (concat (map enc xs) @ post))"
    using Cons.prems by (intro dec_enc) auto
  then show ?case
    using Cons.IH[of "pre @ enc x" "acc @ [x]"] Cons.prems by simp
qed simp

lemma read_n_at:
  assumes "\<And>x. x \<in> set xs \<Longrightarrow> ok x" and "fits (pre @ concat (map enc xs) @ post)"
  shows "read_n (length xs) dec (cur_at pre (concat (map enc xs) @ post))
    = Inr (xs, cur_at (pre @ concat (map enc xs)) post)"
  using dec_seq[OF assms, of "[]"] by (simp add: read_n_def)

lemma vec32_at:
  assumes "length xs < 2 ^ 32" and "\<forall>x \<in> set xs. ok x" and "fits (pre @ vec32 enc xs @ post)"
  shows "read_vec32 ov sh dec (cur_at pre (vec32 enc xs @ post)) = Inr (xs, cur_at (pre @ vec32 enc xs) post)"
  using cur_u32_at[of pre "length xs" "concat (map enc xs) @ post" ov sh]
    read_n_at[of xs "pre @ u32_le (length xs)" post] assms
  by (simp add: read_vec32_def vec32_def unat_of_nat)

text \<open>A \<^verbatim>\<open>u16\<close> count wraps (\<^verbatim>\<open>len() as u16\<close>): the reader stops after the count modulo \<open>2 ^ 16\<close>.\<close>

lemma vec16_at:
  assumes "\<forall>x \<in> set xs. ok x" and "fits (pre @ vec16 enc xs @ post)" and m: "m = length xs mod 2 ^ 16"
  shows "read_vec16 ov sh dec (cur_at pre (vec16 enc xs @ post)) =
    Inr (take m xs, cur_at (pre @ u16_le (length xs) @ concat (map enc (take m xs)))
                      (concat (map enc (drop m xs)) @ post))"
proof -
  have split: "concat (map enc xs) = concat (map enc (take m xs)) @ concat (map enc (drop m xs))"
    by (simp flip: concat_append map_append)
  have len: "unat (word_of_nat (length xs) :: u16) = length (take m xs)"
    by (simp add: unat_of_nat m)
  show ?thesis
    using cur_u16_at[of pre "length xs" "concat (map enc xs) @ post" ov sh]
      read_n_at[of "take m xs" "pre @ u16_le (length xs)" "concat (map enc (drop m xs)) @ post"] assms(1,2)
    by (simp add: read_vec16_def vec16_def len split) (meson in_set_takeD)
qed

lemma vec16_small_at:
  assumes "length xs < 2 ^ 16" and "\<forall>x \<in> set xs. ok x" and "fits (pre @ vec16 enc xs @ post)"
  shows "read_vec16 ov sh dec (cur_at pre (vec16 enc xs @ post)) = Inr (xs, cur_at (pre @ vec16 enc xs) post)"
  using vec16_at[OF assms(2,3) refl, of ov sh] assms(1) by (simp add: vec16_def)

lemma vec32_codec: "field_codec (vec32 enc) (read_vec32 ov sh dec) (\<lambda>xs. length xs < 2 ^ 32 \<and> (\<forall>x \<in> set xs. ok x))"
  by unfold_locales (simp add: vec32_at)

lemma vec16_codec: "field_codec (vec16 enc) (read_vec16 ov sh dec) (\<lambda>xs. length xs < 2 ^ 16 \<and> (\<forall>x \<in> set xs. ok x))"
  by unfold_locales (simp add: vec16_small_at)

text \<open>An encoding determines its field and where it ends.\<close>

lemma enc_prefix_free:
  assumes "ok x" and "ok y" and "enc x @ u = enc y @ v" and "fits (enc x @ u)"
  shows "x = y \<and> u = v"
proof -
  have "dec (cur_at [] (enc x @ u)) = Inr (x, cur_at (enc x) u)"
    using dec_enc[of x "[]" u] assms by simp
  moreover have "dec (cur_at [] (enc y @ v)) = Inr (y, cur_at (enc y) v)"
    using dec_enc[of y "[]" v] assms by simp
  ultimately have "x = y" "cur_at (enc x) u = cur_at (enc y) v"
    using assms(3) by simp_all
  with assms(3) show ?thesis by simp
qed

end

interpretation len_field: field_codec len_bytes "cur_bytes ov sh" "\<lambda>bs. length bs < 2 ^ 32"
  by unfold_locales (simp add: cur_bytes_at)

interpretation str_field: field_codec len_bytes "cur_string ov sh bad"
  "\<lambda>bs. length bs < 2 ^ 32 \<and> utf8_ok bs"
  by unfold_locales (simp add: cur_string_at)

end
