(* ===== verification/Key_Encoding.thy ===== *)
theory Key_Encoding
  imports Value Cursor
begin

unbundle bit_operations_syntax

text \<open>
  The order-preserving key encoding of \<^verbatim>\<open>skaidb-types/src/value.rs\<close> (\<^verbatim>\<open>encode_into\<close>,
  \<^verbatim>\<open>encode_exact_into\<close>, \<^verbatim>\<open>decode_numeric_key\<close>, \<^verbatim>\<open>encoded_array_prefix\<close> and their helpers) and what byte
  order on keys means for values. Encoders append to the buffer they are given, as in the source.

  A decimal is keyed by its \<^verbatim>\<open>f64\<close> projection \<^verbatim>\<open>Decimal::to_f64\<close>, a floating-point division by a power
  whose rounding Rust leaves unspecified (\<^verbatim>\<open>f64::powi\<close>): the projection is a parameter \<open>d2f\<close> of the
  encoders, and nothing is assumed of it.
\<close>

section \<open>Definitions\<close>

abbreviation K_NULL :: u8 where "K_NULL \<equiv> 0x00"
abbreviation K_BOOL :: u8 where "K_BOOL \<equiv> 0x01"
abbreviation K_INT :: u8 where "K_INT \<equiv> 0x02"
abbreviation K_FLOAT :: u8 where "K_FLOAT \<equiv> 0x03"
abbreviation K_DECIMAL :: u8 where "K_DECIMAL \<equiv> 0x04"
abbreviation K_STRING :: u8 where "K_STRING \<equiv> 0x05"
abbreviation K_BYTES :: u8 where "K_BYTES \<equiv> 0x06"
abbreviation K_UUID :: u8 where "K_UUID \<equiv> 0x07"
abbreviation K_TIMESTAMP :: u8 where "K_TIMESTAMP \<equiv> 0x08"
abbreviation K_ARRAY :: u8 where "K_ARRAY \<equiv> 0x09"
abbreviation K_DOCUMENT :: u8 where "K_DOCUMENT \<equiv> 0x0a"
abbreviation K_END :: u8 where "K_END \<equiv> 0x00"

definition SIGN :: u64 where
  "SIGN = 0x8000000000000000"

definition encode_i64 :: "i64 \<Rightarrow> bytes \<Rightarrow> bytes" where
  "encode_i64 v out = out @ word64_be (v XOR SIGN)"

definition encode_f64 :: "f64 \<Rightarrow> bytes \<Rightarrow> bytes" where
  "encode_f64 v out = out @ word64_be (if v AND SIGN = 0 then v OR SIGN else NOT v)"

definition encode_bytes :: "bytes \<Rightarrow> bytes \<Rightarrow> bytes" where
  "encode_bytes bs out = fold (\<lambda>b out. if b = 0x00 then out @ [0x00, 0xFF] else out @ [b]) bs out @ [0x00, 0x00]"

fun encode_into :: "(decimal \<Rightarrow> f64) \<Rightarrow> val \<Rightarrow> bytes \<Rightarrow> bytes" where
  "encode_into d2f VNull out = out @ [K_NULL]"
| "encode_into d2f (VBool b) out = out @ [K_BOOL] @ [if b then 1 else 0]"
| "encode_into d2f (VInt v) out = encode_i64 v (out @ [K_INT])"
| "encode_into d2f (VTimestamp v) out = encode_i64 v (out @ [K_TIMESTAMP])"
| "encode_into d2f (VFloat v) out = encode_f64 v (out @ [K_FLOAT])"
| "encode_into d2f (VDecimal d) out = encode_f64 (d2f d) (out @ [K_DECIMAL])"
| "encode_into d2f (VString s) out = encode_bytes s (out @ [K_STRING])"
| "encode_into d2f (VBytes b) out = encode_bytes b (out @ [K_BYTES])"
| "encode_into d2f (VUuid u) out = out @ [K_UUID] @ u"
| "encode_into d2f (VArray items) out =
     fold (\<lambda>item out. encode_into d2f item out) items (out @ [K_ARRAY]) @ [K_END]"
| "encode_into d2f (VDocument doc) out =
     fold (\<lambda>(k, v) out. encode_into d2f v (encode_bytes k out)) doc (out @ [K_DOCUMENT]) @ [K_END]"

definition encode_key :: "(decimal \<Rightarrow> f64) \<Rightarrow> val \<Rightarrow> bytes" where
  "encode_key d2f v = encode_into d2f v []"

fun encode_exact_into :: "(decimal \<Rightarrow> f64) \<Rightarrow> val \<Rightarrow> bytes \<Rightarrow> bytes" where
  "encode_exact_into d2f (VDecimal d) out = encode_bytes (exact_bytes d) (out @ [K_DECIMAL])"
| "encode_exact_into d2f (VArray items) out =
     fold (\<lambda>item out. encode_exact_into d2f item out) items (out @ [K_ARRAY]) @ [K_END]"
| "encode_exact_into d2f (VDocument doc) out =
     fold (\<lambda>(k, v) out. encode_exact_into d2f v (encode_bytes k out)) doc (out @ [K_DOCUMENT]) @ [K_END]"
| "encode_exact_into d2f v out = encode_into d2f v out"

definition encode_exact_key :: "(decimal \<Rightarrow> f64) \<Rightarrow> val \<Rightarrow> bytes" where
  "encode_exact_key d2f v = encode_exact_into d2f v []"

definition encode_array_key_into :: "(decimal \<Rightarrow> f64) \<Rightarrow> val list \<Rightarrow> bytes \<Rightarrow> bytes" where
  "encode_array_key_into d2f items out = fold (encode_into d2f) items (out @ [K_ARRAY]) @ [K_END]"

definition total_cmp :: "(decimal \<Rightarrow> f64) \<Rightarrow> val \<Rightarrow> val \<Rightarrow> ordering" where
  "total_cmp d2f a b = ord_cmp (encode_key d2f a) (encode_key d2f b)"

definition key_tag :: "val \<Rightarrow> u8" where
  "key_tag v = (case v of
     VNull \<Rightarrow> K_NULL | VBool _ \<Rightarrow> K_BOOL | VInt _ \<Rightarrow> K_INT | VFloat _ \<Rightarrow> K_FLOAT | VDecimal _ \<Rightarrow> K_DECIMAL
   | VString _ \<Rightarrow> K_STRING | VBytes _ \<Rightarrow> K_BYTES | VUuid _ \<Rightarrow> K_UUID | VTimestamp _ \<Rightarrow> K_TIMESTAMP
   | VArray _ \<Rightarrow> K_ARRAY | VDocument _ \<Rightarrow> K_DOCUMENT)"

definition decode_numeric_key :: "bytes \<Rightarrow> val option" where
  "decode_numeric_key component =
    (case component of
       [] \<Rightarrow> None
     | t # rest \<Rightarrow>
        (if length rest < 8 then None
         else
           let raw = (word_of_nat (be_val (take 8 rest)) :: u64);
               float = (if raw AND SIGN \<noteq> 0 then raw XOR SIGN else NOT raw)
           in if t = K_INT then Some (VInt (raw XOR SIGN))
              else if t = K_TIMESTAMP then Some (VTimestamp (raw XOR SIGN))
              else if t = K_FLOAT \<or> t = K_DECIMAL then Some (VFloat float)
              else None))"

text \<open>\<^verbatim>\<open>skip_escaped_bytes\<close>: the index loop over the slice, \<open>i\<close> the position reached.\<close>

function skip_escaped_loop :: "bytes \<Rightarrow> nat \<Rightarrow> nat option" where
  "skip_escaped_loop b i =
    (if i < length b then
       if b ! i \<noteq> 0x00 then skip_escaped_loop b (i + 1)
       else if length b \<le> i + 1 then None
       else if b ! (i + 1) = 0xFF then skip_escaped_loop b (i + 2)
       else if b ! (i + 1) = 0x00 then Some (i + 2)
       else None
     else None)"
  by pat_completeness auto
termination
  by (relation "measure (\<lambda>(b, i). length b - i)") auto

declare skip_escaped_loop.simps [simp del]

definition skip_escaped_bytes :: "bytes \<Rightarrow> nat option" where
  "skip_escaped_bytes b = skip_escaped_loop b 0"

text \<open>One round of the component loop of \<^verbatim>\<open>encoded_array_prefix\<close>; \<^verbatim>\<open>pos.checked_add(skip)\<close> yields
  \<^verbatim>\<open>None\<close> past \<open>2 ^ 64\<close>.\<close>

definition array_prefix_step :: "bytes \<Rightarrow> nat \<Rightarrow> nat option" where
  "array_prefix_step key p =
    (if length key \<le> p then None
     else
       let t = key ! p; p = p + 1;
           skip = (if t = K_BOOL then Some 1
                   else if t = K_INT \<or> t = K_TIMESTAMP \<or> t = K_FLOAT \<or> t = K_DECIMAL then Some 8
                   else if t = K_UUID then Some 16
                   else if t = K_STRING \<or> t = K_BYTES
                   then skip_escaped_bytes (drop (min p (length key)) key)
                   else None)
       in case skip of
            None \<Rightarrow> None
          | Some n \<Rightarrow> (if 2 ^ 64 \<le> p + n then None
                      else if length key < p + n then None else Some (p + n)))"

primrec array_prefix_loop :: "nat \<Rightarrow> bytes \<Rightarrow> nat \<Rightarrow> nat option" where
  "array_prefix_loop 0 key p = Some p"
| "array_prefix_loop (Suc n) key p =
    (case array_prefix_step key p of None \<Rightarrow> None | Some q \<Rightarrow> array_prefix_loop n key q)"

definition encoded_array_prefix :: "bytes \<Rightarrow> nat \<Rightarrow> bytes option" where
  "encoded_array_prefix key n =
    (if n = 0 \<or> (case key of [] \<Rightarrow> True | t # _ \<Rightarrow> t \<noteq> K_ARRAY) then None
     else map_option (\<lambda>p. take p key) (array_prefix_loop n key 1))"

section \<open>Fixed-width components\<close>

lemma xor_SIGN: "(v :: u64) XOR SIGN = v + SIGN"
proof -
  have f: "v XOR SIGN = flip_bit 63 v"
    by (simp add: flip_bit_eq_xor SIGN_def push_bit_eq_mult)
  show ?thesis
  proof (cases "bit v 63")
    case True
    then have "v XOR SIGN = v - SIGN"
      unfolding f by (simp add: flip_bit_eq_if unset_bit_eq SIGN_def)
    moreover have "SIGN = - SIGN" by (simp add: SIGN_def)
    ultimately show ?thesis by (metis diff_conv_add_uminus)
  next
    case False
    then show ?thesis unfolding f by (simp add: flip_bit_eq_if set_bit_eq SIGN_def)
  qed
qed

lemma uint_flip_sign: "int (unat ((v :: i64) XOR SIGN)) = sint v + 2 ^ 63"
proof -
  have "uint (v + SIGN) = (uint v + 2 ^ 63) mod 2 ^ 64"
    by (simp add: uint_word_ariths SIGN_def)
  also have "\<dots> = sint v + 2 ^ 63"
    using signed_take_bit_eq_take_bit_shift[of 63 "uint v"]
    by (simp add: sint_uint take_bit_eq_mod)
  finally show ?thesis by (simp add: xor_SIGN)
qed

lemma and_SIGN: "(v AND SIGN = 0) \<longleftrightarrow> uint (v :: u64) < 2 ^ 63"
proof -
  have "v AND SIGN = 0 \<longleftrightarrow> \<not> bit v 63"
    using and_exp_eq_0_iff_not_bit[of v 63] by (simp add: SIGN_def)
  also have "\<dots> \<longleftrightarrow> uint v div 2 ^ 63 mod 2 = 0"
    using bit_iff_odd[of "uint v" 63] by (simp add: bit_uint_iff even_iff_mod_2_eq_zero)
  also have "\<dots> \<longleftrightarrow> uint v < 2 ^ 63"
  proof (cases "uint v < 2 ^ 63")
    case True
    then show ?thesis by (simp add: div_pos_pos_trivial)
  next
    case False
    then have "uint v div 2 ^ 63 = 1"
      using uint_bounded[of v] by (simp add: div_pos_geq div_pos_pos_trivial)
    with False show ?thesis by simp
  qed
  finally show ?thesis .
qed

text \<open>The rank of a double in the total order of \<^verbatim>\<open>f64::total_cmp\<close>: its bits as a signed integer, the
  magnitude bits of a negative one inverted.\<close>

definition f64_rank :: "f64 \<Rightarrow> int" where
  "f64_rank b = (if uint b < 2 ^ 63 then uint b else 2 ^ 63 - 1 - uint b)"

definition f64_ord :: "f64 \<Rightarrow> u64" where
  "f64_ord v = (if v AND SIGN = 0 then v OR SIGN else NOT v)"

lemma or_SIGN: "v AND SIGN = 0 \<Longrightarrow> v OR SIGN = v + SIGN" for v :: u64
  by (rule disjunctive_add_eq_or [symmetric])

lemma unat_f64_ord: "int (unat (f64_ord v)) = f64_rank v + 2 ^ 63"
proof (cases "v AND SIGN = 0")
  case True
  then have s: "uint v < 2 ^ 63" by (simp add: and_SIGN)
  have "uint (v + SIGN) = (uint v + 2 ^ 63) mod 2 ^ 64" by (simp add: uint_word_ariths SIGN_def)
  then have "uint (v + SIGN) = uint v + 2 ^ 63" using s by simp
  then show ?thesis using True s by (simp add: f64_ord_def or_SIGN f64_rank_def)
next
  case False
  then have s: "\<not> uint v < 2 ^ 63" by (simp add: and_SIGN)
  have "uint (NOT v) = (2 ^ 64 - 1 - uint v) mod 2 ^ 64"
    using mod_add_self2[of "- uint v - 1" "2 ^ 64"]
    by (simp add: not_eq_complement uint_word_ariths mod_diff_left_eq algebra_simps)
  also have "\<dots> = 2 ^ 64 - 1 - uint v"
    using uint_bounded[of v] order.strict_trans2[of "- 1" 0 "uint v"]
    by (intro mod_pos_pos_trivial) simp_all
  finally show ?thesis using False s by (simp add: f64_ord_def f64_rank_def)
qed

lemma word64_be_less: "word64_be a < word64_be b \<longleftrightarrow> unat a < unat b"
  using be_bytes_less[of "unat a" 8 "unat b"] unat_bound[of a] unat_bound[of b]
  by (simp add: word64_be_def)

lemma word64_be_inject [simp]: "word64_be a = word64_be b \<longleftrightarrow> a = b"
  by (metis le_val_words(6) unsigned_word_eqI)

section \<open>Comparisons that continue\<close>

primrec ord_then :: "ordering \<Rightarrow> ordering \<Rightarrow> ordering" where
  "ord_then Less r = Less"
| "ord_then Equal r = r"
| "ord_then Greater r = Greater"

lemma ord_then_assoc [simp]: "ord_then (ord_then a b) c = ord_then a (ord_then b c)"
  by (cases a) simp_all

lemma ord_then_Equal [simp]: "ord_then a Equal = a"
  by (cases a) simp_all

lemma ord_then_eq_Equal: "ord_then a b = Equal \<longleftrightarrow> a = Equal \<and> b = Equal"
  by (cases a) simp_all

lemma ord_cmp_Equal [simp]: "ord_cmp a b = Equal \<longleftrightarrow> a = b"
  by (simp add: ord_cmp_def)

lemma ord_cmp_refl [simp]: "ord_cmp a a = Equal"
  by simp

lemma ord_cmp_Cons [simp]:
  "ord_cmp (x # xs) (y # ys) = ord_then (ord_cmp x y) (ord_cmp xs (ys :: 'a::linorder list))"
  by (auto simp: ord_cmp_def)

lemma ord_cmp_append:
  "length xs = length ys \<Longrightarrow>
   ord_cmp (xs @ r) (ys @ s) = ord_then (ord_cmp xs ys) (ord_cmp r (s :: 'a::linorder list))"
  by (auto simp: ord_cmp_def append_less_same_length)

text \<open>A strictly monotone coding keeps comparisons.\<close>

lemma ord_cmp_mono:
  assumes "\<And>x y. f x < f y \<longleftrightarrow> g x < g y"
  shows "ord_cmp (f x) (f y) = ord_cmp (g x) (g y)"
  using assms[of x y] assms[of y x] by (auto simp: ord_cmp_def)

lemma ord_cmp_i64_key: "ord_cmp (word64_be (v XOR SIGN)) (word64_be (w XOR SIGN)) = ord_cmp (sint v) (sint w)"
proof (rule ord_cmp_mono)
  fix x y :: i64
  show "word64_be (x XOR SIGN) < word64_be (y XOR SIGN) \<longleftrightarrow> sint x < sint y"
    unfolding word64_be_less using uint_flip_sign[of x] uint_flip_sign[of y] by linarith
qed

lemma ord_cmp_f64_key: "ord_cmp (word64_be (f64_ord v)) (word64_be (f64_ord w)) = ord_cmp (f64_rank v) (f64_rank w)"
proof (rule ord_cmp_mono)
  fix x y :: f64
  show "word64_be (f64_ord x) < word64_be (f64_ord y) \<longleftrightarrow> f64_rank x < f64_rank y"
    unfolding word64_be_less using unat_f64_ord[of x] unat_f64_ord[of y] by linarith
qed

section \<open>Escaped byte strings\<close>

definition esc :: "bytes \<Rightarrow> bytes" where
  "esc bs = concat (map (\<lambda>b. if b = 0x00 then [0x00, 0xFF] else [b]) bs)"

lemma esc_simps [simp]:
  "esc [] = []" "esc (b # bs) = (if b = 0x00 then 0x00 # 0xFF # esc bs else b # esc bs)"
  by (simp_all add: esc_def)

lemma encode_bytes_esc: "encode_bytes bs out = out @ esc bs @ [0, 0]"
proof -
  have "fold (\<lambda>b out. if b = 0x00 then out @ [0x00, 0xFF] else out @ [b]) bs out = out @ esc bs"
    by (induction bs arbitrary: out) auto
  then show ?thesis by (simp add: encode_bytes_def)
qed

lemma ord_cmp_zero_word [simp]: "(b :: u8) \<noteq> 0 \<Longrightarrow> ord_cmp 0 b = Less" "(b :: u8) \<noteq> 0 \<Longrightarrow> ord_cmp b 0 = Greater"
  by (auto simp: ord_cmp_def word_neq_0_conv)

lemma ord_cmp_Nil [simp]: "ord_cmp [] (y # ys) = Less" "ord_cmp (x # xs) [] = Greater"
  for y :: "'a::linorder"
  by (simp_all add: ord_cmp_def)

text \<open>The escaped form is prefix-free and keeps byte order, whatever follows it.\<close>

lemma ord_cmp_esc:
  "ord_cmp (esc a @ [0, 0] @ r) (esc b @ [0, 0] @ s) = ord_then (ord_cmp a b) (ord_cmp r s)"
proof (induction a arbitrary: b)
  case Nil
  show ?case by (cases b) (simp_all add: ord_cmp_def word_neq_0_conv)
next
  case (Cons x a)
  show ?case
  proof (cases b)
    case Nil
    then show ?thesis by (simp add: ord_cmp_def word_neq_0_conv)
  next
    case (Cons y c)
    then show ?thesis using Cons.IH[of c] by (cases "x = 0"; cases "y = 0") simp_all
  qed
qed

lemma esc_inject: "esc a @ [0, 0] @ r = esc b @ [0, 0] @ s \<longleftrightarrow> a = b \<and> r = s"
  unfolding ord_cmp_Equal [symmetric] ord_cmp_esc ord_then_eq_Equal by simp

section \<open>The encoders append\<close>

lemma fold_append: "(\<And>x out. x \<in> set xs \<Longrightarrow> f x out = out @ g x) \<Longrightarrow> fold f xs out = out @ concat (map g xs)"
  for out :: "'a list"
  by (induction xs arbitrary: out) auto

lemma encode_into_append: "encode_into d2f v out = out @ encode_key d2f v"
proof (induction v arbitrary: out)
  case (VArray xs)
  have "fold (\<lambda>item out. encode_into d2f item out) xs o1 = o1 @ concat (map (encode_key d2f) xs)" for o1
    by (rule fold_append) (rule VArray)
  from this[of "out @ [K_ARRAY]"] this[of "[K_ARRAY]"] show ?case
    by (simp add: encode_key_def)
next
  case (VDocument doc)
  have "fold (\<lambda>(k, v) out. encode_into d2f v (encode_bytes k out)) doc o1
      = o1 @ concat (map (\<lambda>(k, v). esc k @ [0, 0] @ encode_key d2f v) doc)" for o1
    by (rule fold_append) (auto simp: VDocument encode_bytes_esc fsts.simps snds.simps split: prod.splits)
  from this[of "out @ [K_DOCUMENT]"] this[of "[K_DOCUMENT]"] show ?case
    by (simp add: encode_key_def)
qed (simp_all add: encode_key_def encode_i64_def encode_f64_def encode_bytes_esc)

lemma encode_exact_into_append: "encode_exact_into d2f v out = out @ encode_exact_key d2f v"
proof (induction v arbitrary: out)
  case (VArray xs)
  have "fold (\<lambda>item out. encode_exact_into d2f item out) xs o1 = o1 @ concat (map (encode_exact_key d2f) xs)" for o1
    by (rule fold_append) (rule VArray)
  from this[of "out @ [K_ARRAY]"] this[of "[K_ARRAY]"] show ?case
    by (simp add: encode_exact_key_def)
next
  case (VDocument doc)
  have "fold (\<lambda>(k, v) out. encode_exact_into d2f v (encode_bytes k out)) doc o1
      = o1 @ concat (map (\<lambda>(k, v). esc k @ [0, 0] @ encode_exact_key d2f v) doc)" for o1
    by (rule fold_append) (auto simp: VDocument encode_bytes_esc fsts.simps snds.simps split: prod.splits)
  from this[of "out @ [K_DOCUMENT]"] this[of "[K_DOCUMENT]"] show ?case
    by (simp add: encode_exact_key_def)
qed (simp_all add: encode_exact_key_def encode_into_append encode_bytes_esc)

lemma encode_key_simps [simp]:
  "encode_key d2f VNull = [K_NULL]"
  "encode_key d2f (VBool b) = [K_BOOL, if b then 1 else 0]"
  "encode_key d2f (VInt i) = K_INT # word64_be (i XOR SIGN)"
  "encode_key d2f (VTimestamp i) = K_TIMESTAMP # word64_be (i XOR SIGN)"
  "encode_key d2f (VFloat f) = K_FLOAT # word64_be (f64_ord f)"
  "encode_key d2f (VDecimal d) = K_DECIMAL # word64_be (f64_ord (d2f d))"
  "encode_key d2f (VString s) = K_STRING # esc s @ [0, 0]"
  "encode_key d2f (VBytes s) = K_BYTES # esc s @ [0, 0]"
  "encode_key d2f (VUuid u) = K_UUID # u"
  "encode_key d2f (VArray xs) = K_ARRAY # concat (map (encode_key d2f) xs) @ [K_END]"
  "encode_key d2f (VDocument doc)
     = K_DOCUMENT # concat (map (\<lambda>(k, v). esc k @ [0, 0] @ encode_key d2f v) doc) @ [K_END]"
proof -
  have "fold (\<lambda>item out. encode_into d2f item out) xs o1 = o1 @ concat (map (encode_key d2f) xs)" for o1
    by (rule fold_append) (rule encode_into_append)
  then show "encode_key d2f (VArray xs) = K_ARRAY # concat (map (encode_key d2f) xs) @ [K_END]"
    by (simp add: encode_key_def)
  have "fold (\<lambda>(k, v) out. encode_into d2f v (encode_bytes k out)) doc o1
      = o1 @ concat (map (\<lambda>(k, v). esc k @ [0, 0] @ encode_key d2f v) doc)" for o1
    by (rule fold_append) (auto simp: encode_into_append encode_bytes_esc split: prod.splits)
  then show "encode_key d2f (VDocument doc)
     = K_DOCUMENT # concat (map (\<lambda>(k, v). esc k @ [0, 0] @ encode_key d2f v) doc) @ [K_END]"
    by (simp add: encode_key_def)
qed (simp_all add: encode_key_def encode_i64_def encode_f64_def encode_bytes_esc f64_ord_def)

lemma encode_exact_key_simps [simp]:
  "encode_exact_key d2f (VDecimal d) = K_DECIMAL # esc (exact_bytes d) @ [0, 0]"
  "encode_exact_key d2f (VArray xs) = K_ARRAY # concat (map (encode_exact_key d2f) xs) @ [K_END]"
  "encode_exact_key d2f (VDocument doc)
     = K_DOCUMENT # concat (map (\<lambda>(k, v). esc k @ [0, 0] @ encode_exact_key d2f v) doc) @ [K_END]"
proof -
  have "fold (\<lambda>item out. encode_exact_into d2f item out) xs o1
      = o1 @ concat (map (encode_exact_key d2f) xs)" for o1
    by (rule fold_append) (rule encode_exact_into_append)
  then show "encode_exact_key d2f (VArray xs) = K_ARRAY # concat (map (encode_exact_key d2f) xs) @ [K_END]"
    by (simp add: encode_exact_key_def)
  have "fold (\<lambda>(k, v) out. encode_exact_into d2f v (encode_bytes k out)) doc o1
      = o1 @ concat (map (\<lambda>(k, v). esc k @ [0, 0] @ encode_exact_key d2f v) doc)" for o1
    by (rule fold_append) (auto simp: encode_exact_into_append encode_bytes_esc split: prod.splits)
  then show "encode_exact_key d2f (VDocument doc)
     = K_DOCUMENT # concat (map (\<lambda>(k, v). esc k @ [0, 0] @ encode_exact_key d2f v) doc) @ [K_END]"
    by (simp add: encode_exact_key_def)
qed (simp add: encode_exact_key_def encode_bytes_esc)

section \<open>Scalars\<close>

definition scalar :: "val \<Rightarrow> bool" where
  "scalar v = (case v of VArray _ \<Rightarrow> False | VDocument _ \<Rightarrow> False | _ \<Rightarrow> True)"

text \<open>The order the encoding is documented to have: first the type, then the value.\<close>

definition scalar_cmp :: "(decimal \<Rightarrow> f64) \<Rightarrow> val \<Rightarrow> val \<Rightarrow> ordering" where
  "scalar_cmp d2f a b = ord_then (ord_cmp (key_tag a) (key_tag b))
    (case (a, b) of
       (VBool x, VBool y) \<Rightarrow> ord_cmp x y
     | (VInt x, VInt y) \<Rightarrow> ord_cmp (sint x) (sint y)
     | (VTimestamp x, VTimestamp y) \<Rightarrow> ord_cmp (sint x) (sint y)
     | (VFloat x, VFloat y) \<Rightarrow> ord_cmp (f64_rank x) (f64_rank y)
     | (VDecimal x, VDecimal y) \<Rightarrow> ord_cmp (f64_rank (d2f x)) (f64_rank (d2f y))
     | (VString x, VString y) \<Rightarrow> ord_cmp x y
     | (VBytes x, VBytes y) \<Rightarrow> ord_cmp x y
     | (VUuid x, VUuid y) \<Rightarrow> ord_cmp x y
     | _ \<Rightarrow> Equal)"

lemma encode_key_tag: "\<exists>r. encode_key d2f v = key_tag v # r"
  by (cases v) (simp_all add: key_tag_def)

lemma ord_cmp_bool_byte: "ord_cmp (if x then 1 else 0 :: u8) (if y then 1 else 0) = ord_cmp x y"
  by (cases x; cases y) (simp_all add: ord_cmp_def)

lemma ord_cmp_scalar_same_tag:
  assumes "scalar a" and "wf_val a" and "wf_val b" and "key_tag a = key_tag b"
  shows "ord_cmp (encode_key d2f a @ r) (encode_key d2f b @ s)
       = ord_then (scalar_cmp d2f a b) (ord_cmp r s)"
  using assms
  by (cases a; cases b)
    (simp_all add: scalar_def scalar_cmp_def key_tag_def ord_cmp_append ord_cmp_i64_key
      ord_cmp_f64_key ord_cmp_bool_byte ord_cmp_esc[simplified])

lemma ord_cmp_scalar_other_tag:
  assumes "key_tag a \<noteq> key_tag b"
  shows "ord_cmp (encode_key d2f a @ r) (encode_key d2f b @ s)
       = ord_then (scalar_cmp d2f a b) (ord_cmp r s)"
proof -
  obtain u v where "encode_key d2f a = key_tag a # u" "encode_key d2f b = key_tag b # v"
    using encode_key_tag by blast
  moreover have "ord_cmp (key_tag a) (key_tag b) \<in> {Less, Greater}"
    using assms by (simp add: ord_cmp_def)
  ultimately show ?thesis by (auto simp: scalar_cmp_def)
qed

lemma ord_cmp_scalar:
  assumes "scalar a" and "wf_val a" and "wf_val b"
  shows "ord_cmp (encode_key d2f a @ r) (encode_key d2f b @ s)
       = ord_then (scalar_cmp d2f a b) (ord_cmp r s)"
  using ord_cmp_scalar_same_tag[OF assms] ord_cmp_scalar_other_tag by metis

text \<open>The lexicographic comparison of composite keys.\<close>

fun lex_cmp :: "('a \<Rightarrow> 'a \<Rightarrow> ordering) \<Rightarrow> 'a list \<Rightarrow> 'a list \<Rightarrow> ordering" where
  "lex_cmp c [] [] = Equal"
| "lex_cmp c [] (y # ys) = Less"
| "lex_cmp c (x # xs) [] = Greater"
| "lex_cmp c (x # xs) (y # ys) = ord_then (c x y) (lex_cmp c xs ys)"

lemma ord_cmp_END:
  "ord_cmp [K_END] (encode_key d2f v @ ks @ [K_END]) = Less"
  "ord_cmp (encode_key d2f v @ ks @ [K_END]) [K_END] = Greater"
proof -
  obtain r where r: "encode_key d2f v = key_tag v # r" using encode_key_tag by blast
  have "ord_cmp [] (r @ ks @ [K_END]) = Less" "ord_cmp (r @ ks @ [K_END]) [] = Greater"
    by (cases "r @ ks @ [K_END]"; simp)+
  with r show "ord_cmp [K_END] (encode_key d2f v @ ks @ [K_END]) = Less"
    and "ord_cmp (encode_key d2f v @ ks @ [K_END]) [K_END] = Greater"
    by (cases "key_tag v = 0"; simp)+
qed

lemma ord_cmp_scalars:
  assumes "\<And>v. v \<in> set xs \<Longrightarrow> scalar v \<and> wf_val v" and "\<And>v. v \<in> set ys \<Longrightarrow> wf_val v"
  shows "ord_cmp (concat (map (encode_key d2f) xs) @ [K_END]) (concat (map (encode_key d2f) ys) @ [K_END])
       = lex_cmp (scalar_cmp d2f) xs ys"
  using assms
proof (induction "scalar_cmp d2f" xs ys rule: lex_cmp.induct)
  case (4 x xs y ys)
  then show ?case
    by (simp add: ord_cmp_scalar)
qed (simp_all add: ord_cmp_END)

section \<open>Reading keys back\<close>

lemma SIGN_bit [simp]: "((v :: u64) XOR SIGN) XOR SIGN = v"
  by (simp add: xor.assoc)

lemma f64_ord_sign: "f64_ord v AND SIGN = 0 \<longleftrightarrow> v AND SIGN \<noteq> 0"
  using unat_f64_ord[of v] uint_bounded[of v] uint_nonnegative[of v]
  by (auto simp: and_SIGN f64_rank_def)

lemma f64_ord_inverse: "(if f64_ord v AND SIGN \<noteq> 0 then f64_ord v XOR SIGN else NOT (f64_ord v)) = v"
proof (cases "v AND SIGN = 0")
  case True
  then have "f64_ord v = v XOR SIGN" by (simp add: f64_ord_def or_SIGN xor_SIGN)
  with True f64_ord_sign[of v] show ?thesis by simp
next
  case False
  with f64_ord_sign[of v] show ?thesis by (simp add: f64_ord_def)
qed

lemma be_val_word64 [simp]: "(word_of_nat (be_val (word64_be w)) :: u64) = w"
  by simp

lemma decode_numeric_word:
  "decode_numeric_key (t # word64_be w @ r) =
    (if t = K_INT then Some (VInt (w XOR SIGN))
     else if t = K_TIMESTAMP then Some (VTimestamp (w XOR SIGN))
     else if t = K_FLOAT \<or> t = K_DECIMAL
     then Some (VFloat (if w AND SIGN \<noteq> 0 then w XOR SIGN else NOT w)) else None)"
  by (simp add: decode_numeric_key_def Let_def)

subsection \<open>Skipping components\<close>

lemma skip_escaped_loop_esc:
  "skip_escaped_loop (pre @ esc bs @ 0 # 0 # r) (length pre) = Some (length pre + length (esc bs) + 2)"
proof (induction bs arbitrary: pre)
  case Nil
  show ?case by (subst skip_escaped_loop.simps) (simp add: nth_append)
next
  case (Cons b bs)
  show ?case
  proof (cases "b = 0")
    case True
    then show ?thesis
      using Cons[of "pre @ [0, 0xFF]"] by (subst skip_escaped_loop.simps) (simp add: nth_append)
  next
    case False
    then show ?thesis
      using Cons[of "pre @ [b]"] by (subst skip_escaped_loop.simps) (simp add: nth_append)
  qed
qed

lemma skip_escaped_bytes_esc: "skip_escaped_bytes (esc bs @ 0 # 0 # r) = Some (length (esc bs) + 2)"
  using skip_escaped_loop_esc[of "[]"] by (simp add: skip_escaped_bytes_def)

text \<open>What may stand in a primary key: a scalar that is not NULL.\<close>

definition key_scalar :: "val \<Rightarrow> bool" where
  "key_scalar v \<longleftrightarrow> scalar v \<and> \<not> is_null v \<and> wf_val v"

lemma array_prefix_step_key:
  assumes "key_scalar v" and "fits (pre @ encode_key d2f v @ post)"
  shows "array_prefix_step (pre @ encode_key d2f v @ post) (length pre)
       = Some (length (pre @ encode_key d2f v))"
  using assms
  by (cases v) (auto simp: key_scalar_def scalar_def is_null_def array_prefix_step_def fits_def nth_append
      skip_escaped_bytes_esc Let_def)

lemma array_prefix_loop_keys:
  assumes "\<And>v. v \<in> set vs \<Longrightarrow> key_scalar v" and "fits (pre @ concat (map (encode_key d2f) vs) @ post)"
  shows "array_prefix_loop (length vs) (pre @ concat (map (encode_key d2f) vs) @ post) (length pre)
       = Some (length (pre @ concat (map (encode_key d2f) vs)))"
  using assms
proof (induction vs arbitrary: pre)
  case (Cons v vs)
  have "array_prefix_step (pre @ encode_key d2f v @ concat (map (encode_key d2f) vs) @ post) (length pre)
      = Some (length (pre @ encode_key d2f v))"
    using Cons.prems by (intro array_prefix_step_key) auto
  then show ?case
    using Cons.IH[of "pre @ encode_key d2f v"] Cons.prems by simp
qed simp

lemma array_prefix_loop_split:
  "array_prefix_loop (m + n) key p = Option.bind (array_prefix_loop m key p) (array_prefix_loop n key)"
  by (induction m arbitrary: p) (auto split: option.splits)

lemma concat_map_take_drop: "concat (map f vs) = concat (map f (take n vs)) @ concat (map f (drop n vs))"
  by (simp flip: concat_append map_append)

lemma array_prefix_loop_whole:
  assumes "list_all key_scalar vs" and "fits (encode_key d2f (VArray vs))" and "n \<le> length vs"
  shows "array_prefix_loop n ([K_ARRAY] @ concat (map (encode_key d2f) vs) @ [K_END]) 1
       = Some (length (K_ARRAY # concat (map (encode_key d2f) (take n vs))))"
proof -
  let ?e = "\<lambda>vs. concat (map (encode_key d2f) vs)"
  have "array_prefix_loop (length (take n vs)) ([K_ARRAY] @ ?e (take n vs) @ ?e (drop n vs) @ [K_END])
      (length [K_ARRAY]) = Some (length ([K_ARRAY] @ ?e (take n vs)))"
    using assms(1,2) concat_map_take_drop[of "encode_key d2f" vs n]
    by (intro array_prefix_loop_keys) (auto simp: list_all_iff dest: in_set_takeD)
  then show ?thesis
    using assms(3) concat_map_take_drop[of "encode_key d2f" vs n] by (simp add: min.absorb2)
qed

lemma array_prefix_step_END: "key ! p = K_END \<Longrightarrow> array_prefix_step key p = None"
  by (simp add: array_prefix_step_def)

lemma encode_exact_key_scalar:
  "scalar v \<Longrightarrow> \<not> contains_decimal v \<Longrightarrow> encode_exact_key d2f v = encode_key d2f v"
  by (cases v) (simp_all add: encode_exact_key_def encode_key_def scalar_def)

lemma encode_exact_key_no_decimal: "\<not> contains_decimal v \<Longrightarrow> encode_exact_key d2f v = encode_key d2f v"
proof (induction v)
  case (VArray xs)
  then have "map (encode_exact_key d2f) xs = map (encode_key d2f) xs"
    by (simp add: list_ex_iff)
  then show ?case by (simp only: encode_exact_key_simps encode_key_simps)
next
  case (VDocument doc)
  then have "map (\<lambda>(k, v). esc k @ [0, 0] @ encode_exact_key d2f v) doc
      = map (\<lambda>(k, v). esc k @ [0, 0] @ encode_key d2f v) doc"
    by (fastforce simp: snds.simps list_ex_iff)
  then show ?case by (simp only: encode_exact_key_simps encode_key_simps)
qed (simp_all add: encode_exact_key_scalar scalar_def)

text \<open>When the exact keys of two scalars meet: decimals by value, everything else, doubles by their bits, by
  identity.\<close>

definition same_exact :: "val \<Rightarrow> val \<Rightarrow> bool" where
  "same_exact a b = (case (a, b) of
     (VDecimal x, VDecimal y) \<Rightarrow> cmp_decimal x y = Equal
   | _ \<Rightarrow> a = b)"

lemma exact_key_scalar_inject:
  assumes "scalar a" and "scalar b" and "wf_val a" and "wf_val b"
  shows "encode_exact_key d2f a @ r = encode_exact_key d2f b @ s \<longleftrightarrow> same_exact a b \<and> r = s"
proof -
  have inj: "f64_ord x = f64_ord y \<longleftrightarrow> x = y" for x y
    by (metis f64_ord_inverse)
  have x: "(x :: u64) XOR SIGN = y XOR SIGN \<longleftrightarrow> x = y" for x y
    by (metis SIGN_bit)
  show ?thesis
    using assms
    by (cases a; cases b)
      (simp_all add: scalar_def same_exact_def encode_exact_key_scalar inj x esc_inject[simplified]
        exact_bytes_eq_iff normalized_eq_iff cmp_decimal_eq)
qed

section \<open>Properties\<close>

text \<open>C1: The comparison of values that the engine sorts by, byte order of their encoded keys, orders
  scalars by type (NULL lowest, document highest) and then by value: booleans, signed integers and
  timestamps numerically, doubles in IEEE total order, strings, byte strings and UUIDs bytewise.\<close>

theorem total_cmp_scalar:
  assumes "scalar a" and "wf_val a" and "wf_val b"
  shows "total_cmp d2f a b = scalar_cmp d2f a b"
  using ord_cmp_scalar[OF assms, of d2f "[]" "[]"] by (simp add: total_cmp_def)

theorem total_cmp_scalar_witness:
  "total_cmp (\<lambda>_. 0) (VInt (- 1)) (VInt 5) = Less
   \<and> total_cmp (\<lambda>_. 0) (VString [1, 0]) (VString [1]) = Greater"
  using total_cmp_scalar[of "VInt (- 1)" "VInt 5" "\<lambda>_. 0"]
    total_cmp_scalar[of "VString [1, 0]" "VString [1]" "\<lambda>_. 0"]
  by (simp add: scalar_def scalar_cmp_def ord_cmp_def key_tag_def)

text \<open>Composite keys (arrays of scalars) compare lexicographically, component by component, a
  proper prefix first; NULL components included.\<close>

theorem total_cmp_composite:
  assumes "list_all (\<lambda>v. scalar v \<and> wf_val v) xs" and "list_all wf_val ys"
  shows "total_cmp d2f (VArray xs) (VArray ys) = lex_cmp (scalar_cmp d2f) xs ys"
  using ord_cmp_scalars[of xs ys d2f] assms by (simp add: total_cmp_def list_all_iff)

theorem total_cmp_composite_witness:
  "total_cmp (\<lambda>_. 0) (VArray [VNull, VInt 1]) (VArray [VNull, VInt 2, VNull]) = Less"
  using total_cmp_composite[of "[VNull, VInt 1]" "[VNull, VInt 2, VNull]" "\<lambda>_. 0"]
  by (simp add: scalar_def scalar_cmp_def ord_cmp_def key_tag_def)

text \<open>Without a decimal inside, at any depth, the exact key is the ordinary key.\<close>

theorem exact_key_without_decimal:
  "\<not> contains_decimal v \<Longrightarrow> encode_exact_key d2f v = encode_key d2f v"
  by (rule encode_exact_key_no_decimal)

theorem exact_key_without_decimal_witness:
  "encode_exact_key (\<lambda>_. 0) (VArray [VInt 1, VArray [VNull]]) = encode_key (\<lambda>_. 0) (VArray [VInt 1, VArray [VNull]])"
  using exact_key_without_decimal[of "VArray [VInt 1, VArray [VNull]]"] by simp

text \<open>Neither key is injective on nested values. NULL and the end of an array share the byte
  \<^verbatim>\<open>0x00\<close>, so two different arrays, and two different documents in arrays, get one key.\<close>

theorem nested_key_collision:
  "\<exists>a b. wf_val a \<and> wf_val b \<and> a \<noteq> b \<and> \<not> contains_decimal a \<and> \<not> contains_decimal b
     \<and> encode_key d2f a = encode_key d2f b \<and> encode_exact_key d2f a = encode_exact_key d2f b
     \<and> total_cmp d2f a b = Equal"
proof (intro exI conjI)
  let ?a = "VArray [VArray [], VNull]" and ?b = "VArray [VArray [VNull]]"
  show "wf_val ?a" "wf_val ?b" "?a \<noteq> ?b" "\<not> contains_decimal ?a" "\<not> contains_decimal ?b" by simp_all
  show k: "encode_key d2f ?a = encode_key d2f ?b" by simp
  then show "encode_exact_key d2f ?a = encode_exact_key d2f ?b"
    using encode_exact_key_no_decimal[of ?a d2f] encode_exact_key_no_decimal[of ?b d2f] by simp
  show "total_cmp d2f ?a ?b = Equal" using k by (simp only: total_cmp_def ord_cmp_Equal)
qed

text \<open>\<^verbatim>\<open>decode_numeric_key\<close> inverts the key encoding of a number, whatever follows it in the
  key: integers, timestamps and doubles come back exactly, a decimal as its double projection.\<close>

theorem decode_numeric_key_inverts:
  "decode_numeric_key (encode_key d2f v @ r) =
    (case v of VInt i \<Rightarrow> Some (VInt i) | VTimestamp i \<Rightarrow> Some (VTimestamp i) | VFloat f \<Rightarrow> Some (VFloat f)
     | VDecimal d \<Rightarrow> Some (VFloat (d2f d)) | _ \<Rightarrow> None)"
proof -
  have no: "t \<notin> {K_INT, K_TIMESTAMP, K_FLOAT, K_DECIMAL} \<Longrightarrow> decode_numeric_key (t # x) = None" for t x
    by (simp add: decode_numeric_key_def Let_def)
  show ?thesis
    by (cases v) (simp_all add: decode_numeric_word f64_ord_inverse no)
qed

text \<open>\<^verbatim>\<open>encoded_array_prefix\<close> on the key of a composite of non-NULL scalars: the slice of the first
  \<open>n\<close> components, so that equal component prefixes and only they give equal slices; \<^verbatim>\<open>None\<close> when \<open>n\<close>
  is zero or exceeds the number of components.\<close>

theorem encoded_array_prefix_components:
  assumes "list_all key_scalar vs" and "fits (encode_key d2f (VArray vs))"
  shows "encoded_array_prefix (encode_key d2f (VArray vs)) n =
    (if n = 0 \<or> length vs < n then None
     else Some (K_ARRAY # concat (map (encode_key d2f) (take n vs))))"
proof (cases "length vs < n")
  case True
  let ?k = "[K_ARRAY] @ concat (map (encode_key d2f) vs) @ [K_END]"
  have "array_prefix_loop (length vs) ?k 1 = Some (length ?k - 1)"
    using array_prefix_loop_whole[OF assms, of "length vs"] by simp
  moreover have "array_prefix_step ?k (length ?k - 1) = None"
    by (rule array_prefix_step_END) (simp add: nth_append)
  moreover obtain m where "n = length vs + Suc m" using True by (auto simp: less_iff_Suc_add)
  ultimately have "array_prefix_loop n ?k 1 = None"
    by (simp only: array_prefix_loop_split) simp
  with True show ?thesis by (simp add: encoded_array_prefix_def)
next
  case False
  then have "array_prefix_loop n ([K_ARRAY] @ concat (map (encode_key d2f) vs) @ [K_END]) 1
      = Some (length (K_ARRAY # concat (map (encode_key d2f) (take n vs))))"
    using array_prefix_loop_whole[OF assms] by simp
  moreover have "take (length (concat (map (encode_key d2f) (take n vs))))
      (concat (map (encode_key d2f) vs) @ [K_END]) = concat (map (encode_key d2f) (take n vs))"
    by (subst concat_map_take_drop[of _ _ n]) simp
  ultimately show ?thesis using False by (simp add: encoded_array_prefix_def)
qed

theorem encoded_array_prefix_components_witness:
  "encoded_array_prefix (encode_key (\<lambda>_. 0) (VArray [VBool True, VString [7]])) 1 = Some [K_ARRAY, K_BOOL, 1]"
  using encoded_array_prefix_components[of "[VBool True, VString [7]]" "\<lambda>_. 0" 1]
  by (simp add: key_scalar_def scalar_def is_null_def fits_def)

end
