(* ===== verification/Codec.thy ===== *)
theory Codec
  imports Key_Encoding
begin

text \<open>
  The lossless value codec of \<^verbatim>\<open>skaidb-types/src/codec.rs\<close>: \<^verbatim>\<open>Value::encode\<close>, \<^verbatim>\<open>Value::decode\<close>, the
  skipping walk \<^verbatim>\<open>skip_value\<close>, and the walks over an encoded row that avoid building it
  (\<^verbatim>\<open>decode_document_projected\<close>, \<^verbatim>\<open>decode_document_probed\<close>, \<^verbatim>\<open>scan_field_names\<close>, \<^verbatim>\<open>scan_fields\<close>,
  \<^verbatim>\<open>scan_group_row\<close>, \<^verbatim>\<open>doc_has_reserved\<close>, \<^verbatim>\<open>transcode_key_value\<close>).

  The recursive readers are written as a body over the recursive call and iterated with a bound, one
  more than the bytes left; the locale \<open>cursor_recursion\<close> proves once that this bound is never reached
  and that the readers satisfy their recursion equation. A \<^verbatim>\<open>HashSet\<close> of names is a list without
  repetitions in any order.
\<close>

section \<open>Recursion over a cursor\<close>

primrec fuel_iter :: "nat \<Rightarrow> (('c \<Rightarrow> ('e, 'a) res) \<Rightarrow> 'c \<Rightarrow> ('e, 'a) res) \<Rightarrow> 'c \<Rightarrow> ('e, 'a) res" where
  "fuel_iter 0 body c = Inl OutOfFuel"
| "fuel_iter (Suc n) body c = body (fuel_iter n body) c"

text \<open>\<open>advances f k\<close>: from a cursor with fewer than \<open>k\<close> bytes left, \<open>f\<close> only moves forward.\<close>

definition advances :: "(cursor \<Rightarrow> ('e, 'a \<times> cursor) res) \<Rightarrow> nat \<Rightarrow> bool" where
  "advances f k \<longleftrightarrow> (\<forall>d v d'. cur_remaining d < k \<longrightarrow> f d = Inr (v, d') \<longrightarrow> cur_ext d d' \<and> pos d < pos d')"

locale cursor_recursion =
  fixes body :: "(cursor \<Rightarrow> ('e, 'a \<times> cursor) res) \<Rightarrow> cursor \<Rightarrow> ('e, 'a \<times> cursor) res"
  assumes body_cong: "advances f (cur_remaining c) \<Longrightarrow>
      (\<And>d. cur_remaining d < cur_remaining c \<Longrightarrow> f d = g d) \<Longrightarrow> body f c = body g c"
    and body_advances: "advances f (cur_remaining c) \<Longrightarrow> body f c = Inr (v, d) \<Longrightarrow> cur_ext c d \<and> pos c < pos d"
    and body_clean: "advances f (cur_remaining c) \<Longrightarrow>
      (\<And>d. cur_remaining d < cur_remaining c \<Longrightarrow> clean (f d)) \<Longrightarrow> clean (body f c)"
begin

lemma advances_iter: "advances (fuel_iter n body) k"
proof (induction n arbitrary: k)
  case (Suc n)
  then show ?case by (auto simp: advances_def dest: body_advances[unfolded advances_def, rotated])
qed (simp add: advances_def)

lemma iter_stable: "cur_remaining c < n \<Longrightarrow> fuel_iter n body c = fuel_iter (Suc (cur_remaining c)) body c"
proof (induction n arbitrary: c rule: less_induct)
  case (less n)
  then obtain m where n: "n = Suc m" by (cases n) auto
  have "body (fuel_iter m body) c = body (fuel_iter (cur_remaining c) body) c"
  proof (rule body_cong[OF advances_iter])
    fix d assume d: "cur_remaining d < cur_remaining c"
    show "fuel_iter m body d = fuel_iter (cur_remaining c) body d"
    proof (cases "n = Suc (cur_remaining c)")
      case True
      with n show ?thesis by simp
    next
      case False
      with d less.prems n less.IH[of m d] less.IH[of "cur_remaining c" d] show ?thesis by simp
    qed
  qed
  with n show ?case by simp
qed

abbreviation run :: "cursor \<Rightarrow> ('e, 'a \<times> cursor) res" where
  "run c \<equiv> fuel_iter (Suc (cur_remaining c)) body c"

lemma run_unfold: "run c = body run c"
proof -
  have "body (fuel_iter (cur_remaining c) body) c = body run c"
  proof (rule body_cong[OF advances_iter])
    fix d assume "cur_remaining d < cur_remaining c"
    then show "fuel_iter (cur_remaining c) body d = run d" by (rule iter_stable)
  qed
  then show ?thesis by simp
qed

lemma run_advances: "run c = Inr (v, d) \<Longrightarrow> cur_ext c d \<and> pos c < pos d"
  using advances_iter[of "Suc (cur_remaining c)" "Suc (cur_remaining c)"] by (simp add: advances_def)

lemma run_clean: "clean (run c)"
proof (induction "cur_remaining c" arbitrary: c rule: less_induct)
  case less
  have "advances run (cur_remaining c)" using run_advances by (auto simp: advances_def)
  then have "clean (body run c)" using less by (rule body_clean)
  then show ?case by (subst run_unfold)
qed

end

text \<open>A counted loop calls its body on states that keep an invariant only.\<close>

lemma for_n_cong:
  assumes "P s" and "\<And>s. P s \<Longrightarrow> f s = g s" and "\<And>s t. P s \<Longrightarrow> f s = Inr t \<Longrightarrow> P t"
  shows "for_n n f s = for_n n g s"
  using assms(1)
proof (induction n arbitrary: s)
  case (Suc n)
  have "rbind (f s) (for_n n f) = rbind (f s) (for_n n g)"
    by (rule rbind_cong) (auto intro: Suc.IH assms(3)[OF Suc.prems])
  then show ?case by (simp add: assms(2)[OF Suc.prems])
qed simp

section \<open>Definitions\<close>

definition FIELD_NAMES_MARKER :: rstr where
  "FIELD_NAMES_MARKER = 0x01 # of_str ''names''"

abbreviation T_NULL :: u8 where "T_NULL \<equiv> 0"
abbreviation T_BOOL :: u8 where "T_BOOL \<equiv> 1"
abbreviation T_INT :: u8 where "T_INT \<equiv> 2"
abbreviation T_FLOAT :: u8 where "T_FLOAT \<equiv> 3"
abbreviation T_DECIMAL :: u8 where "T_DECIMAL \<equiv> 4"
abbreviation T_STRING :: u8 where "T_STRING \<equiv> 5"
abbreviation T_BYTES :: u8 where "T_BYTES \<equiv> 6"
abbreviation T_UUID :: u8 where "T_UUID \<equiv> 7"
abbreviation T_TIMESTAMP :: u8 where "T_TIMESTAMP \<equiv> 8"
abbreviation T_ARRAY :: u8 where "T_ARRAY \<equiv> 9"
abbreviation T_DOCUMENT :: u8 where "T_DOCUMENT \<equiv> 10"

definition E_over :: value_error where "E_over = UnrepresentableJson ''length overflow''"
definition E_end :: value_error where "E_end = UnrepresentableJson ''unexpected end of input''"
definition E_utf8 :: value_error where "E_utf8 = UnrepresentableJson ''invalid utf-8 in string''"
definition E_tag :: value_error where "E_tag = UnrepresentableJson ''unknown value tag''"
definition E_array :: value_error where "E_array = UnrepresentableJson ''array count exceeds input''"
definition E_fields :: value_error where "E_fields = UnrepresentableJson ''document field count exceeds input''"
definition E_trailing :: value_error where "E_trailing = UnrepresentableJson ''trailing bytes after value''"

abbreviation c_take :: "nat \<Rightarrow> cursor \<Rightarrow> (value_error, bytes \<times> cursor) res" where
  "c_take \<equiv> cur_take E_over E_end"
abbreviation c_array :: "nat \<Rightarrow> cursor \<Rightarrow> (value_error, bytes \<times> cursor) res" where
  "c_array \<equiv> cur_array E_over E_end"
abbreviation c_u8 :: "cursor \<Rightarrow> (value_error, u8 \<times> cursor) res" where "c_u8 \<equiv> cur_u8 E_over E_end"
abbreviation c_u32 :: "cursor \<Rightarrow> (value_error, u32 \<times> cursor) res" where "c_u32 \<equiv> cur_u32 E_over E_end"
abbreviation c_i64 :: "cursor \<Rightarrow> (value_error, i64 \<times> cursor) res" where "c_i64 \<equiv> cur_u64 E_over E_end"
abbreviation c_bytes :: "cursor \<Rightarrow> (value_error, bytes \<times> cursor) res" where "c_bytes \<equiv> cur_bytes E_over E_end"
abbreviation c_string :: "cursor \<Rightarrow> (value_error, rstr \<times> cursor) res" where
  "c_string \<equiv> cur_string E_over E_end E_utf8"

subsection \<open>Encoding\<close>

definition write_bytes :: "bytes \<Rightarrow> bytes \<Rightarrow> bytes" where
  "write_bytes out bs = out @ u32_le (length bs) @ bs"

fun encode_value :: "val \<Rightarrow> bytes \<Rightarrow> bytes" where
  "encode_value VNull out = out @ [T_NULL]"
| "encode_value (VBool b) out = out @ [T_BOOL] @ [if b then 1 else 0]"
| "encode_value (VInt i) out = out @ [T_INT] @ word64_le i"
| "encode_value (VFloat f) out = out @ [T_FLOAT] @ word64_le f"
| "encode_value (VDecimal d) out = out @ [T_DECIMAL] @ word128_le (mantissa d) @ word32_le (scale d)"
| "encode_value (VString s) out = write_bytes (out @ [T_STRING]) s"
| "encode_value (VBytes b) out = write_bytes (out @ [T_BYTES]) b"
| "encode_value (VUuid u) out = out @ [T_UUID] @ u"
| "encode_value (VTimestamp t) out = out @ [T_TIMESTAMP] @ word64_le t"
| "encode_value (VArray items) out =
     fold (\<lambda>item out. encode_value item out) items (out @ [T_ARRAY] @ u32_le (length items))"
| "encode_value (VDocument doc) out =
     fold (\<lambda>(k, v) out. encode_value v (write_bytes out k)) doc (out @ [T_DOCUMENT] @ u32_le (length doc))"

definition encode :: "val \<Rightarrow> bytes" where
  "encode v = encode_value v []"

definition encode_document :: "document \<Rightarrow> bytes" where
  "encode_document doc =
    fold (\<lambda>(k, v) out. encode_value v (write_bytes out k)) doc ([T_DOCUMENT] @ u32_le (length doc))"

subsection \<open>Decoding\<close>

text \<open>\<^verbatim>\<open>decode_value\<close> and \<^verbatim>\<open>skip_value\<close>, the recursive call abstracted.\<close>

definition decode_body ::
  "(cursor \<Rightarrow> (value_error, val \<times> cursor) res) \<Rightarrow> cursor \<Rightarrow> (value_error, val \<times> cursor) res" where
  "decode_body rec c = rbind (c_u8 c) (\<lambda>(t, c).
     if t = T_NULL then Inr (VNull, c)
     else if t = T_BOOL then rbind (c_u8 c) (\<lambda>(b, c). Inr (VBool (b \<noteq> 0), c))
     else if t = T_INT then rbind (c_i64 c) (\<lambda>(i, c). Inr (VInt i, c))
     else if t = T_FLOAT then rbind (c_i64 c) (\<lambda>(i, c). Inr (VFloat i, c))
     else if t = T_DECIMAL then
       rbind (c_array 16 c) (\<lambda>(m, c). rbind (c_u32 c) (\<lambda>(s, c).
         Inr (VDecimal (decimal_new (word_of_nat (le_val m)) s), c)))
     else if t = T_STRING then rbind (c_string c) (\<lambda>(s, c). Inr (VString s, c))
     else if t = T_BYTES then rbind (c_bytes c) (\<lambda>(b, c). Inr (VBytes b, c))
     else if t = T_UUID then rbind (c_array 16 c) (\<lambda>(u, c). Inr (VUuid u, c))
     else if t = T_TIMESTAMP then rbind (c_i64 c) (\<lambda>(i, c). Inr (VTimestamp i, c))
     else if t = T_ARRAY then
       rbind (c_u32 c) (\<lambda>(n, c).
         if cur_remaining c < unat n then Inl (Err E_array)
         else rbind (for_n (unat n) (\<lambda>(items, c). rbind (rec c) (\<lambda>(v, c). Inr (items @ [v], c))) ([], c))
                (\<lambda>(items, c). Inr (VArray items, c)))
     else if t = T_DOCUMENT then
       rbind (c_u32 c) (\<lambda>(n, c).
         if cur_remaining c div 5 < unat n then Inl (Err E_fields)
         else rbind (for_n (unat n) (\<lambda>(doc, c).
                  rbind (c_string c) (\<lambda>(k, c). rbind (rec c) (\<lambda>(v, c). Inr (doc_insert k v doc, c))))
                (doc_new, c))
                (\<lambda>(doc, c). Inr (VDocument doc, c)))
     else Inl (Err E_tag))"

definition decode_value :: "cursor \<Rightarrow> (value_error, val \<times> cursor) res" where
  "decode_value c = fuel_iter (Suc (cur_remaining c)) decode_body c"

definition skip_body ::
  "(cursor \<Rightarrow> (value_error, unit \<times> cursor) res) \<Rightarrow> cursor \<Rightarrow> (value_error, unit \<times> cursor) res" where
  "skip_body rec c = rbind (c_u8 c) (\<lambda>(t, c).
     if t = T_NULL then Inr ((), c)
     else if t = T_BOOL then rbind (c_u8 c) (\<lambda>(_, c). Inr ((), c))
     else if t = T_INT \<or> t = T_FLOAT \<or> t = T_TIMESTAMP then rbind (c_i64 c) (\<lambda>(_, c). Inr ((), c))
     else if t = T_DECIMAL then
       rbind (c_take 16 c) (\<lambda>(_, c). rbind (c_u32 c) (\<lambda>(_, c). Inr ((), c)))
     else if t = T_STRING \<or> t = T_BYTES then
       rbind (c_u32 c) (\<lambda>(len, c). rbind (c_take (unat len) c) (\<lambda>(_, c). Inr ((), c)))
     else if t = T_UUID then rbind (c_take 16 c) (\<lambda>(_, c). Inr ((), c))
     else if t = T_ARRAY then
       rbind (c_u32 c) (\<lambda>(n, c). for_n (unat n) (\<lambda>(_, c). rec c) ((), c))
     else if t = T_DOCUMENT then
       rbind (c_u32 c) (\<lambda>(n, c). for_n (unat n) (\<lambda>(_, c).
          rbind (c_u32 c) (\<lambda>(len, c). rbind (c_take (unat len) c) (\<lambda>(_, c). rec c))) ((), c))
     else Inl (Err E_tag))"

definition skip_value :: "cursor \<Rightarrow> (value_error, unit \<times> cursor) res" where
  "skip_value c = fuel_iter (Suc (cur_remaining c)) skip_body c"

definition at_end :: "bytes \<Rightarrow> cursor \<Rightarrow> 'a \<Rightarrow> (value_error, 'a) res" where
  "at_end bs c x = (if pos c \<noteq> length bs then Inl (Err E_trailing) else Inr x)"

definition decode :: "bytes \<Rightarrow> (value_error, val) res" where
  "decode bs = rbind (decode_value (cur_new bs)) (\<lambda>(v, c). at_end bs c v)"

section \<open>The readers satisfy their recursion equations\<close>

lemma cur_u8_remaining: "cur_u8 ov sh c = Inr (b, d) \<Longrightarrow> cur_remaining d < cur_remaining c"
  by (auto simp: cur_u8_Inr cur_remaining_def)

lemmas cur_step_remaining =
  cur_take_ext[THEN conjunct1, THEN cur_ext_remaining] cur_u32_ext[THEN conjunct1, THEN cur_ext_remaining]
  cur_bytes_ext[THEN conjunct1, THEN cur_ext_remaining] cur_string_ext[THEN conjunct1, THEN cur_ext_remaining]
  cur_u64_ext[THEN conjunct1, THEN cur_ext_remaining]

lemma advances_remaining:
  "advances f k \<Longrightarrow> cur_remaining d < k \<Longrightarrow> f d = Inr (v, d') \<Longrightarrow> cur_remaining d' < k"
  unfolding advances_def by (meson cur_ext_remaining le_less_trans)

abbreviation below :: "nat \<Rightarrow> 'a \<times> cursor \<Rightarrow> bool" where
  "below k s \<equiv> cur_remaining (snd s) < k"

abbreviation array_step :: "(cursor \<Rightarrow> (value_error, val \<times> cursor) res) \<Rightarrow> val list \<times> cursor
    \<Rightarrow> (value_error, val list \<times> cursor) res" where
  "array_step rec \<equiv> (\<lambda>(items, c). rbind (rec c) (\<lambda>(v, c). Inr (items @ [v], c)))"

abbreviation doc_step :: "(cursor \<Rightarrow> (value_error, val \<times> cursor) res) \<Rightarrow> document \<times> cursor
    \<Rightarrow> (value_error, document \<times> cursor) res" where
  "doc_step rec \<equiv> (\<lambda>(doc, c).
     rbind (c_string c) (\<lambda>(k, c). rbind (rec c) (\<lambda>(v, c). Inr (doc_insert k v doc, c))))"

abbreviation skip_field_step :: "(cursor \<Rightarrow> (value_error, unit \<times> cursor) res) \<Rightarrow> unit \<times> cursor
    \<Rightarrow> (value_error, unit \<times> cursor) res" where
  "skip_field_step rec \<equiv> (\<lambda>(_, c).
     rbind (c_u32 c) (\<lambda>(len, c). rbind (c_take (unat len) c) (\<lambda>(_, c). rec c)))"

text \<open>Each step moves the cursor forward and calls the reader on smaller cursors only.\<close>

lemma advances_ext: "advances f k \<Longrightarrow> cur_remaining d < k \<Longrightarrow> f d = Inr (v, d') \<Longrightarrow> cur_ext d d'"
  by (simp add: advances_def)

lemma array_step_ext: "advances f k \<Longrightarrow> below k s \<Longrightarrow> array_step f s = Inr t \<Longrightarrow> cur_ext (snd s) (snd t)"
  by (auto simp: rbind_eq_Inr split: prod.splits dest: advances_ext)

lemma doc_step_ext:
  assumes "advances f k" and "below k s" and "doc_step f s = Inr t"
  shows "cur_ext (snd s) (snd t)"
proof -
  from assms(3) obtain key c v d where "c_string (snd s) = Inr (key, c)" "f c = Inr (v, d)" "snd t = d"
    by (auto simp: rbind_eq_Inr split: prod.splits)
  with assms(1,2) show ?thesis
    by (metis advances_ext cur_ext_remaining cur_ext_trans cur_string_ext le_less_trans)
qed

lemma skip_field_step_ext:
  assumes "advances f k" and "below k s" and "skip_field_step f s = Inr t"
  shows "cur_ext (snd s) (snd t)"
proof -
  from assms(3) obtain len c x d where c: "c_u32 (snd s) = Inr (len, c)" "c_take (unat len) c = Inr (x, d)"
    "f d = Inr t"
    by (auto simp: rbind_eq_Inr split: prod.splits)
  then have "cur_ext (snd s) d" using cur_u32_ext cur_take_ext cur_ext_trans by metis
  moreover obtain u e where "t = (u, e)" by (cases t)
  ultimately show ?thesis
    using advances_ext[OF assms(1), of d u e] assms(2) c(3) cur_ext_remaining cur_ext_trans by fastforce
qed

lemma for_n_ext:
  assumes "for_n n f s = Inr t" and "below k s"
    and "\<And>s t. below k s \<Longrightarrow> f s = Inr t \<Longrightarrow> cur_ext (snd s) (snd t)"
  shows "cur_ext (snd s) (snd t)"
proof -
  have "below k t \<and> cur_ext (snd s) (snd t)"
  proof (rule for_n_invariant[OF assms(1)])
    fix u v assume u: "below k u \<and> cur_ext (snd s) (snd u)" and "f u = Inr v"
    then have "cur_ext (snd u) (snd v)" by (intro assms(3)) simp_all
    with u show "below k v \<and> cur_ext (snd s) (snd v)"
      using cur_ext_remaining[of "snd u" "snd v"] cur_ext_trans by auto
  qed (simp add: assms(2))
  then show ?thesis ..
qed

lemma for_n_below_cong:
  assumes "below k s" and "\<And>s. below k s \<Longrightarrow> f s = g s"
    and "\<And>s t. below k s \<Longrightarrow> f s = Inr t \<Longrightarrow> cur_ext (snd s) (snd t)"
  shows "for_n n f s = for_n n g s"
  by (rule for_n_cong[of "below k"]) (use assms cur_ext_remaining le_less_trans in blast)+

lemma for_n_below_clean:
  assumes "below k s" and "\<And>s. below k s \<Longrightarrow> clean (f s)"
    and "\<And>s t. below k s \<Longrightarrow> f s = Inr t \<Longrightarrow> cur_ext (snd s) (snd t)"
  shows "clean (for_n n f s)"
  by (rule for_n_clean[of "below k"]) (use assms cur_ext_remaining le_less_trans in blast)+

lemma array_step_cong:
  "(\<And>d. cur_remaining d < k \<Longrightarrow> f d = g d) \<Longrightarrow> below k s \<Longrightarrow> array_step f s = array_step g s"
  by (auto split: prod.splits)

lemma doc_step_cong:
  "(\<And>d. cur_remaining d < k \<Longrightarrow> f d = g d) \<Longrightarrow> below k s \<Longrightarrow> doc_step f s = doc_step g s"
  by (auto split: prod.splits intro!: rbind_cong dest!: cur_step_remaining)

lemma skip_field_step_cong:
  "(\<And>d. cur_remaining d < k \<Longrightarrow> f d = g d) \<Longrightarrow> below k s \<Longrightarrow> skip_field_step f s = skip_field_step g s"
  by (auto split: prod.splits intro!: rbind_cong dest!: cur_step_remaining)

lemma header_remaining:
  "c_u8 c = Inr (t, d) \<Longrightarrow> c_u32 d = Inr (n, e) \<Longrightarrow> below (cur_remaining c) (x, e)"
  using cur_u8_remaining cur_u32_ext[THEN conjunct1, THEN cur_ext_remaining] by fastforce

lemma header_ext: "c_u8 c = Inr (t, d) \<Longrightarrow> cur_ext d e \<Longrightarrow> cur_ext c e \<and> pos c < pos e"
  using cur_u8_ext[of E_over E_end c t d] cur_ext_trans[of c d e] by (auto simp: cur_ext_def)

interpretation dec: cursor_recursion decode_body
proof
  fix f g :: "cursor \<Rightarrow> (value_error, val \<times> cursor) res" and c d v
  assume f: "advances f (cur_remaining c)"
  {
    assume eq: "\<And>d. cur_remaining d < cur_remaining c \<Longrightarrow> f d = g d"
    have arr: "for_n n (array_step f) ([], e) = for_n n (array_step g) ([], e)"
      if "c_u8 c = Inr (t, d)" "c_u32 d = Inr (m, e)" for n t d m e
      by (rule for_n_below_cong[OF header_remaining[OF that] array_step_cong[OF eq] array_step_ext[OF f]])
    have doc: "for_n n (doc_step f) (doc_new, e) = for_n n (doc_step g) (doc_new, e)"
      if "c_u8 c = Inr (t, d)" "c_u32 d = Inr (m, e)" for n t d m e
      by (rule for_n_below_cong[OF header_remaining[OF that] doc_step_cong[OF eq] doc_step_ext[OF f]])
    show "decode_body f c = decode_body g c"
      unfolding decode_body_def
      by (intro rbind_cong refl) (auto split: prod.splits intro!: rbind_cong simp: arr doc)
  next
    assume r: "decode_body f c = Inr (v, d)"
    then obtain t e where t: "c_u8 c = Inr (t, e)" by (auto simp: decode_body_def rbind_eq_Inr)
    have arr: "cur_ext e d" if "c_u32 e = Inr (m, h)" "for_n n (array_step f) ([], h) = Inr (x, d)" for n m h x
      using for_n_ext[OF that(2) header_remaining[OF t that(1)] array_step_ext[OF f]]
        cur_u32_ext[OF that(1)] cur_ext_trans by auto
    have doc: "cur_ext e d" if "c_u32 e = Inr (m, h)" "for_n n (doc_step f) (doc_new, h) = Inr (x, d)" for n m h x
      using for_n_ext[OF that(2) header_remaining[OF t that(1)] doc_step_ext[OF f]]
        cur_u32_ext[OF that(1)] cur_ext_trans by auto
    have "cur_ext e d"
      using r t
      by (auto simp: decode_body_def cur_array_eq rbind_eq_Inr split: if_splits prod.splits
          dest: cur_exts intro: cur_ext_trans arr doc)
    with t show "cur_ext c d \<and> pos c < pos d" by (rule header_ext)
  next
    assume cl: "\<And>d. cur_remaining d < cur_remaining c \<Longrightarrow> clean (f d)"
    show "clean (decode_body f c)"
    proof -
      have arr: "clean (for_n n (array_step f) ([], h))"
        if "c_u8 c = Inr (t, e)" "c_u32 e = Inr (m, h)" for n t e m h
        by (rule for_n_below_clean[OF header_remaining[OF that] _ array_step_ext[OF f]])
          (auto intro!: clean_rbind cl split: prod.splits)
      have doc: "clean (for_n n (doc_step f) (doc_new, h))"
        if "c_u8 c = Inr (t, e)" "c_u32 e = Inr (m, h)" for n t e m h
        by (rule for_n_below_clean[OF header_remaining[OF that] _ doc_step_ext[OF f]])
          (auto intro!: clean_rbind cl split: prod.splits dest!: cur_step_remaining)
      show ?thesis
        unfolding decode_body_def
        by (rule clean_rbind, simp) (auto split: prod.splits intro!: clean_rbind simp: arr doc)
    qed
  }
qed

interpretation skp: cursor_recursion skip_body
proof
  fix f g :: "cursor \<Rightarrow> (value_error, unit \<times> cursor) res" and c d v
  assume f: "advances f (cur_remaining c)"
  have item_ext: "below (cur_remaining c) s \<Longrightarrow> (\<lambda>(_, c). f c) s = Inr t \<Longrightarrow> cur_ext (snd s) (snd t)"
    for s :: "unit \<times> cursor" and t
    using f by (cases s; cases t) (auto dest: advances_ext)
  {
    assume eq: "\<And>d. cur_remaining d < cur_remaining c \<Longrightarrow> f d = g d"
    have arr: "for_n n (\<lambda>(_, c). f c) ((), e) = for_n n (\<lambda>(_, c). g c) ((), e)"
      if "c_u8 c = Inr (t, d)" "c_u32 d = Inr (m, e)" for n t d m e
      by (rule for_n_below_cong[OF header_remaining[OF that] _ item_ext]) (auto intro: eq)
    have doc: "for_n n (skip_field_step f) ((), e) = for_n n (skip_field_step g) ((), e)"
      if "c_u8 c = Inr (t, d)" "c_u32 d = Inr (m, e)" for n t d m e
      by (rule for_n_below_cong[OF header_remaining[OF that] skip_field_step_cong[OF eq] skip_field_step_ext[OF f]])
    show "skip_body f c = skip_body g c"
      unfolding skip_body_def
      by (intro rbind_cong refl) (auto split: prod.splits intro!: rbind_cong simp: arr doc)
  next
    assume r: "skip_body f c = Inr (v, d)"
    then obtain t e where t: "c_u8 c = Inr (t, e)" by (auto simp: skip_body_def rbind_eq_Inr)
    have arr: "cur_ext e d" if "c_u32 e = Inr (m, h)" "for_n n (\<lambda>(_, c). f c) ((), h) = Inr (x, d)" for n m h x
      using for_n_ext[OF that(2) header_remaining[OF t that(1)] item_ext]
        cur_u32_ext[OF that(1)] cur_ext_trans by auto
    have doc: "cur_ext e d" if "c_u32 e = Inr (m, h)" "for_n n (skip_field_step f) ((), h) = Inr (x, d)" for n m h x
      using for_n_ext[OF that(2) header_remaining[OF t that(1)] skip_field_step_ext[OF f]]
        cur_u32_ext[OF that(1)] cur_ext_trans by auto
    have "cur_ext e d"
      using r t
      by (auto simp: skip_body_def rbind_eq_Inr split: if_splits prod.splits
          dest: cur_exts intro: cur_ext_trans arr doc)
    with t show "cur_ext c d \<and> pos c < pos d" by (rule header_ext)
  next
    assume cl: "\<And>d. cur_remaining d < cur_remaining c \<Longrightarrow> clean (f d)"
    show "clean (skip_body f c)"
    proof -
      have arr: "clean (for_n n (\<lambda>(_, c). f c) ((), h))"
        if "c_u8 c = Inr (t, e)" "c_u32 e = Inr (m, h)" for n t e m h
        by (rule for_n_below_clean[OF header_remaining[OF that] _ item_ext]) (auto intro: cl)
      have doc: "clean (for_n n (skip_field_step f) ((), h))"
        if "c_u8 c = Inr (t, e)" "c_u32 e = Inr (m, h)" for n t e m h
        by (rule for_n_below_clean[OF header_remaining[OF that] _ skip_field_step_ext[OF f]])
          (auto intro!: clean_rbind cl split: prod.splits dest!: cur_step_remaining)
      show ?thesis
        unfolding skip_body_def
        by (rule clean_rbind, simp) (auto split: prod.splits intro!: clean_rbind simp: arr doc)
    qed
  }
qed

lemma decode_value_unfold: "decode_value c = decode_body decode_value c"
  unfolding decode_value_def [abs_def] by (rule dec.run_unfold)

lemma skip_value_unfold: "skip_value c = skip_body skip_value c"
  unfolding skip_value_def [abs_def] by (rule skp.run_unfold)

lemma decode_value_ext: "decode_value c = Inr (v, d) \<Longrightarrow> cur_ext c d \<and> pos c < pos d"
  unfolding decode_value_def by (rule dec.run_advances)

lemma skip_value_ext: "skip_value c = Inr (v, d) \<Longrightarrow> cur_ext c d \<and> pos c < pos d"
  unfolding skip_value_def by (rule skp.run_advances)

lemma readers_clean [simp]: "clean (decode_value c)" "clean (skip_value c)"
  unfolding decode_value_def skip_value_def by (rule dec.run_clean skp.run_clean)+

section \<open>What the encoder writes\<close>

lemma write_bytes_len: "write_bytes out bs = out @ len_bytes bs"
  by (simp add: write_bytes_def len_bytes_def)

lemma encode_value_append: "encode_value v out = out @ encode v"
proof (induction v arbitrary: out)
  case (VArray xs)
  have "fold (\<lambda>item out. encode_value item out) xs o1 = o1 @ concat (map encode xs)" for o1
    by (rule fold_append) (rule VArray)
  from this[of "out @ [T_ARRAY] @ u32_le (length xs)"] this[of "[T_ARRAY] @ u32_le (length xs)"]
  show ?case by (simp add: encode_def)
next
  case (VDocument doc)
  have "fold (\<lambda>(k, v) out. encode_value v (write_bytes out k)) doc o1
      = o1 @ concat (map (\<lambda>(k, v). len_bytes k @ encode v) doc)" for o1
    by (rule fold_append) (auto simp: VDocument write_bytes_len snds.simps split: prod.splits)
  from this[of "out @ [T_DOCUMENT] @ u32_le (length doc)"] this[of "[T_DOCUMENT] @ u32_le (length doc)"]
  show ?case by (simp add: encode_def)
qed (simp_all add: encode_def write_bytes_len)

definition enc_field :: "rstr \<times> val \<Rightarrow> bytes" where
  "enc_field f = len_bytes (fst f) @ encode (snd f)"

lemma encode_document_eq:
  "encode_document doc = T_DOCUMENT # u32_le (length doc) @ concat (map enc_field doc)"
proof -
  have "fold (\<lambda>(k, v) out. encode_value v (write_bytes out k)) doc o1 = o1 @ concat (map enc_field doc)" for o1
    by (rule fold_append) (auto simp: encode_value_append write_bytes_len enc_field_def split: prod.splits)
  then show ?thesis by (simp add: encode_document_def)
qed

lemma encode_simps [simp]:
  "encode VNull = [T_NULL]"
  "encode (VBool b) = [T_BOOL, if b then 1 else 0]"
  "encode (VInt i) = T_INT # word64_le i"
  "encode (VFloat i) = T_FLOAT # word64_le i"
  "encode (VDecimal d) = T_DECIMAL # word128_le (mantissa d) @ word32_le (scale d)"
  "encode (VString s) = T_STRING # len_bytes s"
  "encode (VBytes s) = T_BYTES # len_bytes s"
  "encode (VUuid u) = T_UUID # u"
  "encode (VTimestamp i) = T_TIMESTAMP # word64_le i"
  "encode (VArray xs) = T_ARRAY # u32_le (length xs) @ concat (map encode xs)"
  "encode (VDocument doc) = encode_document doc"
proof -
  have "fold (\<lambda>item out. encode_value item out) xs o1 = o1 @ concat (map encode xs)" for o1
    by (rule fold_append) (rule encode_value_append)
  then show "encode (VArray xs) = T_ARRAY # u32_le (length xs) @ concat (map encode xs)"
    by (simp add: encode_def)
qed (simp_all add: encode_def write_bytes_len encode_document_def)

lemma encode_nonempty: "1 \<le> length (encode v)"
  by (cases v) (simp_all add: encode_document_eq)

lemma length_enc_field: "5 \<le> length (enc_field f)"
  using encode_nonempty[of "snd f"] by (simp add: enc_field_def)

lemma length_concat_ge: "(\<And>x. x \<in> set xs \<Longrightarrow> k \<le> length (f x)) \<Longrightarrow> k * length xs \<le> length (concat (map f xs))"
  by (induction xs) fastforce+

text \<open>
  What the \<^verbatim>\<open>u32\<close> lengths can carry: strings, byte strings, arrays and documents of fewer than \<open>2 ^ 32\<close>
  elements. Longer ones are written with a truncated length (\<^verbatim>\<open>as u32\<close>).
\<close>

fun sized :: "val \<Rightarrow> bool" where
  "sized (VString s) = (length s < 2 ^ 32)"
| "sized (VBytes s) = (length s < 2 ^ 32)"
| "sized (VArray xs) = (length xs < 2 ^ 32 \<and> (\<forall>x \<in> set xs. sized x))"
| "sized (VDocument doc) = (length doc < 2 ^ 32 \<and> (\<forall>f \<in> set doc. length (fst f) < 2 ^ 32 \<and> sized (snd f)))"
| "sized _ = True"

definition storable :: "val \<Rightarrow> bool" where
  "storable v \<longleftrightarrow> wf_val v \<and> sized v"

lemma storable_simps:
  "storable (VArray xs) \<longleftrightarrow> length xs < 2 ^ 32 \<and> (\<forall>x \<in> set xs. storable x)"
  "storable (VDocument doc) \<longleftrightarrow> bt_sorted doc \<and> length doc < 2 ^ 32
     \<and> (\<forall>f \<in> set doc. utf8_ok (fst f) \<and> length (fst f) < 2 ^ 32 \<and> storable (snd f))"
  by (auto simp: storable_def)

text \<open>Reading a document's fields back inserts them in ascending order.\<close>

lemma doc_loop_at:
  assumes "\<And>f pre post. f \<in> set fs \<Longrightarrow> fits (pre @ encode (snd f) @ post) \<Longrightarrow>
      rec (cur_at pre (encode (snd f) @ post)) = Inr (snd f, cur_at (pre @ encode (snd f)) post)"
    and "\<And>f. f \<in> set fs \<Longrightarrow> utf8_ok (fst f) \<and> length (fst f) < 2 ^ 32"
    and "bt_sorted (doc @ fs)" and "fits (pre @ concat (map enc_field fs) @ post)"
  shows "for_n (length fs) (doc_step rec) (doc, cur_at pre (concat (map enc_field fs) @ post))
       = Inr (doc @ fs, cur_at (pre @ concat (map enc_field fs)) post)"
  using assms
proof (induction fs arbitrary: doc pre)
  case (Cons f fs)
  let ?r = "concat (map enc_field fs) @ post"
  have "c_string (cur_at pre (len_bytes (fst f) @ encode (snd f) @ ?r))
      = Inr (fst f, cur_at (pre @ len_bytes (fst f)) (encode (snd f) @ ?r))"
    using Cons.prems(2)[of f] Cons.prems(4) by (intro cur_string_at) (auto simp: enc_field_def[of f])
  moreover have "rec (cur_at (pre @ len_bytes (fst f)) (encode (snd f) @ ?r))
      = Inr (snd f, cur_at (pre @ enc_field f) ?r)"
    using Cons.prems(1)[of f "pre @ len_bytes (fst f)" ?r] Cons.prems(4) by (simp add: enc_field_def[of f])
  moreover have "doc_insert (fst f) (snd f) doc = doc @ [f]"
    using Cons.prems(3) by (cases f) (auto simp: doc_insert_def bt_sorted_append intro!: bt_insert_last)
  moreover have "for_n (length fs) (doc_step rec) (doc @ [f], cur_at (pre @ enc_field f) ?r)
      = Inr (doc @ f # fs, cur_at (pre @ concat (map enc_field (f # fs))) post)"
    using Cons.IH[of "doc @ [f]" "pre @ enc_field f"] Cons.prems by simp
  ultimately show ?case by (simp add: enc_field_def[of f])
qed simp

section \<open>Decoding what was encoded\<close>

lemma u8_head: "fits (pre @ (t # xs) @ post) \<Longrightarrow>
    c_u8 (cur_at pre ((t # xs) @ post)) = Inr (t, cur_at (pre @ [t]) (xs @ post))"
  using cur_u8_at[of pre t "xs @ post"] by simp

lemma decode_value_at:
  "storable v \<Longrightarrow> fits (pre @ encode v @ post) \<Longrightarrow>
   decode_value (cur_at pre (encode v @ post)) = Inr (v, cur_at (pre @ encode v) post)"
proof (induction v arbitrary: pre post)
  case (VInt x)
  then show ?case
    using cur_word64_at[of "pre @ [T_INT]" x post E_over E_end] by (subst decode_value_unfold) (simp add: decode_body_def cur_u8_at)
next
  case (VFloat x)
  then show ?case
    using cur_word64_at[of "pre @ [T_FLOAT]" x post E_over E_end] by (subst decode_value_unfold) (simp add: decode_body_def cur_u8_at)
next
  case (VTimestamp x)
  then show ?case
    using cur_word64_at[of "pre @ [T_TIMESTAMP]" x post E_over E_end] by (subst decode_value_unfold) (simp add: decode_body_def cur_u8_at)
next
  case (VDecimal d)
  then show ?case
    using cur_array_at[of "pre @ [T_DECIMAL]" "word128_le (mantissa d)" "word32_le (scale d) @ post" 16 E_over E_end]
      cur_word32_at[of "pre @ T_DECIMAL # word128_le (mantissa d)" "scale d" post E_over E_end]
    by (subst decode_value_unfold) (simp add: decode_body_def cur_u8_at decimal_new_def)
next
  case (VString s)
  then show ?case
    using cur_string_at[of "pre @ [T_STRING]" s post E_over E_end E_utf8]
    by (subst decode_value_unfold) (simp add: decode_body_def cur_u8_at storable_def)
next
  case (VBytes s)
  then show ?case
    using cur_bytes_at[of "pre @ [T_BYTES]" s post E_over E_end]
    by (subst decode_value_unfold) (simp add: decode_body_def cur_u8_at storable_def)
next
  case (VUuid u)
  then show ?case
    using cur_array_at[of "pre @ [T_UUID]" u post 16 E_over E_end]
    by (subst decode_value_unfold) (simp add: decode_body_def cur_u8_at storable_def)
next
  case (VArray xs)
  let ?h = "pre @ T_ARRAY # u32_le (length xs)" and ?e = "concat (map encode xs)"
  have "field_codec encode decode_value (\<lambda>x. x \<in> set xs)"
    by unfold_locales (use VArray in \<open>auto simp: storable_simps\<close>)
  then have "for_n (length xs) (array_step decode_value) ([], cur_at ?h (?e @ post)) = Inr (xs, cur_at (?h @ ?e) post)"
    using field_codec.dec_seq[of encode decode_value "\<lambda>x. x \<in> set xs" xs ?h post "[]"] VArray.prems(2) by simp
  moreover have "c_u32 (cur_at (pre @ [T_ARRAY]) (u32_le (length xs) @ ?e @ post))
      = Inr (word_of_nat (length xs), cur_at ?h (?e @ post))"
    using cur_u32_at[of "pre @ [T_ARRAY]" "length xs" "?e @ post" E_over E_end] VArray.prems(2) by simp
  moreover have "length xs \<le> length (?e @ post)"
    using length_concat_ge[of xs 1 encode] encode_nonempty by simp
  ultimately show ?case
    using VArray.prems by (subst decode_value_unfold)
      (simp add: decode_body_def cur_u8_at storable_simps unat_of_nat)
next
  case (VDocument doc)
  let ?h = "pre @ T_DOCUMENT # u32_le (length doc)" and ?e = "concat (map enc_field doc)"
  have "for_n (length doc) (doc_step decode_value) (doc_new, cur_at ?h (?e @ post)) = Inr (doc, cur_at (?h @ ?e) post)"
    using doc_loop_at[of doc decode_value doc_new ?h post] VDocument
    by (auto simp: storable_simps doc_new_def encode_document_eq snds.simps)
  moreover have "c_u32 (cur_at (pre @ [T_DOCUMENT]) (u32_le (length doc) @ ?e @ post))
      = Inr (word_of_nat (length doc), cur_at ?h (?e @ post))"
    using cur_u32_at[of "pre @ [T_DOCUMENT]" "length doc" "?e @ post" E_over E_end] VDocument.prems(2)
    by (simp add: encode_document_eq)
  moreover have "length doc \<le> length (?e @ post) div 5"
    using length_concat_ge[of doc 5 enc_field] length_enc_field by (simp add: less_eq_div_iff_mult_less_eq)
  ultimately show ?case
    using VDocument.prems by (subst decode_value_unfold)
      (simp add: decode_body_def cur_u8_at storable_simps unat_of_nat encode_document_eq)
qed (subst decode_value_unfold, simp add: decode_body_def cur_u8_at cur_u8_at[of "_ @ [_]", simplified])+

interpretation value_field: field_codec encode decode_value storable
  by unfold_locales (rule decode_value_at)

section \<open>What decoding yields\<close>

lemma decode_value_cases:
  assumes "decode_value c = Inr (v, d)"
  obtains t e where "c_u8 c = Inr (t, e)" "cur_remaining e < cur_remaining c"
    "decode_body decode_value c = Inr (v, d)"
  using assms by (subst (asm) decode_value_unfold)
    (auto simp: decode_body_def rbind_eq_Inr dest: cur_u8_remaining)

lemma decode_value_advances: "advances decode_value k"
  by (simp add: advances_def decode_value_ext)

lemma array_loop_length: "for_n n (array_step f) s = Inr t \<Longrightarrow> length (fst t) = length (fst s) + n"
  by (induction n arbitrary: s) (auto simp: rbind_eq_Inr split: prod.splits)

lemma length_bt_insert: "length (bt_insert k v m) \<le> Suc (length m)"
  by (induction k v m rule: bt_insert.induct) auto

lemma doc_loop_length: "for_n n (doc_step f) s = Inr t \<Longrightarrow> length (fst t) \<le> length (fst s) + n"
proof (induction n arbitrary: s)
  case (Suc n)
  then obtain u where u: "doc_step f s = Inr u" "for_n n (doc_step f) u = Inr t"
    by (auto simp: rbind_eq_Inr)
  from u(1) have "length (fst u) \<le> Suc (length (fst s))"
    by (auto simp: rbind_eq_Inr doc_insert_def split: prod.splits intro: length_bt_insert)
  with Suc.IH[OF u(2)] show ?case by simp
qed simp

lemma array_loop_storable:
  assumes "for_n n (array_step decode_value) ([], c) = Inr (xs, d)" and "cur_remaining c < k"
    and "\<And>c v d. cur_remaining c < k \<Longrightarrow> decode_value c = Inr (v, d) \<Longrightarrow> storable v"
  shows "\<forall>x \<in> set xs. storable x"
proof -
  have "below k (xs, d) \<and> (\<forall>x \<in> set (fst (xs, d)). storable x)"
  proof (rule for_n_invariant[OF assms(1)])
    fix s t assume s: "below k s \<and> (\<forall>x \<in> set (fst s). storable x)" and st: "array_step decode_value s = Inr t"
    then have "below k t"
      using array_step_ext[OF decode_value_advances _ st, of k] by (meson cur_ext_remaining le_less_trans)
    with s st assms(3) show "below k t \<and> (\<forall>x \<in> set (fst t). storable x)"
      by (auto simp: rbind_eq_Inr split: prod.splits)
  qed (simp add: assms(2))
  then show ?thesis by simp
qed

definition storable_fields :: "document \<Rightarrow> bool" where
  "storable_fields doc \<longleftrightarrow> bt_sorted doc
     \<and> (\<forall>f \<in> set doc. utf8_ok (fst f) \<and> length (fst f) < 2 ^ 32 \<and> storable (snd f))"

lemma storable_fields_insert:
  "storable_fields doc \<Longrightarrow> utf8_ok k \<Longrightarrow> length k < 2 ^ 32 \<Longrightarrow> storable v \<Longrightarrow> storable_fields (doc_insert k v doc)"
  by (auto simp: storable_fields_def doc_insert_def dest!: set_bt_insertD)

lemma cur_bytes_len: "cur_bytes ov sh c = Inr (s, d) \<Longrightarrow> length s < 2 ^ 32"
proof -
  assume "cur_bytes ov sh c = Inr (s, d)"
  then obtain n e where "cur_take ov sh (unat (n :: u32)) e = Inr (s, d)"
    by (auto simp: cur_bytes_def rbind_eq_Inr)
  then have "length s = unat n" by (auto simp: cur_take_Inr)
  with unat_bound[of n] show ?thesis by simp
qed

lemma cur_string_len: "cur_string ov sh bad c = Inr (s, d) \<Longrightarrow> length s < 2 ^ 32"
  by (auto simp: cur_string_def rbind_eq_Inr dest: cur_bytes_len split: if_splits)

lemma doc_loop_storable:
  assumes "for_n n (doc_step decode_value) (doc_new, c) = Inr (doc, d)" and "cur_remaining c < k"
    and "\<And>c v d. cur_remaining c < k \<Longrightarrow> decode_value c = Inr (v, d) \<Longrightarrow> storable v"
  shows "storable_fields doc"
proof -
  have "below k (doc, d) \<and> storable_fields (fst (doc, d))"
  proof (rule for_n_invariant[OF assms(1)])
    fix s t assume s: "below k s \<and> storable_fields (fst s)" and st: "doc_step decode_value s = Inr t"
    then have b: "below k t"
      using doc_step_ext[OF decode_value_advances _ st, of k] by (meson cur_ext_remaining le_less_trans)
    from st obtain key e v where x: "c_string (snd s) = Inr (key, e)" "decode_value e = Inr (v, snd t)"
      "fst t = doc_insert key v (fst s)"
      by (auto simp: rbind_eq_Inr split: prod.splits)
    then have "storable v"
      using s cur_step_remaining(4)[OF x(1)] by (intro assms(3)[OF _ x(2)]) simp
    with b s x show "below k t \<and> storable_fields (fst t)"
      using storable_fields_insert[OF _ cur_string_utf8[OF x(1)] cur_string_len[OF x(1)]] by simp
  qed (simp add: assms(2) storable_fields_def doc_new_def)
  then show ?thesis by simp
qed

lemma decode_value_storable: "decode_value c = Inr (v, d) \<Longrightarrow> storable v"
proof (induction "cur_remaining c" arbitrary: c v d rule: less_induct)
  case less
  then obtain t e where e: "c_u8 c = Inr (t, e)" "cur_remaining e < cur_remaining c"
    and r: "decode_body decode_value c = Inr (v, d)" by (blast elim: decode_value_cases)
  have arr: "storable (VArray xs)"
    if "c_u32 e = Inr (n, h)" "for_n (unat n) (array_step decode_value) ([], h) = Inr (xs, d)" for n h xs
    using array_loop_storable[OF that(2) header_remaining[OF e(1) that(1), of "()", simplified] less(1)]
      array_loop_length[OF that(2)] unat_bound[of n] by (auto simp: storable_simps)
  have doc: "storable (VDocument doc)"
    if "c_u32 e = Inr (n, h)" "for_n (unat n) (doc_step decode_value) (doc_new, h) = Inr (doc, d)" for n h doc
    using doc_loop_storable[OF that(2) header_remaining[OF e(1) that(1), of "()", simplified] less(1)]
      doc_loop_length[OF that(2)] unat_bound[of n] by (auto simp: doc_new_def storable_simps storable_fields_def)
  have leaf: "storable VNull" "storable (VBool b)" "storable (VInt i)" "storable (VFloat i)"
    "storable (VTimestamp i)" "storable (VDecimal m)" for b i m
    by (simp_all add: storable_def)
  have str: "storable (VString x)" if "c_string e = Inr (x, d)" for x
    using cur_string_utf8[OF that] cur_string_len[OF that] by (simp add: storable_def)
  have byt: "storable (VBytes x)" if "c_bytes e = Inr (x, d)" for x
    using cur_bytes_len[OF that] by (simp add: storable_def)
  have uid: "storable (VUuid x)" if "c_array 16 e = Inr (x, d)" for x
    using that by (auto simp: storable_def cur_array_eq cur_take_Inr)
  show ?case
    using r e(1)
    by (auto simp: decode_body_def rbind_eq_Inr leaf split: if_splits prod.splits intro: arr doc str byt uid)
qed

section \<open>Skipping follows decoding\<close>

lemma skip_follows_items:
  assumes "for_n n (array_step decode_value) ([], c) = Inr (xs, d)" and "cur_remaining c < k"
    and "\<And>c v d. cur_remaining c < k \<Longrightarrow> decode_value c = Inr (v, d) \<Longrightarrow> skip_value c = Inr ((), d)"
  shows "for_n n (\<lambda>(_, c). skip_value c) ((), c) = Inr ((), d)"
proof -
  have "\<exists>v. for_n n (\<lambda>(_, c). skip_value c) ((), c) = Inr v \<and> below k (xs, d) \<and> snd v = snd (xs, d)"
  proof (rule for_n_simulation[OF assms(1)])
    fix s t and u :: "unit \<times> cursor"
    assume s: "below k s \<and> snd u = snd s" and st: "array_step decode_value s = Inr t"
    then have "below k t"
      using array_step_ext[OF decode_value_advances _ st, of k] by (meson cur_ext_remaining le_less_trans)
    moreover from st obtain v where "decode_value (snd s) = Inr (v, snd t)"
      by (auto simp: rbind_eq_Inr split: prod.splits)
    ultimately show "\<exists>v. (\<lambda>(_, c). skip_value c) u = Inr v \<and> below k t \<and> snd v = snd t"
      using s assms(3) by (auto split: prod.splits)
  qed (simp add: assms(2))
  then show ?thesis by auto
qed

lemma string_is_take: "c_string c = Inr (s, d) \<Longrightarrow> \<exists>n e. c_u32 c = Inr (n, e) \<and> c_take (unat n) e = Inr (s, d)"
  by (auto simp: cur_string_def cur_bytes_def rbind_eq_Inr split: if_splits)

lemma skip_follows_fields:
  assumes "for_n n (doc_step decode_value) (doc_new, c) = Inr (doc, d)" and "cur_remaining c < k"
    and "\<And>c v d. cur_remaining c < k \<Longrightarrow> decode_value c = Inr (v, d) \<Longrightarrow> skip_value c = Inr ((), d)"
  shows "for_n n (skip_field_step skip_value) ((), c) = Inr ((), d)"
proof -
  have "\<exists>v. for_n n (skip_field_step skip_value) ((), c) = Inr v \<and> below k (doc, d) \<and> snd v = snd (doc, d)"
  proof (rule for_n_simulation[OF assms(1)])
    fix s t and u :: "unit \<times> cursor"
    assume s: "below k s \<and> snd u = snd s" and st: "doc_step decode_value s = Inr t"
    then have b: "below k t"
      using doc_step_ext[OF decode_value_advances _ st, of k] by (meson cur_ext_remaining le_less_trans)
    from st obtain key e v where x: "c_string (snd s) = Inr (key, e)" "decode_value e = Inr (v, snd t)"
      by (auto simp: rbind_eq_Inr split: prod.splits)
    then have "skip_value e = Inr ((), snd t)"
      using s cur_step_remaining(4)[OF x(1)] by (intro assms(3)[OF _ x(2)]) simp
    then have "skip_field_step skip_value u = Inr ((), snd t)"
      using s string_is_take[OF x(1)] by (auto split: prod.splits)
    with b show "\<exists>v. skip_field_step skip_value u = Inr v \<and> below k t \<and> snd v = snd t" by simp
  qed (simp add: assms(2))
  then show ?thesis by auto
qed

lemma skip_follows_decode: "decode_value c = Inr (v, d) \<Longrightarrow> skip_value c = Inr ((), d)"
proof (induction "cur_remaining c" arbitrary: c v d rule: less_induct)
  case less
  then obtain t e where e: "c_u8 c = Inr (t, e)" "cur_remaining e < cur_remaining c"
    and r: "decode_body decode_value c = Inr (v, d)" by (blast elim: decode_value_cases)
  have arr: "for_n (unat n) (\<lambda>(_, c). skip_value c) ((), h) = Inr ((), d)"
    if "c_u32 e = Inr (n, h)" "for_n (unat n) (array_step decode_value) ([], h) = Inr (xs, d)" for n h xs
    by (rule skip_follows_items[OF that(2) header_remaining[OF e(1) that(1), of "()", simplified] less(1)])
  have doc: "for_n (unat n) (skip_field_step skip_value) ((), h) = Inr ((), d)"
    if "c_u32 e = Inr (n, h)" "for_n (unat n) (doc_step decode_value) (doc_new, h) = Inr (doc, d)" for n h doc
    by (rule skip_follows_fields[OF that(2) header_remaining[OF e(1) that(1), of "()", simplified] less(1)])
  have "skip_body skip_value c = Inr ((), d)"
    using r e(1)
    by (auto simp: decode_body_def skip_body_def rbind_eq_Inr cur_array_eq cur_bytes_def
        split: if_splits prod.splits dest: string_is_take intro: arr doc)
  then show ?case by (subst skip_value_unfold)
qed

section \<open>Properties\<close>

text \<open>C2: Lossless round trip: decoding the encoding of a well-formed value (valid UTF-8 strings,
  ascending document keys, 16-byte UUIDs) whose lengths fit the \<^verbatim>\<open>u32\<close> prefixes gives the value back,
  for every variant and at every nesting depth, decimals and NaN payloads included.\<close>

theorem decode_encode:
  assumes "wf_val v" and "sized v" and "fits (encode v)"
  shows "decode (encode v) = Inr v"
  using decode_value_at[of v "[]" "[]"] assms
  by (simp add: decode_def cur_new_at at_end_def storable_def)

theorem decode_encode_witness:
  "decode (encode (VDocument [([0x61], VArray [VInt (- 1), VNull]), ([0x62], VDecimal \<lparr>mantissa = 5, scale = 2\<rparr>)]))
   = Inr (VDocument [([0x61], VArray [VInt (- 1), VNull]), ([0x62], VDecimal \<lparr>mantissa = 5, scale = 2\<rparr>)])"
  by (rule decode_encode) (simp_all add: fits_def encode_document_eq enc_field_def)

text \<open>C4: Decoding is total on arbitrary input: it never panics and never exhausts the recursion bound
  (so the bound is no restriction), and whatever it accepts is a well-formed value whose lengths fit
  their prefixes. A forged count or length is an error value.\<close>

theorem decode_total:
  "clean (decode bs) \<and> (\<forall>v. decode bs = Inr v \<longrightarrow> wf_val v \<and> sized v)"
proof
  show "clean (decode bs)"
    unfolding decode_def by (rule clean_rbind) (auto simp: at_end_def)
  show "\<forall>v. decode bs = Inr v \<longrightarrow> wf_val v \<and> sized v"
    using decode_value_storable by (fastforce simp: decode_def rbind_eq_Inr at_end_def storable_def split: if_splits)
qed

theorem decode_total_witness:
  "decode [T_ARRAY, 0xFF, 0xFF, 0xFF, 0xFF] = Inl (Err E_array)
   \<and> wf_val (VBool True) \<and> sized (VBool True) \<and> decode [T_BOOL, 7] = Inr (VBool True)"
proof -
  have d: "decode [T_BOOL, 7] = Inr (VBool True)"
    by (simp add: decode_def decode_value_def decode_body_def cur_u8_def
        cur_take_def cur_new_def at_end_def)
  moreover have "decode [T_ARRAY, 0xFF, 0xFF, 0xFF, 0xFF] = Inl (Err E_array)"
    by (simp add: decode_def decode_value_def decode_body_def
        cur_u8_def cur_take_def cur_new_def cur_u32_def cur_array_def cur_remaining_def)
  ultimately show ?thesis
    using decode_total[of "[T_BOOL, 7]"] by simp
qed

text \<open>C13: Skip-parsing a value moves the cursor exactly where decoding it would, so a walk that skips
  some fields and decodes others stays aligned.\<close>

theorem skip_value_follows_decode_value:
  "decode_value c = Inr (v, d) \<Longrightarrow> skip_value c = Inr ((), d)"
  by (rule skip_follows_decode)

theorem skip_value_follows_decode_value_witness:
  "skip_value (cur_new (encode (VArray [VBytes [1, 2]]) @ [3]))
   = Inr ((), cur_at (encode (VArray [VBytes [1, 2]])) [3])"
proof (rule skip_value_follows_decode_value)
  show "decode_value (cur_new (encode (VArray [VBytes [1, 2]]) @ [3]))
      = Inr (VArray [VBytes [1, 2]], cur_at (encode (VArray [VBytes [1, 2]])) [3])"
    using decode_value_at[of "VArray [VBytes [1, 2]]" "[]" "[3]"]
    by (simp add: cur_new_at storable_def fits_def)
qed

end
