(* ===== verification/Row_Scan.thy ===== *)
theory Row_Scan
  imports Codec
begin

text \<open>
  The walks over an encoded row that decode only what a caller needs
  (\<^verbatim>\<open>skaidb-types/src/codec.rs\<close>: \<^verbatim>\<open>decode_document_projected\<close>, \<^verbatim>\<open>decode_document_probed\<close>,
  \<^verbatim>\<open>scan_field_names\<close>, \<^verbatim>\<open>scan_fields\<close>, \<^verbatim>\<open>scan_group_row\<close>, \<^verbatim>\<open>doc_has_reserved\<close> and
  \<^verbatim>\<open>transcode_key_value\<close>). The locale \<open>row_walk\<close> states what a walk's loop body owes the full
  decoder, field by field; its conclusion, that the whole walk agrees with the decoded document, is
  proved once and used by every walk. Buffers the caller owns are returned updated; the calls of the
  closure of \<^verbatim>\<open>scan_field_names\<close> are the list of its arguments.
\<close>

section \<open>Definitions\<close>

definition reserved_name :: "bytes \<Rightarrow> bool" where
  "reserved_name raw = (case raw of [] \<Rightarrow> False | b # _ \<Rightarrow> b = 1)"

definition doc_header :: "string \<Rightarrow> bytes \<Rightarrow> (value_error, u32 \<times> cursor) res" where
  "doc_header msg bs = rbind (c_u8 (cur_new bs)) (\<lambda>(t, c).
     if t \<noteq> T_DOCUMENT then Inl (Err (UnrepresentableJson msg)) else c_u32 c)"

definition projected_small_step ::
  "rstr list \<Rightarrow> bool \<Rightarrow> document \<times> cursor \<Rightarrow> (value_error, document \<times> cursor) res" where
  "projected_small_step keys names = (\<lambda>(doc, c).
     rbind (c_u32 c) (\<lambda>(len, c). rbind (c_take (unat len) c) (\<lambda>(raw, c).
       case find (\<lambda>k. k = raw) keys of
         Some k \<Rightarrow> rbind (decode_value c) (\<lambda>(v, c). Inr (doc_insert k v doc, c))
       | None \<Rightarrow>
           if reserved_name raw then
             (if \<not> utf8_ok raw then Inl (Err E_utf8)
              else rbind (decode_value c) (\<lambda>(v, c). Inr (doc_insert raw v doc, c)))
           else if names then
             (if \<not> utf8_ok raw then Inl (Err E_utf8)
              else rbind (skip_value c) (\<lambda>(_, c). Inr (doc_insert raw VNull doc, c)))
           else rbind (skip_value c) (\<lambda>(_, c). Inr (doc, c)))))"

definition projected_large_step ::
  "rstr list \<Rightarrow> bool \<Rightarrow> document \<times> cursor \<Rightarrow> (value_error, document \<times> cursor) res" where
  "projected_large_step wanted names = (\<lambda>(doc, c).
     rbind (c_string c) (\<lambda>(key, c).
       if key \<in> set wanted \<or> reserved_name key then
         rbind (decode_value c) (\<lambda>(v, c). Inr (doc_insert key v doc, c))
       else
         let doc = (if names then doc_insert key VNull doc else doc)
         in rbind (skip_value c) (\<lambda>(_, c). Inr (doc, c))))"

definition decode_document_projected :: "bytes \<Rightarrow> rstr list \<Rightarrow> (value_error, document) res" where
  "decode_document_projected bs wanted =
    rbind (doc_header ''decode_document_projected: not a document'' bs) (\<lambda>(n, c).
      if cur_remaining c div 5 < unat n then Inl (Err E_fields)
      else
        let names = FIELD_NAMES_MARKER \<in> set wanted;
            step = (if length wanted \<le> 8 then projected_small_step wanted names
                    else projected_large_step wanted names)
        in rbind (for_n (unat n) step (doc_new, c)) (\<lambda>(doc, c). at_end bs c doc))"

definition probed_step ::
  "rstr list \<Rightarrow> rstr list \<Rightarrow> document \<times> cursor \<Rightarrow> (value_error, document \<times> cursor) res" where
  "probed_step wanted probed = (\<lambda>(doc, c).
     rbind (c_string c) (\<lambda>(key, c).
       if key \<in> set probed then
         if pos c < length (buf c) \<and> buf c ! pos c = T_NULL then
           rbind (decode_value c) (\<lambda>(v, c). Inr (doc_insert key v doc, c))
         else rbind (skip_value c) (\<lambda>(_, c). Inr (doc_insert key (VBool True) doc, c))
       else if key \<in> set wanted \<or> reserved_name key then
         rbind (decode_value c) (\<lambda>(v, c). Inr (doc_insert key v doc, c))
       else rbind (skip_value c) (\<lambda>(_, c). Inr (doc, c))))"

definition decode_document_probed :: "bytes \<Rightarrow> rstr list \<Rightarrow> rstr list \<Rightarrow> (value_error, document) res" where
  "decode_document_probed bs wanted probed =
    rbind (doc_header ''decode_document_probed: not a document'' bs) (\<lambda>(n, c).
      if cur_remaining c div 5 < unat n then Inl (Err E_fields)
      else rbind (for_n (unat n) (probed_step wanted probed) (doc_new, c)) (\<lambda>(doc, c). at_end bs c doc))"

definition field_names_step :: "rstr list \<times> cursor \<Rightarrow> (value_error, rstr list \<times> cursor) res" where
  "field_names_step = (\<lambda>(names, c).
     rbind (c_string c) (\<lambda>(key, c). rbind (skip_value c) (\<lambda>(_, c). Inr (names @ [key], c))))"

definition scan_field_names :: "bytes \<Rightarrow> (value_error, rstr list) res" where
  "scan_field_names bs =
    rbind (doc_header ''scan_field_names: not a document'' bs) (\<lambda>(n, c).
      if cur_remaining c div 5 < unat n then Inl (Err E_fields)
      else rbind (for_n (unat n) field_names_step ([], c)) (\<lambda>(names, c). at_end bs c names))"

text \<open>\<^verbatim>\<open>Iterator::position\<close> and indexed assignment, which panics out of range.\<close>

primrec position :: "('a \<Rightarrow> bool) \<Rightarrow> 'a list \<Rightarrow> nat option" where
  "position p [] = None"
| "position p (x # xs) = (if p x then Some 0 else map_option Suc (position p xs))"

definition set_at :: "'a list \<Rightarrow> nat \<Rightarrow> 'a \<Rightarrow> ('e, 'a list) res" where
  "set_at xs i x = (if i < length xs then Inr (xs[i := x]) else Inl (Panic ''index''))"

definition scan_fields_step ::
  "rstr list \<Rightarrow> (val option list \<times> bool) \<times> cursor \<Rightarrow> (value_error, (val option list \<times> bool) \<times> cursor) res" where
  "scan_fields_step wanted = (\<lambda>((out, reserved), c).
     rbind (c_u32 c) (\<lambda>(len, c). rbind (c_take (unat len) c) (\<lambda>(raw, c).
       let reserved = (if reserved_name raw then True else reserved) in
       case position (\<lambda>w. w = raw) wanted of
         Some i \<Rightarrow> rbind (decode_value c) (\<lambda>(v, c). rbind (set_at out i (Some v)) (\<lambda>out. Inr ((out, reserved), c)))
       | None \<Rightarrow> rbind (skip_value c) (\<lambda>(_, c). Inr ((out, reserved), c)))))"

definition scan_fields_into ::
  "bytes \<Rightarrow> rstr list \<Rightarrow> val option list \<Rightarrow> (value_error, val option list \<times> bool) res" where
  "scan_fields_into bs wanted out =
    (let out = replicate (length wanted) None in
     rbind (doc_header ''scan_fields: not a document'' bs) (\<lambda>(n, c).
       rbind (for_n (unat n) (scan_fields_step wanted) ((out, False), c)) (\<lambda>(r, c). at_end bs c r)))"

definition scan_fields :: "bytes \<Rightarrow> rstr list \<Rightarrow> (value_error, val option list \<times> bool) res" where
  "scan_fields bs wanted = scan_fields_into bs wanted []"

text \<open>An error gives no key: the bytes pushed before it stay in the caller's buffer, which this result does not describe.\<close>

definition transcode_key_value :: "(decimal \<Rightarrow> f64) \<Rightarrow> bytes \<Rightarrow> bytes \<Rightarrow> (value_error, bytes) res" where
  "transcode_key_value d2f bs out =
    rbind (c_u8 (cur_new bs)) (\<lambda>(t, c).
      if t = T_NULL then Inr (out @ [K_NULL])
      else if t = T_BOOL then rbind (c_u8 c) (\<lambda>(b, c). Inr (out @ [K_BOOL] @ [if b \<noteq> 0 then 1 else 0]))
      else if t = T_INT then rbind (c_i64 c) (\<lambda>(i, c). Inr (encode_i64 i (out @ [K_INT])))
      else if t = T_FLOAT then rbind (c_i64 c) (\<lambda>(i, c). Inr (encode_f64 i (out @ [K_FLOAT])))
      else if t = T_DECIMAL then
        rbind (c_array 16 c) (\<lambda>(m, c). rbind (c_u32 c) (\<lambda>(s, c).
          Inr (encode_f64 (d2f (decimal_new (word_of_nat (le_val m)) s)) (out @ [K_DECIMAL]))))
      else if t = T_STRING then
        rbind (c_u32 c) (\<lambda>(len, c). rbind (c_take (unat len) c) (\<lambda>(raw, c).
          if \<not> utf8_ok raw then Inl (Err E_utf8) else Inr (encode_bytes raw (out @ [K_STRING]))))
      else if t = T_BYTES then
        rbind (c_u32 c) (\<lambda>(len, c). rbind (c_take (unat len) c) (\<lambda>(raw, c).
          Inr (encode_bytes raw (out @ [K_BYTES]))))
      else if t = T_UUID then rbind (c_take 16 c) (\<lambda>(u, c). Inr (out @ [K_UUID] @ u))
      else if t = T_TIMESTAMP then rbind (c_i64 c) (\<lambda>(i, c). Inr (encode_i64 i (out @ [K_TIMESTAMP])))
      else if t = T_ARRAY \<or> t = T_DOCUMENT then
        rbind (decode_value (cur_new bs)) (\<lambda>(v, _). Inr (encode_into d2f v out))
      else Inl (Err E_tag))"

text \<open>\<^verbatim>\<open>scan_group_row\<close>: the loop state is the decoded values, the recorded spans and the flag.\<close>

type_synonym group_state = "val option list \<times> (nat \<times> nat) option list \<times> bool"

definition record_spans :: "rstr list \<Rightarrow> bytes \<Rightarrow> nat \<times> nat \<Rightarrow> (nat \<times> nat) option list
    \<Rightarrow> (nat \<times> nat) option list" where
  "record_spans key_fields raw span spans =
    fold (\<lambda>i spans. if key_fields ! i = raw then spans[i := Some span] else spans)
      [0..<length key_fields] spans"

definition group_step ::
  "rstr list \<Rightarrow> rstr list \<Rightarrow> group_state \<times> cursor \<Rightarrow> (value_error, group_state \<times> cursor) res" where
  "group_step key_fields val_fields = (\<lambda>((vals, spans, reserved), c).
     rbind (c_u32 c) (\<lambda>(len, c). rbind (c_take (unat len) c) (\<lambda>(raw, c).
       let reserved = (if reserved_name raw then True else reserved);
           val_hit = position (\<lambda>w. w = raw) val_fields;
           key_hit = list_ex (\<lambda>w. w = raw) key_fields
       in if val_hit = None \<and> \<not> key_hit then
            rbind (skip_value c) (\<lambda>(_, c). Inr ((vals, spans, reserved), c))
          else
            let start = pos c in
            rbind (case val_hit of
                     Some i \<Rightarrow> rbind (decode_value c) (\<lambda>(v, c). rbind (set_at vals i (Some v)) (\<lambda>vals. Inr (vals, c)))
                   | None \<Rightarrow> rbind (skip_value c) (\<lambda>(_, c). Inr (vals, c)))
              (\<lambda>(vals, c).
                Inr ((vals, if key_hit then record_spans key_fields raw (start, pos c) spans else spans, reserved), c)))))"

definition span_key :: "(decimal \<Rightarrow> f64) \<Rightarrow> bytes \<Rightarrow> (nat \<times> nat) option \<Rightarrow> bytes \<Rightarrow> (value_error, bytes) res" where
  "span_key d2f bs span out = (case span of
     None \<Rightarrow> Inr (out @ [K_NULL])
   | Some (a, b) \<Rightarrow> (if b < a \<or> length bs < b then Inl (Panic ''slice'')
                     else transcode_key_value d2f (take (b - a) (drop a bs)) out))"

primrec span_keys :: "(decimal \<Rightarrow> f64) \<Rightarrow> bytes \<Rightarrow> (nat \<times> nat) option list \<Rightarrow> bytes \<Rightarrow> (value_error, bytes) res" where
  "span_keys d2f bs [] out = Inr out"
| "span_keys d2f bs (s # ss) out = rbind (span_key d2f bs s out) (span_keys d2f bs ss)"

definition scan_group_row :: "(decimal \<Rightarrow> f64) \<Rightarrow> bytes \<Rightarrow> rstr list \<Rightarrow> rstr list \<Rightarrow> bytes
    \<Rightarrow> (value_error, bytes \<times> group_state) res" where
  "scan_group_row d2f bs key_fields val_fields key_out =
    (let vals = replicate (length val_fields) None; spans = replicate (length key_fields) None in
     rbind (doc_header ''scan_group_row: not a document'' bs) (\<lambda>(n, c).
       rbind (for_n (unat n) (group_step key_fields val_fields) ((vals, spans, False), c)) (\<lambda>((vals, spans, reserved), c).
         rbind (at_end bs c ()) (\<lambda>_.
           if key_fields = [] then Inr (key_out, vals, spans, reserved)
           else rbind (span_keys d2f bs spans (key_out @ [K_ARRAY]))
                  (\<lambda>key_out. Inr (key_out @ [K_END], vals, spans, reserved))))))"

primrec has_reserved_loop :: "nat \<Rightarrow> cursor \<Rightarrow> (value_error, bool) res" where
  "has_reserved_loop 0 c = Inr False"
| "has_reserved_loop (Suc n) c =
    rbind (c_u32 c) (\<lambda>(len, c). rbind (c_take (unat len) c) (\<lambda>(raw, c).
      case raw of
        [] \<Rightarrow> rbind (skip_value c) (\<lambda>(_, c). has_reserved_loop n c)
      | b # _ \<Rightarrow> (if b = 1 then Inr True else if 1 < b then Inr False
                  else rbind (skip_value c) (\<lambda>(_, c). has_reserved_loop n c))))"

definition doc_has_reserved :: "bytes \<Rightarrow> (value_error, bool) res" where
  "doc_has_reserved bs =
    rbind (doc_header ''doc_has_reserved: not a document'' bs) (\<lambda>(n, c). has_reserved_loop (unat n) c)"

section \<open>Walks that follow the decoder\<close>

text \<open>\<open>rel doc s\<close>: the walk's state \<open>s\<close> after the fields that the decoder has put into \<open>doc\<close>.\<close>

locale row_walk =
  fixes step :: "'s \<times> cursor \<Rightarrow> (value_error, 's \<times> cursor) res" and rel :: "document \<Rightarrow> 's \<Rightarrow> bool"
  assumes follows: "bt_sorted doc \<Longrightarrow> rel doc s \<Longrightarrow> c_string c = Inr (key, c1) \<Longrightarrow> decode_value c1 = Inr (v, c2) \<Longrightarrow>
      \<exists>t. step (s, c) = Inr (t, c2) \<and> rel (doc_insert key v doc) t"
begin

lemma loop_follows:
  assumes "for_n n (doc_step decode_value) (doc_new, c) = Inr (doc, d)" and "rel doc_new s"
  shows "\<exists>t. for_n n step (s, c) = Inr (t, d) \<and> rel doc t"
proof -
  have "\<exists>u. for_n n step (s, c) = Inr u
      \<and> (bt_sorted (fst (doc, d)) \<and> snd u = snd (doc, d) \<and> rel (fst (doc, d)) (fst u))"
  proof (rule for_n_simulation[OF assms(1)])
    fix p q u
    assume p: "bt_sorted (fst p) \<and> snd u = snd p \<and> rel (fst p) (fst u)"
      and st: "doc_step decode_value p = Inr q"
    from st obtain key c1 v where x: "c_string (snd p) = Inr (key, c1)" "decode_value c1 = Inr (v, snd q)"
      "fst q = doc_insert key v (fst p)"
      by (auto simp: rbind_eq_Inr split: prod.splits)
    from follows[OF _ _ x(1,2), of "fst p" "fst u"] p obtain t
      where "step (fst u, snd p) = Inr (t, snd q)" "rel (doc_insert key v (fst p)) t" by blast
    with p x(3) show "\<exists>w. step u = Inr w \<and> (bt_sorted (fst q) \<and> snd w = snd q \<and> rel (fst q) (fst w))"
      by (cases u) (auto simp: doc_insert_def)
  qed (use assms(2) in \<open>simp add: doc_new_def\<close>)
  then show ?thesis by force
qed

end

text \<open>A decoded document is a header and a loop that ends at the end of the input.\<close>

lemma decode_document_loop:
  assumes "decode bs = Inr (VDocument doc)"
  obtains n c d where "\<forall>msg. doc_header msg bs = Inr (n, c)" "\<not> cur_remaining c div 5 < unat n"
    "for_n (unat n) (doc_step decode_value) (doc_new, c) = Inr (doc, d)" "pos d = length bs"
proof -
  from assms obtain d where d: "decode_value (cur_new bs) = Inr (VDocument doc, d)" "pos d = length bs"
    by (auto simp: decode_def rbind_eq_Inr at_end_def split: if_splits)
  from d(1) have "decode_body decode_value (cur_new bs) = Inr (VDocument doc, d)"
    by (subst (asm) decode_value_unfold)
  then obtain e n c where x: "c_u8 (cur_new bs) = Inr (T_DOCUMENT, e)" "c_u32 e = Inr (n, c)"
    "\<not> cur_remaining c div 5 < unat n"
    "for_n (unat n) (doc_step decode_value) (doc_new, c) = Inr (doc, d)"
    by (auto simp: decode_body_def rbind_eq_Inr split: if_splits prod.splits)
  then have "doc_header msg bs = Inr (n, c)" for msg by (simp add: doc_header_def)
  with x d(2) that show ?thesis by blast
qed

lemma decode_null_tag:
  assumes "decode_value c = Inr (v, d)"
  shows "(pos c < length (buf c) \<and> buf c ! pos c = T_NULL) \<longleftrightarrow> v = VNull"
proof -
  from assms obtain t e where e: "c_u8 c = Inr (t, e)" and r: "decode_body decode_value c = Inr (v, d)"
    by (blast elim: decode_value_cases)
  from e have "pos c < length (buf c)" "t = buf c ! pos c" by (simp_all add: cur_u8_Inr)
  moreover have "t = T_NULL \<longleftrightarrow> v = VNull"
    using r e by (auto simp: decode_body_def rbind_eq_Inr split: if_splits prod.splits)
  ultimately show ?thesis by simp
qed

lemma c_string_parts:
  assumes "c_string c = Inr (key, c1)"
  obtains len c0 where "c_u32 c = Inr (len, c0)" "c_take (unat len) c0 = Inr (key, c1)" "utf8_ok key"
  using string_is_take[OF assms] cur_string_utf8[OF assms] by blast

lemma find_eq: "find (\<lambda>k. k = x) xs = (if x \<in> set xs then Some x else None)"
  by (induction xs) auto

subsection \<open>Projections\<close>

definition keep_projected :: "rstr list \<Rightarrow> rstr \<Rightarrow> val \<Rightarrow> val option" where
  "keep_projected wanted k v =
    (if k \<in> set wanted \<or> reserved_name k then Some v
     else if FIELD_NAMES_MARKER \<in> set wanted then Some VNull else None)"

definition keep_probed :: "rstr list \<Rightarrow> rstr list \<Rightarrow> rstr \<Rightarrow> val \<Rightarrow> val option" where
  "keep_probed wanted probed k v =
    (if k \<in> set probed then Some (if v = VNull then VNull else VBool True)
     else if k \<in> set wanted \<or> reserved_name k then Some v else None)"

lemma bt_retain_insert:
  assumes "bt_sorted m"
  shows "f k v = Some w \<Longrightarrow> bt_retain f (bt_insert k v m) = bt_insert k w (bt_retain f m)"
    and "(\<And>v. f k v = None) \<Longrightarrow> bt_retain f (bt_insert k v m) = bt_retain f m"
  using assms
  by (auto intro!: bt.extensional simp: bt_get_retain split: option.splits)

interpretation small: row_walk "projected_small_step wanted (FIELD_NAMES_MARKER \<in> set wanted)"
  "\<lambda>doc s. s = bt_retain (keep_projected wanted) doc"
proof
  fix doc s c key c1 v c2
  assume a: "bt_sorted doc" "s = bt_retain (keep_projected wanted) doc" "decode_value c1 = Inr (v, c2)"
  assume "c_string c = Inr (key, c1)"
  then obtain len c0 where "c_u32 c = Inr (len, c0)" "c_take (unat len) c0 = Inr (key, c1)" "utf8_ok key"
    by (rule c_string_parts)
  with a skip_follows_decode[OF a(3)]
  show "\<exists>t. projected_small_step wanted (FIELD_NAMES_MARKER \<in> set wanted) (s, c) = Inr (t, c2)
      \<and> t = bt_retain (keep_projected wanted) (doc_insert key v doc)"
    by (auto simp: projected_small_step_def find_eq doc_insert_def keep_projected_def bt_retain_insert)
qed

interpretation large: row_walk "projected_large_step wanted (FIELD_NAMES_MARKER \<in> set wanted)"
  "\<lambda>doc s. s = bt_retain (keep_projected wanted) doc"
proof
  fix doc s c key c1 v c2
  assume a: "bt_sorted doc" "s = bt_retain (keep_projected wanted) doc" "decode_value c1 = Inr (v, c2)"
    "c_string c = Inr (key, c1)"
  with skip_follows_decode[OF a(3)]
  show "\<exists>t. projected_large_step wanted (FIELD_NAMES_MARKER \<in> set wanted) (s, c) = Inr (t, c2)
      \<and> t = bt_retain (keep_projected wanted) (doc_insert key v doc)"
    by (auto simp: projected_large_step_def doc_insert_def keep_projected_def bt_retain_insert)
qed

interpretation probe: row_walk "probed_step wanted probed" "\<lambda>doc s. s = bt_retain (keep_probed wanted probed) doc"
proof
  fix doc s c key c1 v c2
  assume a: "bt_sorted doc" "s = bt_retain (keep_probed wanted probed) doc" "decode_value c1 = Inr (v, c2)"
    "c_string c = Inr (key, c1)"
  with skip_follows_decode[OF a(3)] decode_null_tag[OF a(3)]
  show "\<exists>t. probed_step wanted probed (s, c) = Inr (t, c2)
      \<and> t = bt_retain (keep_probed wanted probed) (doc_insert key v doc)"
    by (auto simp: probed_step_def doc_insert_def keep_probed_def bt_retain_insert)
qed

interpretation names: row_walk field_names_step "\<lambda>doc s. set s = fst ` set doc"
proof
  fix doc :: document and s c key c1 v c2
  assume a: "set s = fst ` set doc" "decode_value c1 = Inr (v, c2)" "c_string c = Inr (key, c1)"
  with skip_follows_decode[OF a(2)]
  show "\<exists>t. field_names_step (s, c) = Inr (t, c2) \<and> set t = fst ` set (doc_insert key v doc)"
    by (auto simp: field_names_step_def doc_insert_def)
qed

subsection \<open>Positional values\<close>

lemma position_None: "position p xs = None \<longleftrightarrow> (\<forall>x \<in> set xs. \<not> p x)"
  by (induction xs) auto

lemma position_Some: "position p xs = Some i \<Longrightarrow> i < length xs \<and> p (xs ! i)"
  by (induction xs arbitrary: i) (auto split: if_splits)

definition any_reserved :: "document \<Rightarrow> bool" where
  "any_reserved doc \<longleftrightarrow> (\<exists>k \<in> fst ` set doc. reserved_name k)"

lemma any_reserved_insert: "any_reserved (doc_insert k v doc) \<longleftrightarrow> reserved_name k \<or> any_reserved doc"
  by (simp add: any_reserved_def doc_insert_def)

lemma lookups_empty [simp]: "map (doc_get []) ks = replicate (length ks) None"
  by (induction ks) (simp_all add: doc_get_def)

lemma any_reserved_empty [simp]: "\<not> any_reserved []"
  by (simp add: any_reserved_def)

lemma positional_insert:
  assumes "distinct wanted"
  shows "map (doc_get (doc_insert k v doc)) wanted =
    (case position (\<lambda>w. w = k) wanted of
       None \<Rightarrow> map (doc_get doc) wanted
     | Some i \<Rightarrow> (map (doc_get doc) wanted)[i := Some v])"
proof (cases "position (\<lambda>w. w = k) wanted")
  case None
  then have "k \<notin> set wanted" by (auto simp: position_None)
  with None show ?thesis by (auto simp: doc_get_def doc_insert_def)
next
  case (Some i)
  then have "i < length wanted" "wanted ! i = k" using position_Some[OF Some] by auto
  with assms Some show ?thesis
    by (auto intro!: nth_equalityI simp: nth_list_update doc_get_def doc_insert_def nth_eq_iff_index_eq)
qed

lemma scan_fields_walk:
  assumes "distinct wanted"
  shows "row_walk (scan_fields_step wanted) (\<lambda>doc s. s = (map (doc_get doc) wanted, any_reserved doc))"
proof
  fix doc c key c1 v c2 and s :: "val option list \<times> bool"
  assume a: "s = (map (doc_get doc) wanted, any_reserved doc)" "decode_value c1 = Inr (v, c2)"
  assume "c_string c = Inr (key, c1)"
  then obtain len c0 where "c_u32 c = Inr (len, c0)" "c_take (unat len) c0 = Inr (key, c1)" "utf8_ok key"
    by (rule c_string_parts)
  with a skip_follows_decode[OF a(2)]
  show "\<exists>t. scan_fields_step wanted (s, c) = Inr (t, c2)
      \<and> t = (map (doc_get (doc_insert key v doc)) wanted, any_reserved (doc_insert key v doc))"
    by (auto simp: scan_fields_step_def positional_insert[OF assms] any_reserved_insert set_at_def
        split: option.splits dest!: position_Some)
qed

subsection \<open>Group rows\<close>

lemma transcode_decodes:
  "transcode_key_value d2f bs out = rbind (decode_value (cur_new bs)) (\<lambda>(v, _). Inr (encode_into d2f v out))"
proof (cases "c_u8 (cur_new bs)")
  case (Inl e)
  then show ?thesis by (subst decode_value_unfold) (simp add: transcode_key_value_def decode_body_def)
next
  case (Inr p)
  then obtain t c where t: "c_u8 (cur_new bs) = Inr (t, c)" by (cases p) auto
  show ?thesis
  proof (cases "t = T_ARRAY \<or> t = T_DOCUMENT")
    case True
    with t show ?thesis by (auto simp: transcode_key_value_def)
  next
    case False
    with t show ?thesis
      by (subst decode_value_unfold)
        (auto simp: transcode_key_value_def decode_body_def rbind_assoc cur_string_def cur_bytes_def cur_array_eq
          split: prod.splits intro!: rbind_cong)
  qed
qed

text \<open>Where the value of a field lies in a stored row whose fields start at \<open>off\<close>.\<close>

fun field_span :: "nat \<Rightarrow> document \<Rightarrow> rstr \<Rightarrow> (nat \<times> nat) option" where
  "field_span off [] k = None"
| "field_span off (f # fs) k =
    (if fst f = k then Some (off + 4 + length k, off + length (enc_field f))
     else field_span (off + length (enc_field f)) fs k)"

lemma field_spans_empty [simp]: "map (field_span off []) ks = replicate (length ks) None"
  by (induction ks) simp_all

lemma field_span_append:
  "field_span off (ds @ [f]) k = (case field_span off ds k of
     Some s \<Rightarrow> Some s
   | None \<Rightarrow> (if fst f = k then Some (off + length (concat (map enc_field ds)) + 4 + length k,
                              off + length (concat (map enc_field ds)) + length (enc_field f)) else None))"
  by (induction ds arbitrary: off) (auto simp: ac_simps split: option.splits)

lemma field_span_None: "field_span off ds k = None \<longleftrightarrow> k \<notin> fst ` set ds"
  by (induction ds arbitrary: off) auto

lemma field_span_slice:
  assumes "field_span (length pre) doc k = Some (a, b)"
  shows "\<exists>v. doc_get doc k = Some v \<and> a \<le> b \<and> b \<le> length (pre @ concat (map enc_field doc) @ post)
     \<and> take (b - a) (drop a (pre @ concat (map enc_field doc) @ post)) = encode v"
  using assms
proof (induction doc arbitrary: pre)
  case (Cons f fs)
  show ?case
  proof (cases "fst f = k")
    case True
    with Cons.prems have ab: "a = length pre + 4 + length k" "b = length pre + length (enc_field f)" by auto
    from True have "enc_field f = len_bytes k @ encode (snd f)" by (simp add: enc_field_def)
    with ab True show ?thesis by (cases f) (simp add: doc_get_def)
  next
    case False
    with Cons.prems have "field_span (length (pre @ enc_field f)) fs k = Some (a, b)" by simp
    from Cons.IH[OF this] False show ?thesis by (cases f) (simp add: doc_get_def)
  qed
qed simp

lemma record_spans_eq:
  assumes "length spans = length ks"
  shows "record_spans ks raw sp spans = map2 (\<lambda>k s. if k = raw then Some sp else s) ks spans"
proof -
  have "n \<le> length ks \<Longrightarrow>
      fold (\<lambda>i spans. if ks ! i = raw then spans[i := Some sp] else spans) [0..<n] spans
      = map2 (\<lambda>k s. if k = raw then Some sp else s) (take n ks) (take n spans) @ drop n spans" for n
  proof (induction n)
    case (Suc n)
    then have "n < length ks" "n < length spans" using assms by auto
    then show ?case
      using Suc by (simp add: take_Suc_conv_app_nth list_update_append Cons_nth_drop_Suc[symmetric])
  qed simp
  from this[of "length ks"] show ?thesis by (simp add: record_spans_def assms)
qed

lemma map2_map_right: "map2 g xs (map h xs) = map (\<lambda>x. g x (h x)) xs"
  by (induction xs) auto

text \<open>One field read at its place in a stored row.\<close>

lemma field_at:
  assumes "utf8_ok (fst f)" "length (fst f) < 2 ^ 32" "storable (snd f)" "fits (pre @ enc_field f @ post)"
  obtains c0 where
    "c_u32 (cur_at pre (enc_field f @ post)) = Inr (word_of_nat (length (fst f)), c0)"
    "c_take (length (fst f)) c0 = Inr (fst f, cur_at (pre @ len_bytes (fst f)) (encode (snd f) @ post))"
    "decode_value (cur_at (pre @ len_bytes (fst f)) (encode (snd f) @ post)) = Inr (snd f, cur_at (pre @ enc_field f) post)"
    "skip_value (cur_at (pre @ len_bytes (fst f)) (encode (snd f) @ post)) = Inr ((), cur_at (pre @ enc_field f) post)"
proof -
  let ?c = "cur_at (pre @ len_bytes (fst f)) (encode (snd f) @ post)"
  have v: "decode_value ?c = Inr (snd f, cur_at (pre @ enc_field f) post)"
    using decode_value_at[of "snd f" "pre @ len_bytes (fst f)" post] assms by (simp add: enc_field_def)
  moreover have "c_u32 (cur_at pre (enc_field f @ post))
      = Inr (word_of_nat (length (fst f)), cur_at (pre @ u32_le (length (fst f))) (fst f @ encode (snd f) @ post))"
    using cur_u32_at[of pre "length (fst f)" "fst f @ encode (snd f) @ post" E_over E_end] assms(4)
    by (simp add: enc_field_def len_bytes_def)
  moreover have "c_take (length (fst f)) (cur_at (pre @ u32_le (length (fst f))) (fst f @ encode (snd f) @ post))
      = Inr (fst f, ?c)"
    using cur_take_at[of "pre @ u32_le (length (fst f))" "fst f" "encode (snd f) @ post" _ E_over E_end] assms(4)
    by (simp add: enc_field_def len_bytes_def)
  ultimately show ?thesis using that skip_follows_decode[OF v] by blast
qed

definition row_state :: "rstr list \<Rightarrow> rstr list \<Rightarrow> nat \<Rightarrow> document \<Rightarrow> group_state" where
  "row_state ks vs off ds = (map (doc_get ds) vs, map (field_span off ds) ks, any_reserved ds)"

lemma group_step_at:
  assumes "distinct vs" and "bt_sorted (ds @ [f])"
    and "utf8_ok (fst f)" "length (fst f) < 2 ^ 32" "storable (snd f)"
    and pre: "pre = hdr @ concat (map enc_field ds)" and "fits (pre @ enc_field f @ post)"
  shows "group_step ks vs (row_state ks vs (length hdr) ds, cur_at pre (enc_field f @ post))
       = Inr (row_state ks vs (length hdr) (ds @ [f]), cur_at (pre @ enc_field f) post)"
proof -
  let ?c = "cur_at (pre @ len_bytes (fst f)) (encode (snd f) @ post)"
  obtain c0 where x: "c_u32 (cur_at pre (enc_field f @ post)) = Inr (word_of_nat (length (fst f)), c0)"
    "c_take (length (fst f)) c0 = Inr (fst f, ?c)"
    "decode_value ?c = Inr (snd f, cur_at (pre @ enc_field f) post)"
    "skip_value ?c = Inr ((), cur_at (pre @ enc_field f) post)"
    by (rule field_at[OF assms(3-5) assms(7)])
  have len: "unat (word_of_nat (length (fst f)) :: u32) = length (fst f)"
    using assms(4) by (simp add: unat_of_nat)
  have ins: "ds @ [f] = doc_insert (fst f) (snd f) ds"
    using assms(2) by (cases f) (auto simp: doc_insert_def bt_sorted_append intro!: bt_insert_last[symmetric])
  have none: "field_span (length hdr) ds (fst f) = None"
    using assms(2) by (auto simp: field_span_None bt_sorted_append)
  have sp: "map (field_span (length hdr) (ds @ [f])) ks =
      map (\<lambda>k. if k = fst f then Some (pos ?c, length (pre @ enc_field f)) else field_span (length hdr) ds k) ks"
    using none by (auto simp: field_span_append pre split: option.splits)
  have nokey: "fst f \<notin> set ks \<Longrightarrow> map (field_span (length hdr) (ds @ [f])) ks = map (field_span (length hdr) ds) ks"
    unfolding sp by auto
  have key: "record_spans ks (fst f) (pos ?c, length (pre @ enc_field f)) (map (field_span (length hdr) ds) ks)
      = map (field_span (length hdr) (ds @ [f])) ks"
    unfolding sp by (simp add: record_spans_eq map2_map_right)
  have vals: "map (doc_get (ds @ [f])) vs = (case position (\<lambda>w. w = fst f) vs of
       None \<Rightarrow> map (doc_get ds) vs | Some i \<Rightarrow> (map (doc_get ds) vs)[i := Some (snd f)])"
    unfolding ins by (rule positional_insert[OF assms(1)])
  have res: "any_reserved (ds @ [f]) = (reserved_name (fst f) \<or> any_reserved ds)"
    unfolding ins by (rule any_reserved_insert)
  have mem: "list_ex (\<lambda>w. w = fst f) ks \<longleftrightarrow> fst f \<in> set ks" by (auto simp: list_ex_iff)
  show ?thesis
    using x key nokey
    by (auto simp: group_step_def row_state_def Let_def len vals res mem set_at_def
        split: option.splits dest!: position_Some)
qed

lemma group_loop_at:
  assumes "distinct vs" and "bt_sorted (ds @ fs)"
    and "\<And>f. f \<in> set fs \<Longrightarrow> utf8_ok (fst f) \<and> length (fst f) < 2 ^ 32 \<and> storable (snd f)"
    and "fits (hdr @ concat (map enc_field (ds @ fs)))"
  shows "for_n (length fs) (group_step ks vs)
      (row_state ks vs (length hdr) ds, cur_at (hdr @ concat (map enc_field ds)) (concat (map enc_field fs)))
    = Inr (row_state ks vs (length hdr) (ds @ fs), cur_at (hdr @ concat (map enc_field (ds @ fs))) [])"
  using assms
proof (induction fs arbitrary: ds)
  case (Cons f fs)
  have "group_step ks vs (row_state ks vs (length hdr) ds,
        cur_at (hdr @ concat (map enc_field ds)) (enc_field f @ concat (map enc_field fs)))
      = Inr (row_state ks vs (length hdr) (ds @ [f]),
          cur_at ((hdr @ concat (map enc_field ds)) @ enc_field f) (concat (map enc_field fs)))"
    using Cons.prems by (intro group_step_at) (auto simp: bt_sorted_append bt_sorted_def[of "[f]"])
  with Cons.IH[of "ds @ [f]"] Cons.prems show ?case by simp
qed simp

definition group_value :: "document \<Rightarrow> rstr \<Rightarrow> val" where
  "group_value doc k = (case doc_get doc k of None \<Rightarrow> VNull | Some v \<Rightarrow> v)"

lemma doc_get_storable: "storable (VDocument doc) \<Longrightarrow> doc_get doc k = Some v \<Longrightarrow> storable v"
  by (auto simp: storable_simps doc_get_def dest!: bt_get_SomeD)

lemma span_key_at:
  assumes "storable (VDocument doc)" and "fits (hdr @ concat (map enc_field doc))"
  shows "span_key d2f (hdr @ concat (map enc_field doc)) (field_span (length hdr) doc k) out
       = Inr (encode_into d2f (group_value doc k) out)"
proof (cases "field_span (length hdr) doc k")
  case None
  then have "doc_get doc k = None" by (simp add: field_span_None doc_get_def bt_get_None)
  with None show ?thesis by (simp add: span_key_def group_value_def)
next
  case (Some ab)
  obtain a b where ab: "ab = (a, b)" by (cases ab)
  let ?bs = "hdr @ concat (map enc_field doc)"
  obtain v where v: "doc_get doc k = Some v" "a \<le> b" "b \<le> length ?bs" "take (b - a) (drop a ?bs) = encode v"
    using field_span_slice[of hdr doc k a b "[]"] Some ab by auto
  from v(4) have "length (encode v) \<le> length ?bs"
    by (metis length_drop length_take min.cobounded1 diff_le_self le_trans min.cobounded2)
  then have "fits (encode v)" using assms(2) by (simp add: fits_def)
  then have "decode_value (cur_new (encode v)) = Inr (v, cur_at (encode v) [])"
    using decode_value_at[of v "[]" "[]"] doc_get_storable[OF assms(1) v(1)] by (simp add: cur_new_at)
  with v Some ab show ?thesis
    by (simp add: span_key_def transcode_decodes group_value_def)
qed

lemma span_keys_at:
  assumes "storable (VDocument doc)" and "fits (hdr @ concat (map enc_field doc))"
  shows "span_keys d2f (hdr @ concat (map enc_field doc)) (map (field_span (length hdr) doc) ks) out
       = Inr (fold (encode_into d2f) (map (group_value doc) ks) out)"
  by (induction ks arbitrary: out) (simp_all add: span_key_at[OF assms])

lemma doc_header_at:
  assumes "length doc < 2 ^ 32" and "fits (encode_document doc)"
  shows "doc_header msg (encode_document doc)
    = Inr (word_of_nat (length doc), cur_at (T_DOCUMENT # u32_le (length doc)) (concat (map enc_field doc)))"
  using cur_u8_at[of "[]" T_DOCUMENT "u32_le (length doc) @ concat (map enc_field doc)" E_over E_end]
    cur_u32_at[of "[T_DOCUMENT]" "length doc" "concat (map enc_field doc)" E_over E_end] assms
  by (simp add: doc_header_def encode_document_eq cur_new_at)

subsection \<open>Reserved fields\<close>

lemma has_reserved_at:
  assumes "bt_sorted fs" and "\<And>f. f \<in> set fs \<Longrightarrow> utf8_ok (fst f) \<and> length (fst f) < 2 ^ 32 \<and> storable (snd f)"
    and "fits (pre @ concat (map enc_field fs))"
  shows "has_reserved_loop (length fs) (cur_at pre (concat (map enc_field fs))) = Inr (any_reserved fs)"
  using assms
proof (induction fs arbitrary: pre)
  case Nil
  then show ?case by (simp add: any_reserved_def)
next
  case (Cons f fs)
  let ?post = "concat (map enc_field fs)"
  let ?c = "cur_at (pre @ len_bytes (fst f)) (encode (snd f) @ ?post)"
  have f: "utf8_ok (fst f)" "length (fst f) < 2 ^ 32" "storable (snd f)" "fits (pre @ enc_field f @ ?post)"
    using Cons.prems by auto
  obtain c0 where x: "c_u32 (cur_at pre (enc_field f @ ?post)) = Inr (word_of_nat (length (fst f)), c0)"
    "c_take (length (fst f)) c0 = Inr (fst f, ?c)"
    "skip_value ?c = Inr ((), cur_at (pre @ enc_field f) ?post)"
    by (rule field_at[OF f])
  have len: "unat (word_of_nat (length (fst f)) :: u32) = length (fst f)"
    using f(2) by (simp add: unat_of_nat)
  have ih: "has_reserved_loop (length fs) (cur_at (pre @ enc_field f) ?post) = Inr (any_reserved fs)"
    using Cons.IH[of "pre @ enc_field f"] Cons.prems by (cases f) auto
  have above: "\<not> any_reserved fs" if "fst f = b # r" "1 < b" for b r
  proof
    assume "any_reserved fs"
    then obtain k where k: "k \<in> fst ` set fs" "reserved_name k" by (auto simp: any_reserved_def)
    from k(2) obtain k' where k': "k = 1 # k'" by (cases k) (simp_all add: reserved_name_def)
    have "fst f < k" using Cons.prems(1) k(1) by (cases f) auto
    with that k' show False by auto
  qed
  have "any_reserved (f # fs) \<longleftrightarrow> reserved_name (fst f) \<or> any_reserved fs" by (simp add: any_reserved_def)
  then show ?case
    using x ih above by (auto simp: len reserved_name_def split: list.splits)
qed

text \<open>A stored row to evaluate the walks on.\<close>

lemma sample_row:
  "decode (encode (VDocument [([0x61], VInt 1), ([0x62], VNull)])) = Inr (VDocument [([0x61], VInt 1), ([0x62], VNull)])"
  using decode_value_at[of "VDocument [([0x61], VInt 1), ([0x62], VNull)]" "[]" "[]"]
  by (simp add: decode_def cur_new_at at_end_def storable_def fits_def encode_document_eq enc_field_def)

section \<open>Properties\<close>

text \<open>The projected decode of any row the full decoder accepts is the full row restricted to the
  wanted and the reserved fields (the other names kept with a NULL placeholder when the names marker is
  wanted). The raw-byte fast path for up to eight names and the hashed path agree.\<close>

theorem decode_document_projected_restricts:
  assumes "decode bs = Inr (VDocument doc)"
  shows "decode_document_projected bs wanted = Inr (bt_retain (keep_projected wanted) doc)"
proof -
  obtain n c d where x: "\<forall>msg. doc_header msg bs = Inr (n, c)" "\<not> cur_remaining c div 5 < unat n"
    "for_n (unat n) (doc_step decode_value) (doc_new, c) = Inr (doc, d)" "pos d = length bs"
    by (rule decode_document_loop[OF assms])
  with small.loop_follows[OF x(3), of doc_new wanted] large.loop_follows[OF x(3), of doc_new wanted]
  show ?thesis
    by (simp add: decode_document_projected_def doc_new_def at_end_def Let_def)
qed

theorem decode_document_projected_restricts_witness:
  "decode_document_projected (encode (VDocument [([0x61], VInt 1), ([0x62], VNull)])) [[0x62]]
   = Inr [([0x62], VNull)]"
  using decode_document_projected_restricts[OF sample_row, of "[[0x62]]"]
  by (simp add: keep_projected_def reserved_name_def FIELD_NAMES_MARKER_def)

text \<open>The probed decode replaces each probed field by NULL or TRUE according to whether it is NULL
  in the full row, and otherwise keeps the wanted and the reserved fields.\<close>

theorem decode_document_probed_restricts:
  assumes "decode bs = Inr (VDocument doc)"
  shows "decode_document_probed bs wanted probed = Inr (bt_retain (keep_probed wanted probed) doc)"
proof -
  obtain n c d where x: "\<forall>msg. doc_header msg bs = Inr (n, c)" "\<not> cur_remaining c div 5 < unat n"
    "for_n (unat n) (doc_step decode_value) (doc_new, c) = Inr (doc, d)" "pos d = length bs"
    by (rule decode_document_loop[OF assms])
  with probe.loop_follows[OF x(3), of doc_new wanted probed] show ?thesis
    by (simp add: decode_document_probed_def doc_new_def at_end_def)
qed

theorem decode_document_probed_restricts_witness:
  "decode_document_probed (encode (VDocument [([0x61], VInt 1), ([0x62], VNull)])) [] [[0x61], [0x62]]
   = Inr [([0x61], VBool True), ([0x62], VNull)]"
  using decode_document_probed_restricts[OF sample_row, of "[]" "[[0x61], [0x62]]"]
  by (simp add: keep_probed_def)

text \<open>\<^verbatim>\<open>scan_fields\<close> returns, positionally, what looking the wanted names up in the fully decoded row
  would (\<^verbatim>\<open>None\<close> for an absent field), and flags exactly the rows that hold a reserved field.\<close>

theorem scan_fields_looks_up:
  assumes "decode bs = Inr (VDocument doc)" and "distinct wanted"
  shows "scan_fields bs wanted = Inr (map (doc_get doc) wanted, \<exists>k \<in> fst ` set doc. reserved_name k)"
proof -
  obtain n c d where x: "\<forall>msg. doc_header msg bs = Inr (n, c)" "\<not> cur_remaining c div 5 < unat n"
    "for_n (unat n) (doc_step decode_value) (doc_new, c) = Inr (doc, d)" "pos d = length bs"
    by (rule decode_document_loop[OF assms(1)])
  from row_walk.loop_follows[OF scan_fields_walk[OF assms(2)] x(3)]
  have "for_n (unat n) (scan_fields_step wanted) ((replicate (length wanted) None, False), c)
      = Inr ((map (doc_get doc) wanted, any_reserved doc), d)"
    by (simp add: doc_new_def)
  with x(1,4) show ?thesis
    by (simp add: scan_fields_def scan_fields_into_def any_reserved_def at_end_def)
qed

theorem scan_fields_looks_up_witness:
  "scan_fields (encode (VDocument [([0x61], VInt 1), ([0x62], VNull)])) [[0x62], [0x7A]] = Inr ([Some VNull, None], False)"
  using scan_fields_looks_up[OF sample_row, of "[[0x62], [0x7A]]"]
  by (simp add: doc_get_def reserved_name_def)

text \<open>C14: Transcoding a stored value straight into a key is decoding it and encoding the key: the same
  bytes on success and the same error otherwise, on every input.\<close>

theorem transcode_key_value_parity:
  "transcode_key_value d2f bs out = rbind (decode_value (cur_new bs)) (\<lambda>(v, _). Inr (encode_into d2f v out))"
  by (rule transcode_decodes)

text \<open>C15: The streamed GROUP BY walk over a stored row: the key it appends is the array key of the
  looked-up key columns (NULL where absent; nothing when there are none), the values are the looked-up
  argument columns, and the flag tells whether the row holds a reserved field.\<close>

theorem scan_group_row_correct:
  assumes "wf_val (VDocument doc)" and "sized (VDocument doc)" and "fits (encode_document doc)" and "distinct vs"
  shows "\<exists>spans. scan_group_row d2f (encode_document doc) ks vs key_out =
    Inr (if ks = [] then key_out else encode_array_key_into d2f (map (group_value doc) ks) key_out,
         map (doc_get doc) vs, spans, \<exists>k \<in> fst ` set doc. reserved_name k)"
proof -
  let ?hdr = "T_DOCUMENT # u32_le (length doc)"
  have st: "storable (VDocument doc)" using assms(1,2) by (simp add: storable_def)
  have bs: "encode_document doc = ?hdr @ concat (map enc_field doc)" by (simp add: encode_document_eq)
  have len: "unat (word_of_nat (length doc) :: u32) = length doc" and lt: "length doc < 2 ^ 32"
    using st by (simp_all add: storable_simps unat_of_nat)
  have "for_n (length doc) (group_step ks vs) (row_state ks vs (length ?hdr) [], cur_at ?hdr (concat (map enc_field doc)))
      = Inr (row_state ks vs (length ?hdr) doc, cur_at (?hdr @ concat (map enc_field doc)) [])"
    using group_loop_at[of vs "[]" doc ?hdr ks] assms(3,4) st by (simp add: storable_simps bs)
  moreover have "row_state ks vs n [] = (replicate (length vs) None, replicate (length ks) None, False)" for n
    by (simp add: row_state_def)
  ultimately have loop: "for_n (length doc) (group_step ks vs)
      ((replicate (length vs) None, replicate (length ks) None, False), cur_at ?hdr (concat (map enc_field doc)))
      = Inr (row_state ks vs (length ?hdr) doc, cur_at (encode_document doc) [])"
    by (simp add: bs)
  have keys: "span_keys d2f (encode_document doc) (map (field_span (length ?hdr) doc) ks) (key_out @ [K_ARRAY])
      = Inr (fold (encode_into d2f) (map (group_value doc) ks) (key_out @ [K_ARRAY]))"
    unfolding bs by (rule span_keys_at[OF st assms(3)[unfolded bs]])
  show ?thesis
    using loop keys
    by (simp add: scan_group_row_def doc_header_at[OF lt assms(3)] len row_state_def at_end_def any_reserved_def
        encode_array_key_into_def)
qed

theorem scan_group_row_correct_witness:
  "\<exists>spans. scan_group_row (\<lambda>_. 0) (encode_document [([0x61], VBool True)]) [[0x61], [0x62]] [[0x61]] [0xEE] =
    Inr ([0xEE, K_ARRAY, K_BOOL, 1, K_NULL, K_END], [Some (VBool True)], spans, False)"
  using scan_group_row_correct[of "[([0x61], VBool True)]" "[[0x61]]" "\<lambda>_. 0" "[[0x61], [0x62]]" "[0xEE]"]
  by (simp add: fits_def encode_document_eq enc_field_def encode_array_key_into_def group_value_def doc_get_def
      reserved_name_def)

text \<open>\<^verbatim>\<open>doc_has_reserved\<close>, which stops at the first name past the reserved prefix, finds a reserved
  field of a stored row exactly when it has one.\<close>

theorem doc_has_reserved_correct:
  assumes "wf_val (VDocument doc)" and "sized (VDocument doc)" and "fits (encode_document doc)"
  shows "doc_has_reserved (encode_document doc) = Inr (\<exists>k \<in> fst ` set doc. reserved_name k)"
proof -
  have st: "storable (VDocument doc)" using assms(1,2) by (simp add: storable_def)
  then have len: "unat (word_of_nat (length doc) :: u32) = length doc" and lt: "length doc < 2 ^ 32"
    by (simp_all add: storable_simps unat_of_nat)
  show ?thesis
    using has_reserved_at[of doc "T_DOCUMENT # u32_le (length doc)"] st assms(3)[unfolded encode_document_eq]
    by (simp add: doc_has_reserved_def doc_header_at[OF lt assms(3)] len storable_simps any_reserved_def)
qed

theorem doc_has_reserved_correct_witness:
  "doc_has_reserved (encode_document [([0, 5], VNull), ([1, 0x74], VBytes [9]), ([0x61], VNull)]) = Inr True"
  using doc_has_reserved_correct[of "[([0, 5], VNull), ([1, 0x74], VBytes [9]), ([0x61], VNull)]"]
  by (simp add: fits_def encode_document_eq enc_field_def reserved_name_def)

end
