(* ===== verification/Rbac.thy ===== *)
theory Rbac
  imports Btree_Map "HOL-Library.Product_Lexorder"
begin

text \<open>
  Role-based access control (\<^verbatim>\<open>skaidb-auth/src/rbac.rs\<close>): the role store, its administration, and the
  three walks over role inheritance (\<^verbatim>\<open>check\<close>, \<^verbatim>\<open>collect_columns\<close>, \<^verbatim>\<open>collect_mqtt_filters\<close>) with their
  visited sets. A \<^verbatim>\<open>BTreeSet\<close> is an ascending list. The walks recurse through role names that may form
  cycles; they are written with a recursion bound, one more than the number of roles, and the bound is
  proved never to be reached.
\<close>

section \<open>Definitions\<close>

datatype privilege =
    Select | Insert | Update | Delete | Create | Drop | Grant | Monitor | Advisor | Publish | Subscribe
  | Execute_priv | Bi | Admin

datatype object =
    Global
  | Table rstr
  | Database rstr
  | MqttTopic rstr
  | Procedure rstr
  | Column rstr rstr

text \<open>The derived orders: variants in declaration order, then the fields.\<close>

primrec privilege_rank :: "privilege \<Rightarrow> nat" where
  "privilege_rank Select = 0"
| "privilege_rank Insert = 1"
| "privilege_rank Update = 2"
| "privilege_rank Delete = 3"
| "privilege_rank Create = 4"
| "privilege_rank Drop = 5"
| "privilege_rank Grant = 6"
| "privilege_rank Monitor = 7"
| "privilege_rank Advisor = 8"
| "privilege_rank Publish = 9"
| "privilege_rank Subscribe = 10"
| "privilege_rank Execute_priv = 11"
| "privilege_rank Bi = 12"
| "privilege_rank Admin = 13"

primrec object_rank :: "object \<Rightarrow> nat \<times> rstr \<times> rstr" where
  "object_rank Global = (0, [], [])"
| "object_rank (Table t) = (1, t, [])"
| "object_rank (Database d) = (2, d, [])"
| "object_rank (MqttTopic f) = (3, f, [])"
| "object_rank (Procedure p) = (4, p, [])"
| "object_rank (Column t c) = (5, t, c)"

lemma privilege_rank_inject: "privilege_rank p = privilege_rank q \<longleftrightarrow> p = q"
  by (cases p; cases q) simp_all

lemma object_rank_inject: "object_rank a = object_rank b \<longleftrightarrow> a = b"
  by (cases a; cases b) simp_all

instantiation privilege :: linorder
begin

definition less_eq_privilege :: "privilege \<Rightarrow> privilege \<Rightarrow> bool" where
  "less_eq_privilege p q \<longleftrightarrow> privilege_rank p \<le> privilege_rank q"

definition less_privilege :: "privilege \<Rightarrow> privilege \<Rightarrow> bool" where
  "less_privilege p q \<longleftrightarrow> privilege_rank p < privilege_rank q"

instance
  by standard (auto simp: less_eq_privilege_def less_privilege_def privilege_rank_inject)

end

instantiation object :: linorder
begin

definition less_eq_object :: "object \<Rightarrow> object \<Rightarrow> bool" where
  "less_eq_object a b \<longleftrightarrow> object_rank a \<le> object_rank b"

definition less_object :: "object \<Rightarrow> object \<Rightarrow> bool" where
  "less_object a b \<longleftrightarrow> object_rank a < object_rank b"

instance
  by standard (auto simp: less_eq_object_def less_object_def object_rank_inject[symmetric])

end

record role =
  grants :: "(object, privilege list) btree"
  inherits :: "rstr list"

type_synonym role_store = "(rstr, role) btree"

definition role_default :: role where
  "role_default = \<lparr>grants = [], inherits = []\<rparr>"

datatype rbac_error = NoSuchRole rstr | RoleExists rstr

text \<open>\<^verbatim>\<open>BTreeSet::insert\<close>, \<^verbatim>\<open>remove\<close>, and \<^verbatim>\<open>map.entry(k).or_default()\<close> with its update.\<close>

definition bs_insert :: "'a::linorder \<Rightarrow> 'a list \<Rightarrow> 'a list" where
  "bs_insert x xs = (if x \<in> set xs then xs else insort x xs)"

definition bs_remove :: "'a \<Rightarrow> 'a list \<Rightarrow> 'a list" where
  "bs_remove x xs = filter (\<lambda>y. y \<noteq> x) xs"

definition or_default :: "'k::linorder \<Rightarrow> 'v \<Rightarrow> ('v \<Rightarrow> 'v) \<Rightarrow> ('k, 'v) btree \<Rightarrow> ('k, 'v) btree" where
  "or_default k d f m = bt_insert k (f (case bt_get m k of None \<Rightarrow> d | Some v \<Rightarrow> v)) m"

definition privilege_name :: "privilege \<Rightarrow> rstr" where
  "privilege_name p = of_str (case p of
     Select \<Rightarrow> ''select'' | Insert \<Rightarrow> ''insert'' | Update \<Rightarrow> ''update'' | Delete \<Rightarrow> ''delete''
   | Create \<Rightarrow> ''create'' | Drop \<Rightarrow> ''drop'' | Grant \<Rightarrow> ''grant'' | Monitor \<Rightarrow> ''monitor''
   | Advisor \<Rightarrow> ''advisor'' | Publish \<Rightarrow> ''publish'' | Subscribe \<Rightarrow> ''subscribe''
   | Execute_priv \<Rightarrow> ''execute'' | Bi \<Rightarrow> ''bi'' | Admin \<Rightarrow> ''admin'')"

definition to_ascii_lowercase :: "rstr \<Rightarrow> rstr" where
  "to_ascii_lowercase s = map (\<lambda>b. if 0x41 \<le> b \<and> b \<le> 0x5A then b + 0x20 else b) s"

definition privilege_from_name :: "rstr \<Rightarrow> privilege option" where
  "privilege_from_name s =
    (let t = to_ascii_lowercase s in
     if t = of_str ''select'' then Some Select
     else if t = of_str ''insert'' then Some Insert
     else if t = of_str ''update'' then Some Update
     else if t = of_str ''delete'' then Some Delete
     else if t = of_str ''create'' then Some Create
     else if t = of_str ''drop'' then Some Drop
     else if t = of_str ''grant'' then Some Grant
     else if t = of_str ''monitor'' then Some Monitor
     else if t = of_str ''advisor'' then Some Advisor
     else if t = of_str ''publish'' then Some Publish
     else if t = of_str ''subscribe'' then Some Subscribe
     else if t = of_str ''execute'' then Some Execute_priv
     else if t = of_str ''bi'' then Some Bi
     else if t = of_str ''admin'' then Some Admin
     else None)"

definition store_new :: role_store where
  "store_new = []"

definition create_role :: "rstr \<Rightarrow> role_store \<Rightarrow> (rbac_error, role_store) res" where
  "create_role name st =
    (if bt_get st name \<noteq> None then Inl (Err (RoleExists name)) else Inr (bt_insert name role_default st))"

definition create_superuser :: "rstr \<Rightarrow> role_store \<Rightarrow> role_store" where
  "create_superuser name st = or_default name role_default
     (\<lambda>r. r\<lparr>grants := or_default Global [] (bs_insert Admin) (grants r)\<rparr>) st"

definition drop_role :: "rstr \<Rightarrow> role_store \<Rightarrow> (rbac_error, role_store) res" where
  "drop_role name st = (case bt_get st name of
     None \<Rightarrow> Inl (Err (NoSuchRole name)) | Some _ \<Rightarrow> Inr (bt_remove name st))"

definition role_exists :: "rstr \<Rightarrow> role_store \<Rightarrow> bool" where
  "role_exists name st \<longleftrightarrow> bt_get st name \<noteq> None"

definition grant :: "rstr \<Rightarrow> privilege \<Rightarrow> object \<Rightarrow> role_store \<Rightarrow> (rbac_error, role_store) res" where
  "grant rl p obj st = (case bt_get st rl of
     None \<Rightarrow> Inl (Err (NoSuchRole rl))
   | Some _ \<Rightarrow> Inr (bt_update rl (\<lambda>r. r\<lparr>grants := or_default obj [] (bs_insert p) (grants r)\<rparr>) st))"

definition revoke :: "rstr \<Rightarrow> privilege \<Rightarrow> object \<Rightarrow> role_store \<Rightarrow> (rbac_error, role_store) res" where
  "revoke rl p obj st = (case bt_get st rl of
     None \<Rightarrow> Inl (Err (NoSuchRole rl))
   | Some _ \<Rightarrow> Inr (bt_update rl (\<lambda>r. r\<lparr>grants := bt_update obj (bs_remove p) (grants r)\<rparr>) st))"

definition grant_role :: "rstr \<Rightarrow> rstr \<Rightarrow> role_store \<Rightarrow> (rbac_error, role_store) res" where
  "grant_role member parent st =
    (if bt_get st parent = None then Inl (Err (NoSuchRole parent))
     else case bt_get st member of
       None \<Rightarrow> Inl (Err (NoSuchRole member))
     | Some _ \<Rightarrow> Inr (bt_update member (\<lambda>m. m\<lparr>inherits := bs_insert parent (inherits m)\<rparr>) st))"

definition revoke_role :: "rstr \<Rightarrow> rstr \<Rightarrow> role_store \<Rightarrow> role_store" where
  "revoke_role member parent st = bt_update member (\<lambda>m. m\<lparr>inherits := bs_remove parent (inherits m)\<rparr>) st"

definition object_text :: "object \<Rightarrow> rstr" where
  "object_text obj = (case obj of
     Global \<Rightarrow> of_str ''*''
   | Table t \<Rightarrow> t
   | Database d \<Rightarrow> of_str ''db:'' @ d
   | MqttTopic f \<Rightarrow> of_str ''topic:'' @ f
   | Procedure p \<Rightarrow> of_str ''proc:'' @ p
   | Column t c \<Rightarrow> of_str ''col:'' @ t @ [0x1E] @ c)"

definition role_grants :: "rstr \<times> role \<Rightarrow> (rstr \<times> rstr \<times> rstr) list" where
  "role_grants = (\<lambda>(name, r).
     concat (map (\<lambda>(obj, privs). map (\<lambda>p. (name, privilege_name p, object_text obj)) privs) (grants r))
     @ map (\<lambda>parent. (name, of_str ''ROLE'', parent)) (inherits r))"

definition store_grants :: "rstr option \<Rightarrow> role_store \<Rightarrow> (rstr \<times> rstr \<times> rstr) list" where
  "store_grants only st = concat (map (\<lambda>(name, r).
     if (case only of None \<Rightarrow> False | Some o' \<Rightarrow> o' \<noteq> name) then [] else role_grants (name, r)) st)"

definition grants_contains :: "(object, privilege list) btree \<Rightarrow> object \<Rightarrow> privilege \<Rightarrow> bool" where
  "grants_contains gs obj p = (case bt_get gs obj of None \<Rightarrow> False | Some s \<Rightarrow> p \<in> set s)"

subsection \<open>Walks over inheritance\<close>

text \<open>\<^verbatim>\<open>iter().any(f)\<close> and a plain loop, over a body that updates a state.\<close>

primrec any_loop :: "('a \<Rightarrow> 's \<Rightarrow> 'e + bool \<times> 's) \<Rightarrow> 'a list \<Rightarrow> 's \<Rightarrow> 'e + bool \<times> 's" where
  "any_loop f [] s = Inr (False, s)"
| "any_loop f (x # xs) s = rbind (f x s) (\<lambda>(b, s). if b then Inr (True, s) else any_loop f xs s)"

primrec for_loop :: "('a \<Rightarrow> 's \<Rightarrow> 'e + 's) \<Rightarrow> 'a list \<Rightarrow> 's \<Rightarrow> 'e + 's" where
  "for_loop f [] s = Inr s"
| "for_loop f (x # xs) s = rbind (f x s) (for_loop f xs)"

primrec check :: "nat \<Rightarrow> role_store \<Rightarrow> privilege \<Rightarrow> object \<Rightarrow> rstr \<Rightarrow> rstr list
    \<Rightarrow> (unit, bool \<times> rstr list) res" where
  "check 0 st p obj rl visited = Inl OutOfFuel"
| "check (Suc n) st p obj rl visited =
    (if rl \<in> set visited then Inr (False, visited)
     else
       let visited = bs_insert rl visited in
       case bt_get st rl of
         None \<Rightarrow> Inr (False, visited)
       | Some r \<Rightarrow>
           if grants_contains (grants r) Global Admin then Inr (True, visited)
           else if grants_contains (grants r) obj p \<or> grants_contains (grants r) Global p then Inr (True, visited)
           else if grants_contains (grants r) obj Admin then Inr (True, visited)
           else any_loop (check n st p obj) (inherits r) visited)"

definition has_privilege :: "rstr \<Rightarrow> privilege \<Rightarrow> object \<Rightarrow> role_store \<Rightarrow> (unit, bool) res" where
  "has_privilege rl p obj st = rbind (check (length st + 1) st p obj rl []) (\<lambda>(b, _). Inr b)"

primrec collect_columns :: "nat \<Rightarrow> role_store \<Rightarrow> privilege \<Rightarrow> rstr \<Rightarrow> rstr \<Rightarrow> rstr list \<times> rstr list
    \<Rightarrow> (unit, rstr list \<times> rstr list) res" where
  "collect_columns 0 st p table rl s = Inl OutOfFuel"
| "collect_columns (Suc n) st p table rl s =
    (let (visited, out) = s in
     if rl \<in> set visited then Inr (visited, out)
     else
       let visited = bs_insert rl visited in
       case bt_get st rl of
         None \<Rightarrow> Inr (visited, out)
       | Some r \<Rightarrow>
           let out = fold (\<lambda>(obj, privs) out. case obj of
                 Column t c \<Rightarrow> if t = table \<and> p \<in> set privs then bs_insert c out else out
               | _ \<Rightarrow> out) (grants r) out
           in for_loop (collect_columns n st p table) (inherits r) (visited, out))"

definition columns :: "rstr \<Rightarrow> privilege \<Rightarrow> rstr \<Rightarrow> role_store \<Rightarrow> (unit, rstr list) res" where
  "columns rl p table st = rbind (collect_columns (length st + 1) st p table rl ([], [])) (\<lambda>(_, out). Inr out)"

primrec collect_mqtt_filters :: "nat \<Rightarrow> role_store \<Rightarrow> privilege \<Rightarrow> rstr \<Rightarrow> rstr list \<times> rstr list
    \<Rightarrow> (unit, rstr list \<times> rstr list) res" where
  "collect_mqtt_filters 0 st p rl s = Inl OutOfFuel"
| "collect_mqtt_filters (Suc n) st p rl s =
    (let (visited, out) = s in
     if rl \<in> set visited then Inr (visited, out)
     else
       let visited = bs_insert rl visited in
       case bt_get st rl of
         None \<Rightarrow> Inr (visited, out)
       | Some r \<Rightarrow>
           let out = fold (\<lambda>(obj, privs) out. case obj of
                 MqttTopic f \<Rightarrow> if p \<in> set privs then out @ [f] else out
               | _ \<Rightarrow> out) (grants r) out
           in for_loop (collect_mqtt_filters n st p) (inherits r) (visited, out))"

text \<open>\<^verbatim>\<open>sort\<close> and \<^verbatim>\<open>dedup\<close>: consecutive equals collapse to the first.\<close>

fun dedup :: "'a list \<Rightarrow> 'a list" where
  "dedup [] = []"
| "dedup [x] = [x]"
| "dedup (x # y # zs) = (if x = y then dedup (x # zs) else x # dedup (y # zs))"

definition mqtt_filters :: "rstr \<Rightarrow> privilege \<Rightarrow> role_store \<Rightarrow> (unit, rstr list) res" where
  "mqtt_filters rl p st = rbind (collect_mqtt_filters (length st + 1) st p rl ([], [])) (\<lambda>(_, out).
     Inr (dedup (sort out)))"

section \<open>Ascending lists as sets\<close>

lemma set_bs_insert [simp]: "set (bs_insert x xs) = insert x (set xs)"
  by (auto simp: bs_insert_def set_insort_key)

lemma set_bs_remove [simp]: "set (bs_remove x xs) = set xs - {x}"
  by (auto simp: bs_remove_def)

definition ascending :: "'a::linorder list \<Rightarrow> bool" where
  "ascending xs \<longleftrightarrow> sorted xs \<and> distinct xs"

lemma ascending_insert [simp]: "ascending xs \<Longrightarrow> ascending (bs_insert x xs)"
  by (simp add: ascending_def bs_insert_def sorted_insort distinct_insort)

lemma ascending_remove [simp]: "ascending xs \<Longrightarrow> ascending (bs_remove x xs)"
  by (simp add: ascending_def bs_remove_def sorted_wrt_filter)

lemma ascending_Nil [simp]: "ascending []"
  by (simp add: ascending_def)

lemma set_dedup [simp]: "set (dedup xs) = set xs"
  by (induction xs rule: dedup.induct) auto

lemma ascending_dedup_sort: "ascending (dedup (sort xs))"
proof -
  have "sorted ys \<Longrightarrow> ascending (dedup ys)" for ys :: "'a list"
    by (induction ys rule: dedup.induct) (auto simp: ascending_def)
  then show ?thesis by simp
qed

section \<open>Walks with a visited set\<close>

definition edge :: "('r \<Rightarrow> 'r list option) \<Rightarrow> 'r \<Rightarrow> 'r \<Rightarrow> bool" where
  "edge succ a b \<longleftrightarrow> (\<exists>ps. succ a = Some ps \<and> b \<in> set ps)"

text \<open>The nodes a walk adds: they are reached from where it starts, and their successors are visited.\<close>

definition explored :: "('r \<Rightarrow> 'r list option) \<Rightarrow> 'r set \<Rightarrow> 'r set \<Rightarrow> 'r set \<Rightarrow> bool" where
  "explored succ roots V V' \<longleftrightarrow> V \<subseteq> V' \<and> roots \<subseteq> V'
     \<and> (\<forall>v \<in> V' - V. (\<exists>r \<in> roots. (edge succ)\<^sup>*\<^sup>* r v) \<and> (\<forall>w. edge succ v w \<longrightarrow> w \<in> V'))"

lemma explored_refl: "r \<in> V \<Longrightarrow> explored succ {r} V V" "explored succ {} V V"
  by (simp_all add: explored_def)

lemma explored_leaf: "succ r = None \<Longrightarrow> explored succ {r} V (insert r V)"
  by (auto simp: explored_def edge_def)

lemma explored_seq:
  assumes "explored succ A V V1" and "explored succ B V1 V2"
  shows "explored succ (A \<union> B) V V2"
  unfolding explored_def
proof (intro conjI ballI)
  show "V \<subseteq> V2" "A \<union> B \<subseteq> V2" using assms by (auto simp: explored_def)
  fix v assume "v \<in> V2 - V"
  then consider "v \<in> V1 - V" | "v \<in> V2 - V1" by blast
  then have "(\<exists>r \<in> A \<union> B. (edge succ)\<^sup>*\<^sup>* r v) \<and> (\<forall>w. edge succ v w \<longrightarrow> w \<in> V2)"
  proof cases
    case 1
    with assms(1) have "\<exists>r \<in> A. (edge succ)\<^sup>*\<^sup>* r v" "\<forall>w. edge succ v w \<longrightarrow> w \<in> V1"
      by (simp_all add: explored_def)
    moreover have "V1 \<subseteq> V2" using assms(2) by (simp add: explored_def)
    ultimately show ?thesis by blast
  next
    case 2
    with assms(2) show ?thesis by (auto simp: explored_def)
  qed
  then show "\<exists>r \<in> A \<union> B. (edge succ)\<^sup>*\<^sup>* r v" "\<forall>w. edge succ v w \<longrightarrow> w \<in> V2" by blast+
qed

lemma explored_node:
  assumes "succ r = Some ps" and "explored succ (set ps) (insert r V) V'"
  shows "explored succ {r} V V'"
proof -
  have step: "edge succ r p \<longleftrightarrow> p \<in> set ps" for p using assms(1) by (simp add: edge_def)
  have sub: "insert r V \<subseteq> V'" "set ps \<subseteq> V'" using assms(2) by (simp_all add: explored_def)
  have "(edge succ)\<^sup>*\<^sup>* r v \<and> (\<forall>w. edge succ v w \<longrightarrow> w \<in> V')" if v: "v \<in> V' - V" for v
  proof (cases "v = r")
    case True
    with step sub show ?thesis by auto
  next
    case False
    with v assms(2) obtain p where "p \<in> set ps" "(edge succ)\<^sup>*\<^sup>* p v" "\<forall>w. edge succ v w \<longrightarrow> w \<in> V'"
      unfolding explored_def by blast
    moreover from this step have "(edge succ)\<^sup>*\<^sup>* r v" by (meson converse_rtranclp_into_rtranclp)
    ultimately show ?thesis by blast
  qed
  with sub show ?thesis by (simp add: explored_def)
qed

text \<open>From nothing visited, a walk visits exactly what is reachable.\<close>

lemma explored_all:
  assumes "explored succ {r} {} V"
  shows "V = {v. (edge succ)\<^sup>*\<^sup>* r v}"
proof -
  have c: "r \<in> V" "\<And>v w. v \<in> V \<Longrightarrow> edge succ v w \<Longrightarrow> w \<in> V" "\<And>v. v \<in> V \<Longrightarrow> (edge succ)\<^sup>*\<^sup>* r v"
    using assms unfolding explored_def by simp_all
  have "v \<in> V" if "(edge succ)\<^sup>*\<^sup>* r v" for v
    using that by induction (use c in blast)+
  with c(3) show ?thesis by blast
qed

locale visited_walk =
  fixes succ :: "'r::linorder \<Rightarrow> 'r list option" and visit :: "'r \<Rightarrow> 's \<Rightarrow> 's"
    and walk :: "nat \<Rightarrow> 'r \<Rightarrow> 'r list \<times> 's \<Rightarrow> (unit, 'r list \<times> 's) res" and known :: "'r set"
  assumes walk_Suc: "walk (Suc n) r (V, acc) =
      (if r \<in> set V then Inr (V, acc)
       else case succ r of
         None \<Rightarrow> Inr (bs_insert r V, acc)
       | Some ps \<Rightarrow> for_loop (walk n) ps (bs_insert r V, visit r acc))"
    and walk_0: "walk 0 r s = Inl OutOfFuel"
    and finite_known: "finite known"
    and known: "succ r \<noteq> None \<Longrightarrow> r \<in> known"
begin

lemma walk_explores:
  "walk n r (V, acc) = Inr (V', acc') \<Longrightarrow>
   explored succ {r} (set V) (set V')
   \<and> (\<exists>order. set order = {v \<in> set V' - set V. succ v \<noteq> None} \<and> acc' = fold visit order acc)"
proof (induction n arbitrary: r V acc V' acc')
  case 0
  then show ?case by (simp add: walk_0)
next
  case (Suc n)
  have loop: "for_loop (walk n) ps (V, acc) = Inr (V', acc') \<Longrightarrow>
      explored succ (set ps) (set V) (set V')
      \<and> (\<exists>order. set order = {v \<in> set V' - set V. succ v \<noteq> None} \<and> acc' = fold visit order acc)"
    for ps V acc V' acc'
  proof (induction ps arbitrary: V acc)
    case Nil
    then show ?case by (auto simp: explored_refl intro: exI[of _ "[]"])
  next
    case (Cons p ps)
    then obtain V1 a1 where 1: "walk n p (V, acc) = Inr (V1, a1)" "for_loop (walk n) ps (V1, a1) = Inr (V', acc')"
      by (auto simp: rbind_eq_Inr)
    from Suc.IH[OF 1(1)] obtain o1 where o1: "explored succ {p} (set V) (set V1)"
      "set o1 = {v \<in> set V1 - set V. succ v \<noteq> None}" "a1 = fold visit o1 acc" by blast
    from Cons.IH[OF 1(2)] obtain o2 where o2: "explored succ (set ps) (set V1) (set V')"
      "set o2 = {v \<in> set V' - set V1. succ v \<noteq> None}" "acc' = fold visit o2 a1" by blast
    have "set (o1 @ o2) = {v \<in> set V' - set V. succ v \<noteq> None}"
      using o1 o2 by (auto simp: explored_def)
    moreover have "acc' = fold visit (o1 @ o2) acc" using o1 o2 by simp
    moreover have "explored succ (set (p # ps)) (set V) (set V')"
      using explored_seq[OF o1(1) o2(1)] by simp
    ultimately show ?case by blast
  qed
  show ?case
  proof (cases "r \<in> set V")
    case True
    then show ?thesis using Suc.prems by (auto simp: walk_Suc explored_refl intro: exI[of _ "[]"])
  next
    case new: False
    show ?thesis
    proof (cases "succ r")
      case None
      then show ?thesis
        using Suc.prems new by (auto simp: walk_Suc explored_leaf intro: exI[of _ "[]"])
    next
      case (Some ps)
      then have l: "for_loop (walk n) ps (bs_insert r V, visit r acc) = Inr (V', acc')"
        using Suc.prems new by (simp add: walk_Suc)
      from loop[OF l] obtain order where order: "explored succ (set ps) (insert r (set V)) (set V')"
        "set order = {v \<in> set V' - insert r (set V). succ v \<noteq> None}" "acc' = fold visit order (visit r acc)"
        by auto
      have "set (r # order) = {v \<in> set V' - set V. succ v \<noteq> None}"
        using order Some new by (auto simp: explored_def)
      then show ?thesis
        using explored_node[OF Some order(1)] order(3) by (metis fold_simps(2))
    qed
  qed
qed

lemma walk_total: "card (known - set V) < n \<Longrightarrow> \<exists>s. walk n r (V, acc) = Inr s"
proof (induction n arbitrary: r V acc)
  case (Suc n)
  have loop: "card (known - set V) < n \<Longrightarrow> \<exists>s. for_loop (walk n) ps (V, acc) = Inr s" for ps V acc
  proof (induction ps arbitrary: V acc)
    case (Cons p ps)
    from Suc.IH[OF Cons.prems] obtain V1 a1 where 1: "walk n p (V, acc) = Inr (V1, a1)" by fastforce
    then have "set V \<subseteq> set V1" using walk_explores by (simp add: explored_def)
    then have "card (known - set V1) \<le> card (known - set V)"
      using finite_known by (intro card_mono) auto
    with Cons.prems have "card (known - set V1) < n" by simp
    from Cons.IH[OF this] 1 show ?case by simp
  qed simp
  show ?case
  proof (cases "r \<in> set V \<or> succ r = None")
    case False
    then obtain ps where "succ r = Some ps" "r \<in> known - set V" using known by auto
    moreover have "card (known - insert r (set V)) < card (known - set V)"
      using finite_known \<open>r \<in> known - set V\<close> by (intro psubset_card_mono) auto
    ultimately show ?thesis
      using False Suc.prems loop[of "bs_insert r V"] by (simp add: walk_Suc)
  qed (auto simp: walk_Suc)
qed simp

text \<open>A walk from nothing visited, with enough fuel: every reachable node that exists is visited.\<close>

lemma walk_all:
  assumes "card known < n"
  shows "\<exists>V order. walk n r ([], acc) = Inr (V, fold visit order acc)
     \<and> set order = {v. (edge succ)\<^sup>*\<^sup>* r v \<and> succ v \<noteq> None}"
proof -
  have "card (known - set []) < n" using assms by simp
  then obtain V a where w: "walk n r ([], acc) = Inr (V, a)" using walk_total by fastforce
  with walk_explores[OF w] explored_all[of succ r "set V"] show ?thesis by auto
qed

end

section \<open>Privileges\<close>

definition parents :: "role_store \<Rightarrow> rstr \<Rightarrow> rstr list option" where
  "parents st rl = map_option inherits (bt_get st rl)"

text \<open>\<open>member_of st a b\<close>: role \<open>a\<close> is \<open>b\<close> or inherits it, through any number of existing roles.\<close>

abbreviation member_of :: "role_store \<Rightarrow> rstr \<Rightarrow> rstr \<Rightarrow> bool" where
  "member_of st \<equiv> (edge (parents st))\<^sup>*\<^sup>*"

text \<open>What the grants held by one role itself allow.\<close>

definition allows :: "(object, privilege list) btree \<Rightarrow> privilege \<Rightarrow> object \<Rightarrow> bool" where
  "allows gs p obj \<longleftrightarrow> grants_contains gs Global Admin \<or> grants_contains gs obj p
     \<or> grants_contains gs Global p \<or> grants_contains gs obj Admin"

definition direct :: "role_store \<Rightarrow> privilege \<Rightarrow> object \<Rightarrow> rstr \<Rightarrow> bool" where
  "direct st p obj rl \<longleftrightarrow> (\<exists>r. bt_get st rl = Some r \<and> allows (grants r) p obj)"

lemma known_roles: "finite (fst ` set st)" "parents st r \<noteq> None \<Longrightarrow> r \<in> fst ` set st"
  using bt_get_None[of st r] by (auto simp: parents_def)

lemma card_known: "card (fst ` set st) < length st + 1"
  using card_image_le[of "set st" fst] card_length[of st] by simp

lemma check_Suc:
  "check (Suc n) st p obj rl V =
    (if rl \<in> set V then Inr (False, V)
     else case parents st rl of
       None \<Rightarrow> Inr (False, bs_insert rl V)
     | Some ps \<Rightarrow> if direct st p obj rl then Inr (True, bs_insert rl V)
                  else any_loop (check n st p obj) ps (bs_insert rl V))"
  by (simp add: parents_def direct_def allows_def Let_def split: option.splits)

declare check.simps(2) [simp del]

definition check_result :: "role_store \<Rightarrow> privilege \<Rightarrow> object \<Rightarrow> rstr set \<Rightarrow> rstr set \<Rightarrow> bool \<Rightarrow> rstr set \<Rightarrow> bool" where
  "check_result st p obj roots V b V' \<longleftrightarrow>
    (if b then \<exists>r \<in> roots. \<exists>v. member_of st r v \<and> direct st p obj v
     else explored (parents st) roots V V' \<and> (\<forall>v \<in> V' - V. \<not> direct st p obj v))"

lemma check_result_seq:
  assumes "check_result st p obj A V False V1" and "check_result st p obj B V1 b V2"
  shows "check_result st p obj (A \<union> B) V b V2"
proof (cases b)
  case True
  with assms(2) show ?thesis by (auto simp: check_result_def)
next
  case False
  with assms have "explored (parents st) (A \<union> B) V V2" by (auto simp: check_result_def intro: explored_seq)
  with False assms show ?thesis by (auto simp: check_result_def)
qed

lemma check_explores:
  "check n st p obj rl V = Inr (b, V') \<Longrightarrow> check_result st p obj {rl} (set V) b (set V')"
proof (induction n arbitrary: rl V b V')
  case (Suc n)
  have loop: "any_loop (check n st p obj) ps V = Inr (b, V') \<Longrightarrow> check_result st p obj (set ps) (set V) b (set V')"
    for ps V b V'
  proof (induction ps arbitrary: V)
    case Nil
    then show ?case by (simp add: check_result_def explored_refl)
  next
    case (Cons q ps)
    then obtain b1 V1 where 1: "check n st p obj q V = Inr (b1, V1)"
      "(if b1 then Inr (True, V1) else any_loop (check n st p obj) ps V1) = Inr (b, V')"
      by (auto simp: rbind_eq_Inr)
    show ?case
    proof (cases b1)
      case True
      with 1 Suc.IH[OF 1(1)] show ?thesis by (auto simp: check_result_def)
    next
      case False
      with 1 Suc.IH[OF 1(1)] Cons.IH[of V1] check_result_seq[of st p obj "{q}" "set V" "set V1" "set ps" b "set V'"]
      show ?thesis by simp
    qed
  qed
  consider "rl \<in> set V" | "rl \<notin> set V" "parents st rl = None"
    | ps where "rl \<notin> set V" "parents st rl = Some ps" "direct st p obj rl"
    | ps where "rl \<notin> set V" "parents st rl = Some ps" "\<not> direct st p obj rl"
    by (cases "parents st rl") auto
  then show ?case
  proof cases
    case 1
    with Suc.prems show ?thesis by (auto simp: check_Suc check_result_def explored_refl)
  next
    case 2
    then have "\<not> direct st p obj rl" by (simp add: direct_def parents_def)
    with 2 Suc.prems show ?thesis by (auto simp: check_Suc check_result_def explored_leaf)
  next
    case 3
    with Suc.prems show ?thesis by (auto simp: check_Suc check_result_def)
  next
    case (4 ps)
    with Suc.prems have r: "check_result st p obj (set ps) (insert rl (set V)) b (set V')"
      using loop[of ps "bs_insert rl V" b V'] by (simp add: check_Suc)
    have edge: "q \<in> set ps \<Longrightarrow> member_of st q v \<Longrightarrow> member_of st rl v" for q v
      using 4(2) by (auto simp: edge_def intro: converse_rtranclp_into_rtranclp)
    show ?thesis
    proof (cases b)
      case True
      with r edge show ?thesis by (auto simp: check_result_def)
    next
      case False
      with r have "explored (parents st) {rl} (set V) (set V')"
        using explored_node[of "parents st" rl ps "set V" "set V'"] 4(2) by (simp add: check_result_def)
      with r False 4(3) show ?thesis by (auto simp: check_result_def)
    qed
  qed
qed simp

lemma check_total: "card (fst ` set st - set V) < n \<Longrightarrow> \<exists>s. check n st p obj rl V = Inr s"
proof (induction n arbitrary: rl V)
  case (Suc n)
  have loop: "card (fst ` set st - set V) < n \<Longrightarrow> \<exists>s. any_loop (check n st p obj) ps V = Inr s" for ps V
  proof (induction ps arbitrary: V)
    case (Cons q ps)
    from Suc.IH[OF Cons.prems] obtain b V1 where 1: "check n st p obj q V = Inr (b, V1)" by fastforce
    show ?case
    proof (cases b)
      case False
      with check_explores[OF 1] have "set V \<subseteq> set V1" by (simp add: check_result_def explored_def)
      then have "card (fst ` set st - set V1) \<le> card (fst ` set st - set V)"
        by (intro card_mono) auto
      with Cons.prems have "card (fst ` set st - set V1) < n" by simp
      from Cons.IH[OF this] 1 False show ?thesis by simp
    qed (use 1 in auto)
  qed auto
  show ?case
  proof (cases "rl \<in> set V \<or> parents st rl = None")
    case False
    then obtain ps where ps: "parents st rl = Some ps" "rl \<in> fst ` set st - set V"
      using known_roles(2)[of st rl] by auto
    then have "card (fst ` set st - insert rl (set V)) < card (fst ` set st - set V)"
      by (intro psubset_card_mono) auto
    with ps Suc.prems loop[of "bs_insert rl V" ps] False show ?thesis by (auto simp: check_Suc)
  qed (auto simp: check_Suc)
qed simp

lemma has_privilege_reachable:
  "has_privilege rl p obj st = Inr (\<exists>r. member_of st rl r \<and> direct st p obj r)"
proof -
  have "card (fst ` set st - set []) < length st + 1" using card_known by simp
  then obtain b V where c: "check (length st + 1) st p obj rl [] = Inr (b, V)"
    using check_total by fastforce
  have "b = (\<exists>r. member_of st rl r \<and> direct st p obj r)"
  proof (cases b)
    case True
    with check_explores[OF c] show ?thesis by (simp add: check_result_def)
  next
    case False
    with check_explores[OF c] have "explored (parents st) {rl} {} (set V)" "\<forall>v \<in> set V. \<not> direct st p obj v"
      by (simp_all add: check_result_def)
    moreover from this(1) have "set V = {v. member_of st rl v}" by (rule explored_all)
    ultimately show ?thesis using False by auto
  qed
  with c show ?thesis by (simp add: has_privilege_def)
qed

section \<open>Collected columns and filters\<close>

definition visit_columns :: "role_store \<Rightarrow> privilege \<Rightarrow> rstr \<Rightarrow> rstr \<Rightarrow> rstr list \<Rightarrow> rstr list" where
  "visit_columns st p table rl out = (case bt_get st rl of None \<Rightarrow> out
   | Some r \<Rightarrow> fold (\<lambda>(obj, privs) out. case obj of
        Column t c \<Rightarrow> if t = table \<and> p \<in> set privs then bs_insert c out else out | _ \<Rightarrow> out) (grants r) out)"

definition visit_filters :: "role_store \<Rightarrow> privilege \<Rightarrow> rstr \<Rightarrow> rstr list \<Rightarrow> rstr list" where
  "visit_filters st p rl out = (case bt_get st rl of None \<Rightarrow> out
   | Some r \<Rightarrow> fold (\<lambda>(obj, privs) out. case obj of
        MqttTopic f \<Rightarrow> if p \<in> set privs then out @ [f] else out | _ \<Rightarrow> out) (grants r) out)"

interpretation cols: visited_walk "parents st" "visit_columns st p table" "\<lambda>n. collect_columns n st p table" "fst ` set st"
  for st p table
  by unfold_locales
    (simp_all add: known_roles parents_def visit_columns_def Let_def split: option.splits)

interpretation filters: visited_walk "parents st" "visit_filters st p" "\<lambda>n. collect_mqtt_filters n st p" "fst ` set st"
  for st p
  by unfold_locales
    (simp_all add: known_roles parents_def visit_filters_def Let_def split: option.splits)

section \<open>The store's invariant\<close>

definition wf_role :: "role \<Rightarrow> bool" where
  "wf_role r \<longleftrightarrow> bt_sorted (grants r) \<and> ascending (inherits r) \<and> (\<forall>ps \<in> snd ` set (grants r). ascending ps)"

definition wf_store :: "role_store \<Rightarrow> bool" where
  "wf_store st \<longleftrightarrow> bt_sorted st \<and> (\<forall>r \<in> snd ` set st. wf_role r)"

lemma wf_store_get: "wf_store st \<Longrightarrow> bt_get st n = Some r \<Longrightarrow> wf_role r"
  by (force simp: wf_store_def dest: bt_get_SomeD)

lemma wf_store_insert: "wf_store st \<Longrightarrow> wf_role r \<Longrightarrow> wf_store (bt_insert n r st)"
  by (auto simp: wf_store_def dest!: set_bt_insertD)

lemma wf_store_remove: "wf_store st \<Longrightarrow> wf_store (bt_remove n st)"
  by (auto simp: wf_store_def bt_remove_def[of n st, symmetric]) (auto simp: bt_remove_def)

lemma snd_bt_update: "x \<in> snd ` set (bt_update k f m) \<Longrightarrow> \<exists>v \<in> snd ` set m. x = v \<or> x = f v"
  by (force simp: bt_update_def)

lemma wf_store_update: "wf_store st \<Longrightarrow> (\<And>r. wf_role r \<Longrightarrow> wf_role (f r)) \<Longrightarrow> wf_store (bt_update n f st)"
  using snd_bt_update[of _ n f st] by (fastforce simp: wf_store_def)

lemma wf_role_default [simp]: "wf_role role_default"
  by (simp add: wf_role_def role_default_def)

lemma wf_role_grant: "wf_role r \<Longrightarrow> wf_role (r\<lparr>grants := or_default obj [] (bs_insert p) (grants r)\<rparr>)"
  by (force simp: wf_role_def or_default_def dest!: set_bt_insertD bt_get_SomeD split: option.splits)

lemma wf_role_revoke: "wf_role r \<Longrightarrow> wf_role (r\<lparr>grants := bt_update obj (bs_remove p) (grants r)\<rparr>)"
  by (auto simp: wf_role_def) (auto simp: bt_update_def)

lemma wf_role_inherits: "wf_role r \<Longrightarrow> wf_role (r\<lparr>inherits := bs_insert q (inherits r)\<rparr>)"
  "wf_role r \<Longrightarrow> wf_role (r\<lparr>inherits := bs_remove q (inherits r)\<rparr>)"
  by (simp_all add: wf_role_def)

text \<open>The stores an administrator can reach from the empty one.\<close>

inductive administered :: "role_store \<Rightarrow> bool" where
  new: "administered store_new"
| create: "administered st \<Longrightarrow> create_role n st = Inr st' \<Longrightarrow> administered st'"
| superuser: "administered st \<Longrightarrow> administered (create_superuser n st)"
| drop: "administered st \<Longrightarrow> drop_role n st = Inr st' \<Longrightarrow> administered st'"
| grant: "administered st \<Longrightarrow> grant n p obj st = Inr st' \<Longrightarrow> administered st'"
| revoke: "administered st \<Longrightarrow> revoke n p obj st = Inr st' \<Longrightarrow> administered st'"
| grant_role: "administered st \<Longrightarrow> grant_role m q st = Inr st' \<Longrightarrow> administered st'"
| revoke_role: "administered st \<Longrightarrow> administered (revoke_role m q st)"

lemma administered_wf: "administered st \<Longrightarrow> wf_store st"
proof (induction rule: administered.induct)
  case new
  show ?case by (simp add: store_new_def wf_store_def)
next
  case (create st n st')
  then show ?case by (auto simp: create_role_def wf_store_insert split: if_splits)
next
  case (superuser st n)
  then show ?case
    by (auto simp: create_superuser_def or_default_def[of n] intro!: wf_store_insert wf_role_grant
        dest: wf_store_get split: option.splits)
next
  case (drop st n st')
  then show ?case by (auto simp: drop_role_def wf_store_remove split: option.splits)
next
  case (grant st n p obj st')
  then show ?case by (auto simp: Rbac.grant_def intro!: wf_store_update wf_role_grant split: option.splits)
next
  case (revoke st n p obj st')
  then show ?case by (auto simp: revoke_def intro!: wf_store_update wf_role_revoke split: option.splits)
next
  case (grant_role st m q st')
  then show ?case
    by (auto simp: grant_role_def intro!: wf_store_update wf_role_inherits split: option.splits if_splits)
next
  case (revoke_role st m q)
  then show ?case by (auto simp: revoke_role_def intro!: wf_store_update wf_role_inherits)
qed

lemma administered_sorted: "administered st \<Longrightarrow> bt_get st n = Some r \<Longrightarrow> bt_sorted (grants r)"
  using administered_wf wf_store_get by (auto simp: wf_role_def)

section \<open>What the walks collect\<close>

lemma grants_contains_iff: "bt_sorted gs \<Longrightarrow> grants_contains gs obj p \<longleftrightarrow> (\<exists>ps. (obj, ps) \<in> set gs \<and> p \<in> set ps)"
  by (cases "bt_get gs obj") (auto simp: grants_contains_def bt_get_Some_iff[symmetric])

lemma set_visit_columns:
  assumes "bt_get st rl = Some r" and "bt_sorted (grants r)"
  shows "set (visit_columns st p table rl out) = set out \<union> {c. grants_contains (grants r) (Column table c) p}"
proof -
  have "set (fold (\<lambda>(obj, privs) out. case obj of
        Column t c \<Rightarrow> if t = table \<and> p \<in> set privs then bs_insert c out else out | _ \<Rightarrow> out) gs out)
      = set out \<union> {c. \<exists>ps. (Column table c, ps) \<in> set gs \<and> p \<in> set ps}" for gs out
    by (induction gs arbitrary: out) (auto split: object.splits if_splits)
  with assms show ?thesis by (simp add: visit_columns_def grants_contains_iff)
qed

lemma set_visit_filters:
  assumes "bt_get st rl = Some r" and "bt_sorted (grants r)"
  shows "set (visit_filters st p rl out) = set out \<union> {f. grants_contains (grants r) (MqttTopic f) p}"
proof -
  have "set (fold (\<lambda>(obj, privs) out. case obj of
        MqttTopic f \<Rightarrow> if p \<in> set privs then out @ [f] else out | _ \<Rightarrow> out) gs out)
      = set out \<union> {f. \<exists>ps. (MqttTopic f, ps) \<in> set gs \<and> p \<in> set ps}" for gs out
    by (induction gs arbitrary: out) (auto split: object.splits if_splits)
  with assms show ?thesis by (simp add: visit_filters_def grants_contains_iff)
qed

definition holds :: "role_store \<Rightarrow> privilege \<Rightarrow> object \<Rightarrow> rstr \<Rightarrow> bool" where
  "holds st p obj rl \<longleftrightarrow> (\<exists>r. bt_get st rl = Some r \<and> grants_contains (grants r) obj p)"

lemma set_fold_visit:
  assumes "\<And>r out. r \<in> set order \<Longrightarrow> set (visit r out) = set out \<union> g r"
  shows "set (fold visit order out) = set out \<union> (\<Union>r \<in> set order. g r)"
  using assms by (induction order arbitrary: out) auto

lemma ascending_fold: "(\<And>x out. ascending out \<Longrightarrow> ascending (f x out)) \<Longrightarrow> ascending out \<Longrightarrow> ascending (fold f xs out)"
  by (induction xs arbitrary: out) auto

lemma columns_collected:
  assumes "administered st"
  shows "\<exists>cs. columns rl p table st = Inr cs \<and> ascending cs
    \<and> set cs = {c. \<exists>r. member_of st rl r \<and> holds st p (Column table c) r}"
proof -
  obtain V order where w: "collect_columns (length st + 1) st p table rl ([], []) = Inr (V, fold (visit_columns st p table) order [])"
    "set order = {v. member_of st rl v \<and> parents st v \<noteq> None}"
    using cols.walk_all[OF card_known, of st p table rl "[]"] by blast
  have "set (fold (visit_columns st p table) order []) = (\<Union>r \<in> set order. {c. holds st p (Column table c) r})"
    by (subst set_fold_visit[of order _ "\<lambda>r. {c. holds st p (Column table c) r}"])
      (auto simp: w(2) parents_def holds_def set_visit_columns administered_sorted[OF assms])
  moreover have "ascending (fold (visit_columns st p table) order [])"
  proof (rule ascending_fold)
    show "ascending (visit_columns st p table x out)" if "ascending out" for x and out :: "rstr list"
      using that by (auto simp: visit_columns_def split: option.splits intro!: ascending_fold split: object.splits)
  qed simp
  ultimately show ?thesis
    using w by (auto simp: columns_def parents_def holds_def)
qed

lemma filters_collected:
  assumes "administered st"
  shows "\<exists>fs. mqtt_filters rl p st = Inr fs \<and> ascending fs
    \<and> set fs = {f. \<exists>r. member_of st rl r \<and> holds st p (MqttTopic f) r}"
proof -
  obtain V order where w: "collect_mqtt_filters (length st + 1) st p rl ([], []) = Inr (V, fold (visit_filters st p) order [])"
    "set order = {v. member_of st rl v \<and> parents st v \<noteq> None}"
    using filters.walk_all[OF card_known, of st p rl "[]"] by blast
  have "set (fold (visit_filters st p) order []) = (\<Union>r \<in> set order. {f. holds st p (MqttTopic f) r})"
    by (subst set_fold_visit[of order _ "\<lambda>r. {f. holds st p (MqttTopic f) r}"])
      (auto simp: w(2) parents_def holds_def set_visit_filters administered_sorted[OF assms])
  then show ?thesis
    using w ascending_dedup_sort by (auto simp: mqtt_filters_def parents_def holds_def)
qed

section \<open>Effects of administration\<close>

lemma grants_contains_or_default:
  "grants_contains (or_default obj [] (bs_insert p) gs) ob q \<longleftrightarrow> grants_contains gs ob q \<or> ob = obj \<and> q = p"
  by (auto simp: grants_contains_def or_default_def split: option.splits)

lemma grants_contains_bt_update:
  "grants_contains (bt_update obj (bs_remove p) gs) ob q \<longleftrightarrow> grants_contains gs ob q \<and> \<not> (ob = obj \<and> q = p)"
  by (auto simp: grants_contains_def split: option.splits)

lemma parents_update: "(\<And>r. inherits (f r) = inherits r) \<Longrightarrow> parents (bt_update n f st) = parents st"
  by (auto simp: parents_def fun_eq_iff option.map_comp comp_def split: option.splits)

text \<open>The requests that a grant of \<open>p\<close> on \<open>obj\<close> answers.\<close>

definition covers :: "privilege \<Rightarrow> object \<Rightarrow> privilege \<Rightarrow> object \<Rightarrow> bool" where
  "covers p obj q ob \<longleftrightarrow> (p = Admin \<and> obj = Global) \<or> (p = q \<and> (obj = ob \<or> obj = Global)) \<or> (p = Admin \<and> obj = ob)"

lemma direct_grant:
  assumes "grant n p obj st = Inr st'"
  shows "parents st' = parents st" and "direct st' q ob r \<longleftrightarrow> direct st q ob r \<or> r = n \<and> covers p obj q ob"
proof -
  from assms obtain x where x: "bt_get st n = Some x"
    and st': "st' = bt_update n (\<lambda>r. r\<lparr>grants := or_default obj [] (bs_insert p) (grants r)\<rparr>) st"
    by (auto simp: grant_def split: option.splits)
  show "parents st' = parents st" unfolding st' by (rule parents_update) simp
  show "direct st' q ob r \<longleftrightarrow> direct st q ob r \<or> r = n \<and> covers p obj q ob"
    using x by (auto simp: st' direct_def allows_def grants_contains_or_default covers_def)
qed

section \<open>The access control list\<close>

text \<open>What the store stands for: the roles, the privileges granted to each on each object, the memberships. The
  specification of every operation is on these sets.\<close>

record acl =
  acl_roles :: "rstr set"
  acl_grants :: "(rstr \<times> privilege \<times> object) set"
  acl_members :: "(rstr \<times> rstr) set"

datatype command = CreateRole rstr | CreateSuperuser rstr | DropRole rstr | GrantTo rstr privilege object
  | RevokeFrom rstr privilege object | GrantRole rstr rstr | RevokeRole rstr rstr

definition acl_of :: "role_store \<Rightarrow> acl" where
  "acl_of st = \<lparr>acl_roles = {n. role_exists n st}, acl_grants = {(n, p, obj). holds st p obj n},
     acl_members = {(m, q). \<exists>r. bt_get st m = Some r \<and> q \<in> set (inherits r)}\<rparr>"

primrec acl_step :: "command \<Rightarrow> acl \<Rightarrow> rbac_error + acl" where
  "acl_step (CreateRole n) A = (if n \<in> acl_roles A then Inl (RoleExists n) else Inr (A\<lparr>acl_roles := insert n (acl_roles A)\<rparr>))"
| "acl_step (CreateSuperuser n) A = Inr (A\<lparr>acl_roles := insert n (acl_roles A), acl_grants := insert (n, Admin, Global) (acl_grants A)\<rparr>)"
| "acl_step (DropRole n) A = (if n \<notin> acl_roles A then Inl (NoSuchRole n) else Inr \<lparr>acl_roles = acl_roles A - {n},
     acl_grants = {x \<in> acl_grants A. fst x \<noteq> n}, acl_members = {x \<in> acl_members A. fst x \<noteq> n}\<rparr>)"
| "acl_step (GrantTo n p obj) A = (if n \<notin> acl_roles A then Inl (NoSuchRole n) else Inr (A\<lparr>acl_grants := insert (n, p, obj) (acl_grants A)\<rparr>))"
| "acl_step (RevokeFrom n p obj) A = (if n \<notin> acl_roles A then Inl (NoSuchRole n) else Inr (A\<lparr>acl_grants := acl_grants A - {(n, p, obj)}\<rparr>))"
| "acl_step (GrantRole m q) A = (if q \<notin> acl_roles A then Inl (NoSuchRole q) else if m \<notin> acl_roles A then Inl (NoSuchRole m)
     else Inr (A\<lparr>acl_members := insert (m, q) (acl_members A)\<rparr>))"
| "acl_step (RevokeRole m q) A = Inr (A\<lparr>acl_members := acl_members A - {(m, q)}\<rparr>)"

primrec run_command :: "command \<Rightarrow> role_store \<Rightarrow> (rbac_error, role_store) res" where
  "run_command (CreateRole n) st = create_role n st"
| "run_command (CreateSuperuser n) st = Inr (create_superuser n st)"
| "run_command (DropRole n) st = drop_role n st"
| "run_command (GrantTo n p obj) st = grant n p obj st"
| "run_command (RevokeFrom n p obj) st = revoke n p obj st"
| "run_command (GrantRole m q) st = grant_role m q st"
| "run_command (RevokeRole m q) st = Inr (revoke_role m q st)"

text \<open>A sequence of operations: the error of each, if it failed, and what is left.\<close>

primrec administer :: "command list \<Rightarrow> role_store \<Rightarrow> (rbac_error fault option) list \<times> role_store" where
  "administer [] st = ([], st)"
| "administer (c # cs) st = (case run_command c st of
     Inr st' \<Rightarrow> (let (es, st'') = administer cs st' in (None # es, st''))
   | Inl e \<Rightarrow> (let (es, st'') = administer cs st in (Some e # es, st'')))"

primrec acl_run :: "command list \<Rightarrow> acl \<Rightarrow> (rbac_error fault option) list \<times> acl" where
  "acl_run [] A = ([], A)"
| "acl_run (c # cs) A = (case acl_step c A of
     Inr A' \<Rightarrow> (let (es, A'') = acl_run cs A' in (None # es, A''))
   | Inl e \<Rightarrow> (let (es, A'') = acl_run cs A in (Some (Err e) # es, A'')))"

text \<open>A role may do what is granted to it or to a role it is a member of, through roles that exist.\<close>

definition acl_allows :: "acl \<Rightarrow> rstr \<Rightarrow> privilege \<Rightarrow> object \<Rightarrow> bool" where
  "acl_allows A rl p obj \<longleftrightarrow> (\<exists>r. (rl, r) \<in> (acl_members A)\<^sup>* \<and>
     ((r, Admin, Global) \<in> acl_grants A \<or> (r, p, obj) \<in> acl_grants A \<or> (r, p, Global) \<in> acl_grants A \<or> (r, Admin, obj) \<in> acl_grants A))"

lemma acl_ofI:
  assumes "\<And>n. role_exists n st \<longleftrightarrow> n \<in> acl_roles A" and "\<And>n p obj. holds st p obj n \<longleftrightarrow> (n, p, obj) \<in> acl_grants A"
    and "\<And>m q. (\<exists>r. bt_get st m = Some r \<and> q \<in> set (inherits r)) \<longleftrightarrow> (m, q) \<in> acl_members A"
  shows "acl_of st = A"
  using assms by (cases A) (auto simp: acl_of_def)

lemma acl_of_simps:
  "n \<in> acl_roles (acl_of st) \<longleftrightarrow> bt_get st n \<noteq> None" "(n, p, obj) \<in> acl_grants (acl_of st) \<longleftrightarrow> holds st p obj n"
  "(m, q) \<in> acl_members (acl_of st) \<longleftrightarrow> (\<exists>r. bt_get st m = Some r \<and> q \<in> set (inherits r))"
  by (simp_all add: acl_of_def role_exists_def)

lemma get_or_default: "bt_get (or_default k d f m) j = (if j = k then Some (f (case bt_get m k of None \<Rightarrow> d | Some v \<Rightarrow> v)) else bt_get m j)"
  by (simp add: or_default_def)

lemma run_command_refines:
  "case run_command c st of Inr st' \<Rightarrow> acl_step c (acl_of st) = Inr (acl_of st') | Inl (Err e) \<Rightarrow> acl_step c (acl_of st) = Inl e | _ \<Rightarrow> False"
proof -
  note defs = create_role_def create_superuser_def drop_role_def grant_def revoke_def grant_role_def revoke_role_def
  have ok: "acl_step c (acl_of st) = Inr (acl_of st')" if "run_command c st = Inr st'" for st'
    using that
    by (cases c) (auto simp: defs acl_of_simps holds_def role_exists_def role_default_def get_or_default
        grants_contains_or_default grants_contains_bt_update grants_contains_def[of "[]"] split: if_splits option.splits
        intro!: acl_ofI[symmetric])
  have "\<exists>e. run_command c st = Inl (Err e) \<and> acl_step c (acl_of st) = Inl e" if "run_command c st = Inl x" for x
    using that by (cases c) (auto simp: defs acl_of_simps split: if_splits option.splits)
  with ok show ?thesis by (fastforce split: sum.splits fault.splits)
qed

lemma has_privilege_acl: "has_privilege rl p obj st = Inr (acl_allows (acl_of st) rl p obj)"
proof -
  have "edge (parents st) = (\<lambda>a b. (a, b) \<in> acl_members (acl_of st))"
    by (auto simp: edge_def parents_def acl_of_simps fun_eq_iff)
  then have "member_of st rl r \<longleftrightarrow> (rl, r) \<in> (acl_members (acl_of st))\<^sup>*" for r
    by (simp add: rtranclp_rtrancl_eq)
  then show ?thesis
    by (auto simp: has_privilege_reachable direct_def allows_def acl_allows_def acl_of_simps holds_def)
qed

section \<open>Properties\<close>

text \<open>C3: A role may do something exactly when it, or a role it inherits from through any chain of
  existing roles, holds a grant that allows it: the privilege on the object or on everything, or Admin
  on the object or on everything. The visited set cuts cycles without losing a path, and the walk
  always ends.\<close>

theorem has_privilege_iff:
  "has_privilege rl p obj st =
    Inr (\<exists>r x. member_of st rl r \<and> bt_get st r = Some x \<and>
      (grants_contains (grants x) Global Admin \<or> grants_contains (grants x) obj p
       \<or> grants_contains (grants x) Global p \<or> grants_contains (grants x) obj Admin))"
  by (simp add: has_privilege_reachable direct_def allows_def)

text \<open>Granting a privilege gives it to the role and to everyone who inherits from it, and changes no
  other answer.\<close>

theorem grant_effect:
  assumes "grant n p obj st = Inr st'" and "has_privilege rl q ob st = Inr before"
  shows "has_privilege rl q ob st' = Inr (before \<or> member_of st rl n \<and> covers p obj q ob)"
  using assms(2) by (auto simp: has_privilege_reachable direct_grant[OF assms(1)])

theorem grant_effect_witness:
  "has_privilege [2] Insert (Table [9])
     [([1], \<lparr>grants = [(Table [9], [Insert])], inherits = []\<rparr>), ([2], \<lparr>grants = [], inherits = [[1]]\<rparr>)] = Inr True"
proof -
  let ?st = "[([1], \<lparr>grants = [], inherits = []\<rparr>), ([2], \<lparr>grants = [], inherits = [[1]]\<rparr>)] :: role_store"
  let ?st' = "[([1], \<lparr>grants = [(Table [9], [Insert])], inherits = []\<rparr>), ([2], \<lparr>grants = [], inherits = [[1]]\<rparr>)] :: role_store"
  have "grant [1] Insert (Table [9]) ?st = Inr ?st'"
    by (simp add: grant_def bt_update_def or_default_def bs_insert_def)
  moreover have "has_privilege [2] Insert (Table [9]) ?st = Inr False"
    by (simp add: has_privilege_def check_Suc parents_def direct_def allows_def grants_contains_def bs_insert_def)
  moreover have "member_of ?st [2] [1]"
    by (intro r_into_rtranclp) (simp add: edge_def parents_def)
  ultimately show ?thesis
    using grant_effect[of "[1]" Insert "Table [9]" ?st ?st' "[2]" Insert "Table [9]" False] by (simp add: covers_def)
qed

text \<open>The column set of a role is exactly the columns granted to it or to a role it inherits from,
  in order and without repetition, for every store administration can produce.\<close>

theorem columns_exact:
  assumes "administered st"
  shows "\<exists>cs. columns rl p table st = Inr cs \<and> ascending cs
    \<and> set cs = {c. \<exists>r. member_of st rl r \<and> holds st p (Column table c) r}"
  by (rule columns_collected[OF assms])

theorem columns_exact_witness:
  "\<exists>cs. columns [1] Insert [2] store_new = Inr cs \<and> ascending cs"
  using columns_exact[OF administered.new, of "[1]" Insert "[2]"] by blast

text \<open>The MQTT filters of a role are exactly the filters granted along its inheritance, sorted and
  without repetition.\<close>

theorem mqtt_filters_exact:
  assumes "administered st"
  shows "\<exists>fs. mqtt_filters rl p st = Inr fs \<and> ascending fs
    \<and> set fs = {f. \<exists>r. member_of st rl r \<and> holds st p (MqttTopic f) r}"
  by (rule filters_collected[OF assms])

theorem mqtt_filters_exact_witness: "\<exists>fs. mqtt_filters [1] Publish store_new = Inr fs \<and> ascending fs"
  using mqtt_filters_exact[OF administered.new, of "[1]" Publish] by blast

text \<open>C23: Whatever sequence of administrative operations runs on a role store, it is what the specification
  says of an access control list: who exists, who was granted what on what, who is a member of whom. Each
  operation fails exactly when it must, with the specified error, and otherwise changes exactly the entry
  it is about; creating a role that exists, granting to or inheriting from one that does not, and dropping
  one that does not are refused. In the store that results, a role has a privilege exactly when the list
  says so. A dropped role loses its grants and its own memberships; memberships in it remain, and hold
  again for a role that is later created under its name.\<close>

theorem administration_refines:
  "fst (administer cs st) = fst (acl_run cs (acl_of st)) \<and> acl_of (snd (administer cs st)) = snd (acl_run cs (acl_of st))
   \<and> has_privilege rl p obj (snd (administer cs st)) = Inr (acl_allows (snd (acl_run cs (acl_of st))) rl p obj)"
proof -
  have "fst (administer cs st) = fst (acl_run cs (acl_of st)) \<and> acl_of (snd (administer cs st)) = snd (acl_run cs (acl_of st))"
  proof (induction cs arbitrary: st)
    case (Cons c cs)
    show ?case using run_command_refines[of c st] Cons.IH
      by (simp add: case_prod_unfold Let_def split: sum.splits fault.splits)
  qed simp
  then show ?thesis by (simp add: has_privilege_acl)
qed

text \<open>Revoking removes exactly that direct grant from that role and leaves every other grant.\<close>

theorem revoke_effect:
  assumes "revoke n p obj st = Inr st'"
  shows "holds st' q ob r \<longleftrightarrow> holds st q ob r \<and> \<not> (r = n \<and> q = p \<and> ob = obj)"
proof -
  from assms have "st' = bt_update n (\<lambda>r. r\<lparr>grants := bt_update obj (bs_remove p) (grants r)\<rparr>) st"
    by (auto simp: revoke_def split: option.splits)
  then show ?thesis by (auto simp: holds_def grants_contains_bt_update)
qed

theorem revoke_effect_witness:
  "\<not> holds [([1], \<lparr>grants = [(Global, [])], inherits = []\<rparr>)] Admin Global [1]"
  using revoke_effect[of "[1]" Admin Global "[([1], \<lparr>grants = [(Global, [Admin])], inherits = []\<rparr>)]"
      "[([1], \<lparr>grants = [(Global, [])], inherits = []\<rparr>)]" Admin Global "[1]"]
  by (simp add: revoke_def bt_update_def bs_remove_def)

text \<open>A privilege's canonical name parses back to it, in any mixture of cases.\<close>

theorem privilege_name_roundtrip:
  "to_ascii_lowercase s = privilege_name p \<Longrightarrow> privilege_from_name s = Some p"
  by (cases p) (simp_all add: privilege_from_name_def privilege_name_def of_str_def)

theorem privilege_name_roundtrip_witness: "privilege_from_name (of_str ''GraNT'') = Some Grant"
  by (rule privilege_name_roundtrip) (simp add: to_ascii_lowercase_def privilege_name_def of_str_def)

end
