(* ===== verification/Decimal_Text.thy ===== *)
theory Decimal_Text
  imports Value "HOL-Library.Sublist"
begin

text \<open>
  Decimal numbers as text across the C interface (\<^verbatim>\<open>parse_decimal\<close> and \<^verbatim>\<open>decimal_text\<close> of
  \<^verbatim>\<open>skaidb-ffi/src/lib.rs\<close>), with the \<^verbatim>\<open>str::trim\<close> they start with.
\<close>

section \<open>Trimming\<close>

text \<open>The UTF-8 encodings of the characters with the Unicode property \<^verbatim>\<open>White_Space\<close>.\<close>

definition WHITE_SPACE :: "rstr list" where
  "WHITE_SPACE = map (\<lambda>b. [b]) [0x09, 0x0A, 0x0B, 0x0C, 0x0D, 0x20] @ [[0xC2, 0x85], [0xC2, 0xA0], [0xE1, 0x9A, 0x80]]
     @ map (\<lambda>b. [0xE2, 0x80, b]) [0x80, 0x81, 0x82, 0x83, 0x84, 0x85, 0x86, 0x87, 0x88, 0x89, 0x8A, 0xA8, 0xA9, 0xAF]
     @ [[0xE2, 0x81, 0x9F], [0xE3, 0x80, 0x80]]"

function trim_front :: "rstr list \<Rightarrow> rstr \<Rightarrow> rstr" where
  "trim_front W s = (case find (\<lambda>w. w \<noteq> [] \<and> prefix w s) W of
     None \<Rightarrow> s
   | Some w \<Rightarrow> trim_front W (drop (length w) s))"
  by pat_completeness auto
termination
  by (relation "measure (\<lambda>(W, s). length s)") (auto simp: find_Some_iff prefix_def)

declare trim_front.simps [simp del]

definition trim :: "rstr \<Rightarrow> rstr" where
  "trim s = rev (trim_front (map rev WHITE_SPACE) (rev (trim_front WHITE_SPACE s)))"

section \<open>Parsing and printing\<close>

definition is_digit :: "u8 \<Rightarrow> bool" where
  "is_digit b \<longleftrightarrow> 0x30 \<le> b \<and> b \<le> 0x39"

fun mantissa_loop :: "int \<Rightarrow> rstr \<Rightarrow> int option" where
  "mantissa_loop m [] = Some m"
| "mantissa_loop m (c # cs) =
    (if in_i128 (m * 10)
     then (let m' = m * 10 + uint (c - 0x30) in if in_i128 m' then mantissa_loop m' cs else None)
     else None)"

definition parse_decimal :: "rstr \<Rightarrow> decimal option" where
  "parse_decimal text =
    (let t = trim text;
         (neg, digits) = (case t of
            b # rest \<Rightarrow> if b = 0x2D then (True, rest) else if b = 0x2B then (False, rest) else (False, t)
          | [] \<Rightarrow> (False, t));
         (int_part, frac_part) = (case split_once 0x2E digits of Some p \<Rightarrow> p | None \<Rightarrow> (digits, []))
     in if int_part = [] \<and> frac_part = [] then None
        else if \<not> list_all is_digit int_part \<or> \<not> list_all is_digit frac_part then None
        else case mantissa_loop 0 (int_part @ frac_part) of
               None \<Rightarrow> None
             | Some m \<Rightarrow>
                 if length frac_part < 2 ^ 32
                 then Some (decimal_new (word_of_int (if neg then - m else m)) (word_of_nat (length frac_part))) else None)"

definition decimal_text :: "decimal \<Rightarrow> rstr" where
  "decimal_text d =
    (let neg = sint (mantissa d) < 0;
         digits = show_nat (nat \<bar>sint (mantissa d)\<bar>);
         sc = unat (scale d);
         body = (if sc = 0 then digits
                 else if length digits > sc then take (length digits - sc) digits @ [0x2E] @ drop (length digits - sc) digits
                 else of_str ''0.'' @ replicate (sc - length digits) 0x30 @ digits)
     in if neg then [0x2D] @ body else body)"

section \<open>Lemmas\<close>

lemma trim_front_stop: "(\<And>w. w \<in> set W \<Longrightarrow> w \<noteq> [] \<Longrightarrow> \<not> prefix w s) \<Longrightarrow> trim_front W s = s"
  by (subst trim_front.simps) (auto simp: find_None_iff split: option.splits dest!: find_Some_iff[THEN iffD1] intro: nth_mem)

definition ink :: "u8 \<Rightarrow> bool" where
  "ink b \<longleftrightarrow> 0x21 \<le> b \<and> b < 0x80"

lemma trim_ink:
  assumes "ink (hd s)" and "ink (last s)" and "s \<noteq> []"
  shows "trim s = s"
proof -
  have hd: "\<forall>w \<in> set WHITE_SPACE. \<not> ink (hd w)" and la: "\<forall>w \<in> set WHITE_SPACE. \<not> ink (last w)"
    by (simp_all add: WHITE_SPACE_def ink_def)
  have "trim_front WHITE_SPACE s = s"
    by (rule trim_front_stop) (use hd assms(1,3) in \<open>metis hd_append2 prefix_def\<close>)
  moreover have "trim_front (map rev WHITE_SPACE) (rev s) = rev s"
  proof (rule trim_front_stop)
    fix w assume "w \<in> set (map rev WHITE_SPACE)" "w \<noteq> []"
    then obtain v where v: "v \<in> set WHITE_SPACE" "w = rev v" "v \<noteq> []" by auto
    then have "\<not> ink (hd w)" using la by (simp add: hd_rev)
    then show "\<not> prefix w (rev s)" using assms(2,3) \<open>w \<noteq> []\<close> by (metis hd_append2 hd_rev prefix_def)
  qed
  ultimately show ?thesis by (simp add: trim_def)
qed

lemma dec_char_digit: "d < 10 \<Longrightarrow> is_digit (dec_char d) \<and> ink (dec_char d) \<and> uint (dec_char d - 0x30) = int d"
  by (drule less10_cases, elim insertE emptyE) (simp_all add: is_digit_def ink_def dec_char_def)

lemma show_digits: "list_all is_digit (show_nat n)"
  by (auto simp: list_all_iff dest!: set_show_nat dec_char_digit)

lemma digit_ink: "is_digit b \<Longrightarrow> ink b \<and> b \<noteq> 0x2B \<and> b \<noteq> 0x2D \<and> b \<noteq> 0x2E"
  by (auto simp: is_digit_def ink_def word_le_nat_alt word_less_nat_alt)

lemma mantissa_loop_append:
  "mantissa_loop m (xs @ ys) = (case mantissa_loop m xs of None \<Rightarrow> None | Some k \<Rightarrow> mantissa_loop k ys)"
  by (induction m xs rule: mantissa_loop.induct) (auto simp: Let_def)

lemma mantissa_loop_zeros: "mantissa_loop 0 (replicate k 0x30 @ cs) = mantissa_loop 0 cs"
  by (induction k) (auto simp: Let_def in_i128_def)

lemma mantissa_loop_show: "mantissa_loop 0 (show_nat n) = (if int n < 2 ^ 127 then Some (int n) else None)"
proof (induction n rule: show_nat.induct)
  case (1 n)
  show ?case
  proof (cases "n < 10")
    case True
    then show ?thesis using dec_char_digit[OF True] by (simp add: show_nat.simps[of n] Let_def in_i128_def)
  next
    case False
    have d: "uint (dec_char (n mod 10) - 0x30) = int (n mod 10)" using dec_char_digit[of "n mod 10"] by simp
    have e: "int (n div 10) * 10 + int (n mod 10) = int n"
      by (metis add.commute div_mult_mod_eq mult.commute of_nat_add of_nat_mult of_nat_numeral)
    have f: "int (n div 10) < 2 ^ 127" if "int n < 2 ^ 127" using that e by linarith
    show ?thesis
    proof (cases "int (n div 10) < 2 ^ 127")
      case True
      have "in_i128 (int n) \<longleftrightarrow> int n < 2 ^ 127" "in_i128 (int (n div 10) * 10) \<or> \<not> int n < 2 ^ 127"
        using e by (auto simp: in_i128_def)
      then show ?thesis using 1(1)[OF False] False True d e
        by (auto simp: show_nat.simps[of n] mantissa_loop_append Let_def)
    next
      case False': False
      then show ?thesis using 1(1)[OF False] False f by (auto simp: show_nat.simps[of n] mantissa_loop_append)
    qed
  qed
qed

text \<open>The printed digits before and after the point, joined again.\<close>

lemma decimal_text_parts:
  obtains ip fp where "decimal_text d = (if sint (mantissa d) < 0 then [0x2D] else []) @ (if scale d = 0 then ip else ip @ [0x2E] @ fp)"
    "ip \<noteq> []" "list_all is_digit ip" "list_all is_digit fp" "length fp = unat (scale d)" "scale d = 0 \<Longrightarrow> fp = []"
    "mantissa_loop 0 (ip @ fp) = mantissa_loop 0 (show_nat (nat \<bar>sint (mantissa d)\<bar>))"
proof -
  let ?ds = "show_nat (nat \<bar>sint (mantissa d)\<bar>)" and ?sc = "unat (scale d)"
  have dg: "list_all is_digit ?ds" by (rule show_digits)
  have z: "is_digit 0x30" by (simp add: is_digit_def)
  show ?thesis
  proof (cases "length ?ds > ?sc")
    case True
    show ?thesis
      by (rule that[of "take (length ?ds - ?sc) ?ds" "drop (length ?ds - ?sc) ?ds"])
        (use True dg in \<open>auto simp: decimal_text_def Let_def unat_eq_0 list_all_iff dest: in_set_takeD in_set_dropD\<close>)
  next
    case False
    have "scale d \<noteq> 0" using False show_nat_nonempty[of "nat \<bar>sint (mantissa d)\<bar>"] by (cases "scale d = 0") auto
    moreover have "mantissa_loop 0 ([0x30] @ replicate k 0x30 @ ?ds) = mantissa_loop 0 ?ds" for k
      using mantissa_loop_zeros[of "Suc k" ?ds] by simp
    ultimately show ?thesis
      by (intro that[of "[0x30]" "replicate (?sc - length ?ds) 0x30 @ ?ds"])
        (use False dg z in \<open>auto simp: decimal_text_def Let_def of_str_def unat_eq_0 list_all_iff\<close>)
  qed
qed

lemma digits_split: "list_all is_digit ip \<Longrightarrow> split_once 0x2E (ip @ [0x2E] @ fp) = Some (ip, fp)" "list_all is_digit ip \<Longrightarrow> split_once 0x2E ip = None"
  using digit_ink by (auto simp: split_once_none list_all_iff intro!: split_once_append[simplified])

lemma decimal_text_inked:
  assumes "list_all is_digit ip" "list_all is_digit fp" "ip \<noteq> []" "z = 0 \<Longrightarrow> fp = []" "length fp = unat (z :: u32)"
  shows "trim ((if neg then [0x2D] else []) @ (if z = 0 then ip else ip @ [0x2E] @ fp)) = (if neg then [0x2D] else []) @ (if z = 0 then ip else ip @ [0x2E] @ fp)"
proof (rule trim_ink)
  have i: "ink x" if "x \<in> set ip \<union> set fp" for x using assms(1,2) digit_ink that by (auto simp: list_all_iff)
  show "ink (hd ((if neg then [0x2D] else []) @ (if z = 0 then ip else ip @ [0x2E] @ fp)))"
    using i assms(3) by (auto simp: ink_def)
  have "fp \<noteq> []" if "z \<noteq> 0" using that assms(5) by (auto simp: unat_eq_0)
  then show "ink (last ((if neg then [0x2D] else []) @ (if z = 0 then ip else ip @ [0x2E] @ fp)))"
    using i assms(3) by auto
qed (use assms(3) in auto)

lemma parse_decimal_text:
  "parse_decimal (decimal_text d) = (if \<bar>sint (mantissa d)\<bar> < 2 ^ 127 then Some d else None)"
proof -
  obtain ip fp where p: "decimal_text d = (if sint (mantissa d) < 0 then [0x2D] else []) @ (if scale d = 0 then ip else ip @ [0x2E] @ fp)"
    "ip \<noteq> []" "list_all is_digit ip" "list_all is_digit fp" "length fp = unat (scale d)" "scale d = 0 \<Longrightarrow> fp = []"
    "mantissa_loop 0 (ip @ fp) = mantissa_loop 0 (show_nat (nat \<bar>sint (mantissa d)\<bar>))" using decimal_text_parts by blast
  have t: "trim (decimal_text d) = decimal_text d"
    unfolding p(1) by (rule decimal_text_inked[OF p(3,4,2,6,5)])
  obtain b rest where ip: "ip = b # rest" using p(2) by (cases ip) auto
  have b: "b \<noteq> 0x2D" "b \<noteq> 0x2B" using digit_ink[of b] p(3) ip by auto
  have l: "length fp < 2 ^ 32" "(word_of_nat (length fp) :: u32) = scale d" using p(5) unat_bound[of "scale d"] by simp_all
  have m: "word_of_int (if sint (mantissa d) < 0 then - \<bar>sint (mantissa d)\<bar> else \<bar>sint (mantissa d)\<bar>) = mantissa d" by simp
  have split: "(case split_once 0x2E (if scale d = 0 then ip else ip @ [0x2E] @ fp) of Some q \<Rightarrow> q | None \<Rightarrow> (if scale d = 0 then ip else ip @ [0x2E] @ fp, [])) = (ip, fp)"
    using digits_split[OF p(3)] p(6) by simp
  have sgn: "(case decimal_text d of b # rest \<Rightarrow> if b = 0x2D then (True, rest) else if b = 0x2B then (False, rest) else (False, decimal_text d)
      | [] \<Rightarrow> (False, decimal_text d)) = (sint (mantissa d) < 0, if scale d = 0 then ip else ip @ [0x2E] @ fp)"
    unfolding p(1) using ip b by simp
  show ?thesis
    unfolding parse_decimal_def Let_def t sgn prod.case split p(7) mantissa_loop_show
    using p(2,3,4) l m by (simp add: decimal_new_def)
qed

section \<open>Properties\<close>

text \<open>Text handed out for a decimal is read back as the same decimal, mantissa and scale, for every decimal but
  those with the smallest mantissa.\<close>

theorem decimal_text_roundtrip:
  assumes "sint (mantissa d) \<noteq> - (2 ^ 127)"
  shows "parse_decimal (decimal_text d) = Some d"
proof -
  have "- (2 ^ 127) \<le> sint (mantissa d)" "sint (mantissa d) < 2 ^ 127" using sint_range_size[of "mantissa d"] by (simp_all add: word_size)
  then show ?thesis using assms by (simp add: parse_decimal_text)
qed

theorem decimal_text_roundtrip_witness: "parse_decimal (decimal_text (decimal_new (- 1) 3)) = Some (decimal_new (- 1) 3)"
  using decimal_text_roundtrip[of "decimal_new (- 1) 3"] by (simp add: decimal_new_def)

text \<open>Defects: the decimal with the smallest mantissa is printed as text that does not parse; and the text of a decimal is
  always longer than its scale, which a value from the wire can make four gigabytes.\<close>

theorem decimal_text_extremes:
  "parse_decimal (decimal_text (decimal_new (word_of_int (- (2 ^ 127))) s)) = None
   \<and> (scale d \<noteq> 0 \<longrightarrow> unat (scale d) < length (decimal_text d))"
proof
  show "parse_decimal (decimal_text (decimal_new (word_of_int (- (2 ^ 127))) s)) = None"
    by (simp add: parse_decimal_text decimal_new_def)
  obtain ip fp where "decimal_text d = (if sint (mantissa d) < 0 then [0x2D] else []) @ (if scale d = 0 then ip else ip @ [0x2E] @ fp)"
    "length fp = unat (scale d)" using decimal_text_parts by metis
  then show "scale d \<noteq> 0 \<longrightarrow> unat (scale d) < length (decimal_text d)" by simp
qed

theorem decimal_text_extremes_witness: "4000000000 < length (decimal_text (decimal_new 1 4000000000))"
  using decimal_text_extremes[of 0 "decimal_new 1 4000000000"] by (simp add: decimal_new_def)

end
