(* ===== verification/Json.thy ===== *)
theory Json
  imports Value
begin

text \<open>
  JSON interchange (\<^verbatim>\<open>skaidb-types/src/json.rs\<close>). The values of \<^verbatim>\<open>serde_json\<close> are a datatype with its constructors,
  an object being the list of its entries in key order; its numbers are a parameter, with the operations the
  code calls as a record and what they are documented to do as the locale \<open>json_numbers\<close>.
\<close>

section \<open>Definitions\<close>

datatype 'n json = JNull | JBool bool | JNumber 'n | JString rstr | JArray "'n json list" | JObject "(rstr \<times> 'n json) list"

record 'n number_ops =
  as_i64 :: "'n \<Rightarrow> i64 option"
  as_f64 :: "'n \<Rightarrow> f64 option"
  from_i64 :: "i64 \<Rightarrow> 'n"
  from_f64 :: "f64 \<Rightarrow> 'n option"
  from_u8 :: "u8 \<Rightarrow> 'n"
  nan :: f64
  is_nan :: "f64 \<Rightarrow> bool"
  above_zero :: "f64 \<Rightarrow> bool"

definition number_value :: "'n number_ops \<Rightarrow> 'n \<Rightarrow> val" where
  "number_value N n = (case as_i64 N n of
     Some i \<Rightarrow> VInt i
   | None \<Rightarrow> VFloat (case as_f64 N n of Some f \<Rightarrow> f | None \<Rightarrow> nan N))"

fun from_json :: "'n number_ops \<Rightarrow> 'n json \<Rightarrow> val" where
  "from_json N JNull = VNull"
| "from_json N (JBool b) = VBool b"
| "from_json N (JNumber n) = number_value N n"
| "from_json N (JString s) = VString s"
| "from_json N (JArray items) = VArray (map (from_json N) items)"
| "from_json N (JObject m) = VDocument (fold (\<lambda>(k, v) d. doc_insert k v d) (map (\<lambda>(k, v). (k, from_json N v)) m) doc_new)"

definition float_json :: "'n number_ops \<Rightarrow> f64 \<Rightarrow> 'n json" where
  "float_json N f = (case from_f64 N f of
     Some n \<Rightarrow> JNumber n
   | None \<Rightarrow> JString (if is_nan N f then of_str ''NaN'' else if above_zero N f then of_str ''Infinity'' else of_str ''-Infinity''))"

fun to_json :: "'n number_ops \<Rightarrow> val \<Rightarrow> 'n json" where
  "to_json N VNull = JNull"
| "to_json N (VBool b) = JBool b"
| "to_json N (VInt i) = JNumber (from_i64 N i)"
| "to_json N (VTimestamp t) = JNumber (from_i64 N t)"
| "to_json N (VFloat f) = float_json N f"
| "to_json N (VDecimal d) = JString (decimal_display d)"
| "to_json N (VString s) = JString s"
| "to_json N (VBytes b) = JArray (map (\<lambda>x. JNumber (from_u8 N x)) b)"
| "to_json N (VUuid u) = JString (uuid_display u)"
| "to_json N (VArray items) = JArray (map (to_json N) items)"
| "to_json N (VDocument doc) = JObject (map (\<lambda>(k, v). (k, to_json N v)) doc)"

section \<open>Numbers\<close>

text \<open>What \<^verbatim>\<open>serde_json::Number\<close> documents: integers are read back as integers, a finite double is a number that
  is no integer and is read back, and a double that is not finite is no number.\<close>

locale json_numbers =
  fixes N :: "'n number_ops"
  assumes as_from_i64: "as_i64 N (from_i64 N i) = Some i"
    and as_from_f64: "from_f64 N f = Some n \<Longrightarrow> as_i64 N n = None \<and> as_f64 N n = Some f"
begin

lemma number_value_simps:
  "number_value N (from_i64 N i) = VInt i" "from_f64 N f = Some n \<Longrightarrow> number_value N n = VFloat f"
  using as_from_i64 as_from_f64[of f n] by (auto simp: number_value_def)

end

fun plain :: "'n number_ops \<Rightarrow> val \<Rightarrow> bool" where
  "plain N (VFloat f) = (from_f64 N f \<noteq> None)"
| "plain N (VArray items) = (\<forall>v \<in> set items. plain N v)"
| "plain N (VDocument doc) = (\<forall>(k, v) \<in> set doc. plain N v)"
| "plain N v = (type_of v \<in> {TNull, TBool, TInt, TString})"

text \<open>The JSON that a value can hold: numbers within the range of the two number types, objects in key order.\<close>

fun canonical :: "'n number_ops \<Rightarrow> 'n json \<Rightarrow> bool" where
  "canonical N (JNumber n) = ((\<exists>i. n = from_i64 N i) \<or> (\<exists>f. from_f64 N f = Some n))"
| "canonical N (JArray items) = (\<forall>v \<in> set items. canonical N v)"
| "canonical N (JObject m) = (bt_sorted m \<and> (\<forall>(k, v) \<in> set m. canonical N v))"
| "canonical N _ = True"

lemma fold_insert_sorted:
  "bt_sorted (acc @ m) \<Longrightarrow> fold (\<lambda>(k, v) d. doc_insert k v d) m acc = acc @ m"
proof (induction m arbitrary: acc)
  case (Cons x m)
  obtain k v where x: "x = (k, v)" by fastforce
  have "bt_insert k v acc = acc @ [(k, v)]" using Cons.prems x by (auto intro!: bt_insert_last simp: bt_sorted_append)
  then show ?case using Cons x by (simp add: doc_insert_def)
qed simp

lemma sorted_values: "bt_sorted (map (\<lambda>(k, v). (k, f v)) m) = bt_sorted m"
  by (simp add: bt_sorted_def sorted_wrt_map case_prod_beta')

lemma collect_sorted:
  assumes "bt_sorted m" and "\<And>k v. (k, v) \<in> set m \<Longrightarrow> f (g v) = v"
  shows "fold (\<lambda>(k, v) d. doc_insert k v d) (map (\<lambda>(k, v). (k, f v)) (map (\<lambda>(k, v). (k, g v)) m)) doc_new = m"
proof -
  have "map (\<lambda>(k, v). (k, f v)) (map (\<lambda>(k, v). (k, g v)) m) = m" using assms(2) by (auto intro!: map_idI)
  then show ?thesis using fold_insert_sorted[of "[]" m] assms(1) by (simp add: doc_new_def)
qed

context json_numbers
begin

lemma from_to: "plain N v \<Longrightarrow> wf_val v \<Longrightarrow> from_json N (to_json N v) = v"
proof (induction v)
  case (VDocument doc)
  have "from_json N (to_json N v) = v" if "(k, v) \<in> set doc" for k v
    using VDocument.IH[OF that, of v] VDocument.prems that by auto
  then show ?case using collect_sorted[of doc "from_json N" "to_json N"] VDocument.prems by simp
qed (auto simp: float_json_def number_value_simps type_of_def intro!: map_idI)

lemma to_number: "canonical N (JNumber n) \<Longrightarrow> to_json N (number_value N n) = JNumber n"
  by (auto simp: number_value_simps float_json_def)

lemma to_from: "canonical N j \<Longrightarrow> to_json N (from_json N j) = j"
proof (induction j)
  case (JNumber n)
  then show ?case using to_number by simp
next
  case (JObject m)
  have s: "bt_sorted (map (\<lambda>(k, v). (k, from_json N v)) m)" using JObject.prems by (simp add: sorted_values)
  have i: "to_json N (from_json N v) = v" if "(k, v) \<in> set m" for k v
    using JObject.IH[OF that, of v] JObject.prems that by auto
  have "fold (\<lambda>(k, v) d. doc_insert k v d) (map (\<lambda>(k, v). (k, from_json N v)) m) doc_new = map (\<lambda>(k, v). (k, from_json N v)) m"
    using fold_insert_sorted[of "[]", simplified, OF s] by (simp add: doc_new_def)
  then show ?case using i by (auto intro!: map_idI)
qed (auto intro!: map_idI)

end

lemma to_json_null: "to_json N v = JNull \<longleftrightarrow> v = VNull"
  by (cases v) (auto simp: float_json_def split: option.splits)

section \<open>A number type\<close>

text \<open>Integers and finite doubles side by side, as the documented number type has them.\<close>

definition finite_double :: "f64 \<Rightarrow> bool" where
  "finite_double f = (take_bit 11 (drop_bit 52 f) \<noteq> 2047)"

definition sum_numbers :: "(i64 + f64) number_ops" where
  "sum_numbers = \<lparr>as_i64 = (\<lambda>n. case n of Inl i \<Rightarrow> Some i | Inr _ \<Rightarrow> None), as_f64 = (\<lambda>n. case n of Inl _ \<Rightarrow> None | Inr f \<Rightarrow> Some f),
     from_i64 = Inl, from_f64 = (\<lambda>f. if finite_double f then Some (Inr f) else None), from_u8 = (\<lambda>b. Inl (ucast b)),
     nan = 0x7FF8000000000000, is_nan = (\<lambda>f. \<not> finite_double f \<and> take_bit 52 f \<noteq> 0), above_zero = (\<lambda>f. f < 0x8000000000000000)\<rparr>"

interpretation sums: json_numbers sum_numbers
  by unfold_locales (auto simp: sum_numbers_def split: if_splits)

section \<open>Properties\<close>

text \<open>C39: A value of the types JSON has is read back from the JSON it is written to, JSON within the ranges of the two
  number types is written back from the value it is read into, and only \<^verbatim>\<open>NULL\<close> is written as null.\<close>

theorem json_roundtrip:
  assumes "json_numbers N"
  shows "(plain N v \<and> wf_val v \<longrightarrow> from_json N (to_json N v) = v)
    \<and> (canonical N j \<longrightarrow> to_json N (from_json N j) = j)
    \<and> (to_json N v = JNull \<longleftrightarrow> v = VNull)"
  using json_numbers.from_to[OF assms, of v] json_numbers.to_from[OF assms, of j] to_json_null[of N v] by blast

theorem json_roundtrip_witness:
  "from_json sum_numbers (to_json sum_numbers (VArray [VInt 7, VDocument [([0x61], VFloat 0)]])) = VArray [VInt 7, VDocument [([0x61], VFloat 0)]]"
proof -
  have p: "plain sum_numbers (VArray [VInt 7, VDocument [([0x61], VFloat 0)]]) \<and> wf_val (VArray [VInt 7, VDocument [([0x61], VFloat 0)]])"
    by (simp add: sum_numbers_def finite_double_def type_of_def utf8_ok.simps)
  from json_roundtrip[OF sums.json_numbers_axioms] p show ?thesis by blast
qed

end
