(* ===== verification/Value_Text.thy ===== *)
theory Value_Text
  imports Decimal_Text Json
begin

text \<open>
  The text of a value (\<^verbatim>\<open>Display for Value\<close> in \<^verbatim>\<open>skaidb-types/src/value.rs\<close>) beside the text the C interface prints
  and parses for decimals. The text of a double is the formatter of the standard library and the text of a JSON document
  that of \<^verbatim>\<open>serde_json\<close>; both are arguments.
\<close>

definition i64_text :: "i64 \<Rightarrow> rstr" where
  "i64_text i = (if sint i < 0 then [0x2D] else []) @ show_nat (nat \<bar>sint i\<bar>)"

definition value_display :: "(f64 \<Rightarrow> rstr) \<Rightarrow> 'n number_ops \<Rightarrow> ('n json \<Rightarrow> rstr) \<Rightarrow> val \<Rightarrow> rstr" where
  "value_display float_text N print v = (case v of
     VNull \<Rightarrow> of_str ''NULL''
   | VBool b \<Rightarrow> of_str (if b then ''true'' else ''false'')
   | VInt i \<Rightarrow> i64_text i
   | VFloat x \<Rightarrow> float_text x
   | VDecimal d \<Rightarrow> decimal_display d
   | VString s \<Rightarrow> s
   | VBytes b \<Rightarrow> of_str ''0x'' @ concat (map hex2 b)
   | VUuid u \<Rightarrow> uuid_display u
   | VTimestamp t \<Rightarrow> i64_text t
   | _ \<Rightarrow> print (to_json N v))"

section \<open>Decimals\<close>

lemma display_plain: "unat (scale d) \<le> MAX_PLAIN_SCALE \<Longrightarrow> decimal_display d = decimal_text d"
  by (auto simp: decimal_display_def decimal_text_def Let_def unat_eq_0)

lemma display_scientific:
  assumes "MAX_PLAIN_SCALE < unat (scale d)"
  shows "parse_decimal (decimal_display d) = None"
proof -
  let ?ds = "show_nat (nat \<bar>sint (mantissa d)\<bar>)" and ?e = "show_nat (unat (scale d))"
  let ?body = "?ds @ [0x45, 0x2D] @ ?e"
  have z: "scale d \<noteq> 0" using assms by auto
  have t: "decimal_display d = (if sint (mantissa d) < 0 then [0x2D] else []) @ ?body"
    using assms z by (simp add: decimal_display_def Let_def of_str_def)
  have dig: "list_all is_digit ?ds" "list_all is_digit ?e" "?ds \<noteq> []" "?e \<noteq> []"
    using show_digits by (simp_all add: show_nat_nonempty)
  have ink: "ink x" if "x \<in> set ?ds \<union> set ?e" for x using dig(1,2) digit_ink that by (auto simp: list_all_iff)
  have trimmed: "trim (decimal_display d) = decimal_display d" unfolding t
    by (rule trim_ink) (use dig(3,4) ink in \<open>auto simp: ink_def\<close>)
  obtain b rest where ip: "?ds = b # rest" using dig(3) by (cases ?ds) auto
  have b: "b \<noteq> 0x2D" "b \<noteq> 0x2B" using digit_ink[of b] dig(1) ip by auto
  have "0x2E \<notin> set ?body" using dig(1,2) digit_ink by (auto simp: list_all_iff)
  then have so: "split_once 0x2E ?body = None" by (simp add: split_once_none)
  have e: "\<not> list_all is_digit ?body" by (simp add: is_digit_def)
  show ?thesis unfolding parse_decimal_def trimmed Let_def
    using so e ip b by (auto simp: t)
qed

section \<open>Properties\<close>

text \<open>The text of a UUID, of bytes and of a decimal of at most 1000 places is read back by the parsers of the repository; the
  text of a decimal with more places has an exponent, which the parser of the C interface does not take, although the
  C interface prints such a decimal in full.\<close>

theorem value_text_reads_back:
  "(length u = 16 \<longrightarrow> uuid_parse_str (value_display F N print (VUuid u)) = Inr u)
   \<and> from_hex (drop 2 (value_display F N print (VBytes b))) = Inr b
   \<and> (unat (scale d) \<le> MAX_PLAIN_SCALE \<longrightarrow> value_display F N print (VDecimal d) = decimal_text d)
   \<and> (unat (scale d) \<le> MAX_PLAIN_SCALE \<and> sint (mantissa d) \<noteq> - (2 ^ 127) \<longrightarrow> parse_decimal (value_display F N print (VDecimal d)) = Some d)
   \<and> (MAX_PLAIN_SCALE < unat (scale d) \<longrightarrow> parse_decimal (value_display F N print (VDecimal d)) = None)"
  using display_plain[of d] display_scientific[of d] decimal_text_roundtrip[of d] uuid_text_roundtrip[of u]
  by (auto simp: value_display_def of_str_def from_hex_hex hex_def[symmetric])

theorem value_text_reads_back_witness:
  "uuid_parse_str (value_display (\<lambda>_. []) sum_numbers (\<lambda>_. []) (VUuid uuid_nil)) = Inr uuid_nil"
  using value_text_reads_back[of uuid_nil "\<lambda>_. []" sum_numbers "\<lambda>_. []" "[]" "decimal_new 0 0"] by (simp add: uuid_nil_def)

end
