(* ===== verification/Frame.thy ===== *)
theory Frame
  imports Skaidb_Prelude
begin

text \<open>
  Length-prefixed framing (\<^verbatim>\<open>skaidb-proto/src/frame.rs\<close>). The stream is any \<^verbatim>\<open>Write\<close> or \<^verbatim>\<open>Read\<close>, so the
  operations of those traits are parameters: a record of functions over the stream's state. What the
  traits document is the predicates \<open>write_contract\<close>, \<open>write_live\<close> and \<open>read_contract\<close>, relative to a
  view of the bytes written so far and of the bytes still to come; a stream may accept any part of a
  vectored write.
\<close>

section \<open>Definitions\<close>

datatype io_error =
    InvalidInput string | InvalidData string | WriteZero string | UnexpectedEof | ConnectionRefused rstr | OtherIo string

record 'w write_ops =
  write_vectored :: "'w \<Rightarrow> bytes list \<Rightarrow> (io_error, nat \<times> 'w) res"
  write_all :: "'w \<Rightarrow> bytes \<Rightarrow> (io_error, 'w) res"
  flush :: "'w \<Rightarrow> (io_error, 'w) res"

record 'r read_ops =
  read_exact :: "'r \<Rightarrow> nat \<Rightarrow> (io_error, bytes \<times> 'r) res"

definition MAX_FRAME_LEN :: nat where "MAX_FRAME_LEN = 64 * 1024 * 1024"
definition COALESCE_LIMIT :: nat where "COALESCE_LIMIT = 8 * 1024"

definition u32_be :: "nat \<Rightarrow> bytes" where
  "u32_be n = be_bytes 4 (n mod 2 ^ 32)"

text \<open>Slicing past the end of \<^verbatim>\<open>body\<close> panics; every round that goes on has written at least one byte.\<close>

function write_all_vectored :: "'w write_ops \<Rightarrow> 'w \<Rightarrow> bytes \<Rightarrow> bytes \<Rightarrow> (io_error, 'w) res" where
  "write_all_vectored ops w head body =
    (if head = [] \<and> body = [] then Inr w
     else rbind (write_vectored ops w [head, body]) (\<lambda>(n, w).
       if n = 0 then Inl (Err (WriteZero ''failed to write whole frame''))
       else if length head \<le> n then
         (if length body < n - length head then Inl (Panic ''slice'')
          else write_all_vectored ops w [] (drop (n - length head) body))
       else write_all_vectored ops w (drop n head) body))"
  by pat_completeness auto
termination
  by (relation "measure (\<lambda>(ops, w, head, body). length head + length body)") auto

declare write_all_vectored.simps [simp del]

definition write_frame :: "'w write_ops \<Rightarrow> 'w \<Rightarrow> bytes \<Rightarrow> (io_error, 'w) res" where
  "write_frame ops w payload =
    (if MAX_FRAME_LEN < length payload then Inl (Err (InvalidInput ''frame too large''))
     else
       let len = u32_be (length payload) in
       rbind (if length payload \<le> COALESCE_LIMIT then write_all ops w (len @ payload)
              else write_all_vectored ops w len payload)
         (flush ops))"

definition read_frame_into :: "'r read_ops \<Rightarrow> 'r \<Rightarrow> bytes \<Rightarrow> (io_error, bytes \<times> 'r) res" where
  "read_frame_into ops r buf =
    rbind (read_exact ops r 4) (\<lambda>(len_buf, r).
      let len = be_val len_buf in
      if MAX_FRAME_LEN < len then Inl (Err (InvalidData ''frame too large''))
      else
        let buf = (if length buf < len then buf @ replicate (len - length buf) 0 else buf);
            buf = take len buf
        in read_exact ops r (length buf))"

definition read_frame :: "'r read_ops \<Rightarrow> 'r \<Rightarrow> (io_error, bytes \<times> 'r) res" where
  "read_frame ops r = read_frame_into ops r []"

definition begin_frame :: "bytes \<Rightarrow> bytes" where
  "begin_frame buf = replicate 4 0"

text \<open>\<^verbatim>\<open>buf.len() - 4\<close> overflows on a buffer that was not begun.\<close>

definition finish_frame :: "'w write_ops \<Rightarrow> 'w \<Rightarrow> bytes \<Rightarrow> (io_error, 'w) res" where
  "finish_frame ops w buf =
    (if length buf < 4 then Inl (Panic ''subtract with overflow'')
     else
       let payload_len = length buf - 4 in
       if MAX_FRAME_LEN < payload_len then Inl (Err (InvalidInput ''frame too large''))
       else rbind (write_all ops w (u32_be payload_len @ drop 4 buf)) (flush ops))"

section \<open>What the stream promises\<close>

definition write_contract :: "'w write_ops \<Rightarrow> ('w \<Rightarrow> bytes) \<Rightarrow> bool" where
  "write_contract ops sent \<longleftrightarrow>
    (\<forall>w bufs n w'. write_vectored ops w bufs = Inr (n, w') \<longrightarrow>
       n \<le> length (concat bufs) \<and> sent w' = sent w @ take n (concat bufs))
    \<and> (\<forall>w bs w'. write_all ops w bs = Inr w' \<longrightarrow> sent w' = sent w @ bs)
    \<and> (\<forall>w w'. flush ops w = Inr w' \<longrightarrow> sent w' = sent w)"

text \<open>A stream that does not fail, and accepts something of every non-empty write.\<close>

definition write_live :: "'w write_ops \<Rightarrow> bool" where
  "write_live ops \<longleftrightarrow>
    (\<forall>w bufs. concat bufs \<noteq> [] \<longrightarrow> (\<exists>n w'. write_vectored ops w bufs = Inr (n, w') \<and> 0 < n))
    \<and> (\<forall>w bs. \<exists>w'. write_all ops w bs = Inr w') \<and> (\<forall>w. \<exists>w'. flush ops w = Inr w')"

definition read_contract :: "'r read_ops \<Rightarrow> ('r \<Rightarrow> bytes) \<Rightarrow> bool" where
  "read_contract ops pending \<longleftrightarrow>
    (\<forall>r bs rest. pending r = bs @ rest \<longrightarrow>
       (\<exists>r'. read_exact ops r (length bs) = Inr (bs, r') \<and> pending r' = rest))
    \<and> (\<forall>r n. length (pending r) < n \<longrightarrow> read_exact ops r n = Inl (Err UnexpectedEof))"

definition frame_bytes :: "bytes \<Rightarrow> bytes" where
  "frame_bytes payload = u32_be (length payload) @ payload"

text \<open>Streams that satisfy the contracts: one that takes at most \<open>k\<close> bytes of a vectored write, and an
  in-memory reader.\<close>

definition chunk_writer :: "nat \<Rightarrow> bytes write_ops" where
  "chunk_writer k = \<lparr>write_vectored = (\<lambda>w bufs. let n = min k (length (concat bufs)) in Inr (n, w @ take n (concat bufs))),
     write_all = (\<lambda>w bs. Inr (w @ bs)), flush = Inr\<rparr>"

definition slice_reader :: "bytes read_ops" where
  "slice_reader = \<lparr>read_exact = (\<lambda>r n. if n \<le> length r then Inr (take n r, drop n r) else Inl (Err UnexpectedEof))\<rparr>"

lemma chunk_writer_contract: "write_contract (chunk_writer k) id"
  by (auto simp: write_contract_def chunk_writer_def Let_def)

lemma chunk_writer_live: "0 < k \<Longrightarrow> write_live (chunk_writer k)"
  by (auto simp: write_live_def chunk_writer_def Let_def)

lemma slice_reader_contract: "read_contract slice_reader id"
  by (auto simp: read_contract_def slice_reader_def)

section \<open>Writing\<close>

lemma write_all_vectored_sent:
  "write_contract ops sent \<Longrightarrow> write_all_vectored ops w head body = Inr w' \<Longrightarrow> sent w' = sent w @ head @ body"
proof (induction ops w head body rule: write_all_vectored.induct)
  case (1 ops w head body)
  note eq = write_all_vectored.simps[of ops w head body]
  show ?case
  proof (cases "head = [] \<and> body = []")
    case True
    with "1.prems"(2) show ?thesis unfolding eq by simp
  next
    case False
    then obtain n w1 where n: "write_vectored ops w [head, body] = Inr (n, w1)" "n \<noteq> 0"
      using "1.prems"(2) unfolding eq by (auto simp: rbind_eq_Inr split: if_splits)
    then have s: "n \<le> length (head @ body)" "sent w1 = sent w @ take n (head @ body)"
      using "1.prems"(1) unfolding write_contract_def by fastforce+
    show ?thesis
    proof (cases "length head \<le> n")
      case True
      then have "write_all_vectored ops w1 [] (drop (n - length head) body) = Inr w'"
        using "1.prems"(2) False n s unfolding eq by (simp split: if_splits)
      then have "sent w' = sent w1 @ drop (n - length head) body"
        using "1.IH"(1)[OF False n(1) refl n(2) True] "1.prems"(1) n s by (simp split: if_splits)
      with True s show ?thesis by simp
    next
      case le: False
      then have "write_all_vectored ops w1 (drop n head) body = Inr w'"
        using "1.prems"(2) False n s unfolding eq by (simp split: if_splits)
      then have "sent w' = sent w1 @ drop n head @ body"
        using "1.IH"(2)[OF False n(1) refl n(2) le] "1.prems"(1) by simp
      with le s show ?thesis by simp
    qed
  qed
qed

lemma write_all_vectored_live:
  "write_contract ops sent \<Longrightarrow> write_live ops \<Longrightarrow> \<exists>w'. write_all_vectored ops w head body = Inr w'"
proof (induction ops w head body rule: write_all_vectored.induct)
  case (1 ops w head body)
  note eq = write_all_vectored.simps[of ops w head body]
  show ?case
  proof (cases "head = [] \<and> body = []")
    case True
    then show ?thesis unfolding eq by simp
  next
    case False
    then have "concat [head, body] \<noteq> []" by simp
    then obtain n w1 where n: "write_vectored ops w [head, body] = Inr (n, w1)" "0 < n"
      using "1.prems"(2) unfolding write_live_def by meson
    then have s: "n \<le> length (head @ body)"
      using "1.prems"(1) unfolding write_contract_def by fastforce
    show ?thesis
      using "1.IH"(1)[OF False n(1) refl] "1.IH"(2)[OF False n(1) refl] n s False "1.prems" unfolding eq by (cases "length head \<le> n") auto
  qed
qed

lemma write_frame_sent:
  assumes "write_contract ops sent" and "write_frame ops w p = Inr w'"
  shows "sent w' = sent w @ frame_bytes p"
proof -
  from assms(2) obtain w1 where w1: "flush ops w1 = Inr w'"
    "(if length p \<le> COALESCE_LIMIT then write_all ops w (u32_be (length p) @ p)
      else write_all_vectored ops w (u32_be (length p)) p) = Inr w1"
    by (auto simp: write_frame_def Let_def rbind_eq_Inr split: if_splits)
  then have "sent w1 = sent w @ frame_bytes p"
    using assms(1) write_all_vectored_sent[OF assms(1)]
    by (auto simp: write_contract_def frame_bytes_def split: if_splits)
  with w1(1) assms(1) show ?thesis by (simp add: write_contract_def)
qed

lemma write_frame_live:
  assumes "write_contract ops sent" and "write_live ops" and "length p \<le> MAX_FRAME_LEN"
  shows "\<exists>w'. write_frame ops w p = Inr w'"
  using assms(2,3) write_all_vectored_live[OF assms(1,2), of w "u32_be (length p)" p]
  unfolding write_frame_def Let_def write_live_def
  by (cases "length p \<le> COALESCE_LIMIT") (simp add: rbind_eq_Inr, metis)+

section \<open>Reading\<close>

lemma be_val_u32_be: "n < 2 ^ 32 \<Longrightarrow> be_val (u32_be n) = n"
  by (simp add: u32_be_def)

lemma length_u32_be [simp]: "length (u32_be n) = 4"
  by (simp add: u32_be_def)

lemma read_frame_into_frame:
  assumes "read_contract ops pending" and "pending r = frame_bytes p @ rest" and "length p \<le> MAX_FRAME_LEN"
  shows "\<exists>r'. read_frame_into ops r buf = Inr (p, r') \<and> pending r' = rest"
proof -
  have p: "length p < 2 ^ 32" using assms(3) by (simp add: MAX_FRAME_LEN_def)
  from assms(1,2) obtain r1 where r1: "read_exact ops r 4 = Inr (u32_be (length p), r1)" "pending r1 = p @ rest"
    unfolding read_contract_def frame_bytes_def by (metis append_assoc length_u32_be)
  from assms(1) r1(2) obtain r2 where "read_exact ops r1 (length p) = Inr (p, r2)" "pending r2 = rest"
    unfolding read_contract_def by meson
  with r1 assms(3) show ?thesis
    by (simp add: read_frame_into_def be_val_u32_be[OF p] Let_def min_def)
qed

text \<open>Sequences of frames on one stream.\<close>

primrec write_frames :: "'w write_ops \<Rightarrow> 'w \<Rightarrow> bytes list \<Rightarrow> (io_error, 'w) res" where
  "write_frames ops w [] = Inr w"
| "write_frames ops w (p # ps) = rbind (write_frame ops w p) (\<lambda>w. write_frames ops w ps)"

definition read_frames :: "'r read_ops \<Rightarrow> nat \<Rightarrow> bytes list \<times> 'r \<Rightarrow> (io_error, bytes list \<times> 'r) res" where
  "read_frames ops n = for_n n (\<lambda>(ps, r). rbind (read_frame ops r) (\<lambda>(p, r). Inr (ps @ [p], r)))"

lemma write_frames_sent:
  "write_contract ops sent \<Longrightarrow> write_frames ops w ps = Inr w' \<Longrightarrow> sent w' = sent w @ concat (map frame_bytes ps)"
  by (induction ps arbitrary: w) (auto simp: rbind_eq_Inr dest: write_frame_sent)

lemma read_frames_sent:
  assumes "read_contract ops pending" and "\<And>p. p \<in> set ps \<Longrightarrow> length p \<le> MAX_FRAME_LEN"
    and "pending r = concat (map frame_bytes ps) @ rest"
  shows "\<exists>r'. read_frames ops (length ps) (acc, r) = Inr (acc @ ps, r') \<and> pending r' = rest"
  using assms(2,3)
proof (induction ps arbitrary: acc r)
  case Nil
  then show ?case by (simp add: read_frames_def)
next
  case (Cons p ps)
  from read_frame_into_frame[OF assms(1), of r p "concat (map frame_bytes ps) @ rest" "[]"] Cons.prems
  obtain r1 where r1: "read_frame ops r = Inr (p, r1)" "pending r1 = concat (map frame_bytes ps) @ rest"
    by (auto simp: read_frame_def)
  from Cons.IH[of r1 "acc @ [p]"] r1 Cons.prems(1) show ?case by (simp add: read_frames_def)
qed

lemma write_frames_bounded: "write_frames ops w ps = Inr w' \<Longrightarrow> p \<in> set ps \<Longrightarrow> length p \<le> MAX_FRAME_LEN"
  by (induction ps arbitrary: w) (auto simp: rbind_eq_Inr write_frame_def split: if_splits)

section \<open>Properties\<close>

text \<open>A stream that does not fail accepts every payload up to the frame limit, however it splits the
  vectored writes, and what it has been sent is then exactly the big-endian length and the payload, in
  one frame.\<close>

theorem write_frame_delivers:
  assumes "write_contract ops sent" and "write_live ops" and "length p \<le> MAX_FRAME_LEN"
  shows "\<exists>w'. write_frame ops w p = Inr w' \<and> sent w' = sent w @ u32_be (length p) @ p"
  using write_frame_live[OF assms] write_frame_sent[OF assms(1)] by (fastforce simp: frame_bytes_def)

theorem write_frame_delivers_witness:
  "\<exists>w'. write_frame (chunk_writer 3) [9] (replicate 8193 7) = Inr w' \<and> w' = 9 # u32_be 8193 @ replicate 8193 7"
  using write_frame_delivers[OF chunk_writer_contract chunk_writer_live, of 3 "replicate 8193 7" "[9]"]
  by (simp add: MAX_FRAME_LEN_def)

text \<open>C16: Frames survive the stream: whatever sequence of payloads was written, reading as many frames
  from a stream that carries those bytes gives the payloads back in order and leaves the stream right
  behind the last frame.\<close>

theorem frames_roundtrip:
  assumes "write_contract wops sent" and "sent w = []" and "write_frames wops w ps = Inr w'"
    and "read_contract rops pending" and "pending r = sent w' @ rest"
  shows "\<exists>r'. read_frames rops (length ps) ([], r) = Inr (ps, r') \<and> pending r' = rest"
  using read_frames_sent[OF assms(4), of ps r rest "[]"] write_frames_sent[OF assms(1,3)]
    write_frames_bounded[OF assms(3)] assms(2,5)
  by simp

theorem frames_roundtrip_witness:
  "\<exists>r'. read_frames slice_reader 2 ([], concat (map frame_bytes [[1, 2], []]) @ [5]) = Inr ([[1, 2], []], r') \<and> r' = [5]"
proof -
  have "write_frames (chunk_writer 1) [] [[1, 2], []] = Inr (concat (map frame_bytes [[1, 2], []]))"
    by (simp add: write_frame_def chunk_writer_def COALESCE_LIMIT_def MAX_FRAME_LEN_def frame_bytes_def)
  from frames_roundtrip[OF chunk_writer_contract _ this slice_reader_contract,
      of "concat (map frame_bytes [[1, 2], []]) @ [5]" "[5]"]
  show ?thesis by (simp add: numeral_2_eq_2)
qed

text \<open>Building a frame in place and finishing it sends the same bytes, with the same outcome, as
  \<^verbatim>\<open>write_frame\<close> of the payload does when it takes its one-buffer path, and refuses the same payloads.\<close>

theorem finish_frame_is_write_frame:
  assumes "length p \<le> COALESCE_LIMIT \<or> MAX_FRAME_LEN < length p"
  shows "finish_frame ops w (begin_frame buf @ p) = write_frame ops w p"
  using assms by (auto simp: finish_frame_def write_frame_def begin_frame_def Let_def)

theorem finish_frame_is_write_frame_witness:
  "finish_frame (chunk_writer 1) [] (begin_frame [8, 8] @ [1, 2, 3]) = write_frame (chunk_writer 1) [] [1, 2, 3]"
  using finish_frame_is_write_frame[of "[1, 2, 3]"] by (simp add: COALESCE_LIMIT_def)

text \<open>A length prefix above 64 MiB is refused before any payload byte is read or buffer is sized.\<close>

theorem oversized_frame_refused:
  assumes "read_contract ops pending" and "pending r = hdr @ rest" and "length hdr = 4" and "MAX_FRAME_LEN < be_val hdr"
  shows "read_frame_into ops r buf = Inl (Err (InvalidData ''frame too large''))"
proof -
  from assms(1-3) obtain r' where "read_exact ops r 4 = Inr (hdr, r')"
    unfolding read_contract_def by metis
  with assms(4) show ?thesis by (simp add: read_frame_into_def)
qed

theorem oversized_frame_refused_witness:
  "read_frame_into slice_reader [4, 0, 0, 1, 7] [] = Inl (Err (InvalidData ''frame too large''))"
  using oversized_frame_refused[OF slice_reader_contract, of "[4, 0, 0, 1, 7]" "[4, 0, 0, 1]" "[7]" "[]"]
  by (simp add: MAX_FRAME_LEN_def be_val_def)

end
