(* ===== verification/Transport.thy ===== *)
theory Transport
  imports Frame
begin

text \<open>
  Connections as the driver uses them: one stream that is both read and written, with the contract of a
  full-duplex connection, and the composition of fallible operations over a state that survives their
  errors (a \<^verbatim>\<open>&mut self\<close> method that returns \<^verbatim>\<open>Result\<close>).
\<close>

section \<open>Operations on a state that survives errors\<close>

type_synonym ('st, 'e, 'a) op = "'st \<Rightarrow> ('e, 'a) res \<times> 'st"

definition sbind :: "('st, 'e, 'a) op \<Rightarrow> ('a \<Rightarrow> ('st, 'e, 'b) op) \<Rightarrow> ('st, 'e, 'b) op" where
  "sbind m f st = (case m st of (Inl e, st') \<Rightarrow> (Inl e, st') | (Inr x, st') \<Rightarrow> f x st')"

definition slift :: "('e, 'a) res \<Rightarrow> ('st, 'e, 'a) op" where
  "slift r st = (r, st)"

definition sret :: "'a \<Rightarrow> ('st, 'e, 'a) op" where
  "sret x st = (Inr x, st)"

lemma sbind_Inr [simp]: "m st = (Inr x, st') \<Longrightarrow> sbind m f st = f x st'"
  by (simp add: sbind_def)

lemma sbind_Inl [simp]: "m st = (Inl e, st') \<Longrightarrow> sbind m f st = (Inl e, st')"
  by (simp add: sbind_def)

lemma sbind_eq_Inr:
  "sbind m f st = (Inr y, st2) \<longleftrightarrow> (\<exists>x st1. m st = (Inr x, st1) \<and> f x st1 = (Inr y, st2))"
  by (auto simp: sbind_def split: prod.splits sum.splits)

lemma slift_simps [simp]: "slift r st = (r, st)" "sret x st = (Inr x, st)"
  by (simp_all add: slift_def sret_def)

lemma sbind_slift: "sbind (slift r) f st = (case r of Inl e \<Rightarrow> (Inl e, st) | Inr x \<Rightarrow> f x st)"
  by (cases r) simp_all

text \<open>\<^verbatim>\<open>if let Ok(x) = ...\<close>: an error value is forgotten, a panic is not.\<close>

definition ok_of :: "('e, 'a) res \<Rightarrow> ('f, 'a option) res" where
  "ok_of r = (case r of Inr x \<Rightarrow> Inr (Some x) | Inl (Err _) \<Rightarrow> Inr None
     | Inl (Panic s) \<Rightarrow> Inl (Panic s) | Inl OutOfFuel \<Rightarrow> Inl OutOfFuel)"

lemma ok_of_simps [simp]: "ok_of (Inr x) = Inr (Some x)" "ok_of (Inl (Err e)) = Inr None"
  by (simp_all add: ok_of_def)

lemma clean_ok_of [simp]: "clean (ok_of r) = clean r"
  by (auto simp: ok_of_def clean_def split: sum.splits fault.splits)

lemma ok_of_clean: "clean r \<Longrightarrow> \<exists>x. ok_of r = Inr x"
  by (auto simp: ok_of_def clean_def split: sum.splits fault.splits)

lemma map_err_eq_Inr: "map_err f m = Inr x \<longleftrightarrow> m = Inr x"
  by (auto simp: map_err_def split: sum.splits fault.splits)

section \<open>Full-duplex streams\<close>

record 's stream_ops =
  wr :: "'s write_ops"
  rd :: "'s read_ops"

text \<open>Writing leaves what is still to be read alone, and reading what has been sent.\<close>

definition writes_keep :: "'s write_ops \<Rightarrow> ('s \<Rightarrow> 'v) \<Rightarrow> bool" where
  "writes_keep ops v \<longleftrightarrow>
    (\<forall>w bufs n w'. write_vectored ops w bufs = Inr (n, w') \<longrightarrow> v w' = v w)
    \<and> (\<forall>w bs w'. write_all ops w bs = Inr w' \<longrightarrow> v w' = v w)
    \<and> (\<forall>w w'. flush ops w = Inr w' \<longrightarrow> v w' = v w)"

definition reads_keep :: "'s read_ops \<Rightarrow> ('s \<Rightarrow> 'v) \<Rightarrow> bool" where
  "reads_keep ops v \<longleftrightarrow> (\<forall>r n bs r'. read_exact ops r n = Inr (bs, r') \<longrightarrow> v r' = v r)"

definition duplex :: "'s stream_ops \<Rightarrow> ('s \<Rightarrow> bytes) \<Rightarrow> ('s \<Rightarrow> bytes) \<Rightarrow> bool" where
  "duplex io sent pending \<longleftrightarrow> write_contract (wr io) sent \<and> write_live (wr io) \<and> writes_keep (wr io) pending
     \<and> read_contract (rd io) pending \<and> reads_keep (rd io) sent"

lemma write_all_vectored_keeps:
  "writes_keep ops v \<Longrightarrow> write_all_vectored ops w head body = Inr w' \<Longrightarrow> v w' = v w"
proof (induction ops w head body rule: write_all_vectored.induct)
  case (1 ops w head body)
  note eq = write_all_vectored.simps[of ops w head body]
  show ?case
  proof (cases "head = [] \<and> body = []")
    case True
    with "1.prems"(2) show ?thesis unfolding eq by simp
  next
    case False
    then obtain n w1 where n: "write_vectored ops w [head, body] = Inr (n, w1)" "n \<noteq> 0"
      using "1.prems"(2) unfolding eq by (auto simp: rbind_eq_Inr split: if_splits)
    then have "v w1 = v w" using "1.prems"(1) unfolding writes_keep_def by blast
    then show ?thesis
      using "1.IH"(1)[OF False n(1) refl n(2)] "1.IH"(2)[OF False n(1) refl n(2)] "1.prems" n False
      unfolding eq by (simp split: if_splits)
  qed
qed

lemma write_frame_keeps:
  assumes "writes_keep ops v" and "write_frame ops w p = Inr w'"
  shows "v w' = v w"
proof -
  from assms(2) obtain w1 where "flush ops w1 = Inr w'"
    "write_all ops w (u32_be (length p) @ p) = Inr w1 \<or> write_all_vectored ops w (u32_be (length p)) p = Inr w1"
    by (auto simp: write_frame_def Let_def rbind_eq_Inr split: if_splits)
  with assms(1) write_all_vectored_keeps[OF assms(1)] show ?thesis
    unfolding writes_keep_def by metis
qed

lemma read_frame_keeps:
  assumes "reads_keep ops v" and "read_frame ops r = Inr (p, r')"
  shows "v r' = v r"
  using assms by (auto simp: read_frame_def read_frame_into_def Let_def rbind_eq_Inr reads_keep_def split: if_splits; metis)

lemma send_frame:
  assumes "duplex io sent pending" and "length p \<le> MAX_FRAME_LEN"
  shows "\<exists>s'. write_frame (wr io) s p = Inr s' \<and> sent s' = sent s @ frame_bytes p \<and> pending s' = pending s"
  using write_frame_live[of "wr io" sent p s] write_frame_sent[of "wr io" sent s p] write_frame_keeps[of "wr io" pending s p]
    assms unfolding duplex_def by blast

lemma recv_frame:
  assumes "duplex io sent pending" and "pending s = frame_bytes p @ rest" and "length p \<le> MAX_FRAME_LEN"
  shows "\<exists>s'. read_frame (rd io) s = Inr (p, s') \<and> pending s' = rest \<and> sent s' = sent s"
  using read_frame_into_frame[of "rd io" pending s p rest "[]"] read_frame_keeps[of "rd io" sent s p] assms
  unfolding duplex_def read_frame_def by blast

lemma recv_eof:
  assumes "duplex io sent pending" and "length (pending s) < 4"
  shows "read_frame (rd io) s = Inl (Err UnexpectedEof)"
  using assms by (auto simp: duplex_def read_contract_def read_frame_def read_frame_into_def)

text \<open>A connection in memory: what has been sent and what is still to come.\<close>

definition mem_stream :: "(bytes \<times> bytes) stream_ops" where
  "mem_stream = \<lparr>
     wr = \<lparr>write_vectored = (\<lambda>(out, inp) bufs. Inr (length (concat bufs), (out @ concat bufs, inp))),
           write_all = (\<lambda>(out, inp) bs. Inr (out @ bs, inp)), flush = Inr\<rparr>,
     rd = \<lparr>read_exact = (\<lambda>(out, inp) n. if n \<le> length inp then Inr (take n inp, (out, drop n inp))
            else Inl (Err UnexpectedEof))\<rparr>\<rparr>"

lemma mem_stream_duplex: "duplex mem_stream fst snd"
  by (auto simp: duplex_def mem_stream_def write_contract_def write_live_def writes_keep_def read_contract_def reads_keep_def
      split: if_splits)

end
