(* ===== verification/Message.thy ===== *)
theory Message
  imports Codec
begin

text \<open>
  Requests and responses of the binary protocol (\<^verbatim>\<open>skaidb-proto/src/message.rs\<close>): the encoders with
  their backfilled length prefixes, the decoders, the pipelining wrappers and the incremental encoder
  of row chunks. Sequences and cells are self-delimiting fields, composed through the interpretations
  of \<open>field_codec\<close>.
\<close>

section \<open>Definitions\<close>

datatype consistency = One | Quorum | CAll

definition consistency_to_u8 :: "consistency \<Rightarrow> u8" where
  "consistency_to_u8 c = (case c of One \<Rightarrow> 0 | Quorum \<Rightarrow> 1 | CAll \<Rightarrow> 2)"

definition consistency_from_u8 :: "u8 \<Rightarrow> consistency option" where
  "consistency_from_u8 b = (if b = 0 then Some One else if b = 1 then Some Quorum else if b = 2 then Some CAll else None)"

record request =
  req_sql :: rstr
  req_consistency :: consistency

type_synonym row = "val list"

datatype client_request =
    Query rstr consistency
  | Prepare rstr
  | Execute u32 row consistency
  | Close u32
  | QueryStream rstr row consistency
  | ExecuteBatch u32 "row list" consistency
  | Hello rstr rstr

datatype response =
    Rows "rstr list" "row list"
  | Mutation u64
  | Ddl
  | Error rstr
  | Prepared u32 u16
  | RowsHeader "rstr list"
  | RowsChunk "row list"
  | RowsEnd
  | ResultSets "(rstr list \<times> row list) list"

datatype proto_error = Malformed string

abbreviation OP_QUERY :: u8 where "OP_QUERY \<equiv> 1"
abbreviation OP_PREPARE :: u8 where "OP_PREPARE \<equiv> 2"
abbreviation OP_EXECUTE :: u8 where "OP_EXECUTE \<equiv> 3"
abbreviation OP_CLOSE :: u8 where "OP_CLOSE \<equiv> 4"
abbreviation OP_QUERY_STREAM :: u8 where "OP_QUERY_STREAM \<equiv> 5"
abbreviation OP_TAGGED :: u8 where "OP_TAGGED \<equiv> 6"
abbreviation OP_EXECUTE_BATCH :: u8 where "OP_EXECUTE_BATCH \<equiv> 7"
abbreviation OP_HELLO :: u8 where "OP_HELLO \<equiv> 8"
abbreviation OP_QUERY_STREAM_PARAMS :: u8 where "OP_QUERY_STREAM_PARAMS \<equiv> 9"
abbreviation RESP_ROWS :: u8 where "RESP_ROWS \<equiv> 0"
abbreviation RESP_MUTATION :: u8 where "RESP_MUTATION \<equiv> 1"
abbreviation RESP_DDL :: u8 where "RESP_DDL \<equiv> 2"
abbreviation RESP_ERROR :: u8 where "RESP_ERROR \<equiv> 3"
abbreviation RESP_PREPARED :: u8 where "RESP_PREPARED \<equiv> 4"
abbreviation RESP_ROWS_HEADER :: u8 where "RESP_ROWS_HEADER \<equiv> 5"
abbreviation RESP_ROWS_CHUNK :: u8 where "RESP_ROWS_CHUNK \<equiv> 6"
abbreviation RESP_ROWS_END :: u8 where "RESP_ROWS_END \<equiv> 7"
abbreviation RESP_RESULT_SETS :: u8 where "RESP_RESULT_SETS \<equiv> 8"
abbreviation RESP_TAGGED :: u8 where "RESP_TAGGED \<equiv> 8"

definition M_over :: proto_error where "M_over = Malformed ''length overflow''"
definition M_end :: proto_error where "M_end = Malformed ''unexpected end''"
definition M_utf8 :: proto_error where "M_utf8 = Malformed ''invalid utf-8''"
definition M_consistency :: proto_error where "M_consistency = Malformed ''bad consistency''"
definition M_value :: proto_error where "M_value = Malformed ''bad value encoding''"

abbreviation m_u8 :: "cursor \<Rightarrow> (proto_error, u8 \<times> cursor) res" where "m_u8 \<equiv> cur_u8 M_over M_end"
abbreviation m_u16 :: "cursor \<Rightarrow> (proto_error, u16 \<times> cursor) res" where "m_u16 \<equiv> cur_u16 M_over M_end"
abbreviation m_u32 :: "cursor \<Rightarrow> (proto_error, u32 \<times> cursor) res" where "m_u32 \<equiv> cur_u32 M_over M_end"
abbreviation m_u64 :: "cursor \<Rightarrow> (proto_error, u64 \<times> cursor) res" where "m_u64 \<equiv> cur_u64 M_over M_end"
abbreviation m_bytes :: "cursor \<Rightarrow> (proto_error, bytes \<times> cursor) res" where "m_bytes \<equiv> cur_bytes M_over M_end"
abbreviation m_string :: "cursor \<Rightarrow> (proto_error, rstr \<times> cursor) res" where
  "m_string \<equiv> cur_string M_over M_end M_utf8"

subsection \<open>Parts\<close>

text \<open>\<^verbatim>\<open>out[p..p + bs.len()].copy_from_slice(bs)\<close>.\<close>

definition patch :: "bytes \<Rightarrow> nat \<Rightarrow> bytes \<Rightarrow> bytes" where
  "patch out p bs = take p out @ bs @ drop (p + length bs) out"

text \<open>A value behind a length prefix that is filled in afterwards.\<close>

definition encode_cell :: "val \<Rightarrow> bytes \<Rightarrow> bytes" where
  "encode_cell v out =
    (let len_pos = length out;
         out = encode_value v (out @ [0, 0, 0, 0]);
         len = length out - len_pos - 4
     in patch out len_pos (u32_le len))"

definition decode_cell :: "cursor \<Rightarrow> (proto_error, val \<times> cursor) res" where
  "decode_cell c = rbind (m_bytes c) (\<lambda>(bs, c).
     rbind (map_err (\<lambda>_. M_value) (decode bs)) (\<lambda>v. Inr (v, c)))"

definition decode_consistency :: "cursor \<Rightarrow> (proto_error, consistency \<times> cursor) res" where
  "decode_consistency c = rbind (m_u8 c) (\<lambda>(b, c).
     case consistency_from_u8 b of None \<Rightarrow> Inl (Err M_consistency) | Some k \<Rightarrow> Inr (k, c))"

text \<open>\<^verbatim>\<open>u16 nparams\<close> and that many cells.\<close>

definition encode_params :: "row \<Rightarrow> bytes \<Rightarrow> bytes" where
  "encode_params params out = fold encode_cell params (out @ u16_le (length params))"

definition decode_params :: "cursor \<Rightarrow> (proto_error, row \<times> cursor) res" where
  "decode_params = read_vec16 M_over M_end decode_cell"

definition encode_columns :: "bytes \<Rightarrow> rstr list \<Rightarrow> bytes" where
  "encode_columns out columns = fold (\<lambda>col out. write_bytes out col) columns (out @ u32_le (length columns))"

definition encode_row_into :: "bytes \<Rightarrow> row \<Rightarrow> bytes" where
  "encode_row_into out row = fold encode_cell row (out @ u32_le (length row))"

definition encode_rows :: "bytes \<Rightarrow> row list \<Rightarrow> bytes" where
  "encode_rows out rows = fold (\<lambda>row out. encode_row_into out row) rows (out @ u32_le (length rows))"

definition decode_columns :: "cursor \<Rightarrow> (proto_error, rstr list \<times> cursor) res" where
  "decode_columns = read_vec32 M_over M_end m_string"

definition decode_rows :: "cursor \<Rightarrow> (proto_error, row list \<times> cursor) res" where
  "decode_rows = read_vec32 M_over M_end (read_vec32 M_over M_end decode_cell)"

definition decode_set :: "cursor \<Rightarrow> (proto_error, (rstr list \<times> row list) \<times> cursor) res" where
  "decode_set c = rbind (decode_columns c) (\<lambda>(columns, c). rbind (decode_rows c) (\<lambda>(rows, c). Inr ((columns, rows), c)))"

subsection \<open>Requests\<close>

definition request_encode :: "request \<Rightarrow> bytes" where
  "request_encode r = write_bytes ([OP_QUERY] @ [consistency_to_u8 (req_consistency r)]) (req_sql r)"

definition request_decode :: "bytes \<Rightarrow> (proto_error, request) res" where
  "request_decode bs = rbind (m_u8 (cur_new bs)) (\<lambda>(op, c).
     if op \<noteq> OP_QUERY then Inl (Err (Malformed ''unknown opcode''))
     else rbind (decode_consistency c) (\<lambda>(k, c). rbind (m_string c) (\<lambda>(sql, c).
       Inr \<lparr>req_sql = sql, req_consistency = k\<rparr>)))"

definition client_encode_into :: "client_request \<Rightarrow> bytes \<Rightarrow> bytes" where
  "client_encode_into r out = (case r of
     Query sql k \<Rightarrow> write_bytes (out @ [OP_QUERY] @ [consistency_to_u8 k]) sql
   | Prepare sql \<Rightarrow> write_bytes (out @ [OP_PREPARE]) sql
   | Execute sid params k \<Rightarrow>
       encode_params params (out @ [OP_EXECUTE] @ [consistency_to_u8 k] @ word32_le sid)
   | Close sid \<Rightarrow> out @ [OP_CLOSE] @ word32_le sid
   | QueryStream sql params k \<Rightarrow>
       (let out = write_bytes (out @ [if params = [] then OP_QUERY_STREAM else OP_QUERY_STREAM_PARAMS]
                                @ [consistency_to_u8 k]) sql
        in if params \<noteq> [] then encode_params params out else out)
   | Hello name version \<Rightarrow> write_bytes (write_bytes (out @ [OP_HELLO]) name) version
   | ExecuteBatch sid rows k \<Rightarrow>
       fold encode_params rows
         (out @ [OP_EXECUTE_BATCH] @ [consistency_to_u8 k] @ word32_le sid @ u32_le (length rows)))"

definition client_encode :: "client_request \<Rightarrow> bytes" where
  "client_encode r = client_encode_into r []"

definition client_decode :: "bytes \<Rightarrow> (proto_error, client_request) res" where
  "client_decode bs = rbind (m_u8 (cur_new bs)) (\<lambda>(op, c).
     if op = OP_QUERY then
       rbind (decode_consistency c) (\<lambda>(k, c). rbind (m_string c) (\<lambda>(sql, c). Inr (Query sql k)))
     else if op = OP_PREPARE then rbind (m_string c) (\<lambda>(sql, c). Inr (Prepare sql))
     else if op = OP_EXECUTE then
       rbind (decode_consistency c) (\<lambda>(k, c). rbind (m_u32 c) (\<lambda>(id, c).
         rbind (decode_params c) (\<lambda>(params, c). Inr (Execute id params k))))
     else if op = OP_CLOSE then rbind (m_u32 c) (\<lambda>(id, c). Inr (Close id))
     else if op = OP_HELLO then
       rbind (m_string c) (\<lambda>(name, c). rbind (m_string c) (\<lambda>(version, c). Inr (Hello name version)))
     else if op = OP_EXECUTE_BATCH then
       rbind (decode_consistency c) (\<lambda>(k, c). rbind (m_u32 c) (\<lambda>(id, c).
         rbind (read_vec32 M_over M_end decode_params c) (\<lambda>(rows, c). Inr (ExecuteBatch id rows k))))
     else if op = OP_QUERY_STREAM then
       rbind (decode_consistency c) (\<lambda>(k, c). rbind (m_string c) (\<lambda>(sql, c). Inr (QueryStream sql [] k)))
     else if op = OP_QUERY_STREAM_PARAMS then
       rbind (decode_consistency c) (\<lambda>(k, c). rbind (m_string c) (\<lambda>(sql, c).
         rbind (decode_params c) (\<lambda>(params, c). Inr (QueryStream sql params k))))
     else Inl (Err (Malformed ''unknown opcode'')))"

definition encode_tagged_request :: "u32 \<Rightarrow> client_request \<Rightarrow> bytes \<Rightarrow> bytes" where
  "encode_tagged_request rid r out = client_encode_into r (out @ [OP_TAGGED] @ word32_le rid)"

text \<open>The slices \<^verbatim>\<open>buf[1..5]\<close> and \<^verbatim>\<open>buf[5..]\<close> lie within a buffer of at least six bytes.\<close>

definition decode_client_request :: "bytes \<Rightarrow> (proto_error, u32 option \<times> client_request) res" where
  "decode_client_request bs =
    (if bs \<noteq> [] \<and> hd bs = OP_TAGGED then
       if length bs < 6 then Inl (Err M_end)
       else
         let id = word_of_nat (le_val (take 4 (drop 1 bs))) in
         if bs ! 5 = OP_TAGGED then Inl (Err (Malformed ''nested tagged request''))
         else rbind (client_decode (drop 5 bs)) (\<lambda>r. Inr (Some id, r))
     else rbind (client_decode bs) (\<lambda>r. Inr (None, r)))"

subsection \<open>Responses\<close>

definition response_encode_into :: "response \<Rightarrow> bytes \<Rightarrow> bytes" where
  "response_encode_into r out = (case r of
     Rows columns rows \<Rightarrow> encode_rows (encode_columns (out @ [RESP_ROWS]) columns) rows
   | Mutation affected \<Rightarrow> out @ [RESP_MUTATION] @ word64_le affected
   | Ddl \<Rightarrow> out @ [RESP_DDL]
   | Error msg \<Rightarrow> write_bytes (out @ [RESP_ERROR]) msg
   | Prepared sid params \<Rightarrow> out @ [RESP_PREPARED] @ word32_le sid @ u16_le (unat params)
   | RowsHeader columns \<Rightarrow> encode_columns (out @ [RESP_ROWS_HEADER]) columns
   | RowsChunk rows \<Rightarrow> encode_rows (out @ [RESP_ROWS_CHUNK]) rows
   | RowsEnd \<Rightarrow> out @ [RESP_ROWS_END]
   | ResultSets sets \<Rightarrow>
       fold (\<lambda>(columns, rows) out. encode_rows (encode_columns out columns) rows) sets
         (out @ [RESP_RESULT_SETS] @ u32_le (length sets)))"

definition response_encode :: "response \<Rightarrow> bytes" where
  "response_encode r = response_encode_into r []"

definition result_sets :: "response \<Rightarrow> (rstr list \<times> row list) list" where
  "result_sets r = (case r of Rows columns rows \<Rightarrow> [(columns, rows)] | ResultSets sets \<Rightarrow> sets | _ \<Rightarrow> [])"

definition response_decode :: "bytes \<Rightarrow> (proto_error, response) res" where
  "response_decode bs = rbind (m_u8 (cur_new bs)) (\<lambda>(t, c).
     if t = RESP_ROWS then
       rbind (decode_columns c) (\<lambda>(columns, c). rbind (decode_rows c) (\<lambda>(rows, c). Inr (Rows columns rows)))
     else if t = RESP_MUTATION then rbind (m_u64 c) (\<lambda>(n, c). Inr (Mutation n))
     else if t = RESP_DDL then Inr Ddl
     else if t = RESP_ERROR then rbind (m_string c) (\<lambda>(msg, c). Inr (Error msg))
     else if t = RESP_PREPARED then
       rbind (m_u32 c) (\<lambda>(id, c). rbind (m_u16 c) (\<lambda>(n, c). Inr (Prepared id n)))
     else if t = RESP_ROWS_HEADER then rbind (decode_columns c) (\<lambda>(columns, c). Inr (RowsHeader columns))
     else if t = RESP_ROWS_CHUNK then rbind (decode_rows c) (\<lambda>(rows, c). Inr (RowsChunk rows))
     else if t = RESP_ROWS_END then Inr RowsEnd
     else if t = RESP_RESULT_SETS then
       rbind (read_vec32 M_over M_end decode_set c) (\<lambda>(sets, c). Inr (ResultSets sets))
     else Inl (Err (Malformed ''unknown response tag'')))"

definition tag_response :: "bytes \<Rightarrow> u32 \<Rightarrow> bytes" where
  "tag_response out rid = out @ [RESP_TAGGED] @ word32_le rid"

definition decode_tagged_response :: "bytes \<Rightarrow> (proto_error, u32 option \<times> response) res" where
  "decode_tagged_response bs =
    (if bs \<noteq> [] \<and> hd bs = RESP_TAGGED then
       if length bs < 6 then Inl (Err M_end)
       else
         let id = word_of_nat (le_val (take 4 (drop 1 bs)))
         in rbind (response_decode (drop 5 bs)) (\<lambda>r. Inr (Some id, r))
     else rbind (response_decode bs) (\<lambda>r. Inr (None, r)))"

subsection \<open>The chunk encoder\<close>

record rows_chunk_encoder =
  count_pos :: nat
  count :: u32

definition chunk_begin :: "bytes \<Rightarrow> rows_chunk_encoder \<times> bytes" where
  "chunk_begin out =
    (let out = out @ [RESP_ROWS_CHUNK]; count_pos = length out
     in (\<lparr>count_pos = count_pos, count = 0\<rparr>, out @ [0, 0, 0, 0]))"

definition push_row :: "row \<Rightarrow> rows_chunk_encoder \<times> bytes \<Rightarrow> rows_chunk_encoder \<times> bytes" where
  "push_row row = (\<lambda>(e, out). (e\<lparr>count := count e + 1\<rparr>, encode_row_into out row))"

definition chunk_finish :: "rows_chunk_encoder \<times> bytes \<Rightarrow> bytes" where
  "chunk_finish = (\<lambda>(e, out). patch out (count_pos e) (word32_le (count e)))"

section \<open>What the encoders write\<close>

definition enc_cell :: "val \<Rightarrow> bytes" where
  "enc_cell v = len_bytes (encode v)"

lemma encode_cell_append: "encode_cell v out = out @ enc_cell v"
  by (simp add: encode_cell_def patch_def encode_value_append enc_cell_def len_bytes_def)

lemma encode_params_append: "encode_params ps out = out @ vec16 enc_cell ps"
  unfolding encode_params_def vec16_def
  by (subst fold_append[of _ _ enc_cell]) (simp_all add: encode_cell_append)

lemma encode_columns_append: "encode_columns out cs = out @ vec32 len_bytes cs"
  unfolding encode_columns_def vec32_def
  by (subst fold_append[of _ _ len_bytes]) (simp_all add: write_bytes_len)

lemma encode_row_append: "encode_row_into out r = out @ vec32 enc_cell r"
  unfolding encode_row_into_def vec32_def
  by (subst fold_append[of _ _ enc_cell]) (simp_all add: encode_cell_append)

lemma encode_rows_append: "encode_rows out rs = out @ vec32 (vec32 enc_cell) rs"
  unfolding encode_rows_def vec32_def[of "vec32 enc_cell"]
  by (subst fold_append[of _ _ "vec32 enc_cell"]) (simp_all add: encode_row_append)

definition enc_set :: "rstr list \<times> row list \<Rightarrow> bytes" where
  "enc_set s = vec32 len_bytes (fst s) @ vec32 (vec32 enc_cell) (snd s)"

lemmas encoders_append = encode_cell_append encode_params_append encode_columns_append encode_row_append
  encode_rows_append write_bytes_len

lemma client_encode_append: "client_encode_into r out = out @ client_encode r"
proof (cases r)
  case (ExecuteBatch sid rows k)
  have "fold encode_params rows o1 = o1 @ concat (map (vec16 enc_cell) rows)" for o1
    by (rule fold_append) (rule encode_params_append)
  with ExecuteBatch show ?thesis by (simp add: client_encode_def client_encode_into_def)
qed (simp_all add: client_encode_def client_encode_into_def encoders_append)

lemma response_encode_append: "response_encode_into r out = out @ response_encode r"
proof (cases r)
  case (ResultSets sets)
  have "fold (\<lambda>(columns, rows) out. encode_rows (encode_columns out columns) rows) sets o1
      = o1 @ concat (map enc_set sets)" for o1
    by (rule fold_append) (auto simp: encoders_append enc_set_def split: prod.splits)
  with ResultSets show ?thesis by (simp add: response_encode_def response_encode_into_def)
qed (simp_all add: response_encode_def response_encode_into_def encoders_append)

lemma client_encode_simps:
  "client_encode (Query sql k) = OP_QUERY # consistency_to_u8 k # len_bytes sql"
  "client_encode (Prepare sql) = OP_PREPARE # len_bytes sql"
  "client_encode (Execute sid ps k) = OP_EXECUTE # consistency_to_u8 k # word32_le sid @ vec16 enc_cell ps"
  "client_encode (Close sid) = OP_CLOSE # word32_le sid"
  "client_encode (QueryStream sql ps k) =
     (if ps = [] then OP_QUERY_STREAM # consistency_to_u8 k # len_bytes sql
      else OP_QUERY_STREAM_PARAMS # consistency_to_u8 k # len_bytes sql @ vec16 enc_cell ps)"
  "client_encode (Hello n v) = OP_HELLO # len_bytes n @ len_bytes v"
  "client_encode (ExecuteBatch sid rows k) =
     OP_EXECUTE_BATCH # consistency_to_u8 k # word32_le sid @ vec32 (vec16 enc_cell) rows"
proof -
  have "fold encode_params rows o1 = o1 @ concat (map (vec16 enc_cell) rows)" for o1
    by (rule fold_append) (rule encode_params_append)
  then show "client_encode (ExecuteBatch sid rows k) =
     OP_EXECUTE_BATCH # consistency_to_u8 k # word32_le sid @ vec32 (vec16 enc_cell) rows"
    by (simp add: client_encode_def client_encode_into_def vec32_def)
qed (simp_all add: client_encode_def client_encode_into_def encoders_append)

lemma response_encode_simps:
  "response_encode (Rows cs rs) = RESP_ROWS # vec32 len_bytes cs @ vec32 (vec32 enc_cell) rs"
  "response_encode (Mutation n) = RESP_MUTATION # word64_le n"
  "response_encode Ddl = [RESP_DDL]"
  "response_encode (Error m) = RESP_ERROR # len_bytes m"
  "response_encode (Prepared sid np) = RESP_PREPARED # word32_le sid @ u16_le (unat np)"
  "response_encode (RowsHeader cs) = RESP_ROWS_HEADER # vec32 len_bytes cs"
  "response_encode (RowsChunk rs) = RESP_ROWS_CHUNK # vec32 (vec32 enc_cell) rs"
  "response_encode RowsEnd = [RESP_ROWS_END]"
  "response_encode (ResultSets sets) = RESP_RESULT_SETS # vec32 enc_set sets"
proof -
  have "fold (\<lambda>(columns, rows) out. encode_rows (encode_columns out columns) rows) sets o1
      = o1 @ concat (map enc_set sets)" for o1
    by (rule fold_append) (auto simp: encoders_append enc_set_def split: prod.splits)
  then show "response_encode (ResultSets sets) = RESP_RESULT_SETS # vec32 enc_set sets"
    by (simp add: response_encode_def response_encode_into_def vec32_def)
qed (simp_all add: response_encode_def response_encode_into_def encoders_append)

section \<open>Fields of messages\<close>

definition cell_ok :: "val \<Rightarrow> bool" where
  "cell_ok v \<longleftrightarrow> storable v \<and> length (encode v) < 2 ^ 32"

definition str_ok :: "rstr \<Rightarrow> bool" where
  "str_ok s \<longleftrightarrow> length s < 2 ^ 32 \<and> utf8_ok s"

definition columns_ok :: "rstr list \<Rightarrow> bool" where
  "columns_ok cs \<longleftrightarrow> length cs < 2 ^ 32 \<and> (\<forall>c \<in> set cs. str_ok c)"

definition row_ok :: "row \<Rightarrow> bool" where
  "row_ok r \<longleftrightarrow> length r < 2 ^ 32 \<and> (\<forall>v \<in> set r. cell_ok v)"

definition rows_ok :: "row list \<Rightarrow> bool" where
  "rows_ok rs \<longleftrightarrow> length rs < 2 ^ 32 \<and> (\<forall>r \<in> set rs. row_ok r)"

definition params_ok :: "row \<Rightarrow> bool" where
  "params_ok r \<longleftrightarrow> length r < 2 ^ 16 \<and> (\<forall>v \<in> set r. cell_ok v)"

definition set_ok :: "rstr list \<times> row list \<Rightarrow> bool" where
  "set_ok s \<longleftrightarrow> columns_ok (fst s) \<and> rows_ok (snd s)"

interpretation cell: field_codec enc_cell decode_cell cell_ok
proof
  fix v pre post
  assume v: "cell_ok v" and f: "fits (pre @ enc_cell v @ post)"
  have "fits (encode v)" using f by (simp add: fits_def enc_cell_def)
  then have "decode (encode v) = Inr v"
    using v decode_value_at[of v "[]" "[]"] by (simp add: decode_def cur_new_at at_end_def cell_ok_def)
  with v f cur_bytes_at[of pre "encode v" post M_over M_end]
  show "decode_cell (cur_at pre (enc_cell v @ post)) = Inr (v, cur_at (pre @ enc_cell v) post)"
    by (simp add: decode_cell_def enc_cell_def cell_ok_def)
qed

interpretation mstr: field_codec len_bytes m_string str_ok
  by unfold_locales (simp add: cur_string_at str_ok_def)

interpretation params: field_codec "vec16 enc_cell" decode_params params_ok
  unfolding decode_params_def params_ok_def [abs_def] by (rule cell.vec16_codec)

interpretation columns: field_codec "vec32 len_bytes" decode_columns columns_ok
  unfolding decode_columns_def columns_ok_def [abs_def] by (rule mstr.vec32_codec)

interpretation mrow: field_codec "vec32 enc_cell" "read_vec32 M_over M_end decode_cell" row_ok
  unfolding row_ok_def [abs_def] by (rule cell.vec32_codec)

interpretation mrows: field_codec "vec32 (vec32 enc_cell)" decode_rows rows_ok
  unfolding decode_rows_def rows_ok_def [abs_def] by (rule mrow.vec32_codec)

interpretation mset_field: field_codec enc_set decode_set set_ok
proof
  fix s pre post
  assume s: "set_ok s" and f: "fits (pre @ enc_set s @ post)"
  from s f columns.dec_enc[of "fst s" pre "vec32 (vec32 enc_cell) (snd s) @ post"]
    mrows.dec_enc[of "snd s" "pre @ vec32 len_bytes (fst s)" post]
  show "decode_set (cur_at pre (enc_set s @ post)) = Inr (s, cur_at (pre @ enc_set s) post)"
    by (simp add: decode_set_def enc_set_def set_ok_def)
qed

definition consistency_byte :: "consistency \<Rightarrow> bytes" where
  "consistency_byte k = [consistency_to_u8 k]"

lemma consistency_roundtrip [simp]: "consistency_from_u8 (consistency_to_u8 k) = Some k"
  by (cases k) (simp_all add: consistency_from_u8_def consistency_to_u8_def)

interpretation level: field_codec consistency_byte decode_consistency "\<lambda>_. True"
  by unfold_locales (simp add: decode_consistency_def consistency_byte_def cur_u8_at)

interpretation batch: field_codec "vec32 (vec16 enc_cell)" "read_vec32 M_over M_end decode_params"
  "\<lambda>rows. length rows < 2 ^ 32 \<and> (\<forall>r \<in> set rows. params_ok r)"
  by (rule params.vec32_codec)

interpretation sets: field_codec "vec32 enc_set" "read_vec32 M_over M_end decode_set"
  "\<lambda>sets. length sets < 2 ^ 32 \<and> (\<forall>s \<in> set sets. set_ok s)"
  by (rule mset_field.vec32_codec)

section \<open>Decoding what was encoded\<close>

text \<open>Requests and responses whose strings, counts and values fit their prefixes.\<close>

definition request_ok :: "client_request \<Rightarrow> bool" where
  "request_ok r = (case r of
     Query sql _ \<Rightarrow> str_ok sql
   | Prepare sql \<Rightarrow> str_ok sql
   | Execute _ ps _ \<Rightarrow> params_ok ps
   | Close _ \<Rightarrow> True
   | QueryStream sql ps _ \<Rightarrow> str_ok sql \<and> params_ok ps
   | ExecuteBatch _ rows _ \<Rightarrow> length rows < 2 ^ 32 \<and> (\<forall>r \<in> set rows. params_ok r)
   | Hello n v \<Rightarrow> str_ok n \<and> str_ok v)"

definition response_ok :: "response \<Rightarrow> bool" where
  "response_ok r = (case r of
     Rows cs rs \<Rightarrow> columns_ok cs \<and> rows_ok rs
   | Error m \<Rightarrow> str_ok m
   | RowsHeader cs \<Rightarrow> columns_ok cs
   | RowsChunk rs \<Rightarrow> rows_ok rs
   | ResultSets sets \<Rightarrow> length sets < 2 ^ 32 \<and> (\<forall>s \<in> set sets. set_ok s)
   | _ \<Rightarrow> True)"

lemma opcode_at:
  "fits (op # bs) \<Longrightarrow> m_u8 (cur_new (op # bs)) = Inr (op, cur_at [op] bs)"
  using cur_u8_at[of "[]" op bs M_over M_end] by (simp add: cur_new_at)

lemma level_at:
  "fits (pre @ consistency_to_u8 k # bs) \<Longrightarrow>
   decode_consistency (cur_at pre (consistency_to_u8 k # bs)) = Inr (k, cur_at (pre @ [consistency_to_u8 k]) bs)"
  using level.dec_enc[of pre k bs] by (simp add: consistency_byte_def)

lemma client_decode_encode:
  assumes "request_ok r" and "fits (client_encode r @ post)"
  shows "client_decode (client_encode r @ post) = Inr r"
proof (cases r)
  case (Query sql k)
  then show ?thesis
    using assms mstr.dec_enc[of sql "[OP_QUERY, consistency_to_u8 k]" post]
    by (simp add: client_decode_def client_encode_simps opcode_at level_at request_ok_def)
next
  case (Prepare sql)
  then show ?thesis
    using assms mstr.dec_enc[of sql "[OP_PREPARE]" post]
    by (simp add: client_decode_def client_encode_simps opcode_at request_ok_def)
next
  case (Execute sid ps k)
  then show ?thesis
    using assms cur_word32_at[of "[OP_EXECUTE, consistency_to_u8 k]" sid "vec16 enc_cell ps @ post" M_over M_end]
      params.dec_enc[of ps "OP_EXECUTE # consistency_to_u8 k # word32_le sid" post]
    by (simp add: client_decode_def client_encode_simps opcode_at level_at request_ok_def)
next
  case (Close sid)
  then show ?thesis
    using assms cur_word32_at[of "[OP_CLOSE]" sid post M_over M_end]
    by (simp add: client_decode_def client_encode_simps opcode_at)
next
  case (QueryStream sql ps k)
  then show ?thesis
    using assms mstr.dec_enc[of sql "[OP_QUERY_STREAM, consistency_to_u8 k]" post]
      mstr.dec_enc[of sql "[OP_QUERY_STREAM_PARAMS, consistency_to_u8 k]" "vec16 enc_cell ps @ post"]
      params.dec_enc[of ps "OP_QUERY_STREAM_PARAMS # consistency_to_u8 k # len_bytes sql" post]
    by (cases "ps = []") (simp_all add: client_decode_def client_encode_simps opcode_at level_at request_ok_def)
next
  case (ExecuteBatch sid rows k)
  then show ?thesis
    using assms cur_word32_at[of "[OP_EXECUTE_BATCH, consistency_to_u8 k]" sid "vec32 (vec16 enc_cell) rows @ post" M_over M_end]
      batch.dec_enc[of rows "OP_EXECUTE_BATCH # consistency_to_u8 k # word32_le sid" post]
    by (simp add: client_decode_def client_encode_simps opcode_at level_at request_ok_def)
next
  case (Hello n v)
  then show ?thesis
    using assms mstr.dec_enc[of n "[OP_HELLO]" "len_bytes v @ post"] mstr.dec_enc[of v "OP_HELLO # len_bytes n" post]
    by (simp add: client_decode_def client_encode_simps opcode_at request_ok_def)
qed

lemma response_decode_encode:
  assumes "response_ok r" and "fits (response_encode r @ post)"
  shows "response_decode (response_encode r @ post) = Inr r"
proof (cases r)
  case (Rows cs rs)
  then show ?thesis
    using assms columns.dec_enc[of cs "[RESP_ROWS]" "vec32 (vec32 enc_cell) rs @ post"]
      mrows.dec_enc[of rs "RESP_ROWS # vec32 len_bytes cs" post]
    by (simp add: response_decode_def response_encode_simps opcode_at response_ok_def)
next
  case (Mutation n)
  then show ?thesis
    using assms cur_word64_at[of "[RESP_MUTATION]" n post M_over M_end]
    by (simp add: response_decode_def response_encode_simps opcode_at)
next
  case (Error m)
  then show ?thesis
    using assms mstr.dec_enc[of m "[RESP_ERROR]" post]
    by (simp add: response_decode_def response_encode_simps opcode_at response_ok_def)
next
  case (Prepared sid np)
  then show ?thesis
    using assms cur_word32_at[of "[RESP_PREPARED]" sid "u16_le (unat np) @ post" M_over M_end]
      cur_u16_at[of "RESP_PREPARED # word32_le sid" "unat np" post M_over M_end]
    by (simp add: response_decode_def response_encode_simps opcode_at)
next
  case (RowsHeader cs)
  then show ?thesis
    using assms columns.dec_enc[of cs "[RESP_ROWS_HEADER]" post]
    by (simp add: response_decode_def response_encode_simps opcode_at response_ok_def)
next
  case (RowsChunk rs)
  then show ?thesis
    using assms mrows.dec_enc[of rs "[RESP_ROWS_CHUNK]" post]
    by (simp add: response_decode_def response_encode_simps opcode_at response_ok_def)
next
  case (ResultSets ss)
  then show ?thesis
    using assms sets.dec_enc[of ss "[RESP_RESULT_SETS]" post]
    by (simp add: response_decode_def response_encode_simps opcode_at response_ok_def)
qed (use assms in \<open>simp_all add: response_decode_def response_encode_simps opcode_at\<close>)

section \<open>Totality\<close>

lemma clean_parts [simp]:
  "clean (decode_cell c)" "clean (decode_consistency c)" "clean (decode_params c)" "clean (decode_columns c)"
  "clean (decode_rows c)" "clean (decode_set c)"
proof -
  have d: "clean (decode bs)" for bs
    unfolding decode_def by (rule clean_rbind) (auto simp: at_end_def)
  show cell: "clean (decode_cell c)" for c
    by (auto simp: decode_cell_def d intro!: clean_rbind)
  show "clean (decode_consistency c)"
    by (auto simp: decode_consistency_def intro!: clean_rbind split: option.splits)
  show "clean (decode_params c)" by (simp add: decode_params_def cell)
  show cols: "clean (decode_columns c)" for c by (simp add: decode_columns_def)
  show rows: "clean (decode_rows c)" for c by (simp add: decode_rows_def cell)
  show "clean (decode_set c)"
    by (auto simp: decode_set_def cols rows intro!: clean_rbind)
qed

lemma clean_messages [simp]: "clean (client_decode bs)" "clean (response_decode bs)"
  unfolding client_decode_def response_decode_def by (auto intro!: clean_rbind)

section \<open>The chunk encoder\<close>

lemma push_rows:
  "fold push_row rows (e, out) =
    (e\<lparr>count := count e + word_of_nat (length rows)\<rparr>, out @ concat (map (vec32 enc_cell) rows))"
  by (induction rows arbitrary: e out) (simp_all add: push_row_def encode_row_append)

section \<open>Properties\<close>

text \<open>C18: Every request whose strings, values and counts fit their length prefixes decodes to itself,
  whatever bytes follow it.\<close>

theorem client_request_roundtrip:
  assumes "request_ok r" and "fits (client_encode r @ post)"
  shows "client_decode (client_encode r @ post) = Inr r"
  by (rule client_decode_encode[OF assms])

theorem client_request_roundtrip_witness:
  "client_decode (client_encode (QueryStream [0x3F] [VInt 7, VNull] Quorum) @ [1])
   = Inr (QueryStream [0x3F] [VInt 7, VNull] Quorum)"
  by (rule client_request_roundtrip)
    (simp_all add: request_ok_def str_ok_def params_ok_def cell_ok_def storable_def fits_def
      client_encode_simps vec16_def enc_cell_def)

text \<open>C19: Every response within the same limits decodes to itself.\<close>

theorem response_roundtrip:
  assumes "response_ok r" and "fits (response_encode r @ post)"
  shows "response_decode (response_encode r @ post) = Inr r"
  by (rule response_decode_encode[OF assms])

theorem response_roundtrip_witness:
  "response_decode (response_encode (Rows [[0x61]] [[VBool True], [VNull]]) @ [])
   = Inr (Rows [[0x61]] [[VBool True], [VNull]])"
  by (rule response_roundtrip)
    (simp_all add: response_ok_def columns_ok_def rows_ok_def row_ok_def str_ok_def cell_ok_def storable_def
      fits_def response_encode_simps vec32_def enc_cell_def)

text \<open>The server decodes a pipelined request to its id and the request, and a plain one, whose
  opcode is never the wrapper's, to no id and the request.\<close>

theorem tagged_request_roundtrip:
  assumes "request_ok r" and "fits (encode_tagged_request rid r [])"
  shows "decode_client_request (encode_tagged_request rid r []) = Inr (Some rid, r)
    \<and> decode_client_request (client_encode r) = Inr (None, r)"
proof -
  have enc: "encode_tagged_request rid r [] = OP_TAGGED # word32_le rid @ client_encode r"
    by (simp add: encode_tagged_request_def client_encode_append)
  have hd: "client_encode r \<noteq> []" "hd (client_encode r) \<noteq> OP_TAGGED"
    by (cases r; simp add: client_encode_simps)+
  have nth: "(OP_TAGGED # word32_le rid @ client_encode r) ! 5 = hd (client_encode r)"
    using hd(1) by (simp add: nth_append hd_conv_nth)
  have "fits (client_encode r)" using assms(2) by (simp add: enc fits_def)
  then have dec: "client_decode (client_encode r) = Inr r"
    using client_decode_encode[OF assms(1), of "[]"] by simp
  have "\<not> length (OP_TAGGED # word32_le rid @ client_encode r) < 6"
    using hd(1) by (simp add: Suc_le_eq)
  with dec hd nth show ?thesis
    unfolding enc decode_client_request_def by simp
qed

theorem tagged_request_roundtrip_witness:
  "decode_client_request (encode_tagged_request 7 (Close 9) []) = Inr (Some 7, Close 9)"
  using tagged_request_roundtrip[of "Close 9" 7]
  by (simp add: request_ok_def fits_def encode_tagged_request_def client_encode_append client_encode_simps)

text \<open>The client decodes a tagged response to the echoed id and the response. A plain response comes
  back with no id unless it is a multi-result reply.\<close>

theorem tagged_response_roundtrip:
  assumes "response_ok r" and "fits (tag_response [] rid @ response_encode r)"
  shows "decode_tagged_response (tag_response [] rid @ response_encode r) = Inr (Some rid, r)
    \<and> ((\<exists>ss. r = ResultSets ss) \<or> decode_tagged_response (response_encode r) = Inr (None, r))"
proof -
  have ne: "response_encode r \<noteq> []" by (cases r) (simp_all add: response_encode_simps)
  have hd: "(\<exists>ss. r = ResultSets ss) \<or> hd (response_encode r) \<noteq> RESP_TAGGED"
    by (cases r) (simp_all add: response_encode_simps)
  have "fits (response_encode r)" using assms(2) by (simp add: fits_def)
  then have dec: "response_decode (response_encode r) = Inr r"
    using response_decode_encode[OF assms(1), of "[]"] by simp
  have "\<not> length (RESP_TAGGED # word32_le rid @ response_encode r) < 6"
    using ne by (simp add: Suc_le_eq)
  with dec hd show ?thesis
    by (auto simp: decode_tagged_response_def tag_response_def)
qed

theorem tagged_response_roundtrip_witness:
  "decode_tagged_response (tag_response [] 3 @ response_encode (Mutation 5)) = Inr (Some 3, Mutation 5)
   \<and> decode_tagged_response (response_encode (Mutation 5)) = Inr (None, Mutation 5)"
  using tagged_response_roundtrip[of "Mutation 5" 3]
  by (simp add: response_ok_def fits_def tag_response_def response_encode_simps)

text \<open>The tag of a multi-result reply is the tag of the pipelining wrapper, so a plain reply with
  one result set of two columns is taken for the tagged reply \<^verbatim>\<open>Ddl\<close> to request 1.\<close>

theorem untagged_result_sets_misread:
  "decode_tagged_response (response_encode (ResultSets [([a, b], rows)])) = Inr (Some 1, Ddl)"
proof -
  have "response_encode (ResultSets [([a, b], rows)])
      = RESP_TAGGED # word32_le 1 @ RESP_DDL # 0 # 0 # 0 # len_bytes a @ len_bytes b @ vec32 (vec32 enc_cell) rows"
    by (simp add: response_encode_simps vec32_def enc_set_def u32_le_small word32_le_def le_bytes_4)
  moreover have "response_decode (RESP_DDL # x) = Inr Ddl" for x
    by (simp add: response_decode_def cur_u8_def cur_take_def cur_new_def)
  ultimately show ?thesis
    by (simp add: decode_tagged_response_def)
qed

text \<open>The parameter count of \<^verbatim>\<open>Execute\<close> is sent as a \<^verbatim>\<open>u16\<close>: the server sees the parameters truncated
  to the count modulo 65536 and ignores the rest of the frame, without an error.\<close>

theorem execute_params_truncated:
  assumes "list_all cell_ok ps" and "fits (client_encode (Execute sid ps k))"
  shows "client_decode (client_encode (Execute sid ps k)) = Inr (Execute sid (take (length ps mod 65536) ps) k)"
proof -
  let ?h = "OP_EXECUTE # consistency_to_u8 k # word32_le sid" and ?ps = "take (length ps mod 65536) ps"
  have f: "fits (?h @ vec16 enc_cell ps)" using assms(2) by (simp add: client_encode_simps)
  have "\<exists>c. decode_params (cur_at ?h (vec16 enc_cell ps @ [])) = Inr (?ps, c)"
    unfolding decode_params_def
    by (rule exI, rule cell.vec16_at) (use assms(1) f in \<open>simp_all add: list_all_iff\<close>)
  then obtain c where c: "decode_params (cur_at ?h (vec16 enc_cell ps)) = Inr (?ps, c)" by auto
  have "m_u32 (cur_at [OP_EXECUTE, consistency_to_u8 k] (word32_le sid @ vec16 enc_cell ps))
      = Inr (sid, cur_at ?h (vec16 enc_cell ps))"
    using cur_word32_at[of "[OP_EXECUTE, consistency_to_u8 k]" sid "vec16 enc_cell ps" M_over M_end] f by simp
  with c f show ?thesis
    by (simp add: client_decode_def client_encode_simps opcode_at level_at)
qed

theorem execute_params_truncated_witness:
  "client_decode (client_encode (Execute 4 (replicate 65536 VNull) One)) = Inr (Execute 4 [] One)"
proof -
  define n :: nat where "n = 65536"
  have "length (concat (map enc_cell (replicate n VNull))) = n * 5"
    by (induction n) (simp_all add: enc_cell_def)
  then have "fits (client_encode (Execute 4 (replicate n VNull) One))"
    by (simp add: fits_def client_encode_simps vec16_def) (simp add: n_def)
  from execute_params_truncated[OF _ this]
  have "client_decode (client_encode (Execute 4 (replicate n VNull) One)) = Inr (Execute 4 (take (n mod 65536) (replicate n VNull)) One)"
    by (simp add: list_all_iff cell_ok_def storable_def)
  then show ?thesis by (simp only: n_def mod_self take_0)
qed

text \<open>The decoders are total on arbitrary input: requests and responses, tagged or not, decode to a
  value or an error, never a panic.\<close>

theorem message_decoders_total: "clean (decode_client_request bs) \<and> clean (decode_tagged_response bs)"
  by (auto simp: decode_client_request_def decode_tagged_response_def Let_def intro!: clean_rbind)

text \<open>The incremental chunk encoder writes exactly the bytes of the \<^verbatim>\<open>RowsChunk\<close> response, after
  whatever the buffer already holds.\<close>

theorem chunk_encoder_equivalent:
  "chunk_finish (fold push_row rows (chunk_begin out)) = response_encode_into (RowsChunk rows) out"
  by (simp add: chunk_begin_def push_rows chunk_finish_def patch_def response_encode_append response_encode_simps
      vec32_def word32_le_def u32_le_def unat_of_nat take_bit_eq_mod)

end
