(* ===== verification/Handshake.thy ===== *)
theory Handshake
  imports Cursor Text Message
begin

text \<open>
  The messages of the authentication handshake (\<^verbatim>\<open>skaidb-proto/src/handshake.rs\<close>) and the message both
  sides sign over.
\<close>

section \<open>Definitions\<close>

abbreviation T_START :: u8 where "T_START \<equiv> 10"
abbreviation T_CHALLENGE :: u8 where "T_CHALLENGE \<equiv> 11"
abbreviation T_FINISH :: u8 where "T_FINISH \<equiv> 12"
abbreviation T_OUTCOME :: u8 where "T_OUTCOME \<equiv> 13"
abbreviation T_TOKEN :: u8 where "T_TOKEN \<equiv> 14"

datatype auth_mechanism = ScramSha256 | Gssapi | External

definition mechanism_to_byte :: "auth_mechanism \<Rightarrow> u8" where
  "mechanism_to_byte m = (case m of ScramSha256 \<Rightarrow> 0 | Gssapi \<Rightarrow> 1 | External \<Rightarrow> 2)"

definition mechanism_from_byte :: "u8 \<Rightarrow> (proto_error, auth_mechanism) res" where
  "mechanism_from_byte b =
    (if b = 0 then Inr ScramSha256 else if b = 1 then Inr Gssapi else if b = 2 then Inr External
     else Inl (Err (Malformed ''unknown auth mechanism'')))"

record auth_start =
  username :: rstr
  client_nonce :: rstr
  mechanism :: auth_mechanism

record auth_token =
  token :: bytes

record auth_challenge =
  salt :: bytes
  iterations :: u32
  server_nonce :: rstr

record auth_finish =
  client_proof :: bytes

datatype auth_outcome = AuthOk bytes | Denied rstr

definition auth_message :: "rstr \<Rightarrow> rstr \<Rightarrow> rstr \<Rightarrow> bytes \<Rightarrow> u32 \<Rightarrow> bytes" where
  "auth_message user cnonce snonce slt iters =
    user @ [0] @ cnonce @ [0] @ snonce @ [0] @ hex slt @ [0] @ show_nat (unat iters)"

definition H_over :: proto_error where "H_over = Malformed ''overflow''"
definition H_short :: proto_error where "H_short = Malformed ''short handshake message''"
definition H_utf8 :: proto_error where "H_utf8 = Malformed ''bad utf-8''"

abbreviation h_u8 :: "cursor \<Rightarrow> (proto_error, u8 \<times> cursor) res" where "h_u8 \<equiv> cur_u8 H_over H_short"
abbreviation h_u32 :: "cursor \<Rightarrow> (proto_error, u32 \<times> cursor) res" where "h_u32 \<equiv> cur_u32 H_over H_short"
abbreviation h_take :: "nat \<Rightarrow> cursor \<Rightarrow> (proto_error, bytes \<times> cursor) res" where "h_take \<equiv> cur_take H_over H_short"
abbreviation h_bytes :: "cursor \<Rightarrow> (proto_error, bytes \<times> cursor) res" where "h_bytes \<equiv> cur_bytes H_over H_short"
abbreviation h_string :: "cursor \<Rightarrow> (proto_error, rstr \<times> cursor) res" where "h_string \<equiv> cur_string H_over H_short H_utf8"

definition reader_new :: "bytes \<Rightarrow> u8 \<Rightarrow> (proto_error, cursor) res" where
  "reader_new bs expect_tag = rbind (h_u8 (cur_new bs)) (\<lambda>(t, c).
     if t \<noteq> expect_tag then Inl (Err (Malformed ''unexpected handshake tag'')) else Inr c)"

definition put_bytes :: "bytes \<Rightarrow> bytes \<Rightarrow> bytes" where
  "put_bytes out b = out @ u32_le (length b) @ b"

definition put_str :: "bytes \<Rightarrow> rstr \<Rightarrow> bytes" where
  "put_str out s = put_bytes out s"

definition auth_start_encode :: "auth_start \<Rightarrow> bytes" where
  "auth_start_encode a = put_str (put_str [T_START] (username a)) (client_nonce a) @ [mechanism_to_byte (mechanism a)]"

definition auth_start_decode :: "bytes \<Rightarrow> (proto_error, auth_start) res" where
  "auth_start_decode bs = rbind (reader_new bs T_START) (\<lambda>c. rbind (h_string c) (\<lambda>(user, c).
     rbind (h_string c) (\<lambda>(nonce, c).
       rbind (if 0 < cur_remaining c then rbind (h_u8 c) (\<lambda>(b, c). mechanism_from_byte b) else Inr ScramSha256) (\<lambda>m.
         Inr \<lparr>username = user, client_nonce = nonce, mechanism = m\<rparr>))))"

definition auth_token_encode :: "auth_token \<Rightarrow> bytes" where
  "auth_token_encode a = put_bytes [T_TOKEN] (token a)"

definition auth_token_decode :: "bytes \<Rightarrow> (proto_error, auth_token) res" where
  "auth_token_decode bs = rbind (reader_new bs T_TOKEN) (\<lambda>c. rbind (h_bytes c) (\<lambda>(t, c). Inr \<lparr>token = t\<rparr>))"

definition auth_challenge_encode :: "auth_challenge \<Rightarrow> bytes" where
  "auth_challenge_encode a = put_str (put_bytes [T_CHALLENGE] (salt a) @ word32_le (iterations a)) (server_nonce a)"

definition auth_challenge_decode :: "bytes \<Rightarrow> (proto_error, auth_challenge) res" where
  "auth_challenge_decode bs = rbind (reader_new bs T_CHALLENGE) (\<lambda>c. rbind (h_bytes c) (\<lambda>(s, c).
     rbind (h_u32 c) (\<lambda>(n, c). rbind (h_string c) (\<lambda>(nonce, c).
       Inr \<lparr>salt = s, iterations = n, server_nonce = nonce\<rparr>))))"

definition auth_finish_encode :: "auth_finish \<Rightarrow> bytes" where
  "auth_finish_encode a = [T_FINISH] @ client_proof a"

definition auth_finish_decode :: "bytes \<Rightarrow> (proto_error, auth_finish) res" where
  "auth_finish_decode bs = rbind (reader_new bs T_FINISH) (\<lambda>c. rbind (h_take 32 c) (\<lambda>(p, c).
     if length p \<noteq> 32 then Inl (Err (Malformed ''bad proof length'')) else Inr \<lparr>client_proof = p\<rparr>))"

definition auth_outcome_encode :: "auth_outcome \<Rightarrow> bytes" where
  "auth_outcome_encode a = (case a of
     AuthOk sig \<Rightarrow> [T_OUTCOME] @ [1] @ sig
   | Denied reason \<Rightarrow> put_str ([T_OUTCOME] @ [0]) reason)"

definition auth_outcome_decode :: "bytes \<Rightarrow> (proto_error, auth_outcome) res" where
  "auth_outcome_decode bs = rbind (reader_new bs T_OUTCOME) (\<lambda>c. rbind (h_u8 c) (\<lambda>(t, c).
     if t = 1 then rbind (h_take 32 c) (\<lambda>(s, c).
       if length s \<noteq> 32 then Inl (Err (Malformed ''bad signature length'')) else Inr (AuthOk s))
     else if t = 0 then rbind (h_string c) (\<lambda>(reason, c). Inr (Denied reason))
     else Inl (Err (Malformed ''bad outcome tag''))))"

section \<open>Round trips\<close>

interpretation hstr: field_codec len_bytes h_string str_ok
  by unfold_locales (simp add: cur_string_at str_ok_def)

lemma put_len: "put_bytes out b = out @ len_bytes b" "put_str out s = out @ len_bytes s"
  by (simp_all add: put_bytes_def put_str_def len_bytes_def)

lemma reader_at: "fits (t # bs) \<Longrightarrow> reader_new (t # bs) t = Inr (cur_at [t] bs)"
  using cur_u8_at[of "[]" t bs H_over H_short] by (simp add: reader_new_def cur_new_at)

lemma mechanism_roundtrip [simp]: "mechanism_from_byte (mechanism_to_byte m) = Inr m"
  by (cases m) (simp_all add: mechanism_from_byte_def mechanism_to_byte_def)

definition start_fields :: "auth_start \<Rightarrow> bytes" where
  "start_fields a = T_START # len_bytes (username a) @ len_bytes (client_nonce a)"

lemma auth_start_fields: "auth_start_encode a = start_fields a @ [mechanism_to_byte (mechanism a)]"
  by (simp add: auth_start_encode_def start_fields_def put_len)

lemma start_fields_decode:
  assumes "str_ok (username a)" and "str_ok (client_nonce a)" and "fits (start_fields a @ post)"
  shows "auth_start_decode (start_fields a @ post) =
    rbind (if post \<noteq> [] then rbind (h_u8 (cur_at (start_fields a) post)) (\<lambda>(b, c). mechanism_from_byte b) else Inr ScramSha256)
      (\<lambda>m. Inr \<lparr>username = username a, client_nonce = client_nonce a, mechanism = m\<rparr>)"
proof -
  have "reader_new (start_fields a @ post) T_START
      = Inr (cur_at [T_START] (len_bytes (username a) @ len_bytes (client_nonce a) @ post))"
    using reader_at[of T_START "len_bytes (username a) @ len_bytes (client_nonce a) @ post"] assms(3)
    by (simp add: start_fields_def)
  then show ?thesis
    using hstr.dec_enc[of "username a" "[T_START]" "len_bytes (client_nonce a) @ post"]
      hstr.dec_enc[of "client_nonce a" "T_START # len_bytes (username a)" post] assms
    by (simp add: auth_start_decode_def start_fields_def)
qed

lemma outcome_roundtrip:
  assumes "case oc of AuthOk sig \<Rightarrow> length sig = 32 | Denied reason \<Rightarrow> str_ok reason"
  shows "auth_outcome_decode (auth_outcome_encode oc) = Inr oc"
proof (cases oc)
  case (AuthOk sig)
  then show ?thesis
    using assms reader_at[of T_OUTCOME "1 # sig"] cur_u8_at[of "[T_OUTCOME]" 1 sig H_over H_short]
      cur_take_at[of "[T_OUTCOME, 1]" sig "[]" "length sig" H_over H_short]
    by (simp add: auth_outcome_encode_def auth_outcome_decode_def fits_def)
next
  case (Denied reason)
  then have "length reason < 2 ^ 32" using assms by (simp add: str_ok_def)
  with Denied show ?thesis
    using assms reader_at[of T_OUTCOME "0 # len_bytes reason"]
      cur_u8_at[of "[T_OUTCOME]" 0 "len_bytes reason" H_over H_short]
      hstr.dec_enc[of reason "[T_OUTCOME, 0]" "[]"]
    by (simp add: auth_outcome_encode_def auth_outcome_decode_def fits_def put_len)
qed

lemma challenge_roundtrip:
  assumes "length (salt ch) < 2 ^ 32" and "str_ok (server_nonce ch)"
  shows "auth_challenge_decode (auth_challenge_encode ch) = Inr ch"
proof -
  let ?ch = "T_CHALLENGE # len_bytes (salt ch) @ word32_le (iterations ch) @ len_bytes (server_nonce ch)"
  have "fits ?ch" using assms by (simp add: fits_def str_ok_def)
  with assms show ?thesis
    using reader_at[of T_CHALLENGE "len_bytes (salt ch) @ word32_le (iterations ch) @ len_bytes (server_nonce ch)"]
      cur_bytes_at[of "[T_CHALLENGE]" "salt ch" "word32_le (iterations ch) @ len_bytes (server_nonce ch)" H_over H_short]
      cur_word32_at[of "T_CHALLENGE # len_bytes (salt ch)" "iterations ch" "len_bytes (server_nonce ch)" H_over H_short]
      hstr.dec_enc[of "server_nonce ch" "T_CHALLENGE # len_bytes (salt ch) @ word32_le (iterations ch)" "[]"]
    by (simp add: auth_challenge_encode_def auth_challenge_decode_def put_len)
qed

lemma finish_roundtrip:
  assumes "length (client_proof f) = 32"
  shows "auth_finish_decode (auth_finish_encode f) = Inr f"
  using assms reader_at[of T_FINISH "client_proof f"]
    cur_take_at[OF _ assms[symmetric], of "[T_FINISH]" "[]" H_over H_short]
  by (simp add: auth_finish_encode_def auth_finish_decode_def fits_def)

section \<open>Properties\<close>

text \<open>The first client message decodes to itself; without the trailing mechanism byte, as an older
  client sends it, it decodes as SCRAM-SHA-256, and bytes after the selector are ignored.\<close>

theorem auth_start_roundtrip:
  assumes "str_ok (username a)" and "str_ok (client_nonce a)" and "fits (auth_start_encode a @ post)"
  shows "auth_start_decode (auth_start_encode a @ post) = Inr a
    \<and> auth_start_decode (butlast (auth_start_encode a)) = Inr (a\<lparr>mechanism := ScramSha256\<rparr>)"
proof
  have f: "fits (start_fields a @ mechanism_to_byte (mechanism a) # post)"
    using assms(3) by (simp add: auth_start_fields)
  show "auth_start_decode (auth_start_encode a @ post) = Inr a"
    using start_fields_decode[OF assms(1,2) f] cur_u8_at[OF f, of H_over H_short]
    by (simp add: auth_start_fields)
  have "fits (start_fields a @ [])" using f by (simp add: fits_def)
  from start_fields_decode[OF assms(1,2) this]
  show "auth_start_decode (butlast (auth_start_encode a)) = Inr (a\<lparr>mechanism := ScramSha256\<rparr>)"
    by (simp add: auth_start_fields)
qed

theorem auth_start_roundtrip_witness:
  "auth_start_decode (auth_start_encode \<lparr>username = [0x75], client_nonce = [0x30], mechanism = Gssapi\<rparr> @ [7])
   = Inr \<lparr>username = [0x75], client_nonce = [0x30], mechanism = Gssapi\<rparr>"
  using auth_start_roundtrip[of "\<lparr>username = [0x75], client_nonce = [0x30], mechanism = Gssapi\<rparr>" "[7]"]
  by (simp add: str_ok_def fits_def auth_start_fields start_fields_def)

text \<open>The other handshake messages decode to themselves.\<close>

theorem handshake_roundtrips:
  assumes "length (token t) < 2 ^ 32" and "length (salt ch) < 2 ^ 32" and "str_ok (server_nonce ch)"
    and "length (client_proof f) = 32"
    and "case oc of AuthOk sig \<Rightarrow> length sig = 32 | Denied reason \<Rightarrow> str_ok reason"
  shows "auth_token_decode (auth_token_encode t) = Inr t
    \<and> auth_challenge_decode (auth_challenge_encode ch) = Inr ch
    \<and> auth_finish_decode (auth_finish_encode f) = Inr f
    \<and> auth_outcome_decode (auth_outcome_encode oc) = Inr oc"
proof (intro conjI)
  show "auth_token_decode (auth_token_encode t) = Inr t"
    using assms(1) reader_at[of T_TOKEN "len_bytes (token t)"]
      cur_bytes_at[of "[T_TOKEN]" "token t" "[]" H_over H_short]
    by (simp add: auth_token_encode_def auth_token_decode_def put_len fits_def)
  show "auth_challenge_decode (auth_challenge_encode ch) = Inr ch" by (rule challenge_roundtrip[OF assms(2,3)])
  show "auth_finish_decode (auth_finish_encode f) = Inr f" by (rule finish_roundtrip[OF assms(4)])
  show "auth_outcome_decode (auth_outcome_encode oc) = Inr oc" by (rule outcome_roundtrip[OF assms(5)])
qed

theorem handshake_roundtrips_witness:
  "auth_challenge_decode (auth_challenge_encode \<lparr>salt = [1, 2], iterations = 4096, server_nonce = [0x61]\<rparr>)
   = Inr \<lparr>salt = [1, 2], iterations = 4096, server_nonce = [0x61]\<rparr>"
  using handshake_roundtrips[of "\<lparr>token = []\<rparr>" "\<lparr>salt = [1, 2], iterations = 4096, server_nonce = [0x61]\<rparr>"
      "\<lparr>client_proof = replicate 32 0\<rparr>" "Denied []"]
  by (simp add: str_ok_def)

text \<open>The signed message determines every part of the exchange, so a proof is bound to one user,
  one pair of nonces, one salt and one iteration count, as long as the user name and the nonces hold
  no NUL byte (nonces are hex text).\<close>

theorem auth_message_binds:
  assumes "0 \<notin> set u" "0 \<notin> set cn" "0 \<notin> set sn" "0 \<notin> set u'" "0 \<notin> set cn'" "0 \<notin> set sn'"
    and "auth_message u cn sn slt i = auth_message u' cn' sn' slt' i'"
  shows "u = u' \<and> cn = cn' \<and> sn = sn' \<and> slt = slt' \<and> i = i'"
proof -
  have cut: "xs = ys \<and> r = s" if "xs @ 0 # r = ys @ 0 # s" "0 \<notin> set xs" "0 \<notin> set ys"
    for xs ys r s :: bytes
    using split_once_append[OF that(2), of r] split_once_append[OF that(3), of s] that(1) by (metis option.inject prod.inject)
  have hex0: "0 \<notin> set (hex bs)" for bs
  proof
    assume "0 \<in> set (hex bs)"
    then obtain n where "n < 16" "hex_char n = 0" using set_hex by metis
    then have "hex_digit 0 = Some n" using hex_digit_char by metis
    then show False by (simp add: hex_digit_def)
  qed
  from assms(7) have 1: "u = u'" "cn @ 0 # sn @ 0 # hex slt @ 0 # show_nat (unat i) = cn' @ 0 # sn' @ 0 # hex slt' @ 0 # show_nat (unat i')"
    using cut[OF _ assms(1,4)] by (simp_all add: auth_message_def)
  then have 2: "cn = cn'" "sn @ 0 # hex slt @ 0 # show_nat (unat i) = sn' @ 0 # hex slt' @ 0 # show_nat (unat i')"
    using cut[OF _ assms(2,5)] by blast+
  then have 3: "sn = sn'" "hex slt @ 0 # show_nat (unat i) = hex slt' @ 0 # show_nat (unat i')"
    using cut[OF _ assms(3,6)] by blast+
  then have 4: "hex slt = hex slt'" "show_nat (unat i) = show_nat (unat i')"
    using cut[OF _ hex0 hex0] by blast+
  have "slt = slt'" using 4(1) from_hex_hex by (metis sum.inject(2))
  moreover have "i = i'" using 4(2) parse_u32_show by (metis option.inject)
  ultimately show ?thesis using 1 2 3 by simp
qed

theorem auth_message_binds_witness:
  "auth_message [1] [2] [3] [4] 5 = auth_message [1] [2] [3] [4] 5 \<and> auth_message [1] [2] [3] [4] 5 \<noteq> auth_message [1] [2] [3] [4] 6"
  using auth_message_binds[of "[1]" "[2]" "[3]" "[1]" "[2]" "[3]" "[4]" 5 "[4]" 6] by auto

end
