(* ===== verification/Crypto.thy ===== *)
theory Crypto
  imports Text
begin

unbundle bit_operations_syntax

text \<open>
  SHA-256, HMAC-SHA-256, PBKDF2 and constant-time comparison (\<^verbatim>\<open>skaidb-auth/src/crypto.rs\<close>). The schedule and
  the compression rounds are the loops of the source over 32-bit words.
\<close>

section \<open>Definitions\<close>

definition H0 :: "u32 list" where
  "H0 = [
     0x6a09e667, 0xbb67ae85, 0x3c6ef372, 0xa54ff53a, 0x510e527f, 0x9b05688c, 0x1f83d9ab, 0x5be0cd19]"

text \<open>The round constants, in rows of four with the index each row starts at.\<close>

definition K_rows :: "(nat \<times> u32 list) list" where
  "K_rows = [
     (0, [0x428a2f98, 0x71374491, 0xb5c0fbcf, 0xe9b5dba5]), (4, [0x3956c25b, 0x59f111f1, 0x923f82a4, 0xab1c5ed5]),
     (8, [0xd807aa98, 0x12835b01, 0x243185be, 0x550c7dc3]), (12, [0x72be5d74, 0x80deb1fe, 0x9bdc06a7, 0xc19bf174]),
     (16, [0xe49b69c1, 0xefbe4786, 0x0fc19dc6, 0x240ca1cc]), (20, [0x2de92c6f, 0x4a7484aa, 0x5cb0a9dc, 0x76f988da]),
     (24, [0x983e5152, 0xa831c66d, 0xb00327c8, 0xbf597fc7]), (28, [0xc6e00bf3, 0xd5a79147, 0x06ca6351, 0x14292967]),
     (32, [0x27b70a85, 0x2e1b2138, 0x4d2c6dfc, 0x53380d13]), (36, [0x650a7354, 0x766a0abb, 0x81c2c92e, 0x92722c85]),
     (40, [0xa2bfe8a1, 0xa81a664b, 0xc24b8b70, 0xc76c51a3]), (44, [0xd192e819, 0xd6990624, 0xf40e3585, 0x106aa070]),
     (48, [0x19a4c116, 0x1e376c08, 0x2748774c, 0x34b0bcb5]), (52, [0x391c0cb3, 0x4ed8aa4a, 0x5b9cca4f, 0x682e6ff3]),
     (56, [0x748f82ee, 0x78a5636f, 0x84c87814, 0x8cc70208]), (60, [0x90befffa, 0xa4506ceb, 0xbef9a3f7, 0xc67178f2])]"

definition K :: "u32 list" where
  "K = concat (map snd K_rows)"

text \<open>\<^verbatim>\<open>while data.len() % 64 != 56 { data.push(0) }\<close>.\<close>

function pad_loop :: "bytes \<Rightarrow> bytes" where
  "pad_loop data = (if length data mod 64 \<noteq> 56 then pad_loop (data @ [0]) else data)"
  by pat_completeness auto
termination
  by (relation "measure (\<lambda>d. if length d mod 64 \<le> 56 then 56 - length d mod 64 else 120 - length d mod 64)")
    (auto simp: mod_Suc)

declare pad_loop.simps [simp del]

definition sha256_pad :: "bytes \<Rightarrow> bytes" where
  "sha256_pad msg = pad_loop (msg @ [0x80]) @ word64_be (word_of_nat (length msg) * 8)"

definition word32_be :: "u32 \<Rightarrow> bytes" where
  "word32_be w = be_bytes 4 (unat w)"

text \<open>The message schedule: sixteen words of the chunk, then each word from four earlier ones.\<close>

definition schedule_step :: "u32 list \<Rightarrow> u32 list" where
  "schedule_step w =
    (let i = length w;
         s0 = word_rotr 7 (w ! (i - 15)) XOR word_rotr 18 (w ! (i - 15)) XOR drop_bit 3 (w ! (i - 15));
         s1 = word_rotr 17 (w ! (i - 2)) XOR word_rotr 19 (w ! (i - 2)) XOR drop_bit 10 (w ! (i - 2))
     in w @ [w ! (i - 16) + s0 + w ! (i - 7) + s1])"

definition schedule :: "bytes \<Rightarrow> u32 list" where
  "schedule chunk =
    (schedule_step ^^ 48) (map (\<lambda>i. word_of_nat (be_val (take 4 (drop (i * 4) chunk)))) [0..<16])"

type_synonym working = "u32 \<times> u32 \<times> u32 \<times> u32 \<times> u32 \<times> u32 \<times> u32 \<times> u32"

definition sha256_round :: "u32 \<Rightarrow> u32 \<Rightarrow> working \<Rightarrow> working" where
  "sha256_round ki wi = (\<lambda>(a, b, c, d, e, f, g, hh).
     let s1 = word_rotr 6 e XOR word_rotr 11 e XOR word_rotr 25 e;
         ch = (e AND f) XOR (NOT e AND g);
         t1 = hh + s1 + ch + ki + wi;
         s0 = word_rotr 2 a XOR word_rotr 13 a XOR word_rotr 22 a;
         maj = (a AND b) XOR (a AND c) XOR (b AND c);
         t2 = s0 + maj
     in (t1 + t2, a, b, c, d + t1, e, f, g))"

definition compress :: "working \<Rightarrow> bytes \<Rightarrow> working" where
  "compress h chunk =
    (let w = schedule chunk;
         (h0, h1, h2, h3, h4, h5, h6, h7) = h;
         (a, b, c, d, e, f, g, hh) = fold (\<lambda>i s. sha256_round (K ! i) (w ! i) s) [0..<64] h
     in (h0 + a, h1 + b, h2 + c, h3 + d, h4 + e, h5 + f, h6 + g, h7 + hh))"

text \<open>\<^verbatim>\<open>data.chunks_exact(64)\<close>: a shorter remainder is dropped.\<close>

function chunks_exact64 :: "bytes \<Rightarrow> bytes list" where
  "chunks_exact64 bs = (if length bs < 64 then [] else take 64 bs # chunks_exact64 (drop 64 bs))"
  by pat_completeness auto
termination
  by (relation "measure length") auto

declare chunks_exact64.simps [simp del]

definition h_init :: working where
  "h_init = (H0 ! 0, H0 ! 1, H0 ! 2, H0 ! 3, H0 ! 4, H0 ! 5, H0 ! 6, H0 ! 7)"

definition sha256 :: "bytes \<Rightarrow> bytes" where
  "sha256 msg =
    (case fold (\<lambda>chunk h. compress h chunk) (chunks_exact64 (sha256_pad msg)) h_init of
       (h0, h1, h2, h3, h4, h5, h6, h7) \<Rightarrow> concat (map word32_be [h0, h1, h2, h3, h4, h5, h6, h7]))"

definition BLOCK :: nat where "BLOCK = 64"

definition xor_bytes :: "bytes \<Rightarrow> bytes \<Rightarrow> bytes" where
  "xor_bytes xs ys = map2 (\<lambda>x y. x XOR y) xs ys"

definition hmac_sha256 :: "bytes \<Rightarrow> bytes \<Rightarrow> bytes" where
  "hmac_sha256 key msg =
    (let k = (if BLOCK < length key then sha256 key else key);
         block = k @ replicate (BLOCK - length k) 0;
         ipad = xor_bytes (replicate BLOCK 0x36) block;
         opad = xor_bytes (replicate BLOCK 0x5C) block;
         inner_hash = sha256 (ipad @ msg)
     in sha256 (opad @ inner_hash))"

definition pbkdf2_step :: "bytes \<Rightarrow> bytes \<times> bytes \<Rightarrow> bytes \<times> bytes" where
  "pbkdf2_step password = (\<lambda>(u, result). let u = hmac_sha256 password u in (u, xor_bytes result u))"

definition pbkdf2_hmac_sha256 :: "bytes \<Rightarrow> bytes \<Rightarrow> u32 \<Rightarrow> bytes" where
  "pbkdf2_hmac_sha256 password salt iterations =
    (let u = hmac_sha256 password (salt @ word32_be 1)
     in snd ((pbkdf2_step password ^^ (unat iterations - 1)) (u, u)))"

definition ct_eq :: "bytes \<Rightarrow> bytes \<Rightarrow> bool" where
  "ct_eq a b =
    (if length a \<noteq> length b then False
     else fold (\<lambda>(x, y) diff. diff OR (x XOR y)) (zip a b) (0 :: u8) = 0)"

section \<open>Lengths\<close>

lemma pad_loop_length: "length (pad_loop d) mod 64 = 56"
  by (induction d rule: pad_loop.induct) (subst pad_loop.simps, auto)

lemma sha256_pad_length: "length (sha256_pad msg) mod 64 = 0"
  using pad_loop_length[of "msg @ [0x80]"] by (simp add: sha256_pad_def mod_add_left_eq[symmetric])

lemma pad_loop_prefix: "\<exists>z. pad_loop d = d @ z"
  by (induction d rule: pad_loop.induct) (subst pad_loop.simps, auto)

lemma length_sha256 [simp]: "length (sha256 msg) = 32"
  by (simp add: sha256_def word32_be_def split: prod.splits)

lemma length_hmac [simp]: "length (hmac_sha256 key msg) = 32"
  by (simp add: hmac_sha256_def Let_def)

lemma length_xor_bytes [simp]: "length (xor_bytes xs ys) = min (length xs) (length ys)"
  by (simp add: xor_bytes_def)

lemma xor_bytes_cancel: "length xs = length ys \<Longrightarrow> xor_bytes (xor_bytes xs ys) ys = xs"
  by (induction xs ys rule: list_induct2) (simp_all add: xor_bytes_def xor.assoc)

lemma length_pbkdf2 [simp]: "length (pbkdf2_hmac_sha256 pw salt n) = 32"
proof -
  have "length (snd ((pbkdf2_step pw ^^ k) (u, r))) = 32" if "length u = 32" "length r = 32" for k u r
    using that by (induction k arbitrary: u r) (simp_all add: pbkdf2_step_def Let_def funpow_swap1)
  then show ?thesis by (simp add: pbkdf2_hmac_sha256_def Let_def)
qed

section \<open>Constant-time comparison\<close>

lemma xor_eq_0 [simp]: "(x :: 'a::len word) XOR y = 0 \<longleftrightarrow> x = y"
proof
  assume "x XOR y = 0"
  then have "(x XOR y) XOR y = 0 XOR y" by simp
  then show "x = y" by (simp add: xor.assoc)
qed simp

lemma xor_left_cancel: "(p :: 'a::len word) XOR x = p XOR y \<Longrightarrow> x = y"
proof -
  assume "p XOR x = p XOR y"
  then have "p XOR (p XOR x) = p XOR (p XOR y)" by (rule arg_cong)
  then show "x = y" by (simp flip: xor.assoc)
qed

lemma ct_eq_iff: "ct_eq a b \<longleftrightarrow> a = b"
proof -
  have "length a = length b \<Longrightarrow> fold (\<lambda>(x, y) diff. diff OR (x XOR y)) (zip a b) d = 0 \<longleftrightarrow> d = 0 \<and> a = b" for d :: u8
  proof (induction a b arbitrary: d rule: list_induct2)
    case (Cons x xs y ys)
    show ?case by (simp add: Cons.IH or_eq_0_iff)
  qed simp
  then show ?thesis by (simp add: ct_eq_def) blast
qed

section \<open>Key derivation\<close>

text \<open>The blocks \<open>U\<^sub>1, U\<^sub>2, \<dots>\<close> of RFC 8018 and the exclusive or of the first \<open>n\<close> of them.\<close>

primrec pbkdf2_u :: "bytes \<Rightarrow> bytes \<Rightarrow> nat \<Rightarrow> bytes" where
  "pbkdf2_u password salt 0 = hmac_sha256 password (salt @ [0, 0, 0, 1])"
| "pbkdf2_u password salt (Suc k) = hmac_sha256 password (pbkdf2_u password salt k)"

primrec pbkdf2_f :: "bytes \<Rightarrow> bytes \<Rightarrow> nat \<Rightarrow> bytes" where
  "pbkdf2_f password salt 0 = pbkdf2_u password salt 0"
| "pbkdf2_f password salt (Suc k) = xor_bytes (pbkdf2_f password salt k) (pbkdf2_u password salt (Suc k))"

lemma word32_be_1: "word32_be 1 = [0, 0, 0, 1]"
  by (simp add: word32_be_def be_bytes_def le_bytes_4)

lemma pbkdf2_steps:
  "(pbkdf2_step pw ^^ k) (pbkdf2_u pw salt 0, pbkdf2_u pw salt 0) = (pbkdf2_u pw salt k, pbkdf2_f pw salt k)"
  by (induction k) (simp_all add: pbkdf2_step_def Let_def)

section \<open>Properties\<close>

text \<open>The constant-time comparison is equality of byte strings.\<close>

theorem ct_eq_is_equality: "ct_eq a b \<longleftrightarrow> a = b"
  by (rule ct_eq_iff)

text \<open>The derived key is the exclusive or of the first \<open>iterations\<close> blocks of RFC 8018 (an iteration
  count of zero counts as one), 32 bytes long.\<close>

theorem pbkdf2_blocks:
  "pbkdf2_hmac_sha256 pw salt n = pbkdf2_f pw salt (unat n - 1) \<and> length (pbkdf2_hmac_sha256 pw salt n) = 32"
proof -
  have "pbkdf2_u pw salt 0 = hmac_sha256 pw (salt @ word32_be 1)" by (simp add: word32_be_1)
  then have "pbkdf2_hmac_sha256 pw salt n = pbkdf2_f pw salt (unat n - 1)"
    using pbkdf2_steps[of "unat n - 1" pw salt] by (simp add: pbkdf2_hmac_sha256_def Let_def)
  then show ?thesis using length_pbkdf2 by blast
qed

text \<open>The padded message is the message, a one bit, zeros up to the last eight bytes of a block, and
  the length in bits; it fills whole blocks, so no byte of the message is dropped by the block loop.\<close>

theorem sha256_padding:
  "\<exists>z. sha256_pad msg = msg @ 0x80 # z @ word64_be (word_of_nat (length msg) * 8)
     \<and> length (sha256_pad msg) mod 64 = 0 \<and> concat (chunks_exact64 (sha256_pad msg)) = sha256_pad msg"
proof -
  obtain z where z: "pad_loop (msg @ [0x80]) = (msg @ [0x80]) @ z" using pad_loop_prefix by blast
  have "length d mod 64 = 0 \<Longrightarrow> concat (chunks_exact64 d) = d" for d
  proof (induction d rule: chunks_exact64.induct)
    case (1 d)
    show ?case
    proof (cases "length d < 64")
      case True
      with "1.prems" have "d = []" by simp
      then show ?thesis by (simp add: chunks_exact64.simps[of "[]"])
    next
      case False
      with "1.prems" have "length (drop 64 d) mod 64 = 0" by (simp add: le_mod_geq)
      with False "1.IH"[OF False] show ?thesis by (simp add: chunks_exact64.simps[of d])
    qed
  qed
  then have "concat (chunks_exact64 (sha256_pad msg)) = sha256_pad msg" using sha256_pad_length by simp
  moreover have "sha256_pad msg = msg @ 0x80 # z @ word64_be (word_of_nat (length msg) * 8)"
    by (simp add: sha256_pad_def z)
  ultimately show ?thesis using sha256_pad_length[of msg] by (intro exI[of _ z] conjI)
qed

end
