(* ===== verification/Entropy.thy ===== *)
theory Entropy
  imports Crypto
begin

unbundle bit_operations_syntax

text \<open>
  Random bytes (\<^verbatim>\<open>skaidb-auth/src/crypto.rs\<close>): the reader of the operating system's source, opened once per process,
  and the fallback that is used when there is none. The devices, the clock and the process id are the
  parameter \<open>os_ops\<close>; the statics of the process are the record \<open>entropy\<close>. The lock of the handle is held for one
  read only, which does not panic, so it is never poisoned.
\<close>

section \<open>Definitions\<close>

record ('w, 'd) os_ops =
  open_device :: "string \<Rightarrow> 'w \<Rightarrow> 'd option \<times> 'w"
  read_device :: "'d \<Rightarrow> nat \<Rightarrow> 'w \<Rightarrow> bytes option \<times> 'w"
  unix_nanos :: "'w \<Rightarrow> u64"
  os_pid :: u32

text \<open>\<open>source\<close> is the \<^verbatim>\<open>OnceLock\<close>: \<open>None\<close> before the first call, then what opening gave.\<close>

record 'd entropy =
  source :: "'d option option"
  degraded :: bool
  ctr :: u64

definition entropy_degraded :: "'d entropy \<Rightarrow> bool" where
  "entropy_degraded s = degraded s"

definition open_source :: "('w, 'd) os_ops \<Rightarrow> 'w \<Rightarrow> 'd option \<times> 'w" where
  "open_source os w = (case open_device os ''/dev/urandom'' w of
     (Some d, w) \<Rightarrow> (Some d, w)
   | (None, w) \<Rightarrow> open_device os ''/dev/random'' w)"

definition get_source :: "('w, 'd) os_ops \<Rightarrow> 'd entropy \<times> 'w \<Rightarrow> 'd option \<times> 'd entropy \<times> 'w" where
  "get_source os = (\<lambda>(s, w). case source s of
     Some src \<Rightarrow> (src, s, w)
   | None \<Rightarrow> (let (src, w) = open_source os w in (src, s\<lparr>source := Some src\<rparr>, w)))"

definition try_fill_random :: "('w, 'd) os_ops \<Rightarrow> nat \<Rightarrow> 'd entropy \<times> 'w \<Rightarrow> (string + bytes) \<times> 'd entropy \<times> 'w" where
  "try_fill_random os n st = (let (src, s, w) = get_source os st in
     case src of
       None \<Rightarrow> (Inl ''no OS entropy source (/dev/urandom, /dev/random)'', s, w)
     | Some d \<Rightarrow> (case read_device os d n w of
         (Some bs, w) \<Rightarrow> (Inr bs, s, w)
       | (None, w) \<Rightarrow> (Inl ''OS entropy source read failed'', s, w)))"

definition fallback_seed :: "u64 \<Rightarrow> u32 \<Rightarrow> u64 \<Rightarrow> u64" where
  "fallback_seed t pid c = t XOR word_rotl 32 (ucast pid) XOR c"

text \<open>The chunks of at most 32 bytes, each the start of one block.\<close>

definition fallback_bytes :: "u64 \<Rightarrow> nat \<Rightarrow> bytes" where
  "fallback_bytes seed n = take n (concat (map (\<lambda>i. hmac_sha256 (word64_le seed) (word64_le (word_of_nat i))) [0..<(n + 31) div 32]))"

definition fill_random :: "('w, 'd) os_ops \<Rightarrow> nat \<Rightarrow> 'd entropy \<times> 'w \<Rightarrow> bytes \<times> 'd entropy \<times> 'w" where
  "fill_random os n st = (case try_fill_random os n st of
     (Inr bs, st) \<Rightarrow> (bs, st)
   | (Inl _, s, w) \<Rightarrow>
       let seed = fallback_seed (unix_nanos os w) (os_pid os) (ctr s)
       in (fallback_bytes seed n, s\<lparr>degraded := True, ctr := ctr s + 0x9E3779B97F4A7C15\<rparr>, w))"

definition random_bytes :: "nat \<Rightarrow> ('w, 'd) os_ops \<Rightarrow> 'd entropy \<times> 'w \<Rightarrow> bytes \<times> 'd entropy \<times> 'w" where
  "random_bytes n os st = fill_random os n st"

text \<open>What \<^verbatim>\<open>read_exact\<close> documents: as many bytes as asked for.\<close>

definition reads_exactly :: "('w, 'd) os_ops \<Rightarrow> bool" where
  "reads_exactly os \<longleftrightarrow> (\<forall>d n w bs w'. read_device os d n w = (Some bs, w') \<longrightarrow> length bs = n)"

section \<open>Lemmas\<close>

lemma reads_exactlyD: "reads_exactly os \<Longrightarrow> read_device os d n w = (Some bs, w') \<Longrightarrow> length bs = n"
  unfolding reads_exactly_def by blast

lemma length_fallback [simp]: "length (fallback_bytes seed n) = n"
proof -
  have "length (concat (map (\<lambda>i. hmac_sha256 k (f i)) xs)) = 32 * length xs" for k f and xs :: "nat list"
    by (induction xs) simp_all
  moreover have "n \<le> 32 * ((n + 31) div 32)" by presburger
  ultimately show ?thesis by (simp add: fallback_bytes_def)
qed

lemma fallback_seed_moves: "fallback_seed t pid (c + 0x9E3779B97F4A7C15) \<noteq> fallback_seed t pid c"
proof
  assume "fallback_seed t pid (c + 0x9E3779B97F4A7C15) = fallback_seed t pid c"
  then have "c + 0x9E3779B97F4A7C15 = c" unfolding fallback_seed_def by (blast dest: xor_left_cancel)
  then show False by simp
qed

text \<open>The source is opened by the first call and then kept, whatever opening gave.\<close>

lemma try_fill_random_keeps:
  assumes "try_fill_random os n (s, w) = (r, s', w')"
  shows "source s' = (case source s of Some x \<Rightarrow> Some x | None \<Rightarrow> Some (fst (open_source os w)))"
    and "degraded s' = degraded s" and "ctr s' = ctr s"
  using assms by (auto simp: try_fill_random_def get_source_def Let_def split: option.splits prod.splits)

section \<open>Properties\<close>

text \<open>Random bytes come in the requested number. The degraded flag is raised exactly when the source could not be read,
  and is never lowered; the source is opened by the first call only, so a process that found none stays on
  the fallback; and two fallbacks in a row at one instant use different seeds.\<close>

theorem fill_random_outcome:
  assumes "reads_exactly os" and "fill_random os n (s, w) = (out, s', w')"
  shows "length out = n
    \<and> entropy_degraded s' = (entropy_degraded s \<or> (\<exists>e. fst (try_fill_random os n (s, w)) = Inl e))
    \<and> source s' = (case source s of Some x \<Rightarrow> Some x | None \<Rightarrow> Some (fst (open_source os w)))
    \<and> (source s' = Some None \<longrightarrow> entropy_degraded s' \<and> fallback_seed t pid (ctr s') \<noteq> fallback_seed t pid (ctr s))"
proof -
  obtain r s1 w1 where r: "try_fill_random os n (s, w) = (r, s1, w1)" by (metis prod.exhaust)
  note keeps = try_fill_random_keeps[OF r]
  show ?thesis
  proof (cases r)
    case (Inl e)
    with assms(2) r keeps fallback_seed_moves show ?thesis
      by (auto simp: fill_random_def Let_def entropy_degraded_def)
  next
    case (Inr bs)
    have "length bs = n" "source s1 \<noteq> Some None"
      using r Inr reads_exactlyD[OF assms(1)] by (auto simp: try_fill_random_def get_source_def Let_def split: option.splits prod.splits)
    with assms(2) r Inr keeps show ?thesis by (simp add: fill_random_def entropy_degraded_def)
  qed
qed

definition no_devices :: "(unit, unit) os_ops" where
  "no_devices = \<lparr>open_device = (\<lambda>_ w. (None, w)), read_device = (\<lambda>_ _ w. (None, w)), unix_nanos = (\<lambda>_. 5), os_pid = 1\<rparr>"

theorem fill_random_outcome_witness:
  "\<exists>out s'. fill_random no_devices 40 (\<lparr>source = None, degraded = False, ctr = 0\<rparr>, ()) = (out, s', ())
    \<and> length out = 40 \<and> entropy_degraded s' \<and> source s' = Some None"
proof -
  have r: "reads_exactly no_devices" by (simp add: reads_exactly_def no_devices_def)
  obtain out s' w' where f: "fill_random no_devices 40 (\<lparr>source = None, degraded = False, ctr = 0\<rparr>, ()) = (out, s', w')"
    by (metis prod.exhaust)
  have "open_source no_devices () = (None, ())" by (simp add: open_source_def no_devices_def)
  with fill_random_outcome[OF r f, of 5 1] f show ?thesis by auto
qed

end
