(* ===== verification/Scram.thy ===== *)
theory Scram
  imports Entropy
begin

text \<open>
  SCRAM-SHA-256 credentials, client proofs and their verification (\<^verbatim>\<open>skaidb-auth/src/scram.rs\<close>), with
  the two text forms a credential is stored in. \<^verbatim>\<open>unhex\<close> and \<^verbatim>\<open>from_hex\<close> are one definition. A \<^verbatim>\<open>None\<close>
  is \<open>Inl (Err ())\<close>, so that a panic inside parsing stays visible.
\<close>

section \<open>Definitions\<close>

definition DEFAULT_ITERATIONS :: u32 where "DEFAULT_ITERATIONS = 15000"
definition SALT_LEN :: nat where "SALT_LEN = 16"

record scram_credential =
  cred_salt :: bytes
  cred_iterations :: u32
  stored_key :: bytes
  server_key :: bytes

definition random_salt :: "('w, 'd) os_ops \<Rightarrow> 'd entropy \<times> 'w \<Rightarrow> bytes \<times> 'd entropy \<times> 'w" where
  "random_salt os st = random_bytes SALT_LEN os st"

definition credential_encode :: "scram_credential \<Rightarrow> rstr" where
  "credential_encode c = show_nat (unat (cred_iterations c)) @ [0x3A] @ hex (cred_salt c) @ [0x3A]
     @ hex (stored_key c) @ [0x3A] @ hex (server_key c)"

text \<open>\<^verbatim>\<open>parts.next()?\<close> on the split text, and \<^verbatim>\<open>try_into().ok()?\<close> to a 32-byte array.\<close>

definition next_part :: "rstr list \<Rightarrow> (rstr \<times> rstr list) opt" where
  "next_part parts = (case parts of [] \<Rightarrow> Inl (Err ()) | p # ps \<Rightarrow> Inr (p, ps))"

definition as_key :: "bytes \<Rightarrow> bytes opt" where
  "as_key bs = (if length bs = 32 then Inr bs else Inl (Err ()))"

definition parse_fields :: "rstr list \<Rightarrow> scram_credential opt" where
  "parse_fields parts =
    rbind (next_part parts) (\<lambda>(p, parts). rbind (of_opt (parse_u32 p)) (\<lambda>iters.
    rbind (next_part parts) (\<lambda>(p, parts). rbind (from_hex p) (\<lambda>slt.
    rbind (next_part parts) (\<lambda>(p, parts). rbind (rbind (from_hex p) as_key) (\<lambda>stored.
    rbind (next_part parts) (\<lambda>(p, parts). rbind (rbind (from_hex p) as_key) (\<lambda>server.
      if parts \<noteq> [] then Inl (Err ())
      else Inr \<lparr>cred_salt = slt, cred_iterations = iters, stored_key = stored, server_key = server\<rparr>))))))))"

definition credential_decode :: "rstr \<Rightarrow> scram_credential opt" where
  "credential_decode s = parse_fields (split_on 0x3A s)"

definition credential_new :: "rstr \<Rightarrow> bytes \<Rightarrow> u32 \<Rightarrow> scram_credential" where
  "credential_new password slt iters =
    (let salted = pbkdf2_hmac_sha256 password slt iters;
         client_key = hmac_sha256 salted (of_str ''Client Key'');
         stored = sha256 client_key;
         server = hmac_sha256 salted (of_str ''Server Key'')
     in \<lparr>cred_salt = slt, cred_iterations = iters, stored_key = stored, server_key = server\<rparr>)"

definition verify :: "scram_credential \<Rightarrow> bytes \<Rightarrow> bytes \<Rightarrow> bytes option" where
  "verify c auth_msg proof =
    (let client_signature = hmac_sha256 (stored_key c) auth_msg;
         client_key = xor_bytes proof client_signature
     in if ct_eq (sha256 client_key) (stored_key c) then Some (hmac_sha256 (server_key c) auth_msg) else None)"

definition scheme_name :: rstr where
  "scheme_name = of_str ''SCRAM-SHA-256''"

definition to_storage_string :: "scram_credential \<Rightarrow> rstr" where
  "to_storage_string c = scheme_name @ [0x24] @ show_nat (unat (cred_iterations c)) @ [0x24] @ hex (cred_salt c)
     @ [0x24] @ hex (stored_key c) @ [0x24] @ hex (server_key c)"

definition from_storage_string :: "rstr \<Rightarrow> scram_credential opt" where
  "from_storage_string s = rbind (next_part (split_on 0x24 s)) (\<lambda>(p, parts).
     if p \<noteq> scheme_name then Inl (Err ()) else parse_fields parts)"

definition salted_password :: "rstr \<Rightarrow> bytes \<Rightarrow> u32 \<Rightarrow> bytes" where
  "salted_password password slt iters = pbkdf2_hmac_sha256 password slt iters"

definition client_proof_salted :: "bytes \<Rightarrow> bytes \<Rightarrow> bytes" where
  "client_proof_salted salted auth_msg =
    (let client_key = hmac_sha256 salted (of_str ''Client Key'');
         stored = sha256 client_key;
         client_signature = hmac_sha256 stored auth_msg
     in xor_bytes client_key client_signature)"

definition server_signature_salted :: "bytes \<Rightarrow> bytes \<Rightarrow> bytes" where
  "server_signature_salted salted auth_msg = hmac_sha256 (hmac_sha256 salted (of_str ''Server Key'')) auth_msg"

definition client_proof_of :: "rstr \<Rightarrow> bytes \<Rightarrow> u32 \<Rightarrow> bytes \<Rightarrow> bytes" where
  "client_proof_of password slt iters auth_msg = client_proof_salted (salted_password password slt iters) auth_msg"

definition server_signature :: "rstr \<Rightarrow> bytes \<Rightarrow> u32 \<Rightarrow> bytes \<Rightarrow> bytes" where
  "server_signature password slt iters auth_msg = server_signature_salted (salted_password password slt iters) auth_msg"

section \<open>Lemmas\<close>

lemma verify_iff:
  "verify c m proof = Some sig \<longleftrightarrow>
   sha256 (xor_bytes proof (hmac_sha256 (stored_key c) m)) = stored_key c \<and> sig = hmac_sha256 (server_key c) m"
  by (auto simp: verify_def Let_def ct_eq_iff)

lemma no_colon: "(0x3A :: u8) \<notin> set (hex bs)" "(0x3A :: u8) \<notin> set (show_nat n)"
  "(0x24 :: u8) \<notin> set (hex bs)" "(0x24 :: u8) \<notin> set (show_nat n)" "(0x24 :: u8) \<notin> set scheme_name"
  using set_hex[of _ bs] hex_char_facts show_nat_char_facts
  by (fastforce, fastforce, fastforce, fastforce, simp add: scheme_name_def of_str_def)

lemma split_four:
  assumes "sep \<notin> set a" "sep \<notin> set b" "sep \<notin> set c" "sep \<notin> set d"
  shows "split_on sep (a @ [sep] @ b @ [sep] @ c @ [sep] @ d) = [a, b, c, d]"
  using assms by (simp add: split_on_append split_on_none)

definition cred_ok :: "scram_credential \<Rightarrow> bool" where
  "cred_ok c \<longleftrightarrow> length (stored_key c) = 32 \<and> length (server_key c) = 32"

lemma parse_fields_shown:
  "cred_ok c \<Longrightarrow> parse_fields [show_nat (unat (cred_iterations c)), hex (cred_salt c), hex (stored_key c), hex (server_key c)] = Inr c"
  by (simp add: parse_fields_def next_part_def as_key_def cred_ok_def)

lemma verify_own_proof:
  "verify (credential_new pw slt iters) m (client_proof_of pw slt iters m) = Some (server_signature pw slt iters m)"
  by (simp add: verify_iff credential_new_def client_proof_of_def client_proof_salted_def server_signature_def
      server_signature_salted_def salted_password_def Let_def xor_bytes_cancel)

section \<open>Properties\<close>

text \<open>Mutual authentication completes: the proof a client computes from the password is accepted by
  the verifier made from that password, salt and iteration count, and the signature the server then
  returns is the one the client expects.\<close>

theorem scram_completes:
  "verify (credential_new pw slt iters) m (client_proof_of pw slt iters m) = Some (server_signature pw slt iters m)"
  by (rule verify_own_proof)

text \<open>The verifier accepts a proof exactly when it reveals a preimage of the stored key, masked with
  the signature over this very exchange; it then answers with the server's signature.\<close>

theorem verify_accepts_iff:
  "verify c m proof = Some sig \<longleftrightarrow>
   sha256 (xor_bytes proof (hmac_sha256 (stored_key c) m)) = stored_key c \<and> sig = hmac_sha256 (server_key c) m"
  by (rule verify_iff)

text \<open>Both text forms of a credential parse back to it, for every salt and iteration count.\<close>

theorem credential_text_roundtrip:
  assumes "length (stored_key c) = 32" and "length (server_key c) = 32"
  shows "credential_decode (credential_encode c) = Inr c \<and> from_storage_string (to_storage_string c) = Inr c"
proof
  have ok: "cred_ok c" using assms by (simp add: cred_ok_def)
  show "credential_decode (credential_encode c) = Inr c"
    unfolding credential_decode_def credential_encode_def split_four[OF no_colon(2) no_colon(1) no_colon(1) no_colon(1)]
    by (rule parse_fields_shown[OF ok])
  have "split_on 0x24 (to_storage_string c) = scheme_name # [show_nat (unat (cred_iterations c)), hex (cred_salt c),
      hex (stored_key c), hex (server_key c)]"
    using split_on_append[OF no_colon(5)] split_four[OF no_colon(4) no_colon(3) no_colon(3) no_colon(3)]
    by (simp add: to_storage_string_def)
  with parse_fields_shown[OF ok] show "from_storage_string (to_storage_string c) = Inr c"
    by (simp add: from_storage_string_def next_part_def)
qed

theorem credential_text_roundtrip_witness:
  "credential_decode (credential_encode \<lparr>cred_salt = [1], cred_iterations = 15000, stored_key = replicate 32 7, server_key = replicate 32 9\<rparr>)
   = Inr \<lparr>cred_salt = [1], cred_iterations = 15000, stored_key = replicate 32 7, server_key = replicate 32 9\<rparr>"
  using credential_text_roundtrip[of "\<lparr>cred_salt = [1], cred_iterations = 15000, stored_key = replicate 32 7, server_key = replicate 32 9\<rparr>"]
  by simp

text \<open>Decoding a credential panics on text whose salt field has a character across one of the
  two-byte slices, where the documented answer is \<^verbatim>\<open>None\<close>: here \<^verbatim>\<open>1:a\<close>, a two-byte character and \<^verbatim>\<open>b\<close>.\<close>

theorem credential_decode_panics:
  "utf8_ok [0x31, 0x3A, 0x61, 0xC3, 0xA9, 0x62]
   \<and> credential_decode [0x31, 0x3A, 0x61, 0xC3, 0xA9, 0x62] = Inl (Panic ''str slice'')"
  by (simp add: utf8_cont_def credential_decode_def parse_fields_def next_part_def parse_u32_def from_str_radix_def
      dec_digit_def from_hex_def str_slice_def is_char_boundary_def upt_conv_Cons)

end
