(* ===== verification/Balancer.thy ===== *)
theory Balancer
  imports Message "HOL-Library.Product_Lexorder" "HOL-Library.Option_ord" "HOL-Library.AList" "HOL-Library.Multiset" "HOL-Library.Sublist"
begin

unbundle bit_operations_syntax

text \<open>
  The balanced connection pool (\<^verbatim>\<open>src/lib.rs\<close>): members, options, the choice of a member, the idle set,
  what connections report, ejection and backoff. Each definition is what the code does while it holds
  the pool's lock, so it is one atomic step of a concurrent execution. Instants and durations are
  nanoseconds. What the operating system answers during a step (two clock readings, whether a thread
  could be started) is the argument \<open>sysin\<close>. Double-precision arithmetic is the record \<open>f64_ops\<close>.
\<close>

section \<open>Data\<close>

type_synonym instant = nat
type_synonym duration = nat

record 'f f64_ops =
  f_add :: "'f \<Rightarrow> 'f \<Rightarrow> 'f"
  f_sub :: "'f \<Rightarrow> 'f \<Rightarrow> 'f"
  f_mul :: "'f \<Rightarrow> 'f \<Rightarrow> 'f"
  f_min :: "'f \<Rightarrow> 'f \<Rightarrow> 'f"
  f_max :: "'f \<Rightarrow> 'f \<Rightarrow> 'f"
  f_lt :: "'f \<Rightarrow> 'f \<Rightarrow> bool"
  f_le :: "'f \<Rightarrow> 'f \<Rightarrow> bool"
  f_total_le :: "'f \<Rightarrow> 'f \<Rightarrow> bool"
  f_finite :: "'f \<Rightarrow> bool"
  f_secs :: "duration \<Rightarrow> 'f"
  f_of_nat :: "nat \<Rightarrow> 'f"
  f_try_duration :: "'f \<Rightarrow> duration option"
  f_zero :: 'f
  f_one :: 'f
  f_weight :: 'f
  f_clamp :: 'f

datatype load_balancing = LbRandom | LbRoundRobin | LbLeastLatency
datatype idle_order = Lifo | Fifo
datatype member_state = Ready | Ejected | Resyncing | Unreachable | Unlisted

definition load_balancing_as_str :: "load_balancing \<Rightarrow> rstr" where
  "load_balancing_as_str p = (case p of LbRandom \<Rightarrow> of_str ''random'' | LbRoundRobin \<Rightarrow> of_str ''round_robin''
     | LbLeastLatency \<Rightarrow> of_str ''least_latency'')"

definition load_balancing_from_str :: "rstr \<Rightarrow> load_balancing option" where
  "load_balancing_from_str s =
    (if s = of_str ''random'' then Some LbRandom
     else if s = of_str ''round_robin'' then Some LbRoundRobin
     else if s = of_str ''least_latency'' then Some LbLeastLatency else None)"

definition idle_order_as_str :: "idle_order \<Rightarrow> rstr" where
  "idle_order_as_str p = (case p of Lifo \<Rightarrow> of_str ''lifo'' | Fifo \<Rightarrow> of_str ''fifo'')"

definition idle_order_from_str :: "rstr \<Rightarrow> idle_order option" where
  "idle_order_from_str s = (if s = of_str ''lifo'' then Some Lifo else if s = of_str ''fifo'' then Some Fifo else None)"

definition member_state_as_str :: "member_state \<Rightarrow> rstr" where
  "member_state_as_str p = (case p of Ready \<Rightarrow> of_str ''ready'' | Ejected \<Rightarrow> of_str ''ejected''
     | Resyncing \<Rightarrow> of_str ''resyncing'' | Unreachable \<Rightarrow> of_str ''unreachable'' | Unlisted \<Rightarrow> of_str ''unlisted'')"

record 'f pool_options =
  maxsize :: nat
  load_balancing :: load_balancing
  idle_order :: idle_order
  discover :: bool
  refresh_interval :: duration
  read_your_writes :: duration
  eject_errors :: nat
  eject_latency_factor :: 'f
  eject_latency_floor :: duration
  eject_backoff :: duration
  eject_backoff_max :: duration

definition from_millis :: "nat \<Rightarrow> duration" where "from_millis n = n * 10 ^ 6"
definition from_secs :: "nat \<Rightarrow> duration" where "from_secs n = n * 10 ^ 9"

definition options_default :: "'f \<Rightarrow> 'f pool_options" where
  "options_default three = \<lparr>maxsize = 10, load_balancing = LbRandom, idle_order = Lifo, discover = False,
     refresh_interval = from_secs 60, read_your_writes = 0, eject_errors = 3, eject_latency_factor = three,
     eject_latency_floor = from_millis 50, eject_backoff = from_secs 5, eject_backoff_max = from_secs 60\<rparr>"

definition EWMA_SEED_SAMPLES :: nat where "EWMA_SEED_SAMPLES = 3"
definition EWMA_MIN_SAMPLES :: nat where "EWMA_MIN_SAMPLES = 10"
definition STALE_SAMPLE :: duration where "STALE_SAMPLE = from_secs 2"
definition REFRESH_NOT_READY :: duration where "REFRESH_NOT_READY = from_secs 5"
definition AFFINITY_CAP :: nat where "AFFINITY_CAP = 4096"
definition CHECKOUT_ATTEMPTS :: nat where "CHECKOUT_ATTEMPTS = 3"

text \<open>\<^verbatim>\<open>u32::saturating_add\<close>, \<^verbatim>\<open>saturating_pow\<close> and \<^verbatim>\<open>Duration::saturating_mul\<close> (a duration holds \<open>2 ^ 64\<close> seconds).\<close>

definition U32_MAX :: nat where "U32_MAX = 2 ^ 32 - 1"
definition DURATION_MAX :: duration where "DURATION_MAX = 2 ^ 64 * 10 ^ 9 - 1"

definition sat_u32 :: "nat \<Rightarrow> nat" where
  "sat_u32 n = min n U32_MAX"

record 'f member =
  seed :: bool
  canonical :: "rstr option"
  listed :: member_state
  ewma :: "'f option"
  firsts :: "'f list"
  samples :: nat
  last_sample :: "instant option"
  errors :: nat
  ejected_until :: "instant option"
  ejections :: nat
  readmitted_at :: "instant option"
  in_use :: nat
  probing :: bool

definition member_new :: "bool \<Rightarrow> 'f member" where
  "member_new sd = \<lparr>seed = sd, canonical = None, listed = Ready, ewma = None, firsts = [], samples = 0,
     last_sample = None, errors = 0, ejected_until = None, ejections = 0, readmitted_at = None, in_use = 0,
     probing = False\<rparr>"

definition reset_latency :: "'f member \<Rightarrow> 'f member" where
  "reset_latency m = m\<lparr>ewma := None, firsts := [], samples := 0\<rparr>"

definition usable :: "'f member \<Rightarrow> bool" where
  "usable m \<longleftrightarrow> ejected_until m = None \<and> listed m = Ready"

definition score :: "'f f64_ops \<Rightarrow> instant \<Rightarrow> 'f member \<Rightarrow> 'f" where
  "score F now m = (case (ewma m, last_sample m) of
     (Some e, Some at) \<Rightarrow> (if now - at \<le> STALE_SAMPLE then f_mul F e (f_add F (f_of_nat F (in_use m)) (f_one F)) else f_zero F)
   | _ \<Rightarrow> f_zero F)"

text \<open>A connection, its login and its tie to a pool. The rustls configuration is a handle; the stream is
  whatever type the transport has.\<close>

record tls_config =
  tls_cfg :: nat
  server_name :: rstr

record login =
  login_username :: rstr
  login_password :: rstr
  gssapi_spn :: "rstr option"
  cert_auth :: bool
  login_tls :: "tls_config option"

record pool_link =
  link_pool :: nat
  link_member :: rstr
  link_out :: bool
  link_affinity :: "rstr option"
  broken :: bool

definition link_new :: "nat \<Rightarrow> pool_link" where
  "link_new p = \<lparr>link_pool = p, link_member = [], link_out = False, link_affinity = None, broken = False\<rparr>"

record 's client =
  client_endpoints :: "rstr list"
  client_login :: login
  connected :: rstr
  stream :: 's
  default_consistency :: consistency
  client_database :: "rstr option"
  scan_budget_rows :: u64
  link :: "pool_link option"

record ('s, 'f) balancer_state =
  members :: "(rstr, 'f member) btree"
  idle :: "'s client list"
  rr :: nat
  affinity :: "(rstr option \<times> rstr \<times> instant) list"
  discovery_off :: bool
  next_refresh :: instant
  closed :: bool
  maintainer :: bool
  rng :: u64

record sysin =
  now :: instant
  now2 :: instant
  spawn_ok :: bool

section \<open>Random choices\<close>

definition next_u64 :: "u64 \<Rightarrow> u64 \<times> u64" where
  "next_u64 r = (let x = r; x = x XOR push_bit 13 x; x = x XOR drop_bit 7 x; x = x XOR push_bit 17 x in (x, x))"

definition below :: "nat \<Rightarrow> u64 \<Rightarrow> nat \<times> u64" where
  "below n r = (let (x, r) = next_u64 r in (unat x mod n, r))"

definition swap :: "nat \<Rightarrow> nat \<Rightarrow> 'a list \<Rightarrow> 'a list" where
  "swap i j v = v[i := v ! j, j := v ! i]"

definition shuffle_step :: "nat \<Rightarrow> 'a list \<times> u64 \<Rightarrow> 'a list \<times> u64" where
  "shuffle_step i = (\<lambda>(v, r). let (j, r) = below (i + 1) r in (swap i j v, r))"

definition shuffle :: "'a list \<Rightarrow> u64 \<Rightarrow> 'a list \<times> u64" where
  "shuffle v r = fold shuffle_step (rev [1..<length v]) (v, r)"

section \<open>Choosing a member\<close>

definition usable_members :: "('s, 'f) balancer_state \<Rightarrow> rstr list" where
  "usable_members st = map fst (filter (\<lambda>(_, m). usable m) (members st))"

text \<open>The member of the key's read-your-writes window, if it can be used; an expired entry goes.\<close>

definition pick_affinity :: "'f pool_options \<Rightarrow> sysin \<Rightarrow> rstr option \<Rightarrow> ('s, 'f) balancer_state
    \<Rightarrow> rstr option \<times> ('s, 'f) balancer_state" where
  "pick_affinity o0 t key st =
    (if read_your_writes o0 = 0 then (None, st)
     else case map_of (affinity st) key of
       None \<Rightarrow> (None, st)
     | Some (ep, until) \<Rightarrow>
        (case bt_get (members st) ep of
           Some m \<Rightarrow> (if now t < until then (if usable m then Some ep else None, st)
                      else (None, st\<lparr>affinity := AList.delete key (affinity st)\<rparr>))
         | None \<Rightarrow> (None, st\<lparr>affinity := AList.delete key (affinity st)\<rparr>)))"

definition member_score :: "'f f64_ops \<Rightarrow> sysin \<Rightarrow> ('s, 'f) balancer_state \<Rightarrow> rstr \<Rightarrow> 'f" where
  "member_score F t st ep = (case bt_get (members st) ep of Some m \<Rightarrow> score F (now2 t) m | None \<Rightarrow> f_zero F)"

definition pick :: "'f f64_ops \<Rightarrow> 'f pool_options \<Rightarrow> sysin \<Rightarrow> rstr option \<Rightarrow> ('s, 'f) balancer_state
    \<Rightarrow> rstr option \<times> ('s, 'f) balancer_state" where
  "pick F o0 t key st = (case pick_affinity o0 t key st of
     (Some ep, st) \<Rightarrow> (Some ep, st)
   | (None, st) \<Rightarrow>
     if load_balancing o0 = LbRandom then (None, st)
     else let us = usable_members st in
       if us = [] then (None, st)
       else if load_balancing o0 = LbRoundRobin then
         let i = ((rr st + 1) mod 2 ^ 64) mod length us in (Some (us ! i), st\<lparr>rr := i\<rparr>)
       else if length us = 1 then (Some (us ! 0), st)
       else let (i, r) = below (length us) (rng st);
                (j, r) = below (length us - 1) r;
                j = (if i \<le> j then j + 1 else j);
                st = st\<lparr>rng := r\<rparr>;
                a = us ! i; b = us ! j
            in (Some (if f_le F (member_score F t st a) (member_score F t st b) then a else b), st))"

definition client_member :: "'s client \<Rightarrow> rstr" where
  "client_member c = (case link c of None \<Rightarrow> [] | Some l \<Rightarrow> link_member l)"

definition usable_at :: "('s, 'f) balancer_state \<Rightarrow> rstr \<Rightarrow> bool" where
  "usable_at st ep = (case bt_get (members st) ep of Some m \<Rightarrow> usable m | None \<Rightarrow> False)"

text \<open>The scan over the idle positions in idle order: the position to hand out, and the stale ones met
  before it.\<close>

fun scan_idle :: "('s, 'f) balancer_state \<Rightarrow> rstr option \<Rightarrow> nat list \<Rightarrow> nat list \<Rightarrow> nat option \<times> nat list" where
  "scan_idle st target [] stale = (None, stale)"
| "scan_idle st target (i # is) stale =
    (let ep = client_member (idle st ! i) in
     if usable_at st ep then (if target = None \<or> target = Some ep then (Some i, stale) else scan_idle st target is stale)
     else scan_idle st target is (stale @ [i]))"

definition remove_at :: "nat \<Rightarrow> 'a list \<Rightarrow> 'a list" where
  "remove_at i xs = take i xs @ drop (Suc i) xs"

definition take_idle :: "'f pool_options \<Rightarrow> rstr option \<Rightarrow> ('s, 'f) balancer_state
    \<Rightarrow> 's client option \<times> 's client list \<times> ('s, 'f) balancer_state" where
  "take_idle o0 target st =
    (let n = length (idle st);
         order = map (\<lambda>k. if idle_order o0 = Fifo then k else n - 1 - k) [0..<n];
         (found, stale) = scan_idle st target order []
     in if stale = [] then
          (case found of Some i \<Rightarrow> (Some (idle st ! i), [], st\<lparr>idle := remove_at i (idle st)\<rparr>) | None \<Rightarrow> (None, [], st))
        else
          let at = enumerate 0 (idle st);
              picked = map_option (\<lambda>i. idle st ! i) found;
              dropped = map snd (filter (\<lambda>(i, _). Some i \<noteq> found \<and> i \<in> set stale) at);
              kept = map snd (filter (\<lambda>(i, _). Some i \<noteq> found \<and> i \<notin> set stale) at)
          in (picked, dropped, st\<lparr>idle := kept\<rparr>))"

definition move_last :: "rstr \<Rightarrow> rstr list \<Rightarrow> rstr list" where
  "move_last x eps = (if 1 < length eps \<and> x \<in> set eps then remove1 x eps @ [x] else eps)"

definition order :: "rstr option \<Rightarrow> rstr option \<Rightarrow> ('s, 'f) balancer_state \<Rightarrow> rstr list \<times> ('s, 'f) balancer_state" where
  "order first exclude st =
    (let others = filter (\<lambda>(ep, _). Some ep \<noteq> first) (members st);
         us = map fst (filter (\<lambda>(_, m). usable m) others);
         rest = map (\<lambda>(ep, m). (ejected_until m, ep)) (filter (\<lambda>(_, m). \<not> usable m) others);
         (us, r) = shuffle us (rng st);
         rest = sort_key (\<lambda>(until, _). (until \<noteq> None, until)) rest;
         eps = (case first of Some f \<Rightarrow> [f] | None \<Rightarrow> []) @ us @ map snd rest;
         eps = (case exclude of Some x \<Rightarrow> move_last x eps | None \<Rightarrow> eps)
     in (eps, st\<lparr>rng := r\<rparr>))"

definition dial_order :: "rstr \<Rightarrow> ('s, 'f) balancer_state \<Rightarrow> rstr list \<times> ('s, 'f) balancer_state" where
  [simp]: "dial_order lost st = order None (Some lost) st"

section \<open>Ejection\<close>

definition backoff_for :: "'f pool_options \<Rightarrow> nat \<Rightarrow> duration" where
  "backoff_for o0 n =
    (let doublings = sat_u32 (2 ^ (n - 1)) in min (min (eject_backoff o0 * doublings) DURATION_MAX) (eject_backoff_max o0))"

definition ensure_maintainer :: "sysin \<Rightarrow> ('s, 'f) balancer_state \<Rightarrow> ('s, 'f) balancer_state" where
  "ensure_maintainer t st = (if maintainer st \<or> closed st then st else if spawn_ok t then st\<lparr>maintainer := True\<rparr> else st)"

definition other_usable :: "rstr \<Rightarrow> ('s, 'f) balancer_state \<Rightarrow> bool" where
  "other_usable ep st \<longleftrightarrow> (\<exists>(k, m) \<in> set (members st). k \<noteq> ep \<and> usable m)"

definition eject_member :: "'f pool_options \<Rightarrow> instant \<Rightarrow> 'f member \<Rightarrow> 'f member" where
  "eject_member o0 t m =
    (let m = (if (case readmitted_at m of None \<Rightarrow> True | Some r \<Rightarrow> eject_backoff_max o0 < t - r) then m\<lparr>ejections := 0\<rparr> else m);
         m = m\<lparr>ejections := sat_u32 (ejections m + 1)\<rparr>
     in m\<lparr>ejected_until := Some (t + backoff_for o0 (ejections m))\<rparr>)"

definition eject :: "'f pool_options \<Rightarrow> sysin \<Rightarrow> rstr \<Rightarrow> ('s, 'f) balancer_state \<Rightarrow> ('s, 'f) balancer_state" where
  "eject o0 t ep st =
    (if \<not> other_usable ep st then st
     else if bt_get (members st) ep = None then st
     else ensure_maintainer t (st\<lparr>members := bt_update ep (eject_member o0 (now2 t)) (members st)\<rparr>))"

definition failed :: "'f pool_options \<Rightarrow> sysin \<Rightarrow> rstr \<Rightarrow> ('s, 'f) balancer_state \<Rightarrow> ('s, 'f) balancer_state" where
  "failed o0 t ep st = (case bt_get (members st) ep of
     None \<Rightarrow> st
   | Some m \<Rightarrow>
     let m = m\<lparr>errors := sat_u32 (errors m + 1)\<rparr>;
         st = st\<lparr>members := bt_update ep (\<lambda>_. m) (members st)\<rparr>
     in if eject_errors o0 \<le> errors m \<and> ejected_until m = None then eject o0 t ep st else st)"

section \<open>What connections report\<close>

definition reattribute :: "rstr \<Rightarrow> pool_link \<times> ('s, 'f) balancer_state \<Rightarrow> pool_link \<times> ('s, 'f) balancer_state" where
  "reattribute conn = (\<lambda>(l, st).
     if link_member l = conn then (l, st)
     else
       let st = (if link_out l
                 then st\<lparr>members := bt_update conn (\<lambda>m. m\<lparr>in_use := in_use m + 1\<rparr>)
                        (bt_update (link_member l) (\<lambda>m. m\<lparr>in_use := in_use m - 1\<rparr>) (members st))\<rparr>
                 else st)
       in (l\<lparr>link_member := conn\<rparr>, st))"

definition moved :: "rstr \<Rightarrow> pool_link \<times> ('s, 'f) balancer_state \<Rightarrow> pool_link \<times> ('s, 'f) balancer_state" where
  "moved conn = reattribute conn"

definition reduce_min :: "'f f64_ops \<Rightarrow> 'f list \<Rightarrow> 'f option" where
  "reduce_min F xs = (case xs of [] \<Rightarrow> None | x # xs \<Rightarrow> Some (fold (\<lambda>y a. f_min F a y) xs x))"

definition sampled :: "'f f64_ops \<Rightarrow> 'f \<Rightarrow> 'f \<Rightarrow> instant \<Rightarrow> 'f member \<Rightarrow> 'f member" where
  "sampled F flr sample t m =
    (let m = (case ewma m of
           None \<Rightarrow>
             let fs = firsts m @ [sample] in
             if EWMA_SEED_SAMPLES \<le> length fs then m\<lparr>ewma := reduce_min F fs, firsts := []\<rparr> else m\<lparr>firsts := fs\<rparr>
         | Some avg \<Rightarrow>
             m\<lparr>ewma := Some (f_add F avg (f_mul F (f_weight F)
                 (f_sub F (f_min F sample (f_mul F (f_clamp F) (f_max F avg flr))) avg)))\<rparr>)
     in m\<lparr>errors := 0, samples := sat_u32 (samples m + 1), last_sample := Some t\<rparr>)"

fun insort_by :: "('a \<Rightarrow> 'a \<Rightarrow> bool) \<Rightarrow> 'a \<Rightarrow> 'a list \<Rightarrow> 'a list" where
  "insort_by le x [] = [x]"
| "insort_by le x (y # ys) = (if le x y then x # y # ys else y # insort_by le x ys)"

definition sort_by :: "('a \<Rightarrow> 'a \<Rightarrow> bool) \<Rightarrow> 'a list \<Rightarrow> 'a list" where
  "sort_by le xs = foldr (insort_by le) xs []"

definition other_averages :: "rstr \<Rightarrow> ('s, 'f) balancer_state \<Rightarrow> 'f list" where
  "other_averages conn st =
    List.map_filter (\<lambda>(ep, m). if ep \<noteq> conn \<and> usable m \<and> EWMA_MIN_SAMPLES \<le> samples m then ewma m else None) (members st)"

definition too_slow :: "'f f64_ops \<Rightarrow> 'f pool_options \<Rightarrow> 'f \<Rightarrow> 'f list \<Rightarrow> bool" where
  "too_slow F o0 e others =
    (let median = sort_by (f_total_le F) others ! ((length others - 1) div 2)
     in f_lt F (f_mul F (eject_latency_factor o0) median) e \<and> f_lt F (f_secs F (eject_latency_floor o0)) (f_sub F e median))"

definition round_trip :: "'f f64_ops \<Rightarrow> 'f pool_options \<Rightarrow> sysin \<Rightarrow> rstr \<Rightarrow> duration
    \<Rightarrow> pool_link \<times> ('s, 'f) balancer_state \<Rightarrow> pool_link \<times> ('s, 'f) balancer_state" where
  "round_trip F o0 t conn elapsed ls =
    (let (l, st) = reattribute conn ls in
     case bt_get (members st) conn of
       None \<Rightarrow> (l, st)
     | Some m0 \<Rightarrow>
       let m = sampled F (f_secs F (eject_latency_floor o0)) (f_secs F elapsed) (now t) m0;
           st = st\<lparr>members := bt_update conn (\<lambda>_. m) (members st)\<rparr>
       in case ewma m of
            None \<Rightarrow> (l, st)
          | Some e \<Rightarrow>
            if \<not> usable m \<or> samples m < EWMA_MIN_SAMPLES \<or> f_le F (eject_latency_factor o0) (f_zero F) then (l, st)
            else let others = other_averages conn st in
              if others = [] then (l, st)
              else (l, if too_slow F o0 e others then eject o0 t conn st else st))"

definition closed_out :: "rstr \<Rightarrow> ('s, 'f) balancer_state \<Rightarrow> ('s, 'f) balancer_state" where
  "closed_out ep st = st\<lparr>members := bt_update ep (\<lambda>m. m\<lparr>in_use := in_use m - 1\<rparr>) (members st)\<rparr>"

definition wrote :: "'f pool_options \<Rightarrow> sysin \<Rightarrow> rstr option \<Rightarrow> rstr \<Rightarrow> ('s, 'f) balancer_state \<Rightarrow> ('s, 'f) balancer_state" where
  "wrote o0 t key conn st =
    (let a = (if AFFINITY_CAP \<le> length (affinity st) then filter (\<lambda>(_, _, until). now t < until) (affinity st) else affinity st)
     in st\<lparr>affinity := AList.update key (conn, now t + read_your_writes o0) a\<rparr>)"

section \<open>Checking in, closing, monitoring\<close>

definition checkin :: "nat \<Rightarrow> 'f pool_options \<Rightarrow> 's client \<Rightarrow> ('s, 'f) balancer_state \<Rightarrow> ('s, 'f) balancer_state" where
  "checkin self o0 c st = (case link c of
     Some l \<Rightarrow>
       if link_pool l \<noteq> self then st
       else
         let us = usable_at st (link_member l);
             st = (if link_out l then closed_out (link_member l) st else st);
             c = c\<lparr>link := Some (l\<lparr>link_out := False\<rparr>)\<rparr>
         in if \<not> closed st \<and> \<not> broken l \<and> us \<and> length (idle st) < maxsize o0
            then st\<lparr>idle := idle st @ [c]\<rparr> else st
   | None \<Rightarrow> st)"

definition close :: "('s, 'f) balancer_state \<Rightarrow> ('s, 'f) balancer_state" where
  "close st = st\<lparr>closed := True, idle := [], maintainer := False\<rparr>"

record pool_member =
  pm_endpoint :: rstr
  pm_canonical :: "rstr option"
  pm_state :: member_state
  pm_latency :: "duration option"
  pm_in_use :: nat
  pm_idle :: nat
  pm_seed :: bool

definition members_view :: "'f f64_ops \<Rightarrow> ('s, 'f) balancer_state \<Rightarrow> pool_member list" where
  "members_view F st = map (\<lambda>(ep, m). \<lparr>pm_endpoint = ep, pm_canonical = canonical m,
      pm_state = (if ejected_until m \<noteq> None then Ejected else listed m), pm_latency = Option.bind (ewma m) (f_try_duration F), pm_in_use = in_use m,
      pm_idle = length (filter (\<lambda>c. link c \<noteq> None \<and> client_member c = ep) (idle st)), pm_seed = seed m\<rparr>) (members st)"

section \<open>Random choices: lemmas\<close>

lemma push_bit_fixed: "push_bit n x = (x :: 'a::len word) \<Longrightarrow> 0 < n \<Longrightarrow> x = 0"
proof (rule bit_word_eqI)
  fix i assume fx: "push_bit n x = x" "0 < n" and i: "i < LENGTH('a)"
  have "\<not> bit x i"
  proof (induction i rule: less_induct)
    case (less i)
    have "bit x i \<longleftrightarrow> n \<le> i \<and> i < LENGTH('a) \<and> bit x (i - n)"
      using fx(1) by (metis bit_push_bit_iff bit_imp_le_length not_le possible_bit_word)
    then show ?case using less[of "i - n"] fx(2) by auto
  qed
  then show "bit x i \<longleftrightarrow> bit 0 i" by simp
qed

lemma drop_bit_fixed: "drop_bit n x = (x :: 'a::len word) \<Longrightarrow> 0 < n \<Longrightarrow> x = 0"
proof (rule bit_word_eqI)
  fix i assume fx: "drop_bit n x = x" "0 < n"
  have "bit x (i + n * k) = bit x i" for k
  proof (induction k)
    case (Suc k)
    have "bit x (i + n * k) = bit x (n + (i + n * k))"
      using fx(1) by (metis bit_drop_bit_eq comp_apply)
    with Suc show ?case by (simp add: algebra_simps)
  qed simp
  moreover have "\<not> bit x (i + n * LENGTH('a))"
    using fx(2) bit_imp_le_length[of x "i + n * LENGTH('a)"] by (cases n) auto
  ultimately show "bit x i \<longleftrightarrow> bit 0 i" by simp
qed

lemma xor_zero_eq: "(x :: 'a::len word) XOR y = 0 \<Longrightarrow> y = x"
  by (metis xor.right_neutral xor_self_eq xor.left_commute)

lemma next_u64_nonzero: "r \<noteq> 0 \<Longrightarrow> snd (next_u64 r) \<noteq> 0"
  using push_bit_fixed[OF xor_zero_eq, of _ 13] push_bit_fixed[OF xor_zero_eq, of _ 17] drop_bit_fixed[OF xor_zero_eq, of _ 7]
  unfolding next_u64_def Let_def snd_conv by (metis zero_less_numeral)

lemma below_bound: "0 < n \<Longrightarrow> fst (below n r) < n"
  by (simp add: below_def split: prod.splits)

lemma below_rng: "snd (below n r) = snd (next_u64 r)"
  by (simp add: below_def split: prod.splits)

lemma length_swap [simp]: "length (swap i j v) = length v"
  by (simp add: swap_def)

lemma mset_swap_eq: "i < length v \<Longrightarrow> j < length v \<Longrightarrow> mset (swap i j v) = mset v"
  by (simp add: swap_def mset_swap)

lemma shuffle_steps:
  "(\<And>i. i \<in> set is \<Longrightarrow> i < length v) \<Longrightarrow>
   mset (fst (fold shuffle_step is (v, r))) = mset v"
proof (induction "is" arbitrary: v r)
  case (Cons i "is")
  obtain j r' where j: "below (i + 1) r = (j, r')" by fastforce
  then have "j < length v" using below_bound[of "i + 1" r] Cons.prems[of i] by simp
  with j Cons show ?case by (simp add: shuffle_step_def mset_swap_eq)
qed simp

lemma mset_shuffle: "mset (fst (shuffle v r)) = mset v"
  unfolding shuffle_def by (rule shuffle_steps) auto

lemma set_shuffle [simp]: "set (fst (shuffle v r)) = set v"
  using mset_shuffle by (metis set_mset_mset)

lemma distinct_shuffle [simp]: "distinct (fst (shuffle v r)) = distinct v"
  using mset_shuffle by (metis mset_eq_imp_distinct_iff)

lemma shuffle_rng_nonzero: "r \<noteq> 0 \<Longrightarrow> snd (shuffle v r) \<noteq> 0"
proof -
  have "r \<noteq> 0 \<Longrightarrow> snd (fold shuffle_step is (v, r)) \<noteq> 0" for "is"
  proof (induction "is" arbitrary: v r)
    case (Cons i "is")
    obtain v' r' where step: "shuffle_step i (v, r) = (v', r')" by fastforce
    have "r' = snd (next_u64 r)"
      using step below_rng[of "i + 1" r] by (auto simp: shuffle_step_def split: prod.splits)
    with Cons step next_u64_nonzero show ?case by simp
  qed simp
  then show "r \<noteq> 0 \<Longrightarrow> ?thesis" by (simp add: shuffle_def)
qed

section \<open>The dial order\<close>

definition keys :: "('s, 'f) balancer_state \<Rightarrow> rstr list" where
  "keys st = map fst (members st)"

text \<open>How early an endpoint is dialled: the target, usable members, members out of the listing, ejected
  members by the end of their ejection.\<close>

definition dial_rank :: "('s, 'f) balancer_state \<Rightarrow> rstr option \<Rightarrow> rstr \<Rightarrow> nat \<times> nat" where
  "dial_rank st first ep =
    (if Some ep = first then (0, 0)
     else case bt_get (members st) ep of
       None \<Rightarrow> (0, 0)
     | Some m \<Rightarrow> (if usable m then (1, 0) else case ejected_until m of None \<Rightarrow> (2, 0) | Some t \<Rightarrow> (3, t)))"

lemma mset_map_split: "mset (map f (filter P xs)) + mset (map f (filter (\<lambda>x. \<not> P x) xs)) = mset (map f xs)"
  by (induction xs) auto

lemma mset_move_last [simp]: "mset (move_last x eps) = mset eps"
  by (simp add: move_last_def)

lemma filter_move_last: "distinct eps \<Longrightarrow> filter (\<lambda>e. e \<noteq> x) (move_last x eps) = filter (\<lambda>e. e \<noteq> x) eps"
  by (auto simp: move_last_def distinct_remove1_removeAll removeAll_filter_not_eq intro: filter_cong)

lemma last_move_last: "x \<in> set eps \<Longrightarrow> last (move_last x eps) = x"
  by (cases eps) (auto simp: move_last_def)

lemma sorted_rank_block:
  "(\<And>e. e \<in> set es \<Longrightarrow> r e = c) \<Longrightarrow> sorted (map r (es :: 'a list))" for r :: "'a \<Rightarrow> 'b::linorder"
  by (induction es) auto

lemma sorted_blocks:
  fixes r :: "'a \<Rightarrow> 'b::linorder"
  assumes "\<And>x. x \<in> set a \<Longrightarrow> r x = p" and "\<And>x. x \<in> set b \<Longrightarrow> r x = q" and "\<And>x. x \<in> set c \<Longrightarrow> s \<le> r x"
    and "sorted (map r c)" and "p \<le> q" and "q \<le> s"
  shows "sorted (map r (a @ b @ c))"
  using assms sorted_rank_block[of a r p] sorted_rank_block[of b r q] by (fastforce simp: sorted_append)

lemma order_unexcluded:
  assumes sorted: "bt_sorted (members st)" and eps: "order first None st = (eps, st')" and first: "\<And>f. first = Some f \<Longrightarrow> f \<in> set (keys st)"
  shows "mset eps = mset (keys st)" and "sorted (map (dial_rank st first) eps)"
proof -
  let ?others = "filter (\<lambda>(ep, _). Some ep \<noteq> first) (members st)"
  let ?us = "map fst (filter (\<lambda>(_, m). usable m) ?others)"
  let ?rest = "map (\<lambda>(ep, m). (ejected_until m, ep)) (filter (\<lambda>(_, m). \<not> usable m) ?others)"
  let ?key = "\<lambda>(until, _). (until \<noteq> None, until) :: bool \<times> nat option"
  let ?sorted = "sort_key ?key ?rest"
  let ?head = "case first of Some f \<Rightarrow> [f] | None \<Rightarrow> []"
  have eps': "eps = ?head @ fst (shuffle ?us (rng st)) @ map snd ?sorted"
    using eps by (auto simp: order_def Let_def split: prod.splits)
  have d: "distinct (map fst (members st))" using sorted by (rule bt_sorted_distinct)
  have "mset (map snd ?sorted) = mset (map snd ?rest)" by (simp only: mset_map mset_sort)
  also have "map snd ?rest = map fst (filter (\<lambda>(_, m). \<not> usable m) ?others)" by (auto simp: case_prod_beta)
  finally have rest: "mset (map snd ?sorted) = mset (map fst (filter (\<lambda>(_, m). \<not> usable m) ?others))" .
  have "mset ?us + mset (map snd ?sorted) = mset (map fst ?others)"
    unfolding rest using mset_map_split[of fst "\<lambda>(_, m). usable m" ?others] by (simp add: case_prod_unfold)
  moreover have "mset ?head + mset (map fst ?others) = mset (keys st)"
  proof (cases first)
    case (Some f)
    then have f: "f \<in> set (map fst (members st))" using first by (simp add: keys_def)
    have "map fst ?others = filter (\<lambda>e. e \<noteq> f) (map fst (members st))"
      using Some by (auto simp: filter_map comp_def case_prod_beta intro!: arg_cong[where f = "map fst"] filter_cong)
    also have "\<dots> = remove1 f (map fst (members st))"
      using d by (simp add: distinct_remove1_removeAll removeAll_filter_not_eq eq_commute[of f])
    finally show ?thesis using Some f by (simp add: keys_def)
  next
    case None
    then show ?thesis by (simp add: keys_def)
  qed
  ultimately show "mset eps = mset (keys st)" unfolding eps' by (simp add: mset_shuffle add.assoc)
  have get: "bt_get (members st) ep = Some m" if "(ep, m) \<in> set (members st)" for ep m
    using that sorted by (simp add: bt_get_Some_iff)
  have us: "dial_rank st first e = (1, 0)" if "e \<in> set ?us" for e
    using that get by (auto simp: dial_rank_def)
  have "dial_rank st first e = (case u of None \<Rightarrow> (2, 0) | Some t \<Rightarrow> (3, t))" if "(u, e) \<in> set ?rest" for u e
    using that get by (fastforce simp: dial_rank_def)
  then have rank: "dial_rank st first (snd x) = (\<lambda>(u, e). case u of None \<Rightarrow> (2, 0) | Some t \<Rightarrow> (3, t)) x" if "x \<in> set ?sorted" for x
    using that by (cases x) (simp only: set_sort prod.case snd_conv)
  have eq: "map (dial_rank st first) (map snd ?sorted) = map (\<lambda>(u, e). case u of None \<Rightarrow> (2, 0) | Some t \<Rightarrow> (3, t)) ?sorted"
    unfolding map_map comp_def by (rule map_cong[OF refl]) (rule rank)
  have mono: "(case u of None \<Rightarrow> (2, 0) | Some t \<Rightarrow> (3, t)) \<le> (case v of None \<Rightarrow> (2, 0) | Some t \<Rightarrow> (3 :: nat, t :: nat))"
    if "?key (u, e) \<le> ?key (v, e')" for u v :: "nat option" and e e' :: rstr
    using that by (cases u; cases v) (auto simp: less_eq_prod_def)
  have "sorted (map ?key ?sorted)" by (rule sorted_sort_key)
  then have "sorted (map (\<lambda>(u, e). case u of None \<Rightarrow> (2, 0) | Some t \<Rightarrow> (3 :: nat, t :: nat)) ?sorted)"
    unfolding sorted_map by (rule sorted_wrt_mono_rel[rotated]) (auto simp: mono split: prod.splits)
  then have tail: "sorted (map (dial_rank st first) (map snd ?sorted))" unfolding eq .
  have tail2: "(2, 0) \<le> dial_rank st first e" if "e \<in> set (map snd ?sorted)" for e
    using that get by (auto simp: dial_rank_def less_eq_prod_def split: option.splits)
  have head: "dial_rank st first e = (0, 0)" if "e \<in> set ?head" for e
    using that by (auto simp: dial_rank_def split: option.splits)
  show "sorted (map (dial_rank st first) eps)"
    unfolding eps' by (rule sorted_blocks[OF head _ tail2 tail]) (simp_all only: us set_shuffle, simp_all add: less_eq_prod_def)
qed

lemma order_exclude:
  "order first (Some x) st = (case order first None st of (eps, st') \<Rightarrow> (move_last x eps, st'))"
  by (simp add: order_def Let_def split: prod.splits)

section \<open>The idle set\<close>

definition eligible :: "('s, 'f) balancer_state \<Rightarrow> rstr option \<Rightarrow> 's client \<Rightarrow> bool" where
  "eligible st target c \<longleftrightarrow> usable_at st (client_member c) \<and> (target = None \<or> target = Some (client_member c))"

lemma scan_idle_eq:
  "scan_idle st target is stale =
    (find (\<lambda>i. eligible st target (idle st ! i)) is,
     stale @ filter (\<lambda>i. \<not> usable_at st (client_member (idle st ! i)))
       (takeWhile (\<lambda>i. \<not> eligible st target (idle st ! i)) is))"
  by (induction st target "is" stale rule: scan_idle.induct) (auto simp: Let_def eligible_def)

definition at_positions :: "(nat \<Rightarrow> bool) \<Rightarrow> 'a list \<Rightarrow> 'a list" where
  "at_positions P xs = map snd (filter (\<lambda>(i, _). P i) (enumerate 0 xs))"

lemma at_positions_subseq: "subseq (at_positions P xs) xs"
proof -
  have "subseq (map snd (filter (\<lambda>(i, _). P i) (enumerate 0 xs))) (map snd (enumerate 0 xs))"
    by (rule subseq_map) (rule subseq_filter_left)
  then show ?thesis by (simp add: at_positions_def)
qed

lemma mset_at_positions: "mset (at_positions P xs) + mset (at_positions (\<lambda>i. \<not> P i) xs) = mset xs"
  using mset_map_split[of snd "\<lambda>(i, _). P i" "enumerate 0 xs"] by (simp add: at_positions_def case_prod_unfold)

lemma set_at_positions: "set (at_positions P xs) = {xs ! i | i. i < length xs \<and> P i}"
  by (auto simp: at_positions_def in_set_enumerate_eq image_iff)

lemma at_positions_one: "i < length xs \<Longrightarrow> at_positions (\<lambda>j. j = i) xs = [xs ! i]"
proof -
  assume i: "i < length xs"
  have "filter (\<lambda>(j, _). j = i) (enumerate n xs) = (if n \<le> i \<and> i < n + length xs then [(i, xs ! (i - n))] else [])" for n
    by (induction xs arbitrary: n) (auto simp: nth_Cons')
  from this[of 0] i show ?thesis by (simp add: at_positions_def)
qed

lemma remove_at_positions: "remove_at i xs = at_positions (\<lambda>j. j \<noteq> i) xs"
proof -
  have "filter (\<lambda>(j, _). j \<noteq> i) (enumerate n xs) =
    (if n \<le> i then enumerate n (take (i - n) xs) @ enumerate (Suc i) (drop (Suc i - n) xs) else enumerate n xs)" for n
    by (induction xs arbitrary: n) (auto simp: take_Cons' drop_Cons' Suc_diff_le)
  from this[of 0] show ?thesis by (simp add: at_positions_def remove_at_def)
qed

lemma at_positions_all: "at_positions (\<lambda>_. True) xs = xs" "at_positions (\<lambda>_. False) xs = []"
  by (simp_all add: at_positions_def case_prod_unfold)

lemma take_idle_positions:
  assumes "take_idle o0 target st = (c, dropped, st')"
  obtains pos found stale where
    "pos = (if idle_order o0 = Fifo then [0..<length (idle st)] else rev [0..<length (idle st)])"
    "found = find (\<lambda>i. eligible st target (idle st ! i)) pos"
    "set stale = {i \<in> set (takeWhile (\<lambda>i. \<not> eligible st target (idle st ! i)) pos). \<not> usable_at st (client_member (idle st ! i))}"
    "c = map_option (\<lambda>i. idle st ! i) found"
    "dropped = at_positions (\<lambda>i. Some i \<noteq> found \<and> i \<in> set stale) (idle st)"
    "st' = st\<lparr>idle := at_positions (\<lambda>i. Some i \<noteq> found \<and> i \<notin> set stale) (idle st)\<rparr>"
proof -
  let ?n = "length (idle st)"
  define pos where "pos = (if idle_order o0 = Fifo then [0..<?n] else rev [0..<?n])"
  define found where "found = find (\<lambda>i. eligible st target (idle st ! i)) pos"
  define stale where "stale = filter (\<lambda>i. \<not> usable_at st (client_member (idle st ! i)))
    (takeWhile (\<lambda>i. \<not> eligible st target (idle st ! i)) pos)"
  have "map (\<lambda>k. if idle_order o0 = Fifo then k else ?n - 1 - k) [0..<?n] = pos"
    by (auto simp: pos_def rev_nth intro!: nth_equalityI)
  then have take: "take_idle o0 target st =
      (if stale = [] then
         (case found of Some i \<Rightarrow> (Some (idle st ! i), [], st\<lparr>idle := remove_at i (idle st)\<rparr>) | None \<Rightarrow> (None, [], st))
       else (map_option (\<lambda>i. idle st ! i) found, at_positions (\<lambda>i. Some i \<noteq> found \<and> i \<in> set stale) (idle st),
         st\<lparr>idle := at_positions (\<lambda>i. Some i \<noteq> found \<and> i \<notin> set stale) (idle st)\<rparr>))"
    by (simp add: take_idle_def Let_def scan_idle_eq found_def stale_def at_positions_def)
  have "(c, dropped, st') = (map_option (\<lambda>i. idle st ! i) found, at_positions (\<lambda>i. Some i \<noteq> found \<and> i \<in> set stale) (idle st),
      st\<lparr>idle := at_positions (\<lambda>i. Some i \<noteq> found \<and> i \<notin> set stale) (idle st)\<rparr>)"
    using assms unfolding take
    by (cases "stale = []"; cases found) (simp_all add: remove_at_positions at_positions_all)
  then show thesis by (intro that[of pos found stale]) (auto simp: pos_def found_def stale_def)
qed

lemma take_idle_partition:
  assumes "take_idle o0 target st = (c, dropped, st')"
  shows "mset (idle st) = mset (idle st') + mset dropped + mset (case c of None \<Rightarrow> [] | Some x \<Rightarrow> [x])"
proof -
  obtain pos found stale where t:
    "pos = (if idle_order o0 = Fifo then [0..<length (idle st)] else rev [0..<length (idle st)])"
    "found = find (\<lambda>i. eligible st target (idle st ! i)) pos"
    "set stale = {i \<in> set (takeWhile (\<lambda>i. \<not> eligible st target (idle st ! i)) pos). \<not> usable_at st (client_member (idle st ! i))}"
    "c = map_option (\<lambda>i. idle st ! i) found"
    "dropped = at_positions (\<lambda>i. Some i \<noteq> found \<and> i \<in> set stale) (idle st)"
    "st' = st\<lparr>idle := at_positions (\<lambda>i. Some i \<noteq> found \<and> i \<notin> set stale) (idle st)\<rparr>"
    by (rule take_idle_positions[OF assms])
  have one: "mset (at_positions (\<lambda>i. Some i = found) (idle st)) = mset (case c of None \<Rightarrow> [] | Some x \<Rightarrow> [x])"
  proof (cases found)
    case (Some i)
    then have "i \<in> set pos" using t(2) by (auto simp: find_Some_iff intro: nth_mem)
    then have "i < length (idle st)" using t(1) by (auto split: if_splits)
    with Some t(4) show ?thesis by (simp add: at_positions_one)
  qed (simp add: t(4) at_positions_all)
  have two: "mset (at_positions (\<lambda>i. P i \<and> Q i) xs) + mset (at_positions (\<lambda>i. P i \<and> \<not> Q i) xs) = mset (at_positions P xs)" for P Q and xs :: "'x list"
    using mset_map_split[of snd "\<lambda>(i, _). Q i" "filter (\<lambda>(i, _). P i) (enumerate 0 xs)"]
    by (simp add: at_positions_def case_prod_unfold conj_commute)
  show ?thesis
    using mset_at_positions[of "\<lambda>i. Some i \<noteq> found" "idle st"] two[of "\<lambda>i. Some i \<noteq> found" "\<lambda>i. i \<in> set stale" "idle st"] one t(5,6)
    by (simp add: ac_simps)
qed

lemma find_prefix: "find P xs = Some x \<Longrightarrow> \<exists>us vs. xs = us @ x # vs \<and> (\<forall>u \<in> set us. \<not> P u) \<and> P x"
  by (induction xs) (auto split: if_splits intro: exI[of _ "[]"], metis append_Cons set_ConsD)

lemma take_idle_choice:
  assumes "take_idle o0 target st = (c, dropped, st')"
  shows "(\<forall>x. c = Some x \<longrightarrow> eligible st target x)"
    and "\<forall>d \<in> set dropped. \<not> usable_at st (client_member d)"
    and "subseq (idle st') (idle st)"
    and "c = None \<Longrightarrow> \<forall>d \<in> set (idle st'). usable_at st (client_member d) \<and> \<not> eligible st target d"
    and "\<exists>cs. st' = st\<lparr>idle := cs\<rparr>"
proof -
  obtain pos found stale where t:
    "pos = (if idle_order o0 = Fifo then [0..<length (idle st)] else rev [0..<length (idle st)])"
    "found = find (\<lambda>i. eligible st target (idle st ! i)) pos"
    "set stale = {i \<in> set (takeWhile (\<lambda>i. \<not> eligible st target (idle st ! i)) pos). \<not> usable_at st (client_member (idle st ! i))}"
    "c = map_option (\<lambda>i. idle st ! i) found"
    "dropped = at_positions (\<lambda>i. Some i \<noteq> found \<and> i \<in> set stale) (idle st)"
    "st' = st\<lparr>idle := at_positions (\<lambda>i. Some i \<noteq> found \<and> i \<notin> set stale) (idle st)\<rparr>"
    by (rule take_idle_positions[OF assms])
  show "\<forall>x. c = Some x \<longrightarrow> eligible st target x"
    using t(2,4) by (auto dest: find_prefix)
  show "\<forall>d \<in> set dropped. \<not> usable_at st (client_member d)"
    using t(3,5) by (auto simp: set_at_positions)
  show "subseq (idle st') (idle st)" using t(6) by (simp add: at_positions_subseq)
  show "\<exists>cs. st' = st\<lparr>idle := cs\<rparr>" using t(6) by blast
  assume "c = None"
  then have none: "found = None" using t(4) by simp
  then have no: "\<not> eligible st target (idle st ! i)" if "i < length (idle st)" for i
    using that t(1,2) by (auto simp: find_None_iff)
  have setpos: "set pos = {0..<length (idle st)}" using t(1) by auto
  with no have "takeWhile (\<lambda>i. \<not> eligible st target (idle st ! i)) pos = pos"
    by (simp only: takeWhile_eq_all_conv) simp
  then have "set stale = {i \<in> {0..<length (idle st)}. \<not> usable_at st (client_member (idle st ! i))}"
    using t(3) by (simp only: setpos)
  then show "\<forall>d \<in> set (idle st'). usable_at st (client_member d) \<and> \<not> eligible st target d"
    using t(6) none no by (auto simp: set_at_positions)
qed

lemma before_in_sorted:
  "sorted_wrt R (us @ i # vs) \<Longrightarrow> j \<in> set (us @ i # vs) \<Longrightarrow> R j i \<Longrightarrow> (\<And>x y. R x y \<Longrightarrow> \<not> R y x) \<Longrightarrow> j \<in> set us"
  by (auto simp: sorted_wrt_append)

lemma take_idle_position:
  assumes "take_idle o0 target st = (Some x, dropped, st')"
  shows "\<exists>i < length (idle st). x = idle st ! i \<and>
    (\<forall>j < length (idle st). (if idle_order o0 = Fifo then j < i else i < j) \<longrightarrow> \<not> eligible st target (idle st ! j))"
proof -
  obtain pos found stale where t:
    "pos = (if idle_order o0 = Fifo then [0..<length (idle st)] else rev [0..<length (idle st)])"
    "found = find (\<lambda>i. eligible st target (idle st ! i)) pos"
    "set stale = {i \<in> set (takeWhile (\<lambda>i. \<not> eligible st target (idle st ! i)) pos). \<not> usable_at st (client_member (idle st ! i))}"
    "Some x = map_option (\<lambda>i. idle st ! i) found"
    "dropped = at_positions (\<lambda>i. Some i \<noteq> found \<and> i \<in> set stale) (idle st)"
    "st' = st\<lparr>idle := at_positions (\<lambda>i. Some i \<noteq> found \<and> i \<notin> set stale) (idle st)\<rparr>"
    by (rule take_idle_positions[OF assms])
  let ?n = "length (idle st)"
  obtain i where i: "found = Some i" "x = idle st ! i" using t(4) by (cases found) auto
  then have "find (\<lambda>i. eligible st target (idle st ! i)) pos = Some i" using t(2) by simp
  then obtain us vs where uv: "pos = us @ i # vs" "\<forall>u \<in> set us. \<not> eligible st target (idle st ! u)"
    by (blast dest: find_prefix)
  have setpos: "set pos = {0..<?n}" using t(1) by auto
  then have lt: "i < ?n" using uv(1) by auto
  let ?R = "\<lambda>a b :: nat. if idle_order o0 = Fifo then a < b else b < a"
  have "sorted_wrt ?R pos" using t(1) by (auto simp: sorted_wrt_rev)
  then have "j \<in> set us" if "?R j i" "j < ?n" for j
    using that setpos unfolding uv(1) by (intro before_in_sorted[of ?R us i vs]) (auto split: if_splits)
  with uv(2) lt i(2) show ?thesis by blast
qed

section \<open>Picking\<close>

lemma usable_members_iff: "bt_sorted (members st) \<Longrightarrow> ep \<in> set (usable_members st) \<longleftrightarrow> usable_at st ep"
  by (auto simp: usable_members_def usable_at_def image_iff bt_get_Some_iff[symmetric] split: option.splits)

lemma usable_members_distinct: "bt_sorted (members st) \<Longrightarrow> distinct (usable_members st)"
  using bt_sorted_distinct[of "members st"] by (simp add: usable_members_def distinct_map_filter)

text \<open>Picking touches only the position, the affinity table and the generator.\<close>

lemma pick_affinity_frame:
  "pick_affinity o0 t key st = (r, st') \<Longrightarrow> members st' = members st \<and> idle st' = idle st \<and> rr st' = rr st \<and> rng st' = rng st
     \<and> closed st' = closed st \<and> (r = Some ep \<longrightarrow> usable_at st ep)"
  by (auto simp: pick_affinity_def usable_at_def split: if_splits option.splits)

lemma usable_members_cong: "members st' = members st \<Longrightarrow> usable_members st' = usable_members st"
  by (simp add: usable_members_def)

lemma usable_at_cong: "members st' = members st \<Longrightarrow> usable_at st' ep = usable_at st ep"
  by (simp add: usable_at_def)

lemma pick_frame:
  assumes "pick F o0 t key st = (r, st')"
  shows "members st' = members st \<and> idle st' = idle st \<and> closed st' = closed st"
proof -
  obtain a st1 where a: "pick_affinity o0 t key st = (a, st1)" by fastforce
  with assms pick_affinity_frame[OF a] show ?thesis
    by (auto simp: pick_def Let_def split: option.splits if_splits prod.splits)
qed

lemma nth_usable: "i < length (usable_members st) \<Longrightarrow> bt_sorted (members st) \<Longrightarrow> usable_at st (usable_members st ! i)"
  using usable_members_iff nth_mem by blast

lemma pick_usable:
  assumes "bt_sorted (members st)" and "pick F o0 t key st = (Some ep, st')"
  shows "usable_at st ep"
proof -
  obtain a st1 where a: "pick_affinity o0 t key st = (a, st1)" by fastforce
  note frame = pick_affinity_frame[OF a]
  have us: "usable_members st1 = usable_members st" using frame usable_members_cong by blast
  show ?thesis
  proof (cases a)
    case (Some e)
    with assms(2) a frame show ?thesis by (simp add: pick_def)
  next
    case None
    let ?us = "usable_members st"
    obtain i r1 where i: "below (length ?us) (rng st1) = (i, r1)" by fastforce
    obtain j r2 where j: "below (length ?us - 1) r1 = (j, r2)" by fastforce
    from assms(2) a None us have ne: "?us \<noteq> []" by (auto simp: pick_def Let_def split: if_splits)
    have il: "i < length ?us" using below_bound[of "length ?us" "rng st1"] i ne by simp
    have jl: "length ?us \<noteq> 1 \<Longrightarrow> Suc j < length ?us"
      using below_bound[of "length ?us - 1" r1] j ne by (cases "length ?us") auto
    have "ep \<in> set ?us"
      using assms(2) a None us il jl i j ne by (auto simp: pick_def Let_def split: if_splits intro!: nth_mem)
    with assms(1) show ?thesis by (simp add: usable_members_iff)
  qed
qed

text \<open>The endpoints of the next \<open>n\<close> picks.\<close>

primrec picks :: "'f f64_ops \<Rightarrow> 'f pool_options \<Rightarrow> sysin \<Rightarrow> nat \<Rightarrow> ('s, 'f) balancer_state \<Rightarrow> rstr option list" where
  "picks F o0 t 0 st = []"
| "picks F o0 t (Suc n) st = (case pick F o0 t None st of (r, st') \<Rightarrow> r # picks F o0 t n st')"

lemma picks_round_robin:
  assumes "load_balancing o0 = LbRoundRobin" and "read_your_writes o0 = 0" and "usable_members st \<noteq> []"
    and "length (usable_members st) < 2 ^ 64" and "rr st < length (usable_members st)"
  shows "picks F o0 t n st = map (\<lambda>k. Some (usable_members st ! ((rr st + Suc k) mod length (usable_members st)))) [0..<n]"
  using assms(3-5)
proof (induction n arbitrary: st)
  case (Suc n)
  let ?us = "usable_members st" and ?i = "(rr st + 1) mod length (usable_members st)"
  have "rr st + 1 < 2 ^ 64" using Suc.prems by linarith
  then have step: "pick F o0 t None st = (Some (?us ! ?i), st\<lparr>rr := ?i\<rparr>)"
    using assms(1,2) Suc.prems(1) by (simp add: pick_def pick_affinity_def Let_def)
  let ?st = "st\<lparr>rr := ?i\<rparr>"
  have us: "usable_members ?st = ?us" by (simp add: usable_members_def)
  have "picks F o0 t n ?st = map (\<lambda>k. Some (?us ! ((?i + Suc k) mod length ?us))) [0..<n]"
    using Suc.IH[of ?st] Suc.prems us by simp
  also have "\<dots> = map (\<lambda>k. Some (?us ! ((rr st + Suc (Suc k)) mod length ?us))) [0..<n]"
  proof -
    have "(?i + Suc k) mod length ?us = (rr st + Suc (Suc k)) mod length ?us" for k
      using mod_add_left_eq[of "rr st + 1" "length ?us" "Suc k"] by simp
    then show ?thesis by (simp only:)
  qed
  finally show ?case using step by (simp add: upt_conv_Cons map_Suc_upt[symmetric] del: upt_Suc)
qed simp

lemma mset_rotate_eq: "mset (rotate n xs) = mset xs"
proof -
  have "mset (rotate n xs) = mset (take (n mod length xs) xs @ drop (n mod length xs) xs)"
    unfolding rotate_drop_take by (simp only: mset_append add.commute)
  then show ?thesis by simp
qed

lemma rotate_as_map: "map (\<lambda>k. xs ! ((a + k) mod length xs)) [0..<length xs] = rotate a xs"
  by (rule nth_equalityI) (auto simp: nth_rotate add.commute)

section \<open>Ejection: lemmas\<close>

definition some_usable :: "('s, 'f) balancer_state \<Rightarrow> bool" where
  "some_usable st \<longleftrightarrow> (\<exists>ep. usable_at st ep)"

lemma bt_update_absent: "bt_get m k = None \<Longrightarrow> bt_update k f m = m"
  by (induction m) (auto simp: bt_update_def split: if_splits)

lemma members_ensure_maintainer [simp]: "members (ensure_maintainer t st) = members st"
  by (simp add: ensure_maintainer_def)

lemma members_eject:
  "members (eject o0 t ep st) = (if other_usable ep st then bt_update ep (eject_member o0 (now2 t)) (members st) else members st)"
  by (simp add: eject_def bt_update_absent)

lemma other_usable_update: "other_usable ep (st\<lparr>members := bt_update ep f (members st)\<rparr>) = other_usable ep st"
proof -
  have "(\<exists>(k, m) \<in> set (bt_update ep f ms). k \<noteq> ep \<and> usable m) = (\<exists>(k, m) \<in> set ms. k \<noteq> ep \<and> usable m)" for ms
    by (induction ms) (auto simp: bt_update_def)
  then show ?thesis by (simp add: other_usable_def)
qed

lemma usable_at_iff: "usable_at st ep \<longleftrightarrow> (\<exists>m. bt_get (members st) ep = Some m \<and> usable m)"
  by (simp add: usable_at_def split: option.splits)

lemma other_usable_iff: "bt_sorted (members st) \<Longrightarrow> other_usable ep st \<longleftrightarrow> (\<exists>k. k \<noteq> ep \<and> usable_at st k)"
  by (fastforce simp: other_usable_def usable_at_iff bt_get_Some_iff)

lemma usable_at_update:
  "(\<And>m. bt_get (members st) ep = Some m \<Longrightarrow> usable (f m) = usable m) \<Longrightarrow>
   usable_at (st\<lparr>members := bt_update ep f (members st)\<rparr>) k = usable_at st k"
  by (auto simp: usable_at_def split: option.splits)

lemma eject_some_usable:
  assumes "bt_sorted (members st)" and "some_usable st"
  shows "some_usable (eject o0 t ep st)"
proof (cases "other_usable ep st")
  case True
  then obtain k where "k \<noteq> ep" "usable_at st k" using other_usable_iff[OF assms(1)] by blast
  then have "usable_at (eject o0 t ep st) k" by (simp add: usable_at_def members_eject True)
  then show ?thesis by (auto simp: some_usable_def)
qed (use assms(2) in \<open>simp add: eject_def\<close>)

lemma some_usable_update:
  "(\<And>m. bt_get (members st) ep = Some m \<Longrightarrow> usable (f m) = usable m) \<Longrightarrow>
   some_usable (st\<lparr>members := bt_update ep f (members st)\<rparr>) = some_usable st"
  by (simp add: some_usable_def usable_at_update)

lemma failed_some_usable:
  assumes "bt_sorted (members st)" and "some_usable st"
  shows "some_usable (failed o0 t ep st)"
proof (cases "bt_get (members st) ep")
  case (Some m)
  let ?st = "st\<lparr>members := bt_update ep (\<lambda>_. m\<lparr>errors := sat_u32 (errors m + 1)\<rparr>) (members st)\<rparr>"
  have "some_usable ?st" using assms(2) Some some_usable_update[of st ep] by (simp add: usable_def)
  moreover from this have "some_usable (eject o0 t ep ?st)" using assms(1) by (intro eject_some_usable) simp_all
  ultimately show ?thesis using Some by (simp add: failed_def Let_def)
qed (use assms(2) in \<open>simp add: failed_def\<close>)

lemma reattribute_frame:
  assumes "reattribute conn (l, st) = (l', st')"
  shows "usable_at st' k = usable_at st k" and "bt_sorted (members st') = bt_sorted (members st)"
    and "map fst (members st') = map fst (members st)" and "idle st' = idle st" and "closed st' = closed st"
  using assms by (auto simp: reattribute_def Let_def usable_at_def usable_def split: if_splits option.splits)

lemma sampled_usable [simp]: "usable (sampled F a b t m) = usable m"
  by (simp add: sampled_def usable_def Let_def split: option.splits)

lemma round_trip_some_usable:
  assumes "bt_sorted (members st)" and "some_usable st"
  shows "some_usable (snd (round_trip F o0 t conn d (l, st)))"
proof -
  obtain l1 st1 where r: "reattribute conn (l, st) = (l1, st1)" by fastforce
  have st1: "bt_sorted (members st1)" "some_usable st1"
    using assms reattribute_frame[OF r] by (auto simp: some_usable_def)
  show ?thesis
  proof (cases "bt_get (members st1) conn")
    case (Some m)
    let ?m = "sampled F (f_secs F (eject_latency_floor o0)) (f_secs F d) (now t) m"
    let ?st = "st1\<lparr>members := bt_update conn (\<lambda>_. ?m) (members st1)\<rparr>"
    have u: "some_usable ?st" using st1(2) Some some_usable_update[of st1 conn] by simp
    then have "some_usable (eject o0 t conn ?st)" using st1(1) by (intro eject_some_usable) simp_all
    with u r Some show ?thesis by (simp add: round_trip_def Let_def split: option.splits)
  qed (use r st1 in \<open>simp add: round_trip_def\<close>)
qed

lemma backoff_mono: "backoff_for o0 m \<le> backoff_for o0 n" if "m \<le> n"
proof -
  have "sat_u32 (2 ^ (m - 1)) \<le> sat_u32 (2 ^ (n - 1))"
    using that by (simp add: sat_u32_def min.coboundedI1 min_le_iff_disj diff_le_mono)
  then show ?thesis by (auto simp: backoff_for_def Let_def min_le_iff_disj)
qed

section \<open>Properties\<close>

text \<open>C24: A dial never has nowhere to go: the order holds every member exactly once, with the picked
  member first, then usable members, then members not ready, then ejected ones by the end of their
  ejection; the member a connection just lost comes last.\<close>

theorem order_complete:
  assumes "bt_sorted (members st)" and "order first exclude st = (eps, st')" and "\<And>f. first = Some f \<Longrightarrow> f \<in> set (keys st)"
  shows "mset eps = mset (keys st) \<and> sorted (map (dial_rank st first) (filter (\<lambda>e. Some e \<noteq> exclude) eps))
    \<and> (\<forall>x \<in> set (keys st). exclude = Some x \<longrightarrow> last eps = x)"
proof -
  obtain eps0 st0 where o: "order first None st = (eps0, st0)" by fastforce
  note base = order_unexcluded[OF assms(1) o assms(3)]
  have d: "distinct eps0"
    using base(1) bt_sorted_distinct[OF assms(1)] by (metis keys_def mset_eq_imp_distinct_iff)
  have set: "set eps0 = set (keys st)" using base(1) by (metis set_mset_mset)
  show ?thesis
  proof (cases exclude)
    case None
    with o assms(2) base show ?thesis by simp
  next
    case (Some x)
    with o assms(2) have eps: "eps = move_last x eps0" by (simp add: order_exclude)
    have "sorted (map (dial_rank st first) (filter (\<lambda>e. e \<noteq> x) eps))"
      unfolding eps filter_move_last[OF d] using base(2) by (rule sorted_filter)
    with eps Some base(1) last_move_last[of x eps0] set show ?thesis by auto
  qed
qed

text \<open>Two seeds, of which the second is ejected, and two idle connections to the first; used by the
  witnesses.\<close>

definition sample_client :: "rstr \<Rightarrow> unit client" where
  "sample_client ep = \<lparr>client_endpoints = [ep],
     client_login = \<lparr>login_username = [], login_password = [], gssapi_spn = None, cert_auth = False, login_tls = None\<rparr>,
     connected = ep, stream = (), default_consistency = Quorum, client_database = None, scan_budget_rows = 0,
     link = Some ((link_new 0)\<lparr>link_member := ep\<rparr>)\<rparr>"

definition sample_f64 :: "nat f64_ops" where
  "sample_f64 = \<lparr>f_add = (+), f_sub = (-), f_mul = (*), f_min = min, f_max = max, f_lt = (<), f_le = (\<le>), f_total_le = (\<le>),
     f_finite = (\<lambda>_. True), f_secs = id, f_of_nat = id, f_try_duration = Some, f_zero = 0, f_one = 1, f_weight = 1, f_clamp = 10\<rparr>"

definition sample_sys :: sysin where
  "sample_sys = \<lparr>now = 0, now2 = 0, spawn_ok = True\<rparr>"

definition sample_state :: "(unit, nat) balancer_state" where
  "sample_state = \<lparr>members = [([1], member_new True), ([2], (member_new True)\<lparr>ejected_until := Some 9\<rparr>), ([3], member_new True)],
     idle = [sample_client [1], sample_client [2], sample_client [1]], rr = 2 ^ 64 - 1, affinity = [], discovery_off = False,
     next_refresh = 0, closed = False, maintainer = False, rng = 5\<rparr>"

definition sample_options :: "nat pool_options" where
  "sample_options = options_default 3"

lemma sample_sorted: "bt_sorted (members sample_state)"
  by (simp add: sample_state_def)

theorem order_complete_witness:
  "mset (fst (order (Some [3]) (Some [1]) sample_state)) = mset [[1], [2], [3]] \<and> last (fst (order (Some [3]) (Some [1]) sample_state)) = [1]"
proof -
  have k: "keys sample_state = [[1], [2], [3]]" by (simp add: keys_def sample_state_def)
  show ?thesis
    using order_complete[OF sample_sorted, of "Some [3]" "Some [1]" "fst (order (Some [3]) (Some [1]) sample_state)"
        "snd (order (Some [3]) (Some [1]) sample_state)"] k by simp
qed

text \<open>Handing out an idle connection: it goes to a usable member, the wanted one if there is one, and
  is the longest or the most recently returned such connection, as configured. No connection is lost or
  duplicated; what is dropped belongs to members that are not usable; the others keep their order. When
  none fits, none was eligible.\<close>

theorem take_idle_correct:
  assumes "take_idle o0 target st = (c, dropped, st')"
  shows "mset (idle st) = mset (idle st') + mset dropped + mset (case c of None \<Rightarrow> [] | Some x \<Rightarrow> [x])
    \<and> subseq (idle st') (idle st) \<and> (\<forall>d \<in> set dropped. \<not> usable_at st (client_member d))
    \<and> (case c of
         None \<Rightarrow> \<forall>d \<in> set (idle st). \<not> eligible st target d
       | Some x \<Rightarrow> \<exists>i < length (idle st). x = idle st ! i \<and> eligible st target x \<and>
           (\<forall>j < length (idle st). (if idle_order o0 = Fifo then j < i else i < j) \<longrightarrow> \<not> eligible st target (idle st ! j)))"
proof -
  note part = take_idle_partition[OF assms] and ch = take_idle_choice[OF assms]
  have "\<not> eligible st target d" if "c = None" "d \<in> set (idle st)" for d
  proof -
    have "d \<in> set (idle st') \<or> d \<in> set dropped"
      using arg_cong[OF part, of set_mset] that by simp
    then show ?thesis using ch(2,4) that(1) by (auto simp: eligible_def)
  qed
  moreover have "\<exists>i < length (idle st). x = idle st ! i \<and> eligible st target x \<and>
      (\<forall>j < length (idle st). (if idle_order o0 = Fifo then j < i else i < j) \<longrightarrow> \<not> eligible st target (idle st ! j))"
    if "c = Some x" for x
    using take_idle_position[of o0 target st x dropped st'] assms ch(1) that by blast
  ultimately show ?thesis using part ch(2,3) by (cases c) (simp_all only: option.case, blast+)
qed

theorem take_idle_correct_witness:
  "\<exists>i < 3. fst (take_idle sample_options None sample_state) = Some (idle sample_state ! i)"
proof -
  obtain c d st' where t: "take_idle sample_options None sample_state = (c, d, st')" by (metis prod_cases3)
  have e: "eligible sample_state None (sample_client [1])" "sample_client [1] \<in> set (idle sample_state)"
    by (simp_all add: eligible_def usable_at_def sample_state_def client_member_def sample_client_def usable_def member_new_def)
  have l: "length (idle sample_state) = 3" by (simp add: sample_state_def)
  from take_idle_correct[OF t] e l t show ?thesis by (cases c) (auto split: option.splits)
qed

text \<open>C25: Round robin is fair: while the members stay as they are, any run of as many checkouts as there
  are usable members goes to each of them exactly once, from the first checkout of a new pool on.\<close>

theorem round_robin_fair:
  fixes st :: "('s, 'f) balancer_state"
  assumes "load_balancing o0 = LbRoundRobin" and "read_your_writes o0 = 0" and "usable_members st \<noteq> []"
    and "length (usable_members st) < 2 ^ 64" and "rr st < length (usable_members st) \<or> rr st = 2 ^ 64 - 1"
  shows "mset (picks F o0 t (length (usable_members st)) st) = mset (map Some (usable_members st))"
proof -
  let ?us = "usable_members st" and ?n = "length (usable_members st)"
  have fair: "mset (picks F o0 t ?n st1) = mset (map Some ?us)" if "rr st1 < ?n" "usable_members st1 = ?us" for st1 :: "('s, 'f) balancer_state"
  proof -
    have "picks F o0 t ?n st1 = map (\<lambda>k. Some (?us ! ((rr st1 + Suc k) mod ?n))) [0..<?n]"
      using picks_round_robin[OF assms(1,2), of st1] assms(3,4) that by simp
    also have "\<dots> = map Some (rotate (Suc (rr st1)) ?us)"
      unfolding rotate_as_map[symmetric] by simp
    finally show ?thesis by (simp only: mset_map mset_rotate_eq)
  qed
  show ?thesis
  proof (cases "rr st < ?n")
    case True
    then show ?thesis by (rule fair) simp
  next
    case False
    with assms(5) have rr: "rr st = 2 ^ 64 - 1" by blast
    let ?st = "st\<lparr>rr := ?n - 1\<rparr>"
    have us: "usable_members ?st = ?us" by (simp add: usable_members_def)
    have "pick F o0 t None st = (Some (?us ! 0), st\<lparr>rr := 0\<rparr>)"
      using assms(1-3) by (simp add: pick_def pick_affinity_def Let_def rr)
    moreover have "Suc (?n - Suc 0) = ?n" using assms(3) by simp
    then have "pick F o0 t None ?st = (Some (?us ! 0), st\<lparr>rr := 0\<rparr>)"
      using assms(1-4) us by (simp add: pick_def pick_affinity_def Let_def)
    ultimately have "picks F o0 t ?n st = picks F o0 t ?n ?st" using assms(3) by (cases ?n) simp_all
    with fair[of ?st] us assms(3) show ?thesis by (simp add: length_greater_0_conv[symmetric] del: length_greater_0_conv)
  qed
qed

theorem round_robin_fair_witness:
  "mset (picks sample_f64 (sample_options\<lparr>load_balancing := LbRoundRobin\<rparr>) sample_sys (Suc (Suc 0)) sample_state) = mset [Some [1], Some [3]]"
proof -
  have us: "usable_members sample_state = [[1], [3]]"
    by (simp add: usable_members_def sample_state_def usable_def member_new_def)
  have o: "load_balancing (sample_options\<lparr>load_balancing := LbRoundRobin\<rparr>) = LbRoundRobin"
    "read_your_writes (sample_options\<lparr>load_balancing := LbRoundRobin\<rparr>) = 0" "rr sample_state = 2 ^ 64 - 1"
    by (simp_all add: sample_options_def options_default_def sample_state_def)
  show ?thesis
    using round_robin_fair[OF o(1,2), of sample_state sample_f64 sample_sys] o(3) us by simp
qed

text \<open>A checkout is sent only to a member that is usable at that moment.\<close>

theorem pick_only_usable:
  assumes "bt_sorted (members st)" and "pick F o0 t key st = (Some ep, st')"
  shows "usable_at st ep \<and> members st' = members st \<and> idle st' = idle st"
  using pick_usable[OF assms] pick_frame[OF assms(2)] by simp

theorem pick_only_usable_witness: "usable_at sample_state [1]"
proof -
  have "pick sample_f64 (sample_options\<lparr>load_balancing := LbRoundRobin\<rparr>) sample_sys None sample_state = (Some [1], sample_state\<lparr>rr := 0\<rparr>)"
    by (simp add: pick_def pick_affinity_def usable_members_def sample_state_def usable_def member_new_def sample_options_def
        options_default_def Let_def)
  from pick_only_usable[OF sample_sorted this] show ?thesis by simp
qed

text \<open>Read your writes: within the window after a write under a key, checkouts under that key go to
  the member that took the write as long as it is usable, whatever the policy and whatever other keys
  wrote meanwhile.\<close>

theorem affinity_honoured:
  assumes "read_your_writes o0 \<noteq> 0" and "usable_at st conn" and "now t1 < now t0 + read_your_writes o0"
    and "now t2 < now t0 + read_your_writes o0" and "other \<noteq> key"
  shows "fst (pick F o0 t2 key (wrote o0 t1 other ep (wrote o0 t0 key conn st))) = Some conn"
proof -
  let ?st = "wrote o0 t1 other ep (wrote o0 t0 key conn st)"
  have "map_of (affinity ?st) key = Some (conn, now t0 + read_your_writes o0)"
    using assms(3,5) by (auto simp: wrote_def Let_def update_conv map_of_filter_in)
  moreover have "members ?st = members st" by (simp add: wrote_def Let_def)
  ultimately have "pick_affinity o0 t2 key ?st = (Some conn, ?st)"
    using assms(1,2,4) by (auto simp: pick_affinity_def usable_at_def split: option.splits)
  then show ?thesis by (simp add: pick_def)
qed

theorem affinity_honoured_witness:
  "fst (pick sample_f64 (sample_options\<lparr>read_your_writes := 10\<rparr>) \<lparr>now = 9, now2 = 9, spawn_ok = True\<rparr> (Some [7])
     (wrote (sample_options\<lparr>read_your_writes := 10\<rparr>) \<lparr>now = 5, now2 = 5, spawn_ok = True\<rparr> None [2]
       (wrote (sample_options\<lparr>read_your_writes := 10\<rparr>) \<lparr>now = 0, now2 = 0, spawn_ok = True\<rparr> (Some [7]) [3] sample_state))) = Some [3]"
  by (rule affinity_honoured) (simp_all add: usable_at_def sample_state_def usable_def member_new_def)

text \<open>The pool never takes its last usable member out: if a member is usable before a transport
  failure or a slow round trip is reported, one is usable after it.\<close>

theorem last_usable_stays:
  assumes "bt_sorted (members st)" and "usable_at st k"
  shows "(\<exists>k'. usable_at (failed o0 t ep st) k') \<and> (\<exists>k'. usable_at (snd (round_trip F o0 t ep d (l, st))) k')"
  using failed_some_usable[OF assms(1), of o0 t ep] round_trip_some_usable[OF assms(1), of F o0 t ep d l] assms(2)
  by (auto simp: some_usable_def)

theorem last_usable_stays_witness: "\<exists>k'. usable_at (failed sample_options sample_sys [1] sample_state) k'"
proof -
  have "usable_at sample_state [1]" by (simp add: usable_at_def sample_state_def usable_def member_new_def)
  from last_usable_stays[OF sample_sorted this] show ?thesis by blast
qed

text \<open>A transport failure is counted on its member alone, and ejects it exactly when the count
  reaches the configured number and another member is usable; a member already ejected is not ejected
  again.\<close>

theorem failed_effect:
  assumes "bt_get (members st) ep = Some m"
  shows "(\<exists>m'. bt_get (members (failed o0 t ep st)) ep = Some m' \<and> errors m' = sat_u32 (errors m + 1)
      \<and> (ejected_until m \<noteq> None \<longrightarrow> ejected_until m' = ejected_until m)
      \<and> (ejected_until m = None \<longrightarrow>
          (ejected_until m' \<noteq> None \<longleftrightarrow> eject_errors o0 \<le> sat_u32 (errors m + 1) \<and> other_usable ep st)))
    \<and> (\<forall>k. k \<noteq> ep \<longrightarrow> bt_get (members (failed o0 t ep st)) k = bt_get (members st) k)"
proof -
  let ?st = "st\<lparr>members := bt_update ep (\<lambda>_. m\<lparr>errors := sat_u32 (errors m + 1)\<rparr>) (members st)\<rparr>"
  have "other_usable ep ?st = other_usable ep st" by (rule other_usable_update)
  then show ?thesis
    using assms by (auto simp: failed_def Let_def members_eject eject_member_def)
qed

theorem failed_effect_witness:
  "\<exists>m'. bt_get (members (failed sample_options sample_sys [1] sample_state)) [1] = Some m' \<and> errors m' = 1 \<and> ejected_until m' = None"
proof -
  have "bt_get (members sample_state) [1] = Some (member_new True)" by (simp add: sample_state_def)
  from failed_effect[OF this, of sample_options sample_sys] show ?thesis
    by (auto simp: member_new_def sample_options_def options_default_def sat_u32_def U32_MAX_def)
qed

text \<open>C26: The backoff doubles with every repeated ejection and is capped: within the range of the
  counters it is the base times a power of two, never above the maximum, and never shrinks.\<close>

theorem backoff_doubles:
  assumes "eject_backoff_max o0 \<le> DURATION_MAX" and "n < 32 \<or> eject_backoff_max o0 \<le> eject_backoff o0 * U32_MAX"
  shows "backoff_for o0 (Suc n) = min (eject_backoff o0 * 2 ^ n) (eject_backoff_max o0)
    \<and> backoff_for o0 n \<le> backoff_for o0 (Suc n)"
proof
  show "backoff_for o0 n \<le> backoff_for o0 (Suc n)" by (rule backoff_mono) simp
  show "backoff_for o0 (Suc n) = min (eject_backoff o0 * 2 ^ n) (eject_backoff_max o0)"
  proof (cases "2 ^ n \<le> U32_MAX")
    case True
    then show ?thesis using assms(1) by (auto simp: backoff_for_def sat_u32_def Let_def min_def)
  next
    case False
    have "n < 32 \<Longrightarrow> (2 :: nat) ^ n \<le> 2 ^ 31" by (rule power_increasing) simp_all
    with False have "\<not> n < 32" by (auto simp: U32_MAX_def)
    with assms(2) have m: "eject_backoff_max o0 \<le> eject_backoff o0 * U32_MAX" by blast
    also have "\<dots> \<le> eject_backoff o0 * 2 ^ n" using False by (intro mult_left_mono) simp_all
    finally show ?thesis using False m assms(1) by (auto simp: backoff_for_def sat_u32_def Let_def min_def)
  qed
qed

theorem backoff_doubles_witness:
  "backoff_for sample_options 3 = from_secs 20 \<and> backoff_for sample_options 200 = from_secs 60"
  using backoff_doubles[of sample_options 2] backoff_doubles[of sample_options 199]
  by (simp add: sample_options_def options_default_def from_secs_def DURATION_MAX_def U32_MAX_def)

end
