(* ===== verification/Discovery.thy ===== *)
theory Discovery
  imports Balancer Frame
begin

text \<open>
  Member discovery (\<^verbatim>\<open>src/lib.rs\<close>): how the rows of \<^verbatim>\<open>SHOW ENDPOINTS\<close> are folded into the members, the
  passes of the background thread, probes of ejected members, and how a pool is built. Results of
  dialling and of statements are arguments.
\<close>

section \<open>Errors\<close>

datatype driver_error =
    Io io_error
  | Proto proto_error
  | Server rstr
  | Auth rstr
  | NoEndpoint rstr

definition CAPACITY_DENIAL_PREFIX :: rstr where
  "CAPACITY_DENIAL_PREFIX = of_str ''too many connections:''"

definition denied :: "rstr \<Rightarrow> driver_error" where
  "denied reason = (if prefix CAPACITY_DENIAL_PREFIX reason then Io (ConnectionRefused reason) else Auth reason)"

definition member_fault :: "driver_error \<Rightarrow> bool" where
  "member_fault e = (case e of Io _ \<Rightarrow> True | Proto _ \<Rightarrow> True | _ \<Rightarrow> False)"

section \<open>Folding a listing\<close>

type_synonym 'f members = "(rstr, 'f member) btree"

definition row_state :: "rstr \<Rightarrow> member_state" where
  "row_state s = (if s = of_str ''resyncing'' then Resyncing else if s = of_str ''unreachable'' then Unreachable else Ready)"

text \<open>\<^verbatim>\<open>row.get(i)\<close>.\<close>

definition cell :: "val list \<Rightarrow> nat \<Rightarrow> val option" where
  "cell r i = (if i < length r then Some (r ! i) else None)"

definition put_listed :: "rstr \<Rightarrow> member_state \<Rightarrow> (rstr \<times> member_state) list \<Rightarrow> (rstr \<times> member_state) list" where
  "put_listed ep s lst = (if ep \<in> fst ` set lst then map (\<lambda>(e, x). (e, if e = ep then s else x)) lst else lst @ [(ep, s)])"

definition listing_row :: "rstr \<Rightarrow> val list \<Rightarrow> (rstr \<times> member_state) list \<times> 'f members \<Rightarrow> (rstr \<times> member_state) list \<times> 'f members" where
  "listing_row dialed r = (\<lambda>(lst, ms). case (cell r 0, cell r 1) of
     (Some (VString ep), Some (VString s)) \<Rightarrow>
       (put_listed ep (row_state s) lst,
        if cell r 2 = Some (VBool True) then bt_update dialed (\<lambda>m. m\<lparr>canonical := Some ep\<rparr>) ms else ms)
   | _ \<Rightarrow> (lst, ms))"

text \<open>Which member answers to a name: a seed before a discovered one, a later key before an earlier seed.\<close>

definition name_step :: "rstr \<times> 'f member \<Rightarrow> (rstr \<rightharpoonup> rstr) \<Rightarrow> (rstr \<rightharpoonup> rstr)" where
  "name_step = (\<lambda>(ep, m) by_name. case canonical m of
     None \<Rightarrow> by_name
   | Some name \<Rightarrow> (if seed m \<or> by_name name = None then by_name(name \<mapsto> ep) else by_name))"

definition by_name :: "'f members \<Rightarrow> (rstr \<rightharpoonup> rstr)" where
  "by_name ms = fold name_step ms Map.empty"

definition drop_duplicates :: "(rstr \<rightharpoonup> rstr) \<Rightarrow> 'f members \<Rightarrow> 'f members" where
  "drop_duplicates names ms = bt_retain (\<lambda>ep m. case canonical m of
     None \<Rightarrow> Some m | Some name \<Rightarrow> (if names name = Some ep then Some m else None)) ms"

definition set_listed :: "member_state \<Rightarrow> 'f member \<Rightarrow> 'f member" where
  "set_listed s m = (let m = (if s = Ready \<and> listed m \<noteq> Ready then (reset_latency m)\<lparr>errors := 0\<rparr> else m) in m\<lparr>listed := s\<rparr>)"

definition listed_step :: "(rstr \<rightharpoonup> rstr) \<Rightarrow> rstr \<times> member_state \<Rightarrow> 'f members \<times> rstr list \<Rightarrow> 'f members \<times> rstr list" where
  "listed_step names = (\<lambda>(endpoint, s) (ms, seen).
     let (ep, ms) = (case names endpoint of
           Some ep \<Rightarrow> (ep, ms)
         | None \<Rightarrow>
             let ms = (if bt_get ms endpoint = None then bt_insert endpoint (member_new False) ms else ms)
             in (endpoint, bt_update endpoint (\<lambda>m. m\<lparr>canonical := Some endpoint\<rparr>) ms))
     in if bt_get ms ep = None then (ms, seen) else (bt_update ep (set_listed s) ms, ep # seen))"

definition drop_unlisted :: "rstr list \<Rightarrow> 'f members \<Rightarrow> 'f members" where
  "drop_unlisted seen ms = bt_retain (\<lambda>ep m.
     if ep \<in> set seen \<or> (seed m \<and> canonical m = None) then Some m
     else if seed m then Some (m\<lparr>listed := Unlisted\<rparr>)
     else None) ms"

definition apply_listing :: "rstr \<Rightarrow> val list list \<Rightarrow> 'f members \<Rightarrow> 'f members" where
  "apply_listing dialed rows ms =
    (let (lst, ms) = fold (listing_row dialed) rows ([], ms);
         names = by_name ms;
         ms = drop_duplicates names ms;
         (ms, seen) = fold (listed_step names) lst (ms, [])
     in drop_unlisted seen ms)"

definition fold_listing :: "'f pool_options \<Rightarrow> sysin \<Rightarrow> rstr \<Rightarrow> val list list \<Rightarrow> ('s, 'f) balancer_state \<Rightarrow> ('s, 'f) balancer_state" where
  "fold_listing o0 t dialed rows st =
    (let ms = apply_listing dialed rows (members st);
         every = (if \<exists>(_, m) \<in> set ms. listed m = Resyncing \<or> listed m = Unreachable
                  then min (refresh_interval o0) REFRESH_NOT_READY else refresh_interval o0)
     in st\<lparr>members := ms, next_refresh := now t + every\<rparr>)"

definition list_through :: "'f pool_options \<Rightarrow> sysin \<Rightarrow> rstr \<Rightarrow> driver_error + response \<Rightarrow> ('s, 'f) balancer_state \<Rightarrow> ('s, 'f) balancer_state" where
  "list_through o0 t dialed listing st = (case listing of
     Inr (Rows cols rows) \<Rightarrow> (if rows \<noteq> [] then fold_listing o0 t dialed rows st else st\<lparr>discovery_off := True\<rparr>)
   | Inr _ \<Rightarrow> st\<lparr>discovery_off := True\<rparr>
   | Inl (Server _) \<Rightarrow> st\<lparr>discovery_off := True\<rparr>
   | Inl _ \<Rightarrow> st)"

text \<open>Whether a freshly dialled connection asks for the listing, and the thread it starts if so.\<close>

definition discover_through :: "'f pool_options \<Rightarrow> sysin \<Rightarrow> rstr \<Rightarrow> ('s, 'f) balancer_state \<Rightarrow> bool \<times> ('s, 'f) balancer_state" where
  "discover_through o0 t endpoint st =
    (if \<not> discover o0 \<or> discovery_off st then (False, st)
     else case bt_get (members st) endpoint of
       Some m \<Rightarrow> (if canonical m = None then (True, ensure_maintainer t st) else (False, st))
     | None \<Rightarrow> (False, st))"

section \<open>The background thread\<close>

definition due :: "instant \<Rightarrow> 'f member \<Rightarrow> bool" where
  "due t m \<longleftrightarrow> (case ejected_until m of Some u \<Rightarrow> u \<le> t | None \<Rightarrow> False) \<and> \<not> probing m"

text \<open>The locked part of a pass: \<open>None\<close> once the pool is closed, else the members to probe, whether to
  refresh, and the members marked as being probed.\<close>

definition tick :: "'f pool_options \<Rightarrow> sysin \<Rightarrow> ('s, 'f) balancer_state \<Rightarrow> (rstr list \<times> bool \<times> ('s, 'f) balancer_state) option" where
  "tick o0 t st =
    (if closed st then None
     else Some (map fst (filter (\<lambda>(_, m). due (now t) m) (members st)),
       discover o0 \<and> \<not> discovery_off st \<and> next_refresh st \<le> now t,
       st\<lparr>members := map (\<lambda>(ep, m). (ep, if due (now t) m then m\<lparr>probing := True\<rparr> else m)) (members st)\<rparr>))"

definition readmit :: "instant \<Rightarrow> 'f member \<Rightarrow> 'f member" where
  "readmit t m = (reset_latency (m\<lparr>ejected_until := None, errors := 0\<rparr>))\<lparr>readmitted_at := Some t\<rparr>"

definition eject_again :: "'f pool_options \<Rightarrow> instant \<Rightarrow> 'f member \<Rightarrow> 'f member" where
  "eject_again o0 t m = (let m = m\<lparr>ejections := sat_u32 (ejections m + 1)\<rparr>
     in m\<lparr>ejected_until := Some (t + backoff_for o0 (ejections m))\<rparr>)"

text \<open>The end of a probe; \<open>probed\<close> is the connection if the dial and the statement worked.\<close>

definition probe_done :: "nat \<Rightarrow> 'f pool_options \<Rightarrow> sysin \<Rightarrow> rstr \<Rightarrow> 's client option \<Rightarrow> ('s, 'f) balancer_state \<Rightarrow> ('s, 'f) balancer_state" where
  "probe_done self o0 t ep probed st =
    (if bt_get (members st) ep = None then st
     else
       let st1 = st\<lparr>members := bt_update ep (\<lambda>m. m\<lparr>probing := False\<rparr>) (members st)\<rparr> in
       case probed of
         Some c \<Rightarrow>
           if closed st then st1\<lparr>members := bt_update ep (eject_again o0 (now t)) (members st1)\<rparr>
           else
             let st2 = st1\<lparr>members := bt_update ep (readmit (now t)) (members st1)\<rparr> in
             if length (idle st) < maxsize o0
             then st2\<lparr>idle := idle st @ [c\<lparr>link := Some ((link_new self)\<lparr>link_member := ep\<rparr>)\<rparr>]\<rparr> else st2
       | None \<Rightarrow> st1\<lparr>members := bt_update ep (eject_again o0 (now t)) (members st1)\<rparr>)"

section \<open>Building a pool\<close>

record 'f pool_builder =
  b_endpoints :: "rstr list"
  b_login :: login
  b_database :: "rstr option"
  b_consistency :: consistency
  b_options :: "'f pool_options"

definition builder :: "'f \<Rightarrow> rstr list \<Rightarrow> 'f pool_builder" where
  "builder three endpoints = \<lparr>b_endpoints = endpoints,
     b_login = \<lparr>login_username = of_str ''anonymous'', login_password = [], gssapi_spn = None, cert_auth = False, login_tls = None\<rparr>,
     b_database = None, b_consistency = Quorum, b_options = options_default three\<rparr>"

definition credentials :: "rstr \<Rightarrow> rstr \<Rightarrow> 'f pool_builder \<Rightarrow> 'f pool_builder" where
  "credentials user pw b = b\<lparr>b_login := (b_login b)\<lparr>login_username := user, login_password := pw, gssapi_spn := None, cert_auth := False\<rparr>\<rparr>"

definition gssapi :: "rstr \<Rightarrow> rstr \<Rightarrow> 'f pool_builder \<Rightarrow> 'f pool_builder" where
  "gssapi user spn b = b\<lparr>b_login := (b_login b)\<lparr>login_username := user, login_password := [], gssapi_spn := Some spn, cert_auth := False\<rparr>\<rparr>"

definition certificate :: "rstr \<Rightarrow> 'f pool_builder \<Rightarrow> 'f pool_builder" where
  "certificate user b = b\<lparr>b_login := (b_login b)\<lparr>login_username := user, login_password := [], gssapi_spn := None, cert_auth := True\<rparr>\<rparr>"

definition dedup_step :: "'a \<Rightarrow> 'a list \<Rightarrow> 'a list" where
  "dedup_step e seen = (if e \<in> set seen then seen else seen @ [e])"

definition dedup :: "'a list \<Rightarrow> 'a list" where
  "dedup endpoints = fold dedup_step endpoints []"

text \<open>\<^verbatim>\<open>Vec\<close> of pairs collected into a \<^verbatim>\<open>BTreeMap\<close>.\<close>

definition seed_members :: "rstr list \<Rightarrow> 'f members" where
  "seed_members seeds = fold (\<lambda>ep. bt_insert ep (member_new True)) seeds []"

definition build :: "'f f64_ops \<Rightarrow> sysin \<Rightarrow> u64 \<Rightarrow> 'f pool_builder \<Rightarrow> driver_error + ('s, 'f) balancer_state" where
  "build F t hash b =
    (let seeds = dedup (b_endpoints b); o0 = b_options b in
     if seeds = [] then Inl (NoEndpoint (of_str ''no endpoints given''))
     else if maxsize o0 < 1 then Inl (Io (InvalidInput ''maxsize must be >= 1''))
     else if eject_errors o0 < 1 then Inl (Io (InvalidInput ''eject_errors must be >= 1''))
     else if \<not> (f_finite F (eject_latency_factor o0) \<and> f_le F (f_zero F) (eject_latency_factor o0))
       then Inl (Io (InvalidInput ''eject_latency_factor must be a finite number >= 0''))
     else Inr \<lparr>members = seed_members seeds, idle = [], rr = 2 ^ 64 - 1, affinity = [], discovery_off = False,
       next_refresh = now t, closed = False, maintainer = False, rng = hash OR 1\<rparr>)"

section \<open>Lemmas on listings\<close>

text \<open>The members after the answering member has named itself, and the listing read from the rows.\<close>

definition identified :: "rstr \<Rightarrow> val list list \<Rightarrow> 'f members \<Rightarrow> 'f members" where
  "identified dialed rows ms = snd (fold (listing_row dialed) rows ([], ms))"

definition listing :: "rstr \<Rightarrow> val list list \<Rightarrow> 'f members \<Rightarrow> (rstr \<times> member_state) list" where
  "listing dialed rows ms = fst (fold (listing_row dialed) rows ([], ms))"

definition reports :: "val list \<Rightarrow> rstr \<Rightarrow> member_state \<Rightarrow> bool" where
  "reports r ep s \<longleftrightarrow> cell r 0 = Some (VString ep) \<and> (\<exists>x. cell r 1 = Some (VString x) \<and> s = row_state x)"

lemma set_put_listed: "(e, x) \<in> set (put_listed ep s lst) \<Longrightarrow> (e, x) = (ep, s) \<or> (e, x) \<in> set lst"
  by (auto simp: put_listed_def split: if_splits)

lemma keys_put_listed: "fst ` set (put_listed ep s lst) = insert ep (fst ` set lst)"
proof -
  have "fst ` (\<lambda>(e, x). (e, if e = ep then s else x)) ` A = fst ` A" for A :: "(rstr \<times> member_state) set"
    by (force simp: image_image case_prod_unfold)
  then show ?thesis by (auto simp: put_listed_def)
qed

lemma listing_row_cases:
  "listing_row dialed r (lst, ms) = (lst', ms') \<Longrightarrow>
   (\<exists>ep s. reports r ep s \<and> lst' = put_listed ep s lst) \<or> (\<nexists>ep s. reports r ep s) \<and> lst' = lst"
  by (auto simp: listing_row_def reports_def split: option.splits val.splits)

lemma listing_row_members:
  "listing_row dialed r (lst, ms) = (lst', ms') \<Longrightarrow>
   bt_sorted ms' = bt_sorted ms \<and> map_option seed (bt_get ms' k) = map_option seed (bt_get ms k)"
  by (auto simp: listing_row_def option.map_comp comp_def split: option.splits val.splits if_splits)

lemma identified_frame:
  "bt_sorted (identified dialed rows ms) = bt_sorted ms"
  "map_option seed (bt_get (identified dialed rows ms) k) = map_option seed (bt_get ms k)"
proof -
  have "bt_sorted (snd (fold (listing_row dialed) rows (lst, ms))) = bt_sorted ms \<and>
    map_option seed (bt_get (snd (fold (listing_row dialed) rows (lst, ms))) k) = map_option seed (bt_get ms k)" for lst
  proof (induction rows arbitrary: lst ms)
    case (Cons r rows)
    obtain lst' ms' where r: "listing_row dialed r (lst, ms) = (lst', ms')" by fastforce
    with Cons listing_row_members[OF r] show ?case by simp
  qed simp
  then show "bt_sorted (identified dialed rows ms) = bt_sorted ms"
    "map_option seed (bt_get (identified dialed rows ms) k) = map_option seed (bt_get ms k)"
    by (simp_all add: identified_def)
qed

lemma listing_reported:
  "(ep, s) \<in> set (listing dialed rows ms) \<Longrightarrow> \<exists>r \<in> set rows. reports r ep s"
proof -
  have "(ep, s) \<in> set (fst (fold (listing_row dialed) rows (lst, ms))) \<Longrightarrow> (ep, s) \<in> set lst \<or> (\<exists>r \<in> set rows. reports r ep s)" for lst
  proof (induction rows arbitrary: lst ms)
    case (Cons r rows)
    obtain lst' ms' where r: "listing_row dialed r (lst, ms) = (lst', ms')" by fastforce
    from Cons.IH[of lst' ms'] Cons.prems r have "(ep, s) \<in> set lst' \<or> (\<exists>r \<in> set rows. reports r ep s)" by simp
    then show ?case using listing_row_cases[OF r] set_put_listed by fastforce
  qed simp
  then show "(ep, s) \<in> set (listing dialed rows ms) \<Longrightarrow> ?thesis" by (fastforce simp: listing_def)
qed

lemma listing_complete: "r \<in> set rows \<Longrightarrow> reports r ep s \<Longrightarrow> ep \<in> fst ` set (listing dialed rows ms)"
proof -
  have keep: "fst ` set lst \<subseteq> fst ` set (fst (fold (listing_row dialed) rs (lst, ms)))" for rs lst and ms :: "'a members"
  proof (induction rs arbitrary: lst ms)
    case (Cons r rs)
    obtain lst' ms' where r: "listing_row dialed r (lst, ms) = (lst', ms')" by fastforce
    from listing_row_cases[OF r] have "fst ` set lst \<subseteq> fst ` set lst'"
      by (elim disjE exE conjE) (simp_all only: keys_put_listed subset_insertI subset_refl)
    with Cons[of lst' ms'] r show ?case by simp
  qed simp
  have "r \<in> set rows \<Longrightarrow> reports r ep s \<Longrightarrow> ep \<in> fst ` set (fst (fold (listing_row dialed) rows (lst, ms)))" for lst
  proof (induction rows arbitrary: lst ms)
    case (Cons x rows)
    obtain lst' ms' where x: "listing_row dialed x (lst, ms) = (lst', ms')" by fastforce
    show ?case
    proof (cases "r = x")
      case True
      then have "ep \<in> fst ` set lst'"
        using listing_row_cases[OF x] Cons.prems(2) by (auto simp: keys_put_listed reports_def)
      then show ?thesis using keep[of lst' rows ms'] x by auto
    qed (use Cons x in auto)
  qed simp
  then show "r \<in> set rows \<Longrightarrow> reports r ep s \<Longrightarrow> ?thesis" by (simp add: listing_def)
qed

section \<open>Lemmas on names\<close>

lemma by_name_sound: "by_name ms name = Some ep \<Longrightarrow> \<exists>m. (ep, m) \<in> set ms \<and> canonical m = Some name"
  unfolding by_name_def
  by (induction ms arbitrary: ep rule: rev_induct) (force simp: name_step_def split: option.splits if_splits prod.splits)+

lemma by_name_total: "(ep, m) \<in> set ms \<Longrightarrow> canonical m = Some name \<Longrightarrow> by_name ms name \<noteq> None"
  unfolding by_name_def
  by (induction ms rule: rev_induct) (auto simp: name_step_def split: option.splits if_splits prod.splits)

lemma by_name_seed:
  "(ep, m) \<in> set ms \<Longrightarrow> canonical m = Some name \<Longrightarrow> seed m \<Longrightarrow>
   \<exists>e m'. by_name ms name = Some e \<and> (e, m') \<in> set ms \<and> seed m' \<and> canonical m' = Some name"
proof (induction ms rule: rev_induct)
  case (snoc x ms)
  obtain k v where x: "x = (k, v)" by (cases x)
  have step: "by_name (ms @ [x]) = name_step (k, v) (by_name ms)" by (simp add: by_name_def x)
  show ?case
  proof (cases "canonical v = Some name \<and> seed v")
    case True
    then have "by_name (ms @ [x]) name = Some k" by (simp add: step name_step_def)
    with True x show ?thesis by auto
  next
    case False
    with snoc.prems x have "(ep, m) \<in> set ms" by auto
    with snoc.IH snoc.prems obtain e m' where e: "by_name ms name = Some e" "(e, m') \<in> set ms" "seed m'" "canonical m' = Some name"
      by blast
    with False have "by_name (ms @ [x]) name = Some e" by (auto simp: step name_step_def split: option.splits)
    with e show ?thesis by auto
  qed
qed simp

lemma get_drop_duplicates:
  "bt_sorted ms \<Longrightarrow> bt_get (drop_duplicates names ms) ep =
    (case bt_get ms ep of
       None \<Rightarrow> None
     | Some m \<Rightarrow> (case canonical m of None \<Rightarrow> Some m | Some name \<Rightarrow> if names name = Some ep then Some m else None))"
  unfolding drop_duplicates_def by (simp add: bt_get_retain)

lemma get_drop_unlisted:
  "bt_sorted ms \<Longrightarrow> bt_get (drop_unlisted seen ms) ep =
    (case bt_get ms ep of
       None \<Rightarrow> None
     | Some m \<Rightarrow> if ep \<in> set seen \<or> seed m \<and> canonical m = None then Some m
         else if seed m then Some (m\<lparr>listed := Unlisted\<rparr>) else None)"
  unfolding drop_unlisted_def by (simp add: bt_get_retain)

text \<open>What the loop over the listing keeps: order, members it has not seen, seeds, and for every member it
  has seen a reported state.\<close>

definition folded :: "(rstr \<rightharpoonup> rstr) \<Rightarrow> 'f members \<Rightarrow> (rstr \<times> member_state) set \<Rightarrow> 'f members \<times> rstr list \<Rightarrow> bool" where
  "folded names ms0 don = (\<lambda>(ms, seen). bt_sorted ms
     \<and> (\<forall>ep. ep \<notin> set seen \<longrightarrow> bt_get ms ep = bt_get ms0 ep)
     \<and> (\<forall>ep \<in> set seen. \<exists>m. bt_get ms ep = Some m \<and> listed m \<in> snd ` don)
     \<and> (\<forall>ep m0. bt_get ms0 ep = Some m0 \<longrightarrow> (\<exists>m. bt_get ms ep = Some m \<and> seed m = seed m0))
     \<and> (\<forall>(name, s) \<in> don. case names name of Some ep \<Rightarrow> ep \<in> set seen | None \<Rightarrow> name \<in> set seen))"

lemma set_listed_simps [simp]: "listed (set_listed s m) = s" "seed (set_listed s m) = seed m"
  by (simp_all add: set_listed_def reset_latency_def Let_def)

lemma folded_touch:
  assumes "folded names ms0 don (ms, seen)" and "bt_sorted ms'" and "\<And>k. k \<noteq> ep \<Longrightarrow> bt_get ms' k = bt_get ms k"
    and "bt_get ms' ep = Some m'" and "listed m' = s" and "\<And>m. bt_get ms ep = Some m \<Longrightarrow> seed m' = seed m"
    and "names name = Some ep \<or> names name = None \<and> name = ep"
  shows "folded names ms0 (insert (name, s) don) (ms', ep # seen)"
proof -
  note inv = assms(1)[unfolded folded_def prod.case]
  have seen: "\<exists>m. bt_get ms k = Some m \<and> listed m \<in> snd ` don" if "k \<in> set seen" for k using inv that by blast
  have seeds: "\<exists>m. bt_get ms k = Some m \<and> seed m = seed m0" if "bt_get ms0 k = Some m0" for k m0 using inv that by blast
  have "\<exists>m. bt_get ms' k = Some m \<and> listed m \<in> snd ` insert (name, s) don" if "k \<in> set (ep # seen)" for k
  proof (cases "k = ep")
    case True
    with assms(4,5) show ?thesis by simp
  next
    case False
    with that have "k \<in> set seen" by simp
    then obtain m where "bt_get ms k = Some m" "listed m \<in> snd ` don" using seen by blast
    with assms(3)[OF False] show ?thesis by simp
  qed
  moreover have "\<exists>m. bt_get ms' k = Some m \<and> seed m = seed m0" if "bt_get ms0 k = Some m0" for k m0
  proof -
    obtain m where "bt_get ms k = Some m" "seed m = seed m0" using seeds[OF \<open>bt_get ms0 k = Some m0\<close>] by blast
    then show ?thesis using assms(3,4,6) by (cases "k = ep") auto
  qed
  moreover have "\<forall>(n, x) \<in> insert (name, s) don. case names n of Some e \<Rightarrow> e \<in> set (ep # seen) | None \<Rightarrow> n \<in> set (ep # seen)"
    using assms(7) inv by (auto split: option.splits)
  moreover have "bt_get ms' k = bt_get ms0 k" if "k \<notin> set (ep # seen)" for k using that assms(3) inv by auto
  ultimately show ?thesis
    using assms(2) unfolding folded_def prod.case by blast
qed

lemma listed_step_folded:
  assumes "folded names ms0 don p" and "\<And>name ep. names name = Some ep \<Longrightarrow> bt_get ms0 ep \<noteq> None"
  shows "folded names ms0 (insert x don) (listed_step names x p)"
proof -
  obtain ms seen where p: "p = (ms, seen)" by (cases p)
  obtain endpoint s where x: "x = (endpoint, s)" by (cases x)
  note inv = assms(1)[unfolded p]
  then have srt: "bt_sorted ms" by (simp add: folded_def)
  show ?thesis
  proof (cases "names endpoint")
    case (Some ep)
    then obtain m where m: "bt_get ms ep = Some m" using inv assms(2) unfolding folded_def by blast
    then have "listed_step names x p = (bt_update ep (set_listed s) ms, ep # seen)"
      by (simp add: listed_step_def x p Some)
    moreover have "folded names ms0 (insert (endpoint, s) don) (bt_update ep (set_listed s) ms, ep # seen)"
      by (rule folded_touch[OF inv, where m' = "set_listed s m"]) (use srt m Some in auto)
    ultimately show ?thesis by (simp add: x)
  next
    case None
    let ?ms = "if bt_get ms endpoint = None then bt_insert endpoint (member_new False) ms else ms"
    let ?ms' = "bt_update endpoint (set_listed s) (bt_update endpoint (\<lambda>m. m\<lparr>canonical := Some endpoint\<rparr>) ?ms)"
    let ?m = "set_listed s ((case bt_get ms endpoint of None \<Rightarrow> member_new False | Some m \<Rightarrow> m)\<lparr>canonical := Some endpoint\<rparr>)"
    have "bt_get ?ms endpoint \<noteq> None" by auto
    then have "listed_step names x p = (?ms', endpoint # seen)"
      using None by (simp add: listed_step_def x p Let_def)
    moreover have "folded names ms0 (insert (endpoint, s) don) (?ms', endpoint # seen)"
      by (rule folded_touch[OF inv, where m' = ?m]) (use srt None in \<open>auto split: option.splits\<close>)
    ultimately show ?thesis by (simp add: x)
  qed
qed

lemma fold_listed_folded:
  "folded names ms0 don p \<Longrightarrow> (\<And>name ep. names name = Some ep \<Longrightarrow> bt_get ms0 ep \<noteq> None) \<Longrightarrow>
   folded names ms0 (set lst \<union> don) (fold (listed_step names) lst p)"
proof (induction lst arbitrary: don p)
  case (Cons x lst)
  from Cons.IH[OF listed_step_folded[OF Cons.prems] Cons.prems(2)] show ?case by simp
qed simp

text \<open>The phases of \<open>apply_listing\<close> put together.\<close>

lemma apply_listing_phases:
  assumes "bt_sorted ms"
  obtains names ms1 ms2 seen where "names = by_name (identified dialed rows ms)"
    and "ms1 = drop_duplicates names (identified dialed rows ms)" and "bt_sorted ms1"
    and "folded names ms1 (set (listing dialed rows ms)) (ms2, seen)"
    and "apply_listing dialed rows ms = drop_unlisted seen ms2"
proof -
  define names where "names = by_name (identified dialed rows ms)"
  define ms1 where "ms1 = drop_duplicates names (identified dialed rows ms)"
  obtain ms2 seen where loop: "fold (listed_step names) (listing dialed rows ms) (ms1, []) = (ms2, seen)" by fastforce
  have srt: "bt_sorted (identified dialed rows ms)" using assms by (simp add: identified_frame)
  then have s1: "bt_sorted ms1" by (auto simp: ms1_def drop_duplicates_def)
  have "bt_get ms1 ep \<noteq> None" if "names name = Some ep" for name ep
    using that by_name_sound[of "identified dialed rows ms" name ep] srt
    by (auto simp: ms1_def get_drop_duplicates names_def bt_get_Some_iff[symmetric])
  moreover have "folded names ms1 {} (ms1, [])" using s1 by (simp add: folded_def)
  ultimately have f: "folded names ms1 (set (listing dialed rows ms)) (ms2, seen)"
    using fold_listed_folded[of names ms1 "{}" "(ms1, [])" "listing dialed rows ms"] by (simp add: loop)
  have "apply_listing dialed rows ms = drop_unlisted seen ms2"
    using loop by (simp add: apply_listing_def Let_def case_prod_unfold names_def ms1_def identified_def listing_def)
  with that names_def ms1_def s1 f show thesis by blast
qed

lemma bt_sorted_apply_listing [simp]: "bt_sorted ms \<Longrightarrow> bt_sorted (apply_listing dialed rows ms)"
  by (rule apply_listing_phases[of ms dialed rows]) (auto simp: folded_def drop_unlisted_def)

lemma seed_kept:
  assumes "bt_sorted ms" and "bt_get (identified dialed rows ms) ep = Some m" and "seed m"
    and "\<And>name. canonical m = Some name \<Longrightarrow> by_name (identified dialed rows ms) name = Some ep"
  shows "\<exists>m'. bt_get (apply_listing dialed rows ms) ep = Some m' \<and> seed m'"
proof -
  obtain names ms1 ms2 seen where p: "names = by_name (identified dialed rows ms)"
    "ms1 = drop_duplicates names (identified dialed rows ms)" "bt_sorted ms1"
    "folded names ms1 (set (listing dialed rows ms)) (ms2, seen)" "apply_listing dialed rows ms = drop_unlisted seen ms2"
    by (rule apply_listing_phases[OF assms(1)])
  have "bt_get ms1 ep = Some m"
    using assms p(1,2) by (auto simp: get_drop_duplicates identified_frame split: option.splits)
  then obtain m2 where m2: "bt_get ms2 ep = Some m2" "seed m2" using p(4) assms(3) unfolding folded_def by blast
  have "bt_sorted ms2" using p(4) by (simp add: folded_def)
  with m2 p(5) show ?thesis by (simp add: get_drop_unlisted)
qed

lemma identified_get: "bt_get ms ep = Some m \<Longrightarrow> \<exists>m1. bt_get (identified dialed rows ms) ep = Some m1 \<and> seed m1 = seed m"
  using identified_frame(2)[of dialed rows ms ep] by (cases "bt_get (identified dialed rows ms) ep") auto

lemma seed_owner:
  assumes "bt_sorted ms" and "bt_get (identified dialed rows ms) ep = Some m1" and "seed m1" and "canonical m1 = Some name"
  shows "\<exists>e m2. by_name (identified dialed rows ms) name = Some e \<and> bt_get (identified dialed rows ms) e = Some m2 \<and> seed m2
    \<and> canonical m2 = Some name"
proof -
  have "bt_sorted (identified dialed rows ms)" using assms(1) by (simp add: identified_frame)
  note iff = bt_get_Some_iff[OF this, symmetric]
  show ?thesis using by_name_seed[of ep m1 "identified dialed rows ms" name] assms by (auto simp: iff)
qed

lemma some_seed_survives:
  assumes "bt_sorted ms" and "bt_get ms ep = Some m" and "seed m"
  shows "\<exists>k m'. bt_get (apply_listing dialed rows ms) k = Some m' \<and> seed m'"
proof -
  obtain m1 where m1: "bt_get (identified dialed rows ms) ep = Some m1" "seed m1"
    using identified_get[OF assms(2)] assms(3) by blast
  show ?thesis
  proof (cases "canonical m1")
    case None
    then show ?thesis using seed_kept[OF assms(1) m1] by auto
  next
    case (Some name)
    then obtain e m2 where e: "by_name (identified dialed rows ms) name = Some e" "bt_get (identified dialed rows ms) e = Some m2"
      "seed m2" "canonical m2 = Some name" using seed_owner[OF assms(1) m1] by blast
    then show ?thesis using seed_kept[OF assms(1) e(2,3)] by auto
  qed
qed

section \<open>Lemmas on building\<close>

lemma dedup_fold: "distinct seen \<Longrightarrow> distinct (fold dedup_step es seen) \<and> set (fold dedup_step es seen) = set seen \<union> set es"
  by (induction es arbitrary: seen) (auto simp: dedup_step_def)

lemma dedup_facts [simp]: "distinct (dedup es)" "set (dedup es) = set es"
  using dedup_fold[of "[]" es] by (simp_all add: dedup_def)

lemma dedup_first: "dedup (xs @ ys) = dedup xs @ filter (\<lambda>y. y \<notin> set xs) (dedup ys)"
proof -
  have "fold dedup_step ys seen = seen @ filter (\<lambda>y. y \<notin> set seen) (fold dedup_step ys [])" for seen :: "'a list"
  proof (induction ys rule: rev_induct)
    case (snoc y ys)
    then show ?case by (auto simp: dedup_step_def)
  qed simp
  from this[of "dedup xs"] show ?thesis by (simp add: dedup_def[symmetric]) (simp add: dedup_def)
qed

lemma seed_members_facts:
  fixes ep :: rstr
  shows "bt_sorted (seed_members es :: 'a members)" "bt_get (seed_members es :: 'a members) ep = (if ep \<in> set es then Some (member_new True) else None)"
proof -
  have "bt_sorted ms \<Longrightarrow> bt_sorted (fold (\<lambda>ep. bt_insert ep (member_new True)) es ms)
    \<and> bt_get (fold (\<lambda>ep. bt_insert ep (member_new True)) es ms) ep = (if ep \<in> set es then Some (member_new True) else bt_get ms ep)" for ms :: "'a members"
    by (induction es arbitrary: ms) auto
  from this[of "[]"] show "bt_sorted (seed_members es :: 'a members)"
    "bt_get (seed_members es :: 'a members) ep = (if ep \<in> set es then Some (member_new True) else None)"
    by (simp_all add: seed_members_def)
qed

lemma seed_members_keys: "fst ` set (seed_members es) = set es"
proof -
  have "fst ` set (fold (\<lambda>ep. bt_insert ep (member_new True)) es ms) = set es \<union> fst ` set ms" for ms :: "'a members"
    by (induction es arbitrary: ms) auto
  from this[of "[]"] show ?thesis by (simp add: seed_members_def)
qed

section \<open>Properties\<close>

text \<open>After a listing every member is one the server reported just now, with a state it reported, or
  a configured seed, which is kept as it was while it has not named itself and is marked unlisted
  otherwise; and every reported endpoint has a member.\<close>

theorem listing_outcome:
  assumes "bt_sorted ms"
  shows "(\<forall>ep m. bt_get (apply_listing dialed rows ms) ep = Some m \<longrightarrow>
      (\<exists>r \<in> set rows. \<exists>name. reports r name (listed m)) \<or> seed m \<and> (canonical m = None \<or> listed m = Unlisted))
    \<and> (\<forall>r \<in> set rows. \<forall>name s. reports r name s \<longrightarrow>
      bt_get (apply_listing dialed rows ms) (case by_name (identified dialed rows ms) name of Some ep \<Rightarrow> ep | None \<Rightarrow> name) \<noteq> None)"
proof -
  obtain names ms1 ms2 seen where p: "names = by_name (identified dialed rows ms)"
    "ms1 = drop_duplicates names (identified dialed rows ms)" "bt_sorted ms1"
    "folded names ms1 (set (listing dialed rows ms)) (ms2, seen)" "apply_listing dialed rows ms = drop_unlisted seen ms2"
    by (rule apply_listing_phases[OF assms(1)])
  have s2: "bt_sorted ms2" using p(4) by (simp add: folded_def)
  note get = get_drop_unlisted[OF s2, of seen]
  have "(\<exists>r \<in> set rows. \<exists>name. reports r name (listed m)) \<or> seed m \<and> (canonical m = None \<or> listed m = Unlisted)"
    if "bt_get (apply_listing dialed rows ms) ep = Some m" for ep m
  proof (cases "ep \<in> set seen")
    case True
    then obtain m2 where m2: "bt_get ms2 ep = Some m2" "listed m2 \<in> snd ` set (listing dialed rows ms)"
      using p(4) unfolding folded_def by blast
    then have "m = m2" using that True p(5) by (simp add: get)
    with m2(2) listing_reported show ?thesis by fastforce
  next
    case False
    with that p(5) show ?thesis by (auto simp: get split: option.splits if_splits)
  qed
  moreover have "bt_get (apply_listing dialed rows ms) (case names name of Some ep \<Rightarrow> ep | None \<Rightarrow> name) \<noteq> None"
    if "r \<in> set rows" "reports r name s" for r name s
  proof -
    from listing_complete[OF that] obtain s' where "(name, s') \<in> set (listing dialed rows ms)" by force
    then have "(case names name of Some ep \<Rightarrow> ep | None \<Rightarrow> name) \<in> set seen"
      using p(4) unfolding folded_def by (fastforce split: option.splits)
    moreover from this obtain m2 where "bt_get ms2 (case names name of Some ep \<Rightarrow> ep | None \<Rightarrow> name) = Some m2"
      using p(4) unfolding folded_def by blast
    ultimately show ?thesis using p(5) by (simp add: get)
  qed
  ultimately show ?thesis using p(1) by blast
qed

theorem listing_outcome_witness:
  "bt_get (apply_listing [1] [[VString [1], VString (of_str ''ready'')]] (seed_members [[1]])) [1] \<noteq> (None :: nat member option)"
proof -
  have r: "reports [VString [1], VString (of_str ''ready'')] [1] Ready"
    by (simp add: reports_def cell_def row_state_def of_str_def)
  have i: "identified [1] [[VString [1], VString (of_str ''ready'')]] (seed_members [[1]]) = (seed_members [[1]] :: nat members)"
    by (simp add: identified_def listing_row_def cell_def)
  have n: "by_name (seed_members [[1]] :: nat members) [1] = None"
    by (simp add: by_name_def seed_members_def name_step_def member_new_def)
  show ?thesis
    using listing_outcome[of "seed_members [[1]] :: nat members" "[1]" "[[VString [1], VString (of_str ''ready'')]]"] r
    by (auto simp: i n seed_members_facts)
qed

text \<open>Discovery keeps every seed whose name no other seed has, and never loses all of them.\<close>

theorem seeds_survive:
  assumes "bt_sorted ms" and "bt_get ms ep = Some m" and "seed m"
  shows "(\<exists>k m'. bt_get (apply_listing dialed rows ms) k = Some m' \<and> seed m')
    \<and> ((\<forall>k m1 m2. bt_get (identified dialed rows ms) ep = Some m1 \<and> bt_get (identified dialed rows ms) k = Some m2 \<and> seed m2
          \<and> canonical m1 \<noteq> None \<and> canonical m1 = canonical m2 \<longrightarrow> k = ep)
       \<longrightarrow> (\<exists>m'. bt_get (apply_listing dialed rows ms) ep = Some m' \<and> seed m'))"
proof -
  obtain m1 where m1: "bt_get (identified dialed rows ms) ep = Some m1" "seed m1"
    using identified_get[OF assms(2)] assms(3) by blast
  have "\<exists>m'. bt_get (apply_listing dialed rows ms) ep = Some m' \<and> seed m'"
    if unique: "\<forall>k m1 m2. bt_get (identified dialed rows ms) ep = Some m1 \<and> bt_get (identified dialed rows ms) k = Some m2 \<and> seed m2
          \<and> canonical m1 \<noteq> None \<and> canonical m1 = canonical m2 \<longrightarrow> k = ep"
    using seed_owner[OF assms(1) m1] unique m1 by (intro seed_kept[OF assms(1) m1]) fastforce
  then show ?thesis using some_seed_survives[OF assms] by blast
qed

theorem seeds_survive_witness:
  "\<exists>k m'. bt_get (apply_listing [1] [] (seed_members [[1], [2]])) k = Some (m' :: nat member) \<and> seed m'"
  using seeds_survive[of "seed_members [[1], [2]] :: nat members" "[2]" "member_new True" "[1]" "[]"]
  by (simp add: seed_members_facts member_new_def)

text \<open>Two configured endpoints that turn out to be one member: the listing drops one of the seeds,
  although a configured endpoint is documented to be never dropped.\<close>

theorem duplicate_seed_dropped:
  "bt_get (apply_listing [2] [[VString [9], VString (of_str ''ready''), VBool True]]
      [([1], (member_new True)\<lparr>canonical := Some [9]\<rparr>), ([2], member_new True)]) [1] = (None :: nat member option)"
  by (simp add: apply_listing_def listing_row_def cell_def put_listed_def row_state_def of_str_def by_name_def name_step_def
      drop_duplicates_def listed_step_def drop_unlisted_def member_new_def bt_update_def Let_def)

text \<open>A pool is built exactly from a non-empty endpoint list with options in range; it then has the
  distinct endpoints as seeds, all usable, no idle connections, and a generator that is not stuck at
  zero.\<close>

theorem build_correct:
  "(case build F t hash b of
      Inl e \<Rightarrow> b_endpoints b = [] \<or> maxsize (b_options b) = 0 \<or> eject_errors (b_options b) = 0
        \<or> \<not> (f_finite F (eject_latency_factor (b_options b)) \<and> f_le F (f_zero F) (eject_latency_factor (b_options b)))
    | Inr st \<Rightarrow> b_endpoints b \<noteq> [] \<and> 0 < maxsize (b_options b) \<and> 0 < eject_errors (b_options b)
        \<and> bt_sorted (members st) \<and> set (keys st) = set (b_endpoints b)
        \<and> (\<forall>ep. usable_at st ep \<longleftrightarrow> ep \<in> set (b_endpoints b)) \<and> idle st = [] \<and> rng st \<noteq> 0)"
proof -
  have "dedup es = [] \<longleftrightarrow> es = []" for es :: "rstr list"
    using dedup_facts(2)[of es] by (metis set_empty)
  moreover have "hash OR 1 \<noteq> 0" by (simp add: or_eq_0_iff)
  ultimately show ?thesis
    by (auto simp: build_def Let_def keys_def usable_at_def seed_members_facts seed_members_keys usable_def member_new_def)
qed

end
