(* ===== verification/Auth_Client.thy ===== *)
theory Auth_Client
  imports Transport Handshake Scram Discovery "HOL-Library.AList"
begin

text \<open>
  The client side of authentication (\<^verbatim>\<open>src/lib.rs\<close>): the three handshakes, the cache of derived SCRAM
  keys, and \<^verbatim>\<open>dial\<close>, which connects, wraps the connection in TLS if asked to, and authenticates. The
  socket, TLS and GSSAPI libraries are parameters (\<open>net_ops\<close>, \<open>gss_ops\<close>); the process-wide statics are
  the record \<open>process\<close>.
\<close>

section \<open>Parameters and process state\<close>

datatype 'h client_step = Continue 'h bytes | Done "bytes option"

record 'h gss_ops =
  gss_new :: "rstr \<Rightarrow> bytes option \<Rightarrow> rstr + 'h \<times> bytes"
  gss_step :: "'h \<Rightarrow> bytes \<Rightarrow> rstr + 'h client_step"

text \<open>\<open>kerberos\<close> is \<open>None\<close> in a build without the feature; \<open>gss_rounds\<close> bounds the token loop.\<close>

record ('w, 't, 's, 'h) net_ops =
  io :: "'s stream_ops"
  tcp_connect :: "rstr \<Rightarrow> 'w \<Rightarrow> (io_error, 't) res \<times> 'w"
  connect_tls :: "'t \<Rightarrow> tls_config \<Rightarrow> (io_error, 's) res"
  plain :: "'t \<Rightarrow> 's"
  channel_binding :: "'s \<Rightarrow> bytes option"
  kerberos :: "'h gss_ops option"
  gss_rounds :: nat
  process_id :: nat

type_synonym salted_cache = "((rstr \<times> bytes \<times> u32) \<times> bytes) list"

record 'w process =
  scram_nonce :: u64
  gss_nonce :: u64
  salted :: salted_cache
  world :: 'w

section \<open>The cache of derived keys\<close>

definition CACHE_BOUND :: nat where "CACHE_BOUND = 64"

definition cache_put :: "rstr \<times> bytes \<times> u32 \<Rightarrow> bytes \<Rightarrow> salted_cache \<Rightarrow> salted_cache" where
  "cache_put k v c = (let c = (if CACHE_BOUND \<le> length c then [] else c) in AList.update k v c)"

definition cached_salted_password :: "rstr \<Rightarrow> bytes \<Rightarrow> u32 \<Rightarrow> salted_cache \<Rightarrow> bytes \<times> salted_cache" where
  "cached_salted_password password slt iters c =
    (let key = (password, slt, iters) in
     case map_of c key of
       Some hit \<Rightarrow> (hit, c)
     | None \<Rightarrow> let derived = salted_password password slt iters in (derived, cache_put key derived c))"

section \<open>Handshakes\<close>

definition nonce_text :: "nat \<Rightarrow> u64 \<Rightarrow> rstr" where
  "nonce_text pid n = of_str ''c'' @ show_nat pid @ of_str ''.'' @ show_nat (unat n)"

definition outcome :: "bytes \<Rightarrow> (bytes \<Rightarrow> (driver_error, 'a) res) \<Rightarrow> (driver_error, 'a) res" where
  "outcome frame ok = rbind (map_err Proto (auth_outcome_decode frame)) (\<lambda>oc.
     case oc of AuthOk sig \<Rightarrow> ok sig | Denied reason \<Rightarrow> Inl (Err (denied reason)))"

definition handshake_external :: "'s stream_ops \<Rightarrow> rstr \<Rightarrow> 's \<Rightarrow> (driver_error, 's) res" where
  "handshake_external ops user s =
    rbind (map_err Io (write_frame (wr ops) s
       (auth_start_encode \<lparr>username = user, client_nonce = [], mechanism = External\<rparr>))) (\<lambda>s.
    rbind (map_err Io (read_frame (rd ops) s)) (\<lambda>(frame, s).
    outcome frame (\<lambda>_. Inr s)))"

definition handshake :: "'s stream_ops \<Rightarrow> nat \<Rightarrow> rstr \<Rightarrow> rstr \<Rightarrow> 's \<Rightarrow> ('w process, driver_error, 's) op" where
  "handshake ops pid user password s p =
    (let cnonce = nonce_text pid (scram_nonce p); p = p\<lparr>scram_nonce := scram_nonce p + 1\<rparr> in
     sbind (slift (map_err Io (write_frame (wr ops) s
         (auth_start_encode \<lparr>username = user, client_nonce = cnonce, mechanism = ScramSha256\<rparr>)))) (\<lambda>s.
     sbind (slift (map_err Io (read_frame (rd ops) s))) (\<lambda>(frame, s).
     sbind (slift (map_err Proto (auth_challenge_decode frame))) (\<lambda>ch p.
       let am = auth_message user cnonce (server_nonce ch) (salt ch) (iterations ch);
           (key, c) = cached_salted_password password (salt ch) (iterations ch) (salted p);
           p = p\<lparr>salted := c\<rparr>;
           proof = client_proof_salted key am
       in sbind (slift (map_err Io (write_frame (wr ops) s (auth_finish_encode \<lparr>client_proof = proof\<rparr>)))) (\<lambda>s.
          sbind (slift (map_err Io (read_frame (rd ops) s))) (\<lambda>(frame, s).
          slift (outcome frame (\<lambda>sig.
            if password \<noteq> [] \<and> server_signature_salted key am \<noteq> sig
            then Inl (Err (Auth (of_str ''server signature mismatch''))) else Inr s)))) p))) p)"

primrec gss_loop :: "nat \<Rightarrow> 's stream_ops \<Rightarrow> 'h gss_ops \<Rightarrow> 'h option \<Rightarrow> 's \<Rightarrow> (driver_error, 's) res" where
  "gss_loop 0 ops g ctx s = Inl OutOfFuel"
| "gss_loop (Suc n) ops g ctx s =
    rbind (map_err Io (read_frame (rd ops) s)) (\<lambda>(frame, s).
    rbind (ok_of (auth_token_decode frame)) (\<lambda>tok. case tok of
      Some tok \<Rightarrow> (case ctx of
        None \<Rightarrow> Inl (Err (Auth (of_str ''gssapi: unexpected server token'')))
      | Some c \<Rightarrow> (case gss_step g c (token tok) of
          Inl e \<Rightarrow> Inl (Err (Auth e))
        | Inr (Continue nxt t) \<Rightarrow>
            rbind (map_err Io (write_frame (wr ops) s (auth_token_encode \<lparr>token = t\<rparr>))) (gss_loop n ops g (Some nxt))
        | Inr (Done (Some t)) \<Rightarrow>
            rbind (map_err Io (write_frame (wr ops) s (auth_token_encode \<lparr>token = t\<rparr>))) (gss_loop n ops g None)
        | Inr (Done None) \<Rightarrow> gss_loop n ops g None s))
    | None \<Rightarrow>
        rbind (ok_of (auth_outcome_decode frame)) (\<lambda>oc. case oc of
          Some (AuthOk _) \<Rightarrow> Inr s
        | Some (Denied reason) \<Rightarrow> Inl (Err (denied reason))
        | None \<Rightarrow> Inl (Err (Auth (of_str ''gssapi: unexpected handshake frame''))))))"

definition handshake_gssapi :: "('w, 't, 's, 'h) net_ops \<Rightarrow> rstr \<Rightarrow> rstr \<Rightarrow> 's \<Rightarrow> ('w process, driver_error, 's) op" where
  "handshake_gssapi N user spn s p = (case kerberos N of
     None \<Rightarrow> (Inl (Err (Auth (of_str ''this driver was built without Kerberos (GSSAPI) support''))), p)
   | Some g \<Rightarrow>
       let cnonce = nonce_text (process_id N) (gss_nonce p); p = p\<lparr>gss_nonce := gss_nonce p + 1\<rparr> in
       (case gss_new g spn (channel_binding N s) of
          Inl e \<Rightarrow> (Inl (Err (Auth (of_str ''gssapi init failed (did you kinit?): '' @ e))), p)
        | Inr (ctx, token0) \<Rightarrow>
            (rbind (map_err Io (write_frame (wr (io N)) s
                (auth_start_encode \<lparr>username = user, client_nonce = cnonce, mechanism = Gssapi\<rparr>))) (\<lambda>s.
             rbind (map_err Io (write_frame (wr (io N)) s (auth_token_encode \<lparr>token = token0\<rparr>))) (\<lambda>s.
             gss_loop (gss_rounds N) (io N) g (Some ctx) s)), p)))"

definition dial :: "('w, 't, 's, 'h) net_ops \<Rightarrow> rstr \<Rightarrow> login \<Rightarrow> ('w process, driver_error, 's) op" where
  "dial N endpoint lg p =
    (let (tcp, w) = tcp_connect N endpoint (world p); p = p\<lparr>world := w\<rparr> in
     sbind (slift (map_err Io tcp)) (\<lambda>tcp.
     sbind (slift (case login_tls lg of
              Some t \<Rightarrow> map_err Io (connect_tls N tcp t)
            | None \<Rightarrow> Inr (plain N tcp))) (\<lambda>s.
     case gssapi_spn lg of
       Some spn \<Rightarrow> handshake_gssapi N (login_username lg) spn s
     | None \<Rightarrow>
         if cert_auth lg then slift (handshake_external (io N) (login_username lg) s)
         else handshake (io N) (process_id N) (login_username lg) (login_password lg) s)) p)"

section \<open>The cache holds derived keys only\<close>

definition cache_ok :: "salted_cache \<Rightarrow> bool" where
  "cache_ok c \<longleftrightarrow> distinct (map fst c) \<and> length c \<le> CACHE_BOUND
     \<and> (\<forall>pw slt iters v. map_of c (pw, slt, iters) = Some v \<longrightarrow> v = salted_password pw slt iters)"

lemma length_alist_update: "length (AList.update k v c) \<le> Suc (length c)"
  by (induction c) auto

lemma cache_ok_put:
  assumes "cache_ok c"
  shows "cache_ok (cache_put (pw, slt, iters) (salted_password pw slt iters) c)"
proof -
  define c0 where "c0 = (if CACHE_BOUND \<le> length c then [] else c)"
  let ?k = "(pw, slt, iters)" and ?v = "salted_password pw slt iters"
  have "distinct (map fst c0)" "length c0 < CACHE_BOUND"
    using assms by (auto simp: c0_def cache_ok_def CACHE_BOUND_def)
  moreover have "v = salted_password a b n" if "map_of c0 (a, b, n) = Some v" for a b n v
    using assms that by (auto simp: c0_def cache_ok_def split: if_splits)
  ultimately show ?thesis
    using length_alist_update[of ?k ?v c0] distinct_update[of c0 ?k ?v]
    unfolding cache_ok_def cache_put_def Let_def c0_def[symmetric] update_conv by auto
qed

lemma cached_salted_password_eq:
  assumes "cache_ok c"
  shows "\<exists>c'. cached_salted_password pw slt iters c = (salted_password pw slt iters, c') \<and> cache_ok c'"
proof (cases "map_of c (pw, slt, iters)")
  case None
  then show ?thesis using cache_ok_put[OF assms] unfolding cached_salted_password_def Let_def by simp
next
  case (Some v)
  then have "v = salted_password pw slt iters" using assms unfolding cache_ok_def by blast
  with Some assms show ?thesis unfolding cached_salted_password_def Let_def by simp
qed

text \<open>The two locked sections of concurrent logins interleave in any way; a thread only ever stores what
  it derived itself.\<close>

inductive cache_state :: "salted_cache \<Rightarrow> bool" where
  empty: "cache_state []"
| store: "cache_state c \<Longrightarrow> cache_state (cache_put (pw, slt, iters) (salted_password pw slt iters) c)"

lemma cache_state_ok: "cache_state c \<Longrightarrow> cache_ok c"
  by (induction rule: cache_state.induct) (simp add: cache_ok_def CACHE_BOUND_def, rule cache_ok_put)

section \<open>What the SCRAM handshake does on a connection\<close>

lemma length_client_proof [simp]: "length (client_proof_salted k m) = 32"
  by (simp add: client_proof_salted_def Let_def)

lemma length_server_signature [simp]: "length (server_signature pw slt iters m) = 32"
  by (simp add: server_signature_def server_signature_salted_def)

lemma length_auth_finish: "length (auth_finish_encode \<lparr>client_proof = client_proof_salted k m\<rparr>) \<le> MAX_FRAME_LEN"
  by (simp add: auth_finish_encode_def MAX_FRAME_LEN_def)

definition scram_start :: "nat \<Rightarrow> u64 \<Rightarrow> rstr \<Rightarrow> bytes" where
  "scram_start pid n user = auth_start_encode \<lparr>username = user, client_nonce = nonce_text pid n, mechanism = ScramSha256\<rparr>"

definition scram_message :: "nat \<Rightarrow> u64 \<Rightarrow> rstr \<Rightarrow> auth_challenge \<Rightarrow> bytes" where
  "scram_message pid n user ch = auth_message user (nonce_text pid n) (server_nonce ch) (salt ch) (iterations ch)"

definition scram_finish :: "nat \<Rightarrow> u64 \<Rightarrow> rstr \<Rightarrow> rstr \<Rightarrow> auth_challenge \<Rightarrow> bytes" where
  "scram_finish pid n user pw ch = auth_finish_encode
     \<lparr>client_proof = client_proof_of pw (salt ch) (iterations ch) (scram_message pid n user ch)\<rparr>"

text \<open>A run in which the four frames go through.\<close>

lemma handshake_frames:
  assumes "cache_ok (salted p)"
    and "write_frame (wr ops) s (scram_start pid (scram_nonce p) user) = Inr s1" and "read_frame (rd ops) s1 = Inr (cf, s2)"
    and "auth_challenge_decode cf = Inr ch"
    and "write_frame (wr ops) s2 (scram_finish pid (scram_nonce p) user pw ch) = Inr s3" and "read_frame (rd ops) s3 = Inr (oframe, s4)"
  shows "\<exists>p'. handshake ops pid user pw s p =
      (outcome oframe (\<lambda>sig.
         if pw \<noteq> [] \<and> server_signature pw (salt ch) (iterations ch) (scram_message pid (scram_nonce p) user ch) \<noteq> sig
         then Inl (Err (Auth (of_str ''server signature mismatch''))) else Inr s4), p')
    \<and> cache_ok (salted p') \<and> scram_nonce p' = scram_nonce p + 1 \<and> world p' = world p"
proof -
  from cached_salted_password_eq[OF assms(1)] obtain c' where c': "cache_ok c'"
    "cached_salted_password pw (salt ch) (iterations ch) (salted p) = (salted_password pw (salt ch) (iterations ch), c')" by blast
  have fin: "scram_finish pid (scram_nonce p) user pw ch = auth_finish_encode
     \<lparr>client_proof = client_proof_salted (salted_password pw (salt ch) (iterations ch)) (scram_message pid (scram_nonce p) user ch)\<rparr>"
    by (simp add: scram_finish_def client_proof_of_def)
  show ?thesis
    by (rule exI[of _ "p\<lparr>scram_nonce := scram_nonce p + 1, salted := c'\<rparr>"])
      (use assms(2-) c' in \<open>simp add: handshake_def Let_def scram_start_def[symmetric] scram_message_def[symmetric]
        fin[symmetric] server_signature_def\<close>)
qed

lemma length_scram_finish: "length (scram_finish pid n user pw ch) \<le> MAX_FRAME_LEN"
  using length_auth_finish by (simp add: scram_finish_def client_proof_of_def)

text \<open>A run against any two frames a server may send.\<close>

lemma handshake_run:
  assumes d: "duplex ops sent pending" and c: "cache_ok (salted p)"
    and len: "length (scram_start pid (scram_nonce p) user) \<le> MAX_FRAME_LEN" "length cf \<le> MAX_FRAME_LEN" "length oframe \<le> MAX_FRAME_LEN"
    and pend: "pending s = frame_bytes cf @ frame_bytes oframe @ rest"
    and ch: "auth_challenge_decode cf = Inr ch"
  shows "\<exists>s' p'. handshake ops pid user pw s p =
      (outcome oframe (\<lambda>sig.
         if pw \<noteq> [] \<and> server_signature pw (salt ch) (iterations ch) (scram_message pid (scram_nonce p) user ch) \<noteq> sig
         then Inl (Err (Auth (of_str ''server signature mismatch''))) else Inr s'), p')
    \<and> pending s' = rest
    \<and> sent s' = sent s @ frame_bytes (scram_start pid (scram_nonce p) user) @ frame_bytes (scram_finish pid (scram_nonce p) user pw ch)
    \<and> cache_ok (salted p') \<and> scram_nonce p' = scram_nonce p + 1 \<and> world p' = world p"
proof -
  from send_frame[OF d len(1)] obtain s1 where s1: "write_frame (wr ops) s (scram_start pid (scram_nonce p) user) = Inr s1"
    "sent s1 = sent s @ frame_bytes (scram_start pid (scram_nonce p) user)" "pending s1 = pending s" by blast
  from recv_frame[OF d _ len(2), of s1] pend s1(3) obtain s2 where s2: "read_frame (rd ops) s1 = Inr (cf, s2)"
    "pending s2 = frame_bytes oframe @ rest" "sent s2 = sent s1" by metis
  from send_frame[OF d length_scram_finish, of s2] obtain s3 where
    s3: "write_frame (wr ops) s2 (scram_finish pid (scram_nonce p) user pw ch) = Inr s3"
    "sent s3 = sent s2 @ frame_bytes (scram_finish pid (scram_nonce p) user pw ch)" "pending s3 = pending s2" by metis
  from recv_frame[OF d _ len(3), of s3] s2 s3 obtain s4 where s4: "read_frame (rd ops) s3 = Inr (oframe, s4)"
    "pending s4 = rest" "sent s4 = sent s3" by metis
  from handshake_frames[OF c s1(1) s2(1) ch s3(1) s4(1)] show ?thesis using s1 s2 s3 s4 by (intro exI[of _ s4]) auto
qed

lemma outcome_eq_Inr: "outcome f ok = Inr x \<longleftrightarrow> (\<exists>sig. auth_outcome_decode f = Inr (AuthOk sig) \<and> ok sig = Inr x)"
  by (cases "auth_outcome_decode f") (auto simp: outcome_def map_err_def split: auth_outcome.splits fault.splits)

text \<open>When the run succeeds.\<close>

definition accepted :: "nat \<Rightarrow> u64 \<Rightarrow> rstr \<Rightarrow> rstr \<Rightarrow> auth_challenge \<Rightarrow> bytes \<Rightarrow> bool" where
  "accepted pid n user pw ch oframe \<longleftrightarrow> (\<exists>sig. auth_outcome_decode oframe = Inr (AuthOk sig)
      \<and> (pw = [] \<or> sig = server_signature pw (salt ch) (iterations ch) (scram_message pid n user ch)))"

lemma handshake_accepted:
  assumes "duplex ops sent pending" and "cache_ok (salted p)"
    and "length (scram_start pid (scram_nonce p) user) \<le> MAX_FRAME_LEN" "length cf \<le> MAX_FRAME_LEN" "length oframe \<le> MAX_FRAME_LEN"
    and "pending s = frame_bytes cf @ frame_bytes oframe @ rest" and "auth_challenge_decode cf = Inr ch"
  shows "handshake ops pid user pw s p = (Inr s', p') \<Longrightarrow> accepted pid (scram_nonce p) user pw ch oframe"
    "accepted pid (scram_nonce p) user pw ch oframe \<Longrightarrow> \<exists>s' p'. handshake ops pid user pw s p = (Inr s', p') \<and> pending s' = rest
      \<and> sent s' = sent s @ frame_bytes (scram_start pid (scram_nonce p) user) @ frame_bytes (scram_finish pid (scram_nonce p) user pw ch)"
proof -
  from handshake_run[OF assms] obtain s1 p1 where
    run: "handshake ops pid user pw s p =
      (outcome oframe (\<lambda>sig.
         if pw \<noteq> [] \<and> server_signature pw (salt ch) (iterations ch) (scram_message pid (scram_nonce p) user ch) \<noteq> sig
         then Inl (Err (Auth (of_str ''server signature mismatch''))) else Inr s1), p1)"
    "pending s1 = rest"
    "sent s1 = sent s @ frame_bytes (scram_start pid (scram_nonce p) user) @ frame_bytes (scram_finish pid (scram_nonce p) user pw ch)"
    by metis
  have iff: "fst (handshake ops pid user pw s p) = Inr x \<longleftrightarrow> accepted pid (scram_nonce p) user pw ch oframe \<and> x = s1" for x
    using run(1) by (auto simp: outcome_eq_Inr accepted_def split: if_splits)
  show "handshake ops pid user pw s p = (Inr s', p') \<Longrightarrow> accepted pid (scram_nonce p) user pw ch oframe"
    using iff[of s'] by simp
  show "accepted pid (scram_nonce p) user pw ch oframe \<Longrightarrow> \<exists>s' p'. handshake ops pid user pw s p = (Inr s', p') \<and> pending s' = rest
      \<and> sent s' = sent s @ frame_bytes (scram_start pid (scram_nonce p) user) @ frame_bytes (scram_finish pid (scram_nonce p) user pw ch)"
    using iff[of s1] run by simp
qed

lemma handshake_iff:
  assumes "duplex ops sent pending" and "cache_ok (salted p)"
    and "length (scram_start pid (scram_nonce p) user) \<le> MAX_FRAME_LEN" "length cf \<le> MAX_FRAME_LEN" "length oframe \<le> MAX_FRAME_LEN"
    and "pending s = frame_bytes cf @ frame_bytes oframe @ rest" and "auth_challenge_decode cf = Inr ch"
  shows "(\<exists>s' p'. handshake ops pid user pw s p = (Inr s', p') \<and> pending s' = rest
      \<and> sent s' = sent s @ frame_bytes (scram_start pid (scram_nonce p) user) @ frame_bytes (scram_finish pid (scram_nonce p) user pw ch))
    \<longleftrightarrow> (\<exists>sig. auth_outcome_decode oframe = Inr (AuthOk sig)
      \<and> (pw = [] \<or> sig = server_signature pw (salt ch) (iterations ch) (scram_message pid (scram_nonce p) user ch)))"
  unfolding accepted_def[symmetric] using handshake_accepted[OF assms] by blast

section \<open>The token loop\<close>

lemma read_frame_consumes:
  assumes "read_contract ops pending" and "read_frame ops r = Inr (p, r')"
  shows "length (pending r) = 4 + length p + length (pending r')"
proof -
  have ex: "n \<le> length (pending r) \<and> length bs = n \<and> length (pending r1) = length (pending r) - n"
    if "read_exact ops r n = Inr (bs, r1)" for r n bs r1
  proof (cases "n \<le> length (pending r)")
    case True
    then have "pending r = take n (pending r) @ drop n (pending r)" "length (take n (pending r)) = n" by auto
    with assms(1) obtain r2 where "read_exact ops r n = Inr (take n (pending r), r2)" "pending r2 = drop n (pending r)"
      unfolding read_contract_def by metis
    with that True show ?thesis by auto
  next
    case False
    with assms(1) that show ?thesis by (simp add: read_contract_def)
  qed
  from assms(2) obtain h r1 n where "read_exact ops r 4 = Inr (h, r1)" "read_exact ops r1 n = Inr (p, r')"
    by (auto simp: read_frame_def read_frame_into_def Let_def rbind_eq_Inr split: if_splits)
  from ex[OF this(1)] ex[OF this(2)] show ?thesis by linarith
qed

lemma clean_read_exact:
  assumes "read_contract ops pending" shows "clean (read_exact ops r n)"
proof (cases "n \<le> length (pending r)")
  case True
  then have "pending r = take n (pending r) @ drop n (pending r)" "length (take n (pending r)) = n" by auto
  with assms obtain r2 where "read_exact ops r n = Inr (take n (pending r), r2)"
    unfolding read_contract_def by metis
  then show ?thesis by simp
next
  case False
  with assms show ?thesis by (simp add: read_contract_def)
qed

lemma clean_read_frame: "read_contract ops pending \<Longrightarrow> clean (read_frame ops r)"
  by (auto simp: read_frame_def read_frame_into_def Let_def intro!: clean_rbind intro: clean_read_exact)

lemma clean_write_frame: "duplex ops sent pending \<Longrightarrow> clean (write_frame (wr ops) s p)"
  using send_frame[of ops sent pending p s] by (cases "length p \<le> MAX_FRAME_LEN") (auto simp: write_frame_def)

lemma clean_tokens: "clean (auth_token_decode f)" "clean (auth_outcome_decode f)" "clean (auth_challenge_decode f)"
  by (auto simp: auth_token_decode_def auth_outcome_decode_def auth_challenge_decode_def reader_new_def intro!: clean_rbind)

lemma gss_loop_clean:
  assumes d: "duplex ops sent pending"
  shows "length (pending s) < 4 * n \<Longrightarrow> clean (gss_loop n ops g ctx s)"
proof (induction n arbitrary: ctx s)
  case (Suc n)
  have rc: "read_contract (rd ops) pending" using d by (simp add: duplex_def)
  have go: "clean (gss_loop n ops g c s2)" if "read_frame (rd ops) s = Inr (f, s1)" "pending s2 = pending s1" for c f s1 s2
    using read_frame_consumes[OF rc that(1)] that(2) Suc by simp
  have gow: "clean (gss_loop n ops g c s2)" if "read_frame (rd ops) s = Inr (f, s1)" "write_frame (wr ops) s1 q = Inr s2" for c f s1 s2 q
    using go[OF that(1)] write_frame_keeps[OF _ that(2), of pending] d by (simp add: duplex_def)
  show ?case
    by (auto intro!: clean_rbind clean_read_frame[OF rc] clean_write_frame[OF d] clean_tokens simp: map_err_eq_Inr
        split: option.splits sum.splits client_step.splits auth_outcome.splits)
      (erule gow, assumption, erule go, rule refl, erule gow, assumption)
qed simp

section \<open>A server that answers what it reads\<close>

text \<open>The other end of a connection, as the bytes it has sent once it has received the given ones. Reading takes what it has sent and
  has not been read yet; writing changes what it will have sent.\<close>

definition served :: "'s stream_ops \<Rightarrow> ('s \<Rightarrow> bytes) \<Rightarrow> ('s \<Rightarrow> nat) \<Rightarrow> (bytes \<Rightarrow> bytes) \<Rightarrow> bool" where
  "served ops sent taken srv \<longleftrightarrow> write_contract (wr ops) sent \<and> write_live (wr ops) \<and> writes_keep (wr ops) taken \<and> reads_keep (rd ops) sent
     \<and> read_contract (rd ops) (\<lambda>s. drop (taken s) (srv (sent s)))
     \<and> (\<forall>r n bs r'. read_exact (rd ops) r n = Inr (bs, r') \<longrightarrow> taken r' = taken r + length bs)"

definition peer_stream :: "(bytes \<Rightarrow> bytes) \<Rightarrow> (bytes \<times> nat) stream_ops" where
  "peer_stream srv = \<lparr>
     wr = \<lparr>write_vectored = (\<lambda>(out, n) bufs. Inr (length (concat bufs), (out @ concat bufs, n))),
           write_all = (\<lambda>(out, n) bs. Inr (out @ bs, n)), flush = Inr\<rparr>,
     rd = \<lparr>read_exact = (\<lambda>(out, n) k. if k \<le> length (drop n (srv out)) then Inr (take k (drop n (srv out)), (out, n + k))
            else Inl (Err UnexpectedEof))\<rparr>\<rparr>"

lemma peer_stream_served: "served (peer_stream srv) fst snd srv"
proof -
  have "read_contract (rd (peer_stream srv)) (\<lambda>s. drop (snd s) (srv (fst s)))"
    unfolding read_contract_def
  proof (intro conjI allI impI)
    fix r bs rest assume r: "drop (snd r) (srv (fst r)) = bs @ (rest :: bytes)"
    moreover have "length bs \<le> length (srv (fst r)) - snd r" using arg_cong[OF r, of length] by simp
    moreover have "drop (snd r + length bs) (srv (fst r)) = rest" using r by (metis add.commute append_eq_conv_conj drop_drop)
    ultimately show "\<exists>r'. read_exact (rd (peer_stream srv)) r (length bs) = Inr (bs, r') \<and> drop (snd r') (srv (fst r')) = rest"
      by (cases r) (simp add: peer_stream_def)
  qed (auto simp: peer_stream_def)
  then show ?thesis
    by (auto simp: served_def peer_stream_def write_contract_def write_live_def writes_keep_def reads_keep_def split: if_splits)
qed

lemma served_send:
  assumes "served ops sent taken srv" and "length p \<le> MAX_FRAME_LEN"
  shows "\<exists>s'. write_frame (wr ops) s p = Inr s' \<and> sent s' = sent s @ frame_bytes p \<and> taken s' = taken s"
  using write_frame_live[of "wr ops" sent p s] write_frame_sent[of "wr ops" sent s p] write_frame_keeps[of "wr ops" taken s p]
    assms unfolding served_def by blast

lemma served_recv:
  assumes "served ops sent taken srv" and "drop (taken s) (srv (sent s)) = frame_bytes p @ rest" and "length p \<le> MAX_FRAME_LEN"
  shows "\<exists>s'. read_frame (rd ops) s = Inr (p, s') \<and> taken s' = taken s + length (frame_bytes p) \<and> sent s' = sent s"
proof -
  have rc: "read_contract (rd ops) (\<lambda>s. drop (taken s) (srv (sent s)))" and rk: "reads_keep (rd ops) sent"
    and adv: "\<And>r n bs r'. read_exact (rd ops) r n = Inr (bs, r') \<Longrightarrow> taken r' = taken r + length bs"
    using assms(1) by (auto simp: served_def)
  from read_frame_into_frame[OF rc assms(2,3), of "[]"] obtain s' where s': "read_frame (rd ops) s = Inr (p, s')"
    by (auto simp: read_frame_def)
  from s' obtain h r1 n where h: "read_exact (rd ops) s 4 = Inr (h, r1)" "read_exact (rd ops) r1 n = Inr (p, s')"
    by (auto simp: read_frame_def read_frame_into_def Let_def rbind_eq_Inr split: if_splits)
  have "length h = 4"
  proof -
    have "drop (taken s) (srv (sent s)) = u32_be (length p) @ p @ rest" using assms(2) by (simp add: frame_bytes_def)
    with rc obtain r2 where "read_exact (rd ops) s (length (u32_be (length p))) = Inr (u32_be (length p), r2)"
      unfolding read_contract_def by blast
    with h(1) show ?thesis by simp
  qed
  with adv[OF h(1)] adv[OF h(2)] read_frame_keeps[OF rk s'] s' show ?thesis by (simp add: frame_bytes_def)
qed

text \<open>A server of the protocol: the first complete frame off the bytes it has received, and what it answers. Its credential is
  the one stored for the user.\<close>

definition unframe :: "bytes \<Rightarrow> (bytes \<times> bytes) option" where
  "unframe inp = (if length inp < 4 then None
     else let n = be_val (take 4 inp); body = drop 4 inp in if length body < n then None else Some (take n body, drop n body))"

definition server_outcome :: "scram_credential \<Rightarrow> rstr \<Rightarrow> bytes \<Rightarrow> bytes \<Rightarrow> bytes" where
  "server_outcome cred reason am proof = auth_outcome_encode (case verify cred am proof of Some sig \<Rightarrow> AuthOk sig | None \<Rightarrow> Denied reason)"

definition scram_server :: "scram_credential \<Rightarrow> rstr \<Rightarrow> rstr \<Rightarrow> bytes \<Rightarrow> bytes" where
  "scram_server cred snonce reason inp = (case unframe inp of
     None \<Rightarrow> []
   | Some (f1, inp) \<Rightarrow> (case auth_start_decode f1 of
       Inl _ \<Rightarrow> frame_bytes (auth_outcome_encode (Denied reason))
     | Inr a \<Rightarrow>
         if mechanism a \<noteq> ScramSha256 then frame_bytes (auth_outcome_encode (Denied reason))
         else frame_bytes (auth_challenge_encode \<lparr>salt = cred_salt cred, iterations = cred_iterations cred, server_nonce = snonce\<rparr>)
           @ (case unframe inp of
                None \<Rightarrow> []
              | Some (f2, _) \<Rightarrow> (case auth_finish_decode f2 of
                  Inl _ \<Rightarrow> frame_bytes (auth_outcome_encode (Denied reason))
                | Inr fin \<Rightarrow> frame_bytes (server_outcome cred reason
                    (auth_message (username a) (client_nonce a) snonce (cred_salt cred) (cred_iterations cred)) (client_proof fin))))))"

lemma unframe_Nil [simp]: "unframe [] = None"
  by (simp add: unframe_def)

lemma unframe_frame [simp]: "length p \<le> MAX_FRAME_LEN \<Longrightarrow> unframe (frame_bytes p @ rest) = Some (p, rest)"
  using be_val_u32_be[of "length p"] by (simp add: unframe_def frame_bytes_def Let_def MAX_FRAME_LEN_def)

lemma unframe_single [simp]: "length p \<le> MAX_FRAME_LEN \<Longrightarrow> unframe (frame_bytes p) = Some (p, [])"
  using unframe_frame[of p "[]"] by simp

lemma length_nonce:
  assumes "pid < 2 ^ 32"
  shows "length (nonce_text pid n) \<le> 32"
proof -
  have "length (show_nat pid) \<le> 10" using assms by (intro length_show_nat) simp_all
  moreover have "unat n < 2 ^ 64" using unat_bound[of n] by simp
  then have "length (show_nat (unat n)) \<le> 20" by (intro length_show_nat) simp_all
  ultimately show ?thesis by (simp add: nonce_text_def of_str_def)
qed

lemma str_ok_nonce: "pid < 2 ^ 32 \<Longrightarrow> str_ok (nonce_text pid n)"
proof -
  assume "pid < 2 ^ 32"
  moreover have "ascii (nonce_text pid n)" by (simp add: nonce_text_def) (simp add: of_str_def ascii_def)
  ultimately show ?thesis using length_nonce[of pid n] by (simp add: str_ok_def utf8_ok_ascii)
qed

lemma length_scram_start: "length user < 2 ^ 20 \<Longrightarrow> pid < 2 ^ 32 \<Longrightarrow> length (scram_start pid n user) \<le> MAX_FRAME_LEN"
  using length_nonce[of pid n] by (simp add: scram_start_def auth_start_encode_def put_len MAX_FRAME_LEN_def)

lemma outcome_signature:
  assumes "length sig = 32"
  shows "auth_outcome_decode (auth_outcome_encode (AuthOk sig)) = Inr (AuthOk sig)"
    "length (auth_outcome_encode (AuthOk sig)) \<le> MAX_FRAME_LEN"
  using outcome_roundtrip[of "AuthOk sig"] assms by (simp_all add: auth_outcome_encode_def MAX_FRAME_LEN_def)

lemma served_run:
  fixes pw :: rstr
  assumes srv: "served ops sent taken (scram_server cred snonce reason)" and fresh: "sent s = []" "taken s = 0" and c: "cache_ok (salted p)"
    and ok: "str_ok user" "length user < 2 ^ 20" "str_ok snonce" "str_ok reason"
    and small: "length (cred_salt cred) + length snonce + length reason < 2 ^ 20" and pid: "pid < 2 ^ 32"
  defines "ch \<equiv> \<lparr>salt = cred_salt cred, iterations = cred_iterations cred, server_nonce = snonce\<rparr>"
    and "am \<equiv> auth_message user (nonce_text pid (scram_nonce p)) snonce (cred_salt cred) (cred_iterations cred)"
  defines "oframe \<equiv> server_outcome cred reason am (client_proof_of pw (cred_salt cred) (cred_iterations cred) am)"
  shows "\<exists>s' p'. handshake ops pid user pw s p =
      (outcome oframe (\<lambda>sig. if pw \<noteq> [] \<and> server_signature pw (cred_salt cred) (cred_iterations cred) am \<noteq> sig
         then Inl (Err (Auth (of_str ''server signature mismatch''))) else Inr s'), p')
    \<and> scram_server cred snonce reason (sent s') = frame_bytes (auth_challenge_encode ch) @ frame_bytes oframe
    \<and> taken s' = length (scram_server cred snonce reason (sent s'))"
proof -
  let ?start = "scram_start pid (scram_nonce p) user" and ?fin = "scram_finish pid (scram_nonce p) user pw ch" and ?cf = "auth_challenge_encode ch"
  have len: "length ?start \<le> MAX_FRAME_LEN" by (rule length_scram_start[OF ok(2) pid])
  have msg: "scram_message pid (scram_nonce p) user ch = am" by (simp add: scram_message_def am_def ch_def)
  have start: "auth_start_decode ?start = Inr \<lparr>username = user, client_nonce = nonce_text pid (scram_nonce p), mechanism = ScramSha256\<rparr>"
    using auth_start_roundtrip[of "\<lparr>username = user, client_nonce = nonce_text pid (scram_nonce p), mechanism = ScramSha256\<rparr>" "[]"]
      ok(1) str_ok_nonce[OF pid] len by (simp add: scram_start_def fits_def MAX_FRAME_LEN_def)
  have fin: "auth_finish_decode ?fin = Inr \<lparr>client_proof = client_proof_of pw (cred_salt cred) (cred_iterations cred) am\<rparr>"
    using finish_roundtrip[of "\<lparr>client_proof = client_proof_of pw (cred_salt cred) (cred_iterations cred) am\<rparr>"]
    by (simp add: scram_finish_def msg client_proof_of_def) (simp add: ch_def)
  have cd: "auth_challenge_decode ?cf = Inr ch" and cl: "length ?cf \<le> MAX_FRAME_LEN"
    using challenge_roundtrip[of ch] small ok(3) by (simp_all add: ch_def auth_challenge_encode_def put_len len_bytes_def MAX_FRAME_LEN_def)
  have ol: "length oframe \<le> MAX_FRAME_LEN"
    using small by (auto simp: oframe_def server_outcome_def auth_outcome_encode_def put_len len_bytes_def MAX_FRAME_LEN_def verify_iff split: option.split)
  have one: "scram_server cred snonce reason (frame_bytes ?start) = frame_bytes ?cf"
    using start len by (simp add: scram_server_def ch_def)
  have two: "scram_server cred snonce reason (frame_bytes ?start @ frame_bytes ?fin) = frame_bytes ?cf @ frame_bytes oframe"
    using start len fin length_scram_finish[of pid "scram_nonce p" user pw ch] by (simp add: scram_server_def ch_def oframe_def am_def)
  from served_send[OF srv len, of s] fresh obtain s1 where s1: "write_frame (wr ops) s ?start = Inr s1" "sent s1 = frame_bytes ?start" "taken s1 = 0"
    by auto
  from served_recv[OF srv _ cl, of s1 "[]"] s1 one obtain s2 where s2: "read_frame (rd ops) s1 = Inr (?cf, s2)"
    "taken s2 = length (frame_bytes ?cf)" "sent s2 = frame_bytes ?start" by auto
  from served_send[OF srv length_scram_finish, of s2] s2(2,3) obtain s3 where s3: "write_frame (wr ops) s2 ?fin = Inr s3"
    "sent s3 = frame_bytes ?start @ frame_bytes ?fin" "taken s3 = length (frame_bytes ?cf)" by metis
  from served_recv[OF srv _ ol, of s3 "[]"] s3 two obtain s4 where s4: "read_frame (rd ops) s3 = Inr (oframe, s4)"
    "taken s4 = length (frame_bytes ?cf) + length (frame_bytes oframe)" "sent s4 = frame_bytes ?start @ frame_bytes ?fin" by auto
  have "salt ch = cred_salt cred" "iterations ch = cred_iterations cred" by (simp_all add: ch_def)
  with handshake_frames[OF c s1(1) s2(1) cd s3(1) s4(1)] obtain p' where
    "handshake ops pid user pw s p = (outcome oframe (\<lambda>sig. if pw \<noteq> [] \<and> server_signature pw (cred_salt cred) (cred_iterations cred) am \<noteq> sig
         then Inl (Err (Auth (of_str ''server signature mismatch''))) else Inr s4), p')" unfolding msg by metis
  moreover have "scram_server cred snonce reason (sent s4) = frame_bytes ?cf @ frame_bytes oframe" using two s4(3) by (simp only:)
  ultimately show ?thesis using s4(2) by (intro exI[of _ s4] exI[of _ p'] conjI) (simp_all only: length_append)
qed

section \<open>Nonces\<close>

lemma show_nat_inject [simp]: "show_nat m = show_nat n \<longleftrightarrow> m = n"
proof
  assume eq: "show_nat m = show_nat n"
  obtain l where "m < l" "n < l" by (metis less_Suc_eq linorder_neqE_nat)
  then have "Some m = Some n" using radix_digits_show[of m l] radix_digits_show[of n l] eq by metis
  then show "m = n" by (rule option.inject[THEN iffD1])
qed (rule arg_cong)

lemma nonce_text_inject: "nonce_text pid m = nonce_text pid' n \<longleftrightarrow> pid = pid' \<and> m = n"
proof
  assume eq: "nonce_text pid m = nonce_text pid' n"
  have dot: "(0x2E :: u8) \<notin> set (show_nat k)" for k using show_nat_char_facts by blast
  have "show_nat pid @ 0x2E # show_nat (unat m) = show_nat pid' @ 0x2E # show_nat (unat n)"
    using eq by (simp add: nonce_text_def of_str_def)
  then have "split_once 0x2E (show_nat pid @ 0x2E # show_nat (unat m)) = split_once 0x2E (show_nat pid' @ 0x2E # show_nat (unat n))"
    by simp
  then show "pid = pid' \<and> m = n" by (simp add: split_once_append dot word_unat_eq_iff)
qed simp

section \<open>Properties\<close>

text \<open>C20: Whatever two frames a server answers with, the SCRAM handshake succeeds exactly when the second
  one accepts and, if a password was given, carries the signature that only the password, the salt and
  the iteration count of the challenge and this exchange determine. With the empty password, as anonymous
  logins have it, any acceptance will do: the server then proves nothing. In both cases the client has
  sent exactly the start message and the matching proof and has read exactly the two frames. The cache of
  derived keys changes none of it.\<close>

theorem handshake_mutual:
  assumes "duplex ops sent pending" and "cache_state (salted p)"
    and "length (scram_start pid (scram_nonce p) user) \<le> MAX_FRAME_LEN" "length cf \<le> MAX_FRAME_LEN" "length oframe \<le> MAX_FRAME_LEN"
    and "pending s = frame_bytes cf @ frame_bytes oframe @ rest" and "auth_challenge_decode cf = Inr ch"
  shows "(\<exists>s' p'. handshake ops pid user pw s p = (Inr s', p') \<and> pending s' = rest
      \<and> sent s' = sent s @ frame_bytes (scram_start pid (scram_nonce p) user) @ frame_bytes (scram_finish pid (scram_nonce p) user pw ch))
    \<longleftrightarrow> (\<exists>sig. auth_outcome_decode oframe = Inr (AuthOk sig)
      \<and> (pw = [] \<or> sig = server_signature pw (salt ch) (iterations ch) (scram_message pid (scram_nonce p) user ch)))"
  by (rule handshake_iff[OF assms(1) cache_state_ok[OF assms(2)] assms(3-7)])

definition sample_process :: "unit process" where
  "sample_process = \<lparr>scram_nonce = 0, gss_nonce = 0, salted = [], world = ()\<rparr>"

lemma sample_frames:
  "auth_challenge_decode (auth_challenge_encode \<lparr>salt = [1], iterations = 2, server_nonce = [0x73]\<rparr>)
   = Inr \<lparr>salt = [1], iterations = 2, server_nonce = [0x73]\<rparr>"
  "length (auth_challenge_encode \<lparr>salt = [1], iterations = 2, server_nonce = [0x73]\<rparr>) \<le> MAX_FRAME_LEN"
  "length (scram_start 7 0 [0x75]) \<le> MAX_FRAME_LEN"
  by (simp_all add: auth_challenge_encode_def auth_challenge_decode_def put_str_def put_bytes_def reader_new_def cur_new_def
      cur_u8_def cur_take_def cur_bytes_def cur_u32_def cur_array_def cur_string_def le_val_def MAX_FRAME_LEN_def scram_start_def
      auth_start_encode_def nonce_text_def of_str_def show_nat.simps u32_le_def word32_le_def le_bytes_4)

definition sample_challenge :: auth_challenge where
  "sample_challenge = \<lparr>salt = [1], iterations = 2, server_nonce = [0x73]\<rparr>"

definition sample_signature :: bytes where
  "sample_signature = server_signature [0x70] [1] 2 (scram_message 7 0 [0x75] sample_challenge)"

definition sample_transcript :: bytes where
  "sample_transcript = frame_bytes (auth_challenge_encode sample_challenge) @ frame_bytes (auth_outcome_encode (AuthOk sample_signature))"

lemma sample_signature_length: "length sample_signature = 32"
  by (simp add: sample_signature_def)

lemma sample_login:
  "\<exists>s' p'. handshake mem_stream 7 [0x75] [0x70] ([], sample_transcript) sample_process = (Inr s', p')"
proof -
  have "accepted 7 (scram_nonce sample_process) [0x75] [0x70] sample_challenge (auth_outcome_encode (AuthOk sample_signature))"
    using outcome_signature(1)[OF sample_signature_length]
    by (simp add: accepted_def sample_process_def sample_signature_def sample_challenge_def)
  from handshake_accepted(2)[OF mem_stream_duplex _ _ _ _ _ _ this, of "auth_challenge_encode sample_challenge" "([], sample_transcript)" "[]"]
  show ?thesis using sample_frames outcome_signature[OF sample_signature_length]
    by (auto simp: sample_process_def sample_transcript_def sample_challenge_def cache_state_ok[OF cache_state.empty])
qed

theorem handshake_mutual_witness:
  "\<exists>s' p'. handshake mem_stream 7 [0x75] [0x70] ([], sample_transcript) sample_process = (Inr s', p') \<and> snd s' = []"
proof -
  have "\<exists>s' p'. handshake mem_stream 7 [0x75] [0x70] ([], sample_transcript) sample_process = (Inr s', p') \<and> snd s' = []
      \<and> fst s' = fst ([], sample_transcript) @ frame_bytes (scram_start 7 (scram_nonce sample_process) [0x75])
        @ frame_bytes (scram_finish 7 (scram_nonce sample_process) [0x75] [0x70] sample_challenge)"
    by (rule handshake_mutual[THEN iffD2, OF mem_stream_duplex])
      (use sample_frames outcome_signature[OF sample_signature_length] in \<open>simp_all add: sample_process_def sample_challenge_def[symmetric]
        sample_transcript_def cache_state.empty\<close>, simp add: sample_signature_def sample_challenge_def)
  then show ?thesis by blast
qed

text \<open>C21: Login works end to end, over the wire format, the framing and the cryptography, against a server
  that sees nothing but the bytes the client has sent: it reads the first frame as the start message,
  answers with its salt, iteration count and nonce, reads the second frame as the client's proof, verifies
  it against its stored credential and answers with the signature or with a refusal. Where the credential
  was made from the client's password the login succeeds, whatever was cached before, and both frames of
  the server have been read; where the proof the client sends does not verify, the login fails with the
  server's refusal.\<close>

theorem login_completes:
  assumes "served ops sent taken (scram_server cred snonce reason)" and "sent s = []" and "taken s = 0" and "cache_state (salted p)"
    and "str_ok user" and "length user < 2 ^ 20" and "str_ok snonce" and "str_ok reason"
    and "length (cred_salt cred) + length snonce + length reason < 2 ^ 20" and "pid < 2 ^ 32"
    and "am = auth_message user (nonce_text pid (scram_nonce p)) snonce (cred_salt cred) (cred_iterations cred)"
  shows "(cred = credential_new pw (cred_salt cred) (cred_iterations cred) \<longrightarrow>
       (\<exists>s' p' sig. handshake ops pid user pw s p = (Inr s', p') \<and> taken s' = length (scram_server cred snonce reason (sent s'))
          \<and> scram_server cred snonce reason (sent s') = frame_bytes (auth_challenge_encode \<lparr>salt = cred_salt cred,
              iterations = cred_iterations cred, server_nonce = snonce\<rparr>) @ frame_bytes (auth_outcome_encode (AuthOk sig))))
    \<and> (verify cred am (client_proof_of pw (cred_salt cred) (cred_iterations cred) am) = None \<longrightarrow>
       (\<exists>p'. handshake ops pid user pw s p = (Inl (Err (denied reason)), p')))"
proof -
  from served_run[OF assms(1-3) cache_state_ok[OF assms(4)] assms(5-10)] obtain s' p' where
    run: "handshake ops pid user pw s p = (outcome (server_outcome cred reason am (client_proof_of pw (cred_salt cred) (cred_iterations cred) am))
        (\<lambda>sig. if pw \<noteq> [] \<and> server_signature pw (cred_salt cred) (cred_iterations cred) am \<noteq> sig
          then Inl (Err (Auth (of_str ''server signature mismatch''))) else Inr s'), p')"
      "scram_server cred snonce reason (sent s') = frame_bytes (auth_challenge_encode \<lparr>salt = cred_salt cred,
          iterations = cred_iterations cred, server_nonce = snonce\<rparr>)
        @ frame_bytes (server_outcome cred reason am (client_proof_of pw (cred_salt cred) (cred_iterations cred) am))"
      "taken s' = length (scram_server cred snonce reason (sent s'))"
    unfolding assms(11) by metis
  show ?thesis
  proof (intro conjI impI)
    assume "cred = credential_new pw (cred_salt cred) (cred_iterations cred)"
    then have v: "verify cred am (client_proof_of pw (cred_salt cred) (cred_iterations cred) am)
        = Some (server_signature pw (cred_salt cred) (cred_iterations cred) am)" using verify_own_proof by metis
    with run show "\<exists>s' p' sig. handshake ops pid user pw s p = (Inr s', p') \<and> taken s' = length (scram_server cred snonce reason (sent s'))
          \<and> scram_server cred snonce reason (sent s') = frame_bytes (auth_challenge_encode \<lparr>salt = cred_salt cred,
              iterations = cred_iterations cred, server_nonce = snonce\<rparr>) @ frame_bytes (auth_outcome_encode (AuthOk sig))"
      by (intro exI[of _ s'] exI[of _ p']) (auto simp: server_outcome_def outcome_def outcome_signature)
  next
    assume "verify cred am (client_proof_of pw (cred_salt cred) (cred_iterations cred) am) = None"
    then show "\<exists>p'. handshake ops pid user pw s p = (Inl (Err (denied reason)), p')"
      using run(1) outcome_roundtrip[of "Denied reason"] assms(8) by (simp add: server_outcome_def outcome_def)
  qed
qed

theorem login_completes_witness:
  "\<exists>s' p'. handshake (peer_stream (scram_server (credential_new [0x70] [1] 2) [0x73] [0x6E, 0x6F])) 7 [0x75] [0x70] ([], 0) sample_process = (Inr s', p')"
  using login_completes[OF peer_stream_served, of "([], 0)" sample_process "[0x75]" "[0x73]" "[0x6E, 0x6F]" "credential_new [0x70] [1] 2" 7 _ "[0x70]"]
  by (auto simp: sample_process_def cache_state.empty str_ok_def credential_new_def Let_def show_nat.simps)

text \<open>C22: The client's nonces are its process id and a counter that starts at zero: two nonces agree exactly
  when both parts do. So within one process they do not repeat, but the first login of a process has the
  nonce of the first login of every other process with that id, and a server's two frames recorded from
  one of them are accepted again by the other: the signature check does not show that the peer knows the
  password.\<close>

theorem handshake_replay:
  assumes "duplex ops sent pending" and "cache_state (salted p)" and "cache_state (salted q)"
    and "length (scram_start pid (scram_nonce p) user) \<le> MAX_FRAME_LEN" "length cf \<le> MAX_FRAME_LEN" "length oframe \<le> MAX_FRAME_LEN"
    and "pending s = frame_bytes cf @ frame_bytes oframe @ rest" and "auth_challenge_decode cf = Inr ch"
    and "pending t = frame_bytes cf @ frame_bytes oframe"
    and "handshake ops pid user pw s p = (Inr s', p')"
  shows "(nonce_text pid (scram_nonce p) = nonce_text pid' (scram_nonce q) \<longleftrightarrow> pid = pid' \<and> scram_nonce p = scram_nonce q)
    \<and> (scram_nonce q = scram_nonce p \<longrightarrow> (\<exists>t' q'. handshake ops pid user pw t q = (Inr t', q') \<and> pending t' = []))"
proof (intro conjI impI nonce_text_inject)
  assume eq: "scram_nonce q = scram_nonce p"
  have "accepted pid (scram_nonce q) user pw ch oframe"
    unfolding eq by (rule handshake_accepted(1)[OF assms(1) cache_state_ok[OF assms(2)] assms(4-8,10)])
  from handshake_accepted(2)[OF assms(1) cache_state_ok[OF assms(3)] _ assms(5,6) _ assms(8) this] assms(4,9) eq
  show "\<exists>t' q'. handshake ops pid user pw t q = (Inr t', q') \<and> pending t' = []" by (metis append_Nil2)
qed

theorem handshake_replay_witness:
  "\<exists>t' q'. handshake mem_stream 7 [0x75] [0x70] ([9], sample_transcript) (sample_process\<lparr>gss_nonce := 5\<rparr>) = (Inr t', q') \<and> snd t' = []"
proof -
  obtain s' p' where "handshake mem_stream 7 [0x75] [0x70] ([], sample_transcript) sample_process = (Inr s', p')"
    using sample_login by blast
  from handshake_replay[OF mem_stream_duplex _ _ _ _ _ _ _ _ this, of "sample_process\<lparr>gss_nonce := 5\<rparr>"
      "auth_challenge_encode sample_challenge" "auth_outcome_encode (AuthOk sample_signature)" "[]" sample_challenge "([9], sample_transcript)"]
  show ?thesis using sample_frames outcome_signature[OF sample_signature_length]
    by (simp add: sample_process_def sample_transcript_def cache_state.empty sample_challenge_def)
qed

text \<open>Every lookup in the process-wide cache of derived keys returns the key PBKDF2 derives for exactly
  that password, salt and iteration count, in every state concurrent logins can bring the cache to, and
  the cache never holds more than 64 keys.\<close>

theorem salted_cache_correct:
  assumes "cache_state c"
  shows "fst (cached_salted_password pw slt iters c) = salted_password pw slt iters
    \<and> cache_state (snd (cached_salted_password pw slt iters c)) \<and> length c \<le> 64"
proof (intro conjI)
  show "fst (cached_salted_password pw slt iters c) = salted_password pw slt iters" "length c \<le> 64"
    using cached_salted_password_eq[OF cache_state_ok[OF assms], of pw slt iters] cache_state_ok[OF assms]
    by (auto simp: cache_ok_def CACHE_BOUND_def)
  show "cache_state (snd (cached_salted_password pw slt iters c))"
    using assms by (auto simp: cached_salted_password_def Let_def split: option.splits intro: cache_state.store)
qed

theorem salted_cache_correct_witness:
  "fst (cached_salted_password [0x70] [1] 2 [(([0x70], [1], 2), salted_password [0x70] [1] 2)]) = salted_password [0x70] [1] 2"
proof -
  have "cache_state (cache_put ([0x70], [1], 2) (salted_password [0x70] [1] 2) [])" by (rule cache_state.store[OF cache_state.empty])
  then show ?thesis using salted_cache_correct[of "[(([0x70], [1], 2), salted_password [0x70] [1] 2)]" "[0x70]" "[1]" 2]
    by (simp add: cache_put_def CACHE_BOUND_def)
qed

text \<open>The GSSAPI token loop ends on every connection that ends: each round reads a frame, so as many rounds
  as a quarter of the bytes the server still sends are enough, whatever the mechanism answers; the loop
  then has a result or an error, never a panic.\<close>

theorem gss_loop_terminates:
  assumes "duplex ops sent pending" and "length (pending s) div 4 < n"
  shows "clean (gss_loop n ops g ctx s)"
  by (rule gss_loop_clean[OF assms(1)]) (use assms(2) in linarith)

theorem gss_loop_terminates_witness:
  "clean (gss_loop 1 mem_stream \<lparr>gss_new = (\<lambda>_ _. Inl []), gss_step = (\<lambda>(h :: unit) _. Inl [])\<rparr> (Some ()) ([], [0, 0, 0]))"
  by (rule gss_loop_terminates[OF mem_stream_duplex]) simp

end
