(* ===== verification/Sql_Class.thy ===== *)
theory Sql_Class
  imports Text
begin

text \<open>
  Whether a statement counts as a write for read-your-writes affinity (\<^verbatim>\<open>is_write\<close> in \<^verbatim>\<open>src/lib.rs\<close>): the
  scan over whitespace, opening parentheses and comments to the first keyword, with the panic of a string
  slice off a character boundary.
\<close>

section \<open>Definitions\<close>

definition READ_KEYWORDS :: "rstr list" where
  "READ_KEYWORDS = map of_str [''select'', ''show'', ''explain'', ''describe'', ''desc'', ''values'', ''with'', ''use'']"

definition is_ascii_whitespace :: "u8 \<Rightarrow> bool" where
  "is_ascii_whitespace b \<longleftrightarrow> b = 0x20 \<or> b = 0x09 \<or> b = 0x0A \<or> b = 0x0C \<or> b = 0x0D"

definition is_word_byte :: "u8 \<Rightarrow> bool" where
  "is_word_byte b \<longleftrightarrow> (0x41 \<le> b \<and> b \<le> 0x5A) \<or> (0x61 \<le> b \<and> b \<le> 0x7A) \<or> b = 0x5F"

definition lower :: "rstr \<Rightarrow> rstr" where
  "lower s = map (\<lambda>b. if 0x41 \<le> b \<and> b \<le> 0x5A then b + 0x20 else b) s"

text \<open>The rest of the text after a line comment, and after the \<^verbatim>\<open>*/\<close> that closes a block comment.\<close>

fun after_newline :: "rstr \<Rightarrow> rstr" where
  "after_newline [] = []"
| "after_newline (b # bs) = (if b = 0x0A then bs else after_newline bs)"

fun after_close :: "rstr \<Rightarrow> rstr" where
  "after_close (a # b # bs) = (if a = 0x2A \<and> b = 0x2F then bs else after_close (b # bs))"
| "after_close _ = []"

lemma length_after_newline: "length (after_newline bs) \<le> length bs"
  by (induction bs rule: after_newline.induct) auto

lemma length_after_close: "length (after_close bs) \<le> length bs"
  by (induction bs rule: after_close.induct) auto

text \<open>The scan of \<^verbatim>\<open>is_write\<close>: the bytes from position \<open>i\<close> on stand for the position.\<close>

function skip_leading :: "rstr \<Rightarrow> rstr" where
  "skip_leading bs = (case bs of
     [] \<Rightarrow> []
   | b # r \<Rightarrow>
     if is_ascii_whitespace b \<or> b = 0x28 then skip_leading r
     else case r of
       c # r2 \<Rightarrow>
         if b = 0x2D \<and> c = 0x2D then skip_leading (after_newline bs)
         else if b = 0x2F \<and> c = 0x2A then skip_leading (after_close r2)
         else bs
     | [] \<Rightarrow> bs)"
  by pat_completeness auto
termination
proof (relation "measure length", goal_cases)
  case (3 bs b r c r2)
  then show ?case using length_after_newline[of r] by (auto simp: le_imp_less_Suc)
next
  case (4 bs b r c r2)
  then show ?case using length_after_close[of r2] by (auto simp: le_imp_less_Suc less_Suc_eq_le)
qed auto

declare skip_leading.simps [simp del]

text \<open>The slice \<^verbatim>\<open>&sql[i..end]\<close> panics off a character boundary.\<close>

definition is_write :: "rstr \<Rightarrow> (unit, bool) res" where
  "is_write sql =
    (let rest = skip_leading sql;
         i = length sql - length rest;
         word = takeWhile is_word_byte rest
     in rbind (str_slice sql i (i + length word)) (\<lambda>w. Inr (lower w \<notin> set READ_KEYWORDS)))"

section \<open>Lemmas\<close>

text \<open>What may stand before the first keyword.\<close>

datatype lead = Blank u8 | Line rstr | Block rstr

fun has_close :: "rstr \<Rightarrow> bool" where
  "has_close (a # b # bs) = (a = 0x2A \<and> b = 0x2F \<or> has_close (b # bs))"
| "has_close _ = False"

primrec lead_ok :: "lead \<Rightarrow> bool" where
  "lead_ok (Blank b) = (is_ascii_whitespace b \<or> b = 0x28)"
| "lead_ok (Line s) = (0x0A \<notin> set s)"
| "lead_ok (Block s) = (\<not> has_close s)"

primrec lead_text :: "lead \<Rightarrow> rstr" where
  "lead_text (Blank b) = [b]"
| "lead_text (Line s) = [0x2D, 0x2D] @ s @ [0x0A]"
| "lead_text (Block s) = [0x2F, 0x2A] @ s @ [0x2A, 0x2F]"

lemma after_newline_skip: "0x0A \<notin> set s \<Longrightarrow> after_newline (s @ 0x0A # r) = r"
  by (induction s) auto

lemma after_close_skip: "\<not> has_close s \<Longrightarrow> after_close (s @ 0x2A # 0x2F # r) = r"
  by (induction s rule: has_close.induct) (auto split: if_splits)

lemma skip_lead: "lead_ok l \<Longrightarrow> skip_leading (lead_text l @ r) = skip_leading r"
proof (cases l)
  case (Line s)
  assume "lead_ok l"
  then have "after_newline (0x2D # 0x2D # s @ 0x0A # r) = r" using Line after_newline_skip[of "0x2D # 0x2D # s" r] by simp
  then show ?thesis using Line by (simp add: skip_leading.simps[of "0x2D # _"] is_ascii_whitespace_def)
next
  case (Block s)
  assume "lead_ok l"
  then show ?thesis
    using Block after_close_skip[of s r] by (simp add: skip_leading.simps[of "0x2F # _"] is_ascii_whitespace_def)
qed (simp add: skip_leading.simps[of "_ # _"])

lemma skip_leads: "list_all lead_ok ls \<Longrightarrow> skip_leading (concat (map lead_text ls) @ r) = skip_leading r"
  by (induction ls) (simp_all add: skip_lead)

lemma skip_word: "is_word_byte b \<Longrightarrow> skip_leading (b # r) = b # r"
  by (auto simp: skip_leading.simps[of "b # r"] is_word_byte_def is_ascii_whitespace_def split: list.splits)

text \<open>The scan stops at the start, at the end, or behind an ASCII byte; in valid UTF-8 each of these is a
  character boundary.\<close>

definition after_ascii :: "rstr \<Rightarrow> rstr \<Rightarrow> bool" where
  "after_ascii bs rest \<longleftrightarrow> rest = [] \<or> rest = bs \<or> (\<exists>pre a. bs = pre @ a # rest \<and> a < 0x80)"

lemma after_asciiI: "bs = pre @ a # rest \<Longrightarrow> a < 0x80 \<Longrightarrow> after_ascii bs rest"
  by (auto simp: after_ascii_def)

lemma after_ascii_trans:
  assumes "after_ascii bs r1" and "after_ascii r1 r2"
  shows "after_ascii bs r2"
proof -
  have "bs = (p @ a # q) @ b # r2 \<Longrightarrow> b < 0x80 \<Longrightarrow> after_ascii bs r2" for p a q b by (rule after_asciiI)
  with assms show ?thesis by (fastforce simp: after_ascii_def)
qed

lemma after_newline_pos: "after_newline bs = [] \<or> (\<exists>pre. bs = pre @ 0x0A # after_newline bs)"
proof (induction bs)
  case (Cons b bs)
  then show ?case by (cases "b = 0x0A") (auto, metis append_Cons)
qed simp

lemma after_close_pos: "after_close bs = [] \<or> (\<exists>pre. bs = pre @ 0x2A # 0x2F # after_close bs)"
proof (induction bs rule: after_close.induct)
  case (1 a b bs)
  show ?case
  proof (cases "a = 0x2A \<and> b = 0x2F")
    case False
    then have eq: "after_close (a # b # bs) = after_close (b # bs)" by (simp only: after_close.simps if_False)
    show ?thesis
    proof (cases "after_close (b # bs) = []")
      case ne: False
      with "1.IH"[OF False] obtain pre where "b # bs = pre @ 0x2A # 0x2F # after_close (b # bs)" by blast
      then have "a # b # bs = (a # pre) @ 0x2A # 0x2F # after_close (b # bs)" by simp
      then show ?thesis unfolding eq by blast
    qed (simp add: eq)
  qed auto
qed simp_all

lemma after_ascii_newline: "after_ascii bs (after_newline bs)"
proof -
  have "bs = pre @ 0x0A # after_newline bs \<Longrightarrow> after_ascii bs (after_newline bs)" for pre
    by (rule after_asciiI[of _ pre "0x0A"]) simp_all
  then show ?thesis using after_newline_pos[of bs] by (auto simp: after_ascii_def)
qed

lemma after_ascii_close: "after_ascii (a # b # bs) (after_close bs)"
proof -
  have "bs = pre @ 0x2A # 0x2F # after_close bs \<Longrightarrow> after_ascii (a # b # bs) (after_close bs)" for pre
    by (rule after_asciiI[of _ "a # b # pre @ [0x2A]" "0x2F"]) simp_all
  then show ?thesis using after_close_pos[of bs] by (auto simp: after_ascii_def)
qed

lemma skip_leading_pos: "after_ascii bs (skip_leading bs)"
proof (induction bs rule: skip_leading.induct)
  case (1 bs)
  show ?case
  proof (cases bs)
    case Nil
    then show ?thesis by (simp add: skip_leading.simps[of "[]"] after_ascii_def)
  next
    case (Cons b r)
    note eq = skip_leading.simps[of "b # r"]
    have stops: "skip_leading (b # r) = b # r"
      if "\<not> (is_ascii_whitespace b \<or> b = 0x28)" "\<not> (\<exists>r2. b = 0x2D \<and> r = 0x2D # r2)" "\<not> (\<exists>r2. b = 0x2F \<and> r = 0x2A # r2)"
      using that unfolding eq by (auto split: list.splits)
    consider (blank) "is_ascii_whitespace b \<or> b = 0x28" | (line) r2 where "\<not> (is_ascii_whitespace b \<or> b = 0x28)" "b = 0x2D" "r = 0x2D # r2"
      | (block) r2 where "\<not> (is_ascii_whitespace b \<or> b = 0x28)" "b = 0x2F" "r = 0x2A # r2" | (stop) "skip_leading (b # r) = b # r"
      using stops by blast
    then show ?thesis
    proof cases
      case blank
      then have "after_ascii (b # r) r" by (intro after_asciiI[of _ "[]" b]) (auto simp: is_ascii_whitespace_def)
      with blank "1.IH"(1)[OF Cons blank] show ?thesis using after_ascii_trans by (simp add: eq Cons)
    next
      case (line r2)
      then have "skip_leading bs = skip_leading (after_newline bs)" unfolding Cons eq by simp
      then show ?thesis
        using after_ascii_trans[OF after_ascii_newline] "1.IH"(2)[OF Cons line(1) line(3)] line by simp
    next
      case (block r2)
      then have "skip_leading bs = skip_leading (after_close r2)" unfolding Cons eq by simp
      moreover have "after_ascii bs (after_close r2)" unfolding Cons block by (rule after_ascii_close)
      ultimately show ?thesis
        using after_ascii_trans "1.IH"(3)[OF Cons block(1) block(3)] block by simp
    next
      case stop
      then show ?thesis by (simp add: Cons after_ascii_def)
    qed
  qed
qed

lemma utf8_hd: "utf8_ok (c # s) \<Longrightarrow> \<not> utf8_cont c"
  by (auto simp: utf8_cont_def word_le_nat_alt word_less_nat_alt split: if_splits)

lemma utf8_cases [consumes 1, case_names one two three four]:
  assumes "utf8_ok (x # r)"
  obtains "x < 0x80" "utf8_ok r"
  | b r2 where "\<not> x < 0x80" "0xC2 \<le> x \<and> x \<le> 0xDF" "r = b # r2" "utf8_cont b" "utf8_ok r2"
  | b d r3 where "\<not> x < 0x80" "\<not> (0xC2 \<le> x \<and> x \<le> 0xDF)" "0xE0 \<le> x \<and> x \<le> 0xEF" "r = b # d # r3" "utf8_cont b" "utf8_cont d" "utf8_ok r3"
  | b d e r4 where "\<not> x < 0x80" "\<not> (0xC2 \<le> x \<and> x \<le> 0xDF)" "\<not> (0xE0 \<le> x \<and> x \<le> 0xEF)" "0xF0 \<le> x \<and> x \<le> 0xF4"
      "r = b # d # e # r4" "utf8_cont b" "utf8_cont d" "utf8_cont e" "utf8_ok r4"
proof (cases "x < 0x80")
  case True
  with assms that(1) show thesis by simp
next
  case n1: False
  show thesis
  proof (cases "0xC2 \<le> x \<and> x \<le> 0xDF")
    case True
    with n1 assms that(2)[OF n1 True] show thesis by (cases r) simp_all
  next
    case n2: False
    show thesis
    proof (cases "0xE0 \<le> x \<and> x \<le> 0xEF")
      case True
      with n1 n2 assms that(3)[OF n1 n2 True] show thesis by (cases r; cases "tl r") simp_all
    next
      case n3: False
      with n1 n2 assms have f: "0xF0 \<le> x \<and> x \<le> 0xF4" by (simp only: utf8_ok.simps if_False split: if_splits)
      with n1 n2 n3 assms that(4)[OF n1 n2 n3 f] show thesis by (cases r; cases "tl r"; cases "tl (tl r)") simp_all
    qed
  qed
qed

lemma utf8_after_ascii: "utf8_ok s \<Longrightarrow> s = pre @ a # c # rest \<Longrightarrow> a < 0x80 \<Longrightarrow> \<not> utf8_cont c"
proof (induction s arbitrary: pre rule: utf8_ok.induct)
  case (2 x r)
  have na: "\<not> utf8_cont a" using "2.prems"(3) leD by (auto simp: utf8_cont_def)
  show ?case
  proof (cases pre)
    case Nil
    with "2.prems" have "x = a" "utf8_ok r" "r = c # rest" by auto
    then show ?thesis using utf8_hd by blast
  next
    case (Cons y p)
    with "2.prems"(2) have r: "r = p @ a # c # rest" by simp
    from "2.prems"(1) show ?thesis
    proof (cases rule: utf8_cases)
      case one
      then show ?thesis using "2.IH"(1) r "2.prems"(3) by blast
    next
      case (two b r2)
      then obtain q where "p = b # q" using r na by (cases p) auto
      then show ?thesis using "2.IH"(2)[OF two(1,2,3,5), of q] two r "2.prems"(3) by simp
    next
      case (three b d r3)
      then obtain q where "p = b # d # q" using r na by (cases p; cases "tl p") auto
      then show ?thesis using "2.IH"(3)[OF three(1-3) three(4) refl three(7), of q] three r "2.prems"(3) by simp
    next
      case (four b d e r4)
      then obtain q where "p = b # d # e # q" using r na by (cases p; cases "tl p"; cases "tl (tl p)") auto
      then show ?thesis using "2.IH"(4)[OF four(1-4) four(5) refl refl four(9), of q] four r "2.prems"(3) by simp
    qed
  qed
qed simp

lemma after_ascii_drop: "after_ascii s rest \<Longrightarrow> drop (length s - length rest) s = rest"
  by (auto simp: after_ascii_def)

lemma after_ascii_boundary:
  assumes "utf8_ok s" and "after_ascii s rest"
  shows "is_char_boundary s (length s - length rest)"
  using assms(2) unfolding after_ascii_def
proof (elim disjE exE conjE)
  fix pre a assume s: "s = pre @ a # rest" and a: "a < 0x80"
  show ?thesis
  proof (cases rest)
    case (Cons c r)
    then have "\<not> utf8_cont c" using utf8_after_ascii[OF assms(1), of pre a c r] s a by simp
    with s Cons show ?thesis by (simp add: is_char_boundary_def nth_append)
  qed (simp add: is_char_boundary_def)
qed (simp_all add: is_char_boundary_def)

lemma word_ascii: "is_word_byte b \<Longrightarrow> b < 0x80"
  by (auto simp: is_word_byte_def word_le_nat_alt word_less_nat_alt)

lemma word_boundary:
  assumes "utf8_ok s" and "after_ascii s rest"
  shows "is_char_boundary s (length s - length rest + length (takeWhile is_word_byte rest))"
proof (cases "takeWhile is_word_byte rest = []")
  case True
  then show ?thesis using after_ascii_boundary[OF assms] by simp
next
  case False
  let ?w = "takeWhile is_word_byte rest" and ?d = "dropWhile is_word_byte rest"
  have split: "rest = butlast ?w @ last ?w # ?d" using False by (metis append.assoc append_Cons append_Nil append_butlast_last_id takeWhile_dropWhile_id)
  have "last ?w < 0x80" using False by (meson last_in_set set_takeWhileD word_ascii)
  then have "after_ascii rest ?d" using split by (blast intro: after_asciiI)
  then have "is_char_boundary s (length s - length ?d)" using after_ascii_boundary after_ascii_trans assms by blast
  moreover have "length rest \<le> length s" using assms(2) by (auto simp: after_ascii_def)
  moreover have "length rest = length ?w + length ?d" by (metis length_append takeWhile_dropWhile_id)
  ultimately show ?thesis by (simp add: algebra_simps)
qed

lemma is_write_eq:
  assumes "utf8_ok sql"
  shows "is_write sql = Inr (lower (takeWhile is_word_byte (skip_leading sql)) \<notin> set READ_KEYWORDS)"
proof -
  let ?rest = "skip_leading sql"
  have pos: "after_ascii sql ?rest" by (rule skip_leading_pos)
  then have "drop (length sql - length ?rest) sql = ?rest" by (rule after_ascii_drop)
  then have "take (length (takeWhile is_word_byte ?rest)) (drop (length sql - length ?rest) sql) = takeWhile is_word_byte ?rest"
    by (metis takeWhile_eq_take)
  with after_ascii_boundary[OF assms pos] word_boundary[OF assms pos] show ?thesis
    by (simp add: is_write_def Let_def str_slice_def)
qed

section \<open>Properties\<close>

text \<open>Classifying a statement never panics on a Rust string, and looks at the first keyword
  behind any mixture of blanks, opening parentheses, line comments and block comments: the statement is
  a write exactly when that keyword, in any case, is not one of the reading keywords.\<close>

theorem is_write_first_keyword:
  assumes "utf8_ok (concat (map lead_text ls) @ w @ rest)" and "list_all lead_ok ls" and "w \<noteq> []"
    and "list_all is_word_byte w" and "rest = [] \<or> \<not> is_word_byte (hd rest)"
  shows "is_write (concat (map lead_text ls) @ w @ rest) = Inr (lower w \<notin> set READ_KEYWORDS)"
proof -
  obtain b v where w: "w = b # v" using assms(3) by (cases w) auto
  have "skip_leading (concat (map lead_text ls) @ w @ rest) = w @ rest"
    unfolding skip_leads[OF assms(2)] using assms(4) skip_word[of b "v @ rest"] by (simp add: w)
  moreover have "takeWhile is_word_byte (w @ rest) = w"
    using assms(4,5) by (cases rest) (auto simp: list_all_iff)
  ultimately show ?thesis using is_write_eq[OF assms(1)] by simp
qed

theorem is_write_first_keyword_witness:
  "is_write (of_str ''/* s */ -- x'' @ [0x0A] @ of_str ''(SeLect 1)'') = Inr False"
proof -
  let ?ls = "[Block (of_str '' s ''), Blank 0x20, Line (of_str '' x''), Blank 0x28]"
  have "is_write (concat (map lead_text ?ls) @ of_str ''SeLect'' @ of_str '' 1)'') = Inr (lower (of_str ''SeLect'') \<notin> set READ_KEYWORDS)"
    by (rule is_write_first_keyword) (simp_all add: of_str_def is_ascii_whitespace_def is_word_byte_def)
  then show ?thesis by (simp add: of_str_def lower_def READ_KEYWORDS_def)
qed

text \<open>Classifying never panics on valid text, whatever it holds.\<close>

theorem is_write_total: "utf8_ok sql \<Longrightarrow> \<exists>b. is_write sql = Inr b"
  by (simp add: is_write_eq)

theorem is_write_total_witness: "\<exists>b. is_write [0x2D, 0x2D, 0xC3, 0xA9] = Inr b"
  by (rule is_write_total) (simp add: utf8_cont_def)

end
