(* ===== verification/Pool_Life.thy ===== *)
theory Pool_Life
  imports Discovery Sql_Class
begin

text \<open>
  The life of a balanced pool (\<^verbatim>\<open>src/lib.rs\<close>): what connections do to it, as a step relation whose steps
  are the regions of the code that hold the pool's lock. Threads interleave between steps. The
  connections in the callers' hands are part of the state. The invariant bounds the idle set and the
  counters whatever the interleaving.
\<close>

section \<open>What a connection does\<close>

text \<open>The end of \<^verbatim>\<open>checkout\<close>: the connection counts against its member.\<close>

definition check_out :: "rstr option \<Rightarrow> 's client \<times> ('s, 'f) balancer_state \<Rightarrow> 's client \<times> ('s, 'f) balancer_state" where
  "check_out key = (\<lambda>(c, st). case link c of
     None \<Rightarrow> (c, st)
   | Some l \<Rightarrow> (c\<lparr>link := Some (l\<lparr>link_out := True, link_affinity := key\<rparr>)\<rparr>,
       st\<lparr>members := bt_update (link_member l) (\<lambda>m. m\<lparr>in_use := in_use m + 1\<rparr>) (members st)\<rparr>))"

definition drop_client :: "'s client \<Rightarrow> ('s, 'f) balancer_state \<Rightarrow> ('s, 'f) balancer_state" where
  "drop_client c st = (case link c of Some l \<Rightarrow> (if link_out l then closed_out (link_member l) st else st) | None \<Rightarrow> st)"

definition observed_ok :: "'f f64_ops \<Rightarrow> 'f pool_options \<Rightarrow> sysin \<Rightarrow> duration \<Rightarrow> 's client \<times> ('s, 'f) balancer_state
    \<Rightarrow> 's client \<times> ('s, 'f) balancer_state" where
  "observed_ok F o0 t elapsed = (\<lambda>(c, st). case link c of
     None \<Rightarrow> (c, st)
   | Some l \<Rightarrow> (case round_trip F o0 t (connected c) elapsed (l\<lparr>broken := False\<rparr>, st) of (l, st) \<Rightarrow> (c\<lparr>link := Some l\<rparr>, st)))"

definition transport_failed :: "'f pool_options \<Rightarrow> sysin \<Rightarrow> 's client \<times> ('s, 'f) balancer_state \<Rightarrow> 's client \<times> ('s, 'f) balancer_state" where
  "transport_failed o0 t = (\<lambda>(c, st). case link c of
     None \<Rightarrow> (c, st)
   | Some l \<Rightarrow> (c\<lparr>link := Some (l\<lparr>broken := True\<rparr>)\<rparr>, failed o0 t (connected c) st))"

text \<open>The success branch of \<^verbatim>\<open>reconnect\<close> before anything is sent: another stream, another member.\<close>

definition reconnected :: "rstr list \<Rightarrow> rstr \<Rightarrow> 's \<Rightarrow> 's client \<times> ('s, 'f) balancer_state \<Rightarrow> 's client \<times> ('s, 'f) balancer_state" where
  "reconnected ordered ep strm = (\<lambda>(c, st).
     let c = c\<lparr>stream := strm, connected := ep, client_endpoints := ordered\<rparr> in
     case link c of
       None \<Rightarrow> (c, st)
     | Some l \<Rightarrow> (case moved ep (l\<lparr>broken := False\<rparr>, st) of (l, st) \<Rightarrow> (c\<lparr>link := Some l\<rparr>, st)))"

section \<open>Writes\<close>

definition observe_statement :: "'f pool_options \<Rightarrow> sysin \<Rightarrow> bool \<Rightarrow> 's client \<Rightarrow> ('s, 'f) balancer_state \<Rightarrow> ('s, 'f) balancer_state" where
  "observe_statement o0 t writes c st = (case link c of
     Some l \<Rightarrow> (if link_out l \<and> read_your_writes o0 \<noteq> 0 \<and> writes then wrote o0 t (link_affinity l) (connected c) st else st)
   | None \<Rightarrow> st)"

section \<open>Steps\<close>

text \<open>A pool and the connections it has handed out or is about to.\<close>

type_synonym ('s, 'f) world = "('s, 'f) balancer_state \<times> 's client list"

inductive pool_step :: "nat \<Rightarrow> 'f f64_ops \<Rightarrow> 'f pool_options \<Rightarrow> ('s, 'f) world \<Rightarrow> ('s, 'f) world \<Rightarrow> bool"
  for self F o0 where
  take: "\<not> closed st \<Longrightarrow> pick F o0 t key st = (target, st1) \<Longrightarrow> take_idle o0 target st1 = (Some c, dropped, st2) \<Longrightarrow>
    pool_step self F o0 (st, held) (st2, held @ [c])"
| none_idle: "\<not> closed st \<Longrightarrow> pick F o0 t key st = (target, st1) \<Longrightarrow> take_idle o0 target st1 = (None, dropped, st2) \<Longrightarrow>
    order target None st2 = (eps, st3) \<Longrightarrow> pool_step self F o0 (st, held) (st3, held)"
| dial_failed: "pool_step self F o0 (st, held) (failed o0 t ep st, held)"
| dialled: "link c = Some ((link_new self)\<lparr>link_member := ep\<rparr>) \<Longrightarrow> pool_step self F o0 (st, held) (st, held @ [c])"
| discover: "pool_step self F o0 (st, held) (snd (discover_through o0 t ep st), held)"
| list: "discover o0 \<Longrightarrow> pool_step self F o0 (st, held) (list_through o0 t ep answer st, held)"
| out: "i < length held \<Longrightarrow> link (held ! i) = Some l \<Longrightarrow> \<not> link_out l \<Longrightarrow> check_out key (held ! i, st) = (c, st') \<Longrightarrow>
    pool_step self F o0 (st, held) (st', held[i := c])"
| answered: "i < length held \<Longrightarrow> observed_ok F o0 t d (held ! i, st) = (c, st') \<Longrightarrow> pool_step self F o0 (st, held) (st', held[i := c])"
| broke: "i < length held \<Longrightarrow> transport_failed o0 t (held ! i, st) = (c, st') \<Longrightarrow> pool_step self F o0 (st, held) (st', held[i := c])"
| redial: "order None (Some lost) st = (eps, st') \<Longrightarrow> pool_step self F o0 (st, held) (st', held)"
| redialled: "i < length held \<Longrightarrow> reconnected eps ep strm (held ! i, st) = (c, st') \<Longrightarrow> pool_step self F o0 (st, held) (st', held[i := c])"
| statement: "i < length held \<Longrightarrow> pool_step self F o0 (st, held) (observe_statement o0 t w (held ! i) st, held)"
| checkin: "i < length held \<Longrightarrow> pool_step self F o0 (st, held) (checkin self o0 (held ! i) st, remove_at i held)"
| drop: "i < length held \<Longrightarrow> pool_step self F o0 (st, held) (drop_client (held ! i) st, remove_at i held)"
| tick: "tick o0 t st = Some (eps, refresh, st') \<Longrightarrow> pool_step self F o0 (st, held) (st', held)"
| probed: "pool_step self F o0 (st, held) (probe_done self o0 t ep result st, held)"
| refresh_failed: "pool_step self F o0 (st, held) (st\<lparr>next_refresh := now (t :: sysin) + refresh_interval o0\<rparr>, held)"
| close: "pool_step self F o0 (st, held) (close st, held)"
| uses: "i < length held \<Longrightarrow> link c = link (held ! i) \<Longrightarrow> pool_step self F o0 (st, held) (st, held[i := c])"

inductive reachable :: "nat \<Rightarrow> 'f f64_ops \<Rightarrow> 'f pool_options \<Rightarrow> ('s, 'f) world \<Rightarrow> bool" for self F o0 where
  built: "b_options b = o0 \<Longrightarrow> build F t hash b = Inr st \<Longrightarrow> reachable self F o0 (st, [])"
| stepped: "reachable self F o0 w \<Longrightarrow> pool_step self F o0 w w' \<Longrightarrow> reachable self F o0 w'"

section \<open>The invariant\<close>

definition counted :: "rstr \<Rightarrow> 's client \<Rightarrow> bool" where
  "counted ep c \<longleftrightarrow> (case link c of Some l \<Rightarrow> link_out l \<and> link_member l = ep | None \<Rightarrow> False)"

definition out_count :: "'s client list \<Rightarrow> rstr \<Rightarrow> nat" where
  "out_count held ep = length (filter (counted ep) held)"

definition member_ok :: "'f member \<Rightarrow> bool" where
  "member_ok m \<longleftrightarrow> listed m \<noteq> Ejected \<and> (ejected_until m \<noteq> None \<longrightarrow> 0 < ejections m)"

definition idle_ok :: "nat \<Rightarrow> 's client \<Rightarrow> bool" where
  "idle_ok self c \<longleftrightarrow> (case link c of Some l \<Rightarrow> link_pool l = self \<and> \<not> link_out l \<and> \<not> broken l | None \<Rightarrow> False)"

definition held_ok :: "nat \<Rightarrow> 's client \<Rightarrow> bool" where
  "held_ok self c \<longleftrightarrow> (case link c of Some l \<Rightarrow> link_pool l = self | None \<Rightarrow> False)"

definition members_inv :: "(rstr \<Rightarrow> nat) \<Rightarrow> 'f members \<Rightarrow> bool" where
  "members_inv cnt ms \<longleftrightarrow> bt_sorted ms \<and> (\<exists>ep m. bt_get ms ep = Some m \<and> seed m)
     \<and> (\<forall>ep m. bt_get ms ep = Some m \<longrightarrow> in_use m \<le> cnt ep \<and> member_ok m)"

definition idle_inv :: "nat \<Rightarrow> 'f pool_options \<Rightarrow> ('s, 'f) balancer_state \<Rightarrow> bool" where
  "idle_inv self o0 st \<longleftrightarrow> length (idle st) \<le> maxsize o0 \<and> (closed st \<longrightarrow> idle st = []) \<and> (\<forall>c \<in> set (idle st). idle_ok self c)"

definition pool_inv :: "nat \<Rightarrow> 'f pool_options \<Rightarrow> ('s, 'f) world \<Rightarrow> bool" where
  "pool_inv self o0 = (\<lambda>(st, held). members_inv (out_count held) (members st) \<and> idle_inv self o0 st
     \<and> (\<forall>c \<in> set held. held_ok self c) \<and> rng st \<noteq> 0)"

section \<open>Preservation: members\<close>

lemma members_invI [wf_intros]:
  assumes "bt_sorted ms" and "\<exists>ep m. bt_get ms ep = Some m \<and> seed m"
    and "\<And>ep m. bt_get ms ep = Some m \<Longrightarrow> in_use m \<le> cnt ep \<and> member_ok m"
  shows "members_inv cnt ms"
  using assms by (auto simp: members_inv_def)

lemma members_inv_update:
  assumes "members_inv cnt ms"
    and "\<And>m. bt_get ms ep = Some m \<Longrightarrow> in_use m \<le> cnt ep \<Longrightarrow> member_ok m \<Longrightarrow> seed (f m) = seed m \<and> in_use (f m) \<le> cnt' ep \<and> member_ok (f m)"
    and "\<And>k. k \<noteq> ep \<Longrightarrow> cnt k \<le> cnt' k"
  shows "members_inv cnt' (bt_update ep f ms)"
proof (rule members_invI)
  show "bt_sorted (bt_update ep f ms)" using assms(1) by (simp add: members_inv_def)
  obtain k m where k: "bt_get ms k = Some m" "seed m" using assms(1) by (auto simp: members_inv_def)
  then show "\<exists>k m. bt_get (bt_update ep f ms) k = Some m \<and> seed m"
    using assms(1) assms(2)[of m] by (intro exI[of _ k]) (auto simp: members_inv_def)
  fix k m assume "bt_get (bt_update ep f ms) k = Some m"
  then show "in_use m \<le> cnt' k \<and> member_ok m"
    using assms(1,2) le_trans[OF _ assms(3)[of k]] by (fastforce simp: members_inv_def split: if_splits)
qed

text \<open>An update that touches neither the seed flag nor the count.\<close>

lemma members_inv_touch:
  "members_inv cnt ms \<Longrightarrow> (\<And>m. member_ok m \<Longrightarrow> seed (f m) = seed m \<and> in_use (f m) = in_use m \<and> member_ok (f m)) \<Longrightarrow>
   members_inv cnt (bt_update ep f ms)"
  by (rule members_inv_update) auto

lemma members_inv_replace:
  "members_inv cnt ms \<Longrightarrow> bt_get ms ep = Some m \<Longrightarrow> (member_ok m \<Longrightarrow> seed m' = seed m \<and> in_use m' = in_use m \<and> member_ok m') \<Longrightarrow>
   members_inv cnt (bt_update ep (\<lambda>_. m') ms)"
  by (rule members_inv_update) (auto simp: members_inv_def)

lemma members_inv_mono: "members_inv cnt ms \<Longrightarrow> (\<And>k. cnt k \<le> cnt' k) \<Longrightarrow> members_inv cnt' ms"
  by (auto simp: members_inv_def intro: le_trans)

lemma eject_member_ok: "seed (eject_member o0 t m) = seed m" "in_use (eject_member o0 t m) = in_use m"
  "listed (eject_member o0 t m) = listed m" "0 < ejections (eject_member o0 t m)"
  by (simp_all add: eject_member_def Let_def sat_u32_def U32_MAX_def)

lemma members_inv_eject: "members_inv cnt (members st) \<Longrightarrow> members_inv cnt (members (eject o0 t ep st))"
  by (auto simp: members_eject member_ok_def eject_member_ok intro!: members_inv_touch)

lemma members_inv_failed:
  assumes "members_inv cnt (members st)"
  shows "members_inv cnt (members (failed o0 t ep st))"
proof (cases "bt_get (members st) ep")
  case (Some m)
  then have "members_inv cnt (bt_update ep (\<lambda>_. m\<lparr>errors := sat_u32 (errors m + 1)\<rparr>) (members st))"
    using assms by (intro members_inv_replace) (auto simp: member_ok_def)
  then show ?thesis
    using members_inv_eject[of cnt "st\<lparr>members := bt_update ep (\<lambda>_. m\<lparr>errors := sat_u32 (errors m + 1)\<rparr>) (members st)\<rparr>"] Some
    by (simp add: failed_def Let_def)
qed (use assms in \<open>simp add: failed_def\<close>)

lemma sampled_ok: "seed (sampled F a b t m) = seed m" "in_use (sampled F a b t m) = in_use m"
  "member_ok (sampled F a b t m) = member_ok m"
  by (simp_all add: sampled_def Let_def member_ok_def split: option.splits)

lemma members_inv_round_trip:
  assumes "reattribute conn (l, st) = (l1, st1)" and "members_inv cnt (members st1)"
  shows "members_inv cnt (members (snd (round_trip F o0 t conn d (l, st))))"
proof (cases "bt_get (members st1) conn")
  case (Some m)
  let ?st = "st1\<lparr>members := bt_update conn (\<lambda>_. sampled F (f_secs F (eject_latency_floor o0)) (f_secs F d) (now t) m) (members st1)\<rparr>"
  have "members_inv cnt (members ?st)"
    using assms(2) Some by (simp add: members_inv_replace sampled_ok)
  with members_inv_eject[of cnt ?st] show ?thesis
    using assms(1) Some by (simp add: round_trip_def Let_def split: option.splits)
qed (use assms in \<open>simp add: round_trip_def\<close>)

section \<open>Preservation: listings\<close>

text \<open>A property of members that every phase of a listing keeps.\<close>

lemma apply_listing_forall:
  assumes "bt_sorted ms" and "\<And>ep m. bt_get ms ep = Some m \<Longrightarrow> P ep m" and "\<And>ep. P ep (member_new False)"
    and "\<And>ep m x. P ep m \<Longrightarrow> P ep (m\<lparr>canonical := x\<rparr>)"
    and "\<And>ep m s. P ep m \<Longrightarrow> s \<noteq> Ejected \<Longrightarrow> P ep (set_listed s m)" and "\<And>ep m. P ep m \<Longrightarrow> P ep (m\<lparr>listed := Unlisted\<rparr>)"
  shows "bt_get (apply_listing dialed rows ms) ep = Some m \<Longrightarrow> P ep m"
proof -
  define ok where "ok ms \<longleftrightarrow> bt_sorted ms \<and> (\<forall>ep m. bt_get ms ep = Some m \<longrightarrow> P ep m)" for ms
  define lok where "lok lst \<longleftrightarrow> (\<forall>x \<in> set lst. snd x \<noteq> Ejected)" for lst :: "(rstr \<times> member_state) list"
  have row: "ok (snd (listing_row dialed r p)) \<and> lok (fst (listing_row dialed r p))" if "ok (snd p)" "lok (fst p)" for r p
    using that assms(4) set_put_listed
    by (auto simp: ok_def lok_def listing_row_def row_state_def split: prod.splits option.splits val.splits if_splits dest!: set_put_listed)
  have "ok (snd (fold (listing_row dialed) rows p)) \<and> lok (fst (fold (listing_row dialed) rows p))" if "ok (snd p)" "lok (fst p)" for p
    using that by (intro fold_invariant[where Q = "\<lambda>_. True" and P = "\<lambda>p. ok (snd p) \<and> lok (fst p)"] row) auto
  from this[of "([], ms)"] obtain lst ms1 where 1: "fold (listing_row dialed) rows ([], ms) = (lst, ms1)" "ok ms1" "lok lst"
    using assms(1,2) by (cases "fold (listing_row dialed) rows ([], ms)") (auto simp: ok_def lok_def)
  have 2: "ok (drop_duplicates names ms1)" for names
    using 1(2) by (auto simp: ok_def get_drop_duplicates drop_duplicates_def[symmetric] split: option.splits if_splits)
       (simp add: drop_duplicates_def)
  have upd: "ok (bt_update k f ms)" if "ok ms" "\<And>m. P k m \<Longrightarrow> P k (f m)" for k f ms
    using that by (auto simp: ok_def split: if_splits)
  have step: "ok (fst (listed_step names x p))" if "ok (fst p)" "snd x \<noteq> Ejected" for names x p
  proof -
    obtain e s q seen where xp: "x = (e, s)" "p = (q, seen)" by (metis surj_pair)
    let ?ins = "if bt_get q e = None then bt_insert e (member_new False) q else q"
    have "ok ?ins" using that(1) assms(3) xp by (auto simp: ok_def split: if_splits)
    then have "ok (bt_update e (\<lambda>m. m\<lparr>canonical := Some e\<rparr>) ?ins)" by (rule upd) (rule assms(4))
    then show ?thesis
      using that xp by (auto simp: listed_step_def Let_def intro!: upd assms(5) split: option.splits if_splits)
  qed
  have "ok (fst (fold (listed_step names) lst p))" if "ok (fst p)" for names p
    using that 1(3) by (intro fold_invariant[where Q = "\<lambda>x. snd x \<noteq> Ejected" and P = "\<lambda>p. ok (fst p)"] step) (auto simp: lok_def)
  from this[of "(drop_duplicates (by_name ms1) ms1, [])" "by_name ms1"] 2
  obtain ms3 seen where 3: "fold (listed_step (by_name ms1)) lst (drop_duplicates (by_name ms1) ms1, []) = (ms3, seen)" "ok ms3"
    by (cases "fold (listed_step (by_name ms1)) lst (drop_duplicates (by_name ms1) ms1, [])") auto
  have "apply_listing dialed rows ms = drop_unlisted seen ms3" by (simp add: apply_listing_def 1 3)
  then show "bt_get (apply_listing dialed rows ms) ep = Some m \<Longrightarrow> P ep m"
    using 3(2) assms(6) by (auto simp: ok_def get_drop_unlisted split: option.splits if_splits)
qed

lemma members_inv_apply_listing:
  assumes "members_inv cnt ms"
  shows "members_inv cnt (apply_listing dialed rows ms)"
proof (rule members_invI)
  have srt: "bt_sorted ms" using assms by (simp add: members_inv_def)
  then show "bt_sorted (apply_listing dialed rows ms)" by simp
  obtain ep m where "bt_get ms ep = Some m" "seed m" using assms by (auto simp: members_inv_def)
  with some_seed_survives[OF srt this] show "\<exists>ep m. bt_get (apply_listing dialed rows ms) ep = Some m \<and> seed m" by blast
  fix ep m assume "bt_get (apply_listing dialed rows ms) ep = Some m"
  then show "in_use m \<le> cnt ep \<and> member_ok m"
    by (rule apply_listing_forall[OF srt, where P = "\<lambda>ep m. in_use m \<le> cnt ep \<and> member_ok m", rotated -1])
      (use assms in \<open>auto simp: members_inv_def member_ok_def member_new_def set_listed_def reset_latency_def Let_def\<close>)
qed

section \<open>Preservation: the idle set\<close>

lemma pick_rng: "pick F o0 t key st = (r, st') \<Longrightarrow> rng st \<noteq> 0 \<Longrightarrow> rng st' \<noteq> 0"
proof -
  assume p: "pick F o0 t key st = (r, st')" and r: "rng st \<noteq> 0"
  obtain a st1 where a: "pick_affinity o0 t key st = (a, st1)" by fastforce
  then have r1: "rng st1 \<noteq> 0" using pick_affinity_frame[OF a] r by simp
  obtain i r2 where i: "below (length (usable_members st1)) (rng st1) = (i, r2)" by fastforce
  obtain j r3 where j: "below (length (usable_members st1) - 1) r2 = (j, r3)" by fastforce
  have "r3 \<noteq> 0"
    using below_rng[of "length (usable_members st1)" "rng st1"] below_rng[of "length (usable_members st1) - 1" r2]
      next_u64_nonzero[OF r1] next_u64_nonzero[of r2] i j by simp
  with p a r1 i j show "rng st' \<noteq> 0" by (auto simp: pick_def Let_def split: option.splits if_splits)
qed

lemma order_frame: "order f x st = (eps, st') \<Longrightarrow> members st' = members st \<and> idle st' = idle st \<and> closed st' = closed st \<and> (rng st \<noteq> 0 \<longrightarrow> rng st' \<noteq> 0)"
  by (auto simp: order_def Let_def case_prod_unfold shuffle_rng_nonzero)

lemma frame_eject [simp]: "idle (eject o0 t ep st) = idle st" "closed (eject o0 t ep st) = closed st" "rng (eject o0 t ep st) = rng st"
  by (simp_all add: eject_def ensure_maintainer_def)

lemma frame_failed [simp]: "idle (failed o0 t ep st) = idle st" "closed (failed o0 t ep st) = closed st" "rng (failed o0 t ep st) = rng st"
  by (simp_all add: failed_def Let_def split: option.splits)

lemma frame_reattribute: "reattribute conn (l, st) = (l', st') \<Longrightarrow>
  idle st' = idle st \<and> closed st' = closed st \<and> rng st' = rng st \<and> link_pool l' = link_pool l \<and> link_out l' = link_out l \<and> link_member l' = conn"
  by (auto simp: reattribute_def Let_def split: if_splits)

lemma frame_round_trip: "round_trip F o0 t conn d (l, st) = (l', st') \<Longrightarrow> reattribute conn (l, st) = (l1, st1) \<Longrightarrow>
  idle st' = idle st \<and> closed st' = closed st \<and> rng st' = rng st \<and> l' = l1"
  using frame_reattribute[of conn l st l1 st1]
  by (auto simp: round_trip_def Let_def split: option.splits if_splits)

lemma idle_inv_cong:
  "idle_inv self o0 st \<Longrightarrow> idle st' = idle st \<Longrightarrow> closed st' = closed st \<Longrightarrow> idle_inv self o0 st'"
  by (simp add: idle_inv_def)

lemma idle_inv_subset:
  assumes "idle_inv self o0 st" and "subseq (idle st') (idle st)" and "closed st' = closed st"
  shows "idle_inv self o0 st'"
proof -
  have "length (idle st') \<le> length (idle st)" using assms(2) by (rule list_emb_length)
  moreover have "set (idle st') \<subseteq> set (idle st)" 
  proof
    fix x assume "x \<in> set (idle st')"
    with assms(2) show "x \<in> set (idle st)" by (auto elim: list_emb_set)
  qed
  ultimately show ?thesis using assms(1,3) by (auto simp: idle_inv_def)
qed

section \<open>Preservation: counts\<close>

lemma out_count_append [simp]: "out_count (xs @ [c]) ep = out_count xs ep + (if counted ep c then 1 else 0)"
  by (simp add: out_count_def)

lemma out_count_remove:
  assumes "i < length held"
  shows "out_count held ep = out_count (remove_at i held) ep + (if counted ep (held ! i) then 1 else 0)"
proof -
  have "held = take i held @ held ! i # drop (Suc i) held" using assms by (rule id_take_nth_drop)
  then have "out_count held ep = length (filter (counted ep) (take i held @ held ! i # drop (Suc i) held))"
    by (simp only: out_count_def)
  then show ?thesis by (simp add: out_count_def remove_at_def)
qed

lemma out_count_update:
  assumes "i < length held"
  shows "out_count (held[i := c]) ep + (if counted ep (held ! i) then 1 else 0) = out_count held ep + (if counted ep c then 1 else 0)"
proof -
  have "held[i := c] = take i held @ c # drop (Suc i) held" using assms by (simp add: upd_conv_take_nth_drop)
  then have "out_count (held[i := c]) ep = out_count (remove_at i held) ep + (if counted ep c then 1 else 0)"
    by (simp add: out_count_def remove_at_def)
  with out_count_remove[OF assms, of ep] show ?thesis by simp
qed

lemma set_remove_at: "set (remove_at i xs) \<subseteq> set xs"
  by (auto simp: remove_at_def dest: in_set_takeD in_set_dropD)

lemma members_inv_closed_out:
  assumes "members_inv cnt (members st)" and "\<And>k. cnt k = cnt' k + (if k = ep then 1 else 0)"
  shows "members_inv cnt' (members (closed_out ep st))"
  using assms(2) by (auto simp: closed_out_def member_ok_def intro!: members_inv_update[OF assms(1)])

lemma members_inv_drop:
  assumes "i < length held" and "members_inv (out_count held) (members st)"
  shows "members_inv (out_count (remove_at i held)) (members (drop_client (held ! i) st))"
  using members_inv_closed_out[OF assms(2)] members_inv_mono[OF assms(2)] out_count_remove[OF assms(1)]
  by (auto simp: drop_client_def counted_def split: option.splits)

lemma members_inv_reattribute:
  assumes "i < length held" and "link (held ! i) = Some l" and "link_out l' = link_out l" and "link_member l' = link_member l"
    and "members_inv (out_count held) (members st)"
    and "reattribute conn (l', st) = (l1, st1)" and "link c = Some l1"
  shows "members_inv (out_count (held[i := c])) (members st1)"
proof -
  note upd = out_count_update[OF assms(1), of c]
  have same: "link_member l = conn \<or> \<not> link_out l \<Longrightarrow> out_count (held[i := c]) k = out_count held k" for k
    using upd[of k] assms by (auto simp: counted_def reattribute_def Let_def split: if_splits)
  show ?thesis
  proof (cases "link_member l = conn \<or> \<not> link_out l")
    case True
    then have "members st1 = members st" using assms(3,4,6) by (auto simp: reattribute_def Let_def split: if_splits)
    with same[OF True] assms(5) show ?thesis by (simp add: members_inv_def)
  next
    case False
    then have st1: "members st1 = bt_update conn (\<lambda>m. m\<lparr>in_use := in_use m + 1\<rparr>)
        (bt_update (link_member l) (\<lambda>m. m\<lparr>in_use := in_use m - 1\<rparr>) (members st))"
      and l1: "link_out l1" "link_member l1 = conn"
      using assms(3,4,6) by (auto simp: reattribute_def Let_def split: if_splits)
    have cnt: "out_count held k + (if k = conn then 1 else 0) = out_count (held[i := c]) k + (if k = link_member l then 1 else 0)" for k
      using upd[of k] False l1 assms(2,7) by (auto simp: counted_def)
    let ?mid = "\<lambda>k. out_count held k - (if k = link_member l then 1 else 0)"
    have mid: "members_inv ?mid (bt_update (link_member l) (\<lambda>m. m\<lparr>in_use := in_use m - 1\<rparr>) (members st))"
      by (rule members_inv_update[OF assms(5)]) (auto simp: member_ok_def diff_le_mono)
    have at: "Suc (?mid conn) \<le> out_count (held[i := c]) conn" using cnt[of conn] False by auto
    have other: "?mid k \<le> out_count (held[i := c]) k" if "k \<noteq> conn" for k using cnt[of k] that by (simp split: if_splits)
    show ?thesis unfolding st1
      by (rule members_inv_update[OF mid]) (use at other in \<open>simp_all add: member_ok_def\<close>)
  qed
qed

section \<open>Every step keeps the invariant\<close>

lemma pool_invI [wf_intros]:
  "members_inv (out_count held) (members st) \<Longrightarrow> idle_inv self o0 st \<Longrightarrow> (\<And>c. c \<in> set held \<Longrightarrow> held_ok self c) \<Longrightarrow> rng st \<noteq> 0 \<Longrightarrow>
   pool_inv self o0 (st, held)"
  by (simp add: pool_inv_def)

lemma pool_inv_update_held:
  assumes "pool_inv self o0 (st, held)" and "i < length held" and "members_inv (out_count (held[i := c])) (members st')"
    and "idle st' = idle st" and "closed st' = closed st" and "rng st' = rng st" and "held_ok self c"
  shows "pool_inv self o0 (st', held[i := c])"
  using assms set_update_subset_insert[of held i c]
  by (auto simp: pool_inv_def intro: idle_inv_cong)

lemma same_count:
  assumes "i < length held" and "\<And>ep. counted ep c = counted ep (held ! i)"
  shows "out_count (held[i := c]) = out_count held"
proof
  show "out_count (held[i := c]) ep = out_count held ep" for ep
    using out_count_update[OF assms(1), of c ep] assms(2)[of ep] by (simp split: if_splits)
qed

lemma take_step:
  assumes "pool_inv self o0 (st, held)" and "pick F o0 t key st = (target, st1)" and "take_idle o0 target st1 = (c, dropped, st2)"
  shows "members_inv (out_count held) (members st2)" and "idle_inv self o0 st2" and "rng st2 \<noteq> 0"
    and "\<And>x. c = Some x \<Longrightarrow> idle_ok self x"
proof -
  have st1: "members st1 = members st" "idle st1 = idle st" "closed st1 = closed st" "rng st1 \<noteq> 0"
    using pick_frame[OF assms(2)] pick_rng[OF assms(2)] assms(1) by (auto simp: pool_inv_def)
  obtain cs where st2: "st2 = st1\<lparr>idle := cs\<rparr>" "subseq cs (idle st1)"
    using take_idle_choice(3,5)[OF assms(3)] by fastforce
  show "members_inv (out_count held) (members st2)" "rng st2 \<noteq> 0"
    using assms(1) st1 st2 by (simp_all add: pool_inv_def)
  have inv: "idle_inv self o0 st" using assms(1) by (simp add: pool_inv_def)
  then show "idle_inv self o0 st2" by (rule idle_inv_subset) (use st1 st2 in auto)
  fix x assume "c = Some x"
  then have "x \<in> set (idle st)" using arg_cong[OF take_idle_partition[OF assms(3)], of set_mset] st1(2) by simp
  with inv show "idle_ok self x" by (simp add: idle_inv_def)
qed

lemma idle_ok_held: "idle_ok self c \<Longrightarrow> held_ok self c \<and> \<not> counted ep c"
  by (auto simp: idle_ok_def held_ok_def counted_def split: option.splits)

lemma held_linked:
  assumes "pool_inv self o0 (st, held)" and "i < length held"
  obtains l where "link (held ! i) = Some l" and "link_pool l = self"
proof -
  have "held_ok self (held ! i)" using assms by (simp add: pool_inv_def)
  with that show thesis by (auto simp: held_ok_def split: option.splits)
qed

lemma step_checkin:
  assumes "pool_inv self o0 (st, held)" and "i < length held"
  shows "pool_inv self o0 (checkin self o0 (held ! i) st, remove_at i held)"
proof -
  have inv: "members_inv (out_count held) (members st)" "idle_inv self o0 st" "rng st \<noteq> 0" "\<And>c. c \<in> set held \<Longrightarrow> held_ok self c"
    using assms(1) by (auto simp: pool_inv_def)
  have "held_ok self (held ! i)" using inv(4) assms(2) by simp
  then obtain l where l: "link (held ! i) = Some l" "link_pool l = self" by (auto simp: held_ok_def split: option.splits)
  let ?st = "drop_client (held ! i) st"
  have ms: "members_inv (out_count (remove_at i held)) (members ?st)" by (rule members_inv_drop[OF assms(2) inv(1)])
  have fr: "idle ?st = idle st" "closed ?st = closed st" "rng ?st = rng st"
    by (simp_all add: drop_client_def closed_out_def split: option.splits)
  have "checkin self o0 (held ! i) st = ?st
    \<or> checkin self o0 (held ! i) st = ?st\<lparr>idle := idle st @ [(held ! i)\<lparr>link := Some (l\<lparr>link_out := False\<rparr>)\<rparr>]\<rparr>
        \<and> \<not> closed st \<and> \<not> broken l \<and> length (idle st) < maxsize o0"
    using l by (auto simp: checkin_def drop_client_def Let_def closed_out_def)
  then have "members (checkin self o0 (held ! i) st) = members ?st \<and> rng (checkin self o0 (held ! i) st) = rng st
      \<and> idle_inv self o0 (checkin self o0 (held ! i) st)"
    using inv(2) fr l(2) by (auto simp: idle_inv_def idle_ok_def)
  with ms inv(3,4) show ?thesis
    using set_remove_at[of i held] by (intro pool_invI) auto
qed

lemma step_observed:
  assumes "pool_inv self o0 (st, held)" and "i < length held" and "observed_ok F o0 t d (held ! i, st) = (c, st')"
  shows "pool_inv self o0 (st', held[i := c])"
proof -
  obtain l where l: "link (held ! i) = Some l" "link_pool l = self" using held_linked[OF assms(1,2)] .
  obtain l1 st1 where r: "reattribute (connected (held ! i)) (l\<lparr>broken := False\<rparr>, st) = (l1, st1)" by fastforce
  obtain l2 st2 where rt: "round_trip F o0 t (connected (held ! i)) d (l\<lparr>broken := False\<rparr>, st) = (l2, st2)" by fastforce
  have c: "c = (held ! i)\<lparr>link := Some l2\<rparr>" "st' = st2" using assms(3) l rt by (auto simp: observed_ok_def)
  note fr = frame_round_trip[OF rt r] frame_reattribute[OF r]
  have "members_inv (out_count held) (members st)" using assms(1) by (simp add: pool_inv_def)
  from members_inv_reattribute[OF assms(2) l(1) _ _ this r, of c]
  have "members_inv (out_count (held[i := c])) (members st1)" using c fr by simp
  then have "members_inv (out_count (held[i := c])) (members st')"
    using members_inv_round_trip[OF r] rt c(2) by (metis snd_conv)
  then show ?thesis
    by (rule pool_inv_update_held[OF assms(1,2)]) (use c fr l in \<open>auto simp: held_ok_def\<close>)
qed

lemma step_reconnected:
  assumes "pool_inv self o0 (st, held)" and "i < length held" and "reconnected eps ep strm (held ! i, st) = (c, st')"
  shows "pool_inv self o0 (st', held[i := c])"
proof -
  obtain l where l: "link (held ! i) = Some l" "link_pool l = self" using held_linked[OF assms(1,2)] .
  obtain l1 st1 where r: "reattribute ep (l\<lparr>broken := False\<rparr>, st) = (l1, st1)" by fastforce
  have c: "link c = Some l1" "st' = st1"
    using assms(3) l r by (auto simp: reconnected_def moved_def Let_def)
  note fr = frame_reattribute[OF r]
  have "members_inv (out_count held) (members st)" using assms(1) by (simp add: pool_inv_def)
  from members_inv_reattribute[OF assms(2) l(1) _ _ this r c(1)]
  have "members_inv (out_count (held[i := c])) (members st')" using c(2) by simp
  then show ?thesis
    by (rule pool_inv_update_held[OF assms(1,2)]) (use c fr l in \<open>auto simp: held_ok_def\<close>)
qed

lemma step_failed:
  assumes "pool_inv self o0 (st, held)" and "i < length held" and "transport_failed o0 t (held ! i, st) = (c, st')"
  shows "pool_inv self o0 (st', held[i := c])"
proof -
  obtain l where l: "link (held ! i) = Some l" "link_pool l = self" using held_linked[OF assms(1,2)] .
  then have c: "c = (held ! i)\<lparr>link := Some (l\<lparr>broken := True\<rparr>)\<rparr>" "st' = failed o0 t (connected (held ! i)) st"
    using assms(3) by (auto simp: transport_failed_def)
  have "out_count (held[i := c]) = out_count held"
    by (rule same_count[OF assms(2)]) (simp add: c l counted_def)
  then have "members_inv (out_count (held[i := c])) (members st')"
    using assms(1) by (simp add: c(2) members_inv_failed pool_inv_def)
  then show ?thesis
    by (rule pool_inv_update_held[OF assms(1,2)]) (use c l in \<open>auto simp: held_ok_def\<close>)
qed

lemma step_out:
  assumes "pool_inv self o0 (st, held)" and "i < length held" and "link (held ! i) = Some l" and "\<not> link_out l"
    and "check_out key (held ! i, st) = (c, st')"
  shows "pool_inv self o0 (st', held[i := c])"
proof -
  have c: "c = (held ! i)\<lparr>link := Some (l\<lparr>link_out := True, link_affinity := key\<rparr>)\<rparr>"
    "st' = st\<lparr>members := bt_update (link_member l) (\<lambda>m. m\<lparr>in_use := in_use m + 1\<rparr>) (members st)\<rparr>"
    using assms(3,5) by (auto simp: check_out_def)
  have cnt: "out_count (held[i := c]) ep = out_count held ep + (if ep = link_member l then 1 else 0)" for ep
    using out_count_update[OF assms(2), of c ep] assms(3,4) by (auto simp: c counted_def)
  have "members_inv (out_count held) (members st)" using assms(1) by (simp add: pool_inv_def)
  then have "members_inv (out_count (held[i := c])) (members st')"
    unfolding c(2) by (auto simp: cnt member_ok_def intro!: members_inv_update)
  moreover have "held_ok self (held ! i)" using assms(1,2) by (simp add: pool_inv_def)
  ultimately show ?thesis
    using assms(3) by (intro pool_inv_update_held[OF assms(1,2)]) (auto simp: c held_ok_def)
qed

lemma map_members_inv:
  assumes "members_inv cnt ms"
    and "\<And>ep m. member_ok m \<Longrightarrow> seed (f ep m) = seed m \<and> in_use (f ep m) = in_use m \<and> member_ok (f ep m)"
  shows "members_inv cnt (map (\<lambda>(ep, m). (ep, f ep m)) ms)"
proof -
  have get: "bt_get (map (\<lambda>(ep, m). (ep, f ep m)) ms) k = map_option (f k) (bt_get ms k)" for k
    by (induction ms) auto
  have "map fst (map (\<lambda>(ep, m). (ep, f ep m)) ms) = map fst ms" by auto
  then have "bt_sorted (map (\<lambda>(ep, m). (ep, f ep m)) ms)" using assms(1) by (simp only: bt_sorted_def members_inv_def)
  moreover obtain k m where "bt_get ms k = Some m" "seed m" "member_ok m" using assms(1) by (auto simp: members_inv_def)
  then have "\<exists>k m. bt_get (map (\<lambda>(ep, m). (ep, f ep m)) ms) k = Some m \<and> seed m" using assms(2) by (auto simp: get intro!: exI[of _ k])
  ultimately show ?thesis
    using assms by (intro members_invI) (auto simp: get members_inv_def)
qed

lemma step_tick:
  "tick o0 t st = Some (eps, refresh, st') \<Longrightarrow> pool_inv self o0 (st, held) \<Longrightarrow> pool_inv self o0 (st', held)"
  using map_members_inv[of "out_count held" "members st" "\<lambda>_ m. if due (now t) m then m\<lparr>probing := True\<rparr> else m"]
  by (auto simp: tick_def pool_inv_def member_ok_def split: if_splits intro: idle_inv_cong)

lemma step_probe:
  assumes "pool_inv self o0 (st, held)"
  shows "pool_inv self o0 (probe_done self o0 t ep result st, held)"
proof -
  let ?ms = "bt_update ep (\<lambda>m. m\<lparr>probing := False\<rparr>) (members st)"
  have inv: "members_inv (out_count held) ?ms" "idle_inv self o0 st"
    using assms by (auto simp: pool_inv_def member_ok_def intro!: members_inv_touch)
  have "members_inv (out_count held) (bt_update ep (eject_again o0 (now t)) ?ms)"
    "members_inv (out_count held) (bt_update ep (readmit (now t)) ?ms)"
    using inv(1) by (auto simp: member_ok_def eject_again_def readmit_def reset_latency_def Let_def sat_u32_def U32_MAX_def intro!: members_inv_touch)
  with assms inv(2) show ?thesis
    by (auto simp: probe_done_def pool_inv_def Let_def idle_inv_def idle_ok_def link_new_def split: option.splits)
qed

lemma step_list:
  assumes "pool_inv self o0 (st, held)"
  shows "pool_inv self o0 (list_through o0 t ep answer st, held)"
proof -
  have "pool_inv self o0 (fold_listing o0 t ep rows st, held)" for rows
    using assms members_inv_apply_listing by (auto simp: pool_inv_def fold_listing_def Let_def intro: idle_inv_cong)
  moreover have "pool_inv self o0 (st\<lparr>discovery_off := True\<rparr>, held)"
    using assms by (auto simp: pool_inv_def intro: idle_inv_cong)
  ultimately show ?thesis
    using assms by (simp add: list_through_def split: sum.splits response.splits driver_error.splits)
qed

lemma step_uses:
  assumes "pool_inv self o0 (st, held)" and "i < length held" and "link c = link (held ! i)"
  shows "pool_inv self o0 (st, held[i := c])"
proof (rule pool_inv_update_held[OF assms(1,2)])
  have "out_count (held[i := c]) = out_count held"
    by (rule same_count[OF assms(2)]) (simp add: assms(3) counted_def)
  then show "members_inv (out_count (held[i := c])) (members st)" using assms(1) by (simp add: pool_inv_def)
  show "held_ok self c" using assms by (auto simp: pool_inv_def held_ok_def)
qed simp_all

lemma pool_step_inv: "pool_step self F o0 w w' \<Longrightarrow> pool_inv self o0 w \<Longrightarrow> pool_inv self o0 w'"
proof (induction rule: pool_step.induct)
  case (take st t key target st1 c dropped st2 held)
  note s = take_step[OF take.prems take.hyps(2,3)]
  have "idle_ok self c" using s(4) by simp
  then show ?case
    using s(1-3) take.prems idle_ok_held[of self c]
    by (auto simp: pool_inv_def intro: members_inv_mono)
next
  case (none_idle st t key target st1 dropped st2 eps st3 held)
  note s = take_step[OF none_idle.prems none_idle.hyps(2,3)] and o = order_frame[OF none_idle.hyps(4)]
  show ?case
    using s(1-3) o none_idle.prems by (auto simp: pool_inv_def intro: idle_inv_cong)
next
  case (dial_failed st held t ep)
  then show ?case by (auto simp: pool_inv_def members_inv_failed intro: idle_inv_cong)
next
  case (dialled c ep st held)
  then show ?case
    by (auto simp: pool_inv_def held_ok_def counted_def link_new_def intro: members_inv_mono)
next
  case (discover st held t ep)
  then show ?case
    by (auto simp: pool_inv_def discover_through_def ensure_maintainer_def split: option.splits intro: idle_inv_cong)
next
  case (list st held t ep answer)
  from list.prems show ?case by (rule step_list)
next
  case (out i held l key st c st')
  then show ?case by (blast intro: step_out)
next
  case (answered i held t d st c st')
  then show ?case by (blast intro: step_observed)
next
  case (broke i held t st c st')
  then show ?case by (blast intro: step_failed)
next
  case (redial lost st eps st' held)
  then show ?case using order_frame[OF redial.hyps] by (auto simp: pool_inv_def intro: idle_inv_cong)
next
  case (redialled i held eps ep strm st c st')
  then show ?case by (blast intro: step_reconnected)
next
  case (statement i held st t w)
  then show ?case
    by (auto simp: pool_inv_def observe_statement_def wrote_def Let_def split: option.splits intro: idle_inv_cong)
next
  case (checkin i held st)
  then show ?case by (blast intro: step_checkin)
next
  case (drop i held st)
  then show ?case
    using members_inv_drop[of i held st] set_remove_at[of i held]
    by (auto simp: pool_inv_def drop_client_def closed_out_def split: option.splits if_splits intro: idle_inv_cong)
next
  case (tick t st eps refresh st' held)
  then show ?case by (blast intro: step_tick)
next
  case (probed st held t ep result)
  then show ?case by (rule step_probe)
next
  case (refresh_failed st held t)
  then show ?case by (auto simp: pool_inv_def intro: idle_inv_cong)
next
  case (close st held)
  then show ?case by (auto simp: pool_inv_def close_def idle_inv_def)
next
  case (uses i held c st)
  then show ?case by (blast intro: step_uses)
qed

lemma built_inv: "build F t hash b = Inr st \<Longrightarrow> b_options b = o0 \<Longrightarrow> pool_inv self o0 (st, [])"
proof -
  assume b: "build F t hash b = Inr st" "b_options b = o0"
  then have st: "members st = seed_members (dedup (b_endpoints b))" "idle st = []" "rng st = hash OR 1" "dedup (b_endpoints b) \<noteq> []"
    by (auto simp: build_def Let_def split: if_splits)
  obtain ep where "ep \<in> set (dedup (b_endpoints b))" using st(4) by (cases "dedup (b_endpoints b)") auto
  then have "members_inv (out_count ([] :: 'a client list)) (members st)"
    by (intro members_invI) (auto simp: st seed_members_facts member_new_def member_ok_def split: if_splits)
  then show ?thesis by (simp add: pool_inv_def st idle_inv_def or_eq_0_iff)
qed

lemma reachable_inv: "reachable self F o0 w \<Longrightarrow> pool_inv self o0 w"
  by (induction rule: reachable.induct) (auto intro: built_inv pool_step_inv)

section \<open>The counters are exact\<close>

text \<open>What a member's counter says, and when it is the number of connections that are out at the member.\<close>

definition use_at :: "'f members \<Rightarrow> rstr \<Rightarrow> nat option" where
  "use_at ms ep = map_option in_use (bt_get ms ep)"

definition counts_exactly :: "rstr \<Rightarrow> ('s, 'f) world \<Rightarrow> bool" where
  "counts_exactly ep = (\<lambda>(st, held). \<forall>m. bt_get (members st) ep = Some m \<longrightarrow> in_use m = length (filter (counted ep) held))"

lemma counts_exactly_use: "counts_exactly ep (st, held) \<longleftrightarrow> use_at (members st) ep = None \<or> use_at (members st) ep = Some (out_count held ep)"
  by (cases "bt_get (members st) ep") (auto simp: counts_exactly_def use_at_def out_count_def)

lemma use_at_touch: "(\<And>m. in_use (f m) = in_use m) \<Longrightarrow> use_at (bt_update k f ms) ep = use_at ms ep"
  by (simp add: use_at_def option.map_comp comp_def)

lemma use_at_replace: "bt_get ms k = Some m \<Longrightarrow> in_use m' = in_use m \<Longrightarrow> use_at (bt_update k (\<lambda>_. m') ms) ep = use_at ms ep"
  by (simp add: use_at_def)

lemma use_at_eject [simp]: "use_at (members (eject o0 t k st)) ep = use_at (members st) ep"
  by (simp add: members_eject use_at_touch eject_member_ok)

lemma use_at_failed [simp]: "use_at (members (failed o0 t k st)) ep = use_at (members st) ep"
  by (auto simp: failed_def Let_def use_at_replace split: option.splits)

lemma use_at_round_trip:
  assumes "reattribute conn (l, st) = (l1, st1)"
  shows "use_at (members (snd (round_trip F o0 t conn d (l, st)))) ep = use_at (members st1) ep"
  using assms by (auto simp: round_trip_def Let_def use_at_replace sampled_ok split: option.splits)

lemma exact_cong:
  "counts_exactly ep (st, held) \<Longrightarrow> use_at (members st') ep = use_at (members st) ep \<Longrightarrow> out_count held' ep = out_count held ep \<Longrightarrow>
   counts_exactly ep (st', held')"
  by (simp add: counts_exactly_use split: option.splits)

lemma exact_out:
  assumes "counts_exactly ep (st, held)" and "i < length held" and "link (held ! i) = Some l" and "\<not> link_out l"
    and "check_out key (held ! i, st) = (c, st')"
  shows "counts_exactly ep (st', held[i := c])"
proof -
  have c: "c = (held ! i)\<lparr>link := Some (l\<lparr>link_out := True, link_affinity := key\<rparr>)\<rparr>"
    "st' = st\<lparr>members := bt_update (link_member l) (\<lambda>m. m\<lparr>in_use := in_use m + 1\<rparr>) (members st)\<rparr>"
    using assms(3,5) by (auto simp: check_out_def)
  have "out_count (held[i := c]) ep = out_count held ep + (if ep = link_member l then 1 else 0)"
    using out_count_update[OF assms(2), of c ep] assms(3,4) by (auto simp: c counted_def)
  with assms(1) show ?thesis by (auto simp: counts_exactly_use c(2) use_at_def split: option.splits)
qed

lemma exact_drop:
  assumes "counts_exactly ep (st, held)" and "i < length held"
  shows "counts_exactly ep (drop_client (held ! i) st, remove_at i held)"
  using assms(1) out_count_remove[OF assms(2), of ep]
  by (auto simp: counts_exactly_use drop_client_def closed_out_def counted_def use_at_def split: option.splits if_splits)

lemma exact_reattribute:
  assumes "counts_exactly ep (st, held)" and "i < length held" and "link (held ! i) = Some l" and "link_out l' = link_out l"
    and "link_member l' = link_member l" and "reattribute conn (l', st) = (l1, st1)" and "link c = Some l1"
  shows "counts_exactly ep (st1, held[i := c])"
proof -
  have st1: "members st1 = (if link_member l = conn \<or> \<not> link_out l then members st
      else bt_update conn (\<lambda>m. m\<lparr>in_use := in_use m + 1\<rparr>) (bt_update (link_member l) (\<lambda>m. m\<lparr>in_use := in_use m - 1\<rparr>) (members st)))"
    and l1: "link_out l1 = link_out l" "link_member l1 = conn"
    using assms(4-6) by (auto simp: reattribute_def Let_def split: if_splits)
  have "out_count (held[i := c]) ep + (if link_out l \<and> link_member l = ep then 1 else 0) = out_count held ep + (if link_out l \<and> conn = ep then 1 else 0)"
    using out_count_update[OF assms(2), of c ep] assms(3,7) l1 by (simp add: counted_def)
  with assms(1) show ?thesis by (auto simp: counts_exactly_use st1 use_at_def split: option.splits if_splits)
qed

lemma exact_checkin:
  assumes "counts_exactly ep (st, held)" and "i < length held" and "held_ok self (held ! i)"
  shows "counts_exactly ep (checkin self o0 (held ! i) st, remove_at i held)"
proof -
  have "members (checkin self o0 (held ! i) st) = members (drop_client (held ! i) st)"
    using assms(3) by (auto simp: checkin_def drop_client_def held_ok_def Let_def split: option.splits)
  with exact_drop[OF assms(1,2)] show ?thesis by (simp add: counts_exactly_use)
qed

text \<open>A listing keeps the counter of every entry it keeps; an entry it makes counts nothing.\<close>

lemma use_at_listing:
  assumes "bt_sorted (members st)" and "use_at (members (list_through o0 t d answer st)) ep = Some n"
  shows "n = 0 \<or> use_at (members st) ep = Some n"
proof -
  have "in_use m = 0 \<or> (\<exists>m0. bt_get (members st) ep = Some m0 \<and> in_use m = in_use m0)"
    if "bt_get (apply_listing d rows (members st)) ep = Some m" for rows m
    using that by (rule apply_listing_forall[OF assms(1), where P = "\<lambda>ep m. in_use m = 0 \<or> (\<exists>m0. bt_get (members st) ep = Some m0 \<and> in_use m = in_use m0)", rotated -1])
      (auto simp: member_new_def set_listed_def reset_latency_def Let_def)
  then show ?thesis
    using assms(2) by (fastforce simp: list_through_def fold_listing_def use_at_def Let_def split: sum.splits response.splits driver_error.splits if_splits)
qed

lemma map_use_at: "(\<And>k m. in_use (f k m) = in_use m) \<Longrightarrow> use_at (map (\<lambda>(k, m). (k, f k m)) ms) ep = use_at ms ep"
  by (induction ms) (auto simp: use_at_def)

lemma use_at_probe: "use_at (members (probe_done self o0 t k result st)) ep = use_at (members st) ep"
  by (auto simp: probe_done_def Let_def use_at_def eject_again_def readmit_def reset_latency_def option.map_comp comp_def split: option.splits)

text \<open>What a connection in hand reports.\<close>

lemma exact_observed:
  assumes "counts_exactly ep (st, held)" and "pool_inv self o0 (st, held)" and "i < length held"
    and "observed_ok F o0 t d (held ! i, st) = (c, st')"
  shows "counts_exactly ep (st', held[i := c])"
proof -
  obtain l where l: "link (held ! i) = Some l" using held_linked[OF assms(2,3)] .
  obtain l1 st1 where r: "reattribute (connected (held ! i)) (l\<lparr>broken := False\<rparr>, st) = (l1, st1)" by fastforce
  obtain l2 st2 where rt: "round_trip F o0 t (connected (held ! i)) d (l\<lparr>broken := False\<rparr>, st) = (l2, st2)" by fastforce
  have c: "c = (held ! i)\<lparr>link := Some l2\<rparr>" "st' = st2" using assms(4) l rt by (auto simp: observed_ok_def)
  have "counts_exactly ep (st1, held[i := c])"
    by (rule exact_reattribute[OF assms(1,3) l _ _ r]) (use c frame_round_trip[OF rt r] in simp_all)
  then show ?thesis using use_at_round_trip[OF r, of F o0 t d ep] rt c(2) by (simp add: counts_exactly_use)
qed

lemma exact_failed:
  assumes "counts_exactly ep (st, held)" and "pool_inv self o0 (st, held)" and "i < length held"
    and "transport_failed o0 t (held ! i, st) = (c, st')"
  shows "counts_exactly ep (st', held[i := c])"
proof -
  obtain l where l: "link (held ! i) = Some l" using held_linked[OF assms(2,3)] .
  then have c: "c = (held ! i)\<lparr>link := Some (l\<lparr>broken := True\<rparr>)\<rparr>" "st' = failed o0 t (connected (held ! i)) st"
    using assms(4) by (auto simp: transport_failed_def)
  have "out_count (held[i := c]) = out_count held" by (rule same_count[OF assms(3)]) (simp add: c l counted_def)
  then show ?thesis using assms(1) by (simp add: counts_exactly_use c(2))
qed

lemma exact_reconnected:
  assumes "counts_exactly ep (st, held)" and "pool_inv self o0 (st, held)" and "i < length held"
    and "reconnected eps k strm (held ! i, st) = (c, st')"
  shows "counts_exactly ep (st', held[i := c])"
proof -
  obtain l where l: "link (held ! i) = Some l" using held_linked[OF assms(2,3)] .
  obtain l1 st1 where r: "reattribute k (l\<lparr>broken := False\<rparr>, st) = (l1, st1)" by fastforce
  have c: "link c = Some l1" "st' = st1" using assms(4) l r by (auto simp: reconnected_def moved_def Let_def)
  show ?thesis using exact_reattribute[OF assms(1,3) l _ _ r c(1)] c(2) by simp
qed

text \<open>The only step after which a counter that was right is wrong is a listing that enters a member anew while
  connections are still out at it.\<close>

lemma step_exact:
  assumes "pool_step self F o0 w w'" and "pool_inv self o0 w" and "counts_exactly ep w"
  shows "counts_exactly ep w' \<or> (discover o0 \<and> snd w' = snd w \<and> use_at (members (fst w')) ep = Some 0
    \<and> (\<exists>t d answer. fst w' = list_through o0 t d answer (fst w)))"
  using assms
proof (induction rule: pool_step.induct)
  case (take st t key target st1 c dropped st2 held)
  have "idle_ok self c" using take_step(4)[OF take.prems(1) take.hyps(2,3)] by simp
  then have "\<not> counted ep c" using idle_ok_held[of self c ep] by simp
  moreover have "members st2 = members st" using take_idle_choice(5)[OF take.hyps(3)] pick_frame[OF take.hyps(2)] by auto
  ultimately show ?case using exact_cong[OF take.prems(2), of st2 "held @ [c]"] by simp
next
  case (none_idle st t key target st1 dropped st2 eps st3 held)
  have "members st3 = members st"
    using take_idle_choice(5)[OF none_idle.hyps(3)] pick_frame[OF none_idle.hyps(2)] order_frame[OF none_idle.hyps(4)] by auto
  then show ?case using exact_cong[OF none_idle.prems(2), of st3 held] by simp
next
  case (dial_failed st held t k)
  then show ?case using exact_cong[of ep st held "failed o0 t k st" held] by simp
next
  case (dialled c k st held)
  then show ?case by (simp add: counts_exactly_use counted_def link_new_def)
next
  case (discover st held t k)
  then show ?case
    by (auto simp: counts_exactly_use discover_through_def ensure_maintainer_def split: option.splits)
next
  case (list st held t k answer)
  have "bt_sorted (members st)" using list.prems(1) by (simp add: pool_inv_def members_inv_def)
  note u = use_at_listing[OF this, of o0 t k answer ep]
  show ?case
  proof (cases "counts_exactly ep (list_through o0 t k answer st, held)")
    case False
    then have "use_at (members (list_through o0 t k answer st)) ep = Some 0"
      using u list.prems(2) by (auto simp: counts_exactly_use split: option.splits)
    with list.hyps show ?thesis by auto
  qed simp
next
  case (out i held l key st c st')
  then show ?case by (blast intro: exact_out)
next
  case (answered i held t d st c st')
  then show ?case by (blast intro: exact_observed)
next
  case (broke i held t st c st')
  then show ?case by (blast intro: exact_failed)
next
  case (redial lost st eps st' held)
  then show ?case using order_frame[OF redial.hyps] by (simp add: counts_exactly_use)
next
  case (redialled i held eps k strm st c st')
  then show ?case by (blast intro: exact_reconnected)
next
  case (statement i held st t w)
  have "members (observe_statement o0 t w (held ! i) st) = members st"
    by (simp add: observe_statement_def wrote_def Let_def split: option.splits)
  with statement.prems(2) show ?case by (simp add: counts_exactly_use)
next
  case (checkin i held st)
  then show ?case using exact_checkin[of ep st held i self o0] by (simp add: pool_inv_def)
next
  case (drop i held st)
  then show ?case by (blast intro: exact_drop)
next
  case (tick t st eps refresh st' held)
  then show ?case
    by (auto simp: tick_def counts_exactly_use map_use_at split: if_splits)
next
  case (probed st held t k result)
  then show ?case by (simp add: counts_exactly_use use_at_probe)
next
  case (refresh_failed st held t)
  then show ?case by (simp add: counts_exactly_use)
next
  case (close st held)
  then show ?case by (simp add: counts_exactly_use close_def)
next
  case (uses i held c st)
  have "out_count (held[i := c]) = out_count held"
    by (rule same_count[OF uses.hyps(1)]) (simp add: uses.hyps(2) counted_def)
  then show ?case using uses.prems(2) by (simp add: counts_exactly_use)
qed

lemma fixed_members_exact: "reachable self F o0 w \<Longrightarrow> \<not> discover o0 \<Longrightarrow> counts_exactly ep w"
proof (induction rule: reachable.induct)
  case (built b t hash st)
  then have "members st = seed_members (dedup (b_endpoints b))" by (auto simp: build_def Let_def split: if_splits)
  then show ?case by (auto simp: counts_exactly_def seed_members_facts member_new_def split: if_splits)
next
  case (stepped w w')
  then show ?case using step_exact[OF stepped.hyps(2) reachable_inv[OF stepped.hyps(1)]] by blast
qed

section \<open>Properties\<close>

text \<open>C5: In every state a pool can reach, whatever its threads do and in whatever order: it keeps at
  most \<^verbatim>\<open>maxsize\<close> idle connections, none once it is closed, and no idle connection is broken, foreign or
  still counted as checked out; and a configured seed is always a member, so there is always somewhere to
  dial. The counters: a member never counts more connections than are checked out against it; where
  discovery is off, every member counts exactly the connections that are checked out against it; and
  where it is on, a counter that is right stays right over every step but a listing that enters the
  member anew, with the counter 0, while connections are still out at it.\<close>

theorem pool_invariant:
  assumes "reachable self F o0 (st, held)"
  shows "length (idle st) \<le> maxsize o0 \<and> (closed st \<longrightarrow> idle st = []) \<and> (\<forall>c \<in> set (idle st). idle_ok self c)
    \<and> (\<exists>ep m. bt_get (members st) ep = Some m \<and> seed m)
    \<and> (\<forall>ep m. bt_get (members st) ep = Some m \<longrightarrow> in_use m \<le> length (filter (counted ep) held))
    \<and> (\<not> discover o0 \<longrightarrow> (\<forall>ep m. bt_get (members st) ep = Some m \<longrightarrow> in_use m = length (filter (counted ep) held)))
    \<and> (\<forall>st' held' ep. pool_step self F o0 (st, held) (st', held') \<longrightarrow> counts_exactly ep (st, held) \<longrightarrow>
        counts_exactly ep (st', held') \<or> (discover o0 \<and> held' = held \<and> map_option in_use (bt_get (members st') ep) = Some 0
          \<and> (\<exists>t d answer. st' = list_through o0 t d answer st)))"
proof (intro conjI)
  note inv = reachable_inv[OF assms]
  show "length (idle st) \<le> maxsize o0" "closed st \<longrightarrow> idle st = []" "\<forall>c \<in> set (idle st). idle_ok self c"
    "\<exists>ep m. bt_get (members st) ep = Some m \<and> seed m"
    "\<forall>ep m. bt_get (members st) ep = Some m \<longrightarrow> in_use m \<le> length (filter (counted ep) held)"
    using inv by (auto simp: pool_inv_def idle_inv_def members_inv_def out_count_def)
  show "\<not> discover o0 \<longrightarrow> (\<forall>ep m. bt_get (members st) ep = Some m \<longrightarrow> in_use m = length (filter (counted ep) held))"
    using fixed_members_exact[OF assms] by (auto simp: counts_exactly_def)
  show "\<forall>st' held' ep. pool_step self F o0 (st, held) (st', held') \<longrightarrow> counts_exactly ep (st, held) \<longrightarrow>
        counts_exactly ep (st', held') \<or> (discover o0 \<and> held' = held \<and> map_option in_use (bt_get (members st') ep) = Some 0
          \<and> (\<exists>t d answer. st' = list_through o0 t d answer st))"
    using step_exact[OF _ inv] by (fastforce simp: use_at_def)
qed

text \<open>A pool of two members with the default options, with one connection dialled and checked out at the second.\<close>

definition sample_link :: pool_link where
  "sample_link = (link_new 0)\<lparr>link_member := [2]\<rparr>"

lemma sample_built:
  fixes st0 :: "('s, nat) balancer_state"
  assumes "st0 = \<lparr>members = seed_members (dedup [[1], [2]]), idle = [], rr = 2 ^ 64 - 1, affinity = [], discovery_off = False,
       next_refresh = now sample_sys, closed = False, maintainer = False, rng = 4 OR 1\<rparr>"
  shows "reachable 0 sample_f64 (options_default 3) (st0, [])"
proof (rule reachable.built)
  let ?b = "builder 3 [[1], [2]] :: nat pool_builder"
  show "build sample_f64 sample_sys 4 ?b = Inr st0"
    by (simp add: assms build_def builder_def options_default_def sample_f64_def Let_def dedup_def dedup_step_def)
  show "b_options ?b = options_default 3" by (simp add: builder_def)
qed

lemma sample_checked_out:
  fixes c :: "'s client"
  assumes "link c = Some sample_link"
  shows "\<exists>(st :: ('s, nat) balancer_state) c'. reachable 0 sample_f64 (options_default 3) (st, [c']) \<and> counted [2] c'
    \<and> bt_get (members st) [2] \<noteq> None \<and> bt_get (members st) [1] \<noteq> None"
proof -
  let ?o = "options_default 3 :: nat pool_options"
  define st0 :: "('s, nat) balancer_state" where
    "st0 = \<lparr>members = seed_members (dedup [[1], [2]]), idle = [], rr = 2 ^ 64 - 1, affinity = [], discovery_off = False,
       next_refresh = now sample_sys, closed = False, maintainer = False, rng = 4 OR 1\<rparr>"
  obtain c' st' where out: "check_out None (c, st0) = (c', st')" by fastforce
  have "reachable 0 sample_f64 ?o (st0, [] @ [c])"
    by (rule reachable.stepped[OF sample_built[OF st0_def] pool_step.dialled]) (simp add: assms sample_link_def)
  then have "reachable 0 sample_f64 ?o (st', [c'])"
    using reachable.stepped[OF _ pool_step.out[of 0 "[c]" sample_link None st0 c' st']] out assms by (simp add: sample_link_def link_new_def)
  moreover have "counted [2] c'" using out assms by (auto simp: check_out_def counted_def sample_link_def)
  moreover have "bt_get (members st') [2] \<noteq> None" "bt_get (members st') [1] \<noteq> None"
    using out assms by (auto simp: check_out_def st0_def seed_members_facts dedup_def dedup_step_def)
  ultimately show ?thesis by blast
qed

theorem pool_invariant_witness:
  "\<exists>(st :: (unit, nat) balancer_state) held m1 m2. reachable 0 sample_f64 (options_default 3) (st, held)
    \<and> length (idle st) \<le> 10 \<and> bt_get (members st) [1] = Some m1 \<and> in_use m1 = 0 \<and> bt_get (members st) [2] = Some m2 \<and> in_use m2 = 1"
proof -
  obtain c :: "unit client" where "link c = Some sample_link" by (metis client.select_convs(8))
  then obtain st c' m1 m2 where r: "reachable 0 sample_f64 (options_default 3) (st :: (unit, nat) balancer_state, [c'])"
    and c: "counted [2] c'" and m: "bt_get (members st) [1] = Some m1" "bt_get (members st) [2] = Some m2"
    using sample_checked_out by blast
  have "\<not> counted [1] c'" using c by (auto simp: counted_def split: option.splits)
  moreover have "in_use m = length (filter (counted ep) [c'])" if "bt_get (members st) ep = Some m" for ep m
    using pool_invariant[OF r] that by (simp add: options_default_def)
  moreover have "length (idle st) \<le> 10" using pool_invariant[OF r] by (simp add: options_default_def)
  ultimately show ?thesis using r c m by fastforce
qed

end
