(* ===== verification/Client.thy ===== *)
theory Client
  imports Auth_Client Pool_Life
begin

text \<open>
  The driver's connection (\<^verbatim>\<open>Client\<close> in \<^verbatim>\<open>src/lib.rs\<close>): connecting, executing statements with one retry after
  a failover, session settings and their replay, prepared statements and pipelining. The clock, the
  network, the formatting of foreign error values and the state of a stream after a failed operation
  are parameters (\<open>env\<close>). A method that takes \<^verbatim>\<open>&mut self\<close> maps the state \<open>driver\<close>: the connection, the process
  and the balanced pool the connection may belong to.
\<close>

section \<open>State and parameters\<close>

record ('w, 't, 's, 'h, 'f) env =
  net :: "('w, 't, 's, 'h) net_ops"
  after_write :: "'s \<Rightarrow> bytes \<Rightarrow> 's"
  after_read :: "'s \<Rightarrow> 's"
  clock :: "'w \<Rightarrow> instant \<times> 'w"
  pool_in :: "'w \<Rightarrow> sysin \<times> 'w"
  resolve :: "rstr \<Rightarrow> 'w \<Rightarrow> (io_error + rstr list) \<times> 'w"
  connect_timeout :: "rstr \<Rightarrow> duration \<Rightarrow> 'w \<Rightarrow> bool \<times> 'w"
  f64 :: "'f f64_ops"
  opts :: "'f pool_options"
  show_io :: "io_error \<Rightarrow> rstr"
  show_proto :: "proto_error \<Rightarrow> rstr"
  show_response :: "response \<Rightarrow> rstr"
  pkg_version :: rstr

record ('w, 's, 'f) driver =
  me :: "'s client"
  proc :: "'w process"
  pool :: "('s, 'f) balancer_state"

record prepared =
  prep_id :: u32
  prep_params :: u16
  prep_sql :: rstr

definition PROBE_TIMEOUT :: duration where "PROBE_TIMEOUT = from_millis 800"

definition display :: "('w, 't, 's, 'h, 'f) env \<Rightarrow> driver_error \<Rightarrow> rstr" where
  "display E e = (case e of
     Io x \<Rightarrow> of_str ''connection error: '' @ show_io E x
   | Proto x \<Rightarrow> of_str ''protocol error: '' @ show_proto E x
   | Server m \<Rightarrow> of_str ''server error: '' @ m
   | Auth m \<Rightarrow> of_str ''authentication failed: '' @ m
   | NoEndpoint m \<Rightarrow> of_str ''no endpoint reachable: '' @ m)"

section \<open>Frames on the connection\<close>

text \<open>A failed operation leaves the stream in a state the parameters choose; the error is the result.\<close>

definition set_stream :: "'s \<Rightarrow> ('w, 's, 'f) driver \<Rightarrow> ('w, 's, 'f) driver" where
  "set_stream s d = d\<lparr>me := (me d)\<lparr>stream := s\<rparr>\<rparr>"

definition send :: "('w, 't, 's, 'h, 'f) env \<Rightarrow> bytes \<Rightarrow> (('w, 's, 'f) driver, io_error, unit) op" where
  "send E payload d = (case write_frame (wr (io (net E))) (stream (me d)) payload of
     Inr s \<Rightarrow> (Inr (), set_stream s d)
   | Inl e \<Rightarrow> (Inl e, set_stream (after_write E (stream (me d)) payload) d))"

definition recv :: "('w, 't, 's, 'h, 'f) env \<Rightarrow> (('w, 's, 'f) driver, io_error, bytes) op" where
  "recv E d = (case read_frame (rd (io (net E))) (stream (me d)) of
     Inr (p, s) \<Rightarrow> (Inr p, set_stream s d)
   | Inl e \<Rightarrow> (Inl e, set_stream (after_read E (stream (me d))) d))"

definition attempt :: "('st, 'e, 'a) op \<Rightarrow> ('st, driver_error, ('e, 'a) res) op" where
  "attempt m st = (case m st of (r, st') \<Rightarrow> (Inr r, st'))"

section \<open>Reports to the pool\<close>

definition report :: "('w, 't, 's, 'h, 'f) env \<Rightarrow> (sysin \<Rightarrow> 's client \<times> ('s, 'f) balancer_state \<Rightarrow> 's client \<times> ('s, 'f) balancer_state)
    \<Rightarrow> ('w, 's, 'f) driver \<Rightarrow> ('w, 's, 'f) driver" where
  "report E f d = (if link (me d) = None then d
     else let (t, w) = pool_in E (world (proc d)); (c, st) = f t (me d, pool d)
          in d\<lparr>me := c, pool := st, proc := (proc d)\<lparr>world := w\<rparr>\<rparr>)"

definition instant_now :: "('w, 't, 's, 'h, 'f) env \<Rightarrow> (('w, 's, 'f) driver, driver_error, instant) op" where
  "instant_now E d = (let (t, w) = clock E (world (proc d)) in (Inr t, d\<lparr>proc := (proc d)\<lparr>world := w\<rparr>\<rparr>))"

definition transport :: "('w, 't, 's, 'h, 'f) env \<Rightarrow> (io_error, 'a) res \<Rightarrow> (('w, 's, 'f) driver, driver_error, 'a) op" where
  "transport E r d = (map_err Io r, case r of Inl (Err _) \<Rightarrow> report E (transport_failed (opts E)) d | _ \<Rightarrow> d)"

definition observed :: "('w, 't, 's, 'h, 'f) env \<Rightarrow> instant \<Rightarrow> (io_error, 'a) res \<Rightarrow> (('w, 's, 'f) driver, driver_error, 'a) op" where
  "observed E started r = (case r of
     Inr v \<Rightarrow> (\<lambda>d. if link (me d) = None then (Inr v, d)
       else sbind (instant_now E) (\<lambda>t d. (Inr v, report E (\<lambda>i. observed_ok (f64 E) (opts E) i (t - started)) d)) d)
   | Inl e \<Rightarrow> transport E r)"

definition note_statement :: "('w, 't, 's, 'h, 'f) env \<Rightarrow> rstr \<Rightarrow> (('w, 's, 'f) driver, driver_error, unit) op" where
  "note_statement E sql d = (case link (me d) of
     None \<Rightarrow> (Inr (), d)
   | Some l \<Rightarrow>
       if link_out l \<and> read_your_writes (opts E) \<noteq> 0
       then sbind (slift (map_err (\<lambda>_. Server []) (is_write sql))) (\<lambda>w d.
              (Inr (), report E (\<lambda>t (c, st). (c, observe_statement (opts E) t w c st)) d)) d
       else (Inr (), d))"

section \<open>One request and its response\<close>

text \<open>The common body of \<^verbatim>\<open>roundtrip\<close> and \<^verbatim>\<open>try_execute\<close>.\<close>

definition call :: "('w, 't, 's, 'h, 'f) env \<Rightarrow> bytes \<Rightarrow> (('w, 's, 'f) driver, driver_error, response) op" where
  "call E payload =
    sbind (instant_now E) (\<lambda>started.
    sbind (attempt (sbind (send E payload) (\<lambda>_. recv E))) (\<lambda>frame.
    sbind (observed E started frame) (\<lambda>payload.
    sbind (slift (map_err Proto (response_decode payload))) (\<lambda>resp.
    case resp of Error msg \<Rightarrow> slift (Inl (Err (Server msg))) | _ \<Rightarrow> sret resp))))"

definition roundtrip :: "('w, 't, 's, 'h, 'f) env \<Rightarrow> client_request \<Rightarrow> (('w, 's, 'f) driver, driver_error, response) op" where
  "roundtrip E req = call E (client_encode req)"

definition try_execute :: "('w, 't, 's, 'h, 'f) env \<Rightarrow> rstr \<Rightarrow> consistency \<Rightarrow> (('w, 's, 'f) driver, driver_error, response) op" where
  "try_execute E sql c = call E (request_encode \<lparr>req_sql = sql, req_consistency = c\<rparr>)"

section \<open>Session settings\<close>

definition forget :: "(io_error, 'a) res \<Rightarrow> ('st, driver_error, unit) op" where
  "forget r = slift (rbind (ok_of r) (\<lambda>_. Inr ()))"

definition hello :: "('w, 't, 's, 'h, 'f) env \<Rightarrow> client_request" where
  "hello E = Hello (of_str ''rust'') (pkg_version E)"

definition send_hello :: "('w, 't, 's, 'h, 'f) env \<Rightarrow> (('w, 's, 'f) driver, driver_error, unit) op" where
  "send_hello E =
    sbind (attempt (send E (client_encode (hello E)))) (\<lambda>r.
    case r of Inr _ \<Rightarrow> sbind (attempt (recv E)) forget | Inl _ \<Rightarrow> forget r)"

definition double_byte :: "u8 \<Rightarrow> rstr \<Rightarrow> rstr" where
  "double_byte q s = concat (map (\<lambda>b. if b = q then [q, q] else [b]) s)"

definition use_sql :: "rstr \<Rightarrow> rstr" where
  "use_sql db = of_str ''USE '' @ [0x22] @ double_byte 0x22 db @ [0x22]"

definition budget_sql :: "u64 \<Rightarrow> rstr" where
  "budget_sql rows = of_str ''SET SCAN BUDGET ROWS '' @ show_nat (unat rows)"

definition apply_database :: "('w, 't, 's, 'h, 'f) env \<Rightarrow> (('w, 's, 'f) driver, driver_error, unit) op" where
  "apply_database E d = (case client_database (me d) of
     None \<Rightarrow> (Inr (), d)
   | Some db \<Rightarrow> sbind (roundtrip E (Query (use_sql db) (default_consistency (me d)))) (\<lambda>_. sret ()) d)"

definition use_database :: "('w, 't, 's, 'h, 'f) env \<Rightarrow> rstr \<Rightarrow> (('w, 's, 'f) driver, driver_error, unit) op" where
  "use_database E db d =
    (let previous = client_database (me d); d = d\<lparr>me := (me d)\<lparr>client_database := Some db\<rparr>\<rparr> in
     case apply_database E d of
       (Inl (Err e), d) \<Rightarrow> (Inl (Err e), d\<lparr>me := (me d)\<lparr>client_database := previous\<rparr>\<rparr>)
     | other \<Rightarrow> other)"

definition apply_scan_budget :: "('w, 't, 's, 'h, 'f) env \<Rightarrow> (('w, 's, 'f) driver, driver_error, unit) op" where
  "apply_scan_budget E d =
    (if scan_budget_rows (me d) = 0 then (Inr (), d)
     else sbind (roundtrip E (Query (budget_sql (scan_budget_rows (me d))) (default_consistency (me d)))) (\<lambda>_. sret ()) d)"

definition set_scan_budget_rows :: "('w, 't, 's, 'h, 'f) env \<Rightarrow> u64 \<Rightarrow> (('w, 's, 'f) driver, driver_error, unit) op" where
  "set_scan_budget_rows E rows d =
    (let sql = (if rows = 0 then of_str ''SET SCAN BUDGET DEFAULT'' else budget_sql rows) in
     sbind (roundtrip E (Query sql (default_consistency (me d)))) (\<lambda>_ d.
       (Inr (), d\<lparr>me := (me d)\<lparr>scan_budget_rows := rows\<rparr>\<rparr>)) d)"

definition endpoint_of :: "'s client \<Rightarrow> rstr" where
  "endpoint_of cl = connected cl"

definition endpoints_of :: "'s client \<Rightarrow> rstr list" where
  "endpoints_of cl = client_endpoints cl"

definition database_of :: "'s client \<Rightarrow> rstr option" where
  "database_of cl = client_database cl"

definition set_consistency :: "consistency \<Rightarrow> 's client \<Rightarrow> 's client" where
  "set_consistency c cl = cl\<lparr>default_consistency := c\<rparr>"

definition add_endpoints :: "rstr list \<Rightarrow> 's client \<Rightarrow> 's client" where
  "add_endpoints extra cl = fold (\<lambda>e cl. if e \<in> set (client_endpoints cl) then cl
     else cl\<lparr>client_endpoints := client_endpoints cl @ [e]\<rparr>) extra cl"

section \<open>Where to dial\<close>

definition probe :: "('w, 't, 's, 'h, 'f) env \<Rightarrow> rstr \<Rightarrow> 'w \<Rightarrow> duration option \<times> 'w" where
  "probe E endpoint w = (case resolve E endpoint w of
     (Inr (addr # _), w) \<Rightarrow>
       (let (start, w) = clock E w; (ok, w) = connect_timeout E addr PROBE_TIMEOUT w in
        if ok then (let (t, w) = clock E w in (Some (t - start), w)) else (None, w))
   | (_, w) \<Rightarrow> (None, w))"

primrec probe_all :: "('w, 't, 's, 'h, 'f) env \<Rightarrow> rstr list \<Rightarrow> 'w \<Rightarrow> (duration option \<times> rstr) list \<times> 'w" where
  "probe_all E [] w = ([], w)"
| "probe_all E (e # es) w =
    (let (l, w) = probe E e w; (rest, w) = probe_all E es w in ((l, e) # rest, w))"

definition latency_rank :: "duration option \<times> rstr \<Rightarrow> bool \<times> duration" where
  "latency_rank = (\<lambda>(l, _). case l of Some x \<Rightarrow> (False, x) | None \<Rightarrow> (True, 0))"

definition order_by_latency :: "('w, 't, 's, 'h, 'f) env \<Rightarrow> rstr list \<Rightarrow> 'w \<Rightarrow> rstr list \<times> 'w" where
  "order_by_latency E endpoints w =
    (if length endpoints \<le> 1 then (endpoints, w)
     else let (scored, w) = probe_all E endpoints w in (map snd (sort_key latency_rank scored), w))"

section \<open>Connecting\<close>

definition fault_at :: "('w, 't, 's, 'h, 'f) env \<Rightarrow> rstr \<Rightarrow> driver_error \<Rightarrow> rstr" where
  "fault_at E ep e = ep @ of_str '': '' @ display E e"

definition new_client :: "rstr list \<Rightarrow> login \<Rightarrow> pool_link option \<Rightarrow> rstr \<Rightarrow> 's \<Rightarrow> 's client" where
  "new_client ordered lg lnk ep s = \<lparr>client_endpoints = ordered, client_login = lg, connected = ep, stream = s,
     default_consistency = Quorum, client_database = None, scan_budget_rows = 0,
     link = map_option (\<lambda>l. l\<lparr>link_member := ep\<rparr>) lnk\<rparr>"

text \<open>Before there is a connection, the state is the process and the pool.\<close>

type_synonym ('w, 's, 'f) connecting = "('w process \<times> ('s, 'f) balancer_state, driver_error, 's client) op"

definition dial_failed :: "('w, 't, 's, 'h, 'f) env \<Rightarrow> pool_link option \<Rightarrow> rstr \<Rightarrow> driver_error
    \<Rightarrow> 'w process \<times> ('s, 'f) balancer_state \<Rightarrow> 'w process \<times> ('s, 'f) balancer_state" where
  "dial_failed E lnk ep e = (\<lambda>(p, st). if lnk \<noteq> None \<and> member_fault e
     then let (t, w) = pool_in E (world p) in (p\<lparr>world := w\<rparr>, failed (opts E) t ep st) else (p, st))"

primrec open_loop :: "('w, 't, 's, 'h, 'f) env \<Rightarrow> rstr list \<Rightarrow> login \<Rightarrow> pool_link option \<Rightarrow> rstr \<Rightarrow> rstr list
    \<Rightarrow> ('w, 's, 'f) connecting" where
  "open_loop E ordered lg lnk said [] ps = (Inl (Err (NoEndpoint said)), ps)"
| "open_loop E ordered lg lnk said (ep # eps) ps =
    (let (p, st) = ps in case dial (net E) ep lg p of
      (Inr s, p) \<Rightarrow>
        (case send_hello E \<lparr>me = new_client ordered lg lnk ep s, proc = p, pool = st\<rparr> of
           (r, d) \<Rightarrow> (rbind r (\<lambda>_. Inr (me d)), (proc d, pool d)))
    | (Inl (Err e), p) \<Rightarrow>
        open_loop E ordered lg lnk (fault_at E ep e) eps (dial_failed E lnk ep e (p, st))
    | (Inl (Panic m), p) \<Rightarrow> (Inl (Panic m), (p, st))
    | (Inl OutOfFuel, p) \<Rightarrow> (Inl OutOfFuel, (p, st)))"

definition open_client :: "('w, 't, 's, 'h, 'f) env \<Rightarrow> rstr list \<Rightarrow> login \<Rightarrow> pool_link option
    \<Rightarrow> ('w, 's, 'f) connecting" where
  "open_client E ordered lg lnk = open_loop E ordered lg lnk [] ordered"

definition connect_mode :: "('w, 't, 's, 'h, 'f) env \<Rightarrow> rstr list \<Rightarrow> rstr \<Rightarrow> rstr \<Rightarrow> rstr option \<Rightarrow> bool \<Rightarrow> tls_config option
    \<Rightarrow> ('w, 's, 'f) connecting" where
  "connect_mode E endpoints user password spn cert tls ps =
    (let (p, st) = ps; (ordered, w) = order_by_latency E (dedup endpoints) (world p); p = p\<lparr>world := w\<rparr> in
     if ordered = [] then (Inl (Err (NoEndpoint (of_str ''no endpoints given''))), (p, st))
     else open_client E ordered \<lparr>login_username = user, login_password = password, gssapi_spn = spn,
            cert_auth = cert, login_tls = tls\<rparr> None (p, st))"

definition connect_many_tls :: "('w, 't, 's, 'h, 'f) env \<Rightarrow> rstr list \<Rightarrow> rstr \<Rightarrow> rstr \<Rightarrow> tls_config option \<Rightarrow> ('w, 's, 'f) connecting" where
  "connect_many_tls E endpoints user password tls = connect_mode E endpoints user password None False tls"

definition connect_many :: "('w, 't, 's, 'h, 'f) env \<Rightarrow> rstr list \<Rightarrow> rstr \<Rightarrow> rstr \<Rightarrow> ('w, 's, 'f) connecting" where
  "connect_many E endpoints user password = connect_many_tls E endpoints user password None"

definition connect_gssapi_tls :: "('w, 't, 's, 'h, 'f) env \<Rightarrow> rstr list \<Rightarrow> rstr \<Rightarrow> rstr \<Rightarrow> tls_config option \<Rightarrow> ('w, 's, 'f) connecting" where
  "connect_gssapi_tls E endpoints princ spn tls = connect_mode E endpoints princ [] (Some spn) False tls"

definition connect_gssapi :: "('w, 't, 's, 'h, 'f) env \<Rightarrow> rstr list \<Rightarrow> rstr \<Rightarrow> rstr \<Rightarrow> ('w, 's, 'f) connecting" where
  "connect_gssapi E endpoints princ spn = connect_gssapi_tls E endpoints princ spn None"

definition connect_certificate :: "('w, 't, 's, 'h, 'f) env \<Rightarrow> rstr list \<Rightarrow> rstr \<Rightarrow> tls_config \<Rightarrow> ('w, 's, 'f) connecting" where
  "connect_certificate E endpoints user tls = connect_mode E endpoints user [] None True (Some tls)"

definition connect_with :: "('w, 't, 's, 'h, 'f) env \<Rightarrow> rstr \<Rightarrow> rstr \<Rightarrow> rstr
    \<Rightarrow> ('w, 's, 'f) connecting" where
  "connect_with E addr user password ps =
    (let (p, st) = ps; (r, w) = resolve E addr (world p); p = p\<lparr>world := w\<rparr> in
     case r of
       Inl e \<Rightarrow> (Inl (Err (Io e)), (p, st))
     | Inr [] \<Rightarrow> (Inl (Err (NoEndpoint (of_str ''address did not resolve''))), (p, st))
     | Inr endpoints \<Rightarrow> connect_many E endpoints user password (p, st))"

definition connect :: "('w, 't, 's, 'h, 'f) env \<Rightarrow> rstr \<Rightarrow> ('w, 's, 'f) connecting" where
  "connect E addr = connect_with E addr (of_str ''anonymous'') []"

section \<open>Failing over\<close>

definition redial_order :: "('w, 't, 's, 'h, 'f) env \<Rightarrow> ('w, 's, 'f) driver \<Rightarrow> rstr list \<times> ('w, 's, 'f) driver" where
  "redial_order E d = (case link (me d) of
     Some l \<Rightarrow> (let (eps, st) = dial_order (connected (me d)) (pool d) in (eps, d\<lparr>pool := st\<rparr>))
   | None \<Rightarrow> (let (eps, w) = order_by_latency E (client_endpoints (me d)) (world (proc d))
       in (sort_key (\<lambda>e. e = connected (me d)) eps, d\<lparr>proc := (proc d)\<lparr>world := w\<rparr>\<rparr>)))"

text \<open>Identify, re-enter the database and re-tighten the scan budget.\<close>

definition replay_session :: "('w, 't, 's, 'h, 'f) env \<Rightarrow> (('w, 's, 'f) driver, driver_error, unit) op" where
  "replay_session E = sbind (send_hello E) (\<lambda>_. sbind (apply_database E) (\<lambda>_. apply_scan_budget E))"

definition take_over :: "rstr list \<Rightarrow> rstr \<Rightarrow> 's \<Rightarrow> ('w, 's, 'f) driver \<Rightarrow> ('w, 's, 'f) driver" where
  "take_over ordered ep s d = (let (c, st) = reconnected ordered ep s (me d, pool d) in d\<lparr>me := c, pool := st\<rparr>)"

primrec redial :: "('w, 't, 's, 'h, 'f) env \<Rightarrow> rstr list \<Rightarrow> rstr \<Rightarrow> rstr list \<Rightarrow> (('w, 's, 'f) driver, driver_error, unit) op" where
  "redial E ordered said [] d = (Inl (Err (NoEndpoint said)), d)"
| "redial E ordered said (ep # eps) d = (case dial (net E) ep (client_login (me d)) (proc d) of
      (Inr s, p) \<Rightarrow> replay_session E (take_over ordered ep s (d\<lparr>proc := p\<rparr>))
    | (Inl (Err e), p) \<Rightarrow>
        redial E ordered (fault_at E ep e) eps
          (if member_fault e then report E (\<lambda>t (c, st). (c, failed (opts E) t ep st)) (d\<lparr>proc := p\<rparr>) else d\<lparr>proc := p\<rparr>)
    | (Inl (Panic m), p) \<Rightarrow> (Inl (Panic m), d\<lparr>proc := p\<rparr>)
    | (Inl OutOfFuel, p) \<Rightarrow> (Inl OutOfFuel, d\<lparr>proc := p\<rparr>))"

definition reconnect :: "('w, 't, 's, 'h, 'f) env \<Rightarrow> (('w, 's, 'f) driver, driver_error, unit) op" where
  "reconnect E d = (let (ordered, d) = redial_order E d in redial E ordered [] ordered d)"

text \<open>\<^verbatim>\<open>match attempt { Err(DriverError::Io(_)) => { self.reconnect()?; again } other => other }\<close>\<close>

definition with_failover :: "('w, 't, 's, 'h, 'f) env \<Rightarrow> (('w, 's, 'f) driver, driver_error, 'a) op
    \<Rightarrow> (('w, 's, 'f) driver, driver_error, 'a) op \<Rightarrow> (('w, 's, 'f) driver, driver_error, 'a) op" where
  "with_failover E first again d = (case first d of
     (Inl (Err (Io _)), d) \<Rightarrow> sbind (reconnect E) (\<lambda>_. again) d
   | other \<Rightarrow> other)"

section \<open>Statements\<close>

definition execute_with :: "('w, 't, 's, 'h, 'f) env \<Rightarrow> rstr \<Rightarrow> consistency \<Rightarrow> (('w, 's, 'f) driver, driver_error, response) op" where
  "execute_with E sql c =
    sbind (with_failover E (try_execute E sql c) (try_execute E sql c)) (\<lambda>resp.
    sbind (note_statement E sql) (\<lambda>_. sret resp))"

definition execute :: "('w, 't, 's, 'h, 'f) env \<Rightarrow> rstr \<Rightarrow> (('w, 's, 'f) driver, driver_error, response) op" where
  "execute E sql d = execute_with E sql (default_consistency (me d)) d"

definition stream_sql :: "rstr \<Rightarrow> rstr \<Rightarrow> nat \<Rightarrow> rstr" where
  "stream_sql strm after limit =
    (let log = of_str ''_stream_'' @ strm in
     if after = [] then of_str ''SELECT id, op, k, ts, doc FROM '' @ log @ of_str '' ORDER BY id LIMIT '' @ show_nat limit
     else of_str ''SELECT id, op, k, ts, doc FROM '' @ log @ of_str '' WHERE id > '' @ [0x27] @ double_byte 0x27 after
       @ [0x27] @ of_str '' ORDER BY id LIMIT '' @ show_nat limit)"

definition next_position :: "row list \<Rightarrow> rstr \<Rightarrow> rstr" where
  "next_position rows after = (if rows = [] then after else case last rows of VString s # _ \<Rightarrow> s | _ \<Rightarrow> after)"

definition stream_poll :: "('w, 't, 's, 'h, 'f) env \<Rightarrow> rstr \<Rightarrow> rstr \<Rightarrow> nat \<Rightarrow> (('w, 's, 'f) driver, driver_error, row list \<times> rstr) op" where
  "stream_poll E strm after limit =
    sbind (execute E (stream_sql strm after limit)) (\<lambda>resp.
    let rows = (case resp of Rows _ rows \<Rightarrow> rows | _ \<Rightarrow> []) in sret (rows, next_position rows after))"

section \<open>What the operations leave alone\<close>

text \<open>The settings of a session, and what a report to the pool may change of a connection: its link.\<close>

definition settings :: "'s client \<Rightarrow> login \<times> rstr \<times> consistency \<times> rstr option \<times> u64" where
  "settings c = (client_login c, connected c, default_consistency c, client_database c, scan_budget_rows c)"

definition link_only :: "'s client \<Rightarrow> 's client \<Rightarrow> bool" where
  "link_only c c' \<longleftrightarrow> stream c' = stream c \<and> settings c' = settings c \<and> (link c' = None \<longleftrightarrow> link c = None)"

lemma link_only_refl [simp]: "link_only c c"
  by (simp add: link_only_def)

lemma link_only_trans: "link_only a b \<Longrightarrow> link_only b c \<Longrightarrow> link_only a c"
  by (simp add: link_only_def)

lemma link_only_set_link [simp]: "link c \<noteq> None \<Longrightarrow> link_only c (c\<lparr>link := Some l\<rparr>)"
  by (simp add: link_only_def settings_def)

lemma link_only_pool_reports:
  "link_only c (fst (observed_ok F o0 t e (c, st)))" "link_only c (fst (transport_failed o0 t (c, st)))"
  by (auto simp: observed_ok_def transport_failed_def split: option.splits prod.splits)

lemma link_only_report:
  assumes "\<And>t. link_only (me d) (fst (f t (me d, pool d)))"
  shows "link_only (me d) (me (report E f d))"
  using assms by (auto simp: report_def Let_def split: prod.splits) (metis fst_conv)

lemma instant_now_me: "\<exists>t d'. instant_now E d = (Inr t, d') \<and> me d' = me d \<and> pool d' = pool d"
  by (simp add: instant_now_def Let_def split: prod.split)

lemma observed_Inr: "\<exists>d'. observed E started (Inr v) d = (Inr v, d') \<and> link_only (me d) (me d')"
proof (cases "link (me d) = None")
  case True
  then show ?thesis by (simp add: observed_def)
next
  case False
  from instant_now_me[of E d] obtain t d1 where d1: "instant_now E d = (Inr t, d1)" "me d1 = me d" by metis
  have "link_only (me d1) (me (report E (\<lambda>i. observed_ok (f64 E) (opts E) i (t - started)) d1))"
    by (rule link_only_report) (rule link_only_pool_reports)
  with d1 False show ?thesis by (simp add: observed_def)
qed

lemma note_statement_ok:
  assumes "utf8_ok sql"
  shows "\<exists>d'. note_statement E sql d = (Inr (), d') \<and> link_only (me d) (me d')"
proof (cases "link (me d)")
  case None
  then show ?thesis by (simp add: note_statement_def)
next
  case (Some l)
  from is_write_eq[OF assms] obtain w where "is_write sql = Inr w" by blast
  moreover have "link_only (me d) (me (report E (\<lambda>t (c, st). (c, observe_statement (opts E) t w c st)) d))"
    by (rule link_only_report) simp
  ultimately show ?thesis using Some by (simp add: note_statement_def)
qed

section \<open>Requests on a working connection\<close>

lemma set_stream_simps [simp]:
  "stream (me (set_stream s d)) = s" "settings (me (set_stream s d)) = settings (me d)"
  "link (me (set_stream s d)) = link (me d)" "client_endpoints (me (set_stream s d)) = client_endpoints (me d)"
  "proc (set_stream s d) = proc d" "pool (set_stream s d) = pool d"
  by (simp_all add: set_stream_def settings_def)

text \<open>A connection on which \<open>out\<close> has been sent since \<open>d\<close> and \<open>rest\<close> is still to come.\<close>

definition progressed :: "('s \<Rightarrow> bytes) \<Rightarrow> ('s \<Rightarrow> bytes) \<Rightarrow> ('w, 's, 'f) driver \<Rightarrow> bytes \<Rightarrow> bytes \<Rightarrow> ('w, 's, 'f) driver \<Rightarrow> bool" where
  "progressed sent pending d out rest d' \<longleftrightarrow>
     sent (stream (me d')) = sent (stream (me d)) @ out \<and> pending (stream (me d')) = rest
     \<and> settings (me d') = settings (me d) \<and> (link (me d') = None \<longleftrightarrow> link (me d) = None)"

lemma progressed_link_only:
  "progressed sent pending d out rest d1 \<Longrightarrow> link_only (me d1) (me d2) \<Longrightarrow> progressed sent pending d out rest d2"
  by (simp add: progressed_def link_only_def)

lemma progressed_trans:
  "progressed sent pending d out r1 d1 \<Longrightarrow> progressed sent pending d1 out2 r2 d2 \<Longrightarrow> progressed sent pending d (out @ out2) r2 d2"
  by (simp add: progressed_def)

lemma exchange_ok:
  assumes "duplex (io (net E)) sent pending" and "length payload \<le> MAX_FRAME_LEN" and "length f \<le> MAX_FRAME_LEN"
    and "pending (stream (me d)) = frame_bytes f @ rest"
  shows "\<exists>d1 d'. send E payload d = (Inr (), d1) \<and> recv E d1 = (Inr f, d')
    \<and> progressed sent pending d (frame_bytes payload) rest d'"
proof -
  from send_frame[OF assms(1,2)] obtain s1 where s1: "write_frame (wr (io (net E))) (stream (me d)) payload = Inr s1"
    "sent s1 = sent (stream (me d)) @ frame_bytes payload" "pending s1 = pending (stream (me d))" by blast
  from recv_frame[OF assms(1) _ assms(3), of s1 rest] s1(3) assms(4) obtain s2 where
    s2: "read_frame (rd (io (net E))) s1 = Inr (f, s2)" "pending s2 = rest" "sent s2 = sent s1" by auto
  have "send E payload d = (Inr (), set_stream s1 d)" "recv E (set_stream s1 d) = (Inr f, set_stream s2 (set_stream s1 d))"
    using s1(1) s2(1) by (simp_all add: send_def recv_def)
  moreover have "progressed sent pending d (frame_bytes payload) rest (set_stream s2 (set_stream s1 d))"
    using s1 s2 by (simp add: progressed_def)
  ultimately show ?thesis by blast
qed

definition answer :: "response \<Rightarrow> (driver_error, response) res" where
  "answer resp = (case resp of Error msg \<Rightarrow> Inl (Err (Server msg)) | _ \<Rightarrow> Inr resp)"

lemma call_ok:
  assumes "duplex (io (net E)) sent pending" and "length payload \<le> MAX_FRAME_LEN" and "length f \<le> MAX_FRAME_LEN"
    and "pending (stream (me d)) = frame_bytes f @ rest" and "response_decode f = Inr resp"
  shows "\<exists>d'. call E payload d = (answer resp, d') \<and> progressed sent pending d (frame_bytes payload) rest d'"
proof -
  from instant_now_me[of E d] obtain t d0 where d0: "instant_now E d = (Inr t, d0)" "me d0 = me d" by metis
  from exchange_ok[OF assms(1-3), of d0 rest] d0(2) assms(4) obtain d1 d2 where
    d2: "send E payload d0 = (Inr (), d1)" "recv E d1 = (Inr f, d2)" "progressed sent pending d0 (frame_bytes payload) rest d2" by auto
  from observed_Inr[of E t f d2] obtain d3 where d3: "observed E t (Inr f) d2 = (Inr f, d3)" "link_only (me d2) (me d3)" by blast
  have "attempt (sbind (send E payload) (\<lambda>_. recv E)) d0 = (Inr (Inr f), d2)" using d2 by (simp add: attempt_def)
  with d0 d3 assms(5) have "call E payload d = (answer resp, d3)"
    by (simp add: call_def answer_def split: response.split)
  moreover have "progressed sent pending d (frame_bytes payload) rest d3"
    using progressed_link_only[OF d2(3) d3(2)] d0(2) by (simp add: progressed_def)
  ultimately show ?thesis by blast
qed

lemma call_accepted:
  assumes "duplex (io (net E)) sent pending" and "length payload \<le> MAX_FRAME_LEN" and "length f \<le> MAX_FRAME_LEN"
    and "pending (stream (me d)) = frame_bytes f @ rest" and "response_decode f = Inr resp" and "\<nexists>m. resp = Error m"
  shows "\<exists>d'. call E payload d = (Inr resp, d') \<and> progressed sent pending d (frame_bytes payload) rest d'"
proof -
  have "answer resp = Inr resp" using assms(6) by (cases resp) (simp_all add: answer_def)
  with call_ok[OF assms(1-5)] show ?thesis by simp
qed

section \<open>Replaying a session\<close>

text \<open>The requests a fresh connection is sent before anything else, and answers that accept them.\<close>

definition database_requests :: "'s client \<Rightarrow> client_request list" where
  "database_requests c = (case client_database c of None \<Rightarrow> [] | Some db \<Rightarrow> [Query (use_sql db) (default_consistency c)])"

definition budget_requests :: "'s client \<Rightarrow> client_request list" where
  "budget_requests c = (if scan_budget_rows c = 0 then [] else [Query (budget_sql (scan_budget_rows c)) (default_consistency c)])"

definition session_requests :: "'s client \<Rightarrow> client_request list" where
  "session_requests c = database_requests c @ budget_requests c"

definition accepts :: "bytes \<Rightarrow> bool" where
  "accepts f \<longleftrightarrow> length f \<le> MAX_FRAME_LEN \<and> (\<exists>r. response_decode f = Inr r \<and> (\<nexists>m. r = Error m))"

definition framed :: "client_request list \<Rightarrow> bytes" where
  "framed qs = concat (map (\<lambda>q. frame_bytes (client_encode q)) qs)"

definition sendable :: "client_request list \<Rightarrow> bool" where
  "sendable qs \<longleftrightarrow> (\<forall>q \<in> set qs. length (client_encode q) \<le> MAX_FRAME_LEN)"

lemma framed_simps [simp]: "framed [] = []" "framed (q # qs) = frame_bytes (client_encode q) @ framed qs" "framed (qs @ rs) = framed qs @ framed rs"
  by (simp_all add: framed_def)

lemma sendable_simps [simp]: "sendable []" "sendable (q # qs) \<longleftrightarrow> length (client_encode q) \<le> MAX_FRAME_LEN \<and> sendable qs"
    "sendable (qs @ rs) \<longleftrightarrow> sendable qs \<and> sendable rs"
  by (auto simp: sendable_def)

lemma progressed_refl: "pending (stream (me d)) = rest \<Longrightarrow> progressed sent pending d [] rest d"
  by (simp add: progressed_def)

lemma progressed_settings: "progressed sent pending d out rest d' \<Longrightarrow> session_requests (me d') = session_requests (me d)
    \<and> database_requests (me d') = database_requests (me d) \<and> budget_requests (me d') = budget_requests (me d)"
  by (auto simp: progressed_def settings_def session_requests_def database_requests_def budget_requests_def split: option.split)

lemma send_hello_ok:
  assumes "duplex (io (net E)) sent pending" and "sendable [hello E]" and "length h \<le> MAX_FRAME_LEN"
    and "pending (stream (me d)) = frame_bytes h @ rest"
  shows "\<exists>d'. send_hello E d = (Inr (), d') \<and> progressed sent pending d (framed [hello E]) rest d'"
proof -
  from assms(2) have "length (client_encode (hello E)) \<le> MAX_FRAME_LEN" by simp
  from exchange_ok[OF assms(1) this assms(3,4)] obtain d1 d2 where
    d: "send E (client_encode (hello E)) d = (Inr (), d1)" "recv E d1 = (Inr h, d2)"
    "progressed sent pending d (frame_bytes (client_encode (hello E))) rest d2" by blast
  then show ?thesis by (auto simp: send_hello_def attempt_def forget_def)
qed

lemma apply_settings_ok:
  assumes d: "duplex (io (net E)) sent pending" and fs: "list_all accepts fs"
    and pend: "pending (stream (me d)) = concat (map frame_bytes fs) @ rest"
  shows "length fs = length (database_requests (me d)) \<Longrightarrow> sendable (database_requests (me d)) \<Longrightarrow>
      \<exists>d'. apply_database E d = (Inr (), d') \<and> progressed sent pending d (framed (database_requests (me d))) rest d'"
    and "length fs = length (budget_requests (me d)) \<Longrightarrow> sendable (budget_requests (me d)) \<Longrightarrow>
      \<exists>d'. apply_scan_budget E d = (Inr (), d') \<and> progressed sent pending d (framed (budget_requests (me d))) rest d'"
proof -
  have one: "\<exists>d'. sbind (roundtrip E q) (\<lambda>_. sret ()) d = (Inr (), d') \<and> progressed sent pending d (framed [q]) rest d'"
    if "length fs = 1" "length (client_encode q) \<le> MAX_FRAME_LEN" for q
  proof -
    from that(1) obtain f where f: "fs = [f]" by (auto simp: length_Suc_conv)
    with fs obtain r where r: "length f \<le> MAX_FRAME_LEN" "response_decode f = Inr r" "\<nexists>m. r = Error m"
      by (auto simp: accepts_def)
    from call_accepted[OF d that(2) r(1) _ r(2,3), of d rest] pend f show ?thesis
      by (auto simp: roundtrip_def)
  qed
  show "\<exists>d'. apply_database E d = (Inr (), d') \<and> progressed sent pending d (framed (database_requests (me d))) rest d'"
    if "length fs = length (database_requests (me d))" "sendable (database_requests (me d))"
  proof (cases "client_database (me d)")
    case None
    with that pend show ?thesis by (simp add: apply_database_def database_requests_def progressed_refl)
  next
    case (Some db)
    with that one[of "Query (use_sql db) (default_consistency (me d))"] show ?thesis
      by (simp add: apply_database_def database_requests_def)
  qed
  show "\<exists>d'. apply_scan_budget E d = (Inr (), d') \<and> progressed sent pending d (framed (budget_requests (me d))) rest d'"
    if "length fs = length (budget_requests (me d))" "sendable (budget_requests (me d))"
  proof (cases "scan_budget_rows (me d) = 0")
    case True
    with that pend show ?thesis by (simp add: apply_scan_budget_def budget_requests_def progressed_refl)
  next
    case False
    with that one[of "Query (budget_sql (scan_budget_rows (me d))) (default_consistency (me d))"] show ?thesis
      by (simp add: apply_scan_budget_def budget_requests_def)
  qed
qed

lemma replay_session_ok:
  assumes d: "duplex (io (net E)) sent pending" and "sendable (hello E # session_requests (me d))"
    and "length h \<le> MAX_FRAME_LEN" and "list_all accepts fs" and "length fs = length (session_requests (me d))"
    and "pending (stream (me d)) = frame_bytes h @ concat (map frame_bytes fs) @ rest"
  shows "\<exists>d'. replay_session E d = (Inr (), d') \<and> progressed sent pending d (framed (hello E # session_requests (me d))) rest d'"
proof -
  define k where "k = length (database_requests (me d))"
  have fs: "fs = take k fs @ drop k fs" "list_all accepts (take k fs)" "list_all accepts (drop k fs)"
    using assms(4) by (auto simp: list_all_iff dest: in_set_takeD in_set_dropD)
  have len: "length (take k fs) = length (database_requests (me d))" "length (drop k fs) = length (budget_requests (me d))"
    using assms(5) by (auto simp: k_def session_requests_def)
  have pend: "concat (map frame_bytes fs) = concat (map frame_bytes (take k fs)) @ concat (map frame_bytes (drop k fs))"
    by (metis append_take_drop_id concat_append map_append)
  have sd: "sendable [hello E]" "sendable (database_requests (me d))" "sendable (budget_requests (me d))"
    using assms(2) by (simp_all add: session_requests_def)
  from send_hello_ok[OF d sd(1) assms(3,6)] obtain d1 where d1: "send_hello E d = (Inr (), d1)"
    "progressed sent pending d (framed [hello E]) (concat (map frame_bytes fs) @ rest) d1" by blast
  note st1 = progressed_settings[OF d1(2)]
  from apply_settings_ok(1)[OF d fs(2), of d1 "concat (map frame_bytes (drop k fs)) @ rest"] d1(2) len(1) sd(2) st1 pend
  obtain d2 where d2: "apply_database E d1 = (Inr (), d2)"
    "progressed sent pending d1 (framed (database_requests (me d))) (concat (map frame_bytes (drop k fs)) @ rest) d2"
    by (auto simp: progressed_def)
  note st2 = progressed_settings[OF d2(2)]
  from apply_settings_ok(2)[OF d fs(3), of d2 rest] d2(2) len(2) sd(3) st1 st2
  obtain d3 where d3: "apply_scan_budget E d2 = (Inr (), d3)" "progressed sent pending d2 (framed (budget_requests (me d))) rest d3"
    by (auto simp: progressed_def)
  from progressed_trans[OF progressed_trans[OF d1(2) d2(2)] d3(2)] d1(1) d2(1) d3(1) show ?thesis
    by (auto simp: replay_session_def session_requests_def)
qed

section \<open>Settings survive every request\<close>

definition keeps :: "(('w, 's, 'f) driver, 'e, 'a) op \<Rightarrow> bool" where
  "keeps m \<longleftrightarrow> (\<forall>d. settings (me (snd (m d))) = settings (me d) \<and> (link (me (snd (m d))) = None \<longleftrightarrow> link (me d) = None))"

lemma keepsD: "keeps m \<Longrightarrow> m d = (r, d') \<Longrightarrow> settings (me d') = settings (me d) \<and> (link (me d') = None \<longleftrightarrow> link (me d) = None)"
  unfolding keeps_def by (drule spec[of _ d]) simp

lemma keepsI: "(\<And>d r d'. m d = (r, d') \<Longrightarrow> settings (me d') = settings (me d) \<and> (link (me d') = None \<longleftrightarrow> link (me d) = None)) \<Longrightarrow> keeps m"
  unfolding keeps_def by (metis prod.collapse)

lemma keeps_sbind:
  assumes "keeps m" and "\<And>x. keeps (f x)"
  shows "keeps (sbind m f)"
proof (rule keepsI)
  fix d r d'
  assume eq: "sbind m f d = (r, d')"
  obtain q d1 where q: "m d = (q, d1)" by fastforce
  show "settings (me d') = settings (me d) \<and> (link (me d') = None \<longleftrightarrow> link (me d) = None)"
    using keepsD[OF assms(1) q] keepsD[OF assms(2), of _ d1 r d'] eq q by (cases q) (simp_all add: sbind_def)
qed

lemma keeps_pure: "keeps (slift r)" "keeps (sret x)"
  by (simp_all add: keeps_def)

lemma keeps_attempt: "keeps m \<Longrightarrow> keeps (attempt m)"
  by (rule keepsI) (auto simp: attempt_def dest: keepsD split: prod.splits)

lemma keeps_frames: "keeps (send E p)" "keeps (recv E)" "keeps (instant_now E)"
  by (auto simp: keeps_def send_def recv_def instant_now_def Let_def split: sum.splits prod.splits)

lemma keeps_transport: "keeps (transport E r)"
proof -
  have "link_only (me d) (me (report E (transport_failed (opts E)) d))" for d
    by (rule link_only_report) (rule link_only_pool_reports)
  then show ?thesis by (auto simp: keeps_def transport_def link_only_def split: sum.splits fault.splits)
qed

lemma keeps_observed: "keeps (observed E t r)"
proof (cases r)
  case (Inl e)
  then show ?thesis by (simp add: observed_def keeps_transport)
next
  case (Inr v)
  show ?thesis unfolding keeps_def
  proof
    fix d
    from observed_Inr[of E t v d] Inr show "settings (me (snd (observed E t r d))) = settings (me d) \<and>
        (link (me (snd (observed E t r d))) = None \<longleftrightarrow> link (me d) = None)"
      by (auto simp: link_only_def)
  qed
qed

lemma keeps_call: "keeps (call E p)"
  unfolding call_def
  by (intro keeps_sbind keeps_attempt keeps_frames keeps_observed keeps_pure) (auto split: response.split intro: keeps_pure)

lemma redial_order_me: "redial_order E d = (eps, d') \<Longrightarrow> me d' = me d"
  by (auto simp: redial_order_def Let_def split: option.splits prod.splits)

lemma take_over_me:
  "stream (me (take_over ordered ep s d)) = s" "connected (me (take_over ordered ep s d)) = ep"
  "session_requests (me (take_over ordered ep s d)) = session_requests (me d)"
  "database_requests (me (take_over ordered ep s d)) = database_requests (me d)"
  "client_database (me (take_over ordered ep s d)) = client_database (me d)"
  "settings (me (take_over ordered ep s d)) = (case settings (me d) of (l, _, r) \<Rightarrow> (l, ep, r))"
  by (auto simp: take_over_def reconnected_def Let_def settings_def session_requests_def database_requests_def budget_requests_def
      split: option.splits prod.splits)

lemma session_requests_settings:
  "settings c = settings c' \<Longrightarrow> session_requests c = session_requests c' \<and> database_requests c = database_requests c'"
  by (auto simp: settings_def session_requests_def database_requests_def budget_requests_def split: option.splits)

text \<open>A first attempt that fails in the transport, and the connection that replaces it.\<close>

definition lost :: "('w, 't, 's, 'h, 'f) env \<Rightarrow> rstr \<Rightarrow> consistency \<Rightarrow> ('w, 's, 'f) driver \<Rightarrow> rstr \<Rightarrow> 's \<Rightarrow> bool" where
  "lost E sql c d ep s \<longleftrightarrow> (\<exists>e d1 eps d2 p. try_execute E sql c d = (Inl (Err (Io e)), d1)
     \<and> redial_order E d1 = (ep # eps, d2) \<and> dial (net E) ep (client_login (me d2)) (proc d2) = (Inr s, p))"

lemma lost_failover:
  assumes "lost E sql c d ep s"
  shows "\<exists>d3. with_failover E (try_execute E sql c) again d = sbind (replay_session E) (\<lambda>_. again) d3
    \<and> stream (me d3) = s \<and> connected (me d3) = ep \<and> settings (me d3) = (case settings (me d) of (l, _, r) \<Rightarrow> (l, ep, r))
    \<and> session_requests (me d3) = session_requests (me d) \<and> database_requests (me d3) = database_requests (me d)"
proof -
  from assms obtain e d1 eps d2 p where l: "try_execute E sql c d = (Inl (Err (Io e)), d1)"
    "redial_order E d1 = (ep # eps, d2)" "dial (net E) ep (client_login (me d2)) (proc d2) = (Inr s, p)" unfolding lost_def by blast
  let ?d3 = "take_over (ep # eps) ep s (d2\<lparr>proc := p\<rparr>)"
  have "settings (me d2) = settings (me d)"
    using keeps_call[of E, unfolded keeps_def] l(1) redial_order_me[OF l(2)] by (metis snd_conv try_execute_def)
  then have me: "settings (me d2) = settings (me d)" "session_requests (me d2) = session_requests (me d)"
    "database_requests (me d2) = database_requests (me d)"
    using session_requests_settings by blast+
  have "reconnect E d1 = replay_session E ?d3" using l by (simp add: reconnect_def)
  then have "with_failover E (try_execute E sql c) again d = sbind (replay_session E) (\<lambda>_. again) ?d3"
    using l(1) by (simp add: with_failover_def sbind_def)
  then show ?thesis using me by (intro exI[of _ ?d3]) (simp add: take_over_me)
qed

lemma noted:
  assumes "utf8_ok sql" and "m d = (answer resp, d1)" and "progressed sent pending d0 out rest d1"
  shows "\<exists>d'. sbind m (\<lambda>resp. sbind (note_statement E sql) (\<lambda>_. sret resp)) d = (answer resp, d')
    \<and> progressed sent pending d0 out rest d'"
proof -
  from note_statement_ok[OF assms(1), of E d1] obtain d2 where d2: "note_statement E sql d1 = (Inr (), d2)" "link_only (me d1) (me d2)"
    by blast
  then show ?thesis
    using assms(2,3) progressed_link_only[OF assms(3) d2(2)] by (cases "answer resp") (auto simp: sbind_def)
qed

lemma execute_ok:
  assumes "duplex (io (net E)) sent pending" and "utf8_ok sql"
    and "length (request_encode \<lparr>req_sql = sql, req_consistency = c\<rparr>) \<le> MAX_FRAME_LEN" and "length f \<le> MAX_FRAME_LEN"
    and "pending (stream (me d)) = frame_bytes f @ rest" and "response_decode f = Inr resp"
  shows "\<exists>d'. execute_with E sql c d = (answer resp, d')
    \<and> progressed sent pending d (frame_bytes (request_encode \<lparr>req_sql = sql, req_consistency = c\<rparr>)) rest d'"
proof -
  from call_ok[OF assms(1,3-6)] obtain d1 where d1: "try_execute E sql c d = (answer resp, d1)"
    "progressed sent pending d (frame_bytes (request_encode \<lparr>req_sql = sql, req_consistency = c\<rparr>)) rest d1"
    by (auto simp: try_execute_def)
  then have "with_failover E (try_execute E sql c) (try_execute E sql c) d = (answer resp, d1)"
    by (cases resp) (simp_all add: with_failover_def answer_def)
  from noted[of sql "with_failover E (try_execute E sql c) (try_execute E sql c)" d resp d1, OF assms(2) this d1(2)]
  show ?thesis by (simp add: execute_with_def)
qed

section \<open>A sample connection\<close>

text \<open>Every dial reaches a server that accepts the client certificate and then answers with \<open>inbox\<close>.\<close>

definition sample_outcome :: bytes where
  "sample_outcome = auth_outcome_encode (AuthOk (replicate 32 0))"

definition sample_env :: "bytes \<Rightarrow> (unit, bytes \<times> bytes, bytes \<times> bytes, unit, nat) env" where
  "sample_env inbox = \<lparr>
     net = \<lparr>io = mem_stream, tcp_connect = (\<lambda>ep w. (Inr ([], frame_bytes sample_outcome @ inbox), w)),
        connect_tls = (\<lambda>t _. Inr t), plain = (\<lambda>t. t), channel_binding = (\<lambda>_. None), kerberos = None, gss_rounds = 0, process_id = 1\<rparr>,
     after_write = (\<lambda>s _. s), after_read = (\<lambda>s. s), clock = (\<lambda>w. (0, w)), pool_in = (\<lambda>w. (sample_sys, w)),
     resolve = (\<lambda>a w. (Inr [a], w)), connect_timeout = (\<lambda>_ _ w. (True, w)), f64 = sample_f64, opts = options_default 3,
     show_io = (\<lambda>_. []), show_proto = (\<lambda>_. []), show_response = (\<lambda>_. []), pkg_version = [0x31]\<rparr>"

definition cert_login :: login where
  "cert_login = \<lparr>login_username = [], login_password = [], gssapi_spn = None, cert_auth = True, login_tls = None\<rparr>"

definition sample_driver :: "(unit, bytes \<times> bytes, nat) driver" where
  "sample_driver = \<lparr>me = (new_client [[0x61]] cert_login None [0x61] ([], []))\<lparr>client_database := Some [0x64], scan_budget_rows := 5\<rparr>,
     proc = sample_process, pool = \<lparr>members = [], idle = [], rr = 0, affinity = [], discovery_off = False, next_refresh = 0,
       closed = False, maintainer = False, rng = 1\<rparr>\<rparr>"

lemma sample_env_duplex: "duplex (io (net (sample_env inbox))) fst snd"
  by (simp add: sample_env_def mem_stream_duplex)

lemma sample_dial: "\<exists>s p. dial (net (sample_env inbox)) ep cert_login q = (Inr s, p) \<and> snd s = inbox"
proof -
  have l: "length (auth_start_encode \<lparr>username = [], client_nonce = [], mechanism = External\<rparr>) \<le> MAX_FRAME_LEN"
    by (simp add: auth_start_encode_def put_str_def put_bytes_def MAX_FRAME_LEN_def)
  have o: "length sample_outcome \<le> MAX_FRAME_LEN" "auth_outcome_decode sample_outcome = Inr (AuthOk (replicate 32 0))"
    using outcome_signature[of "replicate 32 0"] by (simp_all add: sample_outcome_def)
  from send_frame[OF mem_stream_duplex l, of "([], frame_bytes sample_outcome @ inbox)"] obtain s1 where
    s1: "write_frame (wr mem_stream) ([], frame_bytes sample_outcome @ inbox) (auth_start_encode \<lparr>username = [], client_nonce = [], mechanism = External\<rparr>) = Inr s1"
      "snd s1 = frame_bytes sample_outcome @ inbox" by auto
  from recv_frame[OF mem_stream_duplex s1(2) o(1)] obtain s2 where "read_frame (rd mem_stream) s1 = Inr (sample_outcome, s2)" "snd s2 = inbox" by blast
  with s1 o(2) show ?thesis
    by (simp add: dial_def sample_env_def cert_login_def handshake_external_def outcome_def Let_def)
qed

lemma sample_lost:
  assumes "length (request_encode \<lparr>req_sql = sql, req_consistency = c\<rparr>) \<le> MAX_FRAME_LEN"
  shows "\<exists>s. lost (sample_env inbox) sql c sample_driver [0x61] s \<and> snd s = inbox"
proof -
  let ?E = "sample_env inbox" and ?q = "request_encode \<lparr>req_sql = sql, req_consistency = c\<rparr>"
  from send_frame[OF mem_stream_duplex assms, of "([], [])"] obtain s1 where
    s1: "write_frame (wr mem_stream) ([], []) ?q = Inr s1" "snd s1 = []" by auto
  have r: "read_frame (rd mem_stream) s1 = Inl (Err UnexpectedEof)"
    using recv_eof[OF mem_stream_duplex, of s1] s1(2) by simp
  have now: "instant_now ?E sample_driver = (Inr 0, sample_driver)"
    by (simp add: instant_now_def sample_env_def)
  have "send ?E ?q sample_driver = (Inr (), set_stream s1 sample_driver)"
    using s1(1) by (simp add: send_def sample_env_def sample_driver_def new_client_def)
  moreover have "recv ?E (set_stream s1 sample_driver) = (Inl (Err UnexpectedEof), set_stream s1 (set_stream s1 sample_driver))"
    using r by (simp add: recv_def sample_env_def)
  ultimately have "attempt (sbind (send ?E ?q) (\<lambda>_. recv ?E)) sample_driver
      = (Inr (Inl (Err UnexpectedEof)), set_stream s1 (set_stream s1 sample_driver))" by (simp add: attempt_def)
  moreover have "report ?E f (set_stream s1 (set_stream s1 sample_driver)) = set_stream s1 (set_stream s1 sample_driver)" for f
    by (simp add: report_def, simp add: sample_driver_def new_client_def)
  ultimately have t: "try_execute ?E sql c sample_driver = (Inl (Err (Io UnexpectedEof)), set_stream s1 (set_stream s1 sample_driver))"
    using now by (simp add: try_execute_def call_def observed_def transport_def)
  let ?d = "set_stream s1 (set_stream s1 sample_driver)"
  from redial_order_me have o: "\<exists>d2. redial_order ?E ?d = ([[0x61]], d2) \<and> me d2 = me ?d"
    by (auto simp: redial_order_def order_by_latency_def sample_driver_def new_client_def set_stream_def)
  then obtain d2 where d2: "redial_order ?E ?d = ([[0x61]], d2)" "client_login (me d2) = cert_login"
    by (auto simp: set_stream_def sample_driver_def new_client_def)
  with t sample_dial[of inbox "[0x61]" "proc d2"] show ?thesis unfolding lost_def by metis
qed

lemma sample_ddl: "response_decode (response_encode Ddl) = Inr Ddl" "accepts (response_encode Ddl)"
  "length (response_encode Ddl) \<le> MAX_FRAME_LEN"
  "response_decode (response_encode (Error [0x6E])) = Inr (Error [0x6E])" "length (response_encode (Error [0x6E])) \<le> MAX_FRAME_LEN"
proof -
  show "response_decode (response_encode Ddl) = Inr Ddl" "response_decode (response_encode (Error [0x6E])) = Inr (Error [0x6E])"
    using response_decode_encode[of Ddl "[]"] response_decode_encode[of "Error [0x6E]" "[]"]
    by (simp_all add: response_ok_def str_ok_def fits_def response_encode_simps)
  then show "accepts (response_encode Ddl)" by (auto simp: accepts_def response_encode_simps MAX_FRAME_LEN_def)
qed (simp_all add: response_encode_simps MAX_FRAME_LEN_def)

section \<open>Opening\<close>

text \<open>The state after dialling each of the endpoints in vain.\<close>

primrec all_fail :: "('w, 't, 's, 'h, 'f) env \<Rightarrow> login \<Rightarrow> pool_link option \<Rightarrow> rstr list
    \<Rightarrow> 'w process \<times> ('s, 'f) balancer_state \<Rightarrow> ('w process \<times> ('s, 'f) balancer_state) option" where
  "all_fail E lg lnk [] ps = Some ps"
| "all_fail E lg lnk (ep # eps) ps = (case dial (net E) ep lg (fst ps) of
     (Inl (Err e), p) \<Rightarrow> all_fail E lg lnk eps (dial_failed E lnk ep e (p, snd ps))
   | _ \<Rightarrow> None)"

lemma send_hello_no_error: "send_hello E d \<noteq> (Inl (Err e), d')"
proof -
  have forget: "forget r d \<noteq> (Inl (Err e), d')" for r :: "(io_error, 'z) res" and d
    by (auto simp: forget_def ok_of_def rbind_def split: sum.splits fault.splits)
  show ?thesis by (auto simp: send_hello_def attempt_def forget sbind_def split: sum.splits prod.splits)
qed

lemma open_loop_fails:
  "(\<exists>m. open_loop E ordered lg lnk said eps ps = (Inl (Err (NoEndpoint m)), ps')) \<longleftrightarrow> all_fail E lg lnk eps ps = Some ps'"
proof (induction eps arbitrary: said ps)
  case (Cons ep eps)
  obtain p st where ps: "ps = (p, st)" by fastforce
  obtain r p1 where r: "dial (net E) ep lg p = (r, p1)" by fastforce
  show ?case
  proof (cases r)
    case (Inl x)
    then show ?thesis using ps r Cons.IH by (cases x) (auto simp: Let_def split: prod.splits)
  next
    case (Inr s)
    obtain q d where q: "send_hello E \<lparr>me = new_client ordered lg lnk ep s, proc = p1, pool = st\<rparr> = (q, d)" by fastforce
    then have "q \<noteq> Inl (Err e)" for e using send_hello_no_error by metis
    with ps r Inr q show ?thesis by (cases q) auto
  qed
qed auto

lemma open_loop_opens:
  "open_loop E ordered lg lnk said eps ps = (Inr c, ps') \<longleftrightarrow>
     (\<exists>pre ep post p st s p' d. eps = pre @ ep # post \<and> all_fail E lg lnk pre ps = Some (p, st)
        \<and> dial (net E) ep lg p = (Inr s, p') \<and> send_hello E \<lparr>me = new_client ordered lg lnk ep s, proc = p', pool = st\<rparr> = (Inr (), d)
        \<and> c = me d \<and> ps' = (proc d, pool d))" (is "?L eps said ps \<longleftrightarrow> ?R eps ps")
proof (induction eps arbitrary: said ps)
  case (Cons ep eps)
  obtain p st where ps: "ps = (p, st)" by fastforce
  obtain r p1 where r: "dial (net E) ep lg p = (r, p1)" by fastforce
  have split: "?R (ep # eps) ps \<longleftrightarrow>
     (\<exists>s p' d. dial (net E) ep lg p = (Inr s, p') \<and> send_hello E \<lparr>me = new_client ordered lg lnk ep s, proc = p', pool = st\<rparr> = (Inr (), d)
        \<and> c = me d \<and> ps' = (proc d, pool d))
     \<or> (\<exists>e p1. dial (net E) ep lg p = (Inl (Err e), p1) \<and> ?R eps (dial_failed E lnk ep e (p1, st)))"
    (is "_ \<longleftrightarrow> ?now \<or> ?later")
  proof
    assume "?R (ep # eps) ps"
    then obtain pre e2 post p2 st2 s p' d where x: "ep # eps = pre @ e2 # post" "all_fail E lg lnk pre ps = Some (p2, st2)"
      "dial (net E) e2 lg p2 = (Inr s, p')" "send_hello E \<lparr>me = new_client ordered lg lnk e2 s, proc = p', pool = st2\<rparr> = (Inr (), d)"
      "c = me d" "ps' = (proc d, pool d)" by blast
    show "?now \<or> ?later"
    proof (cases pre)
      case Nil
      with x ps show ?thesis by auto
    next
      case (Cons a pre')
      with x(1,2) ps obtain e p1 where "dial (net E) ep lg p = (Inl (Err e), p1)"
        "all_fail E lg lnk pre' (dial_failed E lnk ep e (p1, st)) = Some (p2, st2)"
        by (auto split: prod.splits sum.splits fault.splits)
      with x Cons show ?thesis by fastforce
    qed
  next
    assume "?now \<or> ?later"
    then show "?R (ep # eps) ps"
    proof
      assume ?now
      with ps show ?thesis by (intro exI[of _ "[]"] exI[of _ ep] exI[of _ eps]) auto
    next
      assume ?later
      then obtain e p1 pre e2 post p2 st2 s p' d where x: "dial (net E) ep lg p = (Inl (Err e), p1)" "eps = pre @ e2 # post"
        "all_fail E lg lnk pre (dial_failed E lnk ep e (p1, st)) = Some (p2, st2)"
        "dial (net E) e2 lg p2 = (Inr s, p')" "send_hello E \<lparr>me = new_client ordered lg lnk e2 s, proc = p', pool = st2\<rparr> = (Inr (), d)"
        "c = me d" "ps' = (proc d, pool d)" by blast
      with ps show ?thesis by (intro exI[of _ "ep # pre"] exI[of _ e2] exI[of _ post]) auto
    qed
  qed
  show ?case
  proof (cases r)
    case (Inl x)
    then show ?thesis unfolding split using ps r Cons.IH by (cases x) (simp_all add: Let_def split: prod.splits)
  next
    case (Inr s)
    then show ?thesis unfolding split using ps r by (auto simp: rbind_eq_Inr split: prod.splits)
  qed
qed auto

lemma probe_all_endpoints: "probe_all E es w = (scored, w') \<Longrightarrow> map snd scored = es"
  by (induction es arbitrary: w scored w') (auto simp: Let_def split: prod.splits)

section \<open>Properties\<close>

text \<open>On a working connection a statement is sent exactly once, as one frame, its answer is returned (an
  error answer as a server error), exactly its response is read, and neither the connection nor the
  session settings change.\<close>

theorem execute_delivers:
  assumes "duplex (io (net E)) sent pending" and "utf8_ok sql"
    and "length (request_encode \<lparr>req_sql = sql, req_consistency = c\<rparr>) \<le> MAX_FRAME_LEN" and "length f \<le> MAX_FRAME_LEN"
    and "pending (stream (me d)) = frame_bytes f @ rest" and "response_decode f = Inr resp"
  shows "\<exists>d'. execute_with E sql c d = (answer resp, d')
    \<and> progressed sent pending d (frame_bytes (request_encode \<lparr>req_sql = sql, req_consistency = c\<rparr>)) rest d'"
  by (rule execute_ok[OF assms])

theorem execute_delivers_witness:
  "\<exists>d'. execute_with (sample_env []) (of_str ''x'') One (set_stream ([], frame_bytes (response_encode Ddl)) sample_driver) = (Inr Ddl, d')"
  using execute_delivers[OF sample_env_duplex, of "of_str ''x''" One "response_encode Ddl"
      "set_stream ([], frame_bytes (response_encode Ddl)) sample_driver" "[]" Ddl "[]"] sample_ddl
  by (auto simp: answer_def of_str_def request_encode_def write_bytes_len MAX_FRAME_LEN_def)

text \<open>C27: A statement survives the loss of its connection: when the first attempt fails in the transport and
  the first endpoint of the redial order (the lost one only when there is no other) accepts the login, the new connection is sent, in this order, the client's name, the
  \<^verbatim>\<open>USE\<close> of the bound database, the scan budget, and then the statement, each exactly once; the caller gets
  the statement's answer, and the settings are the old ones, on the new endpoint.\<close>

theorem failover_replays_session:
  assumes "duplex (io (net E)) sent pending" and "utf8_ok sql" and "lost E sql c d ep s"
    and "sendable (hello E # session_requests (me d))"
    and "length (request_encode \<lparr>req_sql = sql, req_consistency = c\<rparr>) \<le> MAX_FRAME_LEN"
    and "length h \<le> MAX_FRAME_LEN" and "list_all accepts fs" and "length fs = length (session_requests (me d))"
    and "length f \<le> MAX_FRAME_LEN" and "response_decode f = Inr resp"
    and "pending s = frame_bytes h @ concat (map frame_bytes fs) @ frame_bytes f @ rest"
  shows "\<exists>d'. execute_with E sql c d = (answer resp, d')
    \<and> sent (stream (me d')) = sent s @ framed (hello E # session_requests (me d))
        @ frame_bytes (request_encode \<lparr>req_sql = sql, req_consistency = c\<rparr>)
    \<and> pending (stream (me d')) = rest
    \<and> settings (me d') = (case settings (me d) of (l, _, r) \<Rightarrow> (l, ep, r))"
proof -
  let ?again = "try_execute E sql c"
  from lost_failover[OF assms(3), of ?again] obtain d3 where
    d3: "with_failover E ?again ?again d = sbind (replay_session E) (\<lambda>_. ?again) d3" "stream (me d3) = s"
    "settings (me d3) = (case settings (me d) of (l, _, r) \<Rightarrow> (l, ep, r))" "session_requests (me d3) = session_requests (me d)" by blast
  from replay_session_ok[OF assms(1) _ assms(6,7), of d3 "frame_bytes f @ rest"] d3 assms(4,8,11) obtain d4 where
    d4: "replay_session E d3 = (Inr (), d4)" "progressed sent pending d3 (framed (hello E # session_requests (me d))) (frame_bytes f @ rest) d4"
    by auto
  from call_ok[OF assms(1,5,9) _ assms(10), of d4 rest] d4(2) obtain d5 where d5: "?again d4 = (answer resp, d5)"
    "progressed sent pending d4 (frame_bytes (request_encode \<lparr>req_sql = sql, req_consistency = c\<rparr>)) rest d5"
    by (auto simp: progressed_def try_execute_def)
  have "with_failover E ?again ?again d = (answer resp, d5)" using d3(1) d4(1) d5(1) by simp
  from noted[of sql "with_failover E ?again ?again" d resp d5, OF assms(2) this progressed_trans[OF d4(2) d5(2)]]
  show ?thesis using d3(2,3) by (auto simp: execute_with_def progressed_def)
qed

theorem failover_replays_session_witness:
  "\<exists>d'. execute_with (sample_env (frame_bytes [] @ concat (replicate 3 (frame_bytes (response_encode Ddl))))) [0x78] One sample_driver = (Inr Ddl, d')
    \<and> client_database (me d') = Some [0x64] \<and> scan_budget_rows (me d') = 5"
proof -
  let ?in = "frame_bytes [] @ concat (replicate 3 (frame_bytes (response_encode Ddl)))" and ?ddl = "response_encode Ddl"
  have q: "length (request_encode \<lparr>req_sql = [0x78], req_consistency = One\<rparr>) \<le> MAX_FRAME_LEN"
    by (simp add: request_encode_def write_bytes_len MAX_FRAME_LEN_def)
  have r: "session_requests (me sample_driver) = [Query (use_sql [0x64]) Quorum, Query (budget_sql 5) Quorum]"
    by (simp add: session_requests_def database_requests_def budget_requests_def sample_driver_def new_client_def)
  have sd: "sendable (hello (sample_env ?in) # session_requests (me sample_driver))"
    unfolding r by (simp add: hello_def client_encode_simps sample_env_def use_sql_def budget_sql_def double_byte_def of_str_def
        show_nat.simps MAX_FRAME_LEN_def)
  from sample_lost[OF q, of ?in] obtain s where s: "lost (sample_env ?in) [0x78] One sample_driver [0x61] s" "snd s = ?in" by blast
  have "\<exists>d'. execute_with (sample_env ?in) [0x78] One sample_driver = (answer Ddl, d')
      \<and> fst (stream (me d')) = fst s @ framed (hello (sample_env ?in) # session_requests (me sample_driver)) @ frame_bytes (request_encode \<lparr>req_sql = [0x78], req_consistency = One\<rparr>)
      \<and> snd (stream (me d')) = [] \<and> settings (me d') = (case settings (me sample_driver) of (l, _, r) \<Rightarrow> (l, [0x61], r))"
    by (rule failover_replays_session[OF sample_env_duplex _ s(1) sd q, where h = "[]" and fs = "[?ddl, ?ddl]" and f = ?ddl])
      (use sample_ddl s(2) in \<open>simp_all add: r numeral_3_eq_3\<close>)
  then show ?thesis by (auto simp: answer_def settings_def sample_driver_def new_client_def)
qed

text \<open>C28: When the endpoint failed over to refuses the \<^verbatim>\<open>USE\<close> of the bound database, the caller gets that error
  once; the connection stays, still recorded as bound to the database, and the next statement is sent
  and answered on it although no \<^verbatim>\<open>USE\<close> took effect there.\<close>

theorem failover_drops_database:
  assumes "duplex (io (net E)) sent pending" and "utf8_ok sql2" and "lost E sql c d ep s"
    and "client_database (me d) = Some db" and "sendable [hello E, Query (use_sql db) (default_consistency (me d))]"
    and "length (request_encode \<lparr>req_sql = sql2, req_consistency = c2\<rparr>) \<le> MAX_FRAME_LEN"
    and "length h \<le> MAX_FRAME_LEN" and "length u \<le> MAX_FRAME_LEN" and "length f \<le> MAX_FRAME_LEN"
    and "response_decode u = Inr (Error m)" and "response_decode f = Inr resp"
    and "pending s = frame_bytes h @ frame_bytes u @ frame_bytes f @ rest"
  shows "\<exists>d' d''. execute_with E sql c d = (Inl (Err (Server m)), d') \<and> client_database (me d') = Some db
    \<and> execute_with E sql2 c2 d' = (answer resp, d'') \<and> connected (me d'') = ep
    \<and> sent (stream (me d'')) = sent s @ framed [hello E, Query (use_sql db) (default_consistency (me d))]
        @ frame_bytes (request_encode \<lparr>req_sql = sql2, req_consistency = c2\<rparr>)"
proof -
  let ?again = "try_execute E sql c" and ?use = "Query (use_sql db) (default_consistency (me d))"
  from lost_failover[OF assms(3), of ?again] obtain d3 where
    d3: "with_failover E ?again ?again d = sbind (replay_session E) (\<lambda>_. ?again) d3" "stream (me d3) = s"
    "settings (me d3) = (case settings (me d) of (l, _, r) \<Rightarrow> (l, ep, r))" by blast
  have sd: "sendable [hello E]" "length (client_encode ?use) \<le> MAX_FRAME_LEN" using assms(5) by auto
  from send_hello_ok[OF assms(1) sd(1) assms(7), of d3] d3(2) assms(12) obtain d4 where
    d4: "send_hello E d3 = (Inr (), d4)" "progressed sent pending d3 (framed [hello E]) (frame_bytes u @ frame_bytes f @ rest) d4" by auto
  from call_ok[OF assms(1) sd(2) assms(8) _ assms(10), of d4] d4(2) obtain d5 where
    d5: "roundtrip E ?use d4 = (Inl (Err (Server m)), d5)" "progressed sent pending d4 (frame_bytes (client_encode ?use)) (frame_bytes f @ rest) d5"
    by (auto simp: progressed_def roundtrip_def answer_def)
  have db: "client_database (me d4) = Some db" "default_consistency (me d4) = default_consistency (me d)"
    "client_database (me d5) = Some db" "connected (me d5) = ep" "sent (stream (me d5)) = sent s @ framed [hello E, ?use]"
    using d3(2,3) d4(2) d5(2) assms(4) by (auto simp: progressed_def settings_def)
  have "execute_with E sql c d = (Inl (Err (Server m)), d5)"
    using d3(1) d4(1) d5(1) db by (simp add: execute_with_def replay_session_def apply_database_def sbind_def)
  moreover from execute_ok[OF assms(1,2,6,9) _ assms(11), of d5 rest] d5(2) obtain d6 where
    "execute_with E sql2 c2 d5 = (answer resp, d6)"
    "progressed sent pending d5 (frame_bytes (request_encode \<lparr>req_sql = sql2, req_consistency = c2\<rparr>)) rest d6"
    by (auto simp: progressed_def)
  ultimately show ?thesis using db by (auto simp: progressed_def settings_def)
qed

theorem failover_drops_database_witness:
  "\<exists>d' d''. execute_with (sample_env (frame_bytes [] @ frame_bytes (response_encode (Error [0x6E])) @ frame_bytes (response_encode Ddl))) [0x78] One sample_driver
      = (Inl (Err (Server [0x6E])), d')
    \<and> execute_with (sample_env (frame_bytes [] @ frame_bytes (response_encode (Error [0x6E])) @ frame_bytes (response_encode Ddl))) [0x79] One d' = (Inr Ddl, d'')"
proof -
  let ?in = "frame_bytes [] @ frame_bytes (response_encode (Error [0x6E])) @ frame_bytes (response_encode Ddl)"
  have q: "length (request_encode \<lparr>req_sql = [x], req_consistency = One\<rparr>) \<le> MAX_FRAME_LEN" for x
    by (simp add: request_encode_def write_bytes_len MAX_FRAME_LEN_def)
  have db: "client_database (me sample_driver) = Some [0x64]" by (simp add: sample_driver_def)
  have sd: "sendable [hello (sample_env ?in), Query (use_sql [0x64]) (default_consistency (me sample_driver))]"
    by (simp add: hello_def client_encode_simps sample_env_def use_sql_def double_byte_def of_str_def MAX_FRAME_LEN_def)
  from sample_lost[OF q, of ?in "0x78"] obtain s where s: "lost (sample_env ?in) [0x78] One sample_driver [0x61] s" "snd s = ?in" by blast
  from failover_drops_database[OF sample_env_duplex _ s(1) db sd q _ sample_ddl(5,3,4,1), of "0x79" "[]" "[]"] s(2)
  show ?thesis by (auto simp: answer_def)
qed

text \<open>Opening a connection uses the first endpoint, in the order given, that accepts the login: exactly the
  endpoints before it have been dialled and have failed, each of their failures that speaks against a
  member has been reported to the pool, and the connection fails exactly when every endpoint did.\<close>

theorem open_first_reachable:
  "((\<exists>said. open_client E ordered lg lnk ps = (Inl (Err (NoEndpoint said)), ps')) \<longleftrightarrow> all_fail E lg lnk ordered ps = Some ps')
   \<and> (open_client E ordered lg lnk ps = (Inr c, ps') \<longleftrightarrow>
       (\<exists>pre ep post p st s p' d. ordered = pre @ ep # post \<and> all_fail E lg lnk pre ps = Some (p, st)
          \<and> dial (net E) ep lg p = (Inr s, p') \<and> send_hello E \<lparr>me = new_client ordered lg lnk ep s, proc = p', pool = st\<rparr> = (Inr (), d)
          \<and> c = me d \<and> ps' = (proc d, pool d)))"
  unfolding open_client_def by (intro conjI open_loop_fails open_loop_opens)

text \<open>Endpoints are tried nearest first: the order is a rearrangement of the endpoints in which the
  reachable ones come first, by ascending connect latency, and the unreachable ones stay, at the end.\<close>

theorem order_by_latency_nearest:
  assumes "probe_all E endpoints w = (scored, w')" and "1 < length endpoints"
  shows "mset (fst (order_by_latency E endpoints w)) = mset endpoints \<and> map snd scored = endpoints
    \<and> (\<exists>ranked. fst (order_by_latency E endpoints w) = map snd ranked \<and> mset ranked = mset scored
        \<and> (\<forall>i j. i < j \<and> j < length ranked \<longrightarrow> (case (fst (ranked ! i), fst (ranked ! j)) of
              (Some x, Some y) \<Rightarrow> x \<le> y | (None, Some _) \<Rightarrow> False | (_, None) \<Rightarrow> True)))"
proof -
  let ?r = "sort_key latency_rank scored"
  have eps: "map snd scored = endpoints" using probe_all_endpoints[OF assms(1)] .
  have o: "fst (order_by_latency E endpoints w) = map snd ?r" using assms by (simp add: order_by_latency_def)
  have "mset (map snd ?r) = mset endpoints" by (simp flip: eps)
  moreover have "case (fst (?r ! i), fst (?r ! j)) of (Some x, Some y) \<Rightarrow> x \<le> y | (None, Some _) \<Rightarrow> False | (_, None) \<Rightarrow> True"
    if "i < j" "j < length ?r" for i j
  proof -
    have "latency_rank (?r ! i) \<le> latency_rank (?r ! j)"
      using sorted_nth_mono[of "map latency_rank ?r" i j] that by (simp add: sorted_sort_key)
    then show ?thesis by (auto simp: latency_rank_def less_eq_prod_def split: option.splits prod.splits)
  qed
  ultimately show ?thesis unfolding o using eps by (intro conjI exI[of _ ?r]) auto
qed

theorem order_by_latency_nearest_witness:
  "mset (fst (order_by_latency (sample_env []) [[0x61], [0x62]] ())) = mset [[0x61], [0x62]]"
  using order_by_latency_nearest[of "sample_env []" "[[0x61], [0x62]]" "()" "[(Some 0, [0x61]), (Some 0, [0x62])]" "()"]
  by (simp add: probe_def sample_env_def)

end
