(* ===== verification/Batch.thy ===== *)
theory Batch
  imports Client
begin

text \<open>
  Pipelined batches and prepared statements (\<^verbatim>\<open>try_pipeline\<close>, \<^verbatim>\<open>pipeline_with\<close>, \<^verbatim>\<open>prepare\<close>, \<^verbatim>\<open>execute_prepared_with\<close>,
  \<^verbatim>\<open>execute_batch\<close> in \<^verbatim>\<open>src/lib.rs\<close>). A \<^verbatim>\<open>&mut Prepared\<close> argument is part of the state.
\<close>

section \<open>Pipelining\<close>

definition tagged :: "nat \<Rightarrow> rstr \<Rightarrow> consistency \<Rightarrow> bytes" where
  "tagged i sql c = encode_tagged_request (word_of_nat i) (Query sql c) []"

primrec send_tagged :: "('w, 't, 's, 'h, 'f) env \<Rightarrow> consistency \<Rightarrow> nat \<Rightarrow> rstr list \<Rightarrow> (('w, 's, 'f) driver, driver_error, unit) op" where
  "send_tagged E c i [] = sret ()"
| "send_tagged E c i (sql # stmts) =
    sbind (attempt (send E (tagged i sql c))) (\<lambda>sent.
    sbind (transport E sent) (\<lambda>_. send_tagged E c (Suc i) stmts))"

definition unsupported :: driver_error where
  "unsupported = Server (of_str ''server does not support pipelined requests (upgrade the server)'')"

definition unexpected_id :: "u32 \<Rightarrow> driver_error" where
  "unexpected_id rid = Server (of_str ''unexpected response id '' @ show_nat (unat rid) @ of_str '' in pipeline'')"

definition fill_slot :: "u32 option \<times> response \<Rightarrow> response option list \<Rightarrow> (driver_error, response option list) res" where
  "fill_slot = (\<lambda>(rid, resp) slots. case rid of
     None \<Rightarrow> Inl (Err unsupported)
   | Some rid \<Rightarrow> (if unat rid < length slots \<and> slots ! unat rid = None then Inr (slots[unat rid := Some resp])
       else Inl (Err (unexpected_id rid))))"

definition read_slot :: "('w, 't, 's, 'h, 'f) env \<Rightarrow> instant \<Rightarrow> nat \<Rightarrow> response option list \<Rightarrow> (('w, 's, 'f) driver, driver_error, response option list) op" where
  "read_slot E started n slots =
    sbind (attempt (recv E)) (\<lambda>frame.
    sbind (if n = 0 then observed E started frame else transport E frame) (\<lambda>payload.
    sbind (slift (map_err Proto (decode_tagged_response payload))) (\<lambda>tr. slift (fill_slot tr slots))))"

primrec read_slots :: "('w, 't, 's, 'h, 'f) env \<Rightarrow> instant \<Rightarrow> nat list \<Rightarrow> response option list \<Rightarrow> (('w, 's, 'f) driver, driver_error, response option list) op" where
  "read_slots E started [] slots = sret slots"
| "read_slots E started (n # ns) slots = sbind (read_slot E started n slots) (read_slots E started ns)"

definition unwrap_slots :: "response option list \<Rightarrow> (driver_error, response list) res" where
  "unwrap_slots slots = (if None \<in> set slots then Inl (Panic ''all ids seen'') else Inr (map the slots))"

definition try_pipeline :: "('w, 't, 's, 'h, 'f) env \<Rightarrow> rstr list \<Rightarrow> consistency \<Rightarrow> (('w, 's, 'f) driver, driver_error, response list) op" where
  "try_pipeline E stmts c =
    sbind (instant_now E) (\<lambda>started.
    sbind (send_tagged E c 0 stmts) (\<lambda>_.
    sbind (read_slots E started [0..<length stmts] (replicate (length stmts) None)) (\<lambda>slots.
    slift (unwrap_slots slots))))"

primrec note_all :: "('w, 't, 's, 'h, 'f) env \<Rightarrow> (rstr \<times> response) list \<Rightarrow> (('w, 's, 'f) driver, driver_error, unit) op" where
  "note_all E [] = sret ()"
| "note_all E (x # xs) = sbind (case snd x of Error _ \<Rightarrow> sret () | _ \<Rightarrow> note_statement E (fst x)) (\<lambda>_. note_all E xs)"

definition pipeline_with :: "('w, 't, 's, 'h, 'f) env \<Rightarrow> rstr list \<Rightarrow> consistency \<Rightarrow> (('w, 's, 'f) driver, driver_error, response list) op" where
  "pipeline_with E stmts c =
    (if stmts = [] then sret []
     else sbind (with_failover E (try_pipeline E stmts c) (try_pipeline E stmts c)) (\<lambda>responses.
          sbind (note_all E (zip stmts responses)) (\<lambda>_. sret responses)))"

definition pipeline :: "('w, 't, 's, 'h, 'f) env \<Rightarrow> rstr list \<Rightarrow> (('w, 's, 'f) driver, driver_error, response list) op" where
  "pipeline E stmts d = pipeline_with E stmts (default_consistency (me d)) d"

section \<open>Prepared statements\<close>

definition prepare :: "('w, 't, 's, 'h, 'f) env \<Rightarrow> rstr \<Rightarrow> (('w, 's, 'f) driver, driver_error, prepared) op" where
  "prepare E sql =
    sbind (with_failover E (roundtrip E (Prepare sql)) (roundtrip E (Prepare sql))) (\<lambda>resp.
    case resp of
      Prepared i n \<Rightarrow> sret \<lparr>prep_id = i, prep_params = n, prep_sql = sql\<rparr>
    | _ \<Rightarrow> slift (Inl (Err (Server (of_str ''unexpected response to Prepare: '' @ show_response E resp)))))"

text \<open>A request built from the statement, prepared again on the new connection after a failover.\<close>

definition on_prepared :: "('w, 't, 's, 'h, 'f) env \<Rightarrow> (prepared \<Rightarrow> client_request)
    \<Rightarrow> (prepared \<times> ('w, 's, 'f) driver, driver_error, response) op" where
  "on_prepared E req = (\<lambda>(stmt, d). case roundtrip E (req stmt) d of
     (Inl (Err (Io _)), d) \<Rightarrow>
       (case sbind (reconnect E) (\<lambda>_. prepare E (prep_sql stmt)) d of
          (Inr stmt, d) \<Rightarrow> (case roundtrip E (req stmt) d of (r, d) \<Rightarrow> (r, (stmt, d)))
        | (Inl e, d) \<Rightarrow> (Inl e, (stmt, d)))
   | (r, d) \<Rightarrow> (r, (stmt, d)))"

definition noting :: "('w, 't, 's, 'h, 'f) env \<Rightarrow> 'a \<Rightarrow> (prepared \<times> ('w, 's, 'f) driver, driver_error, 'a) op" where
  "noting E x = (\<lambda>(stmt, d). case note_statement E (prep_sql stmt) d of (r, d) \<Rightarrow> (rbind r (\<lambda>_. Inr x), (stmt, d)))"

definition execute_prepared_with :: "('w, 't, 's, 'h, 'f) env \<Rightarrow> row \<Rightarrow> consistency
    \<Rightarrow> (prepared \<times> ('w, 's, 'f) driver, driver_error, response) op" where
  "execute_prepared_with E params c = sbind (on_prepared E (\<lambda>stmt. Execute (prep_id stmt) params c)) (noting E)"

definition execute_prepared :: "('w, 't, 's, 'h, 'f) env \<Rightarrow> row \<Rightarrow> (prepared \<times> ('w, 's, 'f) driver, driver_error, response) op" where
  "execute_prepared E params sd = execute_prepared_with E params (default_consistency (me (snd sd))) sd"

definition execute_batch :: "('w, 't, 's, 'h, 'f) env \<Rightarrow> row list \<Rightarrow> (prepared \<times> ('w, 's, 'f) driver, driver_error, u64) op" where
  "execute_batch E rows sd =
    (let c = default_consistency (me (snd sd)) in
     sbind (on_prepared E (\<lambda>stmt. ExecuteBatch (prep_id stmt) rows c)) (\<lambda>resp.
     case resp of
       Mutation n \<Rightarrow> noting E n
     | Error e \<Rightarrow> slift (Inl (Err (Server e)))
     | _ \<Rightarrow> slift (Inl (Err (Server (of_str ''unexpected response to ExecuteBatch: '' @ show_response E resp))))) sd)"

section \<open>Reading a batch\<close>

text \<open>The slots once the responses with the ids in \<open>seen\<close> have arrived.\<close>

definition slots_of :: "response list \<Rightarrow> nat list \<Rightarrow> response option list" where
  "slots_of resps seen = map (\<lambda>i. if i \<in> set seen then Some (resps ! i) else None) [0..<length resps]"

lemma length_slots_of [simp]: "length (slots_of resps seen) = length resps"
  by (simp add: slots_of_def)

lemma slots_of_empty: "replicate (length resps) None = slots_of resps []"
  by (simp add: slots_of_def map_replicate_const)

lemma slots_of_all: "set seen = {..<length resps} \<Longrightarrow> unwrap_slots (slots_of resps seen) = Inr resps"
  by (auto simp: slots_of_def unwrap_slots_def intro!: nth_equalityI)

lemma fill_slot_of:
  assumes "i < length resps" "i \<notin> set seen" "length resps < 2 ^ 32"
  shows "fill_slot (Some (word_of_nat i), resps ! i) (slots_of resps seen) = Inr (slots_of resps (i # seen))"
proof -
  have "unat (word_of_nat i :: u32) = i" using assms(1,3) by (simp add: unat_of_nat take_bit_nat_eq_self)
  moreover have "(slots_of resps seen)[i := Some (resps ! i)] = slots_of resps (i # seen)"
    using assms(1) by (auto simp: slots_of_def nth_list_update intro!: nth_equalityI)
  ultimately show ?thesis using assms(1,2) by (simp add: fill_slot_def slots_of_def)
qed

lemma transport_Inr [simp]: "transport E (Inr v) d = (Inr v, d)"
  by (simp add: transport_def)

lemma recv_ok:
  assumes "duplex (io (net E)) sent pending" and "length f \<le> MAX_FRAME_LEN" and "pending (stream (me d)) = frame_bytes f @ rest"
  shows "\<exists>d'. recv E d = (Inr f, d') \<and> progressed sent pending d [] rest d'"
proof -
  from recv_frame[OF assms(1,3,2)] obtain s where "read_frame (rd (io (net E))) (stream (me d)) = Inr (f, s)" "pending s = rest"
    "sent s = sent (stream (me d))" by blast
  then show ?thesis by (intro exI[of _ "set_stream s d"]) (simp add: recv_def progressed_def)
qed

lemma send_ok:
  assumes "duplex (io (net E)) sent pending" and "length p \<le> MAX_FRAME_LEN" and "pending (stream (me d)) = rest"
  shows "\<exists>d'. send E p d = (Inr (), d') \<and> progressed sent pending d (frame_bytes p) rest d'"
proof -
  from send_frame[OF assms(1,2)] obtain s where "write_frame (wr (io (net E))) (stream (me d)) p = Inr s" "pending s = pending (stream (me d))"
    "sent s = sent (stream (me d)) @ frame_bytes p" by blast
  with assms(3) show ?thesis by (intro exI[of _ "set_stream s d"]) (simp add: send_def progressed_def)
qed

lemma read_frame_slot:
  assumes "duplex (io (net E)) sent pending" and "length f \<le> MAX_FRAME_LEN" and "pending (stream (me d)) = frame_bytes f @ rest"
  shows "\<exists>d'. read_slot E t n slots d = (rbind (map_err Proto (decode_tagged_response f)) (\<lambda>tr. fill_slot tr slots), d')
    \<and> progressed sent pending d [] rest d'"
proof -
  from recv_ok[OF assms] obtain d1 where d1: "recv E d = (Inr f, d1)" "progressed sent pending d [] rest d1" by blast
  from observed_Inr[of E t f d1] obtain d2 where d2: "observed E t (Inr f) d1 = (Inr f, d2)" "link_only (me d1) (me d2)" by blast
  define d3 where "d3 = (if n = 0 then d2 else d1)"
  have "progressed sent pending d [] rest d3" using d1(2) progressed_link_only[OF d1(2) d2(2)] by (simp add: d3_def)
  moreover have "read_slot E t n slots d = (rbind (map_err Proto (decode_tagged_response f)) (\<lambda>tr. fill_slot tr slots), d3)"
    using d1(1) d2(1) by (cases "map_err Proto (decode_tagged_response f)") (simp_all add: read_slot_def attempt_def d3_def)
  ultimately show ?thesis by blast
qed

definition response_frame :: "response list \<Rightarrow> nat \<Rightarrow> bytes \<Rightarrow> bool" where
  "response_frame resps i f \<longleftrightarrow> length f \<le> MAX_FRAME_LEN \<and> decode_tagged_response f = Inr (Some (word_of_nat i), resps ! i)"

lemma read_slots_ok:
  assumes d: "duplex (io (net E)) sent pending" and n: "length resps < 2 ^ 32"
  shows "list_all2 (response_frame resps) ids fs \<Longrightarrow> length ns = length ids \<Longrightarrow> distinct (ids @ seen) \<Longrightarrow> set ids \<subseteq> {..<length resps}
    \<Longrightarrow> pending (stream (me d)) = concat (map frame_bytes fs) @ rest \<Longrightarrow>
    \<exists>d'. read_slots E t ns (slots_of resps seen) d = (Inr (slots_of resps (rev ids @ seen)), d') \<and> progressed sent pending d [] rest d'"
proof (induction ids fs arbitrary: ns seen d rule: list_all2_induct)
  case Nil
  then show ?case by (simp add: progressed_refl)
next
  case (Cons i ids f fs)
  then obtain m ms where ns: "ns = m # ms" by (cases ns) auto
  from Cons have rf: "length f \<le> MAX_FRAME_LEN" "decode_tagged_response f = Inr (Some (word_of_nat i), resps ! i)"
    by (auto simp: response_frame_def)
  from read_frame_slot[OF d rf(1), of d "concat (map frame_bytes fs) @ rest" t m "slots_of resps seen"] Cons.prems(4) rf(2)
    fill_slot_of[OF _ _ n, of i seen] Cons.prems(2,3)
  obtain d1 where d1: "read_slot E t m (slots_of resps seen) d = (Inr (slots_of resps (i # seen)), d1)"
    "progressed sent pending d [] (concat (map frame_bytes fs) @ rest) d1" by auto
  from Cons.IH[of ms "i # seen" d1] Cons.prems ns d1(2) obtain d2 where
    "read_slots E t ms (slots_of resps (i # seen)) d1 = (Inr (slots_of resps (rev ids @ i # seen)), d2)" "progressed sent pending d1 [] rest d2"
    by (auto simp: progressed_def)
  with d1 ns progressed_trans[OF d1(2), of "[]" rest d2] show ?case by auto
qed

lemma send_tagged_ok:
  assumes d: "duplex (io (net E)) sent pending"
  shows "pending (stream (me d)) = rest \<Longrightarrow> (\<forall>k < length stmts. length (tagged (i + k) (stmts ! k) c) \<le> MAX_FRAME_LEN) \<Longrightarrow>
    \<exists>d'. send_tagged E c i stmts d = (Inr (), d')
      \<and> progressed sent pending d (concat (map (\<lambda>k. frame_bytes (tagged (i + k) (stmts ! k) c)) [0..<length stmts])) rest d'"
proof (induction stmts arbitrary: i d)
  case Nil
  then show ?case by (simp add: progressed_refl)
next
  case (Cons sql stmts)
  from Cons.prems(2) have l: "length (tagged i sql c) \<le> MAX_FRAME_LEN" "\<forall>k < length stmts. length (tagged (Suc i + k) (stmts ! k) c) \<le> MAX_FRAME_LEN"
    by (auto dest: spec[of _ 0] spec[of _ "Suc _"])
  from send_ok[OF d l(1) Cons.prems(1)] obtain d1 where d1: "send E (tagged i sql c) d = (Inr (), d1)"
    "progressed sent pending d (frame_bytes (tagged i sql c)) rest d1" by blast
  from Cons.IH[of d1 "Suc i"] l(2) d1(2) obtain d2 where d2: "send_tagged E c (Suc i) stmts d1 = (Inr (), d2)"
    "progressed sent pending d1 (concat (map (\<lambda>k. frame_bytes (tagged (Suc i + k) (stmts ! k) c)) [0..<length stmts])) rest d2"
    by (auto simp: progressed_def)
  have "concat (map (\<lambda>k. frame_bytes (tagged (i + k) ((sql # stmts) ! k) c)) [0..<length (sql # stmts)])
      = frame_bytes (tagged i sql c) @ concat (map (\<lambda>k. frame_bytes (tagged (Suc i + k) (stmts ! k) c)) [0..<length stmts])"
    by (simp add: upt_conv_Cons map_Suc_upt[symmetric] comp_def del: upt_Suc)
  with progressed_trans[OF d1(2) d2(2)] d1(1) d2(1) show ?case by (auto simp: attempt_def)
qed

definition batch_frames :: "rstr list \<Rightarrow> consistency \<Rightarrow> bytes" where
  "batch_frames stmts c = concat (map (\<lambda>k. frame_bytes (tagged k (stmts ! k) c)) [0..<length stmts])"

definition batch_ok :: "rstr list \<Rightarrow> consistency \<Rightarrow> bool" where
  "batch_ok stmts c \<longleftrightarrow> length stmts < 2 ^ 32 \<and> (\<forall>k < length stmts. length (tagged k (stmts ! k) c) \<le> MAX_FRAME_LEN)"

lemma batch_sent:
  assumes "duplex (io (net E)) sent pending" and "batch_ok stmts c"
  shows "\<exists>t d1 d2. instant_now E d = (Inr t, d1) \<and> send_tagged E c 0 stmts d1 = (Inr (), d2)
    \<and> progressed sent pending d (batch_frames stmts c) (pending (stream (me d))) d2"
proof -
  from instant_now_me[of E d] obtain t d1 where d1: "instant_now E d = (Inr t, d1)" "me d1 = me d" by metis
  from send_tagged_ok[OF assms(1), of d1 "pending (stream (me d))" stmts 0 c] assms(2) d1(2) obtain d2 where
    d2: "send_tagged E c 0 stmts d1 = (Inr (), d2)" "progressed sent pending d1 (batch_frames stmts c) (pending (stream (me d))) d2"
    by (auto simp: batch_ok_def batch_frames_def)
  moreover from d2(2) d1(2) have "progressed sent pending d (batch_frames stmts c) (pending (stream (me d))) d2"
    by (simp add: progressed_def)
  ultimately show ?thesis using d1(1) by blast
qed

lemma try_pipeline_ok:
  assumes d: "duplex (io (net E)) sent pending" and b: "batch_ok stmts c" and len: "length resps = length stmts"
    and ids: "mset ids = mset [0..<length stmts]" and fs: "list_all2 (response_frame resps) ids fs"
    and pend: "pending (stream (me d)) = concat (map frame_bytes fs) @ rest"
  shows "\<exists>d'. try_pipeline E stmts c d = (Inr resps, d') \<and> progressed sent pending d (batch_frames stmts c) rest d'"
proof -
  from batch_sent[OF d b, of d] obtain t d1 d2 where d2: "instant_now E d = (Inr t, d1)" "send_tagged E c 0 stmts d1 = (Inr (), d2)"
    "progressed sent pending d (batch_frames stmts c) (pending (stream (me d))) d2" by blast
  have set: "set ids = {..<length resps}" using mset_eq_setD[OF ids] len by (simp add: lessThan_atLeast0)
  have ids': "distinct ids" "length ids = length stmts"
    using mset_eq_length[OF ids] mset_eq_imp_distinct_iff[OF ids] by simp_all
  from read_slots_ok[OF d _ fs, where ns = "[0..<length stmts]" and seen = "[]" and d = d2 and rest = rest and t = t] set ids' b len d2(3) pend
  obtain d3 where d3: "read_slots E t [0..<length stmts] (slots_of resps []) d2 = (Inr (slots_of resps (rev ids @ [])), d3)"
    "progressed sent pending d2 [] rest d3" by (auto simp: batch_ok_def progressed_def)
  have "unwrap_slots (slots_of resps (rev ids)) = Inr resps" by (rule slots_of_all) (simp add: set)
  with d2 d3 have "try_pipeline E stmts c d = (Inr resps, d3)"
    unfolding try_pipeline_def using slots_of_empty[of resps] len by simp
  moreover from progressed_trans[OF d2(3) d3(2)] have "progressed sent pending d (batch_frames stmts c) rest d3" by simp
  ultimately show ?thesis by blast
qed

lemma note_all_ok:
  assumes "\<forall>x \<in> set xs. utf8_ok (fst x)"
  shows "\<exists>d'. note_all E xs d = (Inr (), d') \<and> link_only (me d) (me d')"
  using assms
proof (induction xs arbitrary: d)
  case (Cons x xs)
  have "\<exists>d1. (case snd x of Error _ \<Rightarrow> sret () | _ \<Rightarrow> note_statement E (fst x)) d = (Inr (), d1) \<and> link_only (me d) (me d1)"
    using note_statement_ok[of "fst x" E d] Cons.prems by (cases "snd x") auto
  then obtain d1 where d1: "(case snd x of Error _ \<Rightarrow> sret () | _ \<Rightarrow> note_statement E (fst x)) d = (Inr (), d1)" "link_only (me d) (me d1)"
    by blast
  from Cons.IH[of d1] Cons.prems obtain d2 where "note_all E xs d1 = (Inr (), d2)" "link_only (me d1) (me d2)" by auto
  with d1 link_only_trans[OF d1(2)] show ?case by auto
qed simp

lemma pipeline_of_attempt:
  assumes "stmts \<noteq> []" and "\<forall>sql \<in> set stmts. utf8_ok sql" and "try_pipeline E stmts c d = (Inr resps, d1)"
    and "progressed sent pending d out rest d1"
  shows "\<exists>d'. pipeline_with E stmts c d = (Inr resps, d') \<and> progressed sent pending d out rest d'"
proof -
  have "\<forall>x \<in> set (zip stmts resps). utf8_ok (fst x)" using assms(2) by (auto dest: set_zip_leftD)
  from note_all_ok[OF this, of E d1] obtain d2 where d2: "note_all E (zip stmts resps) d1 = (Inr (), d2)" "link_only (me d1) (me d2)" by blast
  have "with_failover E (try_pipeline E stmts c) (try_pipeline E stmts c) d = (Inr resps, d1)"
    using assms(3) by (simp add: with_failover_def)
  with d2(1) assms(1) have "pipeline_with E stmts c d = (Inr resps, d2)" by (simp add: pipeline_with_def)
  with progressed_link_only[OF assms(4) d2(2)] show ?thesis by blast
qed

section \<open>No slot is left empty\<close>

definition empty_slots :: "response option list \<Rightarrow> nat" where
  "empty_slots slots = length (filter (\<lambda>x. x = None) slots)"

lemma empty_slots_update: "i < length slots \<Longrightarrow> slots ! i = None \<Longrightarrow> Suc (empty_slots (slots[i := Some r])) = empty_slots slots"
  by (induction slots arbitrary: i) (auto simp: empty_slots_def split: nat.splits)

lemma fill_slot_counts: "fill_slot tr slots = Inr slots' \<Longrightarrow> empty_slots slots = Suc (empty_slots slots')"
  using empty_slots_update by (auto simp: fill_slot_def split: prod.splits option.splits if_splits)

lemma read_slots_counts: "read_slots E t ns slots d = (Inr slots', d') \<Longrightarrow> empty_slots slots = empty_slots slots' + length ns"
proof (induction ns arbitrary: slots d)
  case (Cons n ns)
  then obtain s1 d1 where s1: "read_slot E t n slots d = (Inr s1, d1)" "read_slots E t ns s1 d1 = (Inr slots', d')"
    by (auto simp: sbind_eq_Inr)
  from s1(1) obtain tr where "fill_slot tr slots = Inr s1" by (auto simp: read_slot_def sbind_eq_Inr)
  with Cons.IH[OF s1(2)] fill_slot_counts[of tr slots s1] show ?case by simp
qed simp

lemma unwrap_full: "empty_slots slots = 0 \<Longrightarrow> clean (unwrap_slots slots)"
  by (auto simp: empty_slots_def unwrap_slots_def filter_empty_conv)

text \<open>Operations that never panic when the stream does not.\<close>

definition quiet :: "('st, 'e, 'a) op \<Rightarrow> bool" where
  "quiet m \<longleftrightarrow> (\<forall>d. clean (fst (m d)))"

definition quiet_stream :: "('w, 't, 's, 'h, 'f) env \<Rightarrow> bool" where
  "quiet_stream E \<longleftrightarrow> (\<forall>s p. clean (write_frame (wr (io (net E))) s p)) \<and> (\<forall>s. clean (read_frame (rd (io (net E))) s))"

lemma quietI: "(\<And>d r d'. m d = (r, d') \<Longrightarrow> clean r) \<Longrightarrow> quiet m"
  unfolding quiet_def by (metis prod.collapse)

lemma quietD: "quiet m \<Longrightarrow> m d = (r, d') \<Longrightarrow> clean r"
  unfolding quiet_def by (drule spec[of _ d]) simp

lemma quiet_sbind_strong:
  assumes "quiet m" and "\<And>x d d'. m d = (Inr x, d') \<Longrightarrow> clean (fst (f x d'))"
  shows "quiet (sbind m f)"
proof (rule quietI)
  fix d r d'
  assume eq: "sbind m f d = (r, d')"
  obtain q d1 where q: "m d = (q, d1)" by fastforce
  show "clean r" using quietD[OF assms(1) q] assms(2)[of d _ d1] eq q by (cases q) (auto simp: sbind_def clean_def)
qed

lemma quiet_sbind: "quiet m \<Longrightarrow> (\<And>x. quiet (f x)) \<Longrightarrow> quiet (sbind m f)"
  by (rule quiet_sbind_strong) (simp_all add: quiet_def)

lemma quiet_pure: "quiet (sret x)" "clean r \<Longrightarrow> quiet (slift r)" "quiet (instant_now E)" "quiet (attempt m)"
  by (auto simp: quiet_def instant_now_def attempt_def Let_def split: prod.split)

lemma quiet_reports: "clean r \<Longrightarrow> quiet (transport E r)" "clean r \<Longrightarrow> quiet (observed E t r)"
  by (auto simp: quiet_def transport_def observed_def sbind_def clean_def instant_now_def Let_def split: sum.splits prod.splits)

lemma quiet_frames: "quiet_stream E \<Longrightarrow> quiet (send E p)" "quiet_stream E \<Longrightarrow> quiet (recv E)"
  by (rule quietI, auto simp: quiet_stream_def send_def recv_def clean_def split: sum.splits prod.splits)+

lemma quiet_attempt: "quiet m \<Longrightarrow> (\<And>r. clean r \<Longrightarrow> quiet (f r)) \<Longrightarrow> quiet (sbind (attempt m) f)"
  by (rule quiet_sbind_strong[OF quiet_pure(4)]) (auto simp: attempt_def quiet_def split: prod.splits, metis fst_conv)

lemma quiet_send_tagged: "quiet_stream E \<Longrightarrow> quiet (send_tagged E c i stmts)"
proof (induction stmts arbitrary: i)
  case (Cons sql stmts)
  show ?case unfolding send_tagged.simps
    by (rule quiet_attempt[OF quiet_frames(1)[OF Cons.prems]], rule quiet_sbind[OF quiet_reports(1)], assumption, rule Cons.IH[OF Cons.prems])
qed (simp add: quiet_pure)

lemma clean_tagged_response [simp]: "clean (decode_tagged_response bs)"
  by (auto simp: decode_tagged_response_def Let_def intro!: clean_rbind)

lemma clean_fill_slot: "clean (fill_slot tr slots)"
  by (auto simp: fill_slot_def split: prod.splits option.splits)

lemma quiet_read_slots: "quiet_stream E \<Longrightarrow> quiet (read_slots E t ns slots)"
proof (induction ns arbitrary: slots)
  case (Cons n ns)
  have "quiet (read_slot E t n slots)"
    unfolding read_slot_def
    by (rule quiet_attempt[OF quiet_frames(2)[OF Cons.prems]], rule quiet_sbind)
      (auto intro: quiet_reports intro!: quiet_sbind quiet_pure clean_fill_slot)
  with Cons show ?case by (auto intro: quiet_sbind)
qed (simp add: quiet_pure)

lemma quiet_try_pipeline:
  assumes "quiet_stream E"
  shows "quiet (try_pipeline E stmts c)"
proof -
  have "clean (unwrap_slots slots)"
    if "read_slots E t [0..<length stmts] (replicate (length stmts) None) d = (Inr slots, d')" for t d slots d'
    using read_slots_counts[OF that] by (intro unwrap_full) (simp add: empty_slots_def)
  then have "quiet (sbind (read_slots E t [0..<length stmts] (replicate (length stmts) None)) (\<lambda>slots. slift (unwrap_slots slots)))" for t
    by (intro quiet_sbind_strong quiet_read_slots[OF assms]) simp
  then have "quiet (sbind (send_tagged E c 0 stmts) (\<lambda>_. sbind (read_slots E t [0..<length stmts] (replicate (length stmts) None))
      (\<lambda>slots. slift (unwrap_slots slots))))" for t
    by (rule quiet_sbind[OF quiet_send_tagged[OF assms]])
  then show ?thesis unfolding try_pipeline_def by (rule quiet_sbind[OF quiet_pure(3)])
qed

section \<open>Properties\<close>

text \<open>C29: A pipelined batch on a working connection returns the responses in the order of the statements, in
  whatever order the server's tagged frames arrive; it has sent one frame per statement, in order,
  before reading, and has read exactly one frame per statement.\<close>

theorem pipeline_in_order:
  assumes "duplex (io (net E)) sent pending" and "batch_ok stmts c" and "stmts \<noteq> []" and "\<forall>sql \<in> set stmts. utf8_ok sql"
    and "length resps = length stmts" and "mset ids = mset [0..<length stmts]" and "list_all2 (response_frame resps) ids fs"
    and "pending (stream (me d)) = concat (map frame_bytes fs) @ rest"
  shows "\<exists>d'. pipeline_with E stmts c d = (Inr resps, d') \<and> progressed sent pending d (batch_frames stmts c) rest d'"
  using try_pipeline_ok[OF assms(1,2,5-8)] pipeline_of_attempt[OF assms(3,4)] by blast

theorem pipeline_in_order_witness:
  "\<exists>d'. pipeline_with (sample_env []) [[0x61], [0x62]] One (set_stream ([], frame_bytes (tag_response [] 1 @ response_encode Ddl)
     @ frame_bytes (tag_response [] 0 @ response_encode (Error [0x6E]))) sample_driver) = (Inr [Error [0x6E], Ddl], d')"
proof -
  let ?f1 = "tag_response [] 1 @ response_encode Ddl" and ?f0 = "tag_response [] 0 @ response_encode (Error [0x6E])"
  have f: "list_all2 (response_frame [Error [0x6E], Ddl]) [1, 0] [?f1, ?f0]"
    using sample_ddl(1,4) by (simp add: response_frame_def decode_tagged_response_def tag_response_def response_encode_simps
        MAX_FRAME_LEN_def)
  have b: "batch_ok [[0x61], [0x62]] One"
    by (auto simp: batch_ok_def tagged_def encode_tagged_request_def client_encode_append client_encode_simps less_Suc_eq MAX_FRAME_LEN_def)
  have m: "mset [1, 0] = mset [0..<length [[0x61 :: u8], [0x62]]]" by (simp add: upt_conv_Cons)
  from pipeline_in_order[OF sample_env_duplex b _ _ _ m f,
      of "set_stream ([], frame_bytes ?f1 @ frame_bytes ?f0) sample_driver" "[]" "[]"]
  show ?thesis by auto
qed

text \<open>The unwrapping of the collected responses cannot fail: if the stream's own operations do not panic,
  no sequence of frames, ids or errors makes a pipelined attempt panic.\<close>

theorem pipeline_no_panic:
  assumes "quiet_stream E"
  shows "clean (fst (try_pipeline E stmts c d))"
  using quiet_try_pipeline[OF assms] by (simp add: quiet_def)

theorem pipeline_no_panic_witness:
  "clean (fst (try_pipeline (sample_env []) [[0x61]] One (set_stream ([], [0, 0, 0, 1, 0xFF]) sample_driver)))"
proof (rule pipeline_no_panic)
  show "quiet_stream (sample_env [])"
    unfolding quiet_stream_def using clean_write_frame[OF sample_env_duplex] clean_read_frame sample_env_duplex
    by (metis duplex_def)
qed

text \<open>Against a server that answers each tagged request with a plain error, a batch of two statements
  fails after reading the first answer only. The second stays in the stream, and the next statement is
  answered with it while its own answer stays unread in turn.\<close>

theorem pipeline_stale_answers:
  assumes "duplex (io (net E)) sent pending" and "batch_ok [a, b] c" and "utf8_ok sql"
    and "length (request_encode \<lparr>req_sql = sql, req_consistency = c2\<rparr>) \<le> MAX_FRAME_LEN"
    and "length e1 \<le> MAX_FRAME_LEN" and "length e2 \<le> MAX_FRAME_LEN"
    and "decode_tagged_response e1 = Inr (None, Error m1)" and "response_decode e2 = Inr (Error m2)"
    and "pending (stream (me d)) = frame_bytes e1 @ frame_bytes e2 @ rest"
  shows "\<exists>d1 d2. pipeline_with E [a, b] c d = (Inl (Err unsupported), d1)
    \<and> execute_with E sql c2 d1 = (Inl (Err (Server m2)), d2) \<and> pending (stream (me d2)) = rest"
proof -
  from batch_sent[OF assms(1,2), of d] obtain t d0 d1 where d1: "instant_now E d = (Inr t, d0)" "send_tagged E c 0 [a, b] d0 = (Inr (), d1)"
    "progressed sent pending d (batch_frames [a, b] c) (pending (stream (me d))) d1" by blast
  from read_frame_slot[OF assms(1,5), of d1 "frame_bytes e2 @ rest" t 0 "[None, None]"] assms(7,9) d1(3) obtain d2 where
    d2: "read_slot E t 0 [None, None] d1 = (Inl (Err unsupported), d2)" "progressed sent pending d1 [] (frame_bytes e2 @ rest) d2"
    by (auto simp: progressed_def fill_slot_def)
  have "try_pipeline E [a, b] c d = (Inl (Err unsupported), d2)"
    using d1(1,2) d2(1) by (simp add: try_pipeline_def upt_conv_Cons)
  then have p: "pipeline_with E [a, b] c d = (Inl (Err unsupported), d2)"
    by (simp add: pipeline_with_def with_failover_def sbind_def unsupported_def)
  from execute_ok[OF assms(1,3,4,6) _ assms(8), of d2 rest] d2(2) obtain d3 where
    "execute_with E sql c2 d2 = (Inl (Err (Server m2)), d3)" "pending (stream (me d3)) = rest"
    by (auto simp: progressed_def answer_def)
  with p show ?thesis by blast
qed

theorem pipeline_stale_answers_witness:
  "\<exists>d1 d2. pipeline_with (sample_env []) [[0x61], [0x62]] One
      (set_stream ([], frame_bytes (response_encode (Error [0x6E])) @ frame_bytes (response_encode (Error [0x6E])) @ frame_bytes (response_encode Ddl)) sample_driver)
      = (Inl (Err unsupported), d1)
    \<and> execute_with (sample_env []) [0x78] One d1 = (Inl (Err (Server [0x6E])), d2) \<and> snd (stream (me d2)) = frame_bytes (response_encode Ddl)"
proof -
  let ?e = "response_encode (Error [0x6E])"
  have b: "batch_ok [[0x61], [0x62]] One"
    by (auto simp: batch_ok_def tagged_def encode_tagged_request_def client_encode_append client_encode_simps less_Suc_eq MAX_FRAME_LEN_def)
  have t: "decode_tagged_response ?e = Inr (None, Error [0x6E])"
    using sample_ddl(4) by (simp add: decode_tagged_response_def response_encode_simps)
  show ?thesis
    by (rule pipeline_stale_answers[OF sample_env_duplex b _ _ sample_ddl(5) sample_ddl(5) t sample_ddl(4)])
      (simp_all add: request_encode_def write_bytes_len MAX_FRAME_LEN_def)
qed

end
