(* ===== verification/Row_Stream.thy ===== *)
theory Row_Stream
  imports Batch
begin

text \<open>
  Streamed results (\<^verbatim>\<open>query_stream_params_with\<close> and \<^verbatim>\<open>RowStream\<close> in \<^verbatim>\<open>src/lib.rs\<close>). The stream borrows its
  connection, so the state is the pair of both. The loops of \<^verbatim>\<open>next\<close> and \<^verbatim>\<open>drop\<close> run as long as the server
  sends frames; they take a bound, and the theorems say how large a bound is enough.
\<close>

section \<open>Definitions\<close>

record row_stream =
  rs_columns :: "rstr list"
  rs_affected :: u64
  rs_chunk :: "row list"
  rs_more :: "(rstr list \<times> row list) list"
  rs_done :: bool

definition counts_as_statement :: "response \<Rightarrow> bool" where
  "counts_as_statement resp = (case resp of RowsHeader _ \<Rightarrow> True | Mutation _ \<Rightarrow> True | Ddl \<Rightarrow> True | ResultSets _ \<Rightarrow> True | _ \<Rightarrow> False)"

definition start_stream :: "('w, 't, 's, 'h, 'f) env \<Rightarrow> response \<Rightarrow> (driver_error, row_stream) res" where
  "start_stream E resp = (case resp of
     Error msg \<Rightarrow> Inl (Err (Server msg))
   | RowsHeader cols \<Rightarrow> Inr \<lparr>rs_columns = cols, rs_affected = 0, rs_chunk = [], rs_more = [], rs_done = False\<rparr>
   | Mutation n \<Rightarrow> Inr \<lparr>rs_columns = [], rs_affected = n, rs_chunk = [], rs_more = [], rs_done = True\<rparr>
   | Ddl \<Rightarrow> Inr \<lparr>rs_columns = [], rs_affected = 0, rs_chunk = [], rs_more = [], rs_done = True\<rparr>
   | ResultSets sets \<Rightarrow>
       (case sets of
          [] \<Rightarrow> Inr \<lparr>rs_columns = [], rs_affected = 0, rs_chunk = [], rs_more = [], rs_done = True\<rparr>
        | (cols, rows) # rest \<Rightarrow> Inr \<lparr>rs_columns = cols, rs_affected = 0, rs_chunk = rows, rs_more = rest, rs_done = True\<rparr>)
   | _ \<Rightarrow> Inl (Err (Server (of_str ''unexpected response to QueryStream: '' @ show_response E resp))))"

definition send_stream_request :: "('w, 't, 's, 'h, 'f) env \<Rightarrow> bytes \<Rightarrow> (('w, 's, 'f) driver, driver_error, instant) op" where
  "send_stream_request E payload =
    sbind (instant_now E) (\<lambda>started.
    sbind (attempt (send E payload)) (\<lambda>sent.
    sbind (transport E sent) (\<lambda>_. sret started)))"

definition query_stream_params_with :: "('w, 't, 's, 'h, 'f) env \<Rightarrow> rstr \<Rightarrow> row \<Rightarrow> consistency \<Rightarrow> (('w, 's, 'f) driver, driver_error, row_stream) op" where
  "query_stream_params_with E sql params c =
    (let payload = client_encode (QueryStream sql params c) in
     sbind (with_failover E (send_stream_request E payload) (send_stream_request E payload)) (\<lambda>started.
     sbind (attempt (recv E)) (\<lambda>frame.
     sbind (observed E started frame) (\<lambda>payload.
     sbind (slift (map_err Proto (response_decode payload))) (\<lambda>resp.
     sbind (if counts_as_statement resp then note_statement E sql else sret ()) (\<lambda>_.
     slift (start_stream E resp)))))))"

definition query_stream_with :: "('w, 't, 's, 'h, 'f) env \<Rightarrow> rstr \<Rightarrow> consistency \<Rightarrow> (('w, 's, 'f) driver, driver_error, row_stream) op" where
  "query_stream_with E sql c = query_stream_params_with E sql [] c"

definition query_stream_params :: "('w, 't, 's, 'h, 'f) env \<Rightarrow> rstr \<Rightarrow> row \<Rightarrow> (('w, 's, 'f) driver, driver_error, row_stream) op" where
  "query_stream_params E sql params d = query_stream_params_with E sql params (default_consistency (me d)) d"

definition query_stream :: "('w, 't, 's, 'h, 'f) env \<Rightarrow> rstr \<Rightarrow> (('w, 's, 'f) driver, driver_error, row_stream) op" where
  "query_stream E sql d = query_stream_with E sql (default_consistency (me d)) d"

definition next_result_set :: "row_stream \<Rightarrow> bool \<times> row_stream" where
  "next_result_set rs = (case rs_more rs of
     [] \<Rightarrow> (False, rs)
   | (cols, rows) # rest \<Rightarrow> (True, rs\<lparr>rs_columns := cols, rs_chunk := rows, rs_more := rest\<rparr>))"

definition on_frame :: "('w, 't, 's, 'h, 'f) env \<Rightarrow> response \<Rightarrow> row_stream \<Rightarrow> (driver_error, unit) res \<times> row_stream" where
  "on_frame E resp rs = (case resp of
     RowsChunk rows \<Rightarrow> (Inr (), rs\<lparr>rs_chunk := rows\<rparr>)
   | RowsEnd \<Rightarrow> (Inr (), rs\<lparr>rs_done := True\<rparr>)
   | Error msg \<Rightarrow> (Inl (Err (Server msg)), rs\<lparr>rs_done := True\<rparr>)
   | _ \<Rightarrow> (Inl (Err (Server (of_str ''unexpected frame in row stream: '' @ show_response E resp))), rs\<lparr>rs_done := True\<rparr>))"

definition next_frame :: "('w, 't, 's, 'h, 'f) env \<Rightarrow> (row_stream \<times> ('w, 's, 'f) driver, driver_error, unit) op" where
  "next_frame E = (\<lambda>(rs, d). case sbind (sbind (attempt (recv E)) (transport E)) (\<lambda>payload. slift (map_err Proto (response_decode payload))) d of
     (Inl e, d) \<Rightarrow> (Inl e, (rs, d))
   | (Inr resp, d) \<Rightarrow> (let (r, rs) = on_frame E resp rs in (r, (rs, d))))"

text \<open>\<^verbatim>\<open>Some(Ok(row))\<close> is \<open>Inr (Some row)\<close>, \<^verbatim>\<open>None\<close> is \<open>Inr None\<close> and \<^verbatim>\<open>Some(Err(e))\<close> is \<open>Inl (Err e)\<close>.\<close>

primrec next_row :: "nat \<Rightarrow> ('w, 't, 's, 'h, 'f) env \<Rightarrow> (row_stream \<times> ('w, 's, 'f) driver, driver_error, row option) op" where
  "next_row 0 E s = (Inl OutOfFuel, s)"
| "next_row (Suc n) E s = (case s of (rs, d) \<Rightarrow>
     (case rs_chunk rs of
        row # rest \<Rightarrow> (Inr (Some row), (rs\<lparr>rs_chunk := rest\<rparr>, d))
      | [] \<Rightarrow>
          if rs_done rs then (Inr None, s)
          else (case next_frame E s of
              (Inr _, s) \<Rightarrow> next_row n E s
            | (Inl (Err e), (rs, d)) \<Rightarrow> (Inl (Err e), (rs\<lparr>rs_done := True\<rparr>, d))
            | (Inl (Panic m), s) \<Rightarrow> (Inl (Panic m), s)
            | (Inl OutOfFuel, s) \<Rightarrow> (Inl OutOfFuel, s))))"

primrec drop_stream :: "nat \<Rightarrow> ('w, 't, 's, 'h, 'f) env \<Rightarrow> (row_stream \<times> ('w, 's, 'f) driver, driver_error, unit) op" where
  "drop_stream 0 E s = (Inl OutOfFuel, s)"
| "drop_stream (Suc n) E s =
    (if rs_done (fst s) then (Inr (), s)
     else case next_frame E s of
        (Inr _, s) \<Rightarrow> drop_stream n E s
      | (Inl (Err _), s) \<Rightarrow> (Inr (), s)
      | (Inl (Panic m), s) \<Rightarrow> (Inl (Panic m), s)
      | (Inl OutOfFuel, s) \<Rightarrow> (Inl OutOfFuel, s))"

section \<open>The stream as a list of rows\<close>

text \<open>A stream over the frames \<open>fs\<close> that is to yield \<open>rows\<close> and to end at \<open>rest\<close>.\<close>

definition streams :: "('s \<Rightarrow> bytes) \<Rightarrow> bytes \<Rightarrow> bytes list \<Rightarrow> row list \<Rightarrow> row_stream \<times> ('w, 's, 'f) driver \<Rightarrow> bool" where
  "streams pending rest fs rows = (\<lambda>(rs, d).
     pending (stream (me d)) = concat (map frame_bytes fs) @ rest \<and>
     (if rs_done rs then fs = [] \<and> rows = rs_chunk rs
      else \<exists>chunks e. fs = chunks @ [e] \<and> length e \<le> MAX_FRAME_LEN \<and> response_decode e = Inr RowsEnd
        \<and> (\<exists>cs. list_all2 (\<lambda>f c. length f \<le> MAX_FRAME_LEN \<and> response_decode f = Inr (RowsChunk c)) chunks cs \<and> rows = rs_chunk rs @ concat cs)))"

lemma next_frame_ok:
  assumes "duplex (io (net E)) sent pending" and "length f \<le> MAX_FRAME_LEN" and "pending (stream (me d)) = frame_bytes f @ rest"
  shows "\<exists>d'. next_frame E (rs, d) = (case response_decode f of
        Inr resp \<Rightarrow> (case on_frame E resp rs of (r, rs') \<Rightarrow> (r, (rs', d'))) | Inl e \<Rightarrow> (map_err Proto (Inl e), (rs, d')))
      \<and> progressed sent pending d [] rest d'"
proof -
  from recv_ok[OF assms] obtain d1 where d1: "recv E d = (Inr f, d1)" "progressed sent pending d [] rest d1" by blast
  then have "sbind (sbind (attempt (recv E)) (transport E)) (\<lambda>payload. slift (map_err Proto (response_decode payload))) d
      = (map_err Proto (response_decode f), d1)" by (simp add: attempt_def)
  then have "next_frame E (rs, d) = (case response_decode f of
        Inr resp \<Rightarrow> (case on_frame E resp rs of (r, rs') \<Rightarrow> (r, (rs', d1))) | Inl e \<Rightarrow> (map_err Proto (Inl e), (rs, d1)))"
    by (cases "response_decode f") (auto simp: next_frame_def map_err_def split: fault.splits)
  with d1(2) show ?thesis by blast
qed

text \<open>Fetching a frame replaces the current chunk, whether it has been read out or not.\<close>

lemma next_frame_streams:
  assumes d: "duplex (io (net E)) sent pending" and s: "streams pending rest fs rows (rs, d)" and "\<not> rs_done rs"
  shows "\<exists>f fs' rs' d' rows'. fs = f # fs' \<and> next_frame E (rs, d) = (Inr (), (rs', d')) \<and> streams pending rest fs' rows' (rs', d')
    \<and> (rs_chunk rs = [] \<longrightarrow> rows' = rows)"
proof -
  from s assms(3) obtain chunks e cs where c: "fs = chunks @ [e]" "length e \<le> MAX_FRAME_LEN" "response_decode e = Inr RowsEnd"
    "list_all2 (\<lambda>f c. length f \<le> MAX_FRAME_LEN \<and> response_decode f = Inr (RowsChunk c)) chunks cs" "rows = rs_chunk rs @ concat cs"
    "pending (stream (me d)) = concat (map frame_bytes fs) @ rest"
    by (auto simp: streams_def)
  show ?thesis
  proof (cases chunks)
    case Nil
    with c next_frame_ok[OF d c(2), of d rest rs] obtain d' where
      "next_frame E (rs, d) = (Inr (), (rs\<lparr>rs_done := True\<rparr>, d'))" "progressed sent pending d [] rest d'"
      by (auto simp: on_frame_def)
    with c Nil show ?thesis by (auto simp: streams_def progressed_def)
  next
    case (Cons f chunks')
    with c(4) obtain x cs' where x: "cs = x # cs'" "length f \<le> MAX_FRAME_LEN" "response_decode f = Inr (RowsChunk x)"
      "list_all2 (\<lambda>f c. length f \<le> MAX_FRAME_LEN \<and> response_decode f = Inr (RowsChunk c)) chunks' cs'"
      by (auto simp: list_all2_Cons1)
    with c Cons next_frame_ok[OF d x(2), of d "concat (map frame_bytes (chunks' @ [e])) @ rest" rs] obtain d' where
      "next_frame E (rs, d) = (Inr (), (rs\<lparr>rs_chunk := x\<rparr>, d'))"
      "progressed sent pending d [] (concat (map frame_bytes (chunks' @ [e])) @ rest) d'"
      by (auto simp: on_frame_def)
    with c Cons x assms(3) show ?thesis
      by (intro exI[of _ f] exI[of _ "chunks' @ [e]"] exI[of _ "rs\<lparr>rs_chunk := x\<rparr>"] exI[of _ d'] exI[of _ "x @ concat cs'"])
        (auto simp: streams_def progressed_def)
  qed
qed

lemma next_row_streams:
  assumes d: "duplex (io (net E)) sent pending"
  shows "streams pending rest fs rows s \<Longrightarrow> length fs < n \<Longrightarrow>
    \<exists>fs' s'. next_row n E s = (Inr (case rows of [] \<Rightarrow> None | r # _ \<Rightarrow> Some r), s') \<and> length fs' \<le> length fs
      \<and> streams pending rest fs' (tl rows) s' \<and> (rows = [] \<longrightarrow> fs' = [])"
proof (induction n arbitrary: fs s)
  case (Suc n)
  obtain rs c where s: "s = (rs, c)" by fastforce
  show ?case
  proof (cases "rs_chunk rs")
    case (Cons r rest')
    have "\<exists>qs. rows = r # qs" using Suc.prems(1) Cons by (auto simp: s streams_def split: if_splits)
    then obtain qs where q: "rows = r # qs" by blast
    then have "streams pending rest fs qs (rs\<lparr>rs_chunk := rest'\<rparr>, c)"
      using Suc.prems(1) Cons by (auto simp: s streams_def split: if_splits)
    then show ?thesis using Cons q by (intro exI[of _ fs] exI[of _ "(rs\<lparr>rs_chunk := rest'\<rparr>, c)"]) (simp add: s)
  next
    case Nil
    show ?thesis
    proof (cases "rs_done rs")
      case True
      then have "rows = []" "fs = []" using Suc.prems(1) Nil by (auto simp: s streams_def)
      with Suc.prems(1) Nil True show ?thesis by (auto simp: s)
    next
      case False
      from next_frame_streams[OF d Suc.prems(1)[unfolded s] False] Nil obtain f fs' rs' d' where
        n: "fs = f # fs'" "next_frame E (rs, c) = (Inr (), (rs', d'))" "streams pending rest fs' rows (rs', d')" by auto
      from Suc.IH[OF n(3)] Suc.prems(2) n(1) obtain fs2 s2 where
        "next_row n E (rs', d') = (Inr (case rows of [] \<Rightarrow> None | r # _ \<Rightarrow> Some r), s2)" "length fs2 \<le> length fs'"
        "streams pending rest fs2 (tl rows) s2" "rows = [] \<longrightarrow> fs2 = []" by auto
      then show ?thesis using n(1,2) Nil False by (intro exI[of _ fs2] exI[of _ s2]) (simp add: s)
    qed
  qed
qed simp

lemma drop_streams:
  assumes d: "duplex (io (net E)) sent pending"
  shows "streams pending rest fs rows s \<Longrightarrow> length fs < n \<Longrightarrow>
    \<exists>s'. drop_stream n E s = (Inr (), s') \<and> pending (stream (me (snd s'))) = rest"
proof (induction n arbitrary: fs rows s)
  case (Suc n)
  obtain rs c where s: "s = (rs, c)" by fastforce
  show ?case
  proof (cases "rs_done rs")
    case True
    then show ?thesis using Suc.prems(1) by (auto simp: s streams_def)
  next
    case False
    from next_frame_streams[OF d Suc.prems(1)[unfolded s] False] obtain f fs' rs' d' rows' where
      n: "fs = f # fs'" "next_frame E (rs, c) = (Inr (), (rs', d'))" "streams pending rest fs' rows' (rs', d')" by blast
    from Suc.IH[OF n(3)] Suc.prems(2) n(1,2) False show ?thesis by (simp add: s)
  qed
qed simp

text \<open>Calling \<^verbatim>\<open>next\<close> \<open>k\<close> times.\<close>

primrec fetch :: "nat \<Rightarrow> nat \<Rightarrow> ('w, 't, 's, 'h, 'f) env \<Rightarrow> (row_stream \<times> ('w, 's, 'f) driver, driver_error, row option list) op" where
  "fetch 0 n E = sret []"
| "fetch (Suc k) n E = sbind (next_row n E) (\<lambda>r. sbind (fetch k n E) (\<lambda>rs. sret (r # rs)))"

definition yields :: "row list \<Rightarrow> nat \<Rightarrow> row option list" where
  "yields rows k = map Some (take k rows) @ replicate (k - length rows) None"

lemma yields_Suc: "yields rows (Suc k) = (case rows of [] \<Rightarrow> None | r # _ \<Rightarrow> Some r) # yields (tl rows) k"
  by (cases rows) (auto simp: yields_def replicate_append_same)

lemma fetch_streams:
  assumes d: "duplex (io (net E)) sent pending"
  shows "streams pending rest fs rows s \<Longrightarrow> length fs < n \<Longrightarrow>
    \<exists>fs' s'. fetch k n E s = (Inr (yields rows k), s') \<and> length fs' < n \<and> streams pending rest fs' (drop k rows) s'"
proof (induction k arbitrary: fs rows s)
  case 0
  then show ?case by (auto simp: yields_def)
next
  case (Suc k)
  from next_row_streams[OF d Suc.prems] obtain fs1 s1 where
    s1: "next_row n E s = (Inr (case rows of [] \<Rightarrow> None | r # _ \<Rightarrow> Some r), s1)" "length fs1 \<le> length fs" "streams pending rest fs1 (tl rows) s1" by blast
  from Suc.IH[OF s1(3)] s1(2) Suc.prems(2) obtain fs2 s2 where
    s2: "fetch k n E s1 = (Inr (yields (tl rows) k), s2)" "length fs2 < n" "streams pending rest fs2 (drop k (tl rows)) s2" by auto
  have "fetch (Suc k) n E s = (Inr (yields rows (Suc k)), s2)" using s1(1) s2(1) by (simp add: yields_Suc)
  moreover have "drop k (tl rows) = drop (Suc k) rows" by (simp add: drop_Suc)
  ultimately show ?case using s2(2,3) by auto
qed

lemma query_stream_ok:
  assumes "duplex (io (net E)) sent pending" and "utf8_ok sql" and "length (client_encode (QueryStream sql params c)) \<le> MAX_FRAME_LEN"
    and "length h \<le> MAX_FRAME_LEN" and "response_decode h = Inr resp" and "pending (stream (me d)) = frame_bytes h @ rest"
  shows "\<exists>d'. query_stream_params_with E sql params c d = (start_stream E resp, d')
    \<and> progressed sent pending d (frame_bytes (client_encode (QueryStream sql params c))) rest d'"
proof -
  let ?q = "client_encode (QueryStream sql params c)"
  from instant_now_me[of E d] obtain t d0 where d0: "instant_now E d = (Inr t, d0)" "me d0 = me d" by metis
  from exchange_ok[OF assms(1,3,4), of d0 rest] d0(2) assms(6) obtain d1 d2 where
    d2: "send E ?q d0 = (Inr (), d1)" "recv E d1 = (Inr h, d2)" "progressed sent pending d0 (frame_bytes ?q) rest d2" by auto
  from observed_Inr[of E t h d2] obtain d3 where d3: "observed E t (Inr h) d2 = (Inr h, d3)" "link_only (me d2) (me d3)" by blast
  from note_statement_ok[OF assms(2), of E d3] obtain d4 where d4: "note_statement E sql d3 = (Inr (), d4)" "link_only (me d3) (me d4)" by blast
  define d5 where "d5 = (if counts_as_statement resp then d4 else d3)"
  have "with_failover E (send_stream_request E ?q) (send_stream_request E ?q) d = (Inr t, d1)"
    using d0(1) d2(1) by (simp add: with_failover_def send_stream_request_def attempt_def)
  then have "query_stream_params_with E sql params c d = (start_stream E resp, d5)"
    using d2(2) d3(1) d4(1) assms(5) by (simp add: query_stream_params_with_def Let_def attempt_def d5_def)
  moreover have "progressed sent pending d (frame_bytes ?q) rest d3"
    using progressed_link_only[OF d2(3) d3(2)] d0(2) by (simp add: progressed_def)
  then have "progressed sent pending d (frame_bytes ?q) rest d5"
    using progressed_link_only[OF _ d4(2)] by (simp add: d5_def)
  ultimately show ?thesis by blast
qed

section \<open>Properties\<close>

text \<open>A streamed query yields the rows of all chunks in order and then ends, and stays ended, and
  whenever it is dropped, after any number of rows, the connection has been read up to the end of the
  result and no further, so that the next request starts at its own answer. One more round than there
  are frames is enough for both loops.\<close>

theorem row_stream_yields:
  assumes "duplex (io (net E)) sent pending" and "utf8_ok sql" and "length (client_encode (QueryStream sql params c)) \<le> MAX_FRAME_LEN"
    and "length h \<le> MAX_FRAME_LEN" and "response_decode h = Inr (RowsHeader cols)"
    and "list_all2 (\<lambda>f c. length f \<le> MAX_FRAME_LEN \<and> response_decode f = Inr (RowsChunk c)) chunks cs"
    and "length e \<le> MAX_FRAME_LEN" and "response_decode e = Inr RowsEnd" and "length chunks + 1 < n"
    and "pending (stream (me d)) = frame_bytes h @ concat (map frame_bytes chunks) @ frame_bytes e @ rest"
  shows "\<exists>rs d1 s s'. query_stream_params_with E sql params c d = (Inr rs, d1) \<and> rs_columns rs = cols
    \<and> fetch k n E (rs, d1) = (Inr (map Some (take k (concat cs)) @ replicate (k - length (concat cs)) None), s)
    \<and> drop_stream n E s = (Inr (), s') \<and> pending (stream (me (snd s'))) = rest"
proof -
  let ?rs = "\<lparr>rs_columns = cols, rs_affected = 0, rs_chunk = [], rs_more = [], rs_done = False\<rparr>"
  from query_stream_ok[OF assms(1-5), of d "concat (map frame_bytes (chunks @ [e])) @ rest"] assms(10) obtain d1 where
    q: "query_stream_params_with E sql params c d = (Inr ?rs, d1)" "pending (stream (me d1)) = concat (map frame_bytes (chunks @ [e])) @ rest"
    by (auto simp: start_stream_def progressed_def)
  have "streams pending rest (chunks @ [e]) (concat cs) (?rs, d1)"
    using q(2) assms(6-8) by (auto simp: streams_def)
  from fetch_streams[OF assms(1) this, of n k] assms(9) obtain fs s where
    f: "fetch k n E (?rs, d1) = (Inr (yields (concat cs) k), s)" "length fs < n" "streams pending rest fs (drop k (concat cs)) s" by auto
  from drop_streams[OF assms(1) f(3,2)] obtain s' where "drop_stream n E s = (Inr (), s')" "pending (stream (me (snd s'))) = rest" by blast
  with f(1) q(1) show ?thesis unfolding yields_def by (intro exI[of _ ?rs] exI[of _ d1] exI[of _ s] exI[of _ s']) simp
qed

theorem row_stream_yields_witness:
  "\<exists>rs d1 s s'. query_stream_params_with (sample_env []) [0x78] [] One (set_stream ([], frame_bytes (response_encode (RowsHeader [[0x61]]))
       @ frame_bytes (response_encode (RowsChunk [[VNull]])) @ frame_bytes (response_encode RowsEnd) @ [7]) sample_driver) = (Inr rs, d1)
    \<and> fetch 2 3 (sample_env []) (rs, d1) = (Inr [Some [VNull], None], s)
    \<and> drop_stream 3 (sample_env []) s = (Inr (), s') \<and> snd (stream (me (snd s'))) = [7]"
proof -
  let ?h = "response_encode (RowsHeader [[0x61]])" and ?c = "response_encode (RowsChunk [[VNull]])" and ?e = "response_encode RowsEnd"
  have dec: "response_decode ?h = Inr (RowsHeader [[0x61]])" "response_decode ?c = Inr (RowsChunk [[VNull]])" "response_decode ?e = Inr RowsEnd"
    using response_decode_encode[of "RowsHeader [[0x61]]" "[]"] response_decode_encode[of "RowsChunk [[VNull]]" "[]"]
      response_decode_encode[of RowsEnd "[]"]
    by (simp_all add: response_ok_def columns_ok_def rows_ok_def row_ok_def str_ok_def cell_ok_def storable_def fits_def
        response_encode_simps vec32_def enc_cell_def)
  have len: "length ?h \<le> MAX_FRAME_LEN" "length ?c \<le> MAX_FRAME_LEN" "length ?e \<le> MAX_FRAME_LEN"
    by (simp_all add: response_encode_simps vec32_def enc_cell_def MAX_FRAME_LEN_def)
  have ch: "list_all2 (\<lambda>f c. length f \<le> MAX_FRAME_LEN \<and> response_decode f = Inr (RowsChunk c)) [?c] [[[VNull]]]"
    using dec(2) len(2) by simp
  have q: "length (client_encode (QueryStream [0x78] [] One)) \<le> MAX_FRAME_LEN"
    by (simp add: client_encode_simps MAX_FRAME_LEN_def)
  from row_stream_yields[OF sample_env_duplex _ q len(1) dec(1) ch len(3) dec(3), of 3
      "set_stream ([], frame_bytes ?h @ frame_bytes ?c @ frame_bytes ?e @ [7]) sample_driver" "[7]" "[]" 2]
  show ?thesis by auto
qed

text \<open>A frame in the middle of the stream that does not decode ends the iteration with an error and marks
  the stream as finished, so dropping it reads nothing more: the rest of the result stays in the
  connection, and the next statement is answered with it.\<close>

theorem row_stream_stale_frames:
  assumes "duplex (io (net E)) sent pending" and "utf8_ok sql" and "\<not> rs_done rs" and "rs_chunk rs = []"
    and "length bad \<le> MAX_FRAME_LEN" and "response_decode bad = Inl (Err err)"
    and "length f \<le> MAX_FRAME_LEN" and "response_decode f = Inr resp" and "pending (stream (me d)) = frame_bytes bad @ frame_bytes f @ rest"
    and "length (request_encode \<lparr>req_sql = sql, req_consistency = c\<rparr>) \<le> MAX_FRAME_LEN"
  shows "\<exists>s s' d2. next_row (Suc n) E (rs, d) = (Inl (Err (Proto err)), s) \<and> drop_stream (Suc n) E s = (Inr (), s')
    \<and> execute_with E sql c (snd s') = (answer resp, d2) \<and> pending (stream (me d2)) = rest"
proof -
  from next_frame_ok[OF assms(1,5,9), of rs] assms(6) obtain d1 where
    d1: "next_frame E (rs, d) = (Inl (Err (Proto err)), (rs, d1))" "progressed sent pending d [] (frame_bytes f @ rest) d1" by auto
  have "next_row (Suc n) E (rs, d) = (Inl (Err (Proto err)), (rs\<lparr>rs_done := True\<rparr>, d1))"
    using assms(3,4) d1(1) by simp
  moreover have "drop_stream (Suc n) E (rs\<lparr>rs_done := True\<rparr>, d1) = (Inr (), (rs\<lparr>rs_done := True\<rparr>, d1))" by simp
  moreover from execute_ok[OF assms(1,2,10,7) _ assms(8), of d1 rest] d1(2) obtain d2 where
    "execute_with E sql c d1 = (answer resp, d2)" "pending (stream (me d2)) = rest" by (auto simp: progressed_def)
  ultimately show ?thesis by fastforce
qed

theorem row_stream_stale_frames_witness:
  "\<exists>s s' d2. next_row (Suc 0) (sample_env []) (\<lparr>rs_columns = [], rs_affected = 0, rs_chunk = [], rs_more = [], rs_done = False\<rparr>,
       set_stream ([], frame_bytes [] @ frame_bytes (response_encode Ddl)) sample_driver) = (Inl (Err (Proto M_end)), s)
    \<and> drop_stream (Suc 0) (sample_env []) s = (Inr (), s') \<and> execute_with (sample_env []) [0x78] One (snd s') = (Inr Ddl, d2)"
proof -
  have bad: "response_decode [] = Inl (Err M_end)"
    by (simp add: response_decode_def cur_new_def cur_u8_def cur_take_def)
  have q: "length (request_encode \<lparr>req_sql = [0x78], req_consistency = One\<rparr>) \<le> MAX_FRAME_LEN"
    by (simp add: request_encode_def write_bytes_len MAX_FRAME_LEN_def)
  from row_stream_stale_frames[OF sample_env_duplex _ _ _ _ bad sample_ddl(3,1) _ q,
      of "\<lparr>rs_columns = [], rs_affected = 0, rs_chunk = [], rs_more = [], rs_done = False\<rparr>"
        "set_stream ([], frame_bytes [] @ frame_bytes (response_encode Ddl)) sample_driver" "[]" 0 "[]"]
  show ?thesis by (auto simp: answer_def MAX_FRAME_LEN_def simp del: next_row.simps drop_stream.simps)
qed

end
