(* ===== verification/Driver_Steps.thy ===== *)
theory Driver_Steps
  imports Row_Stream
begin

text \<open>
  What every method of a connection does to the driver's state, as an interface: a relation between the
  states before and after that holds of the elementary changes and composes holds of every method. The
  interpretations are the relations a claim about all methods needs.
\<close>

definition does :: "('st \<Rightarrow> 'st \<Rightarrow> bool) \<Rightarrow> ('st, 'e, 'a) op \<Rightarrow> bool" where
  "does R m \<longleftrightarrow> (\<forall>d. R d (snd (m d)))"

lemma doesI: "(\<And>d r d'. m d = (r, d') \<Longrightarrow> R d d') \<Longrightarrow> does R m"
  unfolding does_def by (metis prod.collapse)

lemma doesD: "does R m \<Longrightarrow> m d = (r, d') \<Longrightarrow> R d d'"
  unfolding does_def by (metis snd_conv)

locale step_relation =
  fixes R :: "'st \<Rightarrow> 'st \<Rightarrow> bool"
  assumes same: "R d d"
    and trans: "R a b \<Longrightarrow> R b c \<Longrightarrow> R a c"
begin

lemma does_sbind: "does R m \<Longrightarrow> (\<And>x. does R (f x)) \<Longrightarrow> does R (sbind m f)"
proof (rule doesI)
  fix d r d'
  assume m: "does R m" "\<And>x. does R (f x)" and eq: "sbind m f d = (r, d')"
  obtain q d1 where q: "m d = (q, d1)" by fastforce
  show "R d d'" using doesD[OF m(1) q] doesD[OF m(2), of _ d1 r d'] eq q trans by (cases q) auto
qed

lemma does_pure: "does R (sret x)" "does R (slift r)"
  by (simp_all add: does_def same)

lemma does_attempt: "does R m \<Longrightarrow> does R (attempt m)"
  by (rule doesI) (auto simp: attempt_def split: prod.splits dest: doesD)

end

text \<open>The elementary changes of a connection. A redial ends at one of the endpoints it was given.\<close>

locale driver_steps = step_relation R
  for E :: "('w, 't, 's, 'h, 'f) env" and R :: "('w, 's, 'f) driver \<Rightarrow> ('w, 's, 'f) driver \<Rightarrow> bool" +
  assumes stream_moved: "R d (set_stream s d)"
    and process_moved: "R d (d\<lparr>proc := p\<rparr>)"
    and answered: "R d (report E (\<lambda>i. observed_ok (f64 E) (opts E) i e) d)"
    and broke: "R d (report E (transport_failed (opts E)) d)"
    and noted: "R d (report E (\<lambda>t (c, st). (c, observe_statement (opts E) t w c st)) d)"
    and dial_failed: "R d (report E (\<lambda>t (c, st). (c, failed (opts E) t ep st)) d)"
    and redialled: "ep \<in> set ordered \<Longrightarrow> R d (take_over ordered ep s d)"
    and reordered: "link (me d) \<noteq> None \<Longrightarrow> order None (Some ep) (pool d) = (eps, st) \<Longrightarrow> R d (d\<lparr>pool := st\<rparr>)"
    and bound: "R d (d\<lparr>me := (me d)\<lparr>client_database := db\<rparr>\<rparr>)"
    and budgeted: "R d (d\<lparr>me := (me d)\<lparr>scan_budget_rows := n\<rparr>\<rparr>)"
begin

lemma does_instant: "does R (instant_now E)"
  by (rule doesI) (auto simp: instant_now_def Let_def split: prod.splits intro: process_moved)

lemma does_frames: "does R (send E p)" "does R (recv E)"
  by (rule doesI, auto simp: send_def recv_def split: sum.splits prod.splits intro: stream_moved)+

lemma does_transport: "does R (transport E r)"
  by (rule doesI) (auto simp: transport_def split: sum.splits fault.splits intro: broke same)

lemma does_observed: "does R (observed E started r)"
proof (cases r)
  case (Inl e)
  then show ?thesis by (simp add: observed_def does_transport)
next
  case (Inr v)
  have "does R (sbind (instant_now E) (\<lambda>t d. (Inr v, report E (\<lambda>i. observed_ok (f64 E) (opts E) i (t - started)) d)))"
    by (rule does_sbind[OF does_instant]) (simp add: does_def answered)
  then show ?thesis by (auto simp: observed_def Inr does_def same)
qed

lemma does_note: "does R (note_statement E sql)"
proof -
  have "does R (sbind (slift (map_err (\<lambda>_. Server []) (is_write sql))) (\<lambda>w d.
      (Inr () :: (driver_error, unit) res, report E (\<lambda>t (c, st). (c, observe_statement (opts E) t w c st)) d)))"
    by (rule does_sbind[OF does_pure(2)]) (simp add: does_def noted)
  then show ?thesis by (auto simp: note_statement_def does_def same split: option.split)
qed

lemma does_call: "does R (call E p)"
  unfolding call_def
  by (intro does_sbind does_attempt does_instant does_frames does_observed does_pure) (auto split: response.split intro: does_pure)

lemma does_session: "does R (apply_database E)" "does R (apply_scan_budget E)" "does R (send_hello E)"
proof -
  have ask: "does R (sbind (roundtrip E q) (\<lambda>_. sret ()))" for q
    unfolding roundtrip_def by (intro does_sbind does_call does_pure)
  show "does R (apply_database E)" "does R (apply_scan_budget E)"
    using ask same by (auto simp: does_def apply_database_def apply_scan_budget_def split: option.split)
  show "does R (send_hello E)"
    unfolding send_hello_def forget_def
    by (intro does_sbind does_attempt does_frames) (auto split: sum.splits intro!: does_sbind does_attempt does_frames does_pure)
qed

lemma does_settings: "does R (use_database E db)" "does R (set_scan_budget_rows E n)"
proof -
  show "does R (use_database E db)"
  proof (rule doesI)
    fix d r d'
    assume a: "use_database E db d = (r, d')"
    let ?d = "d\<lparr>me := (me d)\<lparr>client_database := Some db\<rparr>\<rparr>"
    obtain q d2 where q: "apply_database E ?d = (q, d2)" by fastforce
    have 1: "R d d2" by (rule trans[OF bound doesD[OF does_session(1) q]])
    have "R d (d2\<lparr>me := (me d2)\<lparr>client_database := client_database (me d)\<rparr>\<rparr>)" by (rule trans[OF 1 bound])
    with 1 a q show "R d d'" by (auto simp: use_database_def Let_def split: sum.splits fault.splits)
  qed
  have "does R (sbind (roundtrip E q) (\<lambda>_ d. (Inr () :: (driver_error, unit) res, d\<lparr>me := (me d)\<lparr>scan_budget_rows := n\<rparr>\<rparr>)))" for q
    unfolding roundtrip_def by (rule does_sbind[OF does_call]) (simp add: does_def budgeted)
  then show "does R (set_scan_budget_rows E n)" by (simp add: does_def set_scan_budget_rows_def Let_def)
qed

lemma does_replay: "does R (replay_session E)"
  unfolding replay_session_def by (intro does_sbind does_session)

lemma does_redial: "set eps \<subseteq> set ordered \<Longrightarrow> does R (redial E ordered said eps)"
proof (induction eps arbitrary: said)
  case (Cons ep eps)
  show ?case
  proof (rule doesI)
    fix d r d'
    assume a: "redial E ordered said (ep # eps) d = (r, d')"
    obtain q p where q: "dial (net E) ep (client_login (me d)) (proc d) = (q, p)" by fastforce
    have p: "R d (d\<lparr>proc := p\<rparr>)" by (rule process_moved)
    show "R d d'"
    proof (cases q)
      case (Inr s)
      with a q have "replay_session E (take_over ordered ep s (d\<lparr>proc := p\<rparr>)) = (r, d')" by simp
      from trans[OF p trans[OF redialled doesD[OF does_replay this]]] Cons.prems show ?thesis by simp
    next
      case (Inl x)
      show ?thesis
      proof (cases x)
        case (Err e)
        with Inl q a have *: "redial E ordered (fault_at E ep e) eps
          (if member_fault e then report E (\<lambda>t (c, st). (c, failed (opts E) t ep st)) (d\<lparr>proc := p\<rparr>) else d\<lparr>proc := p\<rparr>) = (r, d')" by simp
        from Cons.prems have "set eps \<subseteq> set ordered" by simp
        from doesD[OF Cons.IH[OF this] *] trans[OF p dial_failed, of ep] p show ?thesis by (auto intro: trans split: if_splits)
      qed (use Inl q a p in auto)
    qed
  qed
qed (simp add: does_def same)

lemma does_reconnect: "does R (reconnect E)"
proof (rule doesI)
  fix d r d'
  assume a: "reconnect E d = (r, d')"
  obtain eps d1 where o: "redial_order E d = (eps, d1)" by fastforce
  have "R d d1" using o by (auto simp: redial_order_def Let_def split: option.splits prod.splits intro: process_moved reordered)
  moreover have "R d1 d'" using a o by (intro doesD[OF does_redial[OF subset_refl]]) (simp add: reconnect_def)
  ultimately show "R d d'" by (rule trans)
qed

lemma does_failover:
  assumes "does R m" and "does R m'"
  shows "does R (with_failover E m m')"
proof (rule doesI)
  fix d r d'
  assume a: "with_failover E m m' d = (r, d')"
  obtain q d1 where q: "m d = (q, d1)" by fastforce
  note r1 = doesD[OF assms(1) q]
  show "R d d'"
  proof (cases "\<exists>e. q = Inl (Err (Io e))")
    case True
    then have "sbind (reconnect E) (\<lambda>_. m') d1 = (r, d')" using a q by (auto simp: with_failover_def)
    from trans[OF r1 doesD[OF does_sbind[OF does_reconnect assms(2)] this]] show ?thesis .
  next
    case False
    then have "(q, d1) = (r, d')" using a q by (auto simp: with_failover_def split: sum.splits fault.splits driver_error.splits)
    with r1 show ?thesis by simp
  qed
qed

lemma does_execute: "does R (try_execute E sql c)" "does R (execute_with E sql c)" "does R (execute E sql)" "does R (stream_poll E strm after limit)"
proof -
  show t: "does R (try_execute E sql c)" for c sql unfolding try_execute_def by (rule does_call)
  show e: "does R (execute_with E sql c)" for c sql
    unfolding execute_with_def by (intro does_sbind does_failover t does_note does_pure)
  then show x: "does R (execute E sql)" for sql by (simp add: does_def execute_def)
  then show "does R (stream_poll E strm after limit)"
    unfolding stream_poll_def Let_def by (intro does_sbind does_pure)
qed

lemma does_pipeline: "does R (pipeline_with E stmts c)"
proof -
  have s: "does R (send_tagged E c i stmts)" for i stmts
    by (induction stmts arbitrary: i; unfold send_tagged.simps; intro does_sbind does_pure does_attempt does_frames does_transport)
  have r: "does R (read_slots E t ns slots)" for t ns slots
    by (induction ns arbitrary: slots; unfold read_slots.simps read_slot_def; intro does_sbind does_pure does_attempt does_frames)
      (auto intro: does_transport does_observed)
  have n: "does R (note_all E xs)" for xs
    by (induction xs; unfold note_all.simps; intro does_sbind does_pure) (auto intro: does_pure does_note split: response.split)
  show ?thesis
    unfolding pipeline_with_def try_pipeline_def
    by (auto intro!: does_sbind does_failover does_instant s r n) (auto intro: does_pure)
qed

lemma does_prepare: "does R (prepare E sql)"
  unfolding prepare_def roundtrip_def
  by (intro does_sbind does_failover does_call) (auto split: response.split intro: does_pure)

lemma does_query_stream: "does R (query_stream_params_with E sql params c)"
  unfolding query_stream_params_with_def send_stream_request_def Let_def
  by (intro does_sbind does_failover does_instant does_attempt does_frames does_transport does_observed does_pure) (auto intro: does_note does_pure)

end

text \<open>The methods of a prepared statement and of a stream of rows run on the driver's state beside their own.\<close>

sublocale driver_steps \<subseteq> on_statement: step_relation "\<lambda>(s :: prepared \<times> ('w, 's, 'f) driver) s'. R (snd s) (snd s')"
  by unfold_locales (auto intro: same trans)

context driver_steps
begin

lemma does_on_prepared: "does (\<lambda>s s'. R (snd s) (snd s')) (on_prepared E req)"
proof (rule doesI)
  fix sd r sd'
  assume a: "on_prepared E req sd = (r, sd')"
  obtain stmt d where sd: "sd = (stmt, d)" by fastforce
  obtain q d1 where q: "roundtrip E (req stmt) d = (q, d1)" by fastforce
  have rt: "does R (roundtrip E x)" for x by (simp add: roundtrip_def does_call)
  note r1 = doesD[OF rt q]
  show "R (snd sd) (snd sd')"
  proof (cases "\<exists>e. q = Inl (Err (Io e))")
    case True
    obtain p d2 where p: "sbind (reconnect E) (\<lambda>_. prepare E (prep_sql stmt)) d1 = (p, d2)" by fastforce
    have r2: "R d d2" by (rule trans[OF r1 doesD[OF does_sbind[OF does_reconnect does_prepare] p]])
    show ?thesis
    proof (cases p)
      case (Inr stmt')
      obtain q3 d3 where q3: "roundtrip E (req stmt') d2 = (q3, d3)" by fastforce
      with Inr p q True a sd trans[OF r2 doesD[OF rt q3]] show ?thesis by (auto simp: on_prepared_def)
    qed (use r2 p q True a sd in \<open>auto simp: on_prepared_def\<close>)
  qed (use r1 q a sd in \<open>auto simp: on_prepared_def split: sum.splits fault.splits driver_error.splits\<close>)
qed

lemma does_prepared:
  "does (\<lambda>s s'. R (snd s) (snd s')) (execute_prepared E params)" "does (\<lambda>s s'. R (snd s) (snd s')) (execute_batch E rows)"
  "does (\<lambda>s s'. R (snd s) (snd s')) (execute_prepared_with E params k)"
proof -
  have n: "does (\<lambda>s s'. R (snd s) (snd s')) (noting E x)" for x :: 'x
    by (rule doesI) (auto simp: noting_def dest: doesD[OF does_note] split: prod.splits)
  show w: "does (\<lambda>s s'. R (snd s) (snd s')) (execute_prepared_with E params c)" for c
    unfolding execute_prepared_with_def by (intro on_statement.does_sbind does_on_prepared n)
  from w show "does (\<lambda>s s'. R (snd s) (snd s')) (execute_prepared E params)" by (simp add: does_def execute_prepared_def)
  have "does (\<lambda>s s'. R (snd s) (snd s')) (sbind (on_prepared E (\<lambda>stmt. ExecuteBatch (prep_id stmt) rows c)) (\<lambda>resp.
     case resp of Mutation n \<Rightarrow> noting E n | Error e \<Rightarrow> slift (Inl (Err (Server e)))
     | _ \<Rightarrow> slift (Inl (Err (Server (of_str ''unexpected response to ExecuteBatch: '' @ show_response E resp))))))" for c
    by (intro on_statement.does_sbind does_on_prepared) (auto split: response.split intro: n on_statement.does_pure)
  then show "does (\<lambda>s s'. R (snd s) (snd s')) (execute_batch E rows)" by (simp add: does_def execute_batch_def Let_def)
qed

lemma does_next_frame: "does (\<lambda>s s'. R (snd s) (snd s')) (next_frame E)"
proof (rule doesI)
  fix s r s'
  assume a: "next_frame E s = (r, s')"
  obtain rs d where s: "s = (rs, d)" by fastforce
  obtain q d1 where q: "sbind (sbind (attempt (recv E)) (transport E)) (\<lambda>payload. slift (map_err Proto (response_decode payload))) d = (q, d1)"
    by fastforce
  have "does R (sbind (sbind (attempt (recv E)) (transport E)) (\<lambda>payload. slift (map_err Proto (response_decode payload))))"
    by (intro does_sbind does_attempt does_frames does_transport does_pure)
  from doesD[OF this q] have "R d d1" .
  with a s q show "R (snd s) (snd s')" by (auto simp: next_frame_def Let_def split: sum.splits prod.splits)
qed

lemma does_stream: "does (\<lambda>s s'. R (snd s) (snd s')) (next_row n E)" "does (\<lambda>s s'. R (snd s) (snd s')) (drop_stream n E)"
proof -
  have nf: "R (snd s) (snd (snd (next_frame E s)))" for s
    using doesD[OF does_next_frame, of s] by (metis prod.collapse)
  show "does (\<lambda>s s'. R (snd s) (snd s')) (next_row n E)"
  proof (induction n)
    case (Suc n)
    have "R (snd s) (snd (snd (next_row (Suc n) E s)))" for s
    proof -
      obtain r s1 where n: "next_frame E s = (r, s1)" by (metis prod.exhaust)
      have "R (snd s) (snd s1)" "R (snd s1) (snd (snd (next_row n E s1)))" using nf[of s] n Suc[unfolded does_def, rule_format, of s1] by simp_all
      then have "R (snd s) (snd (snd (next_row n E s1)))" by (rule trans)
      with \<open>R (snd s) (snd s1)\<close> n same[of "snd s"] show ?thesis
        by (cases s; cases s1; cases "rs_chunk (fst s)"; cases r) (auto split: fault.split)
    qed
    then show ?case by (simp add: does_def)
  qed (simp add: does_def same)
  show "does (\<lambda>s s'. R (snd s) (snd s')) (drop_stream n E)"
  proof (induction n)
    case (Suc n)
    have "R (snd s) (snd (snd (drop_stream (Suc n) E s)))" for s
    proof -
      obtain r s1 where n: "next_frame E s = (r, s1)" by (metis prod.exhaust)
      have "R (snd s) (snd s1)" "R (snd s1) (snd (snd (drop_stream n E s1)))" using nf[of s] n Suc[unfolded does_def, rule_format, of s1] by simp_all
      then have "R (snd s) (snd (snd (drop_stream n E s1)))" by (rule trans)
      with \<open>R (snd s) (snd s1)\<close> n same[of "snd s"] show ?thesis by (cases r) (auto split: fault.split)
    qed
    then show ?case by (simp add: does_def)
  qed (simp add: does_def same)
qed

end

end
