(* ===== verification/Checkout.thy ===== *)
theory Checkout
  imports Driver_Steps
begin

text \<open>
  Connections of a balanced pool end to end (\<^verbatim>\<open>src/lib.rs\<close>): dialling with the pool's login and database,
  checking out, discovery over a connection, probing and the background pass. The pool's lock sections are the definitions of \<open>Balancer\<close> and \<open>Discovery\<close>; what runs
  between them is the driver of \<open>Client\<close>. The main lemmas show that all of it moves the pool by steps of
  \<open>pool_step\<close>.
\<close>

section \<open>Dialling for the pool\<close>

record pool_conf =
  conf_self :: nat
  conf_login :: login
  conf_database :: "rstr option"
  conf_consistency :: consistency

type_synonym ('w, 's, 'f) pooled = "'w process \<times> ('s, 'f) balancer_state"

text \<open>Runs a method of the connection \<open>c\<close> and returns its result with the connection.\<close>

definition on_client :: "'s client \<Rightarrow> (('w, 's, 'f) driver, driver_error, 'a) op \<Rightarrow> (('w, 's, 'f) pooled, driver_error, (driver_error, 'a) res \<times> 's client) op" where
  "on_client c m = (\<lambda>(p, st). case m \<lparr>me = c, proc = p, pool = st\<rparr> of (r, d) \<Rightarrow> (Inr (r, me d), (proc d, pool d)))"

definition drop_pooled :: "'s client \<Rightarrow> (('w, 's, 'f) pooled, driver_error, unit) op" where
  "drop_pooled c = (\<lambda>(p, st). (Inr (), (p, drop_client c st)))"

definition dial_pool :: "('w, 't, 's, 'h, 'f) env \<Rightarrow> pool_conf \<Rightarrow> rstr list \<Rightarrow> bool \<Rightarrow> (('w, 's, 'f) pooled, driver_error, 's client) op" where
  "dial_pool E P ordered tied =
    sbind (open_client E ordered (conf_login P) (if tied then Some (link_new (conf_self P)) else None)) (\<lambda>c.
    let c = c\<lparr>default_consistency := conf_consistency P\<rparr> in
    case conf_database P of
      None \<Rightarrow> sret c
    | Some db \<Rightarrow> sbind (on_client c (use_database E db)) (\<lambda>(r, c).
        case r of Inr _ \<Rightarrow> sret c | Inl e \<Rightarrow> sbind (drop_pooled c) (\<lambda>_. slift (Inl e))))"

section \<open>Discovery\<close>

definition pool_clock :: "('w, 't, 's, 'h, 'f) env \<Rightarrow> (('w, 's, 'f) pooled, driver_error, sysin) op" where
  "pool_clock E = (\<lambda>(p, st). let (t, w) = pool_in E (world p) in (Inr t, (p\<lparr>world := w\<rparr>, st)))"

definition locked :: "(('s, 'f) balancer_state \<Rightarrow> 'a \<times> ('s, 'f) balancer_state) \<Rightarrow> (('w, 's, 'f) pooled, driver_error, 'a) op" where
  "locked f = (\<lambda>(p, st). let (x, st) = f st in (Inr x, (p, st)))"

definition list_client :: "('w, 't, 's, 'h, 'f) env \<Rightarrow> 's client \<Rightarrow> (('w, 's, 'f) pooled, driver_error, 's client) op" where
  "list_client E c =
    sbind (on_client c (execute E (of_str ''SHOW ENDPOINTS''))) (\<lambda>(r, c).
    case r of
      Inr resp \<Rightarrow> sbind (pool_clock E) (\<lambda>t. sbind (locked (\<lambda>st. ((), list_through (opts E) t (connected c) (Inr resp) st))) (\<lambda>_. sret c))
    | Inl (Err e) \<Rightarrow> sbind (pool_clock E) (\<lambda>t. sbind (locked (\<lambda>st. ((), list_through (opts E) t (connected c) (Inl e) st))) (\<lambda>_. sret c))
    | Inl x \<Rightarrow> slift (Inl x))"

definition discover_client :: "('w, 't, 's, 'h, 'f) env \<Rightarrow> 's client \<Rightarrow> (('w, 's, 'f) pooled, driver_error, 's client) op" where
  "discover_client E c =
    sbind (pool_clock E) (\<lambda>t.
    sbind (locked (discover_through (opts E) t (connected c))) (\<lambda>go. if go then list_client E c else sret c))"

section \<open>Checking out\<close>

definition link_broken :: "'s client \<Rightarrow> bool" where
  "link_broken c = (case link c of Some l \<Rightarrow> broken l | None \<Rightarrow> False)"

text \<open>The locked section: nothing on a closed pool, else an idle connection or the endpoints to dial.\<close>

definition decide :: "('w, 't, 's, 'h, 'f) env \<Rightarrow> sysin \<Rightarrow> rstr option \<Rightarrow> ('s, 'f) balancer_state
    \<Rightarrow> ('s client option \<times> 's client list \<times> rstr list) option \<times> ('s, 'f) balancer_state" where
  "decide E t key st =
    (if closed st then (None, st)
     else
       let (target, st) = pick (f64 E) (opts E) t key st; (found, stale, st) = take_idle (opts E) target st in
       case found of
         Some c \<Rightarrow> (Some (Some c, stale, []), st)
       | None \<Rightarrow> let (eps, st) = order target None st in (Some (None, stale, eps), st))"

definition checkout_once :: "('w, 't, 's, 'h, 'f) env \<Rightarrow> pool_conf \<Rightarrow> rstr option \<Rightarrow> (('w, 's, 'f) pooled, driver_error, 's client option) op" where
  "checkout_once E P key =
    sbind (pool_clock E) (\<lambda>t.
    sbind (locked (decide E t key)) (\<lambda>choice. case choice of
      None \<Rightarrow> slift (Inl (Err (NoEndpoint (of_str ''pool is closed''))))
    | Some (found, stale, eps) \<Rightarrow>
        sbind (locked (\<lambda>st. ((), fold drop_client stale st))) (\<lambda>_. case found of
          Some c \<Rightarrow> sret (Some c)
        | None \<Rightarrow>
            sbind (dial_pool E P eps True) (\<lambda>c.
            sbind (discover_client E c) (\<lambda>c.
            if link_broken c then sbind (drop_pooled c) (\<lambda>_. sret None) else sret (Some c))))))"

primrec checkout_loop :: "nat \<Rightarrow> ('w, 't, 's, 'h, 'f) env \<Rightarrow> pool_conf \<Rightarrow> rstr option \<Rightarrow> (('w, 's, 'f) pooled, driver_error, 's client) op" where
  "checkout_loop 0 E P key = slift (Inl (Err (NoEndpoint (of_str ''every new connection broke during member discovery''))))"
| "checkout_loop (Suc n) E P key =
    sbind (checkout_once E P key) (\<lambda>got. case got of
      Some c \<Rightarrow> locked (\<lambda>st. check_out key (c, st))
    | None \<Rightarrow> checkout_loop n E P key)"

definition checkout :: "('w, 't, 's, 'h, 'f) env \<Rightarrow> pool_conf \<Rightarrow> rstr option \<Rightarrow> (('w, 's, 'f) pooled, driver_error, 's client) op" where
  "checkout E P key = checkout_loop CHECKOUT_ATTEMPTS E P key"

definition checkin_pool :: "('w, 't, 's, 'h, 'f) env \<Rightarrow> pool_conf \<Rightarrow> 's client \<Rightarrow> (('w, 's, 'f) pooled, driver_error, unit) op" where
  "checkin_pool E P c = locked (\<lambda>st. ((), checkin (conf_self P) (opts E) c st))"

text \<open>\<^verbatim>\<open>Pool::with\<close> and \<^verbatim>\<open>Pool::with_affinity\<close>: the connection goes back whatever the work returned;
  a panic of the work drops it.\<close>

definition with_conn :: "('w, 't, 's, 'h, 'f) env \<Rightarrow> pool_conf \<Rightarrow> rstr option \<Rightarrow> (('w, 's, 'f) driver, driver_error, 'a) op
    \<Rightarrow> (('w, 's, 'f) pooled, driver_error, 'a) op" where
  "with_conn E P key work =
    sbind (checkout E P key) (\<lambda>c.
    sbind (on_client c work) (\<lambda>(r, c).
    sbind (case r of Inl (Panic _) \<Rightarrow> drop_pooled c | _ \<Rightarrow> checkin_pool E P c) (\<lambda>_. slift r)))"

section \<open>The background thread\<close>

definition refresh :: "('w, 't, 's, 'h, 'f) env \<Rightarrow> pool_conf \<Rightarrow> (('w, 's, 'f) pooled, driver_error, unit) op" where
  "refresh E P = (\<lambda>ps. case checkout E P None ps of
     (Inr c, ps) \<Rightarrow> sbind (list_client E c) (checkin_pool E P) ps
   | (Inl (Err _), ps) \<Rightarrow> sbind (pool_clock E) (\<lambda>t. locked (\<lambda>st. ((), st\<lparr>next_refresh := now t + refresh_interval (opts E)\<rparr>))) ps
   | (Inl x, ps) \<Rightarrow> (Inl x, ps))"

definition dial_and_ask :: "('w, 't, 's, 'h, 'f) env \<Rightarrow> pool_conf \<Rightarrow> rstr \<Rightarrow> (('w, 's, 'f) pooled, driver_error, 's client) op" where
  "dial_and_ask E P ep =
    sbind (dial_pool E P [ep] False) (\<lambda>c.
    sbind (on_client c (try_execute E (of_str ''SHOW DATABASES'') (conf_consistency P))) (\<lambda>(r, c).
    slift (rbind r (\<lambda>_. Inr c))))"

definition probe_member :: "('w, 't, 's, 'h, 'f) env \<Rightarrow> pool_conf \<Rightarrow> rstr \<Rightarrow> (('w, 's, 'f) pooled, driver_error, unit) op" where
  "probe_member E P ep = (\<lambda>ps. case dial_and_ask E P ep ps of
     (Inr c, ps) \<Rightarrow> sbind (pool_clock E) (\<lambda>t. locked (\<lambda>st. ((), probe_done (conf_self P) (opts E) t ep (Some c) st))) ps
   | (Inl (Err _), ps) \<Rightarrow> sbind (pool_clock E) (\<lambda>t. locked (\<lambda>st. ((), probe_done (conf_self P) (opts E) t ep None st))) ps
   | (Inl x, ps) \<Rightarrow> (Inl x, ps))"

primrec probe_members :: "('w, 't, 's, 'h, 'f) env \<Rightarrow> pool_conf \<Rightarrow> rstr list \<Rightarrow> (('w, 's, 'f) pooled, driver_error, unit) op" where
  "probe_members E P [] = sret ()"
| "probe_members E P (ep # eps) = sbind (probe_member E P ep) (\<lambda>_. probe_members E P eps)"

definition tick_pool :: "('w, 't, 's, 'h, 'f) env \<Rightarrow> pool_conf \<Rightarrow> (('w, 's, 'f) pooled, driver_error, bool) op" where
  "tick_pool E P =
    sbind (pool_clock E) (\<lambda>t.
    sbind (locked (\<lambda>st. case tick (opts E) t st of None \<Rightarrow> (None, st) | Some (eps, again, st) \<Rightarrow> (Some (eps, again), st))) (\<lambda>x.
    case x of
      None \<Rightarrow> sret False
    | Some (eps, again) \<Rightarrow>
        sbind (probe_members E P eps) (\<lambda>_. sbind (if again then refresh E P else sret ()) (\<lambda>_. sret True))))"

section \<open>The driver moves the pool by pool steps\<close>

definition out_of :: "'s client \<Rightarrow> bool option" where
  "out_of c = map_option link_out (link c)"

text \<open>A method run on the connection at position \<open>i\<close> of those the pool has handed out.\<close>

definition pool_moves :: "('w, 't, 's, 'h, 'f) env \<Rightarrow> nat \<Rightarrow> ('w, 's, 'f) driver \<Rightarrow> ('w, 's, 'f) driver \<Rightarrow> bool" where
  "pool_moves E self d d' \<longleftrightarrow> out_of (me d') = out_of (me d) \<and>
     (\<forall>held i. i < length held \<longrightarrow> held ! i = me d \<longrightarrow> reachable self (f64 E) (opts E) (pool d, held) \<longrightarrow>
        reachable self (f64 E) (opts E) (pool d', held[i := me d']))"

lemma held_same: "held ! i = x \<Longrightarrow> held[i := x] = held"
  by (metis list_update_id)

lemma pool_movesI:
  assumes "out_of (me d') = out_of (me d)"
    and "\<And>held i. i < length held \<Longrightarrow> held ! i = me d \<Longrightarrow> pool_step self (f64 E) (opts E) (pool d, held) (pool d', held[i := me d'])"
  shows "pool_moves E self d d'"
  using assms unfolding pool_moves_def by (blast intro: reachable.stepped)

lemma pool_moves_uses: "pool d' = pool d \<Longrightarrow> link (me d') = link (me d) \<Longrightarrow> pool_moves E self d d'"
  by (rule pool_movesI) (auto simp: out_of_def intro: pool_step.uses)

lemma pool_moves_report:
  assumes "\<And>t c0 st0 c st. f t (c0, st0) = (c, st) \<Longrightarrow> out_of c = out_of c0"
    and "\<And>t c0 st0 c st held i. f t (c0, st0) = (c, st) \<Longrightarrow> i < length held \<Longrightarrow> held ! i = c0 \<Longrightarrow>
      pool_step self (f64 E) (opts E) (st0, held) (st, held[i := c])"
  shows "pool_moves E self d (report E f d)"
proof (cases "link (me d) = None")
  case True
  then show ?thesis by (simp add: report_def pool_moves_uses)
next
  case False
  obtain t w where t: "pool_in E (world (proc d)) = (t, w)" by fastforce
  obtain c st where c: "f t (me d, pool d) = (c, st)" by fastforce
  have r: "pool (report E f d) = st" "me (report E f d) = c" using False t c by (auto simp: report_def)
  show ?thesis
    by (rule pool_movesI) (use r assms(1)[OF c] assms(2)[OF c] in auto)
qed

lemma reattribute_out: "reattribute conn (l, st) = (l', st') \<Longrightarrow> link_out l' = link_out l"
  by (auto simp: reattribute_def Let_def split: if_splits)

lemma round_trip_out: "round_trip F o0 t conn e (l, st) = (l', st') \<Longrightarrow> link_out l' = link_out l"
  by (auto simp: round_trip_def Let_def dest: reattribute_out split: prod.splits option.splits if_splits)

lemma reports_out:
  "observed_ok F o0 t e (c0, st0) = (c, st) \<Longrightarrow> out_of c = out_of c0"
  "transport_failed o0 t (c0, st0) = (c, st) \<Longrightarrow> out_of c = out_of c0"
  "reconnected ordered ep s (c0, st0) = (c, st) \<Longrightarrow> out_of c = out_of c0"
  by (auto simp: observed_ok_def transport_failed_def reconnected_def moved_def out_of_def Let_def
      dest: round_trip_out reattribute_out split: option.splits prod.splits)

interpretation moves: driver_steps E "pool_moves E self" for E self
proof unfold_locales
  show "pool_moves E self a c" if "pool_moves E self a b" "pool_moves E self b c" for a b c
    using that unfolding pool_moves_def by (metis length_list_update list_update_overwrite nth_list_update_eq)
  show "pool_moves E self d (report E (\<lambda>i. observed_ok (f64 E) (opts E) i e) d)" for d e
    by (rule pool_moves_report) (erule reports_out, metis pool_step.answered)
  show "pool_moves E self d (report E (transport_failed (opts E)) d)" for d
    by (rule pool_moves_report) (erule reports_out, metis pool_step.broke)
  show "pool_moves E self d (report E (\<lambda>t (c, st). (c, observe_statement (opts E) t w c st)) d)" for d w
    by (rule pool_moves_report) (auto simp: held_same intro: pool_step.statement)
  show "pool_moves E self d (report E (\<lambda>t (c, st). (c, failed (opts E) t ep st)) d)" for d ep
    by (rule pool_moves_report) (auto simp: held_same intro: pool_step.dial_failed)
  show "pool_moves E self d (take_over ordered ep s d)" for d ordered ep s
  proof -
    obtain c st where c: "reconnected ordered ep s (me d, pool d) = (c, st)" by fastforce
    then have t: "pool (take_over ordered ep s d) = st" "me (take_over ordered ep s d) = c" by (simp_all add: take_over_def)
    show ?thesis by (rule pool_movesI) (use t c reports_out(3)[OF c] pool_step.redialled in fastforce)+
  qed
  show "pool_moves E self d (d\<lparr>pool := st\<rparr>)" if "order None (Some ep) (pool d) = (eps, st)" for d ep eps st
    by (rule pool_movesI) (use pool_step.redial[OF that] in \<open>auto simp: held_same\<close>)
qed (auto intro: pool_moves_uses)

text \<open>A connection that is not tied to the pool never touches it.\<close>

definition leaves_pool :: "('w, 's, 'f) driver \<Rightarrow> ('w, 's, 'f) driver \<Rightarrow> bool" where
  "leaves_pool d d' \<longleftrightarrow> (link (me d) = None \<longrightarrow> link (me d') = None \<and> pool d' = pool d)"

interpretation untied: driver_steps E leaves_pool for E
  by unfold_locales
    (auto simp: leaves_pool_def report_def take_over_def reconnected_def set_stream_def Let_def split: prod.splits)

section \<open>Pool methods\<close>

lemma moves_last:
  assumes "does (pool_moves E self) m" and "m \<lparr>me = c, proc = p, pool = st\<rparr> = (r, d)" and "reachable self (f64 E) (opts E) (st, held @ [c])"
  shows "reachable self (f64 E) (opts E) (pool d, held @ [me d])" and "out_of (me d) = out_of c"
proof -
  from doesD[OF assms(1,2)] have m: "pool_moves E self \<lparr>me = c, proc = p, pool = st\<rparr> d" .
  then show "out_of (me d) = out_of c" by (simp add: pool_moves_def)
  from m[unfolded pool_moves_def, THEN conjunct2, rule_format, of "length held" "held @ [c]"] assms(3)
  show "reachable self (f64 E) (opts E) (pool d, held @ [me d])" by simp
qed

definition sound :: "('w, 't, 's, 'h, 'f) env \<Rightarrow> nat \<Rightarrow> 's client list \<Rightarrow> bool option \<Rightarrow> (driver_error, 's client) res \<Rightarrow> ('w, 's, 'f) pooled \<Rightarrow> bool" where
  "sound E self held out r ps \<longleftrightarrow> (case r of
     Inr c \<Rightarrow> reachable self (f64 E) (opts E) (snd ps, held @ [c]) \<and> out_of c = out
   | Inl (Err _) \<Rightarrow> reachable self (f64 E) (opts E) (snd ps, held)
   | _ \<Rightarrow> True)"

lemma sound_simps [simp]:
  "sound E self held out (Inr c) ps \<longleftrightarrow> reachable self (f64 E) (opts E) (snd ps, held @ [c]) \<and> out_of c = out"
  "sound E self held out (Inl (Err e)) ps \<longleftrightarrow> reachable self (f64 E) (opts E) (snd ps, held)"
  "sound E self held out (Inl (Panic m)) ps" "sound E self held out (Inl OutOfFuel) ps"
  by (simp_all add: sound_def)

lemma open_tied:
  "open_loop E ordered lg (Some (link_new self)) said eps ps = (r, ps') \<Longrightarrow> reachable self (f64 E) (opts E) (snd ps, held)
    \<Longrightarrow> sound E self held (Some False) r ps'"
proof (induction eps arbitrary: said ps)
  case (Cons ep eps)
  obtain p st where ps: "ps = (p, st)" by fastforce
  obtain q p1 where q: "dial (net E) ep lg p = (q, p1)" by fastforce
  show ?case
  proof (cases q)
    case (Inr s)
    let ?c = "new_client ordered lg (Some (link_new self)) ep s"
    obtain x d where d: "send_hello E \<lparr>me = ?c, proc = p1, pool = st\<rparr> = (x, d)" by fastforce
    have "pool_step self (f64 E) (opts E) (st, held) (st, held @ [?c])"
      by (rule pool_step.dialled[where ep = ep]) (simp add: new_client_def)
    then have r: "reachable self (f64 E) (opts E) (st, held @ [?c])" using Cons.prems(2) ps by (auto intro: reachable.stepped)
    have o: "out_of ?c = Some False" by (simp add: out_of_def new_client_def link_new_def)
    from moves_last[OF moves.does_session(3) d r] o Inr q ps d Cons.prems(1) send_hello_no_error[of E] show ?thesis
      by (cases x) (auto simp: sound_def split: fault.splits)
  next
    case (Inl y)
    show ?thesis
    proof (cases y)
      case (Err e)
      have "reachable self (f64 E) (opts E) (snd (dial_failed E (Some (link_new self)) ep e (p1, st)), held)"
        using Cons.prems(2) ps by (auto simp: dial_failed_def Let_def split: prod.splits intro: reachable.stepped pool_step.dial_failed)
      with Cons.IH Cons.prems(1) ps q Inl Err show ?thesis by simp
    qed (use Cons.prems ps q Inl in auto)
  qed
qed auto

lemma open_untied:
  "open_loop E ordered lg None said eps ps = (r, ps') \<Longrightarrow> snd ps' = snd ps \<and> (\<forall>c. r = Inr c \<longrightarrow> link c = None)"
proof (induction eps arbitrary: said ps)
  case (Cons ep eps)
  obtain p st where ps: "ps = (p, st)" by fastforce
  obtain q p1 where q: "dial (net E) ep lg p = (q, p1)" by fastforce
  show ?case
  proof (cases q)
    case (Inr s)
    obtain x d where d: "send_hello E \<lparr>me = new_client ordered lg None ep s, proc = p1, pool = st\<rparr> = (x, d)" by fastforce
    from doesD[OF untied.does_session(3) d] have "link (me d) = None" "pool d = st" by (simp_all add: leaves_pool_def new_client_def)
    with Inr q ps d Cons.prems(1) show ?thesis by (auto simp: rbind_eq_Inr)
  next
    case (Inl y)
    then show ?thesis using Cons ps q by (cases y) (auto simp: dial_failed_def)
  qed
qed auto

lemma uses_last:
  "reachable self F o0 (st, held @ [c]) \<Longrightarrow> link c' = link c \<Longrightarrow> reachable self F o0 (st, held @ [c'])"
  using reachable.stepped[OF _ pool_step.uses[of "length held" "held @ [c]" c']] by simp

lemma drop_last:
  assumes "reachable self F o0 (st, held @ [c])" shows "reachable self F o0 (drop_client c st, held)"
  using reachable.stepped[OF assms pool_step.drop[of "length held"]] by (simp add: remove_at_def)

lemma dial_tied:
  assumes "dial_pool E P eps True ps = (r, ps')" and "reachable (conf_self P) (f64 E) (opts E) (snd ps, held)"
  shows "sound E (conf_self P) held (Some False) r ps'"
proof -
  obtain q ps1 where q: "open_client E eps (conf_login P) (Some (link_new (conf_self P))) ps = (q, ps1)" by (meson surj_pair)
  from open_tied[OF q[unfolded open_client_def] assms(2)] have s: "sound E (conf_self P) held (Some False) q ps1" .
  show ?thesis
  proof (cases q)
    case (Inl e)
    with assms(1) q s show ?thesis by (simp add: dial_pool_def)
  next
    case (Inr c)
    let ?c = "c\<lparr>default_consistency := conf_consistency P\<rparr>"
    obtain p st where ps1: "ps1 = (p, st)" by fastforce
    have c: "reachable (conf_self P) (f64 E) (opts E) (st, held @ [?c])" "out_of ?c = Some False"
      using s Inr ps1 by (auto simp: out_of_def intro: uses_last)
    show ?thesis
    proof (cases "conf_database P")
      case None
      with assms(1) q Inr ps1 c show ?thesis by (auto simp: dial_pool_def)
    next
      case (Some db)
      obtain x d where d: "use_database E db \<lparr>me = ?c, proc = p, pool = st\<rparr> = (x, d)" by fastforce
      note m = moves_last[OF moves.does_settings(1) d c(1)]
      show ?thesis
      proof (cases x)
        case (Inr u)
        with assms(1) q \<open>q = Inr c\<close> ps1 Some d m c(2) show ?thesis by (auto simp: dial_pool_def on_client_def)
      next
        case (Inl e)
        with assms(1) q \<open>q = Inr c\<close> ps1 Some d drop_last[OF m(1)] show ?thesis
          by (auto simp: dial_pool_def on_client_def drop_pooled_def sound_def split: fault.splits)
      qed
    qed
  qed
qed

lemma dial_untied:
  assumes "dial_pool E P eps False ps = (r, ps')"
  shows "snd ps' = snd ps \<and> (\<forall>c. r = Inr c \<longrightarrow> link c = None)"
proof -
  obtain q ps1 where q: "open_client E eps (conf_login P) None ps = (q, ps1)" by (meson surj_pair)
  from open_untied[OF q[unfolded open_client_def]] have s: "snd ps1 = snd ps" "\<And>c. q = Inr c \<Longrightarrow> link c = None" by auto
  show ?thesis
  proof (cases q)
    case (Inl e)
    with assms q s show ?thesis by (simp add: dial_pool_def)
  next
    case (Inr c)
    let ?c = "c\<lparr>default_consistency := conf_consistency P\<rparr>"
    obtain p st where ps1: "ps1 = (p, st)" by fastforce
    show ?thesis
    proof (cases "conf_database P")
      case None
      with assms q Inr s show ?thesis by (auto simp: dial_pool_def)
    next
      case (Some db)
      obtain x d where d: "use_database E db \<lparr>me = ?c, proc = p, pool = st\<rparr> = (x, d)" by fastforce
      from doesD[OF untied.does_settings(1) d] s(2)[OF Inr] have "link (me d) = None" "pool d = st" by (simp_all add: leaves_pool_def)
      with assms q Inr ps1 Some d s show ?thesis
        by (cases x) (auto simp: dial_pool_def on_client_def drop_pooled_def drop_client_def)
    qed
  qed
qed

lemma list_sound:
  assumes "list_client E c ps = (r, ps')" and "reachable self (f64 E) (opts E) (snd ps, held @ [c])" and "discover (opts E)"
  shows "sound E self held (out_of c) r ps'"
proof -
  obtain p st where ps: "ps = (p, st)" by fastforce
  obtain x d where d: "execute E (of_str ''SHOW ENDPOINTS'') \<lparr>me = c, proc = p, pool = st\<rparr> = (x, d)" by fastforce
  note m = moves_last[OF moves.does_execute(3) d assms(2)[unfolded ps snd_conv]]
  obtain t w where t: "pool_in E (world (proc d)) = (t, w)" by fastforce
  have "reachable self (f64 E) (opts E) (list_through (opts E) t ep a (pool d), held @ [me d])" for ep a
    by (rule reachable.stepped[OF m(1) pool_step.list[OF assms(3)]])
  with assms(1) ps d m(2) t show ?thesis
    by (cases x) (auto simp: list_client_def on_client_def pool_clock_def locked_def sound_def split: fault.splits)
qed

lemma discover_sound:
  assumes "discover_client E c ps = (r, ps')" and "reachable self (f64 E) (opts E) (snd ps, held @ [c])"
  shows "sound E self held (out_of c) r ps'"
proof -
  obtain p st where ps: "ps = (p, st)" by fastforce
  obtain t w where t: "pool_in E (world p) = (t, w)" by fastforce
  obtain go st1 where g: "discover_through (opts E) t (connected c) st = (go, st1)" by fastforce
  have "reachable self (f64 E) (opts E) (st1, held @ [c])"
    using reachable.stepped[OF assms(2)[unfolded ps snd_conv] pool_step.discover[of self "f64 E" "opts E" st _ t "connected c"]] g by simp
  moreover have "discover (opts E)" if go using g that by (auto simp: discover_through_def split: if_splits)
  ultimately show ?thesis
    using assms(1) ps t g list_sound[of E c "(p\<lparr>world := w\<rparr>, st1)" r ps' self held]
    by (auto simp: discover_client_def pool_clock_def locked_def split: if_splits)
qed

text \<open>An idle connection counts against no member, so dropping one changes nothing.\<close>

lemma drop_idle: "(\<forall>c \<in> set cs. idle_ok self c) \<Longrightarrow> fold drop_client cs st = st"
  by (induction cs) (auto simp: idle_ok_def drop_client_def split: option.splits)

lemma decide_sound:
  assumes d: "decide E t key st = (x, st')" and r: "reachable self (f64 E) (opts E) (st, held)"
  shows "x = None \<Longrightarrow> st' = st \<and> closed st"
    and "x = Some (found, stale, eps) \<Longrightarrow> fold drop_client stale st' = st'
      \<and> (case found of Some c \<Rightarrow> reachable self (f64 E) (opts E) (st', held @ [c]) \<and> out_of c = Some False
         | None \<Rightarrow> reachable self (f64 E) (opts E) (st', held))"
proof -
  show "st' = st \<and> closed st" if "x = None"
    using d that by (auto simp: decide_def Let_def split: if_splits prod.splits option.splits)
  assume x: "x = Some (found, stale, eps)"
  obtain target st1 where p: "pick (f64 E) (opts E) t key st = (target, st1)" by fastforce
  obtain c dropped st2 where k: "take_idle (opts E) target st1 = (c, dropped, st2)" by (metis prod_cases3)
  have op: "\<not> closed st" using d x by (auto simp: decide_def split: if_splits)
  have "pool_inv self (opts E) (st, held)" by (rule reachable_inv[OF r])
  note s = take_step[OF this p k]
  have "\<forall>c \<in> set dropped. idle_ok self c"
    using arg_cong[OF take_idle_partition[OF k], of set_mset] pick_frame[OF p] reachable_inv[OF r]
    by (auto simp: pool_inv_def idle_inv_def)
  note dr = drop_idle[OF this]
  show "fold drop_client stale st' = st'
      \<and> (case found of Some c \<Rightarrow> reachable self (f64 E) (opts E) (st', held @ [c]) \<and> out_of c = Some False
         | None \<Rightarrow> reachable self (f64 E) (opts E) (st', held))"
  proof (cases c)
    case None
    obtain es st3 where o: "order target None st2 = (es, st3)" by fastforce
    have "reachable self (f64 E) (opts E) (st3, held)"
      by (rule reachable.stepped[OF r pool_step.none_idle[OF op p k[unfolded None] o]])
    with d x None p k o op dr show ?thesis by (auto simp: decide_def)
  next
    case (Some y)
    have "reachable self (f64 E) (opts E) (st2, held @ [y])"
      by (rule reachable.stepped[OF r pool_step.take[OF op p k[unfolded Some]]])
    moreover have "out_of y = Some False" using s(4)[OF Some] by (auto simp: idle_ok_def out_of_def split: option.splits)
    ultimately show ?thesis using d x Some p k op dr by (auto simp: decide_def)
  qed
qed

definition maybe_sound :: "('w, 't, 's, 'h, 'f) env \<Rightarrow> nat \<Rightarrow> 's client list \<Rightarrow> (driver_error, 's client option) res \<Rightarrow> ('w, 's, 'f) pooled \<Rightarrow> bool" where
  "maybe_sound E self held r ps \<longleftrightarrow> (case r of
     Inr (Some c) \<Rightarrow> reachable self (f64 E) (opts E) (snd ps, held @ [c]) \<and> out_of c = Some False
   | Inr None \<Rightarrow> reachable self (f64 E) (opts E) (snd ps, held)
   | Inl (Err _) \<Rightarrow> reachable self (f64 E) (opts E) (snd ps, held)
   | _ \<Rightarrow> True)"

lemma checkout_once_sound:
  assumes "checkout_once E P key ps = (r, ps')" and "reachable (conf_self P) (f64 E) (opts E) (snd ps, held)"
  shows "maybe_sound E (conf_self P) held r ps'"
proof -
  let ?self = "conf_self P"
  obtain p st where ps: "ps = (p, st)" by fastforce
  obtain t w where t: "pool_in E (world p) = (t, w)" by fastforce
  obtain x st1 where x: "decide E t key st = (x, st1)" by fastforce
  note ds = decide_sound[OF x assms(2)[unfolded ps snd_conv]]
  show ?thesis
  proof (cases x)
    case None
    with assms ps t x ds(1) show ?thesis by (auto simp: checkout_once_def pool_clock_def locked_def maybe_sound_def)
  next
    case (Some choice)
    obtain found stale eps where ch: "choice = (found, stale, eps)" by (metis prod_cases3)
    note f = ds(2)[OF Some[unfolded ch]]
    show ?thesis
    proof (cases found)
      case (Some c)
      with assms(1) ps t x \<open>x = Some choice\<close> ch f show ?thesis
        by (auto simp: checkout_once_def pool_clock_def locked_def maybe_sound_def)
    next
      case None
      let ?ps = "(p\<lparr>world := w\<rparr>, st1)"
      obtain q ps1 where q: "dial_pool E P eps True ?ps = (q, ps1)" by (meson surj_pair)
      have q': "sound E ?self held (Some False) q ps1" by (rule dial_tied[OF q]) (use f None in simp)
      have run: "checkout_once E P key ps = sbind (dial_pool E P eps True) (\<lambda>c. sbind (discover_client E c) (\<lambda>c.
            if link_broken c then sbind (drop_pooled c) (\<lambda>_. sret None) else sret (Some c))) ?ps"
        using ps t x \<open>x = Some choice\<close> ch None f by (simp add: checkout_once_def pool_clock_def locked_def)
      show ?thesis
      proof (cases q)
        case (Inl e)
        with assms(1) run q q' show ?thesis by (auto simp: maybe_sound_def sound_def split: fault.splits)
      next
        case (Inr c)
        obtain y ps2 where y: "discover_client E c ps1 = (y, ps2)" by (meson surj_pair)
        from q' Inr have "reachable ?self (f64 E) (opts E) (snd ps1, held @ [c])" "out_of c = Some False" by simp_all
        with discover_sound[OF y] have y': "sound E ?self held (Some False) y ps2" by metis
        show ?thesis
        proof (cases y)
          case (Inl e)
          with assms(1) run q \<open>q = Inr c\<close> y y' show ?thesis by (auto simp: maybe_sound_def sound_def split: fault.splits)
        next
          case (Inr c2)
          with y' have c2: "reachable ?self (f64 E) (opts E) (snd ps2, held @ [c2])" "out_of c2 = Some False" by simp_all
          from assms(1) run q \<open>q = Inr c\<close> y Inr c2 drop_last[OF c2(1)] show ?thesis
            by (cases "link_broken c2"; cases ps2) (auto simp: maybe_sound_def drop_pooled_def)
        qed
      qed
    qed
  qed
qed

lemma check_out_sound:
  assumes "reachable self (f64 E) (opts E) (st, held @ [c])" and "out_of c = Some False" and "check_out key (c, st) = (c', st')"
  shows "reachable self (f64 E) (opts E) (st', held @ [c']) \<and> out_of c' = Some True"
proof -
  from assms(2) obtain l where l: "link c = Some l" "\<not> link_out l" by (auto simp: out_of_def)
  have "pool_step self (f64 E) (opts E) (st, held @ [c]) (st', (held @ [c])[length held := c'])"
    by (rule pool_step.out[where l = l and key = key]) (simp_all add: l assms(3))
  with assms(1) have "reachable self (f64 E) (opts E) (st', held @ [c'])" by (auto intro: reachable.stepped)
  with l assms(3) show ?thesis by (auto simp: check_out_def out_of_def)
qed

text \<open>What the connection counts for once it is checked out: one more at its member, nothing elsewhere.\<close>

definition counted_in :: "('w, 't, 's, 'h, 'f) env \<Rightarrow> nat \<Rightarrow> 's client list \<Rightarrow> 's client \<Rightarrow> ('s, 'f) balancer_state \<Rightarrow> bool" where
  "counted_in E self held c st' \<longleftrightarrow> (\<exists>c0 st l. reachable self (f64 E) (opts E) (st, held @ [c0]) \<and> link c0 = Some l \<and> \<not> link_out l
     \<and> counted (link_member l) c
     \<and> (\<forall>ep. use_at (members st') ep = map_option (\<lambda>n. if ep = link_member l then n + 1 else n) (use_at (members st) ep)))"

lemma check_out_counts:
  assumes "reachable self (f64 E) (opts E) (st, held @ [c])" and "out_of c = Some False" and "check_out key (c, st) = (c', st')"
  shows "counted_in E self held c' st'"
proof -
  from assms(2) obtain l where l: "link c = Some l" "\<not> link_out l" by (auto simp: out_of_def)
  with assms(3) have "counted (link_member l) c'"
    "use_at (members st') ep = map_option (\<lambda>n. if ep = link_member l then n + 1 else n) (use_at (members st) ep)" for ep
    by (auto simp: check_out_def counted_def use_at_def option.map_comp comp_def)
  with assms(1) l show ?thesis unfolding counted_in_def by blast
qed

lemma counted_inD:
  assumes "counted_in E self held c st'"
  shows "\<exists>c0 st0 l. reachable self (f64 E) (opts E) (st0, held @ [c0]) \<and> link c0 = Some l \<and> \<not> link_out l
    \<and> map_option link_member (link c) = Some (link_member l)
    \<and> (\<forall>ep. map_option in_use (bt_get (members st') ep)
          = map_option (\<lambda>m. if ep = link_member l then in_use m + 1 else in_use m) (bt_get (members st0) ep))"
proof -
  obtain c0 st0 l where w: "reachable self (f64 E) (opts E) (st0, held @ [c0])" "link c0 = Some l" "\<not> link_out l" "counted (link_member l) c"
    "\<And>ep. use_at (members st') ep = map_option (\<lambda>n. if ep = link_member l then n + 1 else n) (use_at (members st0) ep)"
    using assms unfolding counted_in_def by blast
  moreover have "map_option link_member (link c) = Some (link_member l)" using w(4) by (auto simp: counted_def split: option.splits)
  ultimately show ?thesis
    by (intro exI[of _ c0] exI[of _ st0] exI[of _ l]) (simp add: use_at_def option.map_comp comp_def)
qed

lemma checkout_sound:
  "checkout_loop n E P key ps = (r, ps') \<Longrightarrow> reachable (conf_self P) (f64 E) (opts E) (snd ps, held)
    \<Longrightarrow> sound E (conf_self P) held (Some True) r ps' \<and> (\<forall>c. r = Inr c \<longrightarrow> counted_in E (conf_self P) held c (snd ps'))"
proof (induction n arbitrary: ps)
  case (Suc n)
  obtain x ps1 where x: "checkout_once E P key ps = (x, ps1)" by (meson surj_pair)
  note m = checkout_once_sound[OF x Suc.prems(2)]
  show ?case
  proof (cases x)
    case (Inl e)
    with Suc.prems(1) x m show ?thesis by (auto simp: maybe_sound_def sound_def split: fault.splits)
  next
    case (Inr got)
    show ?thesis
    proof (cases got)
      case None
      with Inr Suc.IH[of ps1] Suc.prems(1) x m show ?thesis by (auto simp: maybe_sound_def)
    next
      case (Some c)
      obtain p st where ps1: "ps1 = (p, st)" by fastforce
      obtain c' st' where c': "check_out key (c, st) = (c', st')" by fastforce
      have "reachable (conf_self P) (f64 E) (opts E) (st, held @ [c])" "out_of c = Some False"
        using m Inr Some ps1 by (simp_all add: maybe_sound_def)
      from check_out_sound[OF this c'] check_out_counts[OF this c'] Inr Some ps1 c' Suc.prems(1) x show ?thesis
        by (auto simp: locked_def)
    qed
  qed
qed auto

lemma checkin_last:
  assumes "reachable self F o0 (st, held @ [c])" shows "reachable self F o0 (checkin self o0 c st, held)"
  using reachable.stepped[OF assms pool_step.checkin[of "length held"]] by (simp add: remove_at_def)

lemma with_conn_sound:
  assumes "with_conn E P key work ps = (r, ps')" and "does (pool_moves E (conf_self P)) work" and "clean r"
    and "reachable (conf_self P) (f64 E) (opts E) (snd ps, held)"
  shows "reachable (conf_self P) (f64 E) (opts E) (snd ps', held)"
proof -
  obtain x ps1 where x: "checkout E P key ps = (x, ps1)" by (meson surj_pair)
  have s: "sound E (conf_self P) held (Some True) x ps1" by (rule checkout_sound[OF x[unfolded checkout_def] assms(4), THEN conjunct1])
  show ?thesis
  proof (cases x)
    case (Inl e)
    with assms(1,3) x s show ?thesis by (auto simp: with_conn_def sound_def split: fault.splits)
  next
    case (Inr c)
    obtain p st where ps1: "ps1 = (p, st)" by fastforce
    obtain y d where d: "work \<lparr>me = c, proc = p, pool = st\<rparr> = (y, d)" by fastforce
    from s Inr ps1 have "reachable (conf_self P) (f64 E) (opts E) (st, held @ [c])" by simp
    note m = moves_last(1)[OF assms(2) d this]
    show ?thesis
      using assms(1) x Inr ps1 d checkin_last[OF m] drop_last[OF m]
      by (auto simp: with_conn_def on_client_def checkin_pool_def drop_pooled_def locked_def sbind_def split: sum.splits fault.splits)
  qed
qed

lemma refresh_sound:
  assumes "refresh E P ps = (r, ps')" and "clean r" and "reachable (conf_self P) (f64 E) (opts E) (snd ps, held)"
    and "discover (opts E)"
  shows "reachable (conf_self P) (f64 E) (opts E) (snd ps', held)"
proof -
  obtain x ps1 where x: "checkout E P None ps = (x, ps1)" by (meson surj_pair)
  have s: "sound E (conf_self P) held (Some True) x ps1" by (rule checkout_sound[OF x[unfolded checkout_def] assms(3), THEN conjunct1])
  show ?thesis
  proof (cases x)
    case (Inl e)
    show ?thesis
    proof (cases e)
      case (Err y)
      obtain p st where ps1: "ps1 = (p, st)" by fastforce
      obtain t w where t: "pool_in E (world p) = (t, w)" by fastforce
      have "reachable (conf_self P) (f64 E) (opts E) (st\<lparr>next_refresh := now t + refresh_interval (opts E)\<rparr>, held)"
        using s Inl Err ps1 by (auto intro: reachable.stepped pool_step.refresh_failed)
      with assms(1) x Inl Err ps1 t show ?thesis by (auto simp: refresh_def pool_clock_def locked_def)
    qed (use assms(1,2) x Inl in \<open>auto simp: refresh_def\<close>)
  next
    case (Inr c)
    obtain y ps2 where y: "list_client E c ps1 = (y, ps2)" by (meson surj_pair)
    have "reachable (conf_self P) (f64 E) (opts E) (snd ps1, held @ [c])" using s Inr by simp
    from list_sound[OF y this assms(4)] have l: "sound E (conf_self P) held (out_of c) y ps2" .
    have ne: "y \<noteq> Inl (Err e)" for e
      using y by (auto simp: list_client_def on_client_def pool_clock_def locked_def sbind_def Let_def split: prod.splits sum.splits fault.splits)
    show ?thesis
      using assms(1,2) x Inr y l ne checkin_last[of "conf_self P" "f64 E" "opts E" "snd ps2" held]
      by (cases y; cases ps2) (auto simp: refresh_def checkin_pool_def locked_def sound_def split: fault.splits)
  qed
qed

lemma ask_untied:
  assumes "dial_and_ask E P ep ps = (r, ps')"
  shows "snd ps' = snd ps"
proof -
  obtain q ps1 where q: "dial_pool E P [ep] False ps = (q, ps1)" by (meson surj_pair)
  note u = dial_untied[OF q]
  show ?thesis
  proof (cases q)
    case (Inl e)
    with assms q u show ?thesis by (simp add: dial_and_ask_def)
  next
    case (Inr c)
    obtain p st where ps1: "ps1 = (p, st)" by fastforce
    obtain y d where d: "try_execute E (of_str ''SHOW DATABASES'') (conf_consistency P) \<lparr>me = c, proc = p, pool = st\<rparr> = (y, d)" by fastforce
    from doesD[OF untied.does_execute(1) d] u Inr have "pool d = st" by (simp add: leaves_pool_def)
    with assms q Inr ps1 d u show ?thesis by (auto simp: dial_and_ask_def on_client_def)
  qed
qed

lemma probe_sound:
  assumes "probe_member E P ep ps = (r, ps')" and "reachable (conf_self P) (f64 E) (opts E) (snd ps, held)"
  shows "reachable (conf_self P) (f64 E) (opts E) (snd ps', held)"
proof -
  obtain x p st where x: "dial_and_ask E P ep ps = (x, (p, st))" by (metis surj_pair)
  from ask_untied[OF x] assms(2) have r: "reachable (conf_self P) (f64 E) (opts E) (st, held)" by simp
  obtain t w where t: "pool_in E (world p) = (t, w)" by fastforce
  have "reachable (conf_self P) (f64 E) (opts E) (probe_done (conf_self P) (opts E) t ep c st, held)" for c
    by (rule reachable.stepped[OF r pool_step.probed])
  with assms(1) x t r show ?thesis
    by (cases x) (auto simp: probe_member_def pool_clock_def locked_def split: fault.splits)
qed

lemma probes_sound:
  "probe_members E P eps ps = (r, ps') \<Longrightarrow> reachable (conf_self P) (f64 E) (opts E) (snd ps, held)
    \<Longrightarrow> reachable (conf_self P) (f64 E) (opts E) (snd ps', held)"
proof (induction eps arbitrary: ps)
  case (Cons ep eps)
  obtain x ps1 where x: "probe_member E P ep ps = (x, ps1)" by (meson surj_pair)
  note p = probe_sound[OF x Cons.prems(2)]
  show ?case using Cons.IH[of ps1] Cons.prems(1) x p by (cases x) auto
qed simp

lemma tick_sound:
  assumes "reachable (conf_self P) (f64 E) (opts E) (st, held)" and "tick_pool E P (p, st) = (r, (p', st'))" and "clean r"
  shows "reachable (conf_self P) (f64 E) (opts E) (st', held)"
proof -
  obtain t w where t: "pool_in E (world p) = (t, w)" by fastforce
  show ?thesis
  proof (cases "tick (opts E) t st")
    case None
    with assms t show ?thesis by (auto simp: tick_pool_def pool_clock_def locked_def)
  next
    case (Some x)
    obtain eps again st1 where x: "x = (eps, again, st1)" by (metis prod_cases3)
    have r1: "reachable (conf_self P) (f64 E) (opts E) (st1, held)"
      by (rule reachable.stepped[OF assms(1) pool_step.tick[OF Some[unfolded x]]])
    obtain q ps2 where q: "probe_members E P eps (p\<lparr>world := w\<rparr>, st1) = (q, ps2)" by (meson surj_pair)
    have r2: "reachable (conf_self P) (f64 E) (opts E) (snd ps2, held)" using probes_sound[OF q] r1 by simp
    obtain y ps3 where y: "refresh E P ps2 = (y, ps3)" by (meson surj_pair)
    have r3: "reachable (conf_self P) (f64 E) (opts E) (snd ps3, held)" if "clean y" again
    proof (rule refresh_sound[OF y that(1) r2])
      show "discover (opts E)" using Some that(2) by (auto simp: x tick_def split: if_splits)
    qed
    have run: "tick_pool E P (p, st) = sbind (probe_members E P eps) (\<lambda>_. sbind (if again then refresh E P else sret ()) (\<lambda>_. sret True)) (p\<lparr>world := w\<rparr>, st1)"
      using Some x t by (simp add: tick_pool_def pool_clock_def locked_def)
    show ?thesis
      using assms(2,3) run q r2 y r3 by (cases q; cases y; cases again) (auto simp: clean_def split: if_splits)
  qed
qed

section \<open>Properties\<close>

text \<open>C31: Everything a balanced pool does between its locks keeps to the pool's steps. Checking out a
  connection, whichever way it goes, leaves a state the pool can reach; a connection it returns is counted
  once: the last thing done to the pool adds one to the counter of the connection's member and changes no
  other counter, and where the members are fixed every counter is again the number of connections that are
  out. Where it fails nothing is counted. Running a statement on a pooled connection and giving it back
  leaves the counters at the connections that were out before, retries and failovers included.\<close>

theorem pool_methods_reachable:
  assumes "reachable (conf_self P) (f64 E) (opts E) (st, held)"
  shows "(case checkout E P key (p, st) of
       (Inr c, (_, st')) \<Rightarrow> reachable (conf_self P) (f64 E) (opts E) (st', held @ [c]) \<and> map_option link_out (link c) = Some True
         \<and> (\<exists>c0 st0 l. reachable (conf_self P) (f64 E) (opts E) (st0, held @ [c0]) \<and> link c0 = Some l \<and> \<not> link_out l
             \<and> map_option link_member (link c) = Some (link_member l)
             \<and> (\<forall>ep. map_option in_use (bt_get (members st') ep)
                   = map_option (\<lambda>m. if ep = link_member l then in_use m + 1 else in_use m) (bt_get (members st0) ep)))
         \<and> (\<not> discover (opts E) \<longrightarrow> (\<forall>ep. counts_exactly ep (st', held @ [c])))
     | (Inl (Err _), (_, st')) \<Rightarrow> reachable (conf_self P) (f64 E) (opts E) (st', held)
         \<and> (\<not> discover (opts E) \<longrightarrow> (\<forall>ep. counts_exactly ep (st', held)))
     | _ \<Rightarrow> True)
   \<and> (case with_conn E P key (execute_with E sql c) (p, st) of
       (r, (_, st')) \<Rightarrow> clean r \<longrightarrow> reachable (conf_self P) (f64 E) (opts E) (st', held)
         \<and> (\<not> discover (opts E) \<longrightarrow> (\<forall>ep. counts_exactly ep (st', held))))"
proof
  note exact = fixed_members_exact[of "conf_self P" "f64 E" "opts E"]
  obtain r p' st' where r: "checkout E P key (p, st) = (r, (p', st'))" by (metis surj_pair)
  from checkout_sound[OF r[unfolded checkout_def]] assms
  have s: "sound E (conf_self P) held (Some True) r (p', st')" "\<And>c. r = Inr c \<Longrightarrow> counted_in E (conf_self P) held c st'" by simp_all
  show "case checkout E P key (p, st) of
       (Inr c, (_, st')) \<Rightarrow> reachable (conf_self P) (f64 E) (opts E) (st', held @ [c]) \<and> map_option link_out (link c) = Some True
         \<and> (\<exists>c0 st0 l. reachable (conf_self P) (f64 E) (opts E) (st0, held @ [c0]) \<and> link c0 = Some l \<and> \<not> link_out l
             \<and> map_option link_member (link c) = Some (link_member l)
             \<and> (\<forall>ep. map_option in_use (bt_get (members st') ep)
                   = map_option (\<lambda>m. if ep = link_member l then in_use m + 1 else in_use m) (bt_get (members st0) ep)))
         \<and> (\<not> discover (opts E) \<longrightarrow> (\<forall>ep. counts_exactly ep (st', held @ [c])))
     | (Inl (Err _), (_, st')) \<Rightarrow> reachable (conf_self P) (f64 E) (opts E) (st', held)
         \<and> (\<not> discover (opts E) \<longrightarrow> (\<forall>ep. counts_exactly ep (st', held)))
     | _ \<Rightarrow> True"
  proof (cases r)
    case (Inr c)
    have "reachable (conf_self P) (f64 E) (opts E) (st', held @ [c])" "map_option link_out (link c) = Some True"
      using s(1) Inr by (simp_all add: out_of_def)
    with exact counted_inD[OF s(2)[OF Inr]] show ?thesis unfolding r Inr by simp blast
  next
    case (Inl e)
    with s(1) exact show ?thesis unfolding r by (auto simp: sound_def split: fault.splits)
  qed
  obtain r p' st' where w: "with_conn E P key (execute_with E sql c) (p, st) = (r, (p', st'))" by (metis surj_pair)
  have "reachable (conf_self P) (f64 E) (opts E) (st', held)" if "clean r"
    using with_conn_sound[OF w moves.does_execute(2) that] assms by simp
  then show "case with_conn E P key (execute_with E sql c) (p, st) of
       (r, (_, st')) \<Rightarrow> clean r \<longrightarrow> reachable (conf_self P) (f64 E) (opts E) (st', held)
         \<and> (\<not> discover (opts E) \<longrightarrow> (\<forall>ep. counts_exactly ep (st', held)))"
    using exact[of "(st', held)"] w by simp
qed

text \<open>A pool of one member with one idle connection: checking out takes it.\<close>

abbreviation sample_conf :: pool_conf where
  "sample_conf \<equiv> \<lparr>conf_self = 0, conf_login = cert_login, conf_database = None, conf_consistency = One\<rparr>"

lemma sample_pool_state:
  "\<exists>st :: (bytes \<times> bytes, nat) balancer_state. reachable 0 (f64 (sample_env inbox)) (opts (sample_env inbox)) (st, [])
     \<and> members st = seed_members [[1]] \<and> idle st = [] \<and> affinity st = [] \<and> \<not> closed st"
proof -
  have "build sample_f64 sample_sys 4 (builder 3 [[1]]) =
    Inr \<lparr>members = seed_members (dedup [[1]]), idle = [], rr = 2 ^ 64 - 1, affinity = [], discovery_off = False,
       next_refresh = now sample_sys, closed = False, maintainer = False, rng = 4 OR 1\<rparr>"
    by (simp add: build_def builder_def options_default_def sample_f64_def Let_def dedup_def dedup_step_def)
  moreover have "dedup [[1]] = [[1 :: 8 word]]" by (simp add: dedup_def dedup_step_def)
  ultimately obtain st where b: "build sample_f64 sample_sys 4 (builder 3 [[1]]) = Inr (st :: (bytes \<times> bytes, nat) balancer_state)"
    and st: "members st = seed_members [[1]]" "idle st = []" "affinity st = []" "\<not> closed st" by force
  have "reachable 0 sample_f64 (options_default 3) (st, [])" by (rule reachable.built[OF _ b]) (simp add: builder_def)
  with st show ?thesis by (auto simp: sample_env_def)
qed

lemma sample_pool:
  "\<exists>st. reachable 0 (f64 (sample_env inbox)) (opts (sample_env inbox)) (st :: (bytes \<times> bytes, nat) balancer_state, []) \<and> \<not> closed st"
  using sample_pool_state by blast

lemma sample_idle_reachable:
  assumes "link c = Some ((link_new 0)\<lparr>link_member := [1]\<rparr>)"
  shows "\<exists>st :: (bytes \<times> bytes, nat) balancer_state. reachable 0 (f64 (sample_env inbox)) (opts (sample_env inbox)) (st, [])
     \<and> members st = seed_members [[1]] \<and> idle st = [c] \<and> affinity st = [] \<and> \<not> closed st"
proof -
  obtain st :: "(bytes \<times> bytes, nat) balancer_state" where
    st: "reachable 0 (f64 (sample_env inbox)) (opts (sample_env inbox)) (st, [])" "members st = seed_members [[1]]" "idle st = []"
      "affinity st = []" "\<not> closed st"
    using sample_pool_state by blast
  have "reachable 0 (f64 (sample_env inbox)) (opts (sample_env inbox)) (st, [] @ [c])"
    by (rule reachable.stepped[OF st(1) pool_step.dialled]) (rule assms)
  from checkin_last[OF this]
  have "reachable 0 (f64 (sample_env inbox)) (opts (sample_env inbox)) (checkin 0 (opts (sample_env inbox)) c st, [])" .
  moreover have "checkin 0 (opts (sample_env inbox)) c st = st\<lparr>idle := [c\<lparr>link := Some ((link_new 0)\<lparr>link_member := [1]\<rparr>)\<rparr>]\<rparr>"
    using st assms by (simp add: checkin_def link_new_def usable_at_def seed_members_def member_new_def usable_def sample_env_def options_default_def)
  moreover have "c\<lparr>link := Some ((link_new 0)\<lparr>link_member := [1]\<rparr>)\<rparr> = c" using assms by (cases c) simp
  ultimately show ?thesis using st by (intro exI[of _ "st\<lparr>idle := [c]\<rparr>"]) simp
qed

lemma sample_checkout:
  assumes "members st = seed_members [[1]]" and "idle st = [c]" and "affinity st = []" and "\<not> closed st"
    and "link c = Some ((link_new 0)\<lparr>link_member := [1]\<rparr>)"
  shows "\<exists>c' p' st'. checkout (sample_env []) sample_conf None (sample_process, st) = (Inr c', (p', st')) \<and> counted [1] c'
    \<and> map_option in_use (bt_get (members st') [1]) = Some 1"
proof -
  let ?E = "sample_env []" and ?st = "st\<lparr>idle := []\<rparr>" and ?l = "(link_new 0)\<lparr>link_member := [1]\<rparr>"
  have use: "usable_at st [1]" "client_member c = [1]"
    using assms(1,5) by (simp_all add: usable_at_def seed_members_def member_new_def usable_def client_member_def)
  have "decide ?E sample_sys None st = (Some (Some c, [], []), ?st)"
    using assms(2,4) use
    by (simp add: decide_def pick_def pick_affinity_def take_idle_def scan_idle_eq eligible_def remove_at_def sample_env_def options_default_def)
  then have "checkout_once ?E sample_conf None (sample_process, st) = (Inr (Some c), (sample_process, ?st))"
    by (simp add: checkout_once_def pool_clock_def locked_def sample_env_def sample_process_def)
  moreover obtain c' st' where out: "check_out None (c, ?st) = (c', st')" by fastforce
  ultimately have "checkout ?E sample_conf None (sample_process, st) = (Inr c', (sample_process, st'))"
    by (simp add: checkout_def CHECKOUT_ATTEMPTS_def numeral_3_eq_3 locked_def)
  moreover have "counted [1] c'" "map_option in_use (bt_get (members st') [1]) = Some 1"
    using out assms(1,5) by (auto simp: check_out_def counted_def seed_members_def member_new_def)
  ultimately show ?thesis by blast
qed

theorem pool_methods_reachable_witness:
  "\<exists>st c' p' st'. checkout (sample_env []) sample_conf None (sample_process, st) = (Inr c', (p', st'))
    \<and> reachable 0 (f64 (sample_env [])) (opts (sample_env [])) (st', [c']) \<and> counts_exactly [1] (st', [c'])
    \<and> map_option in_use (bt_get (members st') [1]) = Some 1"
proof -
  obtain c :: "(bytes \<times> bytes) client" where c: "link c = Some ((link_new 0)\<lparr>link_member := [1]\<rparr>)" by (metis client.select_convs(8))
  obtain st :: "(bytes \<times> bytes, nat) balancer_state" where
    st: "reachable (conf_self sample_conf) (f64 (sample_env [])) (opts (sample_env [])) (st, [])" and
    i: "members st = seed_members [[1]]" "idle st = [c]" "affinity st = []" "\<not> closed st"
    using sample_idle_reachable[OF c, of "[]"] by auto
  obtain c' p' st' where out: "checkout (sample_env []) sample_conf None (sample_process, st) = (Inr c', (p', st'))"
    and use: "map_option in_use (bt_get (members st') [1]) = Some 1" using sample_checkout[OF i c] by blast
  have "\<not> discover (opts (sample_env []))" by (simp add: sample_env_def options_default_def)
  then have "reachable 0 (f64 (sample_env [])) (opts (sample_env [])) (st', [c'])" "counts_exactly [1] (st', [c'])"
    using pool_methods_reachable[OF st, where key = None and p = sample_process, THEN conjunct1] out by simp_all
  with out use show ?thesis by blast
qed

text \<open>A pass of the background thread, with its probes and its refresh, keeps to the pool's steps as well,
  and a connection that is not tied to the pool, as a probe's is until it is adopted, never touches it.\<close>

theorem tick_pool_reachable:
  assumes "reachable (conf_self P) (f64 E) (opts E) (st, held)" and "tick_pool E P (p, st) = (r, (p', st'))" and "clean r"
  shows "reachable (conf_self P) (f64 E) (opts E) (st', held)"
  by (rule tick_sound[OF assms])

theorem tick_pool_reachable_witness:
  "\<exists>st st' p. tick_pool (sample_env []) \<lparr>conf_self = 0, conf_login = cert_login, conf_database = None, conf_consistency = One\<rparr>
       (sample_process, st) = (Inr False, (p, st')) \<and> reachable 0 (f64 (sample_env [])) (opts (sample_env [])) (st', [])"
proof -
  let ?P = "\<lparr>conf_self = 0, conf_login = cert_login, conf_database = None, conf_consistency = One\<rparr>"
  obtain st0 :: "(bytes \<times> bytes, nat) balancer_state" where
    "reachable (conf_self ?P) (f64 (sample_env [])) (opts (sample_env [])) (st0, [])"
    using sample_pool[of "[]"] by auto
  then have r: "reachable (conf_self ?P) (f64 (sample_env [])) (opts (sample_env [])) (close st0, [])"
    by (auto intro: reachable.stepped pool_step.close)
  have t: "tick_pool (sample_env []) ?P (sample_process, close st0) = (Inr False, (sample_process, close st0))"
    by (simp add: tick_pool_def pool_clock_def locked_def tick_def close_def sample_env_def sample_process_def)
  from tick_pool_reachable[OF r t] t show ?thesis by (auto simp: clean_def)
qed

end
