(* ===== verification/Closure_Pool.thy ===== *)
theory Closure_Pool
  imports Client
begin

text \<open>
  The pool built from a closure (\<^verbatim>\<open>src/lib.rs\<close>, the \<^verbatim>\<open>Factory\<close> side of \<^verbatim>\<open>Pool\<close>). Its idle list and its closed
  flag have a lock each, so every method is a sequence of short lock sections; \<open>fstep\<close> interleaves those
  of any number of threads. The theorems give what holds under every interleaving and what does not.
\<close>

section \<open>Lock sections and methods\<close>

record 'c factory =
  fac_maxsize :: nat
  fac_idle :: "'c list"
  fac_closed :: bool

definition factory_new :: "nat \<Rightarrow> (driver_error, 'c factory) res" where
  "factory_new n = (if n < 1 then Inl (Panic ''maxsize must be >= 1'') else Inr \<lparr>fac_maxsize = n, fac_idle = [], fac_closed = False\<rparr>)"

definition pop_idle :: "'c factory \<Rightarrow> 'c option \<times> 'c factory" where
  "pop_idle f = (if fac_idle f = [] then (None, f) else (Some (last (fac_idle f)), f\<lparr>fac_idle := butlast (fac_idle f)\<rparr>))"

definition push_idle :: "'c \<Rightarrow> 'c factory \<Rightarrow> 'c factory" where
  "push_idle c f = (if length (fac_idle f) < fac_maxsize f then f\<lparr>fac_idle := fac_idle f @ [c]\<rparr> else f)"

definition mark_closed :: "'c factory \<Rightarrow> 'c factory" where
  "mark_closed f = f\<lparr>fac_closed := True\<rparr>"

definition clear_idle :: "'c factory \<Rightarrow> 'c factory" where
  "clear_idle f = f\<lparr>fac_idle := []\<rparr>"

text \<open>The methods, run without interference; \<open>made\<close> is what the caller's closure returns.\<close>

definition factory_acquire :: "(driver_error, 'c) res \<Rightarrow> ('c factory, driver_error, 'c) op" where
  "factory_acquire made f =
    (if fac_closed f then (Inl (Err (NoEndpoint (of_str ''pool is closed''))), f)
     else let (reused, f) = pop_idle f in case reused of Some c \<Rightarrow> (Inr c, f) | None \<Rightarrow> (made, f))"

definition factory_release :: "'c \<Rightarrow> 'c factory \<Rightarrow> 'c factory" where
  "factory_release c f = (if fac_closed f then f else push_idle c f)"

definition factory_with :: "(driver_error, 'c) res \<Rightarrow> ('c \<Rightarrow> (driver_error, 'a) res \<times> 'c) \<Rightarrow> ('c factory, driver_error, 'a) op" where
  "factory_with made work f = (case factory_acquire made f of
     (Inl e, f) \<Rightarrow> (Inl e, f)
   | (Inr c, f) \<Rightarrow> (case work c of
       (Inl (Panic m), _) \<Rightarrow> (Inl (Panic m), f)
     | (out, c) \<Rightarrow> (out, factory_release c f)))"

definition factory_idle_len :: "'c factory \<Rightarrow> nat" where
  "factory_idle_len f = length (fac_idle f)"

definition factory_close :: "'c factory \<Rightarrow> 'c factory" where
  "factory_close f = clear_idle (mark_closed f)"

lemmas factory_defs = pop_idle_def push_idle_def mark_closed_def clear_idle_def factory_acquire_def factory_release_def factory_close_def

section \<open>Threads\<close>

text \<open>The pool with its threads: how many are past the flag test of an acquire or a release or between
  the two sections of a close, and the connections in the hands of callers.\<close>

record 'c threads =
  fac :: "'c factory"
  acquiring :: nat
  releasing :: "'c list"
  closing :: nat
  handed :: "'c list"

definition live :: "'c threads \<Rightarrow> 'c list" where
  "live w = fac_idle (fac w) @ releasing w @ handed w"

definition start_threads :: "'c factory \<Rightarrow> 'c threads" where
  "start_threads f = \<lparr>fac = f, acquiring = 0, releasing = [], closing = 0, handed = []\<rparr>"

inductive fstep :: "'c threads \<Rightarrow> 'c threads \<Rightarrow> bool" where
  acquire_open: "\<not> fac_closed (fac w) \<Longrightarrow> fstep w (w\<lparr>acquiring := Suc (acquiring w)\<rparr>)"
| acquire_reuse: "acquiring w = Suc n \<Longrightarrow> pop_idle (fac w) = (Some c, f) \<Longrightarrow>
    fstep w (w\<lparr>fac := f, acquiring := n, handed := c # handed w\<rparr>)"
| acquire_make: "acquiring w = Suc n \<Longrightarrow> pop_idle (fac w) = (None, f) \<Longrightarrow> c \<notin> set (live w) \<Longrightarrow>
    fstep w (w\<lparr>fac := f, acquiring := n, handed := c # handed w\<rparr>)"
| acquire_make_failed: "acquiring w = Suc n \<Longrightarrow> pop_idle (fac w) = (None, f) \<Longrightarrow> fstep w (w\<lparr>fac := f, acquiring := n\<rparr>)"
| release_open: "c \<in> set (handed w) \<Longrightarrow> \<not> fac_closed (fac w) \<Longrightarrow>
    fstep w (w\<lparr>handed := remove1 c (handed w), releasing := c # releasing w\<rparr>)"
| release_closed: "c \<in> set (handed w) \<Longrightarrow> fac_closed (fac w) \<Longrightarrow> fstep w (w\<lparr>handed := remove1 c (handed w)\<rparr>)"
| release_pushed: "c \<in> set (releasing w) \<Longrightarrow> fstep w (w\<lparr>fac := push_idle c (fac w), releasing := remove1 c (releasing w)\<rparr>)"
| dropped: "c \<in> set (handed w) \<Longrightarrow> fstep w (w\<lparr>handed := remove1 c (handed w)\<rparr>)"
| close_marked: "fstep w (w\<lparr>fac := mark_closed (fac w), closing := Suc (closing w)\<rparr>)"
| close_cleared: "closing w = Suc n \<Longrightarrow> fstep w (w\<lparr>fac := clear_idle (fac w), closing := n\<rparr>)"

inductive freachable :: "nat \<Rightarrow> 'c threads \<Rightarrow> bool" for n where
  started: "factory_new n = Inr f \<Longrightarrow> freachable n (start_threads f)"
| stepped: "freachable n w \<Longrightarrow> fstep w w' \<Longrightarrow> freachable n w'"

section \<open>Invariant\<close>

definition finv :: "nat \<Rightarrow> 'c threads \<Rightarrow> bool" where
  "finv n w \<longleftrightarrow> fac_maxsize (fac w) = n \<and> length (fac_idle (fac w)) \<le> n \<and> distinct (live w)"

lemma butlast_facts: "xs \<noteq> [] \<Longrightarrow> distinct xs \<Longrightarrow> last xs \<notin> set (butlast xs)"
  by (metis append_butlast_last_id distinct_append disjoint_iff list.set_intros(1))

lemma pop_idle_live:
  assumes "pop_idle f = (r, f')"
  shows "fac_idle f = fac_idle f' @ (case r of Some c \<Rightarrow> [c] | None \<Rightarrow> [])" and "fac_maxsize f' = fac_maxsize f"
  using assms by (auto simp: pop_idle_def split: if_splits)

lemma fstep_inv: "fstep w w' \<Longrightarrow> finv n w \<Longrightarrow> finv n w'"
proof (induction rule: fstep.induct)
  case (acquire_reuse w k c f)
  with pop_idle_live[OF acquire_reuse.hyps(2)] show ?case by (auto simp: finv_def live_def)
next
  case (acquire_make w k f c)
  with pop_idle_live[OF acquire_make.hyps(2)] show ?case by (auto simp: finv_def live_def)
next
  case (acquire_make_failed w k f)
  with pop_idle_live[OF acquire_make_failed.hyps(2)] show ?case by (auto simp: finv_def live_def)
qed (auto simp: finv_def live_def push_idle_def mark_closed_def clear_idle_def dest: notin_set_remove1)

lemma freachable_inv: "freachable n w \<Longrightarrow> finv n w"
proof (induction rule: freachable.induct)
  case (started f)
  then show ?case by (auto simp: finv_def live_def start_threads_def factory_new_def split: if_splits)
next
  case (stepped w w')
  from fstep_inv[OF stepped.hyps(2) stepped.IH] show ?case .
qed

section \<open>Properties\<close>

text \<open>However the threads of a closure pool interleave, it keeps at most \<^verbatim>\<open>maxsize\<close> idle connections and
  never hands one connection to two callers: no connection is at once idle, being returned or in a
  caller's hands.\<close>

theorem closure_pool_invariant:
  assumes "freachable n w"
  shows "factory_idle_len (fac w) \<le> n \<and> distinct (fac_idle (fac w) @ releasing w @ handed w)"
  using freachable_inv[OF assms] by (simp add: finv_def live_def factory_idle_len_def)

theorem closure_pool_invariant_witness:
  "\<exists>w. freachable 1 (w :: nat threads) \<and> acquiring w = 1 \<and> factory_idle_len (fac w) \<le> 1"
proof -
  let ?f = "\<lparr>fac_maxsize = 1, fac_idle = [], fac_closed = False\<rparr> :: nat factory"
  have "freachable 1 (start_threads ?f)" by (rule freachable.started) (simp add: factory_new_def)
  then have r: "freachable 1 ((start_threads ?f)\<lparr>acquiring := Suc (acquiring (start_threads ?f))\<rparr>)"
    by (rule freachable.stepped) (rule fstep.acquire_open, simp add: start_threads_def)
  show ?thesis
    by (rule exI, intro conjI, rule r, simp add: start_threads_def) (use closure_pool_invariant[OF r] in simp)
qed

text \<open>Run without interference, a closure pool hands out the connection returned last, works on it and
  takes it back whatever the work returned, and once closed it holds nothing, drops what is returned and
  refuses every checkout.\<close>

theorem closure_pool_sequential:
  assumes "\<not> fac_closed f" and "length (fac_idle f) < fac_maxsize f"
  shows "factory_acquire made (factory_release c f) = (Inr c, f)
    \<and> (\<forall>work. (\<forall>m. fst (work c) \<noteq> Inl (Panic m)) \<longrightarrow>
        factory_with made work (factory_release c f) = (fst (work c), factory_release (snd (work c)) f))
    \<and> factory_release c (factory_close f) = factory_close f
    \<and> factory_acquire made (factory_close f) = (Inl (Err (NoEndpoint (of_str ''pool is closed''))), factory_close f)
    \<and> factory_idle_len (factory_close f) = 0"
proof -
  have a: "factory_acquire made (factory_release c f) = (Inr c, f)" using assms by (simp add: factory_defs)
  have "factory_with made work (factory_release c f) = (fst (work c), factory_release (snd (work c)) f)"
    if "\<forall>m. fst (work c) \<noteq> Inl (Panic m)" for work :: "'a \<Rightarrow> (driver_error, 'b) res \<times> 'a"
    using that by (cases "work c") (auto simp: factory_with_def a split: sum.splits fault.splits)
  with a show ?thesis by (simp add: factory_defs factory_idle_len_def)
qed

theorem closure_pool_sequential_witness:
  "factory_acquire (Inl (Err (Server []))) (factory_release 7 \<lparr>fac_maxsize = 2, fac_idle = [3], fac_closed = False\<rparr>)
     = (Inr (7 :: nat), \<lparr>fac_maxsize = 2, fac_idle = [3], fac_closed = False\<rparr>)"
  using closure_pool_sequential[of "\<lparr>fac_maxsize = 2, fac_idle = [3 :: nat], fac_closed = False\<rparr>" "Inl (Err (Server []))" 7, THEN conjunct1] by simp

text \<open>Defect: the flag test of a release and its push are separate lock sections, so a close that falls between
  them clears the list first and the connection is then kept by the closed pool: nothing hands it out
  or drops it again until the pool itself goes.\<close>

theorem closure_pool_close_race:
  "\<exists>w. freachable 1 (w :: nat threads) \<and> fac_closed (fac w) \<and> fac_idle (fac w) = [c]
     \<and> acquiring w = 0 \<and> releasing w = [] \<and> closing w = 0 \<and> handed w = []
     \<and> (\<forall>w'. fstep w w' \<longrightarrow> closing w' = 0 \<longrightarrow> fac w' = fac w)"
proof -
  let ?f = "\<lambda>xs b. \<lparr>fac_maxsize = 1, fac_idle = xs, fac_closed = b\<rparr> :: nat factory"
  let ?w = "\<lambda>f a r k h. \<lparr>fac = f, acquiring = a, releasing = r, closing = k, handed = h\<rparr> :: nat threads"
  have "freachable 1 (?w (?f [] False) 0 [] 0 [])"
    using freachable.started[of 1 "?f [] False"] by (simp add: factory_new_def start_threads_def)
  moreover have "fstep (?w (?f [] False) 0 [] 0 []) (?w (?f [] False) 1 [] 0 [])"
    using fstep.acquire_open[of "?w (?f [] False) 0 [] 0 []"] by simp
  moreover have "fstep (?w (?f [] False) 1 [] 0 []) (?w (?f [] False) 0 [] 0 [c])"
    using fstep.acquire_make[of "?w (?f [] False) 1 [] 0 []" 0 "?f [] False" c] by (simp add: pop_idle_def live_def)
  moreover have "fstep (?w (?f [] False) 0 [] 0 [c]) (?w (?f [] False) 0 [c] 0 [])"
    using fstep.release_open[of c "?w (?f [] False) 0 [] 0 [c]"] by simp
  moreover have "fstep (?w (?f [] False) 0 [c] 0 []) (?w (?f [] True) 0 [c] 1 [])"
    using fstep.close_marked[of "?w (?f [] False) 0 [c] 0 []"] by (simp add: mark_closed_def)
  moreover have "fstep (?w (?f [] True) 0 [c] 1 []) (?w (?f [] True) 0 [c] 0 [])"
    using fstep.close_cleared[of "?w (?f [] True) 0 [c] 1 []" 0] by (simp add: clear_idle_def)
  moreover have "fstep (?w (?f [] True) 0 [c] 0 []) (?w (?f [c] True) 0 [] 0 [])"
    using fstep.release_pushed[of c "?w (?f [] True) 0 [c] 0 []"] by (simp add: push_idle_def)
  ultimately have "freachable 1 (?w (?f [c] True) 0 [] 0 [])" by (meson freachable.stepped)
  then show ?thesis by (intro exI[of _ "?w (?f [c] True) 0 [] 0 []"]) (auto elim!: fstep.cases)
qed

end
