(* ===== verification/Net_Stream.thy ===== *)
theory Net_Stream
  imports Transport
begin

text \<open>
  The byte streams of \<^verbatim>\<open>skaidb-net/src/lib.rs\<close>: plain and TLS sockets behind one \<open>net_stream\<close>, the buffered \<open>conn\<close>, and
  what the standard library builds from a single \<^verbatim>\<open>read\<close> or \<^verbatim>\<open>write\<close> (the default \<^verbatim>\<open>read_exact\<close>, \<^verbatim>\<open>write_all\<close> and
  \<^verbatim>\<open>write_vectored\<close>, and \<^verbatim>\<open>BufReader\<close>). The socket and the sessions of \<^verbatim>\<open>rustls\<close> are parameters; a call that is
  interrupted is retried by the standard library and is one call here.
\<close>

section \<open>Single reads and writes\<close>

record 'x sock_ops =
  sk_read :: "'x \<Rightarrow> nat \<Rightarrow> (io_error, bytes \<times> 'x) res"
  sk_write :: "'x \<Rightarrow> bytes \<Rightarrow> (io_error, nat \<times> 'x) res"
  sk_flush :: "'x \<Rightarrow> (io_error, 'x) res"

text \<open>\<^verbatim>\<open>Read::read_exact\<close>, \<^verbatim>\<open>Write::write_all\<close> and \<^verbatim>\<open>Write::write_vectored\<close> as the traits define them.\<close>

function default_read_exact :: "'x sock_ops \<Rightarrow> 'x \<Rightarrow> nat \<Rightarrow> (io_error, bytes \<times> 'x) res" where
  "default_read_exact ops s n =
    (if n = 0 then Inr ([], s)
     else rbind (sk_read ops s n) (\<lambda>(bs, s).
       if bs = [] then Inl (Err UnexpectedEof)
       else if n < length bs then Inl (Panic ''slice'')
       else rbind (default_read_exact ops s (n - length bs)) (\<lambda>(more, s). Inr (bs @ more, s))))"
  by pat_completeness auto
termination
  by (relation "measure (\<lambda>(ops, s, n). n)") auto

function default_write_all :: "'x sock_ops \<Rightarrow> 'x \<Rightarrow> bytes \<Rightarrow> (io_error, 'x) res" where
  "default_write_all ops s bs =
    (if bs = [] then Inr s
     else rbind (sk_write ops s bs) (\<lambda>(n, s).
       if n = 0 then Inl (Err (WriteZero ''failed to write whole buffer''))
       else if length bs < n then Inl (Panic ''slice'')
       else default_write_all ops s (drop n bs)))"
  by pat_completeness auto
termination
  by (relation "measure (\<lambda>(ops, s, bs). length bs)") auto

declare default_read_exact.simps [simp del] default_write_all.simps [simp del]

definition default_write_vectored :: "'x sock_ops \<Rightarrow> 'x \<Rightarrow> bytes list \<Rightarrow> (io_error, nat \<times> 'x) res" where
  "default_write_vectored ops s bufs = sk_write ops s (case find (\<lambda>b. b \<noteq> []) bufs of Some b \<Rightarrow> b | None \<Rightarrow> [])"

definition std_io :: "'x sock_ops \<Rightarrow> 'x stream_ops" where
  "std_io ops = \<lparr>wr = \<lparr>write_vectored = default_write_vectored ops, write_all = default_write_all ops, flush = sk_flush ops\<rparr>,
     rd = \<lparr>read_exact = default_read_exact ops\<rparr>\<rparr>"

section \<open>Streams\<close>

datatype ('p, 'c, 'v) net_stream = Plain 'p | ClientTls 'c | ServerTls 'v

text \<open>The socket, and a client and a server session over one: their reads and writes, the socket they hold, the peer's
  certificates and the closing alert.\<close>

record ('p, 'c, 'v) net_parts =
  socket :: "'p sock_ops"
  client_tls :: "'c sock_ops"
  server_tls :: "'v sock_ops"
  client_socket :: "'c \<Rightarrow> 'p"
  server_socket :: "'v \<Rightarrow> 'p"
  client_peer :: "'c \<Rightarrow> bytes list option"
  server_peer :: "'v \<Rightarrow> bytes list option"
  client_close_notify :: "'c \<Rightarrow> 'c"
  server_close_notify :: "'v \<Rightarrow> 'v"

definition stream_kind :: "('p, 'c, 'v) net_stream \<Rightarrow> string" where
  "stream_kind s = (case s of Plain _ \<Rightarrow> ''plain'' | ClientTls _ \<Rightarrow> ''client-tls'' | ServerTls _ \<Rightarrow> ''server-tls'')"

definition is_tls :: "('p, 'c, 'v) net_stream \<Rightarrow> bool" where
  "is_tls s = (case s of Plain _ \<Rightarrow> False | _ \<Rightarrow> True)"

definition tcp :: "('p, 'c, 'v) net_parts \<Rightarrow> ('p, 'c, 'v) net_stream \<Rightarrow> 'p" where
  "tcp P s = (case s of Plain x \<Rightarrow> x | ClientTls x \<Rightarrow> client_socket P x | ServerTls x \<Rightarrow> server_socket P x)"

text \<open>Calls of the socket under a stream: its peer's address, a second handle and the read timeout, each a parameter.\<close>

definition peer_addr :: "('p \<Rightarrow> 'e + 'a) \<Rightarrow> ('p, 'c, 'v) net_parts \<Rightarrow> ('p, 'c, 'v) net_stream \<Rightarrow> 'a option" where
  "peer_addr addr P s = (case (case s of
       Plain x \<Rightarrow> addr x | ClientTls x \<Rightarrow> addr (client_socket P x) | ServerTls x \<Rightarrow> addr (server_socket P x)) of
     Inr a \<Rightarrow> Some a | Inl _ \<Rightarrow> None)"

definition probe_socket :: "('p \<Rightarrow> 'e + 'p) \<Rightarrow> ('p, 'c, 'v) net_parts \<Rightarrow> ('p, 'c, 'v) net_stream \<Rightarrow> 'e + 'p" where
  "probe_socket try_clone P s = (case s of
     Plain x \<Rightarrow> try_clone x | ClientTls x \<Rightarrow> try_clone (client_socket P x) | ServerTls x \<Rightarrow> try_clone (server_socket P x))"

definition set_read_timeout :: "('p \<Rightarrow> 'd option \<Rightarrow> 'e + unit) \<Rightarrow> ('p, 'c, 'v) net_parts \<Rightarrow> ('p, 'c, 'v) net_stream \<Rightarrow> 'd option \<Rightarrow> 'e + unit" where
  "set_read_timeout set_timeout P s dur = (case s of
     Plain x \<Rightarrow> set_timeout x dur | ClientTls x \<Rightarrow> set_timeout (client_socket P x) dur | ServerTls x \<Rightarrow> set_timeout (server_socket P x) dur)"

definition first_of :: "'a list option \<Rightarrow> 'a option" where
  "first_of xs = (case xs of Some (x # _) \<Rightarrow> Some x | _ \<Rightarrow> None)"

definition peer_certificate_der :: "('p, 'c, 'v) net_parts \<Rightarrow> ('p, 'c, 'v) net_stream \<Rightarrow> bytes option" where
  "peer_certificate_der P s = (case s of
     ClientTls x \<Rightarrow> first_of (client_peer P x) | ServerTls x \<Rightarrow> first_of (server_peer P x) | Plain _ \<Rightarrow> None)"

definition via :: "('x \<Rightarrow> 's) \<Rightarrow> (io_error, 'a \<times> 'x) res \<Rightarrow> (io_error, 'a \<times> 's) res" where
  "via f r = rbind r (\<lambda>(a, x). Inr (a, f x))"

definition stream_read :: "('p, 'c, 'v) net_parts \<Rightarrow> ('p, 'c, 'v) net_stream \<Rightarrow> nat \<Rightarrow> (io_error, bytes \<times> ('p, 'c, 'v) net_stream) res" where
  "stream_read P s n = (case s of
     Plain x \<Rightarrow> via Plain (sk_read (socket P) x n)
   | ClientTls x \<Rightarrow> via ClientTls (sk_read (client_tls P) x n)
   | ServerTls x \<Rightarrow> via ServerTls (sk_read (server_tls P) x n))"

definition stream_write :: "('p, 'c, 'v) net_parts \<Rightarrow> ('p, 'c, 'v) net_stream \<Rightarrow> bytes \<Rightarrow> (io_error, nat \<times> ('p, 'c, 'v) net_stream) res" where
  "stream_write P s bs = (case s of
     Plain x \<Rightarrow> via Plain (sk_write (socket P) x bs)
   | ClientTls x \<Rightarrow> via ClientTls (sk_write (client_tls P) x bs)
   | ServerTls x \<Rightarrow> via ServerTls (sk_write (server_tls P) x bs))"

definition stream_flush :: "('p, 'c, 'v) net_parts \<Rightarrow> ('p, 'c, 'v) net_stream \<Rightarrow> (io_error, ('p, 'c, 'v) net_stream) res" where
  "stream_flush P s = (case s of
     Plain x \<Rightarrow> rbind (sk_flush (socket P) x) (\<lambda>x. Inr (Plain x))
   | ClientTls x \<Rightarrow> rbind (sk_flush (client_tls P) x) (\<lambda>x. Inr (ClientTls x))
   | ServerTls x \<Rightarrow> rbind (sk_flush (server_tls P) x) (\<lambda>x. Inr (ServerTls x)))"

definition net_ops :: "('p, 'c, 'v) net_parts \<Rightarrow> ('p, 'c, 'v) net_stream sock_ops" where
  "net_ops P = \<lparr>sk_read = stream_read P, sk_write = stream_write P, sk_flush = stream_flush P\<rparr>"

text \<open>\<^verbatim>\<open>Drop\<close>: the closing alert and a flush whose error is ignored; the socket that is left behind.\<close>

definition stream_drop :: "('p, 'c, 'v) net_parts \<Rightarrow> ('p, 'c, 'v) net_stream \<Rightarrow> ('p, 'c, 'v) net_stream" where
  "stream_drop P s = (case s of
     ServerTls x \<Rightarrow> (let x = server_close_notify P x in case sk_flush (server_tls P) x of Inr x \<Rightarrow> ServerTls x | Inl _ \<Rightarrow> ServerTls x)
   | ClientTls x \<Rightarrow> (let x = client_close_notify P x in case sk_flush (client_tls P) x of Inr x \<Rightarrow> ClientTls x | Inl _ \<Rightarrow> ClientTls x)
   | Plain x \<Rightarrow> Plain x)"

section \<open>Buffered connections\<close>

definition BUF_SIZE :: nat where "BUF_SIZE = 8 * 1024"

record 's conn =
  cn_buf :: bytes
  cn_stream :: 's

definition conn_new :: "'s \<Rightarrow> 's conn" where
  "conn_new s = \<lparr>cn_buf = [], cn_stream = s\<rparr>"

definition conn_fill_buf :: "'s sock_ops \<Rightarrow> 's conn \<Rightarrow> (io_error, bytes \<times> 's conn) res" where
  "conn_fill_buf ops c =
    (if cn_buf c = [] then rbind (sk_read ops (cn_stream c) BUF_SIZE) (\<lambda>(bs, s). Inr (bs, \<lparr>cn_buf = bs, cn_stream = s\<rparr>))
     else Inr (cn_buf c, c))"

definition conn_consume :: "nat \<Rightarrow> 's conn \<Rightarrow> 's conn" where
  "conn_consume n c = c\<lparr>cn_buf := drop n (cn_buf c)\<rparr>"

text \<open>\<^verbatim>\<open>BufReader::read\<close>: a read of at least a buffer goes around an empty buffer.\<close>

definition conn_read :: "'s sock_ops \<Rightarrow> 's conn \<Rightarrow> nat \<Rightarrow> (io_error, bytes \<times> 's conn) res" where
  "conn_read ops c n =
    (if cn_buf c = [] \<and> BUF_SIZE \<le> n then rbind (sk_read ops (cn_stream c) n) (\<lambda>(bs, s). Inr (bs, c\<lparr>cn_stream := s\<rparr>))
     else rbind (conn_fill_buf ops c) (\<lambda>(available, c). let bs = take n available in Inr (bs, conn_consume (length bs) c)))"

definition conn_write :: "'s sock_ops \<Rightarrow> 's conn \<Rightarrow> bytes \<Rightarrow> (io_error, nat \<times> 's conn) res" where
  "conn_write ops c bs = rbind (sk_write ops (cn_stream c) bs) (\<lambda>(n, s). Inr (n, c\<lparr>cn_stream := s\<rparr>))"

definition conn_flush :: "'s sock_ops \<Rightarrow> 's conn \<Rightarrow> (io_error, 's conn) res" where
  "conn_flush ops c = rbind (sk_flush ops (cn_stream c)) (\<lambda>s. Inr (c\<lparr>cn_stream := s\<rparr>))"

definition conn_ops :: "'s sock_ops \<Rightarrow> 's conn sock_ops" where
  "conn_ops ops = \<lparr>sk_read = conn_read ops, sk_write = conn_write ops, sk_flush = conn_flush ops\<rparr>"

text \<open>The accessors of a connection are those of its stream.\<close>

definition conn_kind :: "('p, 'c, 'v) net_stream conn \<Rightarrow> string" where
  "conn_kind c = stream_kind (cn_stream c)"

definition conn_is_tls :: "('p, 'c, 'v) net_stream conn \<Rightarrow> bool" where
  "conn_is_tls c = is_tls (cn_stream c)"

definition conn_peer_certificate_der :: "('p, 'c, 'v) net_parts \<Rightarrow> ('p, 'c, 'v) net_stream conn \<Rightarrow> bytes option" where
  "conn_peer_certificate_der P c = peer_certificate_der P (cn_stream c)"

definition conn_peer_addr :: "('p \<Rightarrow> 'e + 'a) \<Rightarrow> ('p, 'c, 'v) net_parts \<Rightarrow> ('p, 'c, 'v) net_stream conn \<Rightarrow> 'a option" where
  "conn_peer_addr addr P c = peer_addr addr P (cn_stream c)"

definition conn_probe_socket :: "('p \<Rightarrow> 'e + 'p) \<Rightarrow> ('p, 'c, 'v) net_parts \<Rightarrow> ('p, 'c, 'v) net_stream conn \<Rightarrow> 'e + 'p" where
  "conn_probe_socket try_clone P c = probe_socket try_clone P (cn_stream c)"

definition conn_set_read_timeout :: "('p \<Rightarrow> 'd option \<Rightarrow> 'e + unit) \<Rightarrow> ('p, 'c, 'v) net_parts \<Rightarrow> ('p, 'c, 'v) net_stream conn \<Rightarrow> 'd option \<Rightarrow> 'e + unit" where
  "conn_set_read_timeout set_timeout P c dur = set_read_timeout set_timeout P (cn_stream c) dur"

section \<open>Telling TLS from plain text\<close>

definition peek_is_tls :: "('p \<Rightarrow> nat \<Rightarrow> (io_error, bytes) res) \<Rightarrow> 'p \<Rightarrow> (io_error, bool) res" where
  "peek_is_tls peek x = rbind (peek x 1) (\<lambda>b. Inr (length b = 1 \<and> b ! 0 = 0x16))"

text \<open>Every call that bypasses the stream goes to the one socket that carries its bytes, whatever the kind of the stream.\<close>

lemma socket_calls:
  "probe_socket try_clone P s = try_clone (tcp P s)"
  "set_read_timeout set_timeout P s dur = set_timeout (tcp P s) dur"
  "peer_addr addr P s = (case addr (tcp P s) of Inr a \<Rightarrow> Some a | Inl _ \<Rightarrow> None)"
  by (simp_all add: probe_socket_def set_read_timeout_def peer_addr_def tcp_def split: net_stream.split)

section \<open>The contract of a byte stream\<close>

text \<open>What \<^verbatim>\<open>Read\<close> and \<^verbatim>\<open>Write\<close> document of a stream that does not fail, relative to the bytes sent and the bytes still to
  come: a read may return less than asked for, and nothing only at the end; a write may take a part, but something.\<close>

locale byte_stream =
  fixes ops :: "'x sock_ops" and sent :: "'x \<Rightarrow> bytes" and pending :: "'x \<Rightarrow> bytes"
  assumes reads: "\<exists>bs s'. sk_read ops s n = Inr (bs, s') \<and> length bs \<le> n \<and> pending s = bs @ pending s' \<and> sent s' = sent s
      \<and> (bs = [] \<longrightarrow> n = 0 \<or> pending s = [])"
    and writes: "\<exists>n s'. sk_write ops s bs = Inr (n, s') \<and> n \<le> length bs \<and> sent s' = sent s @ take n bs \<and> pending s' = pending s
      \<and> (bs \<noteq> [] \<longrightarrow> 0 < n)"
    and flushes: "\<exists>s'. sk_flush ops s = Inr s' \<and> sent s' = sent s \<and> pending s' = pending s"
begin

lemma read_exact_all:
  "pending s = bs @ rest \<Longrightarrow> \<exists>s'. default_read_exact ops s (length bs) = Inr (bs, s') \<and> pending s' = rest \<and> sent s' = sent s"
proof (induction "length bs" arbitrary: s bs rule: less_induct)
  case less
  show ?case
  proof (cases "bs = []")
    case True
    then show ?thesis using less.prems by (simp add: default_read_exact.simps)
  next
    case False
    obtain xs s1 where xs: "sk_read ops s (length bs) = Inr (xs, s1)" "length xs \<le> length bs" "pending s = xs @ pending s1" "sent s1 = sent s"
      "xs \<noteq> []" using reads[of s "length bs"] False less.prems by auto
    have "xs = take (length xs) bs" and p1: "pending s1 = drop (length xs) bs @ rest"
      using less.prems xs(2,3) by (auto simp: append_eq_append_conv_if)
    then have sp: "bs = xs @ drop (length xs) bs" by (metis append_take_drop_id)
    obtain s2 where s2: "default_read_exact ops s1 (length (drop (length xs) bs)) = Inr (drop (length xs) bs, s2)" "pending s2 = rest" "sent s2 = sent s1"
      using less.hyps[OF _ p1] xs(5) False by auto
    have "default_read_exact ops s (length bs) = Inr (bs, s2)"
      unfolding default_read_exact.simps[of ops s "length bs"] using False xs(1,2,5) s2(1) sp by simp
    then show ?thesis using s2 xs(4) by simp
  qed
qed

lemma read_exact_eof: "length (pending s) < n \<Longrightarrow> default_read_exact ops s n = Inl (Err UnexpectedEof)"
proof (induction n arbitrary: s rule: less_induct)
  case (less n)
  obtain xs s1 where xs: "sk_read ops s n = Inr (xs, s1)" "length xs \<le> n" "pending s = xs @ pending s1" using reads[of s n] by auto
  show ?case
  proof (cases "xs = []")
    case True
    then show ?thesis unfolding default_read_exact.simps[of ops s n] using less.prems xs(1) by simp
  next
    case False
    then have "default_read_exact ops s1 (n - length xs) = Inl (Err UnexpectedEof)" using less.IH[of "n - length xs" s1] less.prems xs by (cases xs) auto
    then show ?thesis unfolding default_read_exact.simps[of ops s n] using less.prems xs(1,2) False by simp
  qed
qed

lemma write_all_all: "\<exists>s'. default_write_all ops s bs = Inr s' \<and> sent s' = sent s @ bs \<and> pending s' = pending s"
proof (induction "length bs" arbitrary: s bs rule: less_induct)
  case less
  show ?case
  proof (cases "bs = []")
    case False
    obtain n s1 where n: "sk_write ops s bs = Inr (n, s1)" "n \<le> length bs" "sent s1 = sent s @ take n bs" "pending s1 = pending s" "0 < n"
      using writes[of s bs] False by auto
    obtain s2 where s2: "default_write_all ops s1 (drop n bs) = Inr s2" "sent s2 = sent s1 @ drop n bs" "pending s2 = pending s1"
      using less.hyps[of "drop n bs" s1] n(5) False by auto
    have "default_write_all ops s bs = Inr s2" unfolding default_write_all.simps[of ops s bs] using False n(1,2,5) s2(1) by simp
    then show ?thesis using s2 n by simp
  qed (simp add: default_write_all.simps)
qed

lemma vectored_first:
  "\<exists>n s'. default_write_vectored ops s bufs = Inr (n, s') \<and> n \<le> length (concat bufs) \<and> sent s' = sent s @ take n (concat bufs)
    \<and> pending s' = pending s \<and> (concat bufs \<noteq> [] \<longrightarrow> 0 < n)"
proof (cases "find (\<lambda>b. b \<noteq> []) bufs")
  case None
  then have "concat bufs = []" by (auto simp: find_None_iff)
  then show ?thesis using writes[of s "[]"] None by (auto simp: default_write_vectored_def)
next
  case (Some b)
  have "\<exists>rest. concat bufs = b @ rest \<and> b \<noteq> []" using Some
    by (induction bufs) (auto split: if_splits)
  then obtain rest where "concat bufs = b @ rest" "b \<noteq> []" by blast
  then show ?thesis using writes[of s b] Some by (auto simp: default_write_vectored_def)
qed

lemma std_io_duplex: "duplex (std_io ops) sent pending"
proof -
  have "sent s' = sent s" if "default_read_exact ops s n = Inr (bs, s')" for s n bs s'
  proof (cases "n \<le> length (pending s)")
    case True
    then show ?thesis using read_exact_all[of s "take n (pending s)" "drop n (pending s)"] that by simp
  next
    case False
    then show ?thesis using read_exact_eof[of s n] that by simp
  qed
  then have "reads_keep (rd (std_io ops)) sent" by (auto simp: reads_keep_def std_io_def)
  moreover have "read_contract (rd (std_io ops)) pending"
    unfolding read_contract_def std_io_def using read_exact_all read_exact_eof by simp blast
  moreover have "write_contract (wr (std_io ops)) sent" "write_live (wr (std_io ops))" "writes_keep (wr (std_io ops)) pending"
    unfolding write_contract_def write_live_def writes_keep_def std_io_def
    using vectored_first write_all_all flushes by (auto, (metis Inr_inject Pair_inject)+)
  ultimately show ?thesis by (simp add: duplex_def)
qed

end

section \<open>Streams and buffered connections are byte streams\<close>

definition by_kind :: "('p \<Rightarrow> 'a) \<Rightarrow> ('c \<Rightarrow> 'a) \<Rightarrow> ('v \<Rightarrow> 'a) \<Rightarrow> ('p, 'c, 'v) net_stream \<Rightarrow> 'a" where
  "by_kind f g h s = (case s of Plain x \<Rightarrow> f x | ClientTls x \<Rightarrow> g x | ServerTls x \<Rightarrow> h x)"

locale net_sockets =
  plain: byte_stream "socket P" sent_p pend_p + client: byte_stream "client_tls P" sent_c pend_c + server: byte_stream "server_tls P" sent_v pend_v
  for P :: "('p, 'c, 'v) net_parts" and sent_p pend_p sent_c pend_c sent_v pend_v

sublocale net_sockets \<subseteq> stream: byte_stream "net_ops P" "by_kind sent_p sent_c sent_v" "by_kind pend_p pend_c pend_v"
proof
  fix s :: "('p, 'c, 'v) net_stream" and n bs
  show "\<exists>bs s'. sk_read (net_ops P) s n = Inr (bs, s') \<and> length bs \<le> n
      \<and> by_kind pend_p pend_c pend_v s = bs @ by_kind pend_p pend_c pend_v s' \<and> by_kind sent_p sent_c sent_v s' = by_kind sent_p sent_c sent_v s
      \<and> (bs = [] \<longrightarrow> n = 0 \<or> by_kind pend_p pend_c pend_v s = [])"
  proof (cases s)
    case (Plain x)
    then show ?thesis using plain.reads[of x n] by (auto simp: net_ops_def stream_read_def via_def by_kind_def)
  next
    case (ClientTls x)
    then show ?thesis using client.reads[of x n] by (auto simp: net_ops_def stream_read_def via_def by_kind_def)
  next
    case (ServerTls x)
    then show ?thesis using server.reads[of x n] by (auto simp: net_ops_def stream_read_def via_def by_kind_def)
  qed
  show "\<exists>n s'. sk_write (net_ops P) s bs = Inr (n, s') \<and> n \<le> length bs \<and> by_kind sent_p sent_c sent_v s' = by_kind sent_p sent_c sent_v s @ take n bs
      \<and> by_kind pend_p pend_c pend_v s' = by_kind pend_p pend_c pend_v s \<and> (bs \<noteq> [] \<longrightarrow> 0 < n)"
  proof (cases s)
    case (Plain x)
    then show ?thesis using plain.writes[of x bs] by (auto simp: net_ops_def stream_write_def via_def by_kind_def)
  next
    case (ClientTls x)
    then show ?thesis using client.writes[of x bs] by (auto simp: net_ops_def stream_write_def via_def by_kind_def)
  next
    case (ServerTls x)
    then show ?thesis using server.writes[of x bs] by (auto simp: net_ops_def stream_write_def via_def by_kind_def)
  qed
  show "\<exists>s'. sk_flush (net_ops P) s = Inr s' \<and> by_kind sent_p sent_c sent_v s' = by_kind sent_p sent_c sent_v s
      \<and> by_kind pend_p pend_c pend_v s' = by_kind pend_p pend_c pend_v s"
  proof (cases s)
    case (Plain x)
    then show ?thesis using plain.flushes[of x] by (auto simp: net_ops_def stream_flush_def via_def by_kind_def)
  next
    case (ClientTls x)
    then show ?thesis using client.flushes[of x] by (auto simp: net_ops_def stream_flush_def via_def by_kind_def)
  next
    case (ServerTls x)
    then show ?thesis using server.flushes[of x] by (auto simp: net_ops_def stream_flush_def via_def by_kind_def)
  qed
qed

context net_sockets
begin

lemma stream_byte_stream: "byte_stream (net_ops P) (by_kind sent_p sent_c sent_v) (by_kind pend_p pend_c pend_v)"
  by (rule stream.byte_stream_axioms)

end

lemma take_drop_min [simp]: "take n xs @ drop (min (length xs) n) xs = xs"
  by (cases "n \<le> length xs") (simp_all add: min_def)

locale buffered = inner: byte_stream ops sent pending for ops :: "'s sock_ops" and sent pending

sublocale buffered \<subseteq> conn: byte_stream "conn_ops ops" "\<lambda>c. sent (cn_stream c)" "\<lambda>c. cn_buf c @ pending (cn_stream c)"
proof
  fix c :: "'s conn" and n bs
  have fill: "\<exists>bs c'. conn_fill_buf ops c = Inr (bs, c') \<and> cn_buf c' = bs \<and> cn_buf c @ pending (cn_stream c) = bs @ pending (cn_stream c')
      \<and> sent (cn_stream c') = sent (cn_stream c) \<and> (bs = [] \<longrightarrow> cn_buf c @ pending (cn_stream c) = [])"
    using inner.reads[of "cn_stream c" BUF_SIZE] by (auto simp: conn_fill_buf_def BUF_SIZE_def)
  show "\<exists>bs c'. sk_read (conn_ops ops) c n = Inr (bs, c') \<and> length bs \<le> n
      \<and> cn_buf c @ pending (cn_stream c) = bs @ cn_buf c' @ pending (cn_stream c') \<and> sent (cn_stream c') = sent (cn_stream c)
      \<and> (bs = [] \<longrightarrow> n = 0 \<or> cn_buf c @ pending (cn_stream c) = [])"
  proof (cases "cn_buf c = [] \<and> BUF_SIZE \<le> n")
    case True
    then show ?thesis using inner.reads[of "cn_stream c" n] by (auto simp: conn_ops_def conn_read_def)
  next
    case False
    then show ?thesis using fill by (auto simp: conn_ops_def conn_read_def conn_consume_def Let_def)
  qed
  show "\<exists>n c'. sk_write (conn_ops ops) c bs = Inr (n, c') \<and> n \<le> length bs \<and> sent (cn_stream c') = sent (cn_stream c) @ take n bs
      \<and> cn_buf c' @ pending (cn_stream c') = cn_buf c @ pending (cn_stream c) \<and> (bs \<noteq> [] \<longrightarrow> 0 < n)"
    using inner.writes[of "cn_stream c" bs] by (auto simp: conn_ops_def conn_write_def)
  show "\<exists>c'. sk_flush (conn_ops ops) c = Inr c' \<and> sent (cn_stream c') = sent (cn_stream c)
      \<and> cn_buf c' @ pending (cn_stream c') = cn_buf c @ pending (cn_stream c)"
    using inner.flushes[of "cn_stream c"] by (auto simp: conn_ops_def conn_flush_def)
qed

context buffered
begin

lemma conn_byte_stream: "byte_stream (conn_ops ops) (\<lambda>c. sent (cn_stream c)) (\<lambda>c. cn_buf c @ pending (cn_stream c))"
  by (rule conn.byte_stream_axioms)

end

text \<open>A socket in memory that takes and gives at most \<open>k + 1\<close> bytes at a time.\<close>

definition slow_socket :: "nat \<Rightarrow> (bytes \<times> bytes) sock_ops" where
  "slow_socket k = \<lparr>sk_read = (\<lambda>(out, inp) n. Inr (take (min n (Suc k)) inp, (out, drop (min n (Suc k)) inp))),
     sk_write = (\<lambda>(out, inp) bs. Inr (min (length bs) (Suc k), (out @ take (Suc k) bs, inp))), sk_flush = Inr\<rparr>"

definition slow_parts :: "nat \<Rightarrow> (bytes \<times> bytes, bytes \<times> bytes, bytes \<times> bytes) net_parts" where
  "slow_parts k = \<lparr>socket = slow_socket k, client_tls = slow_socket k, server_tls = slow_socket k, client_socket = id, server_socket = id,
     client_peer = (\<lambda>_. None), server_peer = (\<lambda>_. None), client_close_notify = id, server_close_notify = id\<rparr>"

interpretation slow: byte_stream "slow_socket k" fst snd for k
proof
  show "\<exists>n s'. sk_write (slow_socket k) s bs = Inr (n, s') \<and> n \<le> length bs \<and> fst s' = fst s @ take n bs \<and> snd s' = snd s \<and> (bs \<noteq> [] \<longrightarrow> 0 < n)" for s bs
    by (cases s) (auto simp: slow_socket_def min_def)
qed (auto simp: slow_socket_def)

interpretation slow_net: net_sockets "slow_parts k" fst snd fst snd fst snd for k
  by (rule net_sockets.intro) (simp_all add: slow_parts_def slow.byte_stream_axioms)

interpretation slow_conn: buffered "net_ops (slow_parts k)" "by_kind fst fst fst" "by_kind snd snd snd" for k
  by unfold_locales

section \<open>Properties\<close>

text \<open>C17: Over sockets and TLS sessions that keep what \<^verbatim>\<open>Read\<close> and \<^verbatim>\<open>Write\<close> promise of a single call, however they split reads and writes,
  the stream of a connection and the buffered connection are full-duplex byte streams: the bytes of a frame arrive in
  order, none lost, doubled or overtaken by the read buffer. This is what framing and the driver assume of a stream.\<close>

theorem net_streams_duplex:
  assumes "byte_stream (socket P) sent_p pend_p" and "byte_stream (client_tls P) sent_c pend_c" and "byte_stream (server_tls P) sent_v pend_v"
  shows "duplex (std_io (net_ops P)) (by_kind sent_p sent_c sent_v) (by_kind pend_p pend_c pend_v)
    \<and> duplex (std_io (conn_ops (net_ops P))) (\<lambda>c. by_kind sent_p sent_c sent_v (cn_stream c))
        (\<lambda>c. cn_buf c @ by_kind pend_p pend_c pend_v (cn_stream c))"
proof -
  note stream = net_sockets.stream_byte_stream[OF net_sockets.intro[OF assms]]
  note conn = buffered.conn_byte_stream[OF buffered.intro[OF stream]]
  show ?thesis using byte_stream.std_io_duplex[OF stream] byte_stream.std_io_duplex[OF conn] by blast
qed

theorem net_streams_duplex_witness:
  "duplex (std_io (conn_ops (net_ops (slow_parts 2)))) (\<lambda>c. by_kind fst fst fst (cn_stream c)) (\<lambda>c. cn_buf c @ by_kind snd snd snd (cn_stream c))"
  using net_streams_duplex[of "slow_parts 2" fst snd fst snd fst snd] slow.byte_stream_axioms[of 2] by (simp add: slow_parts_def)

text \<open>A socket that takes every write whole and keeps a record of them.\<close>

definition log_socket :: "bytes list sock_ops" where
  "log_socket = \<lparr>sk_read = (\<lambda>log n. Inr ([], log)), sk_write = (\<lambda>log bs. Inr (length bs, log @ [bs])), sk_flush = Inr\<rparr>"

definition log_parts :: "(bytes list, bytes list, bytes list) net_parts" where
  "log_parts = \<lparr>socket = log_socket, client_tls = log_socket, server_tls = log_socket, client_socket = id, server_socket = id,
     client_peer = (\<lambda>_. None), server_peer = (\<lambda>_. None), client_close_notify = id, server_close_notify = id\<rparr>"

text \<open>A frame of more than the coalescing limit is not one write on a driver's stream: the stream has no vectored write of its own, so
  the length prefix leaves alone, in a write of four bytes, and the payload in a second one.\<close>

theorem large_frame_prefix_alone:
  assumes "length payload \<le> MAX_FRAME_LEN" and "kind \<in> {Plain, ClientTls, ServerTls}"
  shows "write_frame (wr (std_io (net_ops log_parts))) (kind []) payload
    = Inr (kind (if length payload \<le> COALESCE_LIMIT then [u32_be (length payload) @ payload] else [u32_be (length payload), payload]))"
proof -
  have ne: "u32_be (length payload) \<noteq> []" by (metis length_u32_be list.size(3) zero_neq_numeral)
  have w: "stream_write log_parts (kind log) bs = Inr (length bs, kind (log @ [bs]))" for log bs
    using assms(2) by (auto simp: stream_write_def log_parts_def log_socket_def via_def)
  have f: "stream_flush log_parts (kind log) = Inr (kind log)" for log
    using assms(2) by (auto simp: stream_flush_def log_parts_def log_socket_def)
  have "payload \<noteq> []" if "\<not> length payload \<le> COALESCE_LIMIT" using that by (auto simp: COALESCE_LIMIT_def)
  then show ?thesis using assms(1) ne
    by (auto simp: write_frame_def std_io_def net_ops_def Let_def default_write_all.simps w f write_all_vectored.simps default_write_vectored_def)
qed

theorem large_frame_prefix_alone_witness:
  "write_frame (wr (std_io (net_ops log_parts))) (ClientTls []) (replicate 9000 0) = Inr (ClientTls [u32_be 9000, replicate 9000 0])"
proof -
  have "length (replicate 9000 (0::u8)) \<le> MAX_FRAME_LEN" "\<not> length (replicate 9000 (0::u8)) \<le> COALESCE_LIMIT"
    by (simp_all add: MAX_FRAME_LEN_def COALESCE_LIMIT_def)
  then show ?thesis using large_frame_prefix_alone[of "replicate 9000 0" ClientTls] by simp
qed

end
