(* ===== verification/Tls_Config.thy ===== *)
theory Tls_Config
  imports Net_Stream Discovery
begin

text \<open>
  TLS configurations and handshakes (\<^verbatim>\<open>skaidb-net/src/lib.rs\<close>, \<^verbatim>\<open>TlsConfig\<close> of \<^verbatim>\<open>src/lib.rs\<close>). What \<^verbatim>\<open>rustls\<close> and the reader of PEM files do
  is a parameter; a configuration is what the code asks \<^verbatim>\<open>rustls\<close> for: whom it trusts, what it presents and, on the
  server's side, whether it asks for a client certificate. Errors are the texts the code returns.
\<close>

section \<open>Certificates and keys\<close>

type_synonym cert = bytes

text \<open>Opening and reading a PEM file, what a root store says of a certificate, and what \<^verbatim>\<open>rustls\<close> says of a certificate with its key and of
  a set of client roots; \<open>Some e\<close> is a refusal. The number of session tickets a server sends unless told otherwise is
  \<open>default_tickets\<close>.\<close>

record 'k tls_lib =
  pem_certs :: "rstr \<Rightarrow> rstr + (rstr + cert list)"
  pem_key :: "rstr \<Rightarrow> rstr + (rstr + 'k option)"
  refuse_root :: "cert \<Rightarrow> rstr option"
  refuse_server_cert :: "cert list \<Rightarrow> 'k \<Rightarrow> rstr option"
  refuse_client_cert :: "cert list \<Rightarrow> 'k \<Rightarrow> rstr option"
  refuse_verifier :: "cert list \<Rightarrow> rstr option"
  public_roots :: "cert list"
  default_tickets :: nat

definition load_certs :: "'k tls_lib \<Rightarrow> rstr \<Rightarrow> rstr + cert list" where
  "load_certs T path = (case pem_certs T path of
     Inl e \<Rightarrow> Inl (of_str ''open '' @ path @ of_str '': '' @ e)
   | Inr (Inl e) \<Rightarrow> Inl (of_str ''parse certs '' @ path @ of_str '': '' @ e)
   | Inr (Inr certs) \<Rightarrow> if certs = [] then Inl (of_str ''no certificates in '' @ path) else Inr certs)"

definition load_key :: "'k tls_lib \<Rightarrow> rstr \<Rightarrow> rstr + 'k" where
  "load_key T path = (case pem_key T path of
     Inl e \<Rightarrow> Inl (of_str ''open '' @ path @ of_str '': '' @ e)
   | Inr (Inl e) \<Rightarrow> Inl (of_str ''parse key '' @ path @ of_str '': '' @ e)
   | Inr (Inr None) \<Rightarrow> Inl (of_str ''no private key in '' @ path)
   | Inr (Inr (Some k)) \<Rightarrow> Inr k)"

definition then_try :: "'e + 'a \<Rightarrow> ('a \<Rightarrow> 'e + 'b) \<Rightarrow> 'e + 'b" where
  "then_try r f = (case r of Inl e \<Rightarrow> Inl e | Inr x \<Rightarrow> f x)"

primrec add_roots :: "'k tls_lib \<Rightarrow> cert list \<Rightarrow> cert list \<Rightarrow> rstr + cert list" where
  "add_roots T [] roots = Inr roots"
| "add_roots T (c # cs) roots = (case refuse_root T c of
     Some e \<Rightarrow> Inl (of_str ''add CA cert: '' @ e) | None \<Rightarrow> add_roots T cs (roots @ [c]))"

definition root_store :: "'k tls_lib \<Rightarrow> rstr \<Rightarrow> rstr + cert list" where
  "root_store T ca_path = then_try (load_certs T ca_path) (\<lambda>cs. add_roots T cs [])"

section \<open>Server configurations\<close>

datatype client_check = NoClientAuth | RequireClient "cert list" | AllowUnauthenticated "cert list"

record 'k server_config =
  sc_check :: client_check
  sc_certs :: "cert list"
  sc_key :: 'k
  send_tls13_tickets :: nat

definition with_single_cert :: "'k tls_lib \<Rightarrow> client_check \<Rightarrow> cert list \<Rightarrow> 'k \<Rightarrow> string \<Rightarrow> rstr + 'k server_config" where
  "with_single_cert T chk certs key what = (case refuse_server_cert T certs key of
     Some e \<Rightarrow> Inl (of_str what @ e)
   | None \<Rightarrow> Inr \<lparr>sc_check = chk, sc_certs = certs, sc_key = key, send_tls13_tickets = default_tickets T\<rparr>)"

definition client_verifier :: "'k tls_lib \<Rightarrow> (cert list \<Rightarrow> client_check) \<Rightarrow> cert list \<Rightarrow> rstr + client_check" where
  "client_verifier T chk roots = (case refuse_verifier T roots of
     Some e \<Rightarrow> Inl (of_str ''build client-cert verifier: '' @ e) | None \<Rightarrow> Inr (chk roots))"

definition server_config_plain :: "'k tls_lib \<Rightarrow> rstr \<Rightarrow> rstr \<Rightarrow> rstr + 'k server_config" where
  "server_config_plain T cert_path key_path =
    then_try (load_certs T cert_path) (\<lambda>certs. then_try (load_key T key_path) (\<lambda>key.
    with_single_cert T NoClientAuth certs key ''server TLS config: ''))"

definition server_config_mtls :: "'k tls_lib \<Rightarrow> rstr \<Rightarrow> rstr \<Rightarrow> rstr \<Rightarrow> rstr + 'k server_config" where
  "server_config_mtls T cert_path key_path ca_path =
    then_try (load_certs T cert_path) (\<lambda>certs. then_try (load_key T key_path) (\<lambda>key. then_try (root_store T ca_path) (\<lambda>roots.
    then_try (client_verifier T RequireClient roots) (\<lambda>verifier.
    then_try (with_single_cert T verifier certs key ''server mTLS config: '') (\<lambda>cfg. Inr (cfg\<lparr>send_tls13_tickets := 0\<rparr>))))))"

definition server_config_optional_client_auth :: "'k tls_lib \<Rightarrow> rstr \<Rightarrow> rstr \<Rightarrow> rstr \<Rightarrow> rstr + 'k server_config" where
  "server_config_optional_client_auth T cert_path key_path ca_path =
    then_try (load_certs T cert_path) (\<lambda>certs. then_try (load_key T key_path) (\<lambda>key. then_try (root_store T ca_path) (\<lambda>roots.
    then_try (client_verifier T AllowUnauthenticated roots) (\<lambda>verifier.
    with_single_cert T verifier certs key ''server TLS config: ''))))"

section \<open>Client configurations\<close>

datatype client_verify = VerifyCaFile rstr | WebpkiDefaults | VerifyInsecure

datatype server_check = TrustRoots "cert list" | NoVerify

record 'k client_config =
  cc_check :: server_check
  cc_auth :: "(cert list \<times> 'k) option"

definition client_config_for :: "'k tls_lib \<Rightarrow> client_verify \<Rightarrow> (rstr \<times> rstr) option \<Rightarrow> rstr + 'k client_config" where
  "client_config_for T verify client_cert =
    then_try (case verify of
        VerifyCaFile ca \<Rightarrow> then_try (root_store T ca) (\<lambda>roots. Inr (TrustRoots roots))
      | WebpkiDefaults \<Rightarrow> Inr (TrustRoots (public_roots T))
      | VerifyInsecure \<Rightarrow> Inr NoVerify) (\<lambda>chk.
    case client_cert of
      Some (cert, key) \<Rightarrow>
        then_try (load_certs T cert) (\<lambda>certs. then_try (load_key T key) (\<lambda>k.
        case refuse_client_cert T certs k of Some e \<Rightarrow> Inl (of_str ''client cert: '' @ e) | None \<Rightarrow> Inr \<lparr>cc_check = chk, cc_auth = Some (certs, k)\<rparr>))
    | None \<Rightarrow> Inr \<lparr>cc_check = chk, cc_auth = None\<rparr>)"

text \<open>\<^verbatim>\<open>TlsConfig\<close> of the driver.\<close>

datatype tls_verify = CaFile rstr | System | Insecure

record 'k driver_tls =
  dt_cfg :: "'k client_config"
  dt_server_name :: rstr

definition verify_of :: "tls_verify \<Rightarrow> client_verify" where
  "verify_of v = (case v of CaFile p \<Rightarrow> VerifyCaFile p | System \<Rightarrow> WebpkiDefaults | Insecure \<Rightarrow> VerifyInsecure)"

definition tls_with :: "'k tls_lib \<Rightarrow> tls_verify \<Rightarrow> rstr \<Rightarrow> (rstr \<times> rstr) option \<Rightarrow> rstr + 'k driver_tls" where
  "tls_with T verify name cert = then_try (client_config_for T (verify_of verify) cert) (\<lambda>cfg. Inr \<lparr>dt_cfg = cfg, dt_server_name = name\<rparr>)"

definition tls_config_new :: "'k tls_lib \<Rightarrow> tls_verify \<Rightarrow> rstr \<Rightarrow> rstr + 'k driver_tls" where
  "tls_config_new T verify name = tls_with T verify name None"

definition with_client_cert :: "'k tls_lib \<Rightarrow> tls_verify \<Rightarrow> rstr \<Rightarrow> rstr \<Rightarrow> rstr \<Rightarrow> rstr + 'k driver_tls" where
  "with_client_cert T verify name cert_file key_file = tls_with T verify name (Some (cert_file, key_file))"

section \<open>Handshakes\<close>

text \<open>A session of \<^verbatim>\<open>rustls\<close> and the socket it runs over. The loop may not end; then its value is \<open>None\<close>.\<close>

record ('q, 't) session_ops =
  is_handshaking :: "'q \<Rightarrow> bool"
  complete_io :: "'q \<Rightarrow> 't \<Rightarrow> io_error + 'q \<times> 't"

partial_function (option) handshake_loop :: "('q, 't) session_ops \<Rightarrow> 'q \<Rightarrow> 't \<Rightarrow> (io_error + 'q \<times> 't) option" where
  "handshake_loop S q t =
    (if is_handshaking S q
     then (case complete_io S q t of Inl e \<Rightarrow> Some (Inl e) | Inr (q, t) \<Rightarrow> handshake_loop S q t)
     else Some (Inr (q, t)))"

declare handshake_loop.simps [code]

definition connect_tls_stream :: "('q, 't) session_ops \<Rightarrow> (rstr \<Rightarrow> string option) \<Rightarrow> ('cfg \<Rightarrow> rstr \<Rightarrow> string + 'q) \<Rightarrow> 't \<Rightarrow> 'cfg \<Rightarrow> rstr
    \<Rightarrow> (io_error + 'q \<times> 't) option" where
  "connect_tls_stream S bad_name new t cfg name = (case bad_name name of
     Some e \<Rightarrow> Some (Inl (InvalidInput e))
   | None \<Rightarrow> (case new cfg name of Inl e \<Rightarrow> Some (Inl (OtherIo (''tls: '' @ e))) | Inr q \<Rightarrow> handshake_loop S q t))"

definition accept_tls_stream :: "('q, 't) session_ops \<Rightarrow> ('cfg \<Rightarrow> string + 'q) \<Rightarrow> ('t \<Rightarrow> 't) \<Rightarrow> 't \<Rightarrow> 'cfg \<Rightarrow> (io_error + 'q \<times> 't) option" where
  "accept_tls_stream S new nodelay t cfg = (let t = nodelay t in
     case new cfg of Inl e \<Rightarrow> Some (Inl (OtherIo (''tls: '' @ e))) | Inr q \<Rightarrow> handshake_loop S q t)"

section \<open>Lemmas\<close>

lemma then_try_Inr: "then_try r f = Inr y \<longleftrightarrow> (\<exists>x. r = Inr x \<and> f x = Inr y)"
  by (auto simp: then_try_def split: sum.split)

lemma add_roots_all: "add_roots T cs roots = Inr all \<longleftrightarrow> all = roots @ cs \<and> (\<forall>c \<in> set cs. refuse_root T c = None)"
  by (induction cs arbitrary: roots) (auto split: option.split)

lemma load_certs_Inr: "load_certs T path = Inr cs \<longleftrightarrow> pem_certs T path = Inr (Inr cs) \<and> cs \<noteq> []"
  by (auto simp: load_certs_def split: sum.splits if_splits)

lemma load_key_Inr: "load_key T path = Inr k \<longleftrightarrow> pem_key T path = Inr (Inr (Some k))"
  by (auto simp: load_key_def split: sum.splits option.splits)

lemma root_store_Inr: "root_store T path = Inr roots \<longleftrightarrow> pem_certs T path = Inr (Inr roots) \<and> roots \<noteq> [] \<and> (\<forall>c \<in> set roots. refuse_root T c = None)"
  by (auto simp: root_store_def then_try_Inr load_certs_Inr add_roots_all)

lemmas tls_results = then_try_Inr load_certs_Inr load_key_Inr root_store_Inr

lemma handshake_steps:
  fixes left :: "'q \<Rightarrow> nat"
  assumes "\<And>q t q' t'. is_handshaking S q \<Longrightarrow> complete_io S q t = Inr (q', t') \<Longrightarrow> left q' < left q"
  shows "\<exists>r. handshake_loop S q t = Some r \<and> (\<forall>q' t'. r = Inr (q', t') \<longrightarrow> \<not> is_handshaking S q')"
proof (induction "left q" arbitrary: q t rule: less_induct)
  case less
  show ?case
  proof (cases "is_handshaking S q")
    case False
    then show ?thesis by (subst handshake_loop.simps) simp
  next
    case True
    show ?thesis
    proof (cases "complete_io S q t")
      case (Inl e)
      then show ?thesis using True by (subst handshake_loop.simps) simp
    next
      case (Inr x)
      then obtain q' t' where x: "complete_io S q t = Inr (q', t')" by (cases x) auto
      then show ?thesis using True less[OF assms[OF True x], of t'] by (subst handshake_loop.simps) simp
    qed
  qed
qed

section \<open>Properties\<close>

text \<open>Whom a configuration must trust for what the caller asked: with a CA file exactly the certificates of that file, all of them
  acceptable roots.\<close>

definition trusts :: "'k tls_lib \<Rightarrow> tls_verify \<Rightarrow> server_check \<Rightarrow> bool" where
  "trusts T verify chk \<longleftrightarrow> (case verify of
     Insecure \<Rightarrow> chk = NoVerify
   | System \<Rightarrow> chk = TrustRoots (public_roots T)
   | CaFile ca \<Rightarrow> (\<exists>roots. chk = TrustRoots roots \<and> roots \<noteq> [] \<and> pem_certs T ca = Inr (Inr roots) \<and> (\<forall>c \<in> set roots. refuse_root T c = None)))"

text \<open>C37: The driver's TLS fails closed, with and without a client certificate: a configuration that skips verification is built only when the
  caller asked for one; with a CA file it trusts exactly the certificates of that file and else exactly the public roots, and a
  file that cannot be read, does not parse, is empty or holds a certificate the root store refuses gives an error and no
  configuration, an unreadable one the error that names it; it presents a client certificate exactly when one was given, with the
  certificates and the key of the files, and when one of these cannot be loaded, or they are refused, there is no configuration.\<close>

theorem tls_fails_closed:
  "(tls_config_new T verify name = Inr cfg \<longleftrightarrow> dt_server_name cfg = name \<and> trusts T verify (cc_check (dt_cfg cfg)) \<and> cc_auth (dt_cfg cfg) = None)
   \<and> (with_client_cert T verify name cert key = Inr cfg2 \<longleftrightarrow> dt_server_name cfg2 = name \<and> trusts T verify (cc_check (dt_cfg cfg2))
      \<and> (\<exists>certs k. cc_auth (dt_cfg cfg2) = Some (certs, k) \<and> certs \<noteq> [] \<and> pem_certs T cert = Inr (Inr certs) \<and> pem_key T key = Inr (Inr (Some k))
           \<and> refuse_client_cert T certs k = None))
   \<and> (pem_certs T ca = Inl e \<longrightarrow> tls_config_new T (CaFile ca) name = Inl (of_str ''open '' @ ca @ of_str '': '' @ e)
      \<and> with_client_cert T (CaFile ca) name cert key = Inl (of_str ''open '' @ ca @ of_str '': '' @ e))"
proof (intro conjI impI)
  show "tls_config_new T verify name = Inr cfg \<longleftrightarrow> dt_server_name cfg = name \<and> trusts T verify (cc_check (dt_cfg cfg)) \<and> cc_auth (dt_cfg cfg) = None"
    by (cases verify; cases cfg; cases "dt_cfg cfg")
      (auto simp: trusts_def tls_config_new_def tls_with_def client_config_for_def verify_of_def tls_results split: option.splits)
  show "with_client_cert T verify name cert key = Inr cfg2 \<longleftrightarrow> dt_server_name cfg2 = name \<and> trusts T verify (cc_check (dt_cfg cfg2))
      \<and> (\<exists>certs k. cc_auth (dt_cfg cfg2) = Some (certs, k) \<and> certs \<noteq> [] \<and> pem_certs T cert = Inr (Inr certs) \<and> pem_key T key = Inr (Inr (Some k))
           \<and> refuse_client_cert T certs k = None)"
    by (cases verify; cases cfg2; cases "dt_cfg cfg2")
      (auto simp: trusts_def with_client_cert_def tls_with_def client_config_for_def verify_of_def tls_results split: option.splits)
  assume "pem_certs T ca = Inl e"
  then show "tls_config_new T (CaFile ca) name = Inl (of_str ''open '' @ ca @ of_str '': '' @ e)"
    "with_client_cert T (CaFile ca) name cert key = Inl (of_str ''open '' @ ca @ of_str '': '' @ e)"
    by (simp_all add: tls_config_new_def with_client_cert_def tls_with_def client_config_for_def verify_of_def root_store_def load_certs_def then_try_def)
qed

definition sample_tls :: "nat tls_lib" where
  "sample_tls = \<lparr>pem_certs = (\<lambda>p. if p = [] then Inl [] else Inr (Inr [p])), pem_key = (\<lambda>p. Inr (Inr (Some (length p)))), refuse_root = (\<lambda>_. None),
     refuse_server_cert = (\<lambda>_ _. None), refuse_client_cert = (\<lambda>_ _. None), refuse_verifier = (\<lambda>_. None), public_roots = [[9]], default_tickets = 2\<rparr>"

theorem tls_fails_closed_witness:
  "tls_config_new sample_tls (CaFile [1]) [2] = Inr \<lparr>dt_cfg = \<lparr>cc_check = TrustRoots [[1]], cc_auth = None\<rparr>, dt_server_name = [2]\<rparr>
   \<and> with_client_cert sample_tls (CaFile [1]) [2] [3] [4] = Inr \<lparr>dt_cfg = \<lparr>cc_check = TrustRoots [[1]], cc_auth = Some ([[3]], 1)\<rparr>, dt_server_name = [2]\<rparr>
   \<and> with_client_cert sample_tls (CaFile []) [2] [3] [4] = Inl (of_str ''open : '')"
  using tls_fails_closed[of sample_tls "CaFile [1]" "[2]" "\<lparr>dt_cfg = \<lparr>cc_check = TrustRoots [[1]], cc_auth = None\<rparr>, dt_server_name = [2]\<rparr>"
      "[3]" "[4]" "\<lparr>dt_cfg = \<lparr>cc_check = TrustRoots [[1]], cc_auth = Some ([[3]], 1)\<rparr>, dt_server_name = [2]\<rparr>" "[]" "[]"]
  by (simp add: sample_tls_def trusts_def of_str_def)

text \<open>A server configured for mutual TLS demands a client certificate from one of the CA file's roots and sends no session tickets; the
  optional one asks for the same certificates and lets a client without one in; the plain one asks for none.\<close>

theorem server_configs_check:
  "(server_config_mtls T c k ca = Inr cfg \<longrightarrow> (\<exists>roots. sc_check cfg = RequireClient roots \<and> roots \<noteq> [] \<and> pem_certs T ca = Inr (Inr roots)) \<and> send_tls13_tickets cfg = 0)
   \<and> (server_config_optional_client_auth T c k ca = Inr cfg \<longrightarrow> (\<exists>roots. sc_check cfg = AllowUnauthenticated roots \<and> roots \<noteq> [] \<and> pem_certs T ca = Inr (Inr roots)))
   \<and> (server_config_plain T c k = Inr cfg \<longrightarrow> sc_check cfg = NoClientAuth)"
  by (auto simp: server_config_mtls_def server_config_optional_client_auth_def server_config_plain_def tls_results client_verifier_def with_single_cert_def
      split: option.splits)

text \<open>When every round of the handshake brings it closer to its end, connecting over TLS returns, and a stream it returns has finished
  its handshake.\<close>

theorem tls_handshake_ends:
  fixes left :: "'q \<Rightarrow> nat"
  assumes "\<And>q t q' t'. is_handshaking S q \<Longrightarrow> complete_io S q t = Inr (q', t') \<Longrightarrow> left q' < left q"
  shows "\<exists>r. connect_tls_stream S bad_name new t cfg name = Some r \<and> (\<forall>q' t'. r = Inr (q', t') \<longrightarrow> \<not> is_handshaking S q')"
  using handshake_steps[of S left, OF assms] by (auto simp: connect_tls_stream_def split: option.split sum.split)

theorem tls_handshake_ends_witness:
  "connect_tls_stream \<lparr>is_handshaking = (\<lambda>q. q \<noteq> 0), complete_io = (\<lambda>q t. Inr (q - 1, t @ [q]))\<rparr> (\<lambda>_. None) (\<lambda>_ _. Inr (2::nat)) [] () [] = Some (Inr (0, [2, 1]))
   \<and> (\<exists>r. connect_tls_stream \<lparr>is_handshaking = (\<lambda>q. q \<noteq> 0), complete_io = (\<lambda>q t. Inr (q - 1, t @ [q]))\<rparr> (\<lambda>_. None) (\<lambda>_ _. Inr (5::nat)) [] () [] = Some r)"
proof
  let ?S = "\<lparr>is_handshaking = (\<lambda>q. q \<noteq> 0), complete_io = (\<lambda>q t. Inr (q - 1, t @ [q]))\<rparr> :: (nat, nat list) session_ops"
  show "connect_tls_stream ?S (\<lambda>_. None) (\<lambda>_ _. Inr (2::nat)) [] () [] = Some (Inr (0, [2, 1]))"
    by (simp add: connect_tls_stream_def handshake_loop.simps)
  show "\<exists>r. connect_tls_stream ?S (\<lambda>_. None) (\<lambda>_ _. Inr (5::nat)) [] () [] = Some r"
    using tls_handshake_ends[of ?S id "\<lambda>_. None" "\<lambda>_ _. Inr (5::nat)" "[]" "()" "[]"] by force
qed

end
