(* ===== verification/C_Memory.thy ===== *)
theory C_Memory
  imports Batch Row_Stream Checkout Closure_Pool Decimal_Text Tls_Config
begin

text \<open>
  The C interface (\<^verbatim>\<open>skaidb-ffi/src/lib.rs\<close>): its types, the objects it hands out and the helpers every call is built
  from. The heap maps addresses to boxes; a pointer is an address with a place inside its box, or one of the two
  thread-local texts, which carry the turn they were handed out in. What Rust leaves undefined (a dangling pointer, a
  pointer of another type, an array that is too short) is the outcome \<open>UB\<close>; a C string is the bytes before its terminator,
  an absent one \<^verbatim>\<open>NULL\<close>. One thread is modelled.
\<close>

section \<open>Types\<close>

datatype skaidb_status =
  SKAIDB_OK | SKAIDB_END | SKAIDB_ERR_INVALID | SKAIDB_ERR_IO | SKAIDB_ERR_PROTO | SKAIDB_ERR_SERVER
| SKAIDB_ERR_AUTH | SKAIDB_ERR_NO_ENDPOINT | SKAIDB_ERR_UNSUPPORTED

datatype skaidb_consistency = SKAIDB_ONE | SKAIDB_QUORUM | SKAIDB_ALL

datatype skaidb_tls_verify = SKAIDB_TLS_CA_FILE | SKAIDB_TLS_SYSTEM | SKAIDB_TLS_INSECURE

type_synonym c_str = "bytes option"

record skaidb_tls =
  c_verify :: skaidb_tls_verify
  c_ca_file :: c_str
  c_server_name :: c_str

datatype skaidb_result_kind =
  SKAIDB_RESULT_ROWS | SKAIDB_RESULT_MUTATION | SKAIDB_RESULT_DDL | SKAIDB_RESULT_ERROR | SKAIDB_RESULT_SETS

datatype skaidb_value_type =
  SKAIDB_NULL | SKAIDB_BOOL | SKAIDB_INT | SKAIDB_FLOAT | SKAIDB_DECIMAL | SKAIDB_STRING | SKAIDB_BYTES
| SKAIDB_UUID | SKAIDB_TIMESTAMP | SKAIDB_ARRAY | SKAIDB_DOCUMENT

record row_set =
  set_columns :: "bytes list"
  set_rows :: "row list"

datatype skaidb_result = RRows row_set | RMutation u64 | RDdl | RError bytes | RSets "skaidb_result list"

text \<open>The borrowed client is its address; \<open>s_turn\<close> counts the rows that have been handed out.\<close>

record skaidb_stream =
  s_client :: nat
  s_stream :: row_stream
  s_columns :: "bytes list"
  s_past_columns :: "bytes list list"
  s_current :: row
  s_turn :: nat

text \<open>A pool is the closure pool with the arguments its closure captured, or the address of a balancer, which the
  connections share.\<close>

record factory_args =
  fa_endpoints :: "rstr list"
  fa_username :: rstr
  fa_password :: rstr
  fa_tls :: "tls_config option"
  fa_database :: "rstr option"

datatype 's skaidb_pool = Factory factory_args "'s client factory" | Balanced nat

record skaidb_member =
  c_endpoint :: bytes
  c_canonical :: "bytes option"
  c_state :: bytes
  c_latency_ms :: f64
  c_in_use :: nat
  c_idle :: nat
  c_seed :: bool

record 'f skaidb_pool_options =
  o_maxsize :: nat
  o_load_balancing :: int
  o_idle_order :: int
  o_discover :: bool
  o_refresh_interval_ms :: u64
  o_read_your_writes_ms :: u64
  o_eject_errors :: u32
  o_eject_latency_factor :: 'f
  o_eject_latency_floor_ms :: u64
  o_eject_backoff_ms :: u64
  o_eject_backoff_max_ms :: u64

definition pool_options_default :: "'f \<Rightarrow> 'f skaidb_pool_options" where
  "pool_options_default three = \<lparr>o_maxsize = 10, o_load_balancing = 0, o_idle_order = 0, o_discover = False,
     o_refresh_interval_ms = 60000, o_read_your_writes_ms = 0, o_eject_errors = 3, o_eject_latency_factor = three,
     o_eject_latency_floor_ms = 50, o_eject_backoff_ms = 5000, o_eject_backoff_max_ms = 60000\<rparr>"

section \<open>Memory\<close>

datatype 's c_box =
    ClientBox "'s client"
  | PreparedBox prepared
  | ValueBox val
  | ResultBox skaidb_result
  | ResultsBox "skaidb_result list"
  | StreamBox skaidb_stream
  | PoolBox "'s skaidb_pool"
  | MembersBox "skaidb_member list"
  | StringBox bytes

datatype place = AtItem nat | AtEntry nat | AtCell nat nat | AtSet nat | AtResult nat | AtRow nat nat | AtName nat nat | AtError | AtMember nat

datatype ptr = Null | Ref nat "place list" | ErrorText nat | KeyText nat | StaticText bytes

record ('s, 'f) shared =
  sh_conf :: pool_conf
  sh_opts :: "'f pool_options"
  sh_state :: "('s, 'f) balancer_state"

record ('w, 's, 'f) c_state =
  boxes :: "nat \<Rightarrow> 's c_box option"
  brk :: nat
  last_error :: bytes
  error_turn :: nat
  key_scratch :: bytes
  key_turn :: nat
  process :: "'w process"
  balancers :: "nat \<Rightarrow> ('s, 'f) shared option"

type_synonym ('w, 's, 'f, 'a) c_op = "(('w, 's, 'f) c_state, skaidb_status, 'a) op"

definition undefined_behaviour :: "'e fault" where
  "undefined_behaviour = Panic ''undefined behaviour''"

abbreviation UB :: "('w, 's, 'f, 'a) c_op" where
  "UB \<equiv> slift (Inl undefined_behaviour)"

definition alloc :: "'s c_box \<Rightarrow> ('w, 's, 'f) c_state \<Rightarrow> nat \<times> ('w, 's, 'f) c_state" where
  "alloc b st = (brk st, st\<lparr>boxes := (boxes st)(brk st := Some b), brk := Suc (brk st)\<rparr>)"

definition put_box :: "nat \<Rightarrow> 's c_box \<Rightarrow> ('w, 's, 'f) c_state \<Rightarrow> ('w, 's, 'f) c_state" where
  "put_box a b st = st\<lparr>boxes := (boxes st)(a := Some b)\<rparr>"

definition clear_box :: "nat \<Rightarrow> ('w, 's, 'f) c_state \<Rightarrow> ('w, 's, 'f) c_state" where
  "clear_box a st = st\<lparr>boxes := (boxes st)(a := None)\<rparr>"

text \<open>\<^verbatim>\<open>&*p\<close> for a handle: the address and what the box there holds.\<close>

definition whole :: "('s c_box \<Rightarrow> 'x option) \<Rightarrow> ptr \<Rightarrow> ('w, 's, 'f, nat \<times> 'x) c_op" where
  "whole proj p st = (case p of
     Ref a [] \<Rightarrow> (case Option.bind (boxes st a) proj of Some x \<Rightarrow> (Inr (a, x), st) | None \<Rightarrow> UB st)
   | _ \<Rightarrow> UB st)"

definition as_client :: "'s c_box \<Rightarrow> 's client option" where
  "as_client b = (case b of ClientBox c \<Rightarrow> Some c | _ \<Rightarrow> None)"
definition as_prepared :: "'s c_box \<Rightarrow> prepared option" where
  "as_prepared b = (case b of PreparedBox c \<Rightarrow> Some c | _ \<Rightarrow> None)"
definition as_value :: "'s c_box \<Rightarrow> val option" where
  "as_value b = (case b of ValueBox c \<Rightarrow> Some c | _ \<Rightarrow> None)"
definition as_result :: "'s c_box \<Rightarrow> skaidb_result option" where
  "as_result b = (case b of ResultBox c \<Rightarrow> Some c | _ \<Rightarrow> None)"
definition as_results :: "'s c_box \<Rightarrow> skaidb_result list option" where
  "as_results b = (case b of ResultsBox c \<Rightarrow> Some c | _ \<Rightarrow> None)"
definition as_stream :: "'s c_box \<Rightarrow> skaidb_stream option" where
  "as_stream b = (case b of StreamBox c \<Rightarrow> Some c | _ \<Rightarrow> None)"
definition as_pool :: "'s c_box \<Rightarrow> 's skaidb_pool option" where
  "as_pool b = (case b of PoolBox c \<Rightarrow> Some c | _ \<Rightarrow> None)"
definition as_members :: "'s c_box \<Rightarrow> skaidb_member list option" where
  "as_members b = (case b of MembersBox c \<Rightarrow> Some c | _ \<Rightarrow> None)"
definition as_string :: "'s c_box \<Rightarrow> bytes option" where
  "as_string b = (case b of StringBox c \<Rightarrow> Some c | _ \<Rightarrow> None)"

lemmas as_defs = as_client_def as_prepared_def as_value_def as_result_def as_results_def as_stream_def as_pool_def as_members_def
  as_string_def

text \<open>\<^verbatim>\<open>Box::from_raw\<close> and the free of a box that owns nothing else: \<^verbatim>\<open>NULL\<close> is fine.\<close>

definition from_raw :: "('s c_box \<Rightarrow> 'x option) \<Rightarrow> ptr \<Rightarrow> ('w, 's, 'f, 'x) c_op" where
  "from_raw proj p = sbind (whole proj p) (\<lambda>(a, x) st. (Inr x, clear_box a st))"

definition free_box :: "('s c_box \<Rightarrow> 'x option) \<Rightarrow> ptr \<Rightarrow> ('w, 's, 'f, unit) c_op" where
  "free_box proj p = (if p = Null then sret () else sbind (from_raw proj p) (\<lambda>_. sret ()))"

section \<open>The error channel\<close>

definition set_error :: "bytes \<Rightarrow> ('w, 's, 'f) c_state \<Rightarrow> ('w, 's, 'f) c_state" where
  "set_error msg st = st\<lparr>last_error := (if 0 \<in> set msg then of_str ''error message held a NUL byte'' else msg),
     error_turn := Suc (error_turn st)\<rparr>"

definition fail :: "skaidb_status \<Rightarrow> bytes \<Rightarrow> ('w, 's, 'f, skaidb_status) c_op" where
  "fail status msg st = (Inr status, set_error msg st)"

text \<open>\<^verbatim>\<open>Err(fail(...))\<close>, and \<^verbatim>\<open>return\<close> of the status an \<^verbatim>\<open>Err\<close> carries.\<close>

definition throw :: "('w, 's, 'f, skaidb_status) c_op \<Rightarrow> ('w, 's, 'f, 'a) c_op" where
  "throw m = sbind m (\<lambda>s. slift (Inl (Err s)))"

definition catch :: "('w, 's, 'f, skaidb_status) c_op \<Rightarrow> ('w, 's, 'f, skaidb_status) c_op" where
  "catch m st = (case m st of (Inl (Err s), st) \<Rightarrow> (Inr s, st) | other \<Rightarrow> other)"

definition contains :: "rstr \<Rightarrow> rstr \<Rightarrow> bool" where
  "contains needle s = list_ex (\<lambda>i. take (length needle) (drop i s) = needle) [0..<Suc (length s)]"

definition driver_status :: "driver_error \<Rightarrow> skaidb_status" where
  "driver_status e = (case e of
     Io _ \<Rightarrow> SKAIDB_ERR_IO
   | Proto _ \<Rightarrow> SKAIDB_ERR_PROTO
   | Server _ \<Rightarrow> SKAIDB_ERR_SERVER
   | Auth m \<Rightarrow> (if contains (of_str ''without Kerberos'') m then SKAIDB_ERR_UNSUPPORTED else SKAIDB_ERR_AUTH)
   | NoEndpoint _ \<Rightarrow> SKAIDB_ERR_NO_ENDPOINT)"

definition fail_driver :: "('w, 't, 's, 'h, 'f) env \<Rightarrow> driver_error \<Rightarrow> ('w, 's, 'f, skaidb_status) c_op" where
  "fail_driver E e = fail (driver_status e) (display E e)"

section \<open>Arguments\<close>

definition cstr :: "c_str \<Rightarrow> string \<Rightarrow> ('w, 's, 'f, rstr) c_op" where
  "cstr p what = (case p of
     None \<Rightarrow> throw (fail SKAIDB_ERR_INVALID (of_str what @ of_str '' is NULL''))
   | Some mem \<Rightarrow> (let s = takeWhile (\<lambda>b. b \<noteq> 0) mem in
       if utf8_ok s then sret s else throw (fail SKAIDB_ERR_INVALID (of_str what @ of_str '' is not valid UTF-8''))))"

definition cstr_opt :: "c_str \<Rightarrow> string \<Rightarrow> ('w, 's, 'f, rstr option) c_op" where
  "cstr_opt p what = (if p = None then sret None else sbind (cstr p what) (\<lambda>s. sret (Some s)))"

text \<open>\<^verbatim>\<open>for i in 0..n\<close> over a C array.\<close>

primrec each :: "('x \<Rightarrow> nat \<Rightarrow> ('w, 's, 'f, 'a) c_op) \<Rightarrow> 'x list \<Rightarrow> nat list \<Rightarrow> ('w, 's, 'f, 'a list) c_op" where
  "each f items [] = sret []"
| "each f items (i # is) = (if i < length items
     then sbind (f (items ! i) i) (\<lambda>x. sbind (each f items is) (\<lambda>xs. sret (x # xs))) else UB)"

definition cstr_list :: "c_str list option \<Rightarrow> nat \<Rightarrow> string \<Rightarrow> ('w, 's, 'f, rstr list) c_op" where
  "cstr_list items n what =
    (if n = 0 then sret []
     else case items of
       None \<Rightarrow> throw (fail SKAIDB_ERR_INVALID (of_str what @ of_str '' is NULL''))
     | Some items \<Rightarrow> each (\<lambda>p _. cstr p what) items [0..<n])"

text \<open>A configuration is a handle here; what \<^verbatim>\<open>TlsConfig::new\<close> builds is in \<open>Tls_Config\<close>, where it is a value. Reading its files
  may change the world.\<close>

type_synonym 'w tls_new = "tls_verify \<Rightarrow> rstr \<Rightarrow> 'w \<Rightarrow> (driver_error + tls_config) \<times> 'w"

definition tls_config_of :: "('w, 't, 's, 'h, 'f) env \<Rightarrow> 'w tls_new \<Rightarrow> skaidb_tls option \<Rightarrow> ('w, 's, 'f, tls_config option) c_op" where
  "tls_config_of E tls_new tls = (case tls of
     None \<Rightarrow> sret None
   | Some t \<Rightarrow>
       sbind (cstr (c_server_name t) ''tls.server_name'') (\<lambda>server_name.
       sbind (case c_verify t of
           SKAIDB_TLS_CA_FILE \<Rightarrow> sbind (cstr (c_ca_file t) ''tls.ca_file'') (\<lambda>f. sret (CaFile f))
         | SKAIDB_TLS_SYSTEM \<Rightarrow> sret System
         | SKAIDB_TLS_INSECURE \<Rightarrow> sret Insecure) (\<lambda>verify st.
       (let (r, w) = tls_new verify server_name (world (process st)); st = st\<lparr>process := (process st)\<lparr>world := w\<rparr>\<rparr> in
        case r of Inr cfg \<Rightarrow> (Inr (Some cfg), st) | Inl e \<Rightarrow> throw (fail_driver E e) st))))"

definition consistency_of :: "skaidb_consistency \<Rightarrow> consistency" where
  "consistency_of c = (case c of SKAIDB_ONE \<Rightarrow> One | SKAIDB_QUORUM \<Rightarrow> Quorum | SKAIDB_ALL \<Rightarrow> CAll)"

definition c_string_lossy :: "rstr \<Rightarrow> bytes" where
  "c_string_lossy s = (if 0 \<in> set s then concat (map (\<lambda>b. if b = 0 then [0xEF, 0xBF, 0xBD] else [b]) s) else s)"

definition dup :: "rstr \<Rightarrow> ('w, 's, 'f, ptr) c_op" where
  "dup s st = (let (a, st) = alloc (StringBox (c_string_lossy s)) st in (Inr (Ref a []), st))"

text \<open>The status and what is written to \<^verbatim>\<open>*out\<close>, if anything.\<close>

definition boxed :: "bool \<Rightarrow> ('w, 's, 'f, 's c_box) c_op \<Rightarrow> ('w, 's, 'f, skaidb_status \<times> ptr option) c_op" where
  "boxed out_is_null f st =
    (if out_is_null then sbind (fail SKAIDB_ERR_INVALID (of_str ''out is NULL'')) (\<lambda>s. sret (s, None)) st
     else case f st of
       (Inr b, st) \<Rightarrow> (let (a, st) = alloc b st in (Inr (SKAIDB_OK, Some (Ref a [])), st))
     | (Inl (Err s), st) \<Rightarrow> (Inr (s, None), st)
     | (Inl (Panic m), st) \<Rightarrow> (Inl (Panic m), st)
     | (Inl OutOfFuel, st) \<Rightarrow> (Inl OutOfFuel, st))"

section \<open>The library's own calls\<close>

definition skaidb_version :: "('w, 't, 's, 'h, 'f) env \<Rightarrow> ptr" where
  "skaidb_version E = StaticText (pkg_version E)"

definition skaidb_last_error :: "('w, 's, 'f) c_state \<Rightarrow> ptr" where
  "skaidb_last_error st = ErrorText (error_turn st)"

definition skaidb_string_free :: "ptr \<Rightarrow> ('w, 's, 'f, unit) c_op" where
  "skaidb_string_free s = free_box as_string s"

end
