(* ===== verification/Double.thy ===== *)
theory Double
  imports Key_Encoding
begin

text \<open>
  Doubles as numbers, and the exact comparison of integers with them (\<^verbatim>\<open>cmp_i64_f64\<close> and \<^verbatim>\<open>i64_is_exact_f64\<close> of
  \<^verbatim>\<open>skaidb-types/src/value.rs\<close>). A double is its bit pattern; every finite double is a whole number of units of
  \<open>2 ^ -1074\<close>, and an infinity counts as the double after the largest one. What Rust computes with doubles here (comparison,
  subtraction, \<^verbatim>\<open>trunc\<close> and the casts) is defined on that number, rounding to nearest, ties to even. The equality of
  doubles is what the exact keys of values are measured against.
\<close>

section \<open>Bits and numbers\<close>

definition UNITS :: nat where "UNITS = 2 ^ 1074"
definition UNIT :: int where "UNIT = int UNITS"

definition f64_neg :: "f64 \<Rightarrow> bool" where
  "f64_neg f \<longleftrightarrow> 2 ^ 63 \<le> unat f"

definition f64_mag :: "f64 \<Rightarrow> nat" where
  "f64_mag f = unat f mod 2 ^ 63"

definition INF_MAG :: nat where "INF_MAG = 2047 * 2 ^ 52"

definition f64_is_nan :: "f64 \<Rightarrow> bool" where
  "f64_is_nan f \<longleftrightarrow> INF_MAG < f64_mag f"

definition f64_is_finite :: "f64 \<Rightarrow> bool" where
  "f64_is_finite f \<longleftrightarrow> f64_mag f < INF_MAG"

definition mag_units :: "nat \<Rightarrow> nat" where
  "mag_units M = (let e = M div 2 ^ 52; m = M mod 2 ^ 52 in if e = 0 then m else (2 ^ 52 + m) * 2 ^ (e - 1))"

definition f64_units :: "f64 \<Rightarrow> int" where
  "f64_units f = (if f64_neg f then - int (mag_units (f64_mag f)) else int (mag_units (f64_mag f)))"

fun bit_len :: "nat \<Rightarrow> nat" where
  "bit_len n = (if n = 0 then 0 else Suc (bit_len (n div 2)))"

declare bit_len.simps [simp del]

definition round_mag :: "nat \<Rightarrow> nat" where
  "round_mag a =
    (let k = bit_len a - 53; q = a div 2 ^ k; r = a mod 2 ^ k;
         q = (if 2 ^ k < 2 * r \<or> 2 * r = 2 ^ k \<and> odd q then q + 1 else q)
     in min (k * 2 ^ 52 + q) INF_MAG)"

definition f64_make :: "bool \<Rightarrow> nat \<Rightarrow> f64" where
  "f64_make neg M = word_of_nat (if neg then 2 ^ 63 + M else M)"

definition f64_of_units :: "int \<Rightarrow> f64" where
  "f64_of_units x = f64_make (x < 0) (round_mag (nat \<bar>x\<bar>))"

section \<open>Operations of the language\<close>

definition f64_partial_cmp :: "f64 \<Rightarrow> f64 \<Rightarrow> ordering option" where
  "f64_partial_cmp a b = (if f64_is_nan a \<or> f64_is_nan b then None else Some (ord_cmp (f64_units a) (f64_units b)))"

definition f64_lt :: "f64 \<Rightarrow> f64 \<Rightarrow> bool" where
  "f64_lt a b \<longleftrightarrow> f64_partial_cmp a b = Some Less"

definition f64_ge :: "f64 \<Rightarrow> f64 \<Rightarrow> bool" where
  "f64_ge a b \<longleftrightarrow> f64_partial_cmp a b = Some Greater \<or> f64_partial_cmp a b = Some Equal"

definition F64_NAN :: f64 where "F64_NAN = 0x7FF8000000000000"

definition f64_sub :: "f64 \<Rightarrow> f64 \<Rightarrow> f64" where
  "f64_sub a b =
    (if f64_is_nan a \<or> f64_is_nan b then F64_NAN
     else if f64_is_finite a \<and> f64_is_finite b then f64_of_units (f64_units a - f64_units b)
     else if f64_is_finite b then a
     else if f64_is_finite a then f64_make (\<not> f64_neg b) INF_MAG
     else if f64_neg a = f64_neg b then F64_NAN else a)"

definition f64_trunc :: "f64 \<Rightarrow> f64" where
  "f64_trunc f = (if f64_is_finite f
     then f64_make (f64_neg f) (round_mag (mag_units (f64_mag f) div UNITS * UNITS)) else f)"

text \<open>The casts to integers truncate toward zero and saturate; a NaN is 0.\<close>

definition saturate :: "nat \<Rightarrow> int \<Rightarrow> int" where
  "saturate w x = max (- (2 ^ (w - 1))) (min (2 ^ (w - 1) - 1) x)"

definition f64_as_int :: "nat \<Rightarrow> f64 \<Rightarrow> int" where
  "f64_as_int w f = (if f64_is_nan f then 0 else saturate w (f64_units f sdiv UNIT))"

definition f64_as_i64 :: "f64 \<Rightarrow> i64" where
  "f64_as_i64 f = word_of_int (f64_as_int 64 f)"

definition i64_as_f64 :: "i64 \<Rightarrow> f64" where
  "i64_as_f64 i = f64_of_units (sint i * UNIT)"

section \<open>Comparing integers with doubles\<close>

definition TWO_63 :: f64 where "TWO_63 = 0x43E0000000000000"
definition MINUS_TWO_63 :: f64 where "MINUS_TWO_63 = 0xC3E0000000000000"

definition cmp_i64_f64 :: "i64 \<Rightarrow> f64 \<Rightarrow> ordering option" where
  "cmp_i64_f64 i f =
    (if f64_is_nan f then None
     else if f64_ge f TWO_63 then Some Less
     else if f64_lt f MINUS_TWO_63 then Some Greater
     else let whole = f64_trunc f in
       Some (case ord_cmp (sint i) (sint (f64_as_i64 whole)) of
               Equal \<Rightarrow> (case f64_partial_cmp 0 (f64_sub f whole) of Some x \<Rightarrow> x | None \<Rightarrow> Equal)
             | other \<Rightarrow> other))"

definition i64_is_exact_f64 :: "i64 \<Rightarrow> bool" where
  "i64_is_exact_f64 i \<longleftrightarrow> f64_as_int 128 (i64_as_f64 i) = sint i"

section \<open>Rounding\<close>

lemma bit_len_0 [simp]: "bit_len 0 = 0"
  by (simp add: bit_len.simps)

lemma pos2: "0 < (2 :: nat)"
  by simp

lemma bit_len_bounds: "n \<noteq> 0 \<Longrightarrow> 2 ^ (bit_len n - 1) \<le> n \<and> 0 < bit_len n" "n < 2 ^ bit_len n"
proof -
  have "n < 2 ^ bit_len n \<and> (n \<noteq> 0 \<longrightarrow> 2 ^ (bit_len n - 1) \<le> n \<and> 0 < bit_len n)"
  proof (induction n rule: bit_len.induct)
    case (1 n)
    show ?case
    proof (cases "n < 2")
      case True
      then consider "n = 0" | "n = 1" by linarith
      then show ?thesis by cases (simp_all add: bit_len.simps)
    next
      case False
      with 1 have i: "n div 2 < 2 ^ bit_len (n div 2)" "2 ^ (bit_len (n div 2) - 1) \<le> n div 2" "0 < bit_len (n div 2)" by auto
      obtain j where j: "bit_len (n div 2) = Suc j" using i(3) gr0_implies_Suc by blast
      have "n < 4 * 2 ^ j \<and> 2 * 2 ^ j \<le> n" using i(1,2) unfolding j by simp linarith
      then show ?thesis using j False by (simp add: bit_len.simps[of n])
    qed
  qed
  then show "n \<noteq> 0 \<Longrightarrow> 2 ^ (bit_len n - 1) \<le> n \<and> 0 < bit_len n" "n < 2 ^ bit_len n" by blast+
qed

lemma mag_units_shift:
  assumes "k = 0 \<or> 2 ^ 52 \<le> q" and "q \<le> 2 ^ 53"
  shows "mag_units (k * 2 ^ 52 + q) = q * 2 ^ k"
proof -
  consider "q < 2 ^ 52" | "2 ^ 52 \<le> q" "q < 2 ^ 53" | "q = 2 ^ 53" using assms(2) by linarith
  then show ?thesis
  proof cases
    case 1
    then show ?thesis using assms(1) by (simp add: mag_units_def)
  next
    case 2
    then obtain m where m: "q = 2 ^ 52 + m" "m < 2 ^ 52" using le_Suc_ex[of "2 ^ 52" q] by auto
    then have "(k * 2 ^ 52 + q) div 2 ^ 52 = k + 1" "(k * 2 ^ 52 + q) mod 2 ^ 52 = m" by simp_all
    then show ?thesis using m(1) by (simp add: mag_units_def)
  next
    case 3
    then have "(k * 2 ^ 52 + q) div 2 ^ 52 = k + 2" "(k * 2 ^ 52 + q) mod 2 ^ 52 = 0" by simp_all
    then show ?thesis using 3 by (simp add: mag_units_def)
  qed
qed

text \<open>The quotient that is rounded has 53 bits, or all of them when there are fewer.\<close>

lemma round_quotient:
  assumes "k = bit_len a - 53"
  shows "a div 2 ^ k < 2 ^ 53" "k = 0 \<or> 2 ^ 52 \<le> a div 2 ^ k"
proof -
  show "a div 2 ^ k < 2 ^ 53"
  proof (cases "k = 0")
    case True
    then have "a < 2 ^ bit_len a" "bit_len a \<le> 53" using bit_len_bounds(2) assms by auto
    then have "a < 2 ^ 53" using power_increasing[of "bit_len a" 53 "2 :: nat"] by linarith
    then show ?thesis using True by simp
  next
    case False
    then have "bit_len a = 53 + k" using assms by simp
    then have "a < 2 ^ 53 * 2 ^ k" using bit_len_bounds(2)[of a] by (simp only: power_add)
    then show ?thesis by (simp only: less_mult_imp_div_less)
  qed
  show "k = 0 \<or> 2 ^ 52 \<le> a div 2 ^ k"
  proof (rule disjCI)
    assume "\<not> 2 ^ 52 \<le> a div 2 ^ k"
    then have "a < 2 ^ 52 * 2 ^ k" by (simp only: not_le div_less_iff_less_mult zero_less_power pos2)
    show "k = 0"
    proof (rule ccontr)
      assume "k \<noteq> 0"
      then have "bit_len a - 1 = 52 + k" "a \<noteq> 0" using assms by (cases "a = 0"; simp)+
      then have "2 ^ 52 * 2 ^ k \<le> a" using bit_len_bounds(1)[of a] by (metis power_add)
      with \<open>a < 2 ^ 52 * 2 ^ k\<close> show False by simp
    qed
  qed
qed

text \<open>A number of at most 53 significant bits is not changed.\<close>

lemma mag_bound: "M \<le> INF_MAG \<Longrightarrow> M < 2 ^ 63"
  by (simp add: INF_MAG_def)

lemma round_mag_le: "round_mag a \<le> INF_MAG"
  by (simp add: round_mag_def Let_def)

lemma round_mag_exact:
  assumes "q < 2 ^ 53" and "q * 2 ^ j < 2 ^ 2098"
  shows "mag_units (round_mag (q * 2 ^ j)) = q * 2 ^ j" "round_mag (q * 2 ^ j) < INF_MAG"
proof -
  let ?a = "q * 2 ^ j" and ?k = "bit_len (q * 2 ^ j) - 53"
  note b = round_quotient[OF refl, of ?a]
  have "?k \<le> j"
  proof (rule ccontr)
    assume n: "\<not> ?k \<le> j"
    then have "0 < bit_len ?a - 53" by linarith
    then have "bit_len ?a - 1 = 52 + ?k" "bit_len ?a \<noteq> 0" by linarith+
    then have "?a \<noteq> 0" "bit_len ?a - 1 = 52 + ?k" using bit_len_0 by metis+
    then have "2 ^ (52 + ?k) \<le> ?a" using bit_len_bounds(1)[of ?a] by metis
    moreover have "?a < 2 ^ (53 + j)" using assms(1) by (simp only: power_add mult_less_cancel2 zero_less_power pos2)
    moreover have "2 ^ (53 + j) \<le> (2 :: nat) ^ (52 + ?k)" using n by (intro power_increasing) auto
    ultimately show False by (meson leD le_less_trans less_le_trans)
  qed
  then have d: "2 ^ ?k dvd ?a" by (simp add: dvd_mult le_imp_power_dvd)
  have less: "?k < 2046"
  proof (rule ccontr)
    assume n: "\<not> ?k < 2046"
    then have "2 ^ 52 \<le> ?a div 2 ^ ?k" using b(2) by auto
    then have "2 ^ (52 + ?k) \<le> ?a" by (simp only: less_eq_div_iff_mult_less_eq zero_less_power pos2 power_add)
    moreover have "(2 :: nat) ^ 2098 \<le> 2 ^ (52 + ?k)" using n by (intro power_increasing) auto
    ultimately show False using assms(2) by (meson leD le_less_trans less_le_trans)
  qed
  then have "?k * 2 ^ 52 + ?a div 2 ^ ?k < INF_MAG" using b(1) by (simp add: INF_MAG_def)
  moreover have "round_mag ?a = min (?k * 2 ^ 52 + ?a div 2 ^ ?k) INF_MAG"
    unfolding round_mag_def Let_def using d by (simp add: dvd_eq_mod_eq_0)
  ultimately have r: "round_mag ?a = ?k * 2 ^ 52 + ?a div 2 ^ ?k" "round_mag ?a < INF_MAG" by simp_all
  show "mag_units (round_mag ?a) = ?a" unfolding r(1) using mag_units_shift[OF b(2)] b(1) d by simp
  show "round_mag ?a < INF_MAG" by (rule r(2))
qed

section \<open>Numbers that are doubles\<close>

lemma make_facts: "M < 2 ^ 63 \<Longrightarrow> f64_mag (f64_make n M) = M" "M < 2 ^ 63 \<Longrightarrow> f64_neg (f64_make n M) = n"
  by (simp_all add: f64_mag_def f64_neg_def f64_make_def unat_of_nat)

lemma round_small: "round_mag a < 2 ^ 63"
  by (rule mag_bound[OF round_mag_le])

lemmas make_round [simp] = make_facts[OF round_small]

lemma make_not_nan [simp]: "\<not> f64_is_nan (f64_make n (round_mag a))"
  using round_mag_le[of a] by (simp add: f64_is_nan_def)

lemma units_make: "M < 2 ^ 63 \<Longrightarrow> f64_units (f64_make n M) = (if n then - int (mag_units M) else int (mag_units M))"
  by (simp only: f64_units_def make_facts)

lemma of_units_not_nan [simp]: "\<not> f64_is_nan (f64_of_units x)"
  by (simp add: f64_of_units_def)

definition dyadic :: "nat \<Rightarrow> bool" where
  "dyadic a \<longleftrightarrow> (\<exists>q j. a = q * 2 ^ j \<and> q < 2 ^ 53 \<and> a < 2 ^ 2098)"

lemma round_dyadic: "dyadic a \<Longrightarrow> mag_units (round_mag a) = a \<and> round_mag a < INF_MAG"
  using round_mag_exact unfolding dyadic_def by blast

lemma units_round_dyadic: "dyadic a \<Longrightarrow> f64_units (f64_make n (round_mag a)) = (if n then - int a else int a)"
  by (simp only: units_make[OF round_small] round_dyadic)

lemma of_units_dyadic: "dyadic (nat \<bar>x\<bar>) \<Longrightarrow> f64_units (f64_of_units x) = x \<and> f64_is_finite (f64_of_units x)"
  using round_dyadic[of "nat \<bar>x\<bar>"] by (simp add: f64_of_units_def units_round_dyadic f64_is_finite_def)

lemma finite_dyadic:
  assumes "M < INF_MAG"
  shows "dyadic (mag_units M)"
proof -
  have e: "M div 2 ^ 52 < 2047" using assms by (simp only: INF_MAG_def less_mult_imp_div_less)
  have m: "M mod 2 ^ 52 < 2 ^ 52" by simp
  show ?thesis
  proof (cases "M div 2 ^ 52 = 0")
    case True
    have "(2 :: nat) ^ 52 \<le> 2 ^ 53" "(2 :: nat) ^ 52 \<le> 2 ^ 2098" by (rule power_increasing; simp)+
    then have "M mod 2 ^ 52 < 2 ^ 53" "M mod 2 ^ 52 < 2 ^ 2098" using m by (meson less_le_trans)+
    then show ?thesis unfolding dyadic_def using True
      by (intro exI[of _ "M mod 2 ^ 52"] exI[of _ 0]) (simp only: mag_units_def Let_def if_True power_0 mult_1_right simp_thms)
  next
    case False
    let ?q = "2 ^ 52 + M mod 2 ^ 52" and ?j = "M div 2 ^ 52 - 1"
    have q: "?q < 2 ^ 53" using m by simp
    have "?q * 2 ^ ?j < 2 ^ 53 * 2 ^ ?j" using q by (simp only: mult_less_cancel2 zero_less_power pos2)
    also have "\<dots> = 2 ^ (53 + ?j)" by (simp only: power_add)
    also have "\<dots> \<le> 2 ^ 2098" using e by (intro power_increasing) auto
    finally show ?thesis unfolding dyadic_def using False q
      by (intro exI[of _ ?q] exI[of _ ?j]) (simp only: mag_units_def Let_def if_False simp_thms)
  qed
qed

lemma dyadic_whole:
  assumes "dyadic a"
  shows "dyadic (a div UNITS * UNITS)"
proof -
  from assms obtain q j where a: "a = q * 2 ^ j" "q < 2 ^ 53" "a < 2 ^ 2098" by (auto simp: dyadic_def)
  have small: "a div UNITS * UNITS < 2 ^ 2098" using a(3) div_times_less_eq_dividend[of a UNITS] by (rule le_less_trans[rotated])
  show ?thesis
  proof (cases "1074 \<le> j")
    case True
    then have "UNITS dvd a" unfolding a(1) UNITS_def by (simp only: dvd_mult le_imp_power_dvd)
    then show ?thesis using assms by (simp only: dvd_div_mult_self)
  next
    case False
    then have U: "UNITS = 2 ^ j * 2 ^ (1074 - j)" unfolding UNITS_def by (simp only: power_add[symmetric]) (simp only: le_add_diff_inverse nat_le_linear not_le less_imp_le)
    then have "a div UNITS = q div 2 ^ (1074 - j)" unfolding a(1) U div_mult2_eq by simp
    moreover have "q div 2 ^ (1074 - j) < 2 ^ 53" using a(2) div_le_dividend le_less_trans by blast
    ultimately show ?thesis using small unfolding dyadic_def UNITS_def by metis
  qed
qed

lemma UNITS_pos [simp]: "0 < UNITS"
  by (simp only: UNITS_def zero_less_power pos2)

lemma UNIT_pos [simp]: "0 < UNIT" "UNIT \<noteq> 0"
  by (simp_all add: UNIT_def)

lemma sdiv_near: "\<bar>x - (x sdiv UNIT) * UNIT\<bar> < UNIT" "(y * UNIT) sdiv UNIT = y"
proof -
  have "x smod UNIT = x - (x sdiv UNIT) * UNIT" by (simp add: minus_sdiv_mult_eq_smod)
  moreover have "\<bar>x smod UNIT\<bar> < UNIT"
    using UNIT_pos pos_mod_bound[of UNIT "\<bar>x\<bar>"] pos_mod_sign[of UNIT "\<bar>x\<bar>"] by (cases "x = 0") (simp_all add: signed_modulo_int_def abs_mult abs_of_pos[OF UNIT_pos(1)])
  ultimately show "\<bar>x - (x sdiv UNIT) * UNIT\<bar> < UNIT" by simp
  show "(y * UNIT) sdiv UNIT = y" by (simp add: signed_divide_int_def abs_mult sgn_mult sgn_mult_abs)
qed

lemma trunc_units:
  assumes "f64_is_finite f"
  shows "f64_units (f64_trunc f) = (f64_units f sdiv UNIT) * UNIT"
proof -
  have d: "dyadic (mag_units (f64_mag f) div UNITS * UNITS)"
    using assms by (simp only: f64_is_finite_def finite_dyadic dyadic_whole)
  have e: "(int a sdiv UNIT) * UNIT = int (a div UNITS * UNITS)" "(- int a sdiv UNIT) * UNIT = - int (a div UNITS * UNITS)" for a
    by (cases "a = 0"; simp add: signed_divide_int_def UNIT_def zdiv_int)+
  show ?thesis
    unfolding f64_trunc_def if_P[OF assms] units_round_dyadic[OF d] f64_units_def[of f] by (cases "f64_neg f") (simp_all only: if_True if_False e)
qed

lemma trunc_not_nan: "f64_is_finite f \<Longrightarrow> \<not> f64_is_nan (f64_trunc f) \<and> f64_is_finite (f64_trunc f)"
  using round_dyadic[OF dyadic_whole[OF finite_dyadic], of "f64_mag f"]
  by (simp add: f64_trunc_def f64_is_finite_def)

lemma round_mag_0: "round_mag a = 0 \<longleftrightarrow> a = 0"
proof -
  consider "bit_len a - 53 = 0" | k where "bit_len a - 53 = Suc k" by (cases "bit_len a - 53") auto
  then show ?thesis
  proof cases
    case 2
    then have "a \<noteq> 0" by (metis bit_len_0 diff_0_eq_0 nat.distinct(1))
    then show ?thesis using 2 by (simp add: round_mag_def INF_MAG_def Let_def)
  qed (simp add: round_mag_def Let_def INF_MAG_def min_def)
qed

lemma mag_units_0: "mag_units M = 0 \<longleftrightarrow> M = 0"
  using div_mult_mod_eq[of M "2 ^ 52"] by (auto simp: mag_units_def Let_def)

lemma of_units_sign: "ord_cmp 0 (f64_units (f64_of_units x)) = ord_cmp 0 x"
proof -
  have "\<exists>M. f64_units (f64_of_units x) = (if x < 0 then - int M else int M) \<and> (M = 0 \<longleftrightarrow> x = 0)"
    by (rule exI[of _ "mag_units (round_mag (nat \<bar>x\<bar>))"]) (simp add: f64_of_units_def units_make[OF round_small] mag_units_0 round_mag_0)
  then show ?thesis by (elim exE conjE) (cases "x < 0"; cases "x = 0"; simp add: ord_cmp_def)
qed

lemma ord_cmp_split:
  assumes "\<bar>u - t * U\<bar> < U"
  shows "(case ord_cmp i t of Equal \<Rightarrow> ord_cmp 0 (u - t * U) | other \<Rightarrow> other) = ord_cmp (i * U) (u :: int)"
proof -
  consider "i < t" | "i = t" | "t < i" by linarith
  then show ?thesis
  proof cases
    case 1
    then have "i * U \<le> (t - 1) * U" using assms by (intro mult_right_mono) auto
    then have "i * U < u" using assms by (simp add: algebra_simps)
    then show ?thesis using 1 by (simp add: ord_cmp_def)
  next
    case 3
    then have "(t + 1) * U \<le> i * U" using assms by (intro mult_right_mono) auto
    then have "u < i * U" using assms by (simp add: algebra_simps)
    then show ?thesis using 3 by (simp add: ord_cmp_def)
  qed (auto simp: ord_cmp_def)
qed

lemma units_63: "f64_units TWO_63 = 2 ^ 63 * UNIT" "f64_units MINUS_TWO_63 = - (2 ^ 63 * UNIT)"
  "\<not> f64_is_nan TWO_63" "\<not> f64_is_nan MINUS_TWO_63"
proof -
  have "mag_units (1086 * 2 ^ 52) = 2 ^ 52 * 2 ^ 1085" using mag_units_shift[of 1085 "2 ^ 52"] by simp
  also have "\<dots> = 2 ^ 63 * UNITS" unfolding UNITS_def by (simp only: power_add[symmetric]) simp
  finally have m: "mag_units (1086 * 2 ^ 52) = 2 ^ 63 * UNITS" .
  have "f64_mag TWO_63 = 1086 * 2 ^ 52" "f64_mag MINUS_TWO_63 = 1086 * 2 ^ 52" "\<not> f64_neg TWO_63" "f64_neg MINUS_TWO_63"
    by (simp_all add: f64_mag_def f64_neg_def TWO_63_def MINUS_TWO_63_def)
  then show "f64_units TWO_63 = 2 ^ 63 * UNIT" "f64_units MINUS_TWO_63 = - (2 ^ 63 * UNIT)"
    "\<not> f64_is_nan TWO_63" "\<not> f64_is_nan MINUS_TWO_63"
    by (simp_all only: f64_units_def m f64_is_nan_def if_False if_True) (simp_all add: UNIT_def INF_MAG_def)
qed

lemma infinite_units: "\<not> f64_is_nan f \<Longrightarrow> \<not> f64_is_finite f \<Longrightarrow> 2 ^ 63 * UNIT < \<bar>f64_units f\<bar>"
proof -
  assume "\<not> f64_is_nan f" "\<not> f64_is_finite f"
  then have "f64_mag f = INF_MAG" by (simp add: f64_is_nan_def f64_is_finite_def)
  moreover have "mag_units INF_MAG = 2 ^ 52 * 2 ^ 2046"
    using mag_units_shift[of 2046 "2 ^ 52"] by (simp add: INF_MAG_def)
  moreover have "2 ^ 63 * UNITS < 2 ^ 52 * 2 ^ 2046" unfolding UNITS_def power_add[symmetric] by (rule power_strict_increasing) simp_all
  ultimately have "int (2 ^ 63 * UNITS) < int (mag_units (f64_mag f))" by (simp only: of_nat_less_iff)
  then show ?thesis by (simp add: f64_units_def UNIT_def split: if_split)
qed

lemma saturate_id: "- (2 ^ (w - 1)) \<le> x \<Longrightarrow> x < 2 ^ (w - 1) \<Longrightarrow> saturate w x = x"
  by (simp add: saturate_def)

lemma sdiv_range:
  assumes "- (2 ^ n * UNIT) \<le> u" and "u < 2 ^ n * UNIT"
  shows "- (2 ^ n) \<le> u sdiv UNIT \<and> u sdiv UNIT < 2 ^ n"
proof -
  have s: "u sdiv UNIT = sgn u * (\<bar>u\<bar> div UNIT)" by (simp add: signed_divide_int_def abs_of_pos[OF UNIT_pos(1)])
  have d: "0 \<le> \<bar>u\<bar> div UNIT" by (simp add: pos_imp_zdiv_nonneg_iff)
  have "\<bar>u\<bar> div UNIT \<le> 2 ^ n" using assms div_le_mono2 zdiv_mono1[of "\<bar>u\<bar>" "2 ^ n * UNIT" UNIT] by simp
  moreover have "\<bar>u\<bar> div UNIT < 2 ^ n" if "0 \<le> u"
  proof -
    have "\<bar>u\<bar> div UNIT * UNIT \<le> \<bar>u\<bar>" using div_mult_mod_eq[of "\<bar>u\<bar>" UNIT] pos_mod_sign[OF UNIT_pos(1), of "\<bar>u\<bar>"] by linarith
    then have "\<bar>u\<bar> div UNIT * UNIT < 2 ^ n * UNIT" using that assms(2) by linarith
    then show ?thesis by (rule mult_right_less_imp_less) (simp add: less_imp_le)
  qed
  moreover have "0 < (2 :: int) ^ n" by simp
  moreover have "0 \<le> u \<and> sgn u * (\<bar>u\<bar> div UNIT) = \<bar>u\<bar> div UNIT \<or> sgn u * (\<bar>u\<bar> div UNIT) = - (\<bar>u\<bar> div UNIT)"
    by (auto simp: sgn_if)
  ultimately show ?thesis unfolding s using d by (elim disjE) linarith+
qed

lemma as_i64_whole:
  assumes "f64_is_finite f" and "- (2 ^ 63 * UNIT) \<le> f64_units f" and "f64_units f < 2 ^ 63 * UNIT"
  shows "sint (f64_as_i64 (f64_trunc f)) = f64_units f sdiv UNIT"
proof -
  let ?t = "f64_units f sdiv UNIT"
  have r: "- (2 ^ 63) \<le> ?t \<and> ?t < 2 ^ 63" by (rule sdiv_range[OF assms(2,3)])
  have "f64_as_int 64 (f64_trunc f) = ?t"
    using trunc_not_nan[OF assms(1)] r by (simp add: f64_as_int_def trunc_units[OF assms(1)] sdiv_near(2) saturate_def)
  then show ?thesis using r by (simp add: f64_as_i64_def sint_sbintrunc' signed_take_bit_int_eq_self)
qed

lemma cmp_i64_f64_units:
  assumes "\<not> f64_is_nan f"
  shows "cmp_i64_f64 i f = Some (ord_cmp (sint i * UNIT) (f64_units f))"
proof -
  let ?u = "f64_units f"
  have i: "- (2 ^ 63) \<le> sint i" "sint i < 2 ^ 63" using sint_range_size[of i] by (simp_all add: word_size)
  have iu: "sint i * UNIT < 2 ^ 63 * UNIT" "- (2 ^ 63 * UNIT) \<le> sint i * UNIT"
    using i mult_right_mono[OF i(1) less_imp_le[OF UNIT_pos(1)]] by simp_all
  have ge: "f64_ge f TWO_63 \<longleftrightarrow> 2 ^ 63 * UNIT \<le> ?u" and lt: "f64_lt f MINUS_TWO_63 \<longleftrightarrow> ?u < - (2 ^ 63 * UNIT)"
    using assms by (auto simp: f64_ge_def f64_lt_def f64_partial_cmp_def units_63 ord_cmp_def)
  consider "2 ^ 63 * UNIT \<le> ?u" | "?u < - (2 ^ 63 * UNIT)" | "- (2 ^ 63 * UNIT) \<le> ?u" "?u < 2 ^ 63 * UNIT" by linarith
  then show ?thesis
  proof cases
    case 1
    then have "sint i * UNIT < ?u" using iu by linarith
    then show ?thesis using 1 assms ge by (simp add: cmp_i64_f64_def ord_cmp_def)
  next
    case 2
    have "0 < 2 ^ 63 * UNIT" by simp
    with 2 have "\<not> 2 ^ 63 * UNIT \<le> ?u" "?u < sint i * UNIT" using iu by linarith+
    then show ?thesis using 2 assms ge lt by (simp add: cmp_i64_f64_def ord_cmp_def)
  next
    case 3
    have fin: "f64_is_finite f" using infinite_units[OF assms] 3 by linarith
    have z: "f64_units 0 = 0" "\<not> f64_is_nan 0" by (simp_all add: f64_units_def f64_is_nan_def f64_mag_def f64_neg_def mag_units_def)
    have "f64_partial_cmp 0 (f64_sub f (f64_trunc f)) = Some (ord_cmp 0 (?u - (?u sdiv UNIT) * UNIT))"
      using trunc_not_nan[OF fin] assms fin
      by (simp add: f64_partial_cmp_def f64_sub_def z trunc_units of_units_sign)
    then show ?thesis
      using assms 3 ge lt ord_cmp_split[OF sdiv_near(1)[of ?u], of "sint i"]
      by (simp add: cmp_i64_f64_def as_i64_whole[OF fin 3] cong: ordering.case_cong)
  qed
qed

section \<open>Integers that are doubles\<close>

lemma f64_units_abs: "nat \<bar>f64_units f\<bar> = mag_units (f64_mag f)"
  by (simp add: f64_units_def)

text \<open>An integer of more than 53 bits is rounded to a multiple of a higher power of two.\<close>

lemma round_large:
  assumes "2 ^ 53 \<le> n" and "n \<le> 2 ^ 63"
  shows "\<exists>q. mag_units (round_mag (n * UNITS)) = q * UNITS \<and> q \<le> 2 ^ 64 \<and> round_mag (n * UNITS) < INF_MAG"
proof -
  define a where "a = n * UNITS"
  define k where "k = bit_len a - 53"
  have "2 ^ 1127 \<le> a" unfolding a_def UNITS_def using mult_le_mono1[OF assms(1), of "2 ^ 1074"] by (simp only: power_add[symmetric]) simp
  then have "\<not> bit_len a \<le> 1127" using bit_len_bounds(2)[of a] power_increasing[of "bit_len a" 1127 "2 :: nat"] by (meson leD le_less_trans less_le_trans one_le_numeral)
  moreover have "a \<le> 2 ^ 1137" unfolding a_def UNITS_def using mult_le_mono1[OF assms(2), of "2 ^ 1074"] by (simp only: power_add[symmetric]) simp
  then have "bit_len a - 1 \<le> 1137" using bit_len_bounds(1)[of a] power_strict_increasing[of 1137 "bit_len a - 1" "2 :: nat"]
    by (metis bit_len_0 diff_0_eq_0 le_trans leD not_le one_less_numeral_iff semiring_norm(76) zero_le)
  ultimately have k: "1074 \<le> k" "k \<le> 1085" unfolding k_def by simp_all
  let ?q = "a div 2 ^ k" and ?r = "a mod 2 ^ k"
  define q where "q = (if 2 ^ k < 2 * ?r \<or> 2 * ?r = 2 ^ k \<and> odd ?q then ?q + 1 else ?q)"
  have q: "q = ?q \<or> q = ?q + 1" "round_mag a = min (k * 2 ^ 52 + q) INF_MAG"
    by (simp add: q_def) (simp only: round_mag_def Let_def k_def q_def)
  note b = round_quotient[OF k_def]
  have q53: "q \<le> 2 ^ 53" and q52: "2 ^ 52 \<le> q" using b q(1) k(1) by auto
  have lt: "k * 2 ^ 52 + q < INF_MAG" using k(2) q53 by (simp add: INF_MAG_def)
  have "mag_units (round_mag a) = q * 2 ^ k" using q(2) lt mag_units_shift[of k q] q53 q52 by simp
  also have "\<dots> = q * 2 ^ (k - 1074) * UNITS" unfolding UNITS_def mult.assoc power_add[symmetric] using k(1) by (simp only: le_add_diff_inverse2)
  finally have "mag_units (round_mag a) = q * 2 ^ (k - 1074) * UNITS" .
  moreover have "q * 2 ^ (k - 1074) \<le> 2 ^ 53 * 2 ^ 11" using q53 k by (intro mult_le_mono power_increasing) auto
  ultimately show ?thesis using q(2) lt by (intro exI[of _ "q * 2 ^ (k - 1074)"]) (simp add: a_def)
qed

lemma abs_sint_i64: "\<bar>sint (i :: i64)\<bar> \<le> 2 ^ 63"
  using sint_range_size[of i] by (simp add: word_size abs_le_iff)

lemma as_f64_units:
  "\<exists>t. f64_units (i64_as_f64 i) = t * UNIT \<and> \<bar>t\<bar> \<le> 2 ^ 64 \<and> f64_is_finite (i64_as_f64 i)"
proof -
  let ?n = "nat \<bar>sint i\<bar>"
  have i: "\<bar>sint i\<bar> \<le> 2 ^ 63" by (rule abs_sint_i64)
  then have n: "?n \<le> 2 ^ 63" by (simp add: nat_le_iff)
  have a: "nat \<bar>sint i * UNIT\<bar> = ?n * UNITS" by (simp add: UNIT_def abs_mult nat_mult_distrib)
  show ?thesis
  proof (cases "?n < 2 ^ 53")
    case True
    have "?n * UNITS < 2 ^ 53 * UNITS" using True UNITS_pos by (simp only: mult_less_cancel2)
    also have "\<dots> \<le> 2 ^ 2098" unfolding UNITS_def power_add[symmetric] by (rule power_increasing) simp_all
    finally have "dyadic (nat \<bar>sint i * UNIT\<bar>)" unfolding a dyadic_def UNITS_def using True by blast
    then show ?thesis using of_units_dyadic i by (intro exI[of _ "sint i"]) (simp add: i64_as_f64_def)
  next
    case False
    then obtain q where q: "mag_units (round_mag (?n * UNITS)) = q * UNITS" "q \<le> 2 ^ 64" "round_mag (?n * UNITS) < INF_MAG"
      using round_large[OF _ n] by (metis not_le)
    have "f64_units (i64_as_f64 i) = (if sint i * UNIT < 0 then - int q else int q) * UNIT"
      unfolding i64_as_f64_def f64_of_units_def a units_make[OF round_small] q(1) by (simp add: UNIT_def)
    moreover have "f64_is_finite (i64_as_f64 i)" unfolding i64_as_f64_def f64_of_units_def a f64_is_finite_def by (simp only: make_round q(3))
    moreover have "\<bar>if sint i * UNIT < 0 then - int q else int q\<bar> \<le> 2 ^ 64" using q(2) by simp
    ultimately show ?thesis by blast
  qed
qed

lemma as_int_128:
  assumes "f64_units f = t * UNIT" and "\<bar>t\<bar> \<le> 2 ^ 64" and "f64_is_finite f"
  shows "f64_as_int 128 f = t"
proof -
  have "saturate 128 t = t" using assms(2) by (intro saturate_id) simp_all
  moreover have "\<not> f64_is_nan f" using assms(3) by (simp add: f64_is_finite_def f64_is_nan_def)
  ultimately show ?thesis by (simp add: f64_as_int_def assms(1) sdiv_near(2))
qed

section \<open>Equal doubles\<close>

lemma mag_units_Suc: "mag_units M < mag_units (Suc M)"
proof -
  define k where "k = M div 2 ^ 52 - 1"
  define q where "q = M - k * 2 ^ 52"
  have M: "M = M div 2 ^ 52 * 2 ^ 52 + M mod 2 ^ 52" "M mod 2 ^ 52 < 2 ^ 52" by simp_all
  have q: "M = k * 2 ^ 52 + q" "k = 0 \<or> 2 ^ 52 \<le> q" "q < 2 ^ 53"
  proof -
    show "M = k * 2 ^ 52 + q" using M by (simp add: q_def k_def algebra_simps)
    show "k = 0 \<or> 2 ^ 52 \<le> q" "q < 2 ^ 53"
      using M by (cases "M div 2 ^ 52") (auto simp: q_def k_def)
  qed
  have "mag_units M = q * 2 ^ k" using mag_units_shift[OF q(2)] q(1,3) by simp
  moreover have "mag_units (Suc M) = (q + 1) * 2 ^ k"
  proof -
    have "k = 0 \<or> 2 ^ 52 \<le> q + 1" "q + 1 \<le> 2 ^ 53" using q by auto
    from mag_units_shift[OF this] show ?thesis using q(1) by simp
  qed
  ultimately show ?thesis by simp
qed

lemma mag_units_inject: "mag_units M = mag_units N \<longleftrightarrow> M = N"
  using lift_Suc_mono_less[of mag_units, OF mag_units_Suc] by (metis linorder_neq_iff nat_neq_iff)

lemma f64_eq_iff: "x = y \<longleftrightarrow> f64_neg x = f64_neg y \<and> f64_mag x = f64_mag y"
proof
  assume h: "f64_neg x = f64_neg y \<and> f64_mag x = f64_mag y"
  have "unat f = (if f64_neg f then 2 ^ 63 else 0) + f64_mag f" for f
  proof -
    have "unat f < 2 ^ 64" using unat_bound[of f] by simp
    then show ?thesis by (auto simp: f64_neg_def f64_mag_def le_mod_geq)
  qed
  from this[of x] this[of y] h have "unat x = unat y" by metis
  then show "x = y" by (rule unsigned_word_eqI)
qed simp

lemma f64_equal_iff:
  "f64_partial_cmp x y = Some Equal \<longleftrightarrow> \<not> f64_is_nan x \<and> \<not> f64_is_nan y \<and> (x = y \<or> f64_mag x = 0 \<and> f64_mag y = 0)"
proof -
  have "f64_units x = f64_units y \<longleftrightarrow> x = y \<or> f64_mag x = 0 \<and> f64_mag y = 0"
  proof (cases "f64_neg x = f64_neg y")
    case True
    then show ?thesis by (auto simp: f64_units_def f64_eq_iff mag_units_inject)
  next
    case False
    then have "f64_units x = f64_units y \<longleftrightarrow> mag_units (f64_mag x) = 0 \<and> mag_units (f64_mag y) = 0" by (auto simp: f64_units_def)
    with False show ?thesis by (auto simp: mag_units_0)
  qed
  then show ?thesis by (auto simp: f64_partial_cmp_def ord_cmp_Equal)
qed

text \<open>Values that are equal: as Rust compares each type, a decimal as the number it is.\<close>

definition value_equal :: "val \<Rightarrow> val \<Rightarrow> bool" where
  "value_equal a b = (case (a, b) of
     (VFloat x, VFloat y) \<Rightarrow> f64_partial_cmp x y = Some Equal
   | (VDecimal x, VDecimal y) \<Rightarrow> cmp_decimal x y = Equal
   | _ \<Rightarrow> a = b)"

lemma same_exact_equal:
  assumes "scalar a" and "scalar b"
  shows "same_exact a b \<longleftrightarrow> (if \<exists>x. a = VFloat x \<and> f64_is_nan x then a = b
     else value_equal a b \<and> \<not> (\<exists>x y. a = VFloat x \<and> b = VFloat y \<and> f64_mag x = 0 \<and> f64_mag y = 0 \<and> x \<noteq> y))"
  using assms by (cases a; cases b) (auto simp: same_exact_def value_equal_def f64_equal_iff scalar_def)

section \<open>Properties\<close>

text \<open>C12: An integer is compared with a double as the two exact numbers they are, without rounding the integer, for every
  double including the infinities and the two zeros; only a NaN has no order.\<close>

theorem cmp_i64_f64_exact:
  "cmp_i64_f64 i f = (if f64_is_nan f then None else Some (ord_cmp (sint i * UNIT) (f64_units f)))"
  using cmp_i64_f64_units[of f i] by (simp add: cmp_i64_f64_def)

text \<open>The test whether an integer is a double says so exactly when some double is that number.\<close>

theorem i64_is_exact_f64_iff:
  "i64_is_exact_f64 i \<longleftrightarrow> (\<exists>f. f64_is_finite f \<and> f64_units f = sint i * UNIT)"
proof
  assume "i64_is_exact_f64 i"
  then show "\<exists>f. f64_is_finite f \<and> f64_units f = sint i * UNIT"
    using as_f64_units[of i] as_int_128 unfolding i64_is_exact_f64_def by metis
next
  assume "\<exists>f. f64_is_finite f \<and> f64_units f = sint i * UNIT"
  then obtain f where "f64_is_finite f" "f64_units f = sint i * UNIT" by blast
  then have "dyadic (nat \<bar>sint i * UNIT\<bar>)" using finite_dyadic[of "f64_mag f"] f64_units_abs[of f] by (simp add: f64_is_finite_def)
  then have "f64_units (i64_as_f64 i) = sint i * UNIT" "f64_is_finite (i64_as_f64 i)" using of_units_dyadic by (simp_all add: i64_as_f64_def)
  moreover have "\<bar>sint i\<bar> \<le> 2 ^ 64" using abs_sint_i64[of i] by simp
  ultimately show "i64_is_exact_f64 i" unfolding i64_is_exact_f64_def using as_int_128 by blast
qed

text \<open>C10: Exact keys of scalars coincide exactly when the scalars are equal, decimals compared by their
  number and everything else as Rust compares it, with two exceptions among doubles that the keys, which
  hold their bits, decide the other way: the two zeros are equal and have different keys, and a NaN is
  not equal to itself and has one key per bit pattern. No exact key of a scalar is a prefix of another:
  whatever follows two of them, equal byte strings mean equal keys and equal rests.\<close>

theorem exact_key_scalar_equality:
  assumes "scalar a" and "scalar b" and "wf_val a" and "wf_val b"
  shows "encode_exact_key d2f a @ r = encode_exact_key d2f b @ s \<longleftrightarrow> r = s \<and>
    (if \<exists>x. a = VFloat x \<and> f64_is_nan x then a = b
     else value_equal a b \<and> \<not> (\<exists>x y. a = VFloat x \<and> b = VFloat y \<and> f64_mag x = 0 \<and> f64_mag y = 0 \<and> x \<noteq> y))"
  unfolding exact_key_scalar_inject[OF assms] same_exact_equal[OF assms(1,2)] by blast

theorem exact_key_scalar_equality_witness:
  "encode_exact_key (\<lambda>_. 0) (VDecimal \<lparr>mantissa = 10, scale = 1\<rparr>) = encode_exact_key (\<lambda>_. 0) (VDecimal \<lparr>mantissa = 1, scale = 0\<rparr>)
   \<and> value_equal (VFloat 0) (VFloat 0x8000000000000000) \<and> encode_exact_key (\<lambda>_. 0) (VFloat 0) \<noteq> encode_exact_key (\<lambda>_. 0) (VFloat 0x8000000000000000)
   \<and> \<not> value_equal (VFloat F64_NAN) (VFloat F64_NAN)"
proof -
  have d: "value_equal (VDecimal \<lparr>mantissa = 10, scale = 1\<rparr>) (VDecimal \<lparr>mantissa = 1, scale = 0\<rparr>)"
    by (simp add: value_equal_def cmp_decimal_eq dec_cmp_def)
  have z: "value_equal (VFloat 0) (VFloat 0x8000000000000000)" by (simp add: value_equal_def f64_equal_iff f64_is_nan_def f64_mag_def INF_MAG_def)
  have n: "\<not> value_equal (VFloat F64_NAN) (VFloat F64_NAN)"
    by (simp add: value_equal_def f64_equal_iff f64_is_nan_def f64_mag_def INF_MAG_def F64_NAN_def)
  have "encode_exact_key (\<lambda>_. 0) (VDecimal \<lparr>mantissa = 10, scale = 1\<rparr>) @ [] = encode_exact_key (\<lambda>_. 0) (VDecimal \<lparr>mantissa = 1, scale = 0\<rparr>) @ []"
    by (rule exact_key_scalar_equality[THEN iffD2]) (use d in \<open>simp_all add: scalar_def\<close>)
  moreover have "\<not> (encode_exact_key (\<lambda>_. 0) (VFloat 0) @ [] = encode_exact_key (\<lambda>_. 0) (VFloat 0x8000000000000000) @ [])"
    using exact_key_scalar_equality[of "VFloat 0" "VFloat 0x8000000000000000" "\<lambda>_. 0" "[]" "[]"]
    by (simp add: scalar_def f64_is_nan_def f64_mag_def INF_MAG_def)
  ultimately show ?thesis using z n by simp
qed

end
