(* ===== verification/C_Value.thy ===== *)
theory C_Value
  imports C_Memory Json Double
begin

text \<open>
  Values across the C interface: the constructors, which copy their arguments into boxes of their own, and the readers,
  which hand out pointers into the box they were given (\<^verbatim>\<open>skaidb-ffi/src/lib.rs\<close>, "values"). The projection of a decimal to a
  double, the numbers of \<^verbatim>\<open>serde_json\<close> and its parser and printer are parameters.
\<close>

section \<open>Places inside a box\<close>

fun val_at :: "place list \<Rightarrow> val \<Rightarrow> val option" where
  "val_at [] v = Some v"
| "val_at (AtItem i # ps) (VArray vs) = (if i < length vs then val_at ps (vs ! i) else None)"
| "val_at (AtEntry i # ps) (VDocument d) = (if i < length d then val_at ps (snd (d ! i)) else None)"
| "val_at _ _ = None"

fun cell_at :: "place list \<Rightarrow> skaidb_result \<Rightarrow> val option" where
  "cell_at (AtCell i j # ps) (RRows rs) =
    (if i < length (set_rows rs) \<and> j < length (set_rows rs ! i) then val_at ps (set_rows rs ! i ! j) else None)"
| "cell_at (AtSet i # ps) (RSets sets) = (if i < length sets then cell_at ps (sets ! i) else None)"
| "cell_at _ _ = None"

definition box_val :: "place list \<Rightarrow> 's c_box \<Rightarrow> val option" where
  "box_val ps b = (case b of
     ValueBox v \<Rightarrow> val_at ps v
   | ResultBox r \<Rightarrow> cell_at ps r
   | ResultsBox rs \<Rightarrow> (case ps of AtResult i # ps \<Rightarrow> (if i < length rs then cell_at ps (rs ! i) else None) | _ \<Rightarrow> None)
   | StreamBox s \<Rightarrow> (case ps of
       AtRow t i # ps \<Rightarrow> (if t = s_turn s \<and> i < length (s_current s) then val_at ps (s_current s ! i) else None) | _ \<Rightarrow> None)
   | _ \<Rightarrow> None)"

definition deref_val :: "ptr \<Rightarrow> ('w, 's, 'f) c_state \<Rightarrow> val option" where
  "deref_val p st = (case p of Ref a ps \<Rightarrow> Option.bind (boxes st a) (box_val ps) | _ \<Rightarrow> None)"

text \<open>What C code reads through a pointer to a text or to a view of a string, byte string or UUID.\<close>

definition view_bytes :: "val \<Rightarrow> bytes option" where
  "view_bytes v = (case v of VString s \<Rightarrow> Some s | VBytes b \<Rightarrow> Some b | VUuid u \<Rightarrow> Some u | _ \<Rightarrow> None)"

definition read_view :: "ptr \<Rightarrow> ('w, 's, 'f) c_state \<Rightarrow> bytes option" where
  "read_view p st = Option.bind (deref_val p st) view_bytes"

fun result_text :: "place list \<Rightarrow> skaidb_result \<Rightarrow> bytes option" where
  "result_text [AtName _ i] (RRows rs) = (if i < length (set_columns rs) then Some (set_columns rs ! i) else None)"
| "result_text [AtError] (RError m) = Some m"
| "result_text (AtSet i # ps) (RSets sets) = (if i < length sets then result_text ps (sets ! i) else None)"
| "result_text _ _ = None"

definition stream_names :: "skaidb_stream \<Rightarrow> bytes list list" where
  "stream_names s = s_past_columns s @ [s_columns s]"

definition box_text :: "place list \<Rightarrow> 's c_box \<Rightarrow> bytes option" where
  "box_text ps b = (case b of
     StringBox s \<Rightarrow> (if ps = [] then Some s else None)
   | ResultBox r \<Rightarrow> result_text ps r
   | ResultsBox rs \<Rightarrow> (case ps of AtResult i # ps \<Rightarrow> (if i < length rs then result_text ps (rs ! i) else None) | _ \<Rightarrow> None)
   | StreamBox s \<Rightarrow> (case ps of
       [AtName k i] \<Rightarrow> (if k < length (stream_names s) \<and> i < length (stream_names s ! k) then Some (stream_names s ! k ! i) else None) | _ \<Rightarrow> None)
   | _ \<Rightarrow> None)"

definition read_text :: "ptr \<Rightarrow> ('w, 's, 'f) c_state \<Rightarrow> bytes option" where
  "read_text p st = (case p of
     Null \<Rightarrow> None
   | StaticText s \<Rightarrow> Some s
   | ErrorText t \<Rightarrow> (if t = error_turn st then Some (last_error st) else None)
   | KeyText t \<Rightarrow> (if t = key_turn st then Some (key_scratch st) else None)
   | Ref a ps \<Rightarrow> Option.bind (boxes st a) (box_text ps))"

definition at_place :: "ptr \<Rightarrow> place list \<Rightarrow> ptr" where
  "at_place p ps = (case p of Ref a qs \<Rightarrow> Ref a (qs @ ps) | _ \<Rightarrow> p)"

text \<open>\<^verbatim>\<open>(*p).0\<close>\<close>

definition deref :: "ptr \<Rightarrow> ('w, 's, 'f, val) c_op" where
  "deref p st = (case deref_val p st of Some v \<Rightarrow> (Inr v, st) | None \<Rightarrow> UB st)"

definition params_slice :: "ptr list option \<Rightarrow> nat \<Rightarrow> ('w, 's, 'f, row) c_op" where
  "params_slice params n =
    (if n = 0 then sret []
     else case params of
       None \<Rightarrow> throw (fail SKAIDB_ERR_INVALID (of_str ''params is NULL''))
     | Some params \<Rightarrow> each (\<lambda>p i. if p = Null
         then throw (fail SKAIDB_ERR_INVALID (of_str ''params['' @ show_nat i @ of_str ''] is NULL'')) else deref p) params [0..<n])"

section \<open>Constructors\<close>

definition value_box :: "val \<Rightarrow> ('w, 's, 'f, ptr) c_op" where
  "value_box v st = (let (a, st) = alloc (ValueBox v) st in (Inr (Ref a []), st))"

definition skaidb_value_null :: "('w, 's, 'f, ptr) c_op" where
  "skaidb_value_null = value_box VNull"

definition skaidb_value_bool :: "bool \<Rightarrow> ('w, 's, 'f, ptr) c_op" where
  "skaidb_value_bool v = value_box (VBool v)"

definition skaidb_value_int :: "i64 \<Rightarrow> ('w, 's, 'f, ptr) c_op" where
  "skaidb_value_int v = value_box (VInt v)"

definition skaidb_value_float :: "f64 \<Rightarrow> ('w, 's, 'f, ptr) c_op" where
  "skaidb_value_float v = value_box (VFloat v)"

text \<open>\<^verbatim>\<open>match r { Ok(x) => ..., Err(_) => return ptr::null_mut() }\<close>\<close>

definition or_null :: "('w, 's, 'f, ptr) c_op \<Rightarrow> ('w, 's, 'f, ptr) c_op" where
  "or_null m st = (case m st of (Inl (Err _), st) \<Rightarrow> (Inr Null, st) | other \<Rightarrow> other)"

definition skaidb_value_decimal :: "c_str \<Rightarrow> ('w, 's, 'f, ptr) c_op" where
  "skaidb_value_decimal text = or_null (sbind (cstr text ''decimal'') (\<lambda>t.
     case parse_decimal t of None \<Rightarrow> sret Null | Some d \<Rightarrow> value_box (VDecimal d)))"

definition skaidb_value_string :: "c_str \<Rightarrow> ('w, 's, 'f, ptr) c_op" where
  "skaidb_value_string utf8 = or_null (sbind (cstr utf8 ''string'') (\<lambda>s. value_box (VString s)))"

text \<open>\<^verbatim>\<open>slice::from_raw_parts(p, len)\<close>\<close>

definition raw_parts :: "bytes \<Rightarrow> nat \<Rightarrow> ('w, 's, 'f, bytes) c_op" where
  "raw_parts mem len = (if len \<le> length mem then sret (take len mem) else UB)"

definition skaidb_value_string_len :: "bytes option \<Rightarrow> nat \<Rightarrow> ('w, 's, 'f, ptr) c_op" where
  "skaidb_value_string_len utf8 len = (case utf8 of
     None \<Rightarrow> sret Null
   | Some mem \<Rightarrow> sbind (raw_parts mem len) (\<lambda>bs.
       if utf8_ok bs then value_box (VString bs)
       else (\<lambda>st. (Inr Null, set_error (of_str ''string is not valid UTF-8'') st))))"

definition skaidb_value_bytes :: "bytes option \<Rightarrow> nat \<Rightarrow> ('w, 's, 'f, ptr) c_op" where
  "skaidb_value_bytes data len =
    (if data = None \<and> 0 < len then sret Null
     else sbind (if len = 0 then sret [] else raw_parts (the data) len) (\<lambda>v. value_box (VBytes v)))"

definition skaidb_value_uuid :: "bytes option \<Rightarrow> ('w, 's, 'f, ptr) c_op" where
  "skaidb_value_uuid bs = (case bs of
     None \<Rightarrow> sret Null
   | Some mem \<Rightarrow> sbind (raw_parts mem 16) (\<lambda>b. value_box (VUuid b)))"

definition value_error_display :: "value_error \<Rightarrow> rstr" where
  "value_error_display e = (case e of
     InvalidUuid s \<Rightarrow> of_str ''invalid UUID: '' @ s
   | OutOfRange s \<Rightarrow> of_str ''value out of range for '' @ of_str s
   | UnrepresentableJson s \<Rightarrow> of_str ''cannot represent value as JSON: '' @ of_str s)"

definition skaidb_value_uuid_parse :: "c_str \<Rightarrow> ('w, 's, 'f, ptr) c_op" where
  "skaidb_value_uuid_parse text = or_null (sbind (cstr text ''uuid'') (\<lambda>t.
     case uuid_parse_str t of
       Inr u \<Rightarrow> value_box (VUuid u)
     | Inl (Err e) \<Rightarrow> (\<lambda>st. (Inr Null, set_error (value_error_display e) st))
     | Inl (Panic m) \<Rightarrow> slift (Inl (Panic m))
     | Inl OutOfFuel \<Rightarrow> slift (Inl OutOfFuel)))"

definition skaidb_value_timestamp :: "i64 \<Rightarrow> ('w, 's, 'f, ptr) c_op" where
  "skaidb_value_timestamp unix_millis = value_box (VTimestamp unix_millis)"

definition skaidb_value_array :: "ptr list option \<Rightarrow> nat \<Rightarrow> ('w, 's, 'f, ptr) c_op" where
  "skaidb_value_array items n = or_null (sbind (params_slice items n) (\<lambda>vs. value_box (VArray vs)))"

definition skaidb_value_document :: "c_str list option \<Rightarrow> ptr list option \<Rightarrow> nat \<Rightarrow> ('w, 's, 'f, ptr) c_op" where
  "skaidb_value_document key_ptrs values n = or_null (
     sbind (cstr_list key_ptrs n ''keys'') (\<lambda>ks.
     sbind (params_slice values n) (\<lambda>vs.
     value_box (VDocument (fold (\<lambda>(k, v) d. doc_insert k v d) (zip ks vs) doc_new)))))"

definition skaidb_value_from_json :: "'n number_ops \<Rightarrow> (rstr \<Rightarrow> rstr + 'n json) \<Rightarrow> c_str \<Rightarrow> ('w, 's, 'f, ptr) c_op" where
  "skaidb_value_from_json N parse json = or_null (sbind (cstr json ''json'') (\<lambda>text.
     case parse text of
       Inr j \<Rightarrow> value_box (from_json N j)
     | Inl e \<Rightarrow> (\<lambda>st. (Inr Null, set_error e st))))"

definition skaidb_value_clone :: "ptr \<Rightarrow> ('w, 's, 'f, ptr) c_op" where
  "skaidb_value_clone v = (if v = Null then sret Null else sbind (deref v) value_box)"

definition skaidb_value_free :: "ptr \<Rightarrow> ('w, 's, 'f, unit) c_op" where
  "skaidb_value_free v = free_box as_value v"

section \<open>Readers\<close>

definition val :: "ptr \<Rightarrow> ('w, 's, 'f, val option) c_op" where
  "val v = (if v = Null then sret None else sbind (deref v) (\<lambda>x. sret (Some x)))"

definition skaidb_value_type :: "ptr \<Rightarrow> ('w, 's, 'f, skaidb_value_type) c_op" where
  "skaidb_value_type v = sbind (val v) (\<lambda>x. sret (case x of
     None \<Rightarrow> SKAIDB_NULL | Some VNull \<Rightarrow> SKAIDB_NULL | Some (VBool _) \<Rightarrow> SKAIDB_BOOL | Some (VInt _) \<Rightarrow> SKAIDB_INT
   | Some (VFloat _) \<Rightarrow> SKAIDB_FLOAT | Some (VDecimal _) \<Rightarrow> SKAIDB_DECIMAL | Some (VString _) \<Rightarrow> SKAIDB_STRING
   | Some (VBytes _) \<Rightarrow> SKAIDB_BYTES | Some (VUuid _) \<Rightarrow> SKAIDB_UUID | Some (VTimestamp _) \<Rightarrow> SKAIDB_TIMESTAMP
   | Some (VArray _) \<Rightarrow> SKAIDB_ARRAY | Some (VDocument _) \<Rightarrow> SKAIDB_DOCUMENT))"

definition skaidb_value_is_null :: "ptr \<Rightarrow> ('w, 's, 'f, bool) c_op" where
  "skaidb_value_is_null v = sbind (val v) (\<lambda>x. sret (case x of None \<Rightarrow> True | Some VNull \<Rightarrow> True | _ \<Rightarrow> False))"

definition skaidb_value_get_bool :: "ptr \<Rightarrow> ('w, 's, 'f, bool) c_op" where
  "skaidb_value_get_bool v = sbind (val v) (\<lambda>x. sret (case x of Some (VBool b) \<Rightarrow> b | _ \<Rightarrow> False))"

definition skaidb_value_get_int :: "(decimal \<Rightarrow> f64) \<Rightarrow> ptr \<Rightarrow> ('w, 's, 'f, i64) c_op" where
  "skaidb_value_get_int d2f v = sbind (val v) (\<lambda>x. sret (case x of
     Some (VInt n) \<Rightarrow> n | Some (VTimestamp n) \<Rightarrow> n
   | Some (VFloat f) \<Rightarrow> f64_as_i64 f
   | Some (VDecimal d) \<Rightarrow> f64_as_i64 (d2f d)
   | Some (VBool b) \<Rightarrow> (if b then 1 else 0)
   | _ \<Rightarrow> 0))"

definition skaidb_value_get_float :: "(decimal \<Rightarrow> f64) \<Rightarrow> ptr \<Rightarrow> ('w, 's, 'f, f64) c_op" where
  "skaidb_value_get_float d2f v = sbind (val v) (\<lambda>x. sret (case x of
     Some (VFloat f) \<Rightarrow> f
   | Some (VInt n) \<Rightarrow> i64_as_f64 n | Some (VTimestamp n) \<Rightarrow> i64_as_f64 n
   | Some (VDecimal d) \<Rightarrow> d2f d
   | _ \<Rightarrow> 0))"

definition skaidb_value_get_timestamp :: "ptr \<Rightarrow> ('w, 's, 'f, i64) c_op" where
  "skaidb_value_get_timestamp v = sbind (val v) (\<lambda>x. sret (case x of Some (VTimestamp n) \<Rightarrow> n | Some (VInt n) \<Rightarrow> n | _ \<Rightarrow> 0))"

text \<open>The pointer to the view, and what is written to \<^verbatim>\<open>*len\<close> unless it is \<^verbatim>\<open>NULL\<close>.\<close>

definition skaidb_value_get_string :: "ptr \<Rightarrow> bool \<Rightarrow> ('w, 's, 'f, ptr \<times> nat option) c_op" where
  "skaidb_value_get_string v len_is_null = sbind (val v) (\<lambda>x. sret (case x of
     Some (VString s) \<Rightarrow> (v, if len_is_null then None else Some (length s))
   | _ \<Rightarrow> (Null, if len_is_null then None else Some 0)))"

definition skaidb_value_get_bytes :: "ptr \<Rightarrow> bool \<Rightarrow> ('w, 's, 'f, ptr \<times> nat option) c_op" where
  "skaidb_value_get_bytes v len_is_null = sbind (val v) (\<lambda>x. sret (case x of
     Some (VBytes b) \<Rightarrow> (v, if len_is_null then None else Some (length b))
   | _ \<Rightarrow> (Null, if len_is_null then None else Some 0)))"

definition skaidb_value_get_uuid :: "ptr \<Rightarrow> ('w, 's, 'f, ptr) c_op" where
  "skaidb_value_get_uuid v = sbind (val v) (\<lambda>x. sret (case x of Some (VUuid _) \<Rightarrow> v | _ \<Rightarrow> Null))"

definition skaidb_value_array_len :: "ptr \<Rightarrow> ('w, 's, 'f, nat) c_op" where
  "skaidb_value_array_len v = sbind (val v) (\<lambda>x. sret (case x of Some (VArray a) \<Rightarrow> length a | _ \<Rightarrow> 0))"

definition skaidb_value_array_get :: "ptr \<Rightarrow> nat \<Rightarrow> ('w, 's, 'f, ptr) c_op" where
  "skaidb_value_array_get v index = sbind (val v) (\<lambda>x. sret (case x of
     Some (VArray a) \<Rightarrow> (if index < length a then at_place v [AtItem index] else Null) | _ \<Rightarrow> Null))"

definition skaidb_value_document_len :: "ptr \<Rightarrow> ('w, 's, 'f, nat) c_op" where
  "skaidb_value_document_len v = sbind (val v) (\<lambda>x. sret (case x of Some (VDocument d) \<Rightarrow> length d | _ \<Rightarrow> 0))"

definition skaidb_value_document_key :: "ptr \<Rightarrow> nat \<Rightarrow> ('w, 's, 'f, ptr) c_op" where
  "skaidb_value_document_key v index = sbind (val v) (\<lambda>x. case x of
     Some (VDocument d) \<Rightarrow>
       (if index < length d
        then (\<lambda>st. (Inr (KeyText (Suc (key_turn st))), st\<lparr>key_scratch := c_string_lossy (fst (d ! index)), key_turn := Suc (key_turn st)\<rparr>))
        else sret Null)
   | _ \<Rightarrow> sret Null)"

definition skaidb_value_document_value :: "ptr \<Rightarrow> nat \<Rightarrow> ('w, 's, 'f, ptr) c_op" where
  "skaidb_value_document_value v index = sbind (val v) (\<lambda>x. sret (case x of
     Some (VDocument d) \<Rightarrow> (if index < length d then at_place v [AtEntry index] else Null) | _ \<Rightarrow> Null))"

text \<open>Where the value that \<^verbatim>\<open>get_path\<close> returns lies.\<close>

primrec doc_pos :: "rstr \<Rightarrow> (rstr \<times> val) list \<Rightarrow> nat option" where
  "doc_pos k [] = None"
| "doc_pos k (e # d) = (if fst e = k then Some 0 else map_option Suc (doc_pos k d))"

fun path_place :: "document \<Rightarrow> rstr list \<Rightarrow> place list option" where
  "path_place d [] = None"
| "path_place d [k] = map_option (\<lambda>i. [AtEntry i]) (doc_pos k d)"
| "path_place d (k # ks) = (case doc_pos k d of
     Some i \<Rightarrow> (case snd (d ! i) of VDocument d' \<Rightarrow> map_option ((#) (AtEntry i)) (path_place d' ks) | _ \<Rightarrow> None)
   | None \<Rightarrow> None)"

definition skaidb_value_document_get :: "ptr \<Rightarrow> c_str \<Rightarrow> ('w, 's, 'f, ptr) c_op" where
  "skaidb_value_document_get v path = or_null (sbind (cstr path ''path'') (\<lambda>p. sbind (val v) (\<lambda>x. sret (case x of
     Some (VDocument d) \<Rightarrow>
       (case doc_get_path d p of
          Some _ \<Rightarrow> (case path_place d (split_on 0x2E p) of Some ps \<Rightarrow> at_place v ps | None \<Rightarrow> Null)
        | None \<Rightarrow> Null)
   | _ \<Rightarrow> Null))))"

definition skaidb_value_to_string_dup :: "'n number_ops \<Rightarrow> ('n json \<Rightarrow> rstr) \<Rightarrow> ptr \<Rightarrow> ('w, 's, 'f, ptr) c_op" where
  "skaidb_value_to_string_dup N print v = sbind (val v) (\<lambda>x. case x of
     None \<Rightarrow> sret Null
   | Some (VString s) \<Rightarrow> dup s
   | Some (VDecimal d) \<Rightarrow> dup (decimal_text d)
   | Some (VUuid u) \<Rightarrow> dup (uuid_display u)
   | Some other \<Rightarrow> dup (print (to_json N other)))"

definition skaidb_value_to_json_dup :: "'n number_ops \<Rightarrow> ('n json \<Rightarrow> rstr) \<Rightarrow> ptr \<Rightarrow> ('w, 's, 'f, ptr) c_op" where
  "skaidb_value_to_json_dup N print v = sbind (val v) (\<lambda>x. case x of None \<Rightarrow> sret Null | Some v \<Rightarrow> dup (print (to_json N v)))"

section \<open>What a call leaves alone\<close>

text \<open>The box at an address in use is the same after the call.\<close>

definition spares :: "nat \<Rightarrow> ('w, 's, 'f, 'a) c_op \<Rightarrow> bool" where
  "spares a m \<longleftrightarrow> (\<forall>st. a < brk st \<longrightarrow> boxes (snd (m st)) a = boxes st a \<and> brk st \<le> brk (snd (m st)))"

named_theorems frames

lemma sparesD: "spares a m \<Longrightarrow> m st = (r, st') \<Longrightarrow> a < brk st \<Longrightarrow> boxes st' a = boxes st a \<and> a < brk st'"
  unfolding spares_def by (metis less_le_trans snd_conv)

lemma spares_pure: "(\<And>st. boxes (snd (m st)) = boxes st \<and> brk (snd (m st)) = brk st) \<Longrightarrow> spares a m"
  by (simp add: spares_def)

lemma spares_sbind [frames]: "spares a m \<Longrightarrow> (\<And>x. spares a (f x)) \<Longrightarrow> spares a (sbind m f)"
proof (unfold spares_def, intro allI impI)
  fix st :: "('a, 'b, 'c) c_state"
  assume m: "\<forall>st. a < brk st \<longrightarrow> boxes (snd (m st)) a = boxes st a \<and> brk st \<le> brk (snd (m st))"
    and f: "\<And>x. \<forall>st. a < brk st \<longrightarrow> boxes (snd (f x st)) a = boxes st a \<and> brk st \<le> brk (snd (f x st))" and a: "a < brk st"
  obtain r st1 where r: "m st = (r, st1)" by (meson surj_pair)
  with m a have s1: "boxes st1 a = boxes st a" "brk st \<le> brk st1" by (metis snd_conv)+
  with a have "a < brk st1" by simp
  with f s1 r show "boxes (snd (sbind m f st)) a = boxes st a \<and> brk st \<le> brk (snd (sbind m f st))"
    by (cases r) (auto simp: sbind_def dest!: spec[of _ st1] intro: le_trans)
qed

lemma spares_basic [frames]: "spares a (slift r)" "spares a (sret x)" "spares a (fail s msg)" "spares a (deref p)" "spares a (whole proj p)"
  "spares a (\<lambda>st. (g st, set_error msg st))"
  by (rule spares_pure; simp add: fail_def set_error_def deref_def whole_def split: ptr.split list.split option.split)+

lemma spares_alloc [frames]: "spares a (value_box v)" "spares a (dup s)"
  by (auto simp: spares_def value_box_def dup_def alloc_def)

lemma spares_or_null [frames]: "spares a m \<Longrightarrow> spares a (or_null m)"
  by (auto simp: spares_def or_null_def split: prod.splits sum.splits fault.splits)

lemma spares_throw [frames]: "spares a m \<Longrightarrow> spares a (throw m)"
  unfolding throw_def by (intro frames)

lemma spares_args [frames]: "spares a (cstr p what)" "spares a (cstr_opt p what)" "spares a (raw_parts mem n)" "spares a (val v)"
  unfolding cstr_def cstr_opt_def raw_parts_def val_def
  by (auto split: option.split simp: Let_def intro!: frames)

lemma spares_each [frames]: "(\<And>x i. spares a (f x i)) \<Longrightarrow> spares a (each f items is)"
  by (induction "is") (auto intro!: frames)

lemma spares_lists [frames]: "spares a (cstr_list items n what)" "spares a (params_slice params n)"
  unfolding cstr_list_def params_slice_def by (auto split: option.split intro!: frames)

lemma spares_clear: "a \<noteq> b \<Longrightarrow> spares a (\<lambda>st. (r st, clear_box b st))"
  by (simp add: spares_def clear_box_def)

lemma spares_free [frames]: "(\<And>ps. p \<noteq> Ref a []) \<Longrightarrow> spares a (free_box proj p)"
  unfolding free_box_def from_raw_def
  by (auto simp: spares_def sbind_def whole_def clear_box_def split: ptr.splits list.splits option.splits prod.splits)

lemma spares_constructors [frames]:
  "spares a skaidb_value_null" "spares a (skaidb_value_bool b)" "spares a (skaidb_value_int i)" "spares a (skaidb_value_float f)"
  "spares a (skaidb_value_decimal t)" "spares a (skaidb_value_string t)" "spares a (skaidb_value_string_len m n)"
  "spares a (skaidb_value_bytes m n)" "spares a (skaidb_value_uuid m)" "spares a (skaidb_value_uuid_parse t)"
  "spares a (skaidb_value_timestamp i)" "spares a (skaidb_value_array items n)" "spares a (skaidb_value_document ks items n)"
  "spares a (skaidb_value_from_json N parse t)" "spares a (skaidb_value_clone v)"
  unfolding skaidb_value_null_def skaidb_value_bool_def skaidb_value_int_def skaidb_value_float_def skaidb_value_decimal_def
    skaidb_value_string_def skaidb_value_string_len_def skaidb_value_bytes_def skaidb_value_uuid_def skaidb_value_uuid_parse_def
    skaidb_value_timestamp_def skaidb_value_array_def skaidb_value_document_def skaidb_value_from_json_def skaidb_value_clone_def
  by (auto intro!: frames split: option.split sum.split fault.split)

lemma spares_scratch [frames]: "spares a (\<lambda>st. (Inr (f st), st\<lparr>key_scratch := g st, key_turn := h st\<rparr>))"
  by (simp add: spares_def)

lemma spares_readers [frames]:
  "spares a (skaidb_value_type v)" "spares a (skaidb_value_is_null v)" "spares a (skaidb_value_get_bool v)"
  "spares a (skaidb_value_get_int d2f v)" "spares a (skaidb_value_get_float d2f v)" "spares a (skaidb_value_get_timestamp v)"
  "spares a (skaidb_value_get_string v l)" "spares a (skaidb_value_get_bytes v l)" "spares a (skaidb_value_get_uuid v)"
  "spares a (skaidb_value_array_len v)" "spares a (skaidb_value_array_get v i)" "spares a (skaidb_value_document_len v)"
  "spares a (skaidb_value_document_key v i)" "spares a (skaidb_value_document_value v i)" "spares a (skaidb_value_document_get v path)"
  "spares a (skaidb_value_to_string_dup N print v)" "spares a (skaidb_value_to_json_dup N print v)"
  unfolding skaidb_value_type_def skaidb_value_is_null_def skaidb_value_get_bool_def skaidb_value_get_int_def skaidb_value_get_float_def
    skaidb_value_get_timestamp_def skaidb_value_get_string_def skaidb_value_get_bytes_def skaidb_value_get_uuid_def skaidb_value_array_len_def
    skaidb_value_array_get_def skaidb_value_document_len_def skaidb_value_document_key_def skaidb_value_document_value_def
    skaidb_value_document_get_def skaidb_value_to_string_dup_def skaidb_value_to_json_dup_def
  by (auto intro!: frames split: option.split val.split)

section \<open>A program that builds a value and one that reads it\<close>

primrec mapM :: "('x \<Rightarrow> ('w, 's, 'f, 'a) c_op) \<Rightarrow> 'x list \<Rightarrow> ('w, 's, 'f, 'a list) c_op" where
  "mapM f [] = sret []"
| "mapM f (x # xs) = sbind (f x) (\<lambda>y. sbind (mapM f xs) (\<lambda>ys. sret (y # ys)))"

lemma mapM_cong [fundef_cong]: "xs = ys \<Longrightarrow> (\<And>x. x \<in> set ys \<Longrightarrow> f x = g x) \<Longrightarrow> mapM f xs = mapM g ys"
  by (induction ys arbitrary: xs) auto

fun make_value :: "val \<Rightarrow> ('w, 's, 'f, ptr) c_op" where
  "make_value VNull = skaidb_value_null"
| "make_value (VBool b) = skaidb_value_bool b"
| "make_value (VInt i) = skaidb_value_int i"
| "make_value (VFloat f) = skaidb_value_float f"
| "make_value (VDecimal d) = skaidb_value_decimal (Some (decimal_text d))"
| "make_value (VString s) = skaidb_value_string_len (Some s) (length s)"
| "make_value (VBytes b) = skaidb_value_bytes (Some b) (length b)"
| "make_value (VUuid u) = skaidb_value_uuid (Some u)"
| "make_value (VTimestamp t) = skaidb_value_timestamp t"
| "make_value (VArray vs) =
    sbind (mapM make_value vs) (\<lambda>ps.
    sbind (skaidb_value_array (Some ps) (length ps)) (\<lambda>p.
    sbind (mapM skaidb_value_free ps) (\<lambda>_. sret p)))"
| "make_value (VDocument d) =
    sbind (mapM (\<lambda>(k, v). make_value v) d) (\<lambda>ps.
    sbind (skaidb_value_document (Some (map (\<lambda>(k, v). Some k) d)) (Some ps) (length ps)) (\<lambda>p.
    sbind (mapM skaidb_value_free ps) (\<lambda>_. sret p)))"

definition copy_text :: "ptr \<Rightarrow> ('w, 's, 'f, bytes) c_op" where
  "copy_text p st = (case read_text p st of Some t \<Rightarrow> (Inr t, st) | None \<Rightarrow> UB st)"

definition copy_view :: "ptr \<Rightarrow> nat \<Rightarrow> ('w, 's, 'f, bytes) c_op" where
  "copy_view p n st = (case read_view p st of Some t \<Rightarrow> raw_parts t n st | None \<Rightarrow> UB st)"

primrec read_back :: "nat \<Rightarrow> (decimal \<Rightarrow> f64) \<Rightarrow> 'n number_ops \<Rightarrow> ('n json \<Rightarrow> rstr) \<Rightarrow> ptr \<Rightarrow> ('w, 's, 'f, val) c_op" where
  "read_back 0 d2f N print p = slift (Inl OutOfFuel)"
| "read_back (Suc n) d2f N print p = sbind (skaidb_value_type p) (\<lambda>t. case t of
     SKAIDB_NULL \<Rightarrow> sret VNull
   | SKAIDB_BOOL \<Rightarrow> sbind (skaidb_value_get_bool p) (\<lambda>b. sret (VBool b))
   | SKAIDB_INT \<Rightarrow> sbind (skaidb_value_get_int d2f p) (\<lambda>i. sret (VInt i))
   | SKAIDB_FLOAT \<Rightarrow> sbind (skaidb_value_get_float d2f p) (\<lambda>f. sret (VFloat f))
   | SKAIDB_TIMESTAMP \<Rightarrow> sbind (skaidb_value_get_timestamp p) (\<lambda>i. sret (VTimestamp i))
   | SKAIDB_DECIMAL \<Rightarrow>
       sbind (skaidb_value_to_string_dup N print p) (\<lambda>s. sbind (copy_text s) (\<lambda>t. sbind (skaidb_string_free s) (\<lambda>_.
       sret (case parse_decimal t of Some d \<Rightarrow> VDecimal d | None \<Rightarrow> VNull))))
   | SKAIDB_STRING \<Rightarrow> sbind (skaidb_value_get_string p False) (\<lambda>(q, l). sbind (copy_view q (the l)) (\<lambda>s. sret (VString s)))
   | SKAIDB_BYTES \<Rightarrow> sbind (skaidb_value_get_bytes p False) (\<lambda>(q, l). sbind (copy_view q (the l)) (\<lambda>s. sret (VBytes s)))
   | SKAIDB_UUID \<Rightarrow> sbind (skaidb_value_get_uuid p) (\<lambda>q. sbind (copy_view q 16) (\<lambda>u. sret (VUuid u)))
   | SKAIDB_ARRAY \<Rightarrow>
       sbind (skaidb_value_array_len p) (\<lambda>len.
       sbind (mapM (\<lambda>i. sbind (skaidb_value_array_get p i) (read_back n d2f N print)) [0..<len]) (\<lambda>vs. sret (VArray vs)))
   | SKAIDB_DOCUMENT \<Rightarrow>
       sbind (skaidb_value_document_len p) (\<lambda>len.
       sbind (mapM (\<lambda>i.
         sbind (skaidb_value_document_key p i) (\<lambda>kp. sbind (copy_text kp) (\<lambda>k.
         sbind (skaidb_value_document_value p i) (\<lambda>q. sbind (read_back n d2f N print q) (\<lambda>v. sret (k, v)))))) [0..<len]) (\<lambda>d.
       sret (VDocument d))))"

text \<open>What a caller of the C interface can pass: keys are C strings, and a decimal has a text that parses.\<close>

fun passable :: "val \<Rightarrow> bool" where
  "passable (VDecimal d) = (sint (mantissa d) \<noteq> - (2 ^ 127))"
| "passable (VArray vs) = (\<forall>v \<in> set vs. passable v)"
| "passable (VDocument d) = (\<forall>(k, v) \<in> set d. 0 \<notin> set k \<and> passable v)"
| "passable v = True"

definition heap_ok :: "('w, 's, 'f) c_state \<Rightarrow> bool" where
  "heap_ok st \<longleftrightarrow> (\<forall>a \<ge> brk st. boxes st a = None)"

text \<open>A call that returns a pointer to a new box holding \<open>v\<close> and changes nothing else of the heap.\<close>

definition makes :: "val \<Rightarrow> ('w, 's, 'f, ptr) c_op \<Rightarrow> bool" where
  "makes v m \<longleftrightarrow> (\<forall>st. heap_ok st \<longrightarrow> (\<exists>a st'. m st = (Inr (Ref a []), st') \<and> brk st \<le> a \<and> a < brk st'
     \<and> boxes st' = (boxes st)(a \<mapsto> ValueBox v)))"

lemma makes_value_box: "makes v (value_box v)"
  by (auto simp: makes_def value_box_def alloc_def)

lemma sbind_sret [simp]: "sbind (sret x) f = f x"
  by (rule ext) simp

lemma or_null_value: "or_null (value_box v) = value_box v"
  by (rule ext) (simp add: or_null_def value_box_def alloc_def)

lemma utf8_digits: "list_all ink s \<Longrightarrow> utf8_ok s \<and> 0 \<notin> set s"
  by (auto simp: list_all_iff ink_def ascii_def intro!: utf8_ok_ascii)

lemma decimal_text_ink: "list_all ink (decimal_text d)"
proof -
  obtain ip fp where "decimal_text d = (if sint (mantissa d) < 0 then [0x2D] else []) @ (if scale d = 0 then ip else ip @ [0x2E] @ fp)"
    "list_all is_digit ip" "list_all is_digit fp" using decimal_text_parts by metis
  then show ?thesis using digit_ink by (auto simp: list_all_iff ink_def)
qed

lemma cstr_ok: "utf8_ok s \<Longrightarrow> 0 \<notin> set s \<Longrightarrow> cstr (Some s) what = sret s"
proof -
  assume "utf8_ok s" "0 \<notin> set s"
  moreover from this have t: "takeWhile (\<lambda>b. b \<noteq> 0) s = s" by (metis (mono_tags, lifting) takeWhile_eq_all_conv)
  ultimately show ?thesis unfolding cstr_def option.case Let_def t by simp
qed

lemma parse_passable: "passable (VDecimal d) \<Longrightarrow> parse_decimal (decimal_text d) = Some d"
  using sint_range_size[of "mantissa d"] by (simp add: parse_decimal_text word_size abs_if)

lemma make_scalar:
  assumes "wf_val v" and "passable v" and "type_of v \<noteq> TArray" and "type_of v \<noteq> TDocument"
  shows "makes v (make_value v :: ('w, 's, 'f, ptr) c_op)"
proof -
  have "(make_value v :: ('w, 's, 'f, ptr) c_op) = value_box v"
  proof (cases v)
    case (VDecimal d)
    then show ?thesis using parse_passable[of d] assms(2) utf8_digits[OF decimal_text_ink, of d]
      by (simp add: skaidb_value_decimal_def cstr_ok sbind_sret or_null_value)
  qed (use assms in \<open>auto simp: type_of_def skaidb_value_null_def skaidb_value_bool_def skaidb_value_int_def skaidb_value_float_def
      skaidb_value_string_len_def skaidb_value_bytes_def skaidb_value_uuid_def skaidb_value_timestamp_def raw_parts_def sbind_sret\<close>)
  then show ?thesis by (simp add: makes_value_box)
qed

text \<open>Several values one after the other: each has a box of its own.\<close>

definition made :: "('w, 's, 'f) c_state \<Rightarrow> nat list \<Rightarrow> val list \<Rightarrow> ('w, 's, 'f) c_state \<Rightarrow> bool" where
  "made st as vs st' \<longleftrightarrow> length as = length vs \<and> distinct as \<and> (\<forall>a \<in> set as. brk st \<le> a \<and> a < brk st') \<and> brk st \<le> brk st'
     \<and> boxes st' = boxes st ++ map_of (zip as (map ValueBox vs))"

lemma made_heap_ok: "heap_ok st \<Longrightarrow> made st as vs st' \<Longrightarrow> heap_ok st'"
  by (auto simp: heap_ok_def made_def map_add_None map_of_eq_None_iff dest!: set_zip_leftD)

lemma mapM_makes:
  assumes "\<And>x. x \<in> set xs \<Longrightarrow> makes (g x) (f x)" and "heap_ok st"
  shows "\<exists>as st'. mapM f xs st = (Inr (map (\<lambda>a. Ref a []) as), st') \<and> made st as (map g xs) st'"
  using assms
proof (induction xs arbitrary: st)
  case Nil
  then show ?case by (intro exI[of _ "[]"] exI[of _ st]) (simp add: made_def)
next
  case (Cons x xs)
  then obtain a st1 where a: "f x st = (Inr (Ref a []), st1)" "brk st \<le> a" "a < brk st1" "boxes st1 = (boxes st)(a \<mapsto> ValueBox (g x))"
    unfolding makes_def by (metis list.set_intros(1))
  have "heap_ok st1" using Cons.prems(2) a by (auto simp: heap_ok_def)
  then obtain as st2 where as: "mapM f xs st1 = (Inr (map (\<lambda>a. Ref a []) as), st2)" "made st1 as (map g xs) st2"
    using Cons.IH[of st1] Cons.prems(1) by auto
  have "mapM f (x # xs) st = (Inr (map (\<lambda>a. Ref a []) (a # as)), st2)" using a(1) as(1) by (simp add: sbind_def)
  moreover have "made st (a # as) (map g (x # xs)) st2"
  proof -
    have n: "a \<notin> set as" and le: "\<forall>x \<in> set as. brk st \<le> x" using as(2) a by (auto simp: made_def)
    have "length as = length xs" using as(2) by (simp add: made_def)
    then have "boxes st1 ++ map_of (zip as (map ValueBox (map g xs))) = boxes st ++ map_of (zip (a # as) (map ValueBox (map g (x # xs))))"
      unfolding a(4) using n by (auto simp: fun_eq_iff map_add_def map_of_zip_is_None dest!: map_of_SomeD set_zip_leftD split: option.split)
    then show ?thesis using as(2) a n le by (auto simp: made_def)
  qed
  ultimately show ?case by blast
qed

lemma made_nth: "made st as vs st' \<Longrightarrow> i < length vs \<Longrightarrow> boxes st' (as ! i) = Some (ValueBox (vs ! i))"
  by (auto simp: made_def map_add_def map_of_zip_nth)

lemma each_reads:
  assumes "\<And>i. i \<in> set is \<Longrightarrow> i < length items \<and> f (items ! i) i st = (Inr (g i), st)"
  shows "each f items is st = (Inr (map g is), st)"
  using assms by (induction "is") (auto simp: sbind_def)

lemma params_slice_made:
  assumes "made st as vs st'"
  shows "params_slice (Some (map (\<lambda>a. Ref a []) as)) (length as) st' = (Inr vs, st')"
proof -
  have l: "length as = length vs" using assms by (simp add: made_def)
  have "each (\<lambda>p i. if p = Null then throw (fail SKAIDB_ERR_INVALID (of_str ''params['' @ show_nat i @ of_str ''] is NULL'')) else deref p)
      (map (\<lambda>a. Ref a []) as) [0..<length as] st' = (Inr (map ((!) vs) [0..<length as]), st')"
    by (rule each_reads) (use made_nth[OF assms] l in \<open>simp add: deref_def deref_val_def box_val_def\<close>)
  then show ?thesis using l by (simp add: params_slice_def map_nth)
qed

lemma free_all:
  assumes "distinct as" and "\<forall>a \<in> set as. \<exists>v. boxes st a = Some (ValueBox v)"
  shows "\<exists>us. mapM skaidb_value_free (map (\<lambda>a. Ref a []) as) st = (Inr us, st\<lparr>boxes := (boxes st) |` (- set as)\<rparr>)"
  using assms
proof (induction as arbitrary: st)
  case (Cons a as)
  have f: "skaidb_value_free (Ref a []) st = (Inr (), clear_box a st)" using Cons.prems(2)
    by (auto simp: skaidb_value_free_def free_box_def from_raw_def whole_def as_value_def sbind_def)
  have "\<forall>x \<in> set as. \<exists>v. boxes (clear_box a st) x = Some (ValueBox v)" using Cons.prems by (auto simp: clear_box_def)
  then obtain us where "mapM skaidb_value_free (map (\<lambda>a. Ref a []) as) (clear_box a st) = (Inr us, (clear_box a st)\<lparr>boxes := (boxes (clear_box a st)) |` (- set as)\<rparr>)"
    using Cons.IH[of "clear_box a st"] Cons.prems(1) by auto
  moreover have "(boxes (clear_box a st)) |` (- set as) = (boxes st) |` (- set (a # as))"
    by (auto simp: clear_box_def restrict_map_def fun_eq_iff)
  ultimately show ?case using f by (simp add: sbind_def clear_box_def)
qed (simp add: restrict_map_def)

lemma make_container:
  assumes "made st as vs st1" and "heap_ok st"
  shows "\<exists>st'. sbind (value_box w) (\<lambda>p. sbind (mapM skaidb_value_free (map (\<lambda>a. Ref a []) as)) (\<lambda>_. sret p)) st1 = (Inr (Ref (brk st1) []), st')
    \<and> brk st \<le> brk st1 \<and> brk st1 < brk st' \<and> boxes st' = (boxes st)(brk st1 \<mapsto> ValueBox w)"
proof -
  let ?st2 = "st1\<lparr>boxes := (boxes st1)(brk st1 \<mapsto> ValueBox w), brk := Suc (brk st1)\<rparr>"
  have d: "distinct as" "\<forall>a \<in> set as. a < brk st1 \<and> brk st \<le> a" "brk st \<le> brk st1" using assms(1) by (auto simp: made_def)
  have "\<exists>v. boxes ?st2 a = Some (ValueBox v)" if "a \<in> set as" for a
  proof -
    from that obtain i where i: "i < length as" "as ! i = a" by (auto simp: in_set_conv_nth)
    moreover have "length as = length vs" using assms(1) by (simp add: made_def)
    ultimately show ?thesis using made_nth[OF assms(1), of i] by auto
  qed
  then obtain us where us: "mapM skaidb_value_free (map (\<lambda>a. Ref a []) as) ?st2 = (Inr us, ?st2\<lparr>boxes := (boxes ?st2) |` (- set as)\<rparr>)"
    using free_all[OF d(1), of ?st2] by blast
  have "boxes st1 x = boxes st x" if "x \<notin> set as" for x
    using assms(1) that by (auto simp: made_def map_add_def split: option.split dest: map_of_SomeD set_zip_leftD)
  moreover have "boxes st x = None" if "x \<in> set as" for x using assms(2) d(2) that by (auto simp: heap_ok_def)
  ultimately have "(boxes ?st2) |` (- set as) = (boxes st)(brk st1 \<mapsto> ValueBox w)"
    using d(2) by (auto simp: restrict_map_def fun_eq_iff)
  then show ?thesis using us d(3) by (simp add: value_box_def alloc_def sbind_def)
qed

lemma cstr_list_keys:
  assumes "\<forall>(k, v) \<in> set d. 0 \<notin> set k \<and> utf8_ok k"
  shows "cstr_list (Some (map (\<lambda>(k, v). Some k) d)) (length d) what st = (Inr (map fst d), st)"
proof -
  have "each (\<lambda>p _. cstr p what) (map (\<lambda>(k, v). Some k) d) [0..<length d] st = (Inr (map (\<lambda>i. fst (d ! i)) [0..<length d]), st)"
  proof (rule each_reads)
    fix i assume "i \<in> set [0..<length d]"
    then have i: "i < length d" by simp
    then have "0 \<notin> set (fst (d ! i)) \<and> utf8_ok (fst (d ! i))" using assms nth_mem by (metis (mono_tags, lifting) case_prod_beta')
    then show "i < length (map (\<lambda>(k, v). Some k) d) \<and> cstr (map (\<lambda>(k, v). Some k) d ! i) what st = (Inr (fst (d ! i)), st)"
      using i by (simp add: case_prod_beta cstr_ok)
  qed
  moreover have "map (\<lambda>i. fst (d ! i)) [0..<length d] = map fst d" by (rule nth_equalityI) simp_all
  ultimately show ?thesis by (simp add: cstr_list_def)
qed

lemma make_value_makes:
  "wf_val v \<Longrightarrow> passable v \<Longrightarrow> makes v (make_value v :: ('w, 's, 'f, ptr) c_op)"
proof (induction v)
  case (VArray vs)
  show ?case
  proof (unfold makes_def, intro allI impI)
    fix st :: "('w, 's, 'f) c_state"
    assume h: "heap_ok st"
    from VArray have "makes v (make_value v :: ('w, 's, 'f, ptr) c_op)" if "v \<in> set vs" for v using that by auto
    from mapM_makes[of vs "\<lambda>v. v" make_value, OF this h] obtain as st1 where
      m: "mapM make_value vs st = (Inr (map (\<lambda>a. Ref a []) as), st1)" "made st as vs st1" by auto
    have "skaidb_value_array (Some (map (\<lambda>a. Ref a []) as)) (length (map (\<lambda>a. Ref a []) as)) st1 = value_box (VArray vs) st1"
      using params_slice_made[OF m(2)] by (simp add: skaidb_value_array_def or_null_def sbind_def value_box_def alloc_def)
    then show "\<exists>a st'. make_value (VArray vs) st = (Inr (Ref a []), st') \<and> brk st \<le> a \<and> a < brk st' \<and> boxes st' = (boxes st)(a \<mapsto> ValueBox (VArray vs))"
      using m make_container[OF m(2) h, of "VArray vs"] by (auto simp: sbind_def)
  qed
next
  case (VDocument d)
  show ?case
  proof (unfold makes_def, intro allI impI)
    fix st :: "('w, 's, 'f) c_state"
    assume h: "heap_ok st"
    have "makes (snd x) ((\<lambda>(k, v). make_value v) x :: ('w, 's, 'f, ptr) c_op)" if x: "x \<in> set d" for x
    proof -
      obtain k w where "x = (k, w)" by fastforce
      then show ?thesis using x VDocument.IH[OF x, of w] VDocument.prems by auto
    qed
    from mapM_makes[of d snd "\<lambda>(k, v). make_value v", OF this h] obtain as st1 where
      m: "mapM (\<lambda>(k, v). make_value v) d st = (Inr (map (\<lambda>a. Ref a []) as), st1)" "made st as (map snd d) st1" by auto
    have l: "length as = length d" using m(2) by (simp add: made_def)
    have "fold (\<lambda>(k, v) d. doc_insert k v d) (zip (map fst d) (map snd d)) doc_new = d"
      using fold_insert_sorted[of "[]" d] VDocument.prems by (simp add: zip_map_fst_snd doc_new_def)
    moreover have "\<forall>(k, v) \<in> set d. 0 \<notin> set k \<and> utf8_ok k" using VDocument.prems by auto
    ultimately have "skaidb_value_document (Some (map (\<lambda>(k, v). Some k) d)) (Some (map (\<lambda>a. Ref a []) as)) (length (map (\<lambda>a. Ref a []) as)) st1
      = value_box (VDocument d) st1"
      using params_slice_made[OF m(2)] cstr_list_keys[of d "''keys''" st1] l
      by (simp add: skaidb_value_document_def or_null_def sbind_def value_box_def alloc_def)
    then show "\<exists>a st'. make_value (VDocument d) st = (Inr (Ref a []), st') \<and> brk st \<le> a \<and> a < brk st' \<and> boxes st' = (boxes st)(a \<mapsto> ValueBox (VDocument d))"
      using m make_container[OF m(2) h, of "VDocument d"] by (auto simp: sbind_def)
  qed
qed (rule make_scalar; simp add: type_of_def)+

section \<open>Reading\<close>

lemma val_at_append: "val_at ps v = Some x \<Longrightarrow> val_at (ps @ qs) v = val_at qs x"
  by (induction ps v rule: val_at.induct) (auto split: if_splits)

lemma cell_at_append: "cell_at ps r = Some x \<Longrightarrow> cell_at (ps @ qs) r = val_at qs x"
  by (induction ps r rule: cell_at.induct) (auto split: if_splits simp: val_at_append)

lemma box_val_append: "box_val ps b = Some x \<Longrightarrow> box_val (ps @ qs) b = val_at qs x"
  by (auto simp: box_val_def val_at_append cell_at_append split: c_box.splits list.splits place.splits if_splits)

lemma deref_at_place: "deref_val p st = Some x \<Longrightarrow> deref_val (at_place p qs) st = val_at qs x"
  by (auto simp: deref_val_def at_place_def box_val_append bind_eq_Some_conv split: ptr.splits)

lemma deref_not_null: "deref_val p st = Some x \<Longrightarrow> p \<noteq> Null \<and> val p st = (Inr (Some x), st)"
  by (auto simp: deref_val_def val_def deref_def sbind_def)

lemma deref_boxes: "boxes st' = boxes st \<Longrightarrow> deref_val p st' = deref_val p st"
  by (simp add: deref_val_def split: ptr.split)

text \<open>A program that returns \<open>x\<close> and leaves the boxes as they are.\<close>

definition reads :: "('w, 's, 'f, 'a) c_op \<Rightarrow> 'a \<Rightarrow> ('w, 's, 'f) c_state \<Rightarrow> bool" where
  "reads m x st \<longleftrightarrow> (\<exists>st'. m st = (Inr x, st') \<and> boxes st' = boxes st \<and> brk st \<le> brk st')"

lemma reads_heap_ok: "heap_ok st \<Longrightarrow> boxes st' = boxes st \<Longrightarrow> brk st \<le> brk st' \<Longrightarrow> heap_ok st'"
  by (simp add: heap_ok_def)

lemma mapM_reads:
  assumes "heap_ok st" and "\<And>i st'. i \<in> set is \<Longrightarrow> boxes st' = boxes st \<Longrightarrow> heap_ok st' \<Longrightarrow> reads (f i) (g i) st'"
  shows "reads (mapM f is) (map g is) st"
  using assms
proof (induction "is" arbitrary: st)
  case (Cons i "is")
  obtain st1 where s1: "f i st = (Inr (g i), st1)" "boxes st1 = boxes st" "brk st \<le> brk st1"
    using Cons.prems(2)[of i st] Cons.prems(1) by (auto simp: reads_def)
  have "reads (mapM f is) (map g is) st1"
    by (rule Cons.IH) (use Cons.prems s1 reads_heap_ok[OF Cons.prems(1) s1(2,3)] in auto)
  then show ?case using s1 by (auto simp: reads_def sbind_def)
qed (simp add: reads_def)

lemma read_decimal:
  assumes "heap_ok st" and "deref_val p st = Some (VDecimal d)" and "passable (VDecimal d)"
  shows "reads (read_back (Suc n) d2f N print p) (VDecimal d) st"
proof -
  note v = deref_not_null[OF assms(2)]
  let ?st1 = "st\<lparr>boxes := (boxes st)(brk st \<mapsto> StringBox (decimal_text d)), brk := Suc (brk st)\<rparr>"
  have "c_string_lossy (decimal_text d) = decimal_text d"
    using utf8_digits[OF decimal_text_ink, of d] by (simp add: c_string_lossy_def)
  then have "skaidb_value_to_string_dup N print p st = (Inr (Ref (brk st) []), ?st1)"
    using v by (simp add: skaidb_value_to_string_dup_def sbind_def dup_def alloc_def)
  moreover have "copy_text (Ref (brk st) []) ?st1 = (Inr (decimal_text d), ?st1)"
    by (simp add: copy_text_def read_text_def box_text_def)
  moreover have "skaidb_string_free (Ref (brk st) []) ?st1 = (Inr (), clear_box (brk st) ?st1)"
    by (simp add: skaidb_string_free_def free_box_def from_raw_def whole_def as_string_def sbind_def)
  moreover have "boxes (clear_box (brk st) ?st1) = boxes st" using assms(1) by (auto simp: clear_box_def heap_ok_def)
  ultimately show ?thesis using v parse_passable[OF assms(3)]
    by (simp add: reads_def skaidb_value_type_def sbind_def clear_box_def)
qed

lemma read_scalar:
  assumes "deref_val p st = Some v" and "wf_val v" and "size v < n" and "type_of v \<notin> {TDecimal, TArray, TDocument}"
  shows "reads (read_back n d2f N print p) v st"
proof -
  obtain m where n: "n = Suc m" using assms(3) by (cases n) auto
  note v = deref_not_null[OF assms(1)]
  show ?thesis
    using assms v n by (cases v) (simp_all add: type_of_def reads_def sbind_def skaidb_value_type_def skaidb_value_get_bool_def
      skaidb_value_get_int_def skaidb_value_get_float_def skaidb_value_get_timestamp_def skaidb_value_get_string_def
      skaidb_value_get_bytes_def skaidb_value_get_uuid_def copy_view_def read_view_def view_bytes_def raw_parts_def)
qed

lemma read_value:
  "heap_ok (st :: ('w, 's, 'f) c_state) \<Longrightarrow> deref_val p st = Some v \<Longrightarrow> wf_val v \<Longrightarrow> passable v \<Longrightarrow> size v < n \<Longrightarrow> reads (read_back n d2f N print p) v st"
proof (induction v arbitrary: n p st)
  case (VDecimal d)
  then obtain m where "n = Suc m" by (cases n) auto
  then show ?case using VDecimal read_decimal by metis
next
  case (VArray vs)
  then obtain m where n: "n = Suc m" by (cases n) auto
  note v = deref_not_null[OF VArray.prems(2)]
  have "reads (mapM (\<lambda>i. sbind (skaidb_value_array_get p i) (read_back m d2f N print)) [0..<length vs]) (map ((!) vs) [0..<length vs]) st"
  proof (rule mapM_reads[OF VArray.prems(1)])
    fix i and st' :: "('w, 's, 'f) c_state"
    assume i: "i \<in> set [0..<length vs]" and st': "boxes st' = boxes st" "heap_ok st'"
    have "deref_val p st' = Some (VArray vs)" using VArray.prems(2) deref_boxes[OF st'(1)] by simp
    note w = deref_not_null[OF this] deref_at_place[OF this, of "[AtItem i]"]
    have mem: "vs ! i \<in> set vs" using i by simp
    have "size (vs ! i) < m" using size_list_estimation'[OF mem order_refl, of size] VArray.prems(5) n by simp
    then have "reads (read_back m d2f N print (at_place p [AtItem i])) (vs ! i) st'"
      using VArray.IH[OF mem st'(2)] w(2) i mem VArray.prems(3,4) by auto
    then show "reads (sbind (skaidb_value_array_get p i) (read_back m d2f N print)) (vs ! i) st'"
      using w(1) i by (simp add: reads_def skaidb_value_array_get_def sbind_def)
  qed
  then show ?case using v n by (auto simp: reads_def skaidb_value_type_def skaidb_value_array_len_def sbind_def map_nth)
next
  case (VDocument d)
  then obtain m where n: "n = Suc m" by (cases n) auto
  note v = deref_not_null[OF VDocument.prems(2)]
  let ?f = "\<lambda>i. sbind (skaidb_value_document_key p i) (\<lambda>kp. sbind (copy_text kp) (\<lambda>k.
         sbind (skaidb_value_document_value p i) (\<lambda>q. sbind (read_back m d2f N print q) (\<lambda>v. sret (k, v)))))"
  have "reads (mapM ?f [0..<length d]) (map ((!) d) [0..<length d]) st"
  proof (rule mapM_reads[OF VDocument.prems(1)])
    fix i and st' :: "('w, 's, 'f) c_state"
    assume i: "i \<in> set [0..<length d]" and st': "boxes st' = boxes st" "heap_ok st'"
    obtain k x where kx: "d ! i = (k, x)" by fastforce
    have mem: "(k, x) \<in> set d" using i kx by (metis atLeastLessThan_iff nth_mem set_upt)
    then have k: "0 \<notin> set k" and wfx: "wf_val x" "passable x" using VDocument.prems(3,4) by auto
    let ?st2 = "st'\<lparr>key_scratch := k, key_turn := Suc (key_turn st')\<rparr>"
    have p': "deref_val p st' = Some (VDocument d)" "deref_val p ?st2 = Some (VDocument d)"
      using VDocument.prems(2) deref_boxes[OF st'(1)] deref_boxes[of ?st2 st'] by simp_all
    have key: "skaidb_value_document_key p i st' = (Inr (KeyText (Suc (key_turn st'))), ?st2)"
      using deref_not_null[OF p'(1)] i kx k by (simp add: skaidb_value_document_key_def sbind_def c_string_lossy_def)
    have "heap_ok ?st2" using st'(2) by (simp add: heap_ok_def)
    moreover have "deref_val (at_place p [AtEntry i]) ?st2 = Some x" using deref_at_place[OF p'(2)] i kx by simp
    moreover have "size x < m" using size_list_estimation'[OF mem, of "size x" "size_prod (\<lambda>x. 0) size"] VDocument.prems(5) n by simp
    ultimately have "reads (read_back m d2f N print (at_place p [AtEntry i])) x ?st2"
      using VDocument.IH[OF mem, of x] wfx by simp
    then show "reads (?f i) (d ! i) st'"
      using key kx deref_not_null[OF p'(2)] i
      by (auto simp: reads_def sbind_def copy_text_def read_text_def skaidb_value_document_value_def)
  qed
  then show ?case using v n by (auto simp: reads_def skaidb_value_type_def skaidb_value_document_len_def sbind_def map_nth)
qed (rule read_scalar; simp add: type_of_def)+

section \<open>Properties\<close>

text \<open>C9: A value built through the C interface reads back through it as the same value, of every type and at every depth; the
  building program ends with one box more than before, the reading program with none, and freeing the value ends with
  the boxes there were at the start.\<close>

theorem c_value_roundtrip:
  assumes "wf_val v" and "passable v" and "heap_ok st" and "size v < n"
  shows "\<exists>p st1 st2 st3. make_value v st = (Inr p, st1) \<and> read_back n d2f N print p st1 = (Inr v, st2)
    \<and> skaidb_value_free p st2 = (Inr (), st3) \<and> boxes st3 = boxes st"
proof -
  from make_value_makes[OF assms(1,2)] assms(3) obtain a st1 where
    a: "make_value v st = (Inr (Ref a []), st1)" "brk st \<le> a" "a < brk st1" "boxes st1 = (boxes st)(a \<mapsto> ValueBox v)"
    unfolding makes_def by blast
  have "heap_ok st1" using assms(3) a by (auto simp: heap_ok_def)
  moreover have "deref_val (Ref a []) st1 = Some v" using a(4) by (simp add: deref_val_def box_val_def)
  ultimately obtain st2 where s2: "read_back n d2f N print (Ref a []) st1 = (Inr v, st2)" "boxes st2 = boxes st1"
    using read_value[OF _ _ assms(1,2,4)] unfolding reads_def by blast
  have "skaidb_value_free (Ref a []) st2 = (Inr (), clear_box a st2)"
    using s2(2) a(4) by (simp add: skaidb_value_free_def free_box_def from_raw_def whole_def as_value_def sbind_def)
  moreover have "boxes (clear_box a st2) = boxes st"
    using s2(2) a(2,4) assms(3) by (auto simp: clear_box_def heap_ok_def)
  ultimately show ?thesis using a(1) s2(1) by blast
qed

definition sample_memory :: "(unit, bytes \<times> bytes, nat) c_state" where
  "sample_memory = \<lparr>boxes = (\<lambda>_. None), brk = 1, last_error = [], error_turn = 0, key_scratch = [], key_turn = 0,
     process = sample_process, balancers = (\<lambda>_. None)\<rparr>"

theorem c_value_roundtrip_witness:
  "\<exists>p st1 st2. make_value (VDocument [([0x61], VArray [VInt 1, VString [0x62, 0]])]) sample_memory = (Inr p, st1)
    \<and> read_back 20 (\<lambda>_. 0) sum_numbers (\<lambda>_. []) p st1 = (Inr (VDocument [([0x61], VArray [VInt 1, VString [0x62, 0]])]), st2)"
  using c_value_roundtrip[of "VDocument [([0x61], VArray [VInt 1, VString [0x62, 0]])]" sample_memory 20 "\<lambda>_. 0" sum_numbers "\<lambda>_. []"]
  by (auto simp: heap_ok_def sample_memory_def)

text \<open>A dotted path finds the value the document library finds, in place, and nothing when it finds nothing.\<close>

lemma doc_pos_get: "doc_get d k = map_option (\<lambda>i. snd (d ! i)) (doc_pos k d) \<and> (\<forall>i. doc_pos k d = Some i \<longrightarrow> i < length d)"
  unfolding doc_get_def by (induction d) (auto simp: option.map_comp comp_def split: if_splits)

lemma path_place_lookup:
  "(case path_lookup d ks of None \<Rightarrow> path_place d ks = None | Some x \<Rightarrow> \<exists>ps. path_place d ks = Some ps \<and> val_at ps (VDocument d) = Some x)"
proof (induction d ks rule: path_lookup.induct)
  case (2 d k)
  then show ?case using doc_pos_get[of d k] by (cases "doc_pos k d") auto
next
  case (3 d k k2 ks)
  show ?case
  proof (cases "doc_pos k d")
    case None
    then show ?thesis using doc_pos_get[of d k] by simp
  next
    case (Some i)
    then have g: "doc_get d k = Some (snd (d ! i))" "i < length d" using doc_pos_get[of d k] by simp_all
    show ?thesis
    proof (cases "snd (d ! i)")
      case (VDocument d')
      with 3[OF g(1)[unfolded VDocument] refl] show ?thesis using Some g by (auto split: option.splits)
    qed (use Some g in simp_all)
  qed
qed simp

lemma doc_get_path_lookup: "doc_get_path d p = path_lookup d (split_on 0x2E p)"
proof (cases "split_once 0x2E p")
  case None
  then show ?thesis by (simp add: doc_get_path_def split_on_cases[of _ p])
next
  case (Some pr)
  obtain q r where pr: "pr = (q, r)" by fastforce
  obtain y ys where "split_on 0x2E r = y # ys" by (cases "split_on 0x2E r") auto
  then show ?thesis using Some pr by (auto simp: doc_get_path_def split_on_cases[of _ p] get_path_loop_lookup split: option.splits val.splits)
qed

theorem document_get_in_place:
  assumes "deref_val v st = Some (VDocument d)" and "utf8_ok path" and "0 \<notin> set path"
  shows "\<exists>q. skaidb_value_document_get v (Some path) st = (Inr q, st) \<and> deref_val q st = doc_get_path d path
    \<and> (q = Null \<longleftrightarrow> doc_get_path d path = None)"
proof -
  note n = deref_not_null[OF assms(1)]
  have e: "skaidb_value_document_get v (Some path) st = (Inr (case doc_get_path d path of
      Some _ \<Rightarrow> (case path_place d (split_on 0x2E path) of Some ps \<Rightarrow> at_place v ps | None \<Rightarrow> Null) | None \<Rightarrow> Null), st)"
    using n assms by (simp add: skaidb_value_document_get_def or_null_def sbind_def cstr_ok)
  show ?thesis
  proof (cases "doc_get_path d path")
    case None
    then show ?thesis using e by (simp add: deref_val_def)
  next
    case (Some x)
    then obtain ps where ps: "path_place d (split_on 0x2E path) = Some ps" "val_at ps (VDocument d) = Some x"
      using path_place_lookup[of d "split_on 0x2E path"] by (auto simp: doc_get_path_lookup)
    then show ?thesis using e Some deref_at_place[OF assms(1), of ps] n by (auto simp: at_place_def split: ptr.splits)
  qed
qed

end
