(* ===== verification/C_Result.thy ===== *)
theory C_Result
  imports C_Value
begin

text \<open>
  Results across the C interface: the translation of a response into a result object, and the readers of results, of the
  sets inside one and of the results of a pipeline (\<^verbatim>\<open>skaidb-ffi/src/lib.rs\<close>, "results").
\<close>

section \<open>Results\<close>

definition row_set_of :: "rstr list \<Rightarrow> row list \<Rightarrow> skaidb_result" where
  "row_set_of columns rows = RRows \<lparr>set_columns = map c_string_lossy columns, set_rows = rows\<rparr>"

definition result_of :: "('w, 't, 's, 'h, 'f) env \<Rightarrow> response \<Rightarrow> skaidb_result" where
  "result_of E resp = (case resp of
     Rows columns rows \<Rightarrow> row_set_of columns rows
   | Mutation affected \<Rightarrow> RMutation affected
   | Ddl \<Rightarrow> RDdl
   | Error m \<Rightarrow> RError (c_string_lossy m)
   | ResultSets sets \<Rightarrow> RSets (map (\<lambda>(columns, rows). row_set_of columns rows) sets)
   | other \<Rightarrow> RError (c_string_lossy (of_str ''unexpected response '' @ show_response E other)))"

fun result_at :: "place list \<Rightarrow> skaidb_result \<Rightarrow> skaidb_result option" where
  "result_at [] r = Some r"
| "result_at (AtSet i # ps) (RSets sets) = (if i < length sets then result_at ps (sets ! i) else None)"
| "result_at _ _ = None"

definition box_result :: "place list \<Rightarrow> 's c_box \<Rightarrow> skaidb_result option" where
  "box_result ps b = (case b of
     ResultBox r \<Rightarrow> result_at ps r
   | ResultsBox rs \<Rightarrow> (case ps of AtResult i # ps \<Rightarrow> (if i < length rs then result_at ps (rs ! i) else None) | _ \<Rightarrow> None)
   | _ \<Rightarrow> None)"

definition deref_result :: "ptr \<Rightarrow> ('w, 's, 'f) c_state \<Rightarrow> skaidb_result option" where
  "deref_result p st = (case p of Ref a ps \<Rightarrow> Option.bind (boxes st a) (box_result ps) | _ \<Rightarrow> None)"

definition the_result :: "ptr \<Rightarrow> ('w, 's, 'f, skaidb_result) c_op" where
  "the_result p st = (case deref_result p st of Some r \<Rightarrow> (Inr r, st) | None \<Rightarrow> UB st)"

section \<open>A pipeline's results\<close>

definition skaidb_results_len :: "ptr \<Rightarrow> ('w, 's, 'f, nat) c_op" where
  "skaidb_results_len results = (if results = Null then sret 0 else sbind (whole as_results results) (\<lambda>(a, rs). sret (length rs)))"

definition skaidb_results_get :: "ptr \<Rightarrow> nat \<Rightarrow> ('w, 's, 'f, ptr) c_op" where
  "skaidb_results_get results index =
    (if results = Null then sret Null
     else sbind (whole as_results results) (\<lambda>(a, rs). sret (if index < length rs then at_place results [AtResult index] else Null)))"

definition skaidb_results_free :: "ptr \<Rightarrow> ('w, 's, 'f, unit) c_op" where
  "skaidb_results_free results = free_box as_results results"

section \<open>One result\<close>

definition skaidb_result_kind :: "ptr \<Rightarrow> ('w, 's, 'f, skaidb_result_kind) c_op" where
  "skaidb_result_kind result =
    (if result = Null then sret SKAIDB_RESULT_ERROR
     else sbind (the_result result) (\<lambda>r. sret (case r of
       RRows _ \<Rightarrow> SKAIDB_RESULT_ROWS | RMutation _ \<Rightarrow> SKAIDB_RESULT_MUTATION | RDdl \<Rightarrow> SKAIDB_RESULT_DDL
     | RError _ \<Rightarrow> SKAIDB_RESULT_ERROR | RSets _ \<Rightarrow> SKAIDB_RESULT_SETS)))"

definition rowset :: "ptr \<Rightarrow> ('w, 's, 'f, row_set option) c_op" where
  "rowset result = (if result = Null then sret None
     else sbind (the_result result) (\<lambda>r. sret (case r of RRows rs \<Rightarrow> Some rs | _ \<Rightarrow> None)))"

definition skaidb_result_column_count :: "ptr \<Rightarrow> ('w, 's, 'f, nat) c_op" where
  "skaidb_result_column_count result = sbind (rowset result) (\<lambda>rs. sret (case rs of None \<Rightarrow> 0 | Some rs \<Rightarrow> length (set_columns rs)))"

definition skaidb_result_column_name :: "ptr \<Rightarrow> nat \<Rightarrow> ('w, 's, 'f, ptr) c_op" where
  "skaidb_result_column_name result column = sbind (rowset result) (\<lambda>rs. sret (case rs of
     None \<Rightarrow> Null | Some rs \<Rightarrow> (if column < length (set_columns rs) then at_place result [AtName 0 column] else Null)))"

definition skaidb_result_row_count :: "ptr \<Rightarrow> ('w, 's, 'f, nat) c_op" where
  "skaidb_result_row_count result = sbind (rowset result) (\<lambda>rs. sret (case rs of None \<Rightarrow> 0 | Some rs \<Rightarrow> length (set_rows rs)))"

definition skaidb_result_cell :: "ptr \<Rightarrow> nat \<Rightarrow> nat \<Rightarrow> ('w, 's, 'f, ptr) c_op" where
  "skaidb_result_cell result row column = sbind (rowset result) (\<lambda>rs. sret (case rs of
     None \<Rightarrow> Null
   | Some rs \<Rightarrow> (if row < length (set_rows rs) \<and> column < length (set_rows rs ! row) then at_place result [AtCell row column] else Null)))"

definition skaidb_result_affected :: "ptr \<Rightarrow> ('w, 's, 'f, u64) c_op" where
  "skaidb_result_affected result = (if result = Null then sret 0
     else sbind (the_result result) (\<lambda>r. sret (case r of RMutation n \<Rightarrow> n | _ \<Rightarrow> 0)))"

definition skaidb_result_error :: "ptr \<Rightarrow> ('w, 's, 'f, ptr) c_op" where
  "skaidb_result_error result = (if result = Null then sret Null
     else sbind (the_result result) (\<lambda>r. sret (case r of RError m \<Rightarrow> at_place result [AtError] | _ \<Rightarrow> Null)))"

definition skaidb_result_set_count :: "ptr \<Rightarrow> ('w, 's, 'f, nat) c_op" where
  "skaidb_result_set_count result = (if result = Null then sret 0
     else sbind (the_result result) (\<lambda>r. sret (case r of RSets s \<Rightarrow> length s | _ \<Rightarrow> 0)))"

definition skaidb_result_set :: "ptr \<Rightarrow> nat \<Rightarrow> ('w, 's, 'f, ptr) c_op" where
  "skaidb_result_set result index = (if result = Null then sret Null
     else sbind (the_result result) (\<lambda>r. sret (case r of
       RSets s \<Rightarrow> (if index < length s then at_place result [AtSet index] else Null) | _ \<Rightarrow> Null)))"

definition skaidb_result_free :: "ptr \<Rightarrow> ('w, 's, 'f, unit) c_op" where
  "skaidb_result_free result = free_box as_result result"

lemmas result_defs = skaidb_results_len_def skaidb_results_get_def skaidb_result_kind_def skaidb_result_column_count_def
  skaidb_result_column_name_def skaidb_result_row_count_def skaidb_result_cell_def skaidb_result_affected_def skaidb_result_error_def
  skaidb_result_set_count_def skaidb_result_set_def

section \<open>What the readers leave alone\<close>

text \<open>A reader changes nothing at all.\<close>

definition pure :: "('w, 's, 'f, 'a) c_op \<Rightarrow> bool" where
  "pure m \<longleftrightarrow> (\<forall>st. snd (m st) = st)"

named_theorems pures

lemma pure_sbind [pures]: "pure m \<Longrightarrow> (\<And>x. pure (f x)) \<Longrightarrow> pure (sbind m f)"
  by (simp add: pure_def sbind_def split: prod.split sum.split) (metis snd_conv)

lemma pure_basic [pures]: "pure (slift r)" "pure (sret x)" "pure (deref p)" "pure (whole proj p)" "pure (the_result p)"
  by (auto simp: pure_def deref_def whole_def the_result_def split: ptr.split list.split option.split)

lemma pure_rowset [pures]: "pure (rowset p)" "pure (val p)"
  unfolding rowset_def val_def by (auto intro!: pures)

lemma result_readers_pure [pures]:
  "pure (skaidb_results_len p)" "pure (skaidb_results_get p i)" "pure (skaidb_result_kind p)" "pure (skaidb_result_column_count p)"
  "pure (skaidb_result_column_name p i)" "pure (skaidb_result_row_count p)" "pure (skaidb_result_cell p i j)" "pure (skaidb_result_affected p)"
  "pure (skaidb_result_error p)" "pure (skaidb_result_set_count p)" "pure (skaidb_result_set p i)"
  unfolding result_defs by (auto intro!: pures)

lemma pure_spares: "pure m \<Longrightarrow> spares a m"
  by (simp add: pure_def spares_def)

section \<open>A program that reads a result\<close>

definition read_names :: "ptr \<Rightarrow> nat \<Rightarrow> ('w, 's, 'f, bytes list) c_op" where
  "read_names p n = mapM (\<lambda>j. sbind (skaidb_result_column_name p j) copy_text) [0..<n]"

definition read_rows :: "ptr \<Rightarrow> ('w, 's, 'f, bytes list \<times> row list) c_op" where
  "read_rows p =
    sbind (skaidb_result_column_count p) (\<lambda>n. sbind (skaidb_result_row_count p) (\<lambda>m.
    sbind (read_names p n) (\<lambda>names.
    sbind (mapM (\<lambda>i. mapM (\<lambda>j. sbind (skaidb_result_cell p i j) deref) [0..<n]) [0..<m]) (\<lambda>rows. sret (names, rows)))))"

definition read_result :: "ptr \<Rightarrow> ('w, 's, 'f, response) c_op" where
  "read_result p = sbind (skaidb_result_kind p) (\<lambda>k. case k of
     SKAIDB_RESULT_ROWS \<Rightarrow> sbind (read_rows p) (\<lambda>(names, rows). sret (Rows names rows))
   | SKAIDB_RESULT_MUTATION \<Rightarrow> sbind (skaidb_result_affected p) (\<lambda>n. sret (Mutation n))
   | SKAIDB_RESULT_DDL \<Rightarrow> sret Ddl
   | SKAIDB_RESULT_ERROR \<Rightarrow> sbind (skaidb_result_error p) (\<lambda>q. sbind (copy_text q) (\<lambda>m. sret (Error m)))
   | SKAIDB_RESULT_SETS \<Rightarrow>
       sbind (skaidb_result_set_count p) (\<lambda>n.
       sbind (mapM (\<lambda>i. sbind (skaidb_result_set p i) read_rows) [0..<n]) (\<lambda>sets. sret (ResultSets sets))))"

text \<open>The responses a statement is answered with: as many cells as columns in every row, names and messages without a NUL.\<close>

definition table_ok :: "rstr list \<Rightarrow> row list \<Rightarrow> bool" where
  "table_ok columns rows \<longleftrightarrow> (\<forall>c \<in> set columns. 0 \<notin> set c) \<and> (\<forall>r \<in> set rows. length r = length columns)"

definition shown :: "response \<Rightarrow> bool" where
  "shown resp = (case resp of
     Rows columns rows \<Rightarrow> table_ok columns rows | Mutation _ \<Rightarrow> True | Ddl \<Rightarrow> True | Error m \<Rightarrow> 0 \<notin> set m
   | ResultSets sets \<Rightarrow> (\<forall>(columns, rows) \<in> set sets. table_ok columns rows) | _ \<Rightarrow> False)"

lemma result_at_append: "result_at ps r = Some x \<Longrightarrow> result_at (ps @ qs) r = result_at qs x
    \<and> (qs \<noteq> [] \<longrightarrow> cell_at (ps @ qs) r = cell_at qs x) \<and> result_text (ps @ qs) r = result_text qs x"
  by (induction ps r rule: result_at.induct) (auto split: if_splits)

lemma box_result_append:
  assumes "box_result ps b = Some r"
  shows "box_result (ps @ qs) b = result_at qs r \<and> (qs \<noteq> [] \<longrightarrow> box_val (ps @ qs) b = cell_at qs r)
    \<and> (qs \<noteq> [] \<longrightarrow> box_text (ps @ qs) b = result_text qs r)"
proof (cases b)
  case (ResultBox x)
  then show ?thesis using assms result_at_append[of ps x r qs] by (simp add: box_result_def box_val_def box_text_def)
next
  case (ResultsBox rs)
  then obtain i ps' where ps: "ps = AtResult i # ps'" "i < length rs" "result_at ps' (rs ! i) = Some r"
    using assms by (auto simp: box_result_def split: list.splits place.splits if_splits)
  then show ?thesis using ResultsBox result_at_append[OF ps(3), of qs] by (simp add: box_result_def box_val_def box_text_def)
qed (use assms in \<open>simp_all add: box_result_def\<close>)

lemma deref_result_at_place:
  assumes "deref_result p st = Some r"
  shows "deref_result (at_place p qs) st = result_at qs r
    \<and> (qs \<noteq> [] \<longrightarrow> deref_val (at_place p qs) st = cell_at qs r) \<and> (qs \<noteq> [] \<longrightarrow> read_text (at_place p qs) st = result_text qs r)"
proof -
  obtain a ps b where p: "p = Ref a ps" "boxes st a = Some b" "box_result ps b = Some r"
    using assms by (auto simp: deref_result_def bind_eq_Some_conv split: ptr.splits)
  then show ?thesis using box_result_append[OF p(3), of qs] by (simp add: deref_result_def deref_val_def read_text_def at_place_def)
qed

lemma deref_result_not_null: "deref_result p st = Some r \<Longrightarrow> p \<noteq> Null \<and> the_result p st = (Inr r, st)"
  by (auto simp: deref_result_def the_result_def)

lemma mapM_pure:
  assumes "\<And>i. i \<in> set is \<Longrightarrow> f i st = (Inr (g i), st)"
  shows "mapM f is st = (Inr (map g is), st)"
  using assms by (induction "is") (auto simp: sbind_def)

lemma lossy_id: "0 \<notin> set s \<Longrightarrow> c_string_lossy s = s"
  by (simp add: c_string_lossy_def)

lemma read_rows_ok:
  assumes "deref_result p st = Some (row_set_of columns rows)" and "table_ok columns rows"
  shows "read_rows p st = (Inr (columns, rows), st)"
proof -
  note d = deref_result_not_null[OF assms(1)] and e = deref_result_at_place[OF assms(1)]
  have c: "map c_string_lossy columns = columns" using assms(2) by (auto simp: table_ok_def lossy_id intro!: map_idI)
  have rs: "rowset p st = (Inr (Some \<lparr>set_columns = columns, set_rows = rows\<rparr>), st)"
    using d c by (simp add: rowset_def sbind_def row_set_of_def)
  have "read_names p (length columns) st = (Inr (map ((!) columns) [0..<length columns]), st)"
    unfolding read_names_def
    by (rule mapM_pure) (use rs e c in \<open>auto simp: skaidb_result_column_name_def sbind_def copy_text_def row_set_of_def\<close>)
  moreover have "mapM (\<lambda>i. mapM (\<lambda>j. sbind (skaidb_result_cell p i j) deref) [0..<length columns]) [0..<length rows] st
      = (Inr (map ((!) rows) [0..<length rows]), st)"
  proof (rule mapM_pure)
    fix i assume "i \<in> set [0..<length rows]"
    then have i: "i < length rows" "length (rows ! i) = length columns" using assms(2) by (auto simp: table_ok_def)
    have "mapM (\<lambda>j. sbind (skaidb_result_cell p i j) deref) [0..<length columns] st = (Inr (map ((!) (rows ! i)) [0..<length columns]), st)"
      by (rule mapM_pure) (use rs e i in \<open>auto simp: skaidb_result_cell_def sbind_def deref_def row_set_of_def\<close>)
    then show "mapM (\<lambda>j. sbind (skaidb_result_cell p i j) deref) [0..<length columns] st = (Inr (rows ! i), st)"
      using i(2) map_nth[of "rows ! i"] by simp
  qed
  ultimately show ?thesis
    using rs by (simp add: read_rows_def skaidb_result_column_count_def skaidb_result_row_count_def sbind_def map_nth)
qed

lemma read_result_ok:
  assumes "deref_result p st = Some (result_of E resp)" and "shown resp"
  shows "read_result p st = (Inr resp, st)"
proof -
  note d = deref_result_not_null[OF assms(1)] and e = deref_result_at_place[OF assms(1)]
  show ?thesis
  proof (cases resp)
    case (Rows columns rows)
    then show ?thesis using d assms read_rows_ok[of p st columns rows]
      by (simp add: read_result_def skaidb_result_kind_def sbind_def result_of_def shown_def row_set_of_def)
  next
    case (ResultSets sets)
    have "mapM (\<lambda>i. sbind (skaidb_result_set p i) read_rows) [0..<length sets] st = (Inr (map ((!) sets) [0..<length sets]), st)"
    proof (rule mapM_pure)
      fix i assume "i \<in> set [0..<length sets]"
      then have i: "i < length sets" by simp
      obtain columns rows where cr: "sets ! i = (columns, rows)" by fastforce
      have "table_ok columns rows" using assms(2) ResultSets nth_mem[OF i] cr by (auto simp: shown_def)
      moreover have "deref_result (at_place p [AtSet i]) st = Some (row_set_of columns rows)"
        using e[of "[AtSet i]"] ResultSets i cr by (simp add: result_of_def)
      ultimately show "sbind (skaidb_result_set p i) read_rows st = (Inr (sets ! i), st)"
        using d ResultSets i cr read_rows_ok by (simp add: skaidb_result_set_def sbind_def result_of_def)
    qed
    then show ?thesis using d ResultSets
      by (simp add: read_result_def skaidb_result_kind_def skaidb_result_set_count_def sbind_def result_of_def map_nth)
  qed (use assms(2) d e[of "[AtError]"] in \<open>auto simp: read_result_def skaidb_result_kind_def skaidb_result_affected_def skaidb_result_error_def
      sbind_def result_of_def shown_def copy_text_def lossy_id\<close>)
qed

section \<open>Properties\<close>

text \<open>Reading a result through the C interface gives the response of the server back: every cell of every row, every column
  name, every set, the affected count or the error message; the readers change nothing.\<close>

theorem result_shows_response:
  assumes "deref_result p st = Some (result_of E resp)" and "shown resp"
  shows "read_result p st = (Inr resp, st)"
  by (rule read_result_ok[OF assms])

theorem result_shows_response_witness:
  "read_result (Ref 1 []) (sample_memory\<lparr>boxes := [1 \<mapsto> ResultBox (result_of (sample_env []) (ResultSets [([[0x61]], [[VInt 7], [VNull]]), ([], [])]))]\<rparr>)
    = (Inr (ResultSets [([[0x61]], [[VInt 7], [VNull]]), ([], [])]),
       sample_memory\<lparr>boxes := [1 \<mapsto> ResultBox (result_of (sample_env []) (ResultSets [([[0x61]], [[VInt 7], [VNull]]), ([], [])]))]\<rparr>)"
  by (rule result_shows_response) (simp_all add: deref_result_def box_result_def shown_def table_ok_def)

end
