(* ===== verification/C_Client.thy ===== *)
theory C_Client
  imports C_Result
begin

text \<open>
  Connections and statements across the C interface (\<^verbatim>\<open>skaidb-ffi/src/lib.rs\<close>, "connecting", "statements" and "change
  streams"): every call checks its pointers, runs the driver's method on the connection in the client's box and boxes the
  outcome. A connection of a balanced pool reports to its balancer, which it keeps alive.
\<close>

section \<open>Running the driver\<close>

definition no_pool :: "('s, 'f) balancer_state" where
  "no_pool = \<lparr>members = [], idle = [], rr = 0, affinity = [], discovery_off = True, next_refresh = 0, closed = True, maintainer = False, rng = 1\<rparr>"

definition shared_of :: "'s client \<Rightarrow> ('w, 's, 'f) c_state \<Rightarrow> (nat \<times> ('s, 'f) shared) option" where
  "shared_of c st = Option.bind (link c) (\<lambda>l. map_option (Pair (link_pool l)) (balancers st (link_pool l)))"

definition set_pool_state :: "nat \<Rightarrow> ('s, 'f) balancer_state \<Rightarrow> ('w, 's, 'f) c_state \<Rightarrow> ('w, 's, 'f) c_state" where
  "set_pool_state b pl st = st\<lparr>balancers := (balancers st)(b := map_option (\<lambda>sh. sh\<lparr>sh_state := pl\<rparr>) (balancers st b))\<rparr>"

definition pool_view :: "('w, 't, 's, 'h, 'f) env \<Rightarrow> 's client \<Rightarrow> ('w, 's, 'f) c_state \<Rightarrow> ('w, 't, 's, 'h, 'f) env \<times> ('s, 'f) balancer_state" where
  "pool_view E c st = (case shared_of c st of Some (b, sh) \<Rightarrow> (E\<lparr>opts := sh_opts sh\<rparr>, sh_state sh) | None \<Rightarrow> (E, no_pool))"

definition put_back :: "nat \<Rightarrow> 's client \<Rightarrow> ('w, 's, 'f) driver \<Rightarrow> ('w, 's, 'f) c_state \<Rightarrow> ('w, 's, 'f) c_state" where
  "put_back a c d st =
    (let st = put_box a (ClientBox (me d)) (st\<lparr>process := proc d\<rparr>) in
     case shared_of c st of Some (b, sh) \<Rightarrow> set_pool_state b (pool d) st | None \<Rightarrow> st)"

text \<open>\<^verbatim>\<open>r.map_err(fail_driver)\<close>\<close>

definition driver_result :: "('w, 't, 's, 'h, 'f) env \<Rightarrow> (driver_error, 'a) res \<Rightarrow> ('w, 's, 'f, 'a) c_op" where
  "driver_result E r = (case r of
     Inr x \<Rightarrow> sret x
   | Inl (Err e) \<Rightarrow> throw (fail_driver E e)
   | Inl (Panic m) \<Rightarrow> slift (Inl (Panic m))
   | Inl OutOfFuel \<Rightarrow> slift (Inl OutOfFuel))"

definition on_driver :: "('w, 't, 's, 'h, 'f) env \<Rightarrow> nat \<Rightarrow> 's client
    \<Rightarrow> (('w, 't, 's, 'h, 'f) env \<Rightarrow> (('w, 's, 'f) driver, driver_error, 'a) op) \<Rightarrow> ('w, 's, 'f, 'a) c_op" where
  "on_driver E a c m st =
    (let (E', pl) = pool_view E c st; (r, d) = m E' \<lparr>me = c, proc = process st, pool = pl\<rparr> in
     driver_result E r (put_back a c d st))"

text \<open>\<^verbatim>\<open>Box::into_raw(Box::new(b))\<close>\<close>

definition box_new :: "'s c_box \<Rightarrow> ('w, 's, 'f, ptr) c_op" where
  "box_new b st = (let (a, st) = alloc b st in (Inr (Ref a []), st))"

text \<open>An \<^verbatim>\<open>Err\<close> becomes what the call returns for its status.\<close>

definition catching :: "(skaidb_status \<Rightarrow> 'a) \<Rightarrow> ('w, 's, 'f, 'a) c_op \<Rightarrow> ('w, 's, 'f, 'a) c_op" where
  "catching h m st = (case m st of (Inl (Err s), st) \<Rightarrow> (Inr (h s), st) | other \<Rightarrow> other)"

definition client_mut :: "ptr \<Rightarrow> ('w, 's, 'f, nat \<times> 's client) c_op" where
  "client_mut c = (if c = Null then throw (fail SKAIDB_ERR_INVALID (of_str ''client is NULL'')) else whole as_client c)"

definition drop_linked :: "'s client \<Rightarrow> ('w, 's, 'f) c_state \<Rightarrow> ('w, 's, 'f) c_state" where
  "drop_linked c st = (case shared_of c st of Some (b, sh) \<Rightarrow> set_pool_state b (drop_client c (sh_state sh)) st | None \<Rightarrow> st)"

section \<open>Connecting\<close>

definition connecting :: "('w, 't, 's, 'h, 'f) env \<Rightarrow> ('w, 's, 'f) connecting \<Rightarrow> ('w, 's, 'f, 's client) c_op" where
  "connecting E m st = (let (r, (p, _)) = m (process st, no_pool) in driver_result E r (st\<lparr>process := p\<rparr>))"

definition skaidb_connect :: "('w, 't, 's, 'h, 'f) env \<Rightarrow> 'w tls_new \<Rightarrow> c_str list option \<Rightarrow> nat \<Rightarrow> c_str \<Rightarrow> c_str \<Rightarrow> skaidb_tls option \<Rightarrow> bool
    \<Rightarrow> ('w, 's, 'f, skaidb_status \<times> ptr option) c_op" where
  "skaidb_connect E tls_new endpoints n user_ptr pass_ptr tls out = boxed out (
     sbind (cstr_list endpoints n ''endpoints'') (\<lambda>eps.
     if eps = [] then throw (fail SKAIDB_ERR_INVALID (of_str ''no endpoints''))
     else sbind (cstr user_ptr ''username'') (\<lambda>user. sbind (cstr pass_ptr ''password'') (\<lambda>pass.
       sbind (tls_config_of E tls_new tls) (\<lambda>tls.
       sbind (connecting E (connect_many_tls E eps user pass tls)) (\<lambda>c. sret (ClientBox c)))))))"

definition skaidb_connect_anonymous :: "('w, 't, 's, 'h, 'f) env \<Rightarrow> c_str \<Rightarrow> bool \<Rightarrow> ('w, 's, 'f, skaidb_status \<times> ptr option) c_op" where
  "skaidb_connect_anonymous E endpoint out = boxed out (
     sbind (cstr endpoint ''endpoint'') (\<lambda>ep. sbind (connecting E (connect E ep)) (\<lambda>c. sret (ClientBox c))))"

definition skaidb_connect_gssapi :: "('w, 't, 's, 'h, 'f) env \<Rightarrow> 'w tls_new \<Rightarrow> c_str list option \<Rightarrow> nat \<Rightarrow> c_str \<Rightarrow> c_str \<Rightarrow> skaidb_tls option \<Rightarrow> bool
    \<Rightarrow> ('w, 's, 'f, skaidb_status \<times> ptr option) c_op" where
  "skaidb_connect_gssapi E tls_new endpoints n princ_ptr target_spn tls out = boxed out (
     sbind (cstr_list endpoints n ''endpoints'') (\<lambda>eps.
     if eps = [] then throw (fail SKAIDB_ERR_INVALID (of_str ''no endpoints''))
     else sbind (cstr princ_ptr ''principal'') (\<lambda>princ. sbind (cstr target_spn ''target_spn'') (\<lambda>spn.
       sbind (tls_config_of E tls_new tls) (\<lambda>tls.
       sbind (connecting E (connect_gssapi_tls E eps princ spn tls)) (\<lambda>c. sret (ClientBox c)))))))"

definition skaidb_client_free :: "ptr \<Rightarrow> ('w, 's, 'f, unit) c_op" where
  "skaidb_client_free client =
    (if client = Null then sret () else sbind (from_raw as_client client) (\<lambda>c st. (Inr (), drop_linked c st)))"

definition skaidb_client_use_database :: "('w, 't, 's, 'h, 'f) env \<Rightarrow> ptr \<Rightarrow> c_str \<Rightarrow> ('w, 's, 'f, skaidb_status) c_op" where
  "skaidb_client_use_database E client database = catch (
     sbind (cstr database ''database'') (\<lambda>db. sbind (client_mut client) (\<lambda>(a, c).
     sbind (on_driver E a c (\<lambda>E. use_database E db)) (\<lambda>_. sret SKAIDB_OK))))"

definition skaidb_client_set_consistency :: "ptr \<Rightarrow> skaidb_consistency \<Rightarrow> ('w, 's, 'f, unit) c_op" where
  "skaidb_client_set_consistency client consistency = catching (\<lambda>_. ()) (sbind (client_mut client) (\<lambda>(a, c) st.
     (Inr (), put_box a (ClientBox (set_consistency (consistency_of consistency) c)) st)))"

definition skaidb_client_set_scan_budget_rows :: "('w, 't, 's, 'h, 'f) env \<Rightarrow> ptr \<Rightarrow> u64 \<Rightarrow> ('w, 's, 'f, skaidb_status) c_op" where
  "skaidb_client_set_scan_budget_rows E client rows = catch (sbind (client_mut client) (\<lambda>(a, c).
     sbind (on_driver E a c (\<lambda>E. set_scan_budget_rows E rows)) (\<lambda>_. sret SKAIDB_OK)))"

definition skaidb_client_endpoint_dup :: "ptr \<Rightarrow> ('w, 's, 'f, ptr) c_op" where
  "skaidb_client_endpoint_dup client =
    (if client = Null then sret Null else sbind (whole as_client client) (\<lambda>(a, c). dup (connected c)))"

definition skaidb_client_add_endpoints :: "ptr \<Rightarrow> c_str list option \<Rightarrow> nat \<Rightarrow> ('w, 's, 'f, skaidb_status) c_op" where
  "skaidb_client_add_endpoints client endpoints n = catch (
     sbind (cstr_list endpoints n ''endpoints'') (\<lambda>eps. sbind (client_mut client) (\<lambda>(a, c) st.
     (Inr SKAIDB_OK, put_box a (ClientBox (add_endpoints eps c)) st))))"

definition skaidb_client_reconnect :: "('w, 't, 's, 'h, 'f) env \<Rightarrow> ptr \<Rightarrow> ('w, 's, 'f, skaidb_status) c_op" where
  "skaidb_client_reconnect E client = catch (sbind (client_mut client) (\<lambda>(a, c).
     sbind (on_driver E a c reconnect) (\<lambda>_. sret SKAIDB_OK)))"

section \<open>Statements\<close>

definition skaidb_execute :: "('w, 't, 's, 'h, 'f) env \<Rightarrow> ptr \<Rightarrow> c_str \<Rightarrow> bool \<Rightarrow> ('w, 's, 'f, skaidb_status \<times> ptr option) c_op" where
  "skaidb_execute E client sql out = boxed out (
     sbind (client_mut client) (\<lambda>(a, c). sbind (cstr sql ''sql'') (\<lambda>sql.
     sbind (on_driver E a c (\<lambda>E. execute E sql)) (\<lambda>resp. sret (ResultBox (result_of E resp))))))"

definition skaidb_execute_with :: "('w, 't, 's, 'h, 'f) env \<Rightarrow> ptr \<Rightarrow> c_str \<Rightarrow> skaidb_consistency \<Rightarrow> bool
    \<Rightarrow> ('w, 's, 'f, skaidb_status \<times> ptr option) c_op" where
  "skaidb_execute_with E client sql consistency out = boxed out (
     sbind (client_mut client) (\<lambda>(a, c). sbind (cstr sql ''sql'') (\<lambda>sql.
     sbind (on_driver E a c (\<lambda>E. execute_with E sql (consistency_of consistency))) (\<lambda>resp. sret (ResultBox (result_of E resp))))))"

definition skaidb_prepare :: "('w, 't, 's, 'h, 'f) env \<Rightarrow> ptr \<Rightarrow> c_str \<Rightarrow> bool \<Rightarrow> ('w, 's, 'f, skaidb_status \<times> ptr option) c_op" where
  "skaidb_prepare E client sql out = boxed out (
     sbind (client_mut client) (\<lambda>(a, c). sbind (cstr sql ''sql'') (\<lambda>sql.
     sbind (on_driver E a c (\<lambda>E. prepare E sql)) (\<lambda>p. sret (PreparedBox p)))))"

definition skaidb_prepared_params :: "ptr \<Rightarrow> ('w, 's, 'f, nat) c_op" where
  "skaidb_prepared_params stmt = (if stmt = Null then sret 0 else sbind (whole as_prepared stmt) (\<lambda>(a, p). sret (unat (prep_params p))))"

definition skaidb_prepared_free :: "ptr \<Rightarrow> ('w, 's, 'f, unit) c_op" where
  "skaidb_prepared_free stmt = free_box as_prepared stmt"

text \<open>\<^verbatim>\<open>&mut (*stmt).0\<close> beside the connection.\<close>

definition stmt_mut :: "ptr \<Rightarrow> ('w, 's, 'f, nat \<times> prepared) c_op" where
  "stmt_mut stmt = (if stmt = Null then throw (fail SKAIDB_ERR_INVALID (of_str ''stmt is NULL'')) else whole as_prepared stmt)"

definition on_statement :: "('w, 't, 's, 'h, 'f) env \<Rightarrow> nat \<Rightarrow> 's client \<Rightarrow> nat \<Rightarrow> prepared
    \<Rightarrow> (('w, 't, 's, 'h, 'f) env \<Rightarrow> (prepared \<times> ('w, 's, 'f) driver, driver_error, 'a) op) \<Rightarrow> ('w, 's, 'f, 'a) c_op" where
  "on_statement E a c b p m st =
    (let (E', pl) = pool_view E c st; (r, (p, d)) = m E' (p, \<lparr>me = c, proc = process st, pool = pl\<rparr>) in
     driver_result E r (put_box b (PreparedBox p) (put_back a c d st)))"

definition execute_statement :: "('w, 't, 's, 'h, 'f) env \<Rightarrow> ptr \<Rightarrow> ptr \<Rightarrow> ptr list option \<Rightarrow> nat
    \<Rightarrow> (row \<Rightarrow> ('w, 't, 's, 'h, 'f) env \<Rightarrow> (prepared \<times> ('w, 's, 'f) driver, driver_error, response) op) \<Rightarrow> bool
    \<Rightarrow> ('w, 's, 'f, skaidb_status \<times> ptr option) c_op" where
  "execute_statement E client stmt params n m out = boxed out (
     sbind (client_mut client) (\<lambda>(a, c). sbind (stmt_mut stmt) (\<lambda>(b, p). sbind (params_slice params n) (\<lambda>ps.
     sbind (on_statement E a c b p (m ps)) (\<lambda>resp. sret (ResultBox (result_of E resp)))))))"

definition skaidb_execute_prepared :: "('w, 't, 's, 'h, 'f) env \<Rightarrow> ptr \<Rightarrow> ptr \<Rightarrow> ptr list option \<Rightarrow> nat \<Rightarrow> bool
    \<Rightarrow> ('w, 's, 'f, skaidb_status \<times> ptr option) c_op" where
  "skaidb_execute_prepared E client stmt params n out = execute_statement E client stmt params n (\<lambda>ps E. execute_prepared E ps) out"

definition skaidb_execute_prepared_with :: "('w, 't, 's, 'h, 'f) env \<Rightarrow> ptr \<Rightarrow> ptr \<Rightarrow> ptr list option \<Rightarrow> nat \<Rightarrow> skaidb_consistency \<Rightarrow> bool
    \<Rightarrow> ('w, 's, 'f, skaidb_status \<times> ptr option) c_op" where
  "skaidb_execute_prepared_with E client stmt params n consistency out =
     execute_statement E client stmt params n (\<lambda>ps E. execute_prepared_with E ps (consistency_of consistency)) out"

text \<open>The status and what is written to \<^verbatim>\<open>*affected\<close>.\<close>

definition skaidb_execute_batch :: "('w, 't, 's, 'h, 'f) env \<Rightarrow> ptr \<Rightarrow> ptr \<Rightarrow> ptr list option list option \<Rightarrow> nat \<Rightarrow> nat \<Rightarrow> bool
    \<Rightarrow> ('w, 's, 'f, skaidb_status \<times> u64 option) c_op" where
  "skaidb_execute_batch E client stmt rows n_rows n_params affected_is_null = catching (\<lambda>s. (s, None)) (
     sbind (client_mut client) (\<lambda>(a, c). sbind (stmt_mut stmt) (\<lambda>(b, p).
     if affected_is_null then throw (fail SKAIDB_ERR_INVALID (of_str ''affected is NULL''))
     else sbind (if n_rows = 0 then sret []
         else case rows of
           None \<Rightarrow> throw (fail SKAIDB_ERR_INVALID (of_str ''rows is NULL''))
         | Some rows \<Rightarrow> each (\<lambda>r _. params_slice r n_params) rows [0..<n_rows]) (\<lambda>batch.
       sbind (on_statement E a c b p (\<lambda>E. execute_batch E batch)) (\<lambda>n. sret (SKAIDB_OK, Some n))))))"

definition skaidb_pipeline :: "('w, 't, 's, 'h, 'f) env \<Rightarrow> ptr \<Rightarrow> c_str list option \<Rightarrow> nat \<Rightarrow> bool
    \<Rightarrow> ('w, 's, 'f, skaidb_status \<times> ptr option) c_op" where
  "skaidb_pipeline E client statements n out = boxed out (
     sbind (client_mut client) (\<lambda>(a, c). sbind (cstr_list statements n ''statements'') (\<lambda>stmts.
     sbind (on_driver E a c (\<lambda>E. pipeline E stmts)) (\<lambda>rs. sret (ResultsBox (map (result_of E) rs))))))"

section \<open>Change streams\<close>

text \<open>The status, what is written to \<^verbatim>\<open>*events\<close> and what is written to \<^verbatim>\<open>*next_cursor\<close>.\<close>

definition skaidb_stream_poll :: "('w, 't, 's, 'h, 'f) env \<Rightarrow> ptr \<Rightarrow> c_str \<Rightarrow> c_str \<Rightarrow> nat \<Rightarrow> bool \<Rightarrow> bool
    \<Rightarrow> ('w, 's, 'f, skaidb_status \<times> ptr option \<times> ptr option) c_op" where
  "skaidb_stream_poll E client stream_name after limit events_is_null next_is_null = catching (\<lambda>s. (s, None, None)) (
     if next_is_null then throw (fail SKAIDB_ERR_INVALID (of_str ''next_cursor is NULL''))
     else if events_is_null then throw (fail SKAIDB_ERR_INVALID (of_str ''out is NULL''))
     else sbind (client_mut client) (\<lambda>(a, c). sbind (cstr stream_name ''stream'') (\<lambda>name.
       sbind (cstr_opt after ''after'') (\<lambda>after.
       sbind (on_driver E a c (\<lambda>E. stream_poll E name (case after of Some s \<Rightarrow> s | None \<Rightarrow> []) limit)) (\<lambda>(rows, next).
       sbind (box_new (ResultBox (row_set_of (map of_str [''id'', ''op'', ''k'', ''ts'', ''doc'']) rows))) (\<lambda>p.
       sbind (dup next) (\<lambda>q. sret (SKAIDB_OK, Some p, Some q))))))))"

end
