(* ===== verification/C_Stream.thy ===== *)
theory C_Stream
  imports C_Client
begin

text \<open>
  Streamed result sets across the C interface (\<^verbatim>\<open>skaidb-ffi/src/lib.rs\<close>, "streamed result sets"). The stream object keeps the
  address of the client it borrows; the loops of the driver's stream take fuel, the number of frames they may read.
\<close>

section \<open>Opening\<close>

definition open_stream :: "('w, 't, 's, 'h, 'f) env \<Rightarrow> ptr \<Rightarrow> c_str \<Rightarrow> row \<Rightarrow> skaidb_consistency option \<Rightarrow> ('w, 's, 'f, 's c_box) c_op" where
  "open_stream E client sql params cons =
    sbind (client_mut client) (\<lambda>(a, c). sbind (cstr sql ''sql'') (\<lambda>sql.
    sbind (on_driver E a c (\<lambda>E. case cons of
        Some cons \<Rightarrow> query_stream_params_with E sql params (consistency_of cons)
      | None \<Rightarrow> query_stream_params E sql params)) (\<lambda>rs.
    sret (StreamBox \<lparr>s_client = a, s_stream = rs, s_columns = map c_string_lossy (rs_columns rs), s_past_columns = [],
      s_current = [], s_turn = 0\<rparr>))))"

definition skaidb_query_stream :: "('w, 't, 's, 'h, 'f) env \<Rightarrow> ptr \<Rightarrow> c_str \<Rightarrow> bool \<Rightarrow> ('w, 's, 'f, skaidb_status \<times> ptr option) c_op" where
  "skaidb_query_stream E client sql out = boxed out (open_stream E client sql [] None)"

definition skaidb_query_stream_with :: "('w, 't, 's, 'h, 'f) env \<Rightarrow> ptr \<Rightarrow> c_str \<Rightarrow> skaidb_consistency \<Rightarrow> bool
    \<Rightarrow> ('w, 's, 'f, skaidb_status \<times> ptr option) c_op" where
  "skaidb_query_stream_with E client sql cons out = boxed out (open_stream E client sql [] (Some cons))"

definition skaidb_query_stream_params :: "('w, 't, 's, 'h, 'f) env \<Rightarrow> ptr \<Rightarrow> c_str \<Rightarrow> ptr list option \<Rightarrow> nat \<Rightarrow> bool
    \<Rightarrow> ('w, 's, 'f, skaidb_status \<times> ptr option) c_op" where
  "skaidb_query_stream_params E client sql params n out =
     boxed out (sbind (params_slice params n) (\<lambda>ps. open_stream E client sql ps None))"

definition skaidb_query_stream_params_with :: "('w, 't, 's, 'h, 'f) env \<Rightarrow> ptr \<Rightarrow> c_str \<Rightarrow> ptr list option \<Rightarrow> nat \<Rightarrow> skaidb_consistency \<Rightarrow> bool
    \<Rightarrow> ('w, 's, 'f, skaidb_status \<times> ptr option) c_op" where
  "skaidb_query_stream_params_with E client sql params n cons out =
     boxed out (sbind (params_slice params n) (\<lambda>ps. open_stream E client sql ps (Some cons)))"

section \<open>Reading\<close>

definition skaidb_stream_column_count :: "ptr \<Rightarrow> ('w, 's, 'f, nat) c_op" where
  "skaidb_stream_column_count p = (if p = Null then sret 0 else sbind (whole as_stream p) (\<lambda>(a, s). sret (length (s_columns s))))"

definition skaidb_stream_column_name :: "ptr \<Rightarrow> nat \<Rightarrow> ('w, 's, 'f, ptr) c_op" where
  "skaidb_stream_column_name p column = (if p = Null then sret Null
     else sbind (whole as_stream p) (\<lambda>(a, s). sret (if column < length (s_columns s)
       then at_place p [AtName (length (s_past_columns s)) column] else Null)))"

definition skaidb_stream_affected :: "ptr \<Rightarrow> ('w, 's, 'f, u64) c_op" where
  "skaidb_stream_affected p = (if p = Null then sret 0 else sbind (whole as_stream p) (\<lambda>(a, s). sret (rs_affected (s_stream s))))"

text \<open>A method of the driver's stream, on the client the stream borrows.\<close>

definition on_stream :: "('w, 't, 's, 'h, 'f) env \<Rightarrow> skaidb_stream
    \<Rightarrow> (('w, 't, 's, 'h, 'f) env \<Rightarrow> (row_stream \<times> ('w, 's, 'f) driver, driver_error, 'a) op)
    \<Rightarrow> ('w, 's, 'f, (driver_error, 'a) res \<times> row_stream) c_op" where
  "on_stream E s m = sbind (whole as_client (Ref (s_client s) [])) (\<lambda>(a, c) st.
     (let (E', pl) = pool_view E c st; (r, (rs, d)) = m E' (s_stream s, \<lparr>me = c, proc = process st, pool = pl\<rparr>) in
      (Inr (r, rs), put_back a c d st)))"

text \<open>The driver's \<^verbatim>\<open>next\<close> touches the client only when it has to read a frame.\<close>

definition borrows :: "skaidb_stream \<Rightarrow> bool" where
  "borrows s \<longleftrightarrow> rs_chunk (s_stream s) = [] \<and> \<not> rs_done (s_stream s)"

definition stream_step :: "nat \<Rightarrow> ('w, 't, 's, 'h, 'f) env \<Rightarrow> skaidb_stream \<Rightarrow> ('w, 's, 'f, (driver_error, row option) res \<times> row_stream) c_op" where
  "stream_step fuel E s =
    (if borrows s then on_stream E s (next_row fuel)
     else case rs_chunk (s_stream s) of
       row # rest \<Rightarrow> sret (Inr (Some row), (s_stream s)\<lparr>rs_chunk := rest\<rparr>)
     | [] \<Rightarrow> sret (Inr None, s_stream s))"

text \<open>The status and what is written to \<^verbatim>\<open>*row\<close>, the cells of the row, and to \<^verbatim>\<open>*n_columns\<close>.\<close>

definition stream_outcome :: "('w, 't, 's, 'h, 'f) env \<Rightarrow> nat \<Rightarrow> skaidb_stream \<Rightarrow> (driver_error, row option) res
    \<Rightarrow> ('w, 's, 'f, skaidb_status \<times> (ptr list \<times> nat) option) c_op" where
  "stream_outcome E a s r st = (case r of
     Inr (Some row) \<Rightarrow>
       (let s = s\<lparr>s_current := row, s_turn := Suc (s_turn s)\<rparr> in
        (Inr (SKAIDB_OK, Some (map (\<lambda>i. Ref a [AtRow (s_turn s) i]) [0..<length row], length row)), put_box a (StreamBox s) st))
   | Inr None \<Rightarrow> (Inr (SKAIDB_END, Some ([], 0)), put_box a (StreamBox s) st)
   | Inl (Err e) \<Rightarrow> sbind (fail_driver E e) (\<lambda>status. sret (status, None)) (put_box a (StreamBox s) st)
   | Inl (Panic m) \<Rightarrow> (Inl (Panic m), put_box a (StreamBox s) st)
   | Inl OutOfFuel \<Rightarrow> (Inl OutOfFuel, put_box a (StreamBox s) st))"

definition skaidb_stream_next :: "nat \<Rightarrow> ('w, 't, 's, 'h, 'f) env \<Rightarrow> ptr \<Rightarrow> bool \<Rightarrow> bool
    \<Rightarrow> ('w, 's, 'f, skaidb_status \<times> (ptr list \<times> nat) option) c_op" where
  "skaidb_stream_next fuel E p row_is_null n_is_null =
    (if p = Null \<or> row_is_null \<or> n_is_null
     then sbind (fail SKAIDB_ERR_INVALID (of_str ''stream/row/n_columns is NULL'')) (\<lambda>s. sret (s, None))
     else sbind (whole as_stream p) (\<lambda>(a, s). sbind (stream_step fuel E s) (\<lambda>(r, rs). stream_outcome E a (s\<lparr>s_stream := rs\<rparr>) r)))"

definition skaidb_stream_next_set :: "ptr \<Rightarrow> ('w, 's, 'f, skaidb_status) c_op" where
  "skaidb_stream_next_set p =
    (if p = Null then fail SKAIDB_ERR_INVALID (of_str ''stream is NULL'')
     else sbind (whole as_stream p) (\<lambda>(a, s) st.
       let (moved, rs) = next_result_set (s_stream s) in
       if \<not> moved then (Inr SKAIDB_END, st)
       else (Inr SKAIDB_OK, put_box a (StreamBox (s\<lparr>s_stream := rs, s_columns := map c_string_lossy (rs_columns rs),
              s_past_columns := s_past_columns s @ [s_columns s]\<rparr>)) st)))"

text \<open>Dropping the driver's stream drains it, through the client, unless it has ended.\<close>

definition skaidb_stream_free :: "nat \<Rightarrow> ('w, 't, 's, 'h, 'f) env \<Rightarrow> ptr \<Rightarrow> ('w, 's, 'f, unit) c_op" where
  "skaidb_stream_free fuel E p =
    (if p = Null then sret ()
     else sbind (from_raw as_stream p) (\<lambda>s.
       if rs_done (s_stream s) then sret ()
       else sbind (on_stream E s (drop_stream fuel)) (\<lambda>(r, rs). driver_result E r)))"

section \<open>Streams that do not borrow\<close>

text \<open>The shortcut agrees with the driver's method.\<close>

lemma stream_step_next_row:
  assumes "boxes st (s_client s) = Some (ClientBox c)" and "\<not> borrows s"
  shows "\<exists>rs. fst (on_stream E s (next_row (Suc n)) st) = Inr rs \<and> fst (stream_step fuel E s st) = Inr rs"
  using assms by (auto simp: on_stream_def stream_step_def borrows_def whole_def as_client_def sbind_def Let_def pool_view_def
      split: list.splits prod.splits option.splits)

section \<open>Properties\<close>

text \<open>C34: Defect: freeing the client is offered as the cheap way to abandon a stream; a stream that has not ended cannot be freed
  after its client, for the drain reads through the client that is gone.\<close>

theorem stream_free_after_client:
  assumes "boxes st a = Some (StreamBox s)" and "boxes st (s_client s) = Some (ClientBox c)" and "\<not> rs_done (s_stream s)"
  shows "\<exists>st1. skaidb_client_free (Ref (s_client s) []) st = (Inr (), st1) \<and> fst (skaidb_stream_free fuel E (Ref a []) st1) = Inl undefined_behaviour"
proof -
  have ne: "a \<noteq> s_client s" using assms(1,2) by auto
  let ?st1 = "drop_linked c (clear_box (s_client s) st)"
  have b: "boxes ?st1 = (boxes st)(s_client s := None)"
    by (auto simp: drop_linked_def set_pool_state_def clear_box_def split: option.split prod.split)
  have "skaidb_client_free (Ref (s_client s) []) st = (Inr (), ?st1)"
    using assms(2) by (simp add: skaidb_client_free_def from_raw_def whole_def as_client_def sbind_def)
  moreover have "fst (skaidb_stream_free fuel E (Ref a []) ?st1) = Inl undefined_behaviour"
    using assms ne b by (simp add: skaidb_stream_free_def from_raw_def whole_def as_stream_def as_client_def on_stream_def sbind_def clear_box_def)
  ultimately show ?thesis by blast
qed

definition sample_stream :: "bool \<Rightarrow> skaidb_stream" where
  "sample_stream fin = \<lparr>s_client = 1, s_stream = \<lparr>rs_columns = [[0x61]], rs_affected = 0, rs_chunk = [[VInt 7]], rs_more = [([[0x62]], [[VNull]])], rs_done = fin\<rparr>,
     s_columns = [[0x61]], s_past_columns = [], s_current = [], s_turn = 0\<rparr>"

definition sample_heap :: "bool \<Rightarrow> (unit, bytes \<times> bytes, nat) c_state" where
  "sample_heap fin = sample_memory\<lparr>boxes := [1 \<mapsto> ClientBox (me sample_driver), 2 \<mapsto> StreamBox (sample_stream fin)], brk := 3\<rparr>"

theorem stream_free_after_client_witness:
  "\<exists>st1. skaidb_client_free (Ref 1 []) (sample_heap False) = (Inr (), st1)
    \<and> fst (skaidb_stream_free 5 (sample_env []) (Ref 2 []) st1) = Inl undefined_behaviour"
  using stream_free_after_client[of "sample_heap False" 2 "sample_stream False" "me sample_driver" 5 "sample_env []"]
  by (simp add: sample_heap_def sample_stream_def)

end
