(* ===== verification/Pool_Builder.thy ===== *)
theory Pool_Builder
  imports Checkout
begin

text \<open>
  The options of a balanced pool as the caller sets them (\<^verbatim>\<open>PoolBuilder\<close> of \<^verbatim>\<open>src/lib.rs\<close>), what \<^verbatim>\<open>build\<close> hands to
  the pool, and the loop of the background thread (\<^verbatim>\<open>maintain\<close>). The setters for logging in are with
  \<open>Discovery\<close>.
\<close>

section \<open>Setters\<close>

definition set_tls :: "tls_config \<Rightarrow> 'f pool_builder \<Rightarrow> 'f pool_builder" where
  "set_tls t b = b\<lparr>b_login := (b_login b)\<lparr>login_tls := Some t\<rparr>\<rparr>"

definition set_database :: "rstr \<Rightarrow> 'f pool_builder \<Rightarrow> 'f pool_builder" where
  "set_database db b = b\<lparr>b_database := Some db\<rparr>"

definition set_pool_consistency :: "consistency \<Rightarrow> 'f pool_builder \<Rightarrow> 'f pool_builder" where
  "set_pool_consistency c b = b\<lparr>b_consistency := c\<rparr>"

definition set_maxsize :: "nat \<Rightarrow> 'f pool_builder \<Rightarrow> 'f pool_builder" where
  "set_maxsize n b = b\<lparr>b_options := (b_options b)\<lparr>maxsize := n\<rparr>\<rparr>"

definition set_load_balancing :: "load_balancing \<Rightarrow> 'f pool_builder \<Rightarrow> 'f pool_builder" where
  "set_load_balancing p b = b\<lparr>b_options := (b_options b)\<lparr>load_balancing := p\<rparr>\<rparr>"

definition set_idle_order :: "idle_order \<Rightarrow> 'f pool_builder \<Rightarrow> 'f pool_builder" where
  "set_idle_order o0 b = b\<lparr>b_options := (b_options b)\<lparr>idle_order := o0\<rparr>\<rparr>"

definition set_discover :: "bool \<Rightarrow> 'f pool_builder \<Rightarrow> 'f pool_builder" where
  "set_discover x b = b\<lparr>b_options := (b_options b)\<lparr>discover := x\<rparr>\<rparr>"

definition set_refresh_interval :: "duration \<Rightarrow> 'f pool_builder \<Rightarrow> 'f pool_builder" where
  "set_refresh_interval d b = b\<lparr>b_options := (b_options b)\<lparr>refresh_interval := d\<rparr>\<rparr>"

definition set_read_your_writes :: "duration \<Rightarrow> 'f pool_builder \<Rightarrow> 'f pool_builder" where
  "set_read_your_writes d b = b\<lparr>b_options := (b_options b)\<lparr>read_your_writes := d\<rparr>\<rparr>"

definition set_eject_errors :: "nat \<Rightarrow> 'f pool_builder \<Rightarrow> 'f pool_builder" where
  "set_eject_errors n b = b\<lparr>b_options := (b_options b)\<lparr>eject_errors := n\<rparr>\<rparr>"

definition set_eject_latency_factor :: "'f \<Rightarrow> 'f pool_builder \<Rightarrow> 'f pool_builder" where
  "set_eject_latency_factor x b = b\<lparr>b_options := (b_options b)\<lparr>eject_latency_factor := x\<rparr>\<rparr>"

definition set_eject_latency_floor :: "duration \<Rightarrow> 'f pool_builder \<Rightarrow> 'f pool_builder" where
  "set_eject_latency_floor d b = b\<lparr>b_options := (b_options b)\<lparr>eject_latency_floor := d\<rparr>\<rparr>"

definition set_eject_backoff :: "duration \<Rightarrow> 'f pool_builder \<Rightarrow> 'f pool_builder" where
  "set_eject_backoff d b = b\<lparr>b_options := (b_options b)\<lparr>eject_backoff := d\<rparr>\<rparr>"

definition set_eject_backoff_max :: "duration \<Rightarrow> 'f pool_builder \<Rightarrow> 'f pool_builder" where
  "set_eject_backoff_max d b = b\<lparr>b_options := (b_options b)\<lparr>eject_backoff_max := d\<rparr>\<rparr>"

text \<open>The settings of the built pool, beside its state; \<open>self\<close> is its address.\<close>

definition conf_of :: "nat \<Rightarrow> 'f pool_builder \<Rightarrow> pool_conf" where
  "conf_of self b = \<lparr>conf_self = self, conf_login = b_login b, conf_database = b_database b, conf_consistency = b_consistency b\<rparr>"

section \<open>Every chain of calls\<close>

inductive configured :: "rstr list \<Rightarrow> 'f \<Rightarrow> 'f pool_builder \<Rightarrow> bool" for endpoints three where
  fresh: "configured endpoints three (builder three endpoints)"
| credentials: "configured endpoints three b \<Longrightarrow> configured endpoints three (credentials u pw b)"
| gssapi: "configured endpoints three b \<Longrightarrow> configured endpoints three (gssapi u spn b)"
| certificate: "configured endpoints three b \<Longrightarrow> configured endpoints three (certificate u b)"
| tls: "configured endpoints three b \<Longrightarrow> configured endpoints three (set_tls t b)"
| database: "configured endpoints three b \<Longrightarrow> configured endpoints three (set_database db b)"
| consistency: "configured endpoints three b \<Longrightarrow> configured endpoints three (set_pool_consistency c b)"
| maxsize: "configured endpoints three b \<Longrightarrow> configured endpoints three (set_maxsize n b)"
| load_balancing: "configured endpoints three b \<Longrightarrow> configured endpoints three (set_load_balancing p b)"
| idle_order: "configured endpoints three b \<Longrightarrow> configured endpoints three (set_idle_order o0 b)"
| discover: "configured endpoints three b \<Longrightarrow> configured endpoints three (set_discover x b)"
| refresh_interval: "configured endpoints three b \<Longrightarrow> configured endpoints three (set_refresh_interval d b)"
| read_your_writes: "configured endpoints three b \<Longrightarrow> configured endpoints three (set_read_your_writes d b)"
| eject_errors: "configured endpoints three b \<Longrightarrow> configured endpoints three (set_eject_errors n b)"
| eject_latency_factor: "configured endpoints three b \<Longrightarrow> configured endpoints three (set_eject_latency_factor fl b)"
| eject_latency_floor: "configured endpoints three b \<Longrightarrow> configured endpoints three (set_eject_latency_floor d b)"
| eject_backoff: "configured endpoints three b \<Longrightarrow> configured endpoints three (set_eject_backoff d b)"
| eject_backoff_max: "configured endpoints three b \<Longrightarrow> configured endpoints three (set_eject_backoff_max d b)"

lemmas setter_defs = credentials_def gssapi_def certificate_def set_tls_def set_database_def set_pool_consistency_def set_maxsize_def
  set_load_balancing_def set_idle_order_def set_discover_def set_refresh_interval_def set_read_your_writes_def set_eject_errors_def
  set_eject_latency_factor_def set_eject_latency_floor_def set_eject_backoff_def set_eject_backoff_max_def

lemma configured_facts:
  "configured endpoints three b \<Longrightarrow> b_endpoints b = endpoints
    \<and> (gssapi_spn (b_login b) = None \<or> \<not> cert_auth (b_login b) \<and> login_password (b_login b) = [])
    \<and> (cert_auth (b_login b) \<longrightarrow> login_password (b_login b) = [])"
  by (induction rule: configured.induct) (simp_all add: setter_defs builder_def)

section \<open>The loop of the background thread\<close>

text \<open>\<open>wakes\<close> says, for each time the thread wakes, whether the pool still exists. The result is whether the
  thread has returned.\<close>

primrec maintain :: "bool list \<Rightarrow> ('w, 't, 's, 'h, 'f) env \<Rightarrow> pool_conf \<Rightarrow> (('w, 's, 'f) pooled, driver_error, bool) op" where
  "maintain [] E P = sret False"
| "maintain (alive # wakes) E P =
    (if \<not> alive then sret True else sbind (tick_pool E P) (\<lambda>go. if go then maintain wakes E P else sret True))"

lemma maintain_sound:
  "maintain wakes E P (p, st) = (r, (p', st')) \<Longrightarrow> clean r \<Longrightarrow> reachable (conf_self P) (f64 E) (opts E) (st, held)
    \<Longrightarrow> reachable (conf_self P) (f64 E) (opts E) (st', held)"
proof (induction wakes arbitrary: p st)
  case (Cons alive wakes)
  obtain x p1 st1 where x: "tick_pool E P (p, st) = (x, (p1, st1))" by (metis surj_pair)
  note t = tick_sound[OF Cons.prems(3) x]
  show ?case
  proof (cases x)
    case (Inl e)
    with Cons.prems x t show ?thesis by (auto split: if_splits)
  next
    case (Inr go)
    with t have r: "reachable (conf_self P) (f64 E) (opts E) (st1, held)" by simp
    show ?thesis using Cons.prems Cons.IH[of p1 st1] x Inr r by (auto split: if_splits)
  qed
qed simp

lemma tick_closed: "closed st \<Longrightarrow> \<exists>p'. tick_pool E P (p, st) = (Inr False, (p', st))"
  by (cases "pool_in E (world p)") (simp add: tick_pool_def pool_clock_def locked_def tick_def)

section \<open>Properties\<close>

text \<open>However the builder's methods are chained, the pool logs in one way: a chain never leaves both a service
  principal and certificate login in force, nor a password beside either of them, so a login method set
  later replaces the earlier one altogether; the endpoints stay those given at the start.\<close>

theorem builder_login_exclusive:
  assumes "configured endpoints three b"
  shows "b_endpoints b = endpoints \<and> (gssapi_spn (b_login b) \<noteq> None \<longrightarrow> \<not> cert_auth (b_login b))
    \<and> (gssapi_spn (b_login b) \<noteq> None \<or> cert_auth (b_login b) \<longrightarrow> login_password (conf_login (conf_of self b)) = [])"
  using configured_facts[OF assms] by (auto simp: conf_of_def)

theorem builder_login_exclusive_witness:
  "login_password (conf_login (conf_of 0 (certificate [0x62] (credentials [0x61] [0x70] (builder (3 :: nat) [[0x68]]))))) = []"
proof -
  have "configured [[0x68]] (3 :: nat) (certificate [0x62] (credentials [0x61] [0x70] (builder 3 [[0x68]])))" by (intro configured.intros)
  from builder_login_exclusive[OF this, of 0] show ?thesis by (simp add: certificate_def)
qed

text \<open>C40: The background thread keeps the pool to its steps for as long as it runs, and it ends: at the first wake
  after the pool was dropped or closed it returns and touches nothing.\<close>

theorem maintain_ends:
  assumes "reachable (conf_self P) (f64 E) (opts E) (st, held)"
  shows "(maintain wakes E P (p, st) = (r, (p', st')) \<and> clean r \<longrightarrow> reachable (conf_self P) (f64 E) (opts E) (st', held))
    \<and> maintain (False # wakes) E P (p, st) = (Inr True, (p, st))
    \<and> (closed st \<longrightarrow> (\<exists>q. maintain (True # wakes) E P (p, st) = (Inr True, (q, st))))"
  using maintain_sound[of wakes E P p st r p' st' held] assms tick_closed[of st E P p] by (auto simp: sret_def sbind_def)

theorem maintain_ends_witness:
  "\<exists>st q. maintain [True, True] (sample_env []) \<lparr>conf_self = 0, conf_login = cert_login, conf_database = None, conf_consistency = One\<rparr>
      (sample_process, close st) = (Inr True, (q, close st :: (bytes \<times> bytes, nat) balancer_state))"
proof -
  let ?P = "\<lparr>conf_self = 0, conf_login = cert_login, conf_database = None, conf_consistency = One\<rparr>"
  obtain st :: "(bytes \<times> bytes, nat) balancer_state" where
    "reachable (conf_self ?P) (f64 (sample_env [])) (opts (sample_env [])) (st, [])"
    using sample_pool[of "[]"] by auto
  then have r: "reachable (conf_self ?P) (f64 (sample_env [])) (opts (sample_env [])) (close st, [])"
    by (auto intro: reachable.stepped pool_step.close)
  have "closed (close st)" by (simp add: close_def)
  with maintain_ends[OF r, of "[True]" sample_process, THEN conjunct2, THEN conjunct2] show ?thesis by blast
qed

end
