(* ===== verification/C_Pool.thy ===== *)
theory C_Pool
  imports C_Stream Pool_Builder
begin

text \<open>
  Connection pools across the C interface (\<^verbatim>\<open>skaidb-ffi/src/lib.rs\<close>, "connection pool"), over the closure pool and the
  balanced pool of the driver. The seed of a pool's random choices and the duration of a round trip in milliseconds, a
  double, are parameters.
\<close>

section \<open>The closure pool's connections\<close>

definition with_database :: "('w, 't, 's, 'h, 'f) env \<Rightarrow> rstr \<Rightarrow> 's client \<Rightarrow> ('w, 's, 'f) connecting" where
  "with_database E db c = sbind (on_client c (use_database E db)) (\<lambda>(r, c). slift (rbind r (\<lambda>_. Inr c)))"

definition factory_make :: "('w, 't, 's, 'h, 'f) env \<Rightarrow> factory_args \<Rightarrow> ('w, 's, 'f) connecting" where
  "factory_make E fa =
    sbind (connect_many_tls E (fa_endpoints fa) (fa_username fa) (fa_password fa) (fa_tls fa)) (\<lambda>c.
    case fa_database fa of Some d \<Rightarrow> with_database E d c | None \<Rightarrow> sret c)"

definition skaidb_pool_new :: "('w, 't, 's, 'h, 'f) env \<Rightarrow> 'w tls_new \<Rightarrow> nat \<Rightarrow> c_str list option \<Rightarrow> nat \<Rightarrow> c_str \<Rightarrow> c_str \<Rightarrow> skaidb_tls option
    \<Rightarrow> c_str \<Rightarrow> ('w, 's, 'f, ptr) c_op" where
  "skaidb_pool_new E tls_new n_max endpoints n user_ptr pass_ptr tls database = or_null (
     if n_max = 0 then throw (fail SKAIDB_ERR_INVALID (of_str ''maxsize is 0''))
     else sbind (cstr_list endpoints n ''endpoints'') (\<lambda>eps.
       if eps = [] then throw (fail SKAIDB_ERR_INVALID (of_str ''no endpoints''))
       else sbind (cstr user_ptr ''username'') (\<lambda>user. sbind (cstr pass_ptr ''password'') (\<lambda>pass.
         sbind (tls_config_of E tls_new tls) (\<lambda>tls. sbind (cstr_opt database ''database'') (\<lambda>db.
         sbind (driver_result E (factory_new n_max)) (\<lambda>f st.
         (let (a, st) = alloc (PoolBox (Factory \<lparr>fa_endpoints = eps, fa_username = user, fa_password = pass, fa_tls = tls, fa_database = db\<rparr> f)) st
          in (Inr (Ref a []), st)))))))))"

section \<open>Checking out and in\<close>

definition pool_mut :: "ptr \<Rightarrow> ('w, 's, 'f, nat \<times> 's skaidb_pool) c_op" where
  "pool_mut p = (if p = Null then throw (fail SKAIDB_ERR_INVALID (of_str ''pool is NULL'')) else whole as_pool p)"

definition pool_acquire :: "('w, 't, 's, 'h, 'f) env \<Rightarrow> nat \<Rightarrow> 's skaidb_pool \<Rightarrow> rstr option \<Rightarrow> ('w, 's, 'f, 's client) c_op" where
  "pool_acquire E a pl key st = (case pl of
     Factory fa f \<Rightarrow>
       (let (fresh0, p) = (if \<not> fac_closed f \<and> fac_idle f = [] then (case factory_make E fa (process st, no_pool) of (fresh0, (p, _)) \<Rightarrow> (fresh0, p))
                         else (Inl OutOfFuel, process st));
            (r, f) = factory_acquire fresh0 f
        in driver_result E r (put_box a (PoolBox (Factory fa f)) (st\<lparr>process := p\<rparr>)))
   | Balanced b \<Rightarrow>
       (case balancers st b of
          Some sh \<Rightarrow>
            (let (r, (p, bs)) = checkout (E\<lparr>opts := sh_opts sh\<rparr>) (sh_conf sh) key (process st, sh_state sh)
             in driver_result E r (set_pool_state b bs (st\<lparr>process := p\<rparr>)))
        | None \<Rightarrow> UB st))"

definition skaidb_pool_acquire :: "('w, 't, 's, 'h, 'f) env \<Rightarrow> ptr \<Rightarrow> bool \<Rightarrow> ('w, 's, 'f, skaidb_status \<times> ptr option) c_op" where
  "skaidb_pool_acquire E pool_ptr out = boxed out (
     sbind (pool_mut pool_ptr) (\<lambda>(a, pl). sbind (pool_acquire E a pl None) (\<lambda>c. sret (ClientBox c))))"

definition pool_release :: "nat \<Rightarrow> 's skaidb_pool \<Rightarrow> 's client \<Rightarrow> ('w, 's, 'f, unit) c_op" where
  "pool_release a pl c st = (case pl of
     Factory fa f \<Rightarrow>
       (let st = put_box a (PoolBox (Factory fa (factory_release c f))) st in
        (Inr (), if \<not> fac_closed f \<and> length (fac_idle f) < fac_maxsize f then st else drop_linked c st))
   | Balanced b \<Rightarrow>
       (case balancers st b of
          Some sh \<Rightarrow>
            (let st = set_pool_state b (checkin b (sh_opts sh) c (sh_state sh)) st in
             (Inr (), case link c of Some l \<Rightarrow> (if link_pool l \<noteq> b then drop_linked c st else st) | None \<Rightarrow> st))
        | None \<Rightarrow> UB st))"

definition skaidb_pool_release :: "ptr \<Rightarrow> ptr \<Rightarrow> ('w, 's, 'f, unit) c_op" where
  "skaidb_pool_release pool_ptr client =
    (if client = Null then sret ()
     else sbind (from_raw as_client client) (\<lambda>c.
       if pool_ptr = Null then (\<lambda>st. (Inr (), drop_linked c st))
       else sbind (whole as_pool pool_ptr) (\<lambda>(a, pl). pool_release a pl c)))"

definition skaidb_pool_idle_len :: "ptr \<Rightarrow> ('w, 's, 'f, nat) c_op" where
  "skaidb_pool_idle_len pool_ptr =
    (if pool_ptr = Null then sret 0
     else sbind (whole as_pool pool_ptr) (\<lambda>(a, pl) st. case pl of
       Factory fa f \<Rightarrow> (Inr (factory_idle_len f), st)
     | Balanced b \<Rightarrow> (case balancers st b of Some sh \<Rightarrow> (Inr (length (idle (sh_state sh))), st) | None \<Rightarrow> UB st)))"

definition pool_close :: "'s skaidb_pool \<Rightarrow> ('w, 's, 'f, unit) c_op" where
  "pool_close pl st = (case pl of
     Factory fa f \<Rightarrow> (Inr (), fold drop_linked (fac_idle f) st)
   | Balanced b \<Rightarrow> (case balancers st b of Some sh \<Rightarrow> (Inr (), set_pool_state b (close (sh_state sh)) st) | None \<Rightarrow> UB st))"

definition skaidb_pool_free :: "ptr \<Rightarrow> ('w, 's, 'f, unit) c_op" where
  "skaidb_pool_free pool_ptr = (if pool_ptr = Null then sret () else sbind (from_raw as_pool pool_ptr) pool_close)"

section \<open>Balanced pools\<close>

text \<open>What is written through the pointer, unless it is \<^verbatim>\<open>NULL\<close>.\<close>

definition skaidb_pool_options_init :: "'f \<Rightarrow> 'f skaidb_pool_options option \<Rightarrow> 'f skaidb_pool_options option" where
  "skaidb_pool_options_init three p = map_option (\<lambda>_. pool_options_default three) p"

definition millis :: "u64 \<Rightarrow> duration" where
  "millis ms = from_millis (unat ms)"

definition balanced_builder :: "'f \<Rightarrow> rstr list \<Rightarrow> rstr \<Rightarrow> rstr \<Rightarrow> tls_config option \<Rightarrow> rstr option \<Rightarrow> load_balancing \<Rightarrow> idle_order
    \<Rightarrow> 'f skaidb_pool_options \<Rightarrow> 'f pool_builder" where
  "balanced_builder three eps user pass tls db policy order0 o0 =
    (let b = set_eject_backoff_max (millis (o_eject_backoff_max_ms o0))
       (set_eject_backoff (millis (o_eject_backoff_ms o0))
       (set_eject_latency_floor (millis (o_eject_latency_floor_ms o0))
       (set_eject_latency_factor (o_eject_latency_factor o0)
       (set_eject_errors (unat (o_eject_errors o0))
       (set_read_your_writes (millis (o_read_your_writes_ms o0))
       (set_refresh_interval (millis (o_refresh_interval_ms o0))
       (set_discover (o_discover o0)
       (set_idle_order order0
       (set_load_balancing policy
       (set_maxsize (o_maxsize o0)
       (credentials user pass (builder three eps))))))))))));
         b = (case tls of Some t \<Rightarrow> set_tls t b | None \<Rightarrow> b)
     in case db of Some d \<Rightarrow> set_database d b | None \<Rightarrow> b)"

definition show_int :: "int \<Rightarrow> rstr" where
  "show_int i = (if i < 0 then [0x2D] else []) @ show_nat (nat \<bar>i\<bar>)"

definition policy_of :: "int \<Rightarrow> ('w, 's, 'f, load_balancing) c_op" where
  "policy_of i = (if i = 0 then sret LbRandom else if i = 1 then sret LbRoundRobin else if i = 2 then sret LbLeastLatency
     else throw (fail SKAIDB_ERR_INVALID (of_str ''options.load_balancing '' @ show_int i @ of_str '' is not a skaidb_load_balancing_t'')))"

definition idle_order_of :: "int \<Rightarrow> ('w, 's, 'f, idle_order) c_op" where
  "idle_order_of i = (if i = 0 then sret Lifo else if i = 1 then sret Fifo
     else throw (fail SKAIDB_ERR_INVALID (of_str ''options.idle_order '' @ show_int i @ of_str '' is not a skaidb_idle_order_t'')))"

definition build_pool :: "('w, 't, 's, 'h, 'f) env \<Rightarrow> ('w \<Rightarrow> u64 \<times> 'w) \<Rightarrow> 'f pool_builder \<Rightarrow> ('w, 's, 'f, 's c_box) c_op" where
  "build_pool E seed0 b st =
    (let (t, w) = pool_in E (world (process st)); (hash, w) = seed0 w; st = st\<lparr>process := (process st)\<lparr>world := w\<rparr>\<rparr> in
     case build (f64 E) t hash b of
       Inr bs \<Rightarrow>
         (let a = brk st in
          (Inr (PoolBox (Balanced a)), st\<lparr>brk := Suc a,
             balancers := (balancers st)(a \<mapsto> \<lparr>sh_conf = conf_of a b, sh_opts = b_options b, sh_state = bs\<rparr>)\<rparr>))
     | Inl e \<Rightarrow> throw (case e of
         Io (InvalidInput _) \<Rightarrow> fail SKAIDB_ERR_INVALID (display E e) | _ \<Rightarrow> fail_driver E e) st)"

definition skaidb_pool_new_balanced :: "('w, 't, 's, 'h, 'f) env \<Rightarrow> 'w tls_new \<Rightarrow> ('w \<Rightarrow> u64 \<times> 'w) \<Rightarrow> 'f \<Rightarrow> c_str list option \<Rightarrow> nat \<Rightarrow> c_str \<Rightarrow> c_str
    \<Rightarrow> skaidb_tls option \<Rightarrow> c_str \<Rightarrow> 'f skaidb_pool_options option \<Rightarrow> bool \<Rightarrow> ('w, 's, 'f, skaidb_status \<times> ptr option) c_op" where
  "skaidb_pool_new_balanced E tls_new seed0 three endpoints n user_ptr pass_ptr tls database options out = boxed out (
     sbind (cstr_list endpoints n ''endpoints'') (\<lambda>eps.
     if eps = [] then throw (fail SKAIDB_ERR_INVALID (of_str ''no endpoints''))
     else sbind (cstr user_ptr ''username'') (\<lambda>user. sbind (cstr pass_ptr ''password'') (\<lambda>pass.
       sbind (tls_config_of E tls_new tls) (\<lambda>tls. sbind (cstr_opt database ''database'') (\<lambda>db.
       let o0 = (case options of None \<Rightarrow> pool_options_default three | Some o0 \<Rightarrow> o0) in
       sbind (policy_of (o_load_balancing o0)) (\<lambda>policy. sbind (idle_order_of (o_idle_order o0)) (\<lambda>order0.
       build_pool E seed0 (balanced_builder three eps user pass tls db policy order0 o0)))))))))"

definition skaidb_pool_acquire_affinity :: "('w, 't, 's, 'h, 'f) env \<Rightarrow> ptr \<Rightarrow> c_str \<Rightarrow> bool \<Rightarrow> ('w, 's, 'f, skaidb_status \<times> ptr option) c_op" where
  "skaidb_pool_acquire_affinity E pool_ptr key out = boxed out (
     sbind (pool_mut pool_ptr) (\<lambda>(a, pl). sbind (cstr_opt key ''affinity'') (\<lambda>key.
     sbind (pool_acquire E a pl key) (\<lambda>c. sret (ClientBox c)))))"

section \<open>Members\<close>

definition member_state_c :: "member_state \<Rightarrow> bytes" where
  "member_state_c s = of_str (case s of
     Ready \<Rightarrow> ''ready'' | Ejected \<Rightarrow> ''ejected'' | Resyncing \<Rightarrow> ''resyncing'' | Unreachable \<Rightarrow> ''unreachable'' | Unlisted \<Rightarrow> ''unlisted'')"

definition MINUS_ONE :: f64 where "MINUS_ONE = 0xBFF0000000000000"

definition member_c :: "(duration \<Rightarrow> f64) \<Rightarrow> pool_member \<Rightarrow> skaidb_member" where
  "member_c ms m = \<lparr>c_endpoint = c_string_lossy (pm_endpoint m), c_canonical = map_option c_string_lossy (pm_canonical m),
     c_state = member_state_c (pm_state m), c_latency_ms = (case pm_latency m of None \<Rightarrow> MINUS_ONE | Some d \<Rightarrow> ms d),
     c_in_use = pm_in_use m, c_idle = pm_idle m, c_seed = pm_seed m\<rparr>"

definition pool_members :: "('w, 't, 's, 'h, 'f) env \<Rightarrow> 's skaidb_pool \<Rightarrow> ('w, 's, 'f, pool_member list) c_op" where
  "pool_members E pl st = (case pl of
     Factory fa f \<Rightarrow> (Inr [], st)
   | Balanced b \<Rightarrow> (case balancers st b of Some sh \<Rightarrow> (Inr (members_view (f64 E) (sh_state sh)), st) | None \<Rightarrow> UB st))"

definition skaidb_pool_members :: "('w, 't, 's, 'h, 'f) env \<Rightarrow> (duration \<Rightarrow> f64) \<Rightarrow> ptr \<Rightarrow> bool \<Rightarrow> ('w, 's, 'f, skaidb_status \<times> ptr option) c_op" where
  "skaidb_pool_members E ms pool_ptr out = boxed out (
     sbind (pool_mut pool_ptr) (\<lambda>(a, pl). sbind (pool_members E pl) (\<lambda>mem. sret (MembersBox (map (member_c ms) mem)))))"

definition skaidb_members_len :: "ptr \<Rightarrow> ('w, 's, 'f, nat) c_op" where
  "skaidb_members_len p = (if p = Null then sret 0 else sbind (whole as_members p) (\<lambda>(a, mem). sret (length mem)))"

definition skaidb_members_get :: "ptr \<Rightarrow> nat \<Rightarrow> ('w, 's, 'f, ptr) c_op" where
  "skaidb_members_get p index = (if p = Null then sret Null
     else sbind (whole as_members p) (\<lambda>(a, mem). sret (if index < length mem then at_place p [AtMember index] else Null)))"

definition skaidb_members_free :: "ptr \<Rightarrow> ('w, 's, 'f, unit) c_op" where
  "skaidb_members_free p = free_box as_members p"

section \<open>Building a balanced pool\<close>

lemma conf_self_of [simp]: "conf_self (conf_of a b) = a"
  by (simp add: conf_of_def)

lemma balanced_builder_facts:
  "b_endpoints (balanced_builder three eps user pass tls db policy order0 o0) = eps"
  "b_options (balanced_builder three eps user pass tls db policy order0 o0) = \<lparr>maxsize = o_maxsize o0, load_balancing = policy,
     idle_order = order0, discover = o_discover o0, refresh_interval = millis (o_refresh_interval_ms o0),
     read_your_writes = millis (o_read_your_writes_ms o0), eject_errors = unat (o_eject_errors o0),
     eject_latency_factor = o_eject_latency_factor o0, eject_latency_floor = millis (o_eject_latency_floor_ms o0),
     eject_backoff = millis (o_eject_backoff_ms o0), eject_backoff_max = millis (o_eject_backoff_max_ms o0)\<rparr>"
  by (simp_all add: balanced_builder_def Let_def builder_def credentials_def set_tls_def set_database_def set_maxsize_def set_load_balancing_def
      set_idle_order_def set_discover_def set_refresh_interval_def set_read_your_writes_def set_eject_errors_def set_eject_latency_factor_def
      set_eject_latency_floor_def set_eject_backoff_def set_eject_backoff_max_def options_default_def split: option.split)

definition options_valid :: "'f f64_ops \<Rightarrow> 'f skaidb_pool_options \<Rightarrow> bool" where
  "options_valid F o0 \<longleftrightarrow> o_load_balancing o0 \<in> {0, 1, 2} \<and> o_idle_order o0 \<in> {0, 1} \<and> o_maxsize o0 \<noteq> 0 \<and> o_eject_errors o0 \<noteq> 0
     \<and> f_finite F (o_eject_latency_factor o0) \<and> f_le F (f_zero F) (o_eject_latency_factor o0)"

lemma dedup_step_nonempty: "dedup_step e acc \<noteq> []"
  by (cases "e \<in> set acc") (auto simp: dedup_step_def)

lemma dedup_nonempty: "dedup eps = [] \<longleftrightarrow> eps = []"
proof -
  have "fold dedup_step es acc \<noteq> []" if "acc \<noteq> []" for es acc :: "'a list"
    using that by (induction es arbitrary: acc) (simp_all add: dedup_step_nonempty)
  then show ?thesis by (cases eps) (simp_all add: dedup_def dedup_step_nonempty)
qed

lemma build_pool_valid:
  fixes E :: "('w, 't, 's, 'h, 'f) env"
  assumes "b_endpoints b \<noteq> []" and "1 \<le> maxsize (b_options b)" and "1 \<le> eject_errors (b_options b)"
    and "f_finite (f64 E) (eject_latency_factor (b_options b))" and "f_le (f64 E) (f_zero (f64 E)) (eject_latency_factor (b_options b))"
  shows "\<exists>st' bs. build_pool E seed0 b st = (Inr (PoolBox (Balanced (brk st))), st') \<and> boxes st' = boxes st \<and> brk st' = Suc (brk st)
    \<and> balancers st' = (balancers st)(brk st \<mapsto> \<lparr>sh_conf = conf_of (brk st) b, sh_opts = b_options b, sh_state = bs\<rparr>)
    \<and> reachable (brk st) (f64 E) (b_options b) (bs, [])"
proof -
  obtain t w where t: "pool_in E (world (process st)) = (t, w)" by fastforce
  obtain hash w' where h: "seed0 w = (hash, w')" by fastforce
  obtain bs where bs: "(build (f64 E) t hash b :: driver_error + ('s, 'f) balancer_state) = Inr bs"
    using assms by (simp add: build_def Let_def dedup_nonempty)
  let ?sh = "\<lparr>sh_conf = conf_of (brk st) b, sh_opts = b_options b, sh_state = bs\<rparr>"
  have r: "reachable (brk st) (f64 E) (b_options b) (bs, [])" by (rule reachable.built[OF refl bs])
  have eq: "build_pool E seed0 b st = (Inr (PoolBox (Balanced (brk st))),
      st\<lparr>process := (process st)\<lparr>world := w'\<rparr>, brk := Suc (brk st), balancers := (balancers st)(brk st \<mapsto> ?sh)\<rparr>)"
    using t h bs by (simp add: build_pool_def Let_def)
  show ?thesis by (rule exI, rule exI[of _ bs], intro conjI, rule eq) (simp_all add: r)
qed

lemma build_pool_invalid:
  fixes E :: "('w, 't, 's, 'h, 'f) env"
  assumes "b_endpoints b \<noteq> []" and "\<not> (1 \<le> maxsize (b_options b) \<and> 1 \<le> eject_errors (b_options b)
    \<and> f_finite (f64 E) (eject_latency_factor (b_options b)) \<and> f_le (f64 E) (f_zero (f64 E)) (eject_latency_factor (b_options b)))"
  shows "\<exists>st'. build_pool E seed0 b st = (Inl (Err SKAIDB_ERR_INVALID), st') \<and> boxes st' = boxes st \<and> balancers st' = balancers st"
proof -
  obtain t w where t: "pool_in E (world (process st)) = (t, w)" by fastforce
  obtain hash w' where h: "seed0 w = (hash, w')" by fastforce
  have "\<exists>msg. (build (f64 E) t hash b :: driver_error + ('s, 'f) balancer_state) = Inl (Io (InvalidInput msg))"
    using assms by (auto simp: build_def Let_def dedup_nonempty not_le)
  then obtain msg where "(build (f64 E) t hash b :: driver_error + ('s, 'f) balancer_state) = Inl (Io (InvalidInput msg))" by blast
  then show ?thesis using t h by (simp add: build_pool_def Let_def throw_def sbind_def fail_def set_error_def)
qed

lemma cstrs_ok:
  assumes "\<forall>s \<in> set eps. utf8_ok s \<and> 0 \<notin> set s"
  shows "cstr_list (Some (map Some eps)) (length eps) what st = (Inr eps, st)"
proof -
  have "each (\<lambda>p _. cstr p what) (map Some eps) [0..<length eps] st = (Inr (map ((!) eps) [0..<length eps]), st)"
    by (rule each_reads) (use assms in \<open>simp add: cstr_ok\<close>)
  then show ?thesis by (simp add: cstr_list_def map_nth)
qed

section \<open>Properties\<close>

text \<open>The options the C interface starts from are the driver's own defaults, and passing none means passing those.\<close>

theorem default_options_agree:
  "b_options (balanced_builder three eps user pass tls db LbRandom Lifo (pool_options_default three)) = options_default three"
  by (simp add: balanced_builder_facts pool_options_default_def options_default_def millis_def from_millis_def from_secs_def)

text \<open>A balanced pool is made exactly when every option is in range: then the call returns a new pool in a state the pool can
  start from, with the options of the caller; an option out of range, an enumerator included, is the invalid-argument
  status and changes nothing but the error text.\<close>

theorem pool_new_balanced_outcome:
  fixes E :: "('w, 't, 's, 'h, 'f) env"
  assumes "eps \<noteq> []" and "\<forall>s \<in> set (user # pass # eps). utf8_ok s \<and> 0 \<notin> set s"
  shows "let run = skaidb_pool_new_balanced E tls_new seed0 three (Some (map Some eps)) (length eps) (Some user) (Some pass) None None (Some o0) False in
    if options_valid (f64 E) o0
    then \<exists>st' a b sh. run st = (Inr (SKAIDB_OK, Some (Ref a [])), st') \<and> boxes st' = (boxes st)(a \<mapsto> PoolBox (Balanced b))
      \<and> balancers st' = (balancers st)(b \<mapsto> sh) \<and> conf_self (sh_conf sh) = b \<and> maxsize (sh_opts sh) = o_maxsize o0
      \<and> reachable b (f64 E) (sh_opts sh) (sh_state sh, [])
    else \<exists>st'. run st = (Inr (SKAIDB_ERR_INVALID, None), st') \<and> boxes st' = boxes st \<and> balancers st' = balancers st"
proof -
  let ?run = "skaidb_pool_new_balanced E tls_new seed0 three (Some (map Some eps)) (length eps) (Some user) (Some pass) None None (Some o0) False"
  let ?m = "\<lambda>st. sbind (policy_of (o_load_balancing o0)) (\<lambda>policy. sbind (idle_order_of (o_idle_order o0)) (\<lambda>order0.
       build_pool E seed0 (balanced_builder three eps user pass None None policy order0 o0))) st"
  have run: "?run st = boxed False ?m st" for st
    using assms(1,2) unfolding skaidb_pool_new_balanced_def
    by (simp add: boxed_def sbind_def cstrs_ok cstr_ok tls_config_of_def cstr_opt_def Let_def)
  show ?thesis
  proof (cases "o_load_balancing o0 \<in> {0, 1, 2} \<and> o_idle_order o0 \<in> {0, 1}")
    case False
    then have "\<exists>st'. ?m st = (Inl (Err SKAIDB_ERR_INVALID), st') \<and> boxes st' = boxes st \<and> balancers st' = balancers st"
      by (auto simp: policy_of_def idle_order_of_def throw_def sbind_def fail_def set_error_def)
    with False show ?thesis unfolding Let_def run by (auto simp: options_valid_def boxed_def)
  next
    case True
    obtain policy where po: "(policy_of (o_load_balancing o0) :: ('w, 's, 'f, load_balancing) c_op) = sret policy" using True by (auto simp: policy_of_def)
    obtain order0 where io: "(idle_order_of (o_idle_order o0) :: ('w, 's, 'f, idle_order) c_op) = sret order0" using True by (auto simp: idle_order_of_def)
    let ?b = "balanced_builder three eps user pass None None policy order0 o0"
    have m: "?m st = build_pool E seed0 ?b st" by (simp add: po io)
    show ?thesis
    proof (cases "options_valid (f64 E) o0")
      case v: True
      have u: "1 \<le> unat (o_eject_errors o0)" using v by (simp add: options_valid_def Suc_le_eq unat_gt_0)
      obtain st' bs where st': "build_pool E seed0 ?b st = (Inr (PoolBox (Balanced (brk st))), st')" "boxes st' = boxes st" "brk st' = Suc (brk st)"
        "balancers st' = (balancers st)(brk st \<mapsto> \<lparr>sh_conf = conf_of (brk st) ?b, sh_opts = b_options ?b, sh_state = bs\<rparr>)"
        "reachable (brk st) (f64 E) (b_options ?b) (bs, [])"
        using build_pool_valid[of ?b E seed0 st] v u assms(1) by (auto simp: balanced_builder_facts options_valid_def)
      have "?run st = (Inr (SKAIDB_OK, Some (Ref (Suc (brk st)) [])), st'\<lparr>boxes := (boxes st)(Suc (brk st) \<mapsto> PoolBox (Balanced (brk st))), brk := Suc (Suc (brk st))\<rparr>)"
        unfolding run using m st'(1-3) by (simp add: boxed_def alloc_def)
      moreover have "maxsize (b_options ?b) = o_maxsize o0" by (simp add: balanced_builder_facts)
      ultimately show ?thesis unfolding Let_def if_P[OF v]
        using st'(4,5) by (intro exI[of _ "brk st"] exI[of _ "Suc (brk st)"] exI conjI) (assumption | simp)+
    next
      case v: False
      have "\<exists>st'. build_pool E seed0 ?b st = (Inl (Err SKAIDB_ERR_INVALID), st') \<and> boxes st' = boxes st \<and> balancers st' = balancers st"
        by (rule build_pool_invalid) (use v True assms(1) in \<open>auto simp: balanced_builder_facts options_valid_def Suc_le_eq unat_gt_0\<close>)
      with v show ?thesis unfolding Let_def run using m by (auto simp: boxed_def)
    qed
  qed
qed

theorem pool_new_balanced_outcome_witness:
  "\<exists>st'. skaidb_pool_new_balanced (sample_env []) (\<lambda>_ _ w. (Inl (Server []), w)) (\<lambda>w. (4, w)) 3 (Some [Some [0x68]]) 1 (Some [0x75]) (Some [0x70]) None None
     (Some ((pool_options_default 3)\<lparr>o_idle_order := 7\<rparr>)) False sample_memory = (Inr (SKAIDB_ERR_INVALID, None), st')"
  using pool_new_balanced_outcome[where eps = "[[0x68]]" and user = "[0x75]" and pass = "[0x70]" and E = "sample_env []" and three = 3
    and ?o0.0 = "(pool_options_default 3)\<lparr>o_idle_order := 7\<rparr>" and tls_new = "\<lambda>_ _ w. (Inl (Server []), w)" and ?seed0.0 = "\<lambda>w. (4, w)" and st = sample_memory] by (auto simp: options_valid_def Let_def)

end
