(* ===== verification/C_Safety.thy ===== *)
theory C_Safety
  imports C_Pool
begin

text \<open>
  Who may change what: every call of the C interface, as a step on the memory labelled with the boxes it is entitled to change
  or free (the handles it is given, and the client a stream borrows). Everything else is left alone, so a pointer borrowed
  from an object stays valid, and reads the same, until that object is freed.
\<close>

section \<open>Calls on handles\<close>

definition touched :: "ptr \<Rightarrow> nat set" where
  "touched p = (case p of Ref a _ \<Rightarrow> {a} | _ \<Rightarrow> {})"

lemma touched_simps [simp]: "touched Null = {}" "touched (Ref a ps) = {a}"
  by (simp_all add: touched_def)

text \<open>A client that a stream borrows is reached through the stream.\<close>

definition borrowed :: "ptr \<Rightarrow> ('w, 's, 'f) c_state \<Rightarrow> nat set" where
  "borrowed p st = (case p of Ref a _ \<Rightarrow> (case boxes st a of Some (StreamBox s) \<Rightarrow> {s_client s} | _ \<Rightarrow> {}) | _ \<Rightarrow> {})"

definition keeps_box :: "nat \<Rightarrow> ('w, 's, 'f) c_state \<Rightarrow> ('w, 's, 'f) c_state \<Rightarrow> bool" where
  "keeps_box a st st' \<longleftrightarrow> (a < brk st \<longrightarrow> boxes st' a = boxes st a \<and> brk st \<le> brk st')"

lemma spares_keeps: "spares a m \<longleftrightarrow> (\<forall>st. keeps_box a st (snd (m st)))"
  by (auto simp: spares_def keeps_box_def)

lemma keeps_refl [simp]: "keeps_box a st st"
  by (simp add: keeps_box_def)

lemma keeps_then: "spares a m \<Longrightarrow> keeps_box a st st1 \<Longrightarrow> keeps_box a st (snd (m st1))"
  unfolding spares_def keeps_box_def by (metis le_trans less_le_trans)

lemma spares_whole:
  assumes "\<And>b x. p = Ref b [] \<Longrightarrow> spares a (f (b, x))"
  shows "spares a (sbind (whole proj p) f)"
  using assms by (auto simp: spares_keeps whole_def sbind_def split: ptr.split list.split option.split)

lemma spares_checked:
  assumes "\<And>b x. p = Ref b [] \<Longrightarrow> spares a (f (b, x))"
  shows "spares a (sbind (if p = Null then throw (fail s msg) else whole proj p) f)"
proof (cases "p = Null")
  case True
  then show ?thesis by (simp add: throw_def fail_def sbind_def spares_def set_error_def)
next
  case False
  then show ?thesis using spares_whole[of p a f proj] assms by simp
qed

lemma spares_handle:
  "(\<And>b x. p = Ref b [] \<Longrightarrow> spares a (f (b, x))) \<Longrightarrow> spares a (sbind (client_mut p) f)"
  "(\<And>b x. p = Ref b [] \<Longrightarrow> spares a (g (b, x))) \<Longrightarrow> spares a (sbind (stmt_mut p) g)"
  "(\<And>b x. p = Ref b [] \<Longrightarrow> spares a (h (b, x))) \<Longrightarrow> spares a (sbind (pool_mut p) h)"
  unfolding client_mut_def stmt_mut_def pool_mut_def by (rule spares_checked, simp)+

lemma spares_from_raw:
  assumes "a \<notin> touched p" and "\<And>x. spares a (f x)"
  shows "spares a (sbind (from_raw proj p) f)"
proof -
  have "spares a (from_raw proj p)" unfolding from_raw_def
    by (rule spares_whole) (use assms(1) in \<open>auto simp: spares_def clear_box_def\<close>)
  then show ?thesis by (rule spares_sbind) (rule assms(2))
qed

lemma spares_freed [frames]: "a \<notin> touched p \<Longrightarrow> spares a (free_box proj p)"
  by (rule spares_free) auto

lemma spares_boxed [frames]:
  assumes "spares a m" shows "spares a (boxed out m)"
proof (unfold spares_def, intro allI impI)
  fix st :: "('a, 'b, 'c) c_state" assume a: "a < brk st"
  obtain r st1 where r: "m st = (r, st1)" by (meson surj_pair)
  have "boxes st1 a = boxes st a" "brk st \<le> brk st1" using assms a r unfolding spares_def by (metis snd_conv)+
  then show "boxes (snd (boxed out m st)) a = boxes st a \<and> brk st \<le> brk (snd (boxed out m st))"
    using a r by (auto simp: boxed_def alloc_def fail_def set_error_def sbind_def split: sum.split fault.split)
qed

lemma spares_catch [frames]: "spares a m \<Longrightarrow> spares a (catch m)"
  by (auto simp: spares_def catch_def split: prod.splits sum.splits fault.splits)

lemma spares_state [frames]:
  "spares a (\<lambda>st. (r st, drop_linked c st))" "b \<noteq> a \<Longrightarrow> spares a (\<lambda>st. (r st, put_box b x st))"
  by (auto simp: spares_def drop_linked_def set_pool_state_def put_box_def split: option.split prod.split)

lemma spares_driver_result [frames]: "spares a (driver_result E r)"
  by (auto simp: driver_result_def fail_driver_def split: sum.split fault.split intro!: frames)

lemma spares_after:
  assumes "spares a m" and "\<And>st. boxes (g st) a = boxes st a \<and> brk (g st) = brk st"
  shows "spares a (\<lambda>st. m (g st))"
  using assms unfolding spares_def by metis

lemma put_back_boxes: "b \<noteq> a \<Longrightarrow> boxes (put_back b c d st) a = boxes st a \<and> brk (put_back b c d st) = brk st"
  by (auto simp: put_back_def put_box_def set_pool_state_def Let_def split: option.split prod.split)

lemma keeps_put: "b \<noteq> a \<Longrightarrow> keeps_box a st (put_back b c d st)" "b \<noteq> a \<Longrightarrow> keeps_box a st st1 \<Longrightarrow> keeps_box a st (put_box b x st1)"
  using put_back_boxes[of b a c d st] by (auto simp: keeps_box_def put_box_def)

lemma spares_on_driver [frames]: "b \<noteq> a \<Longrightarrow> spares a (on_driver E b c m)"
  by (auto simp: spares_keeps[of a "on_driver E b c m"] on_driver_def Let_def keeps_put intro!: keeps_then frames split: prod.split)

lemma spares_on_statement [frames]: "b \<noteq> a \<Longrightarrow> b2 \<noteq> a \<Longrightarrow> spares a (on_statement E b c b2 p m)"
  by (auto simp: spares_keeps[of a "on_statement E b c b2 p m"] on_statement_def Let_def keeps_put intro!: keeps_then frames split: prod.split)

lemma keeps_process: "keeps_box a st (st\<lparr>process := p\<rparr>)"
  by (simp add: keeps_box_def)

lemma spares_connecting [frames]: "spares a (connecting E m)" "spares a (tls_config_of E tls_new tls)"
proof -
  show "spares a (connecting E m)"
    by (auto simp: spares_keeps[of a "connecting E m"] connecting_def Let_def keeps_process intro!: keeps_then frames split: prod.split)
  show "spares a (tls_config_of E tls_new tls)"
    unfolding tls_config_of_def
    by (auto split: option.split skaidb_tls_verify.split intro!: frames)
      (auto simp: spares_def throw_def fail_driver_def fail_def set_error_def sbind_def Let_def split: prod.split sum.split)
qed

section \<open>Connections and statements\<close>

lemma spares_connects [frames]:
  "spares a (skaidb_connect E tls_new eps n u pw tls out)" "spares a (skaidb_connect_anonymous E ep out)"
  "spares a (skaidb_connect_gssapi E tls_new eps n u spn tls out)"
  unfolding skaidb_connect_def skaidb_connect_anonymous_def skaidb_connect_gssapi_def by (auto intro!: frames)

lemma spares_client_calls [frames]:
  assumes "a \<notin> touched p"
  shows "spares a (skaidb_client_use_database E p db)" "spares a (skaidb_client_set_scan_budget_rows E p n)"
    "spares a (skaidb_client_endpoint_dup p)" "spares a (skaidb_client_add_endpoints p eps n2)" "spares a (skaidb_client_reconnect E p)"
    "spares a (skaidb_execute E p sql out)" "spares a (skaidb_execute_with E p sql cons out)" "spares a (skaidb_prepare E p sql out)"
    "spares a (skaidb_pipeline E p stmts n3 out)"
  using assms
  unfolding skaidb_client_use_database_def skaidb_client_set_scan_budget_rows_def skaidb_client_endpoint_dup_def
    skaidb_client_add_endpoints_def skaidb_client_reconnect_def skaidb_execute_def skaidb_execute_with_def skaidb_prepare_def skaidb_pipeline_def
  by (auto intro!: spares_handle spares_whole spares_from_raw frames)

lemma spares_client_free [frames]: "a \<notin> touched p \<Longrightarrow> spares a (skaidb_client_free p)"
  unfolding skaidb_client_free_def by (cases "p = Null") (auto intro: spares_from_raw frames)

lemma spares_statements [frames]:
  assumes "a \<notin> touched p" and "a \<notin> touched q"
  shows "spares a (skaidb_execute_prepared E p q params n out)" "spares a (skaidb_execute_prepared_with E p q params n cons out)"
  using assms unfolding skaidb_execute_prepared_def skaidb_execute_prepared_with_def execute_statement_def
  by (auto intro!: spares_handle frames)

lemma spares_catching [frames]: "spares a m \<Longrightarrow> spares a (catching h m)"
  by (auto simp: spares_def catching_def split: prod.splits sum.splits fault.splits)

lemma spares_box_new [frames]: "spares a (box_new b)"
  by (auto simp: spares_def box_new_def alloc_def)

lemma spares_batch [frames]: "a \<notin> touched p \<Longrightarrow> a \<notin> touched q \<Longrightarrow> spares a (skaidb_execute_batch E p q rows n m out)"
  unfolding skaidb_execute_batch_def by (auto intro!: spares_handle frames split: option.split)

lemma spares_poll [frames]: "a \<notin> touched p \<Longrightarrow> spares a (skaidb_stream_poll E p name after n ev nx)"
  unfolding skaidb_stream_poll_def by (auto intro!: spares_handle frames split: option.split)

lemma spares_set_consistency [frames]: "a \<notin> touched p \<Longrightarrow> spares a (skaidb_client_set_consistency p cons)"
  unfolding skaidb_client_set_consistency_def by (auto intro!: spares_handle frames)

section \<open>Streams and pools\<close>

lemma keeps_whole:
  assumes "\<And>b x. p = Ref b [] \<Longrightarrow> Option.bind (boxes st b) proj = Some x \<Longrightarrow> keeps_box a st (snd (f (b, x) st))"
  shows "keeps_box a st (snd (sbind (whole proj p) f st))"
  using assms by (auto simp: whole_def sbind_def split: ptr.split list.split option.split)

lemma keeps_bind: "spares a m \<Longrightarrow> (\<And>x. spares a (f x)) \<Longrightarrow> keeps_box a st st1 \<Longrightarrow> keeps_box a st (snd (sbind m f st1))"
  by (rule keeps_then) (rule spares_sbind)

lemma spares_on_stream [frames]: "s_client s \<noteq> a \<Longrightarrow> spares a (on_stream E s m)"
  unfolding on_stream_def
  by (rule spares_whole) (auto simp: spares_keeps Let_def keeps_put split: prod.split)

lemma spares_stream_step [frames]: "s_client s \<noteq> a \<Longrightarrow> spares a (stream_step fuel E s)"
  unfolding stream_step_def by (auto intro!: frames split: list.split)

lemma spares_query_streams [frames]:
  assumes "a \<notin> touched p"
  shows "spares a (skaidb_query_stream E p sql out)" "spares a (skaidb_query_stream_with E p sql cons out)"
    "spares a (skaidb_query_stream_params E p sql params n out)" "spares a (skaidb_query_stream_params_with E p sql params n cons out)"
  using assms unfolding skaidb_query_stream_def skaidb_query_stream_with_def skaidb_query_stream_params_def skaidb_query_stream_params_with_def open_stream_def
  by (auto intro!: spares_handle frames)

lemma as_stream_borrowed: "Option.bind (boxes st b) as_stream = Some s \<Longrightarrow> borrowed (Ref b ps) st = {s_client s}"
proof -
  assume "Option.bind (boxes st b) as_stream = Some s"
  then obtain x where "boxes st b = Some x" "as_stream x = Some s" by (auto simp: bind_eq_Some_conv)
  then show ?thesis by (cases x) (simp_all add: borrowed_def as_stream_def)
qed

lemma spares_stream_outcome [frames]: "b \<noteq> a \<Longrightarrow> spares a (stream_outcome E b s r)"
  by (cases r) (auto simp: spares_def stream_outcome_def put_box_def fail_driver_def fail_def set_error_def sbind_def Let_def split: option.split fault.split)

lemma keeps_stream_next:
  assumes "a \<notin> touched p" and "a \<notin> borrowed p st"
  shows "keeps_box a st (snd (skaidb_stream_next fuel E p r n st))"
proof (cases "p = Null \<or> r \<or> n")
  case True
  then show ?thesis by (auto simp: skaidb_stream_next_def fail_def set_error_def sbind_def keeps_box_def)
next
  case False
  have "keeps_box a st (snd (sbind (stream_step fuel E s) (\<lambda>(r, rs). stream_outcome E b (s\<lparr>s_stream := rs\<rparr>) r) st))"
    if b: "p = Ref b []" "Option.bind (boxes st b) as_stream = Some s" for b s
  proof (rule keeps_bind)
    have ne: "b \<noteq> a" "s_client s \<noteq> a" using assms b as_stream_borrowed[OF b(2), of "[]"] by auto
    show "spares a (stream_step fuel E s)" by (rule spares_stream_step) (rule ne)
    show "spares a ((\<lambda>(r, rs). stream_outcome E b (s\<lparr>s_stream := rs\<rparr>) r) x)" for x
      by (cases x) (simp add: spares_stream_outcome ne)
  qed simp
  then show ?thesis using False unfolding skaidb_stream_next_def by (auto intro!: keeps_whole)
qed

lemma keeps_stream_free:
  assumes "a \<notin> touched p" and "a \<notin> borrowed p st"
  shows "keeps_box a st (snd (skaidb_stream_free fuel E p st))"
proof (cases "p = Null")
  case False
  have "keeps_box a st (snd ((if rs_done (s_stream s) then sret () else sbind (on_stream E s (drop_stream fuel)) (\<lambda>(r, rs). driver_result E r)) (clear_box b st)))"
    if b: "p = Ref b []" "Option.bind (boxes st b) as_stream = Some s" for b s
  proof (rule keeps_then)
    have "b \<noteq> a" "s_client s \<noteq> a" using assms b as_stream_borrowed[OF b(2), of "[]"] by auto
    then show "spares a (if rs_done (s_stream s) then sret () else sbind (on_stream E s (drop_stream fuel)) (\<lambda>(r, rs). driver_result E r))"
      and "keeps_box a st (clear_box b st)" by (auto intro!: frames simp: keeps_box_def clear_box_def)
  qed
  then have "keeps_box a st (snd (sbind (whole as_stream p) (\<lambda>(b, s) st. (if rs_done (s_stream s) then sret ()
      else sbind (on_stream E s (drop_stream fuel)) (\<lambda>(r, rs). driver_result E r)) (clear_box b st)) st))"
    by (auto intro!: keeps_whole)
  moreover have "skaidb_stream_free fuel E p st = sbind (whole as_stream p) (\<lambda>(b, s) st. (if rs_done (s_stream s) then sret ()
      else sbind (on_stream E s (drop_stream fuel)) (\<lambda>(r, rs). driver_result E r)) (clear_box b st)) st"
    using False by (auto simp: skaidb_stream_free_def from_raw_def sbind_def split: prod.split sum.split)
  ultimately show ?thesis by simp
qed (simp add: skaidb_stream_free_def)

lemma spares_next_set [frames]: "a \<notin> touched p \<Longrightarrow> spares a (skaidb_stream_next_set p)"
  unfolding skaidb_stream_next_set_def
  by (auto intro!: spares_whole frames) (auto simp: spares_def put_box_def split: prod.split)

lemma keeps_balancer: "keeps_box a st (set_pool_state b pl st)" "keeps_box a st (set_pool_state b pl (st\<lparr>process := q\<rparr>))"
  by (simp_all add: keeps_box_def set_pool_state_def)

lemma spares_pool_acquire [frames]:
  fixes E :: "('w, 't, 's, 'h, 'f) env"
  assumes "b \<noteq> a"
  shows "spares a (pool_acquire E b pl key)"
proof -
  have k: "keeps_box a st (put_box b x (st\<lparr>process := q\<rparr>))" "keeps_box a st (put_box b x st)" for st :: "('w, 's, 'f) c_state" and x q
    using assms by (simp_all add: keeps_box_def put_box_def)
  show ?thesis unfolding spares_keeps[of a "pool_acquire E b pl key"]
    by (auto simp: pool_acquire_def Let_def k keeps_balancer intro!: keeps_then frames split: skaidb_pool.split prod.split option.split)
qed

lemma keeps_drop: "keeps_box a st st1 \<Longrightarrow> keeps_box a st (drop_linked c st1)" "keeps_box a st st1 \<Longrightarrow> keeps_box a st (fold drop_linked cs st1)"
proof -
  show d: "keeps_box a st (drop_linked c st1)" if "keeps_box a st st1" for c st1
    using that by (auto simp: keeps_box_def drop_linked_def set_pool_state_def split: option.split prod.split)
  show "keeps_box a st (fold drop_linked cs st1)" if "keeps_box a st st1"
    using that by (induction cs arbitrary: st1) (simp_all add: d)
qed

lemma spares_pool_release [frames]: "b \<noteq> a \<Longrightarrow> spares a (pool_release b pl c)"
  unfolding spares_keeps
  by (auto simp: pool_release_def Let_def keeps_balancer keeps_put intro!: keeps_drop split: skaidb_pool.split option.split)

lemma spares_pool_close [frames]: "spares a (pool_close pl)"
  unfolding spares_keeps
  by (auto simp: pool_close_def keeps_balancer intro!: keeps_drop split: skaidb_pool.split option.split)

lemma spares_build_pool [frames]: "spares a (build_pool E seed0 b)" "spares a (policy_of i)" "spares a (idle_order_of i)" "spares a (pool_members E pl)"
proof -
  show "spares a (build_pool E seed0 b)"
    by (auto simp: spares_def build_pool_def throw_def fail_driver_def fail_def set_error_def sbind_def Let_def
        split: prod.split sum.split driver_error.split io_error.split)
qed (auto simp: policy_of_def idle_order_of_def pool_members_def spares_keeps intro!: frames[unfolded spares_keeps, rule_format] split: skaidb_pool.split option.split)

lemma spares_pools [frames]:
  "spares a (skaidb_pool_new E tls_new m eps n u pw tls db)"
  "spares a (skaidb_pool_new_balanced E tls_new seed0 three eps n u pw tls db o1 out)"
  unfolding skaidb_pool_new_def skaidb_pool_new_balanced_def
  by (auto intro!: frames simp: Let_def) (auto simp: spares_def alloc_def)

lemma spares_pool_calls [frames]:
  assumes "a \<notin> touched p"
  shows "spares a (skaidb_pool_acquire E p out)" "spares a (skaidb_pool_acquire_affinity E p key out)" "spares a (skaidb_pool_members E ms p out)"
  using assms unfolding skaidb_pool_acquire_def skaidb_pool_acquire_affinity_def skaidb_pool_members_def
  by (auto intro!: spares_handle frames)

lemma spares_pool_free [frames]: "a \<notin> touched p \<Longrightarrow> spares a (skaidb_pool_free p)"
  unfolding skaidb_pool_free_def by (cases "p = Null") (auto intro: spares_from_raw frames)

lemma spares_pool_released [frames]:
  assumes "a \<notin> touched p" and "a \<notin> touched q"
  shows "spares a (skaidb_pool_release p q)"
proof -
  have "spares a (if p = Null then (\<lambda>st. (Inr (), drop_linked c st)) else sbind (whole as_pool p) (\<lambda>(b, pl). pool_release b pl c))" for c
    using assms(1) by (auto intro!: spares_whole frames)
  then show ?thesis unfolding skaidb_pool_release_def by (cases "q = Null") (auto intro: spares_from_raw[OF assms(2)] frames)
qed

section \<open>Calls that only read\<close>

lemma spares_frees [frames]:
  assumes "a \<notin> touched p"
  shows "spares a (skaidb_string_free p)" "spares a (skaidb_value_free p)" "spares a (skaidb_result_free p)" "spares a (skaidb_results_free p)"
    "spares a (skaidb_prepared_free p)" "spares a (skaidb_members_free p)"
  unfolding skaidb_string_free_def skaidb_value_free_def skaidb_result_free_def skaidb_results_free_def skaidb_prepared_free_def skaidb_members_free_def
  by (rule spares_freed[OF assms])+

lemma pure_readers:
  "pure (skaidb_prepared_params p)" "pure (skaidb_stream_column_count p)" "pure (skaidb_stream_column_name p n)" "pure (skaidb_stream_affected p)"
  "pure (skaidb_members_len p)" "pure (skaidb_members_get p n)" "pure (skaidb_pool_idle_len p)"
  unfolding skaidb_prepared_params_def skaidb_stream_column_count_def skaidb_stream_column_name_def skaidb_stream_affected_def
    skaidb_members_len_def skaidb_members_get_def skaidb_pool_idle_len_def
  by (auto intro!: pures) (auto simp: pure_def split: skaidb_pool.split option.split)

lemmas spares_reads [frames] = result_readers_pure[THEN pure_spares] pure_readers[THEN pure_spares]

lemma spares_endpoint_dup [frames]: "spares a (skaidb_client_endpoint_dup p)"
  unfolding skaidb_client_endpoint_dup_def by (auto intro!: spares_whole frames)

section \<open>Programs\<close>

text \<open>One call that returns, labelled with the boxes it may change: constructors and readers none, the others the handles they
  are given. The numbers of \<^verbatim>\<open>serde_json\<close>, its parser and its printer are fixed.\<close>

inductive c_step :: "('w, 't, 's, 'h, 'f) env \<Rightarrow> 'n number_ops \<Rightarrow> (rstr \<Rightarrow> rstr + 'n json) \<Rightarrow> ('n json \<Rightarrow> rstr)
    \<Rightarrow> nat set \<Rightarrow> ('w, 's, 'f) c_state \<Rightarrow> ('w, 's, 'f) c_state \<Rightarrow> bool"
  for E :: "('w, 't, 's, 'h, 'f) env" and N parse print where
  "skaidb_value_null st = (Inr x0, st') \<Longrightarrow> c_step E N parse print ({}) st st'"
| "skaidb_value_bool b st = (Inr x1, st') \<Longrightarrow> c_step E N parse print ({}) st st'"
| "skaidb_value_int i st = (Inr x2, st') \<Longrightarrow> c_step E N parse print ({}) st st'"
| "skaidb_value_float f st = (Inr x3, st') \<Longrightarrow> c_step E N parse print ({}) st st'"
| "skaidb_value_decimal t st = (Inr x4, st') \<Longrightarrow> c_step E N parse print ({}) st st'"
| "skaidb_value_string t st = (Inr x5, st') \<Longrightarrow> c_step E N parse print ({}) st st'"
| "skaidb_value_string_len m n st = (Inr x6, st') \<Longrightarrow> c_step E N parse print ({}) st st'"
| "skaidb_value_bytes m n st = (Inr x7, st') \<Longrightarrow> c_step E N parse print ({}) st st'"
| "skaidb_value_uuid m st = (Inr x8, st') \<Longrightarrow> c_step E N parse print ({}) st st'"
| "skaidb_value_uuid_parse t st = (Inr x9, st') \<Longrightarrow> c_step E N parse print ({}) st st'"
| "skaidb_value_timestamp i st = (Inr x10, st') \<Longrightarrow> c_step E N parse print ({}) st st'"
| "skaidb_value_array items n st = (Inr x11, st') \<Longrightarrow> c_step E N parse print ({}) st st'"
| "skaidb_value_document ks items n st = (Inr x12, st') \<Longrightarrow> c_step E N parse print ({}) st st'"
| "skaidb_value_from_json N parse t st = (Inr x13, st') \<Longrightarrow> c_step E N parse print ({}) st st'"
| "skaidb_value_clone p st = (Inr x14, st') \<Longrightarrow> c_step E N parse print ({}) st st'"
| "skaidb_value_type p st = (Inr x15, st') \<Longrightarrow> c_step E N parse print ({}) st st'"
| "skaidb_value_is_null p st = (Inr x16, st') \<Longrightarrow> c_step E N parse print ({}) st st'"
| "skaidb_value_get_bool p st = (Inr x17, st') \<Longrightarrow> c_step E N parse print ({}) st st'"
| "skaidb_value_get_int d2f p st = (Inr x18, st') \<Longrightarrow> c_step E N parse print ({}) st st'"
| "skaidb_value_get_float d2f p st = (Inr x19, st') \<Longrightarrow> c_step E N parse print ({}) st st'"
| "skaidb_value_get_timestamp p st = (Inr x20, st') \<Longrightarrow> c_step E N parse print ({}) st st'"
| "skaidb_value_get_string p l st = (Inr x21, st') \<Longrightarrow> c_step E N parse print ({}) st st'"
| "skaidb_value_get_bytes p l st = (Inr x22, st') \<Longrightarrow> c_step E N parse print ({}) st st'"
| "skaidb_value_get_uuid p st = (Inr x23, st') \<Longrightarrow> c_step E N parse print ({}) st st'"
| "skaidb_value_array_len p st = (Inr x24, st') \<Longrightarrow> c_step E N parse print ({}) st st'"
| "skaidb_value_array_get p n st = (Inr x25, st') \<Longrightarrow> c_step E N parse print ({}) st st'"
| "skaidb_value_document_len p st = (Inr x26, st') \<Longrightarrow> c_step E N parse print ({}) st st'"
| "skaidb_value_document_key p n st = (Inr x27, st') \<Longrightarrow> c_step E N parse print ({}) st st'"
| "skaidb_value_document_value p n st = (Inr x28, st') \<Longrightarrow> c_step E N parse print ({}) st st'"
| "skaidb_value_document_get p t st = (Inr x29, st') \<Longrightarrow> c_step E N parse print ({}) st st'"
| "skaidb_value_to_string_dup N print p st = (Inr x30, st') \<Longrightarrow> c_step E N parse print ({}) st st'"
| "skaidb_value_to_json_dup N print p st = (Inr x31, st') \<Longrightarrow> c_step E N parse print ({}) st st'"
| "skaidb_results_len p st = (Inr x32, st') \<Longrightarrow> c_step E N parse print ({}) st st'"
| "skaidb_results_get p n st = (Inr x33, st') \<Longrightarrow> c_step E N parse print ({}) st st'"
| "skaidb_result_kind p st = (Inr x34, st') \<Longrightarrow> c_step E N parse print ({}) st st'"
| "skaidb_result_column_count p st = (Inr x35, st') \<Longrightarrow> c_step E N parse print ({}) st st'"
| "skaidb_result_column_name p n st = (Inr x36, st') \<Longrightarrow> c_step E N parse print ({}) st st'"
| "skaidb_result_row_count p st = (Inr x37, st') \<Longrightarrow> c_step E N parse print ({}) st st'"
| "skaidb_result_cell p n n2 st = (Inr x38, st') \<Longrightarrow> c_step E N parse print ({}) st st'"
| "skaidb_result_affected p st = (Inr x39, st') \<Longrightarrow> c_step E N parse print ({}) st st'"
| "skaidb_result_error p st = (Inr x40, st') \<Longrightarrow> c_step E N parse print ({}) st st'"
| "skaidb_result_set_count p st = (Inr x41, st') \<Longrightarrow> c_step E N parse print ({}) st st'"
| "skaidb_result_set p n st = (Inr x42, st') \<Longrightarrow> c_step E N parse print ({}) st st'"
| "skaidb_prepared_params p st = (Inr x43, st') \<Longrightarrow> c_step E N parse print ({}) st st'"
| "skaidb_stream_column_count p st = (Inr x44, st') \<Longrightarrow> c_step E N parse print ({}) st st'"
| "skaidb_stream_column_name p n st = (Inr x45, st') \<Longrightarrow> c_step E N parse print ({}) st st'"
| "skaidb_stream_affected p st = (Inr x46, st') \<Longrightarrow> c_step E N parse print ({}) st st'"
| "skaidb_pool_idle_len p st = (Inr x47, st') \<Longrightarrow> c_step E N parse print ({}) st st'"
| "skaidb_members_len p st = (Inr x48, st') \<Longrightarrow> c_step E N parse print ({}) st st'"
| "skaidb_members_get p n st = (Inr x49, st') \<Longrightarrow> c_step E N parse print ({}) st st'"
| "skaidb_client_endpoint_dup p st = (Inr x50, st') \<Longrightarrow> c_step E N parse print ({}) st st'"
| "skaidb_connect E tls_new eps n u pw tls out st = (Inr x51, st') \<Longrightarrow> c_step E N parse print ({}) st st'"
| "skaidb_connect_anonymous E t out st = (Inr x52, st') \<Longrightarrow> c_step E N parse print ({}) st st'"
| "skaidb_connect_gssapi E tls_new eps n u pw tls out st = (Inr x53, st') \<Longrightarrow> c_step E N parse print ({}) st st'"
| "skaidb_pool_new E tls_new n eps n2 u pw tls t st = (Inr x54, st') \<Longrightarrow> c_step E N parse print ({}) st st'"
| "skaidb_pool_new_balanced E tls_new seed1 three eps n u pw tls t opt out st = (Inr x55, st') \<Longrightarrow> c_step E N parse print ({}) st st'"
| "skaidb_string_free p st = (Inr x56, st') \<Longrightarrow> c_step E N parse print (touched p) st st'"
| "skaidb_value_free p st = (Inr x57, st') \<Longrightarrow> c_step E N parse print (touched p) st st'"
| "skaidb_result_free p st = (Inr x58, st') \<Longrightarrow> c_step E N parse print (touched p) st st'"
| "skaidb_results_free p st = (Inr x59, st') \<Longrightarrow> c_step E N parse print (touched p) st st'"
| "skaidb_prepared_free p st = (Inr x60, st') \<Longrightarrow> c_step E N parse print (touched p) st st'"
| "skaidb_members_free p st = (Inr x61, st') \<Longrightarrow> c_step E N parse print (touched p) st st'"
| "skaidb_client_free p st = (Inr x62, st') \<Longrightarrow> c_step E N parse print (touched p) st st'"
| "skaidb_pool_free p st = (Inr x63, st') \<Longrightarrow> c_step E N parse print (touched p) st st'"
| "skaidb_client_use_database E p t st = (Inr x64, st') \<Longrightarrow> c_step E N parse print (touched p) st st'"
| "skaidb_client_set_consistency p cons st = (Inr x65, st') \<Longrightarrow> c_step E N parse print (touched p) st st'"
| "skaidb_client_set_scan_budget_rows E p r st = (Inr x66, st') \<Longrightarrow> c_step E N parse print (touched p) st st'"
| "skaidb_client_add_endpoints p eps n st = (Inr x67, st') \<Longrightarrow> c_step E N parse print (touched p) st st'"
| "skaidb_client_reconnect E p st = (Inr x68, st') \<Longrightarrow> c_step E N parse print (touched p) st st'"
| "skaidb_execute E p t out st = (Inr x69, st') \<Longrightarrow> c_step E N parse print (touched p) st st'"
| "skaidb_execute_with E p t cons out st = (Inr x70, st') \<Longrightarrow> c_step E N parse print (touched p) st st'"
| "skaidb_prepare E p t out st = (Inr x71, st') \<Longrightarrow> c_step E N parse print (touched p) st st'"
| "skaidb_pipeline E p eps n out st = (Inr x72, st') \<Longrightarrow> c_step E N parse print (touched p) st st'"
| "skaidb_stream_poll E p t u n out out2 st = (Inr x73, st') \<Longrightarrow> c_step E N parse print (touched p) st st'"
| "skaidb_query_stream E p t out st = (Inr x74, st') \<Longrightarrow> c_step E N parse print (touched p) st st'"
| "skaidb_query_stream_with E p t cons out st = (Inr x75, st') \<Longrightarrow> c_step E N parse print (touched p) st st'"
| "skaidb_query_stream_params E p t items n out st = (Inr x76, st') \<Longrightarrow> c_step E N parse print (touched p) st st'"
| "skaidb_query_stream_params_with E p t items n cons out st = (Inr x77, st') \<Longrightarrow> c_step E N parse print (touched p) st st'"
| "skaidb_pool_acquire E p out st = (Inr x78, st') \<Longrightarrow> c_step E N parse print (touched p) st st'"
| "skaidb_pool_acquire_affinity E p t out st = (Inr x79, st') \<Longrightarrow> c_step E N parse print (touched p) st st'"
| "skaidb_pool_members E ms p out st = (Inr x80, st') \<Longrightarrow> c_step E N parse print (touched p) st st'"
| "skaidb_stream_next_set p st = (Inr x81, st') \<Longrightarrow> c_step E N parse print (touched p) st st'"
| "skaidb_execute_prepared E p q items n out st = (Inr x82, st') \<Longrightarrow> c_step E N parse print (touched p \<union> touched q) st st'"
| "skaidb_execute_prepared_with E p q items n cons out st = (Inr x83, st') \<Longrightarrow> c_step E N parse print (touched p \<union> touched q) st st'"
| "skaidb_execute_batch E p q rws n n2 out st = (Inr x84, st') \<Longrightarrow> c_step E N parse print (touched p \<union> touched q) st st'"
| "skaidb_pool_release p q st = (Inr x85, st') \<Longrightarrow> c_step E N parse print (touched p \<union> touched q) st st'"
| "skaidb_stream_next fuel E p out out2 st = (Inr x86, st') \<Longrightarrow> c_step E N parse print (touched p \<union> borrowed p st) st st'"
| "skaidb_stream_free fuel E p st = (Inr x87, st') \<Longrightarrow> c_step E N parse print (touched p \<union> borrowed p st) st st'"

inductive c_steps :: "('w, 't, 's, 'h, 'f) env \<Rightarrow> 'n number_ops \<Rightarrow> (rstr \<Rightarrow> rstr + 'n json) \<Rightarrow> ('n json \<Rightarrow> rstr)
    \<Rightarrow> nat set \<Rightarrow> ('w, 's, 'f) c_state \<Rightarrow> ('w, 's, 'f) c_state \<Rightarrow> bool"
  for E :: "('w, 't, 's, 'h, 'f) env" and N parse print where
  no_call: "c_steps E N parse print {} st st"
| calls: "c_step E N parse print L st st' \<Longrightarrow> c_steps E N parse print M st' st'' \<Longrightarrow> c_steps E N parse print (L \<union> M) st st''"

lemma spares_step: "spares a m \<Longrightarrow> m st = (r, st') \<Longrightarrow> keeps_box a st st'"
  unfolding spares_keeps by (metis snd_conv)

lemma stream_step_keeps:
  assumes "a \<notin> touched p \<union> borrowed p st"
  shows "skaidb_stream_next fuel E p out out2 st = (r, st') \<Longrightarrow> keeps_box a st st'"
    and "skaidb_stream_free fuel E p st = (r', st') \<Longrightarrow> keeps_box a st st'"
  using assms keeps_stream_next[of a p st fuel E out out2] keeps_stream_free[of a p st fuel E] by auto

lemma c_step_keeps:
  assumes "c_step E N parse print L st st'" and "a \<notin> L"
  shows "keeps_box a st st'"
  using assms
  by cases (fastforce elim!: spares_step[rotated] stream_step_keeps[rotated] intro: frames)+

lemma c_steps_keep: "c_steps E N parse print L st st' \<Longrightarrow> a \<notin> L \<Longrightarrow> a < brk st \<Longrightarrow> boxes st' a = boxes st a \<and> a < brk st'"
  by (induction rule: c_steps.induct) (auto simp: keeps_box_def dest!: c_step_keeps)

section \<open>Properties\<close>

text \<open>C6: A pointer borrowed from an object stays valid and reads the same value, bytes and text through every sequence of calls that
  is not given the object: in particular, for a value, a result or a list of results, until the object is freed.\<close>

theorem borrowed_pointers_stay:
  assumes "c_steps E N parse print L st st'" and "a < brk st" and "a \<notin> L"
  shows "deref_val (Ref a ps) st' = deref_val (Ref a ps) st \<and> read_view (Ref a ps) st' = read_view (Ref a ps) st
    \<and> read_text (Ref a ps) st' = read_text (Ref a ps) st"
  using c_steps_keep[OF assms(1,3,2)] by (simp add: deref_val_def read_view_def read_text_def)

theorem borrowed_pointers_stay_witness:
  "\<exists>st'. c_steps (sample_env []) sum_numbers (\<lambda>_. Inl []) (\<lambda>_. []) {2}
       (sample_memory\<lparr>boxes := [1 \<mapsto> ValueBox (VArray [VNull]), 2 \<mapsto> ValueBox VNull], brk := 3\<rparr>) st' \<and> deref_val (Ref 1 [AtItem 0]) st' = Some VNull"
proof -
  let ?st = "sample_memory\<lparr>boxes := [1 \<mapsto> ValueBox (VArray [VNull]), 2 \<mapsto> ValueBox VNull], brk := 3\<rparr>"
  have "skaidb_value_free (Ref 2 []) ?st = (Inr (), clear_box 2 ?st)"
    by (simp add: skaidb_value_free_def free_box_def from_raw_def whole_def as_value_def sbind_def)
  then have one: "c_step (sample_env []) sum_numbers (\<lambda>_. Inl []) (\<lambda>_. []) (touched (Ref 2 [])) ?st (clear_box 2 ?st)"
    by (rule c_step.intros)
  have "c_steps (sample_env []) sum_numbers (\<lambda>_. Inl []) (\<lambda>_. []) (touched (Ref 2 []) \<union> {}) ?st (clear_box 2 ?st)"
    by (rule c_steps.calls[OF one c_steps.no_call])
  then have steps: "c_steps (sample_env []) sum_numbers (\<lambda>_. Inl []) (\<lambda>_. []) {2} ?st (clear_box 2 ?st)" by simp
  have "deref_val (Ref 1 [AtItem 0]) (clear_box 2 ?st) = deref_val (Ref 1 [AtItem 0]) ?st"
    using borrowed_pointers_stay[OF steps, of 1 "[AtItem 0]"] by simp
  then show ?thesis using steps by (auto simp: deref_val_def box_val_def)
qed

text \<open>Reading a stream and moving it to its next result sets.\<close>

inductive stream_calls :: "('w, 't, 's, 'h, 'f) env \<Rightarrow> nat \<Rightarrow> ('w, 's, 'f) c_state \<Rightarrow> ('w, 's, 'f) c_state \<Rightarrow> bool"
  for E :: "('w, 't, 's, 'h, 'f) env" and a where
  no_read: "stream_calls E a st st"
| read: "skaidb_stream_next fuel E (Ref a []) False False st = (Inr r, st') \<Longrightarrow> stream_calls E a st' st'' \<Longrightarrow> stream_calls E a st st''"
| next_set: "skaidb_stream_next_set (Ref a []) st = (Inr status, st') \<Longrightarrow> stream_calls E a st' st'' \<Longrightarrow> stream_calls E a st st''"

lemma names_after_next:
  assumes "boxes st a = Some (StreamBox s)" and "skaidb_stream_next fuel E (Ref a []) False False st = (Inr r, st')"
  shows "\<exists>s'. boxes st' a = Some (StreamBox s') \<and> stream_names s' = stream_names s"
proof -
  obtain o1 rs st1 where "stream_step fuel E s st = (Inr (o1, rs), st1)"
    and "stream_outcome E a (s\<lparr>s_stream := rs\<rparr>) o1 st1 = (Inr r, st')"
    using assms by (auto simp: skaidb_stream_next_def whole_def as_stream_def sbind_def split: prod.splits sum.splits)
  then show ?thesis
    by (auto simp: stream_outcome_def fail_driver_def fail_def set_error_def sbind_def put_box_def stream_names_def Let_def
        split: sum.splits option.splits fault.splits)
qed

lemma names_after_next_set:
  assumes "boxes st a = Some (StreamBox s)" and "skaidb_stream_next_set (Ref a []) st = (Inr status, st')"
  shows "\<exists>s' more. boxes st' a = Some (StreamBox s') \<and> stream_names s' = stream_names s @ more"
  using assms by (auto simp: skaidb_stream_next_set_def whole_def as_stream_def sbind_def put_box_def stream_names_def split: prod.splits if_splits)

lemma names_grow:
  "stream_calls E a st st' \<Longrightarrow> boxes st a = Some (StreamBox s) \<Longrightarrow> \<exists>s' more. boxes st' a = Some (StreamBox s') \<and> stream_names s' = stream_names s @ more"
proof (induction arbitrary: s rule: stream_calls.induct)
  case (read fuel st r st' st'')
  obtain s1 where "boxes st' a = Some (StreamBox s1)" "stream_names s1 = stream_names s" using names_after_next[OF read.prems read.hyps(1)] by blast
  then show ?case using read.IH by metis
next
  case (next_set st status st' st'')
  obtain s1 more where "boxes st' a = Some (StreamBox s1)" "stream_names s1 = stream_names s @ more" using names_after_next_set[OF next_set.prems next_set.hyps(1)] by blast
  then show ?case using next_set.IH by (metis append.assoc)
qed simp

text \<open>The names of a stream's columns, once handed out, stay readable while the stream is read and moved to its next result sets,
  although each set brings names of its own.\<close>

theorem column_names_stay:
  assumes "stream_calls E a st st'" and "boxes st a = Some (StreamBox s)" and "read_text (Ref a [AtName k i]) st = Some t"
  shows "read_text (Ref a [AtName k i]) st' = Some t"
  using names_grow[OF assms(1,2)] assms(2,3) by (auto simp: read_text_def box_text_def nth_append split: if_splits)

theorem column_names_stay_witness:
  "\<exists>st'. stream_calls (sample_env []) 2 (sample_heap True) st' \<and> read_text (Ref 2 [AtName 0 0]) st' = Some [0x61] \<and> read_text (Ref 2 [AtName 1 0]) st' = Some [0x62]"
proof -
  obtain st' where st': "skaidb_stream_next_set (Ref 2 []) (sample_heap True) = (Inr SKAIDB_OK, st')" "read_text (Ref 2 [AtName 1 0]) st' = Some [0x62]"
    by (auto simp: skaidb_stream_next_set_def sample_heap_def sample_stream_def whole_def as_stream_def sbind_def next_result_set_def read_text_def box_text_def
        put_box_def stream_names_def c_string_lossy_def)
  have c: "stream_calls (sample_env []) 2 (sample_heap True) st'" by (rule stream_calls.next_set[OF st'(1) stream_calls.no_read])
  have "boxes (sample_heap True) 2 = Some (StreamBox (sample_stream True))" "read_text (Ref 2 [AtName 0 0]) (sample_heap True) = Some [0x61]"
    by (simp_all add: sample_heap_def read_text_def box_text_def stream_names_def sample_stream_def)
  then show ?thesis using column_names_stay[OF c] c st'(2) by blast
qed

end
