(* ===== verification/C_Session.thy ===== *)
theory C_Session
  imports C_Safety
begin

text \<open>
  The C interface over a live connection: the statuses a connection attempt can end with, and a statement from the C string
  to the cells of its result.
\<close>

section \<open>The statuses a call can fail with\<close>

text \<open>\<^verbatim>\<open>TlsConfig::new\<close> as the connect calls meet it: the files are those of the world the call finds, an error is
  \<^verbatim>\<open>DriverError::Io\<close>.\<close>

definition tls_new_from :: "('w \<Rightarrow> 'k tls_lib) \<Rightarrow> ('k driver_tls \<Rightarrow> tls_config) \<Rightarrow> 'w tls_new" where
  "tls_new_from T handle v name w = (case tls_config_new (T w) v name of
     Inl e \<Rightarrow> (Inl (Io (InvalidInput (map (\<lambda>b. char_of (unat b)) e))), w)
   | Inr cfg \<Rightarrow> (Inr (handle cfg), w))"

text \<open>The CA file the caller names does not load.\<close>

definition ca_unusable :: "'k tls_lib \<Rightarrow> skaidb_tls option \<Rightarrow> bool" where
  "ca_unusable T tls \<longleftrightarrow> (case tls of
     Some t \<Rightarrow> c_verify t = SKAIDB_TLS_CA_FILE
       \<and> (case c_ca_file t of Some f \<Rightarrow> isl (root_store T (takeWhile (\<lambda>b. b \<noteq> 0) f)) | None \<Rightarrow> False)
   | None \<Rightarrow> False)"

text \<open>What an operation can fail with when it starts in the world \<open>w\<close>, and that it leaves the world as it is when it returns.\<close>

definition errs :: "'w \<Rightarrow> skaidb_status set \<Rightarrow> ('w, 's, 'f, 'a) c_op \<Rightarrow> bool" where
  "errs w S m \<longleftrightarrow> (\<forall>st s st'. world (process st) = w \<longrightarrow> m st = (Inl (Err s), st') \<longrightarrow> s \<in> S)"

definition still :: "('w, 's, 'f, 'a) c_op \<Rightarrow> bool" where
  "still m \<longleftrightarrow> (\<forall>st x st'. m st = (Inr x, st') \<longrightarrow> world (process st') = world (process st))"

named_theorems statuses

lemma errs_sbind [statuses]: "errs w S m \<Longrightarrow> still m \<Longrightarrow> (\<And>x. errs w S (f x)) \<Longrightarrow> errs w S (sbind m f)"
  unfolding errs_def still_def sbind_def by (fastforce split: prod.splits sum.splits)

lemma still_sbind [statuses]: "still m \<Longrightarrow> (\<And>x. still (f x)) \<Longrightarrow> still (sbind m f)"
  unfolding still_def sbind_def by (fastforce split: prod.splits sum.splits)

lemma sbind_assoc: "sbind (sbind m f) g = sbind m (\<lambda>x. sbind (f x) g)"
  by (rule ext) (simp add: sbind_def split: prod.split sum.split)


lemma errs_basic [statuses]: "errs w S (sret x)" "errs w S (Pair (Inr x))" "errs w S UB" "errs w S (Pair (Inl undefined_behaviour))" "s \<in> S \<Longrightarrow> errs w S (throw (fail s msg))"
    "still (sret x)" "still (Pair (Inr x))" "still UB" "still (Pair (Inl undefined_behaviour))" "still (throw (fail s msg))"
  by (auto simp: errs_def still_def undefined_behaviour_def throw_def fail_def sbind_def)

lemma still_cstr [statuses]: "still (cstr p what)"
  unfolding cstr_def by (auto intro!: statuses simp: Let_def split: option.split)

lemma still_each_cstr: "still (each (\<lambda>p _. cstr p what) xs is)"
  by (induction "is") (auto intro!: statuses)

lemma still_cstrs [statuses]: "still (cstr_list items n what)"
  unfolding cstr_list_def by (auto intro!: statuses still_each_cstr split: option.split)

lemma errs_args [statuses]:
  assumes "SKAIDB_ERR_INVALID \<in> S"
  shows "errs w S (cstr p what)" "errs w S (cstr_list items n what)"
proof -
  show c: "errs w S (cstr p what)" for p
    unfolding cstr_def using assms by (auto intro!: statuses simp: Let_def split: option.split)
  then have "errs w S (each (\<lambda>p _. cstr p what) xs is)" for xs "is"
    by (induction "is") (auto intro!: errs_sbind still_sbind errs_basic still_cstr still_each_cstr)
  then show "errs w S (cstr_list items n what)"
    unfolding cstr_list_def using assms by (auto intro!: statuses split: option.split)
qed

lemma errs_cstr:
  assumes "SKAIDB_ERR_INVALID \<in> S" and "\<And>mem. p = Some mem \<Longrightarrow> errs w S (f (takeWhile (\<lambda>b. b \<noteq> 0) mem))"
  shows "errs w S (sbind (cstr p what) f)"
  using assms by (cases p) (auto simp: cstr_def errs_def Let_def sbind_def throw_def fail_def split: if_splits)

lemma tls_error_ca:
  assumes "tls_config_new T x name = Inl e"
  shows "\<exists>ca. x = CaFile ca \<and> isl (root_store T ca)"
  using assms by (cases x) (auto simp: tls_config_new_def tls_with_def client_config_for_def verify_of_def then_try_def split: sum.splits)

lemma errs_tls [statuses]:
  assumes "SKAIDB_ERR_INVALID \<in> S" and "ca_unusable (T w) tls \<longrightarrow> SKAIDB_ERR_IO \<in> S"
  shows "errs w S (tls_config_of E (tls_new_from T handle) tls)" "still (tls_config_of E (tls_new_from T handle) tls)"
proof -
  let ?new = "\<lambda>x name st. let (r, w) = tls_new_from T handle x name (world (process st)); st = st\<lparr>process := (process st)\<lparr>world := w\<rparr>\<rparr>
    in case r of Inr cfg \<Rightarrow> (Inr (Some cfg), st) | Inl e \<Rightarrow> throw (fail_driver E e) st"
  have s: "still (?new x name)" for x name
    by (auto simp: still_def tls_new_from_def throw_def fail_driver_def fail_def sbind_def split: sum.splits)
  have e: "errs w S (?new x name)" if "\<forall>ca. x = CaFile ca \<longrightarrow> isl (root_store (T w) ca) \<longrightarrow> SKAIDB_ERR_IO \<in> S" for x name
    using that by (auto simp: errs_def tls_new_from_def throw_def fail_driver_def fail_def sbind_def driver_status_def dest!: tls_error_ca split: sum.splits)
  show "still (tls_config_of E (tls_new_from T handle) tls)"
    unfolding tls_config_of_def using assms(1) s by (auto intro!: statuses split: option.split skaidb_tls_verify.split)
  show "errs w S (tls_config_of E (tls_new_from T handle) tls)"
  proof (cases tls)
    case (Some t)
    have ca: "errs w S (sbind (cstr (c_ca_file t) ''tls.ca_file'') (\<lambda>f. ?new (CaFile f) name))" if "c_verify t = SKAIDB_TLS_CA_FILE" for name
      using assms Some that by (intro errs_cstr e) (auto simp: ca_unusable_def)
    show ?thesis unfolding tls_config_of_def Some option.case
      using assms(1) e[of System] e[of Insecure] ca
      by (intro errs_cstr) (auto simp: sbind_assoc split: skaidb_tls_verify.split)
  qed (simp add: tls_config_of_def errs_basic)
qed

lemma open_loop_no_endpoint: "open_loop E ordered lg lnk said eps ps = (Inl (Err e), ps') \<Longrightarrow> \<exists>m. e = NoEndpoint m"
proof (induction eps arbitrary: said ps)
  case (Cons ep eps)
  show ?case
    using Cons.prems Cons.IH
    by (auto simp: Let_def rbind_def send_hello_no_error split: prod.splits sum.splits fault.splits)
qed auto

lemma connect_mode_no_endpoint: "connect_mode E endpoints user password spn cert tls ps = (Inl (Err e), ps') \<Longrightarrow> \<exists>m. e = NoEndpoint m"
  by (auto simp: connect_mode_def open_client_def Let_def dest: open_loop_no_endpoint split: prod.splits if_splits)

lemma errs_driver:
  fixes E :: "('w, 't, 's, 'h, 'f) env"
  assumes "\<And>(st :: ('w, 's, 'f) c_state) ps' e. world (process st) = w \<Longrightarrow> m (process st, no_pool) = (Inl (Err e), ps') \<Longrightarrow> driver_status e \<in> S"
  shows "errs w S (connecting E m)"
  unfolding errs_def
proof (intro allI impI)
  fix st :: "('w, 's, 'f) c_state" and s st' assume w: "world (process st) = w" and *: "connecting E m st = (Inl (Err s), st')"
  obtain r p bs where r: "m (process st, no_pool) = (r, (p, bs))" by (metis surj_pair)
  with * obtain e where "r = Inl (Err e)" "s = driver_status e"
    by (auto simp: connecting_def driver_result_def throw_def fail_driver_def fail_def sbind_def split: sum.splits fault.splits)
  then show "s \<in> S" using assms[OF w] r by blast
qed

lemma errs_connecting [statuses]: "SKAIDB_ERR_NO_ENDPOINT \<in> S \<Longrightarrow> errs w S (connecting E (connect_mode E endpoints user password spn cert tls))"
  by (rule errs_driver) (auto simp: driver_status_def dest!: connect_mode_no_endpoint)






section \<open>Statements\<close>

lemma pool_view_net: "pool_view E c st = (E', pl) \<Longrightarrow> net E' = net E"
  by (auto simp: pool_view_def split: option.splits)

lemma on_driver_answer:
  assumes "\<And>E' pl. pool_view E c st = (E', pl) \<Longrightarrow> \<exists>d. m E' \<lparr>me = c, proc = process st, pool = pl\<rparr> = (r, d) \<and> P (me d)"
  shows "\<exists>st1 c1. on_driver E a c m st = driver_result E r st1 \<and> boxes st1 = (boxes st)(a \<mapsto> ClientBox c1) \<and> brk st1 = brk st \<and> P c1"
proof -
  obtain E' pl where v: "pool_view E c st = (E', pl)" by fastforce
  then obtain d where d: "m E' \<lparr>me = c, proc = process st, pool = pl\<rparr> = (r, d)" "P (me d)" using assms by blast
  have "boxes (put_back a c d st) = (boxes st)(a \<mapsto> ClientBox (me d)) \<and> brk (put_back a c d st) = brk st"
    by (auto simp: put_back_def put_box_def set_pool_state_def Let_def split: option.split prod.split)
  then show ?thesis using v d by (auto simp: on_driver_def)
qed

section \<open>Properties\<close>



text \<open>C8: A statement through the C interface: on a working connection the text of the C string is sent once, as one frame, exactly its
  response is read, and reading the result gives the response of the server; an error answer is the server status with
  its message as the error text. The session settings stay.\<close>

theorem c_execute_delivers:
  fixes E :: "('w, 't, 's, 'h, 'f) env"
  assumes "duplex (io (net E)) sent pending" and "heap_ok st" and "boxes st a = Some (ClientBox c)" and "utf8_ok sql" and "0 \<notin> set sql"
    and "length (request_encode \<lparr>req_sql = sql, req_consistency = default_consistency c\<rparr>) \<le> MAX_FRAME_LEN" and "length f \<le> MAX_FRAME_LEN"
    and "pending (stream c) = frame_bytes f @ rest" and "response_decode f = Inr resp" and "shown resp"
  shows "\<exists>st1 c1. boxes st1 a = Some (ClientBox c1) \<and> settings c1 = settings c \<and> pending (stream c1) = rest
    \<and> sent (stream c1) = sent (stream c) @ frame_bytes (request_encode \<lparr>req_sql = sql, req_consistency = default_consistency c\<rparr>)
    \<and> (case resp of
         Error m \<Rightarrow> skaidb_execute E (Ref a []) (Some sql) False st = (Inr (SKAIDB_ERR_SERVER, None), st1)
           \<and> read_text (skaidb_last_error st1) st1 = Some (display E (Server m))
       | _ \<Rightarrow> \<exists>p. skaidb_execute E (Ref a []) (Some sql) False st = (Inr (SKAIDB_OK, Some p), st1) \<and> read_result p st1 = (Inr resp, st1))"
proof -
  let ?q = "frame_bytes (request_encode \<lparr>req_sql = sql, req_consistency = default_consistency c\<rparr>)"
  let ?P = "\<lambda>c1. settings c1 = settings c \<and> pending (stream c1) = rest \<and> sent (stream c1) = sent (stream c) @ ?q"
  have "\<exists>d. execute E' sql \<lparr>me = c, proc = process st, pool = pl\<rparr> = (answer resp, d) \<and> ?P (me d)" if "pool_view E c st = (E', pl)" for E' pl
    using execute_ok[of E' sent pending sql "default_consistency c" f "\<lparr>me = c, proc = process st, pool = pl\<rparr>" rest resp]
      pool_view_net[OF that] assms by (auto simp: execute_def progressed_def)
  from on_driver_answer[where m = "\<lambda>E. execute E sql" and P = ?P, OF this] obtain st1 c1 where
    st1: "on_driver E a c (\<lambda>E. execute E sql) st = driver_result E (answer resp) st1" "boxes st1 = (boxes st)(a \<mapsto> ClientBox c1)" "brk st1 = brk st" "?P c1" by blast
  have fresh: "brk st1 \<noteq> a" using assms(2,3) st1(3) by (auto simp: heap_ok_def)
  have run: "skaidb_execute E (Ref a []) (Some sql) False st
      = boxed False (\<lambda>_. sbind (driver_result E (answer resp)) (\<lambda>resp. sret (ResultBox (result_of E resp))) st1) st"
    using assms(3,4,5) st1(1) by (simp add: skaidb_execute_def boxed_def client_mut_def whole_def as_client_def sbind_def cstr_ok)
  have z: "0 \<notin> set (display E (Server m))" if "resp = Error m" for m
    using that assms(10) by (auto simp: shown_def display_def of_str_def)
  have "\<exists>st2. boxes st2 a = Some (ClientBox c1) \<and> (case resp of
         Error m \<Rightarrow> skaidb_execute E (Ref a []) (Some sql) False st = (Inr (SKAIDB_ERR_SERVER, None), st2)
           \<and> read_text (skaidb_last_error st2) st2 = Some (display E (Server m))
       | _ \<Rightarrow> \<exists>p. skaidb_execute E (Ref a []) (Some sql) False st = (Inr (SKAIDB_OK, Some p), st2) \<and> read_result p st2 = (Inr resp, st2))"
  proof (cases "\<exists>m. resp = Error m")
    case True
    then obtain m where m: "resp = Error m" by blast
    then show ?thesis unfolding run using st1(2) z[OF m]
      by (auto simp: answer_def boxed_def driver_result_def throw_def fail_driver_def fail_def driver_status_def sbind_def set_error_def read_text_def skaidb_last_error_def)
  next
    case False
    let ?st2 = "snd (alloc (ResultBox (result_of E resp)) st1)"
    have "skaidb_execute E (Ref a []) (Some sql) False st = (Inr (SKAIDB_OK, Some (Ref (brk st1) [])), ?st2)"
      unfolding run using False by (cases resp) (auto simp: answer_def boxed_def driver_result_def sbind_def alloc_def)
    moreover have "read_result (Ref (brk st1) []) ?st2 = (Inr resp, ?st2)"
      by (rule read_result_ok[of _ _ E]) (auto simp: assms(10) deref_result_def box_result_def alloc_def)
    moreover have "boxes ?st2 a = Some (ClientBox c1)" using st1(2) fresh by (simp add: alloc_def)
    ultimately show ?thesis using False by (cases resp) auto
  qed
  then show ?thesis using st1(4) by blast
qed

theorem c_execute_delivers_witness:
  "\<exists>st1 p. skaidb_execute (sample_env []) (Ref 1 []) (Some [0x78]) False
      (sample_memory\<lparr>boxes := [1 \<mapsto> ClientBox (me (set_stream ([], frame_bytes (response_encode Ddl)) sample_driver))], brk := 2\<rparr>)
    = (Inr (SKAIDB_OK, Some p), st1) \<and> read_result p st1 = (Inr Ddl, st1)"
proof -
  let ?c = "me (set_stream ([], frame_bytes (response_encode Ddl)) sample_driver)"
  let ?st = "sample_memory\<lparr>boxes := [1 \<mapsto> ClientBox ?c], brk := 2\<rparr>"
  have "length (request_encode \<lparr>req_sql = [0x78], req_consistency = default_consistency ?c\<rparr>) \<le> MAX_FRAME_LEN"
    by (simp add: request_encode_def write_bytes_len MAX_FRAME_LEN_def)
  from c_execute_delivers[OF sample_env_duplex _ _ _ _ this sample_ddl(3) _ sample_ddl(1), of ?st 1 "[]" "[]"]
  show ?thesis by (auto simp: heap_ok_def shown_def)
qed

end
