(* ===== verification/C_Pool_Use.thy ===== *)
theory C_Pool_Use
  imports C_Session
begin

text \<open>
  A C program over one balanced pool: it makes the pool, checks connections out, runs statements, prepared statements, batches
  and streams on them in any order, gives them back or frees them, frees the pool, while the pool's background thread takes
  its passes in between and the program does anything else with other objects. The connections in the program's hands are
  the boxes at the addresses \<open>as\<close>; the pool is the box at \<open>a\<close>, empty once it has been freed, and its balancer \<open>b\<close>, which lives
  on with the connections.
\<close>

section \<open>The pool and the connections in hand\<close>

definition in_hand :: "('w, 't, 's, 'h, 'f) env \<Rightarrow> nat \<Rightarrow> nat \<Rightarrow> nat list \<Rightarrow> ('w, 's, 'f) c_state \<Rightarrow> bool" where
  "in_hand E a b as st \<longleftrightarrow> (boxes st a = Some (PoolBox (Balanced b)) \<or> boxes st a = None) \<and> distinct (a # as) \<and> (\<forall>q \<in> set (a # as). q < brk st)
     \<and> (\<exists>sh cs. balancers st b = Some sh \<and> conf_self (sh_conf sh) = b \<and> map (boxes st) as = map (\<lambda>c. Some (ClientBox c)) cs
         \<and> (\<forall>c \<in> set cs. out_of c = Some True) \<and> reachable b (f64 E) (sh_opts sh) (sh_state sh, cs))"

lemma in_handI:
  assumes "boxes st a = Some (PoolBox (Balanced b)) \<or> boxes st a = None" and "distinct (a # as)" and "\<And>q. q \<in> set (a # as) \<Longrightarrow> q < brk st"
    and "balancers st b = Some sh" and "conf_self (sh_conf sh) = b" and "map (boxes st) as = map (\<lambda>c. Some (ClientBox c)) cs"
    and "\<forall>c \<in> set cs. out_of c = Some True" and "reachable b (f64 E) (sh_opts sh) (sh_state sh, cs)"
  shows "in_hand E a b as st"
  using assms unfolding in_hand_def by blast

lemma in_handE:
  assumes "in_hand E a b as st"
  obtains sh cs where "balancers st b = Some sh" and "conf_self (sh_conf sh) = b" and "map (boxes st) as = map (\<lambda>c. Some (ClientBox c)) cs"
    and "\<forall>c \<in> set cs. out_of c = Some True" and "reachable b (f64 E) (sh_opts sh) (sh_state sh, cs)"
proof -
  from assms obtain sh cs where "balancers st b = Some sh \<and> conf_self (sh_conf sh) = b \<and> map (boxes st) as = map (\<lambda>c. Some (ClientBox c)) cs
    \<and> (\<forall>c \<in> set cs. out_of c = Some True) \<and> reachable b (f64 E) (sh_opts sh) (sh_state sh, cs)" unfolding in_hand_def by presburger
  then show ?thesis by (elim conjE) (rule that)
qed

lemma in_hand_basic:
  assumes "in_hand E a b as st"
  shows "boxes st a = Some (PoolBox (Balanced b)) \<or> boxes st a = None" and "distinct (a # as)" and "\<And>q. q \<in> set (a # as) \<Longrightarrow> q < brk st"
proof -
  note h = assms[unfolded in_hand_def]
  show "boxes st a = Some (PoolBox (Balanced b)) \<or> boxes st a = None" by (rule h[THEN conjunct1])
  show "distinct (a # as)" by (rule h[THEN conjunct2, THEN conjunct1])
  show "q < brk st" if "q \<in> set (a # as)" for q using h[THEN conjunct2, THEN conjunct2, THEN conjunct1] that by blast
qed

text \<open>What leaves the pool, its balancer and the connections in hand alone.\<close>

lemma in_hand_frame:
  assumes "in_hand E a b as st" and "\<And>q. q \<in> set (a # as) \<Longrightarrow> boxes st' q = boxes st q" and "balancers st' b = balancers st b" and "brk st \<le> brk st'"
  shows "in_hand E a b as st'"
proof -
  obtain sh cs where sh: "balancers st b = Some sh" "conf_self (sh_conf sh) = b" "map (boxes st) as = map (\<lambda>c. Some (ClientBox c)) cs"
    "\<forall>c \<in> set cs. out_of c = Some True" "reachable b (f64 E) (sh_opts sh) (sh_state sh, cs)" using in_handE[OF assms(1)] .
  have "map (boxes st') as = map (boxes st) as" using assms(2) by simp
  with in_hand_basic[OF assms(1)] assms(2-4) sh show ?thesis
    by (intro in_handI[where sh = sh and cs = cs]) (auto simp del: map_eq_conv intro: less_le_trans)
qed

lemma in_hand_error [simp]: "in_hand E a b as (set_error msg st) = in_hand E a b as st"
  by (simp add: in_hand_def set_error_def)

lemma in_hand_client:
  assumes "in_hand E a b as st" and "i < length as"
  obtains c where "boxes st (as ! i) = Some (ClientBox c)"
proof -
  obtain cs where "map (boxes st) as = map (\<lambda>c. Some (ClientBox c)) cs" using in_handE[OF assms(1)] by metis
  then have "boxes st (as ! i) = Some (ClientBox (cs ! i))" using assms(2) by (metis length_map nth_map)
  then show ?thesis by (rule that)
qed

text \<open>A box that is no connection and no pool is none of those in hand.\<close>

lemma in_hand_other:
  assumes "in_hand E a b as st" and "boxes st q = Some x" and "as_client x = None" and "as_pool x = None"
  shows "q \<notin> set (a # as)"
proof
  assume "q \<in> set (a # as)"
  then consider "q = a" | i where "i < length as" "q = as ! i" by (auto simp: in_set_conv_nth)
  then show False
  proof cases
    case 1
    then show False using in_hand_basic(1)[OF assms(1)] assms(2,4) by (auto simp: as_pool_def)
  next
    case 2
    obtain c where "boxes st (as ! i) = Some (ClientBox c)" using in_hand_client[OF assms(1) 2(1)] .
    with 2 assms(2,3) show False by (auto simp: as_client_def)
  qed
qed

lemma in_hand_put_other: "in_hand E a b as st \<Longrightarrow> q \<notin> set (a # as) \<Longrightarrow> in_hand E a b as (put_box q x st)"
  and in_hand_clear_other: "in_hand E a b as st \<Longrightarrow> q \<notin> set (a # as) \<Longrightarrow> in_hand E a b as (clear_box q st)"
  by (erule in_hand_frame; auto simp: put_box_def clear_box_def)+

lemma in_hand_linked:
  assumes "in_hand E a b as st" and "i < length as" and "boxes st (as ! i) = Some (ClientBox c)"
  obtains sh cs l where "balancers st b = Some sh" "conf_self (sh_conf sh) = b" "map (boxes st) as = map (\<lambda>c. Some (ClientBox c)) cs"
    "reachable b (f64 E) (sh_opts sh) (sh_state sh, cs)" "i < length cs" "cs ! i = c" "link c = Some l" "link_pool l = b"
    "\<forall>c \<in> set cs. out_of c = Some True"
proof -
  obtain sh cs where sh: "balancers st b = Some sh" "conf_self (sh_conf sh) = b" "map (boxes st) as = map (\<lambda>c. Some (ClientBox c)) cs"
    "\<forall>c \<in> set cs. out_of c = Some True" "reachable b (f64 E) (sh_opts sh) (sh_state sh, cs)" using in_handE[OF assms(1)] .
  have i: "i < length cs" "cs ! i = c" using sh(3) assms(2,3)
    by (metis length_map, metis c_box.inject(1) length_map nth_map option.inject)
  obtain l where "link (cs ! i) = Some l" "link_pool l = b" using held_linked[OF reachable_inv[OF sh(5)] i(1)] .
  with i(2) show ?thesis by (intro that[OF sh(1-3,5) i _ _ sh(4)]) simp_all
qed

section \<open>A method of the driver\<close>

lemma map_fun_upd_nth: "distinct xs \<Longrightarrow> i < length xs \<Longrightarrow> map (f(xs ! i := y)) xs = (map f xs)[i := y]"
  by (rule nth_equalityI) (auto simp: nth_list_update nth_eq_iff_index_eq)

lemma map_boxes_update:
  assumes "distinct as" and "i < length as" and "map (boxes st) as = map (\<lambda>c. Some (ClientBox c)) cs"
  shows "map ((boxes st)(as ! i \<mapsto> ClientBox c)) as = map (\<lambda>c. Some (ClientBox c)) (cs[i := c])"
  unfolding map_fun_upd_nth[OF assms(1,2)] assms(3) by (simp add: map_update)

text \<open>Whatever ran on the connection, what it leaves is put back.\<close>

lemma in_hand_back:
  assumes "in_hand E a b as st" and "i < length as" and "boxes st (as ! i) = Some (ClientBox c)" and "pool_view E c st = (E', pl)"
    and "\<And>o0. E' = E\<lparr>opts := o0\<rparr> \<Longrightarrow> pool_moves E' b \<lparr>me = c, proc = process st, pool = pl\<rparr> d"
  shows "in_hand E a b as (put_back (as ! i) c d st)"
proof -
  obtain sh cs l where sh: "balancers st b = Some sh" "conf_self (sh_conf sh) = b" "map (boxes st) as = map (\<lambda>c. Some (ClientBox c)) cs"
    "reachable b (f64 E) (sh_opts sh) (sh_state sh, cs)" "i < length cs" "cs ! i = c" "link c = Some l" "link_pool l = b"
    "\<forall>c \<in> set cs. out_of c = Some True" using in_hand_linked[OF assms(1-3)] .
  have view: "E' = E\<lparr>opts := sh_opts sh\<rparr>" "pl = sh_state sh" using assms(4) sh by (auto simp: pool_view_def shared_of_def)
  note m = assms(5)[OF view(1), unfolded pool_moves_def view(2)]
  have r: "reachable b (f64 E) (sh_opts sh) (pool d, cs[i := me d])" using m sh(4-6) by (auto simp: view(1))
  have "out_of (me d) = Some True" using m sh(5,6,9) nth_mem[of i cs] by auto
  then have o: "out_of x = Some True" if "x \<in> set (cs[i := me d])" for x
    using that sh(9) set_update_subset_insert[of cs i "me d"] by blast
  have b: "boxes (put_back (as ! i) c d st) = (boxes st)(as ! i \<mapsto> ClientBox (me d))" "brk (put_back (as ! i) c d st) = brk st"
    "balancers (put_back (as ! i) c d st) b = Some (sh\<lparr>sh_state := pool d\<rparr>)"
    using sh by (simp_all add: put_back_def put_box_def set_pool_state_def shared_of_def)
  have "a \<noteq> as ! i" "distinct as" using in_hand_basic(2)[OF assms(1)] assms(2) by auto
  with in_hand_basic[OF assms(1)] r o b sh(2) map_boxes_update[OF _ assms(2) sh(3), of "me d"] show ?thesis
    by (intro in_handI[where sh = "sh\<lparr>sh_state := pool d\<rparr>" and cs = "cs[i := me d]"]) auto
qed

lemma in_hand_result: "in_hand E a b as st \<Longrightarrow> in_hand E a b as (snd (driver_result E r st))"
  by (auto simp: driver_result_def throw_def fail_driver_def fail_def sbind_def split: sum.split fault.split)

lemma in_hand_method:
  assumes "in_hand E a b as st" and "i < length as" and "boxes st (as ! i) = Some (ClientBox c)"
    and "\<And>o0. does (pool_moves (E\<lparr>opts := o0\<rparr>) b) (m (E\<lparr>opts := o0\<rparr>))"
  shows "in_hand E a b as (snd (on_driver E (as ! i) c m st))"
proof -
  obtain E' pl where v: "pool_view E c st = (E', pl)" by fastforce
  obtain r d where d: "m E' \<lparr>me = c, proc = process st, pool = pl\<rparr> = (r, d)" by fastforce
  have "in_hand E a b as (put_back (as ! i) c d st)"
    by (rule in_hand_back[OF assms(1-3) v]) (use doesD[OF assms(4)] d in auto)
  then show ?thesis using v d in_hand_result by (simp add: on_driver_def)
qed

text \<open>A prepared statement, and a stream, beside the connection.\<close>

lemma in_hand_statement:
  assumes "in_hand E a b as st" and "i < length as" and "boxes st (as ! i) = Some (ClientBox c)" and "boxes st q = Some (PreparedBox p)"
    and "\<And>o0. does (\<lambda>x y. pool_moves (E\<lparr>opts := o0\<rparr>) b (snd x) (snd y)) (m (E\<lparr>opts := o0\<rparr>))"
  shows "in_hand E a b as (snd (on_statement E (as ! i) c q p m st))"
proof -
  obtain E' pl where v: "pool_view E c st = (E', pl)" by fastforce
  obtain r p' d where d: "m E' (p, \<lparr>me = c, proc = process st, pool = pl\<rparr>) = (r, (p', d))" by (metis surj_pair)
  have "in_hand E a b as (put_back (as ! i) c d st)"
    by (rule in_hand_back[OF assms(1-3) v]) (use doesD[OF assms(5)] d in fastforce)
  moreover have "q \<notin> set (a # as)" by (rule in_hand_other[OF assms(1,4)]) (simp_all add: as_client_def as_pool_def)
  ultimately have "in_hand E a b as (put_box q (PreparedBox p') (put_back (as ! i) c d st))" by (rule in_hand_put_other)
  then show ?thesis using v d in_hand_result by (simp add: on_statement_def)
qed

lemma in_hand_on_stream:
  assumes "in_hand E a b as st" and "\<And>c. boxes st (s_client s) = Some (ClientBox c) \<Longrightarrow> s_client s \<in> set as"
    and "\<And>o0. does (\<lambda>x y. pool_moves (E\<lparr>opts := o0\<rparr>) b (snd x) (snd y)) (m (E\<lparr>opts := o0\<rparr>))"
  shows "in_hand E a b as (snd (on_stream E s m st))"
proof (cases "Option.bind (boxes st (s_client s)) as_client")
  case None
  then show ?thesis using assms(1) by (simp add: on_stream_def whole_def sbind_def)
next
  case (Some c)
  then have c: "boxes st (s_client s) = Some (ClientBox c)" by (auto simp: as_client_def split: c_box.splits bind_splits)
  then obtain i where i: "i < length as" "as ! i = s_client s" using assms(2) by (auto simp: in_set_conv_nth)
  obtain E' pl where v: "pool_view E c st = (E', pl)" by fastforce
  obtain r rs d where d: "m E' (s_stream s, \<lparr>me = c, proc = process st, pool = pl\<rparr>) = (r, (rs, d))" by (metis surj_pair)
  have "in_hand E a b as (put_back (as ! i) c d st)"
    by (rule in_hand_back[OF assms(1) i(1) c[folded i(2)] v]) (use doesD[OF assms(3)] d in fastforce)
  then show ?thesis using Some v d i(2) by (simp add: on_stream_def whole_def sbind_def)
qed

lemma in_hand_put:
  assumes "in_hand E a b as st" and "i < length as" and "boxes st (as ! i) = Some (ClientBox c)" and "link c' = link c"
  shows "in_hand E a b as (put_box (as ! i) (ClientBox c') st)"
proof -
  obtain sh cs l where sh: "balancers st b = Some sh" "conf_self (sh_conf sh) = b" "map (boxes st) as = map (\<lambda>c. Some (ClientBox c)) cs"
    "reachable b (f64 E) (sh_opts sh) (sh_state sh, cs)" "i < length cs" "cs ! i = c" "link c = Some l" "link_pool l = b"
    "\<forall>c \<in> set cs. out_of c = Some True" using in_hand_linked[OF assms(1-3)] .
  have "pool_step b (f64 E) (sh_opts sh) (sh_state sh, cs) (sh_state sh, cs[i := c'])" by (rule pool_step.uses) (use sh assms(4) in auto)
  with sh(4) have r: "reachable b (f64 E) (sh_opts sh) (sh_state sh, cs[i := c'])" by (rule reachable.stepped)
  have "out_of c' = Some True" using sh(5,6,9) assms(4) nth_mem[of i cs] by (auto simp: out_of_def)
  then have o: "out_of x = Some True" if "x \<in> set (cs[i := c'])" for x using that sh(9) set_update_subset_insert[of cs i c'] by blast
  have "a \<noteq> as ! i" "distinct as" using in_hand_basic(2)[OF assms(1)] assms(2) by auto
  with in_hand_basic[OF assms(1)] r o sh(1,2) map_boxes_update[OF _ assms(2) sh(3), of c'] show ?thesis unfolding put_box_def
    by (intro in_handI[where sh = sh and cs = "cs[i := c']"]) auto
qed

section \<open>Calls on a connection in hand\<close>

definition stays :: "('w, 't, 's, 'h, 'f) env \<Rightarrow> nat \<Rightarrow> nat \<Rightarrow> nat list \<Rightarrow> ('w, 's, 'f, 'a) c_op \<Rightarrow> bool" where
  "stays E a b as m \<longleftrightarrow> (\<forall>st. in_hand E a b as st \<longrightarrow> in_hand E a b as (snd (m st)))"

text \<open>The same where the boxes satisfy \<open>P\<close>, as they do after a pointer has been read.\<close>

definition stays_on :: "('w, 't, 's, 'h, 'f) env \<Rightarrow> nat \<Rightarrow> nat \<Rightarrow> nat list \<Rightarrow> ((nat \<Rightarrow> 's c_box option) \<Rightarrow> bool) \<Rightarrow> ('w, 's, 'f, 'a) c_op \<Rightarrow> bool" where
  "stays_on E a b as P m \<longleftrightarrow> (\<forall>st. in_hand E a b as st \<longrightarrow> P (boxes st) \<longrightarrow> in_hand E a b as (snd (m st)))"

text \<open>Reading an argument changes nothing but the error text, and that only when it fails.\<close>

definition argument :: "('w, 's, 'f, 'a) c_op \<Rightarrow> bool" where
  "argument m \<longleftrightarrow> (\<forall>st. (\<exists>x. m st = (Inr x, st)) \<or> (\<exists>e. m st = (Inl e, st)) \<or> (\<exists>e msg. m st = (Inl e, set_error msg st)))"

named_theorems hands

lemma argument_sbind [hands]:
  assumes "argument m" and "\<And>x. argument (f x)"
  shows "argument (sbind m f)"
  unfolding argument_def
proof
  fix st :: "('a, 'b, 'c) c_state"
  from assms(1) consider x where "m st = (Inr x, st)" | e where "m st = (Inl e, st)" | e msg where "m st = (Inl e, set_error msg st)"
    unfolding argument_def by blast
  then show "(\<exists>x. sbind m f st = (Inr x, st)) \<or> (\<exists>e. sbind m f st = (Inl e, st)) \<or> (\<exists>e msg. sbind m f st = (Inl e, set_error msg st))"
    by cases (use assms(2) in \<open>auto simp: argument_def sbind_def\<close>)
qed

lemma argument_basic [hands]: "argument (sret x)" "argument (Pair (Inr x))" "argument UB" "argument (throw (fail s msg))"
  by (auto simp: argument_def throw_def fail_def sbind_def)

lemma argument_strings [hands]: "argument (cstr p what)" "argument (cstr_opt p what)" "argument (cstr_list items n what)"
proof -
  show c: "argument (cstr p what)" for p unfolding cstr_def by (auto intro!: hands simp: Let_def split: option.split)
  then show "argument (cstr_opt p what)" unfolding cstr_opt_def by (auto intro!: hands)
  have "argument (each (\<lambda>p _. cstr p what) xs is)" for xs "is"
    by (induction "is") (simp_all add: argument_sbind argument_basic c)
  then show "argument (cstr_list items n what)" unfolding cstr_list_def by (auto intro!: hands split: option.split)
qed

lemma argument_params [hands]: "argument (params_slice params n)"
proof -
  have d: "argument (deref p)" for p by (auto simp: argument_def deref_def split: option.split)
  have "argument (each (\<lambda>p i. if p = Null then throw (fail SKAIDB_ERR_INVALID (of_str ''params['' @ show_nat i @ of_str ''] is NULL'')) else deref p) xs is)"
    for xs "is" by (induction "is") (simp_all add: argument_sbind argument_basic d)
  then show ?thesis unfolding params_slice_def by (auto intro!: hands split: option.split)
qed

lemma argument_rows:
  "argument (if n_rows = 0 then sret [] else case rows of
       None \<Rightarrow> throw (fail SKAIDB_ERR_INVALID msg)
     | Some rows \<Rightarrow> each (\<lambda>r _. params_slice r n) rows [0..<n_rows])"
proof -
  have "argument (each (\<lambda>r _. params_slice r n) xs is)" for xs "is"
    by (induction "is") (simp_all add: argument_sbind argument_basic argument_params)
  then show ?thesis by (auto intro!: hands split: option.split)
qed

lemma stays_sbind: "stays E a b as m \<Longrightarrow> (\<And>x. stays E a b as (f x)) \<Longrightarrow> stays E a b as (sbind m f)"
  unfolding stays_def sbind_def by (auto split: prod.split sum.split)

lemma in_hand_alloc: "in_hand E a b as st \<Longrightarrow> alloc x st = (q, st') \<Longrightarrow> in_hand E a b as st'"
proof -
  assume h: "in_hand E a b as st" and st': "alloc x st = (q, st')"
  from h show ?thesis
  proof (rule in_hand_frame)
    show "boxes st' p = boxes st p" if "p \<in> set (a # as)" for p using in_hand_basic(3)[OF h that] st' by (auto simp: alloc_def)
  qed (use st' in \<open>auto simp: alloc_def\<close>)
qed

lemma stays_basic [hands]: "stays E a b as (sret x)" "stays E a b as (Pair (Inr x))" "stays E a b as (box_new y)" "stays E a b as (dup s)"
  by (auto simp: stays_def box_new_def dup_def split: prod.split intro: in_hand_alloc)

lemma stays_wrapped [hands]:
  assumes "stays E a b as m" shows "stays E a b as (boxed out m)"
proof -
  show "stays E a b as (boxed out m)" unfolding stays_def
  proof (intro allI impI)
    fix st assume h: "in_hand E a b as st"
    obtain r st1 where r: "m st = (r, st1)" by fastforce
    have "in_hand E a b as st1" using assms h r unfolding stays_def by (metis snd_conv)
    then show "in_hand E a b as (snd (boxed out m st))"
      using r h by (auto intro: in_hand_alloc simp: boxed_def fail_def sbind_def split: sum.split fault.split prod.split)
  qed
qed

lemma stays_catch [hands]: "stays E a b as m \<Longrightarrow> stays E a b as (catch m)" "stays E a b as m' \<Longrightarrow> stays E a b as (catching h m')"
  by (auto simp: stays_def catch_def catching_def split: prod.splits sum.splits fault.splits)

lemma stays_argument: "argument m \<Longrightarrow> (\<And>x. stays E a b as (f x)) \<Longrightarrow> stays E a b as (sbind m f)"
proof (rule stays_sbind)
  assume m: "argument m"
  show "stays E a b as m" unfolding stays_def
  proof (intro allI impI)
    fix st assume "in_hand E a b as st"
    then show "in_hand E a b as (snd (m st))" using m[unfolded argument_def, rule_format, of st] by auto
  qed
qed

lemma stays_client:
  assumes "i < length as" and "\<And>c. stays_on E a b as (\<lambda>B. B (as ! i) = Some (ClientBox c)) (f (as ! i, c))"
  shows "stays E a b as (sbind (client_mut (Ref (as ! i) [])) f)"
  unfolding stays_def
proof (intro allI impI)
  fix st assume h: "in_hand E a b as st"
  obtain c where c: "boxes st (as ! i) = Some (ClientBox c)" using in_hand_client[OF h assms(1)] .
  then show "in_hand E a b as (snd (sbind (client_mut (Ref (as ! i) [])) f st))"
    using assms(2)[unfolded stays_on_def] h by (simp add: client_mut_def whole_def as_client_def sbind_def)
qed

lemma stays_on_statement:
  assumes "\<And>q p. stays_on E a b as (\<lambda>B. P B \<and> B q = Some (PreparedBox p)) (f (q, p))"
  shows "stays_on E a b as P (sbind (stmt_mut stmt) f)"
  unfolding stays_on_def
proof (intro allI impI)
  fix st assume h: "in_hand E a b as st" "P (boxes st)"
  have "(\<exists>q p. stmt_mut stmt st = (Inr (q, p), st) \<and> boxes st q = Some (PreparedBox p)) \<or> (\<exists>e. stmt_mut stmt st = (Inl e, st))
    \<or> (\<exists>e msg. stmt_mut stmt st = (Inl e, set_error msg st))"
    by (cases stmt) (auto simp: stmt_mut_def whole_def as_prepared_def throw_def fail_def sbind_def split: list.splits option.splits c_box.splits bind_splits)
  then show "in_hand E a b as (snd (sbind (stmt_mut stmt) f st))"
    using assms[unfolded stays_on_def] h by (auto simp: sbind_def)
qed

lemma stays_on_argument:
  assumes "argument m" and "\<And>x. stays_on E a b as P (f x)"
  shows "stays_on E a b as P (sbind m f)"
  unfolding stays_on_def
proof (intro allI impI)
  fix st assume h: "in_hand E a b as st" "P (boxes st)"
  from assms(1) consider x where "m st = (Inr x, st)" | e where "m st = (Inl e, st)" | e msg where "m st = (Inl e, set_error msg st)"
    unfolding argument_def by blast
  then show "in_hand E a b as (snd (sbind m f st))" by cases (use assms(2) h in \<open>auto simp: stays_on_def\<close>)
qed

lemma stays_on_sbind:
  assumes "stays_on E a b as P m" and "\<And>x. stays E a b as (f x)"
  shows "stays_on E a b as P (sbind m f)"
  using assms unfolding stays_on_def stays_def sbind_def by (auto split: prod.split sum.split)

lemma stays_on_method:
  assumes "i < length as" and "\<And>o0. does (pool_moves (E\<lparr>opts := o0\<rparr>) b) (m (E\<lparr>opts := o0\<rparr>))" and "\<And>x. stays E a b as (f x)"
  shows "stays_on E a b as (\<lambda>B. B (as ! i) = Some (ClientBox c)) (sbind (on_driver E (as ! i) c m) f)"
  by (rule stays_on_sbind[OF _ assms(3)]) (simp add: stays_on_def in_hand_method[OF _ assms(1) _ assms(2)])

lemma stays_on_prepared:
  assumes "i < length as" and "\<And>o0. does (\<lambda>x y. pool_moves (E\<lparr>opts := o0\<rparr>) b (snd x) (snd y)) (m (E\<lparr>opts := o0\<rparr>))" and "\<And>x. stays E a b as (f x)"
  shows "stays_on E a b as (\<lambda>B. B (as ! i) = Some (ClientBox c) \<and> B q = Some (PreparedBox p)) (sbind (on_statement E (as ! i) c q p m) f)"
  by (rule stays_on_sbind[OF _ assms(3)]) (simp add: stays_on_def in_hand_statement[OF _ assms(1) _ _ assms(2)])

lemma stays_on_put:
  assumes "i < length as" and "link (g c) = link c"
  shows "stays_on E a b as (\<lambda>B. B (as ! i) = Some (ClientBox c)) (\<lambda>st. (Inr x, put_box (as ! i) (ClientBox (g c)) st))"
  using in_hand_put[OF _ assms(1) _ assms(2)] by (auto simp: stays_on_def)

lemma stays_on_throw [hands]: "stays_on E a b as P (throw (fail s msg))"
  by (auto simp: stays_on_def throw_def fail_def sbind_def)

lemmas stays_sequences [hands] = stays_sbind[OF stays_basic(3)] stays_sbind[OF stays_basic(4)]
  argument_strings[THEN stays_argument] argument_strings[THEN stays_on_argument] argument_params[THEN stays_argument]
  argument_params[THEN stays_on_argument]

lemma stays_throw [hands]: "stays E a b as (throw (fail s msg))"
  by (auto simp: stays_def throw_def fail_def sbind_def)

lemma does_pipeline_default: "does (pool_moves E self) (pipeline E stmts)"
  using moves.does_pipeline[of E self stmts] by (auto simp: does_def pipeline_def)

lemma link_settings: "link (set_consistency k c) = link c" "link (add_endpoints eps c) = link c"
proof -
  show "link (add_endpoints eps c) = link c" unfolding add_endpoints_def by (induction eps arbitrary: c) auto
qed (simp add: set_consistency_def)

lemma does_streaming: "does (pool_moves E self) (query_stream_params E sql ps)"
  using moves.does_query_stream[of E self sql ps] by (auto simp: does_def query_stream_params_def)

lemma stays_calls:
  assumes "i < length as"
  shows "stays E a b as (skaidb_execute E (Ref (as ! i) []) sql out)"
    and "stays E a b as (skaidb_execute_with E (Ref (as ! i) []) sql k out)"
    and "stays E a b as (skaidb_pipeline E (Ref (as ! i) []) stmts n out)"
    and "stays E a b as (skaidb_prepare E (Ref (as ! i) []) sql out)"
    and "stays E a b as (skaidb_client_use_database E (Ref (as ! i) []) sql)"
    and "stays E a b as (skaidb_client_set_scan_budget_rows E (Ref (as ! i) []) rows)"
    and "stays E a b as (skaidb_client_reconnect E (Ref (as ! i) []))"
    and "stays E a b as (skaidb_client_set_consistency (Ref (as ! i) []) k)"
    and "stays E a b as (skaidb_client_add_endpoints (Ref (as ! i) []) stmts n)"
    and "stays E a b as (skaidb_stream_poll E (Ref (as ! i) []) sql after n no_events no_next)"
  using assms
  unfolding skaidb_execute_def skaidb_execute_with_def skaidb_pipeline_def skaidb_prepare_def skaidb_client_use_database_def
    skaidb_client_set_scan_budget_rows_def skaidb_client_reconnect_def skaidb_client_set_consistency_def skaidb_client_add_endpoints_def
    skaidb_stream_poll_def
  by (auto intro!: hands stays_client stays_on_method stays_on_put moves.does_execute moves.does_settings moves.does_reconnect does_pipeline_default
      moves.does_prepare simp: link_settings)

lemma stays_prepared:
  assumes "i < length as"
  shows "stays E a b as (skaidb_execute_prepared E (Ref (as ! i) []) stmt params n out)"
    and "stays E a b as (skaidb_execute_prepared_with E (Ref (as ! i) []) stmt params n k out)"
    and "stays E a b as (skaidb_execute_batch E (Ref (as ! i) []) stmt rows n_rows n no_affected)"
proof -
  show "stays E a b as (skaidb_execute_prepared E (Ref (as ! i) []) stmt params n out)"
    "stays E a b as (skaidb_execute_prepared_with E (Ref (as ! i) []) stmt params n k out)"
    using assms unfolding skaidb_execute_prepared_def skaidb_execute_prepared_with_def execute_statement_def
    by (auto intro!: hands stays_client stays_on_statement stays_on_prepared moves.does_prepared)
  show "stays E a b as (skaidb_execute_batch E (Ref (as ! i) []) stmt rows n_rows n no_affected)"
    unfolding skaidb_execute_batch_def
  proof (intro stays_catch stays_client[OF assms], unfold prod.case, rule stays_on_statement, unfold prod.case)
    fix c q p
    show "stays_on E a b as (\<lambda>B. B (as ! i) = Some (ClientBox c) \<and> B q = Some (PreparedBox p))
      (if no_affected then throw (fail SKAIDB_ERR_INVALID (of_str ''affected is NULL''))
       else sbind (if n_rows = 0 then sret [] else case rows of None \<Rightarrow> throw (fail SKAIDB_ERR_INVALID (of_str ''rows is NULL''))
           | Some rows \<Rightarrow> each (\<lambda>r _. params_slice r n) rows [0..<n_rows]) (\<lambda>batch.
         sbind (on_statement E (as ! i) c q p (\<lambda>E. execute_batch E batch)) (\<lambda>n. sret (SKAIDB_OK, Some n))))"
      by (cases no_affected; simp only: if_True if_False simp_thms)
        (rule stays_on_throw stays_on_argument[OF argument_rows] stays_on_prepared[OF assms] moves.does_prepared stays_basic)+
  qed
qed

lemma stays_open_stream:
  assumes "i < length as"
  shows "stays E a b as (skaidb_query_stream E (Ref (as ! i) []) sql out)"
    and "stays E a b as (skaidb_query_stream_with E (Ref (as ! i) []) sql k out)"
    and "stays E a b as (skaidb_query_stream_params E (Ref (as ! i) []) sql params n out)"
    and "stays E a b as (skaidb_query_stream_params_with E (Ref (as ! i) []) sql params n k out)"
proof -
  have "does (pool_moves (E\<lparr>opts := o0\<rparr>) b) (case cons of Some cons \<Rightarrow> query_stream_params_with (E\<lparr>opts := o0\<rparr>) sql ps (consistency_of cons)
      | None \<Rightarrow> query_stream_params (E\<lparr>opts := o0\<rparr>) sql ps)" for o0 cons sql ps
    by (cases cons) (simp_all add: does_streaming moves.does_query_stream)
  then have "stays E a b as (open_stream E (Ref (as ! i) []) sql ps cons)" for ps cons
    using assms unfolding open_stream_def by (auto intro!: hands stays_client stays_on_method)
  then show "stays E a b as (skaidb_query_stream E (Ref (as ! i) []) sql out)" "stays E a b as (skaidb_query_stream_with E (Ref (as ! i) []) sql k out)"
    "stays E a b as (skaidb_query_stream_params E (Ref (as ! i) []) sql params n out)"
    "stays E a b as (skaidb_query_stream_params_with E (Ref (as ! i) []) sql params n k out)"
    unfolding skaidb_query_stream_def skaidb_query_stream_with_def skaidb_query_stream_params_def skaidb_query_stream_params_with_def
    by (auto intro!: hands)
qed

text \<open>Reading and freeing a stream, which borrows its connection.\<close>

lemma stream_in_hand:
  assumes "in_hand E a b as st" and "\<And>s c. boxes st q = Some (StreamBox s) \<Longrightarrow> boxes st (s_client s) = Some (ClientBox c) \<Longrightarrow> s_client s \<in> set as"
  shows "in_hand E a b as (snd (skaidb_stream_next fuel E (Ref q []) no_row no_n st))"
    and "in_hand E a b as (snd (skaidb_stream_next_set (Ref q []) st))"
    and "in_hand E a b as (snd (skaidb_stream_free fuel E (Ref q []) st))"
proof -
  show "in_hand E a b as (snd (skaidb_stream_next fuel E (Ref q []) no_row no_n st))"
  proof (cases "Option.bind (boxes st q) as_stream")
    case None
    then show ?thesis using assms(1) by (simp add: skaidb_stream_next_def whole_def fail_def sbind_def)
  next
    case (Some s)
    then have s: "boxes st q = Some (StreamBox s)" by (auto simp: as_stream_def split: c_box.splits bind_splits)
    note q = in_hand_other[OF assms(1) s]
    obtain r st1 where r: "stream_step fuel E s st = (r, st1)" by fastforce
    have "in_hand E a b as (snd (on_stream E s (next_row fuel) st))"
      by (rule in_hand_on_stream[OF assms(1)]) (rule assms(2)[OF s], assumption, rule moves.does_stream)
    with r assms(1) have h: "in_hand E a b as st1" by (auto simp: stream_step_def split: if_splits list.splits)
    have "in_hand E a b as (snd (stream_outcome E q s' x st1))" for s' x
      using in_hand_put_other[OF h, of q] q
      by (auto simp: stream_outcome_def fail_driver_def fail_def sbind_def as_client_def as_pool_def split: sum.split fault.split option.split)
    with h r Some assms(1) show ?thesis
      by (cases r) (auto simp: skaidb_stream_next_def whole_def fail_def sbind_def split: prod.splits)
  qed
  show "in_hand E a b as (snd (skaidb_stream_next_set (Ref q []) st))"
  proof (cases "Option.bind (boxes st q) as_stream")
    case None
    then show ?thesis using assms(1) by (simp add: skaidb_stream_next_set_def whole_def sbind_def)
  next
    case (Some s)
    then have s: "boxes st q = Some (StreamBox s)" by (auto simp: as_stream_def split: c_box.splits bind_splits)
    from in_hand_put_other[OF assms(1) in_hand_other[OF assms(1) s]] Some assms(1) show ?thesis
      by (auto simp: skaidb_stream_next_set_def whole_def sbind_def as_client_def as_pool_def split: prod.splits)
  qed
  show "in_hand E a b as (snd (skaidb_stream_free fuel E (Ref q []) st))"
  proof (cases "Option.bind (boxes st q) as_stream")
    case None
    then show ?thesis using assms(1) by (simp add: skaidb_stream_free_def from_raw_def whole_def sbind_def)
  next
    case (Some s)
    then have s: "boxes st q = Some (StreamBox s)" by (auto simp: as_stream_def split: c_box.splits bind_splits)
    have h: "in_hand E a b as (clear_box q st)"
      by (rule in_hand_clear_other[OF assms(1) in_hand_other[OF assms(1) s]]) (simp_all add: as_client_def as_pool_def)
    have "in_hand E a b as (snd (on_stream E s (drop_stream fuel) (clear_box q st)))"
      by (rule in_hand_on_stream[OF h]) (use assms(2)[OF s] moves.does_stream(2) in \<open>auto simp: clear_box_def split: if_splits\<close>)
    with h Some in_hand_result show ?thesis
      by (auto simp: skaidb_stream_free_def from_raw_def whole_def sbind_def split: prod.splits sum.splits)
  qed
qed

section \<open>Checking out, giving back, freeing\<close>

lemma in_hand_state:
  assumes "in_hand E a b as st" and "balancers st b = Some sh" and "reachable b (f64 E) (sh_opts sh) (bs, cs)" and "map (boxes st) as = map (\<lambda>c. Some (ClientBox c)) cs"
    and "conf_self (sh_conf sh) = b" and "\<forall>c \<in> set cs. out_of c = Some True"
  shows "in_hand E a b as (set_pool_state b bs (st\<lparr>process := p\<rparr>))"
proof -
  have "balancers (set_pool_state b bs (st\<lparr>process := p\<rparr>)) b = Some (sh\<lparr>sh_state := bs\<rparr>)" using assms(2) by (simp add: set_pool_state_def)
  then show ?thesis using in_hand_basic[OF assms(1)] assms(3-6)
    by (intro in_handI[where sh = "sh\<lparr>sh_state := bs\<rparr>" and cs = cs]) (auto simp: set_pool_state_def simp del: map_eq_conv)
qed

lemma acquire_in_hand:
  assumes "in_hand E a b as st" and "boxed out (sbind (pool_acquire E a (Balanced b) key) (\<lambda>c. sret (ClientBox c))) st = (Inr (status, p), st')"
  shows "(p = None \<and> in_hand E a b as st') \<or> (\<exists>q. p = Some (Ref q []) \<and> in_hand E a b (as @ [q]) st')"
proof (cases out)
  case True
  then show ?thesis using assms by (auto simp: boxed_def fail_def sbind_def)
next
  case False
  obtain sh cs where sh: "balancers st b = Some sh" "conf_self (sh_conf sh) = b" "map (boxes st) as = map (\<lambda>c. Some (ClientBox c)) cs"
    "\<forall>c \<in> set cs. out_of c = Some True" "reachable b (f64 E) (sh_opts sh) (sh_state sh, cs)" using in_handE[OF assms(1)] .
  let ?E = "E\<lparr>opts := sh_opts sh\<rparr>"
  obtain r p1 bs where r: "checkout ?E (sh_conf sh) key (process st, sh_state sh) = (r, (p1, bs))" by (metis surj_pair)
  have s: "sound ?E b cs (Some True) r (p1, bs)"
    using checkout_sound[OF r[unfolded checkout_def], of cs] sh(2,5) by simp
  let ?st1 = "set_pool_state b bs (st\<lparr>process := p1\<rparr>)"
  have acq: "pool_acquire E a (Balanced b) key st = driver_result E r ?st1" using sh(1) r by (simp add: pool_acquire_def)
  show ?thesis
  proof (cases r)
    case (Inl x)
    then obtain e where e: "x = Err e" using assms(2) acq False
      by (cases x) (auto simp: boxed_def driver_result_def sbind_def)
    then have "reachable b (f64 E) (sh_opts sh) (bs, cs)" using s Inl by simp
    then have "in_hand E a b as ?st1" by (rule in_hand_state[OF assms(1) sh(1) _ sh(3,2,4)])
    then show ?thesis using assms(2) acq Inl e False
      by (auto simp: boxed_def driver_result_def sbind_def throw_def fail_driver_def fail_def)
  next
    case (Inr c)
    then have c: "reachable b (f64 E) (sh_opts sh) (bs, cs @ [c])" "out_of c = Some True" using s by simp_all
    have p: "p = Some (Ref (brk st) [])" and st': "st' = snd (alloc (ClientBox c) ?st1)"
      using assms(2) acq Inr False by (auto simp: boxed_def driver_result_def sbind_def alloc_def set_pool_state_def)
    have f: "brk st \<noteq> a" "brk st \<notin> set as" using in_hand_basic(3)[OF assms(1), of "brk st"] by auto
    have "balancers st' b = Some (sh\<lparr>sh_state := bs\<rparr>)" "map (boxes st') (as @ [brk st]) = map (\<lambda>c. Some (ClientBox c)) (cs @ [c])"
      using sh f by (auto simp: st' alloc_def set_pool_state_def)
    moreover have "boxes st' a = boxes st a" "brk st' = Suc (brk st)"
      using f by (auto simp: st' alloc_def set_pool_state_def)
    ultimately have "in_hand E a b (as @ [brk st]) st'"
      using c sh(2,4) f in_hand_basic[OF assms(1)]
      by (intro in_handI[where sh = "sh\<lparr>sh_state := bs\<rparr>" and cs = "cs @ [c]"]) (auto simp del: map_eq_conv simp: less_SucI)
    then show ?thesis using p by blast
  qed
qed

lemma in_hand_remove:
  assumes "in_hand E a b as st" and "i < length as" and "balancers st b = Some sh" and "map (boxes st) as = map (\<lambda>c. Some (ClientBox c)) cs"
    and "reachable b (f64 E) (sh_opts sh) (bs, remove_at i cs)" and "conf_self (sh_conf sh) = b" and "\<forall>c \<in> set cs. out_of c = Some True"
  shows "in_hand E a b (remove_at i as) (set_pool_state b bs (clear_box (as ! i) st))"
proof -
  note h = in_hand_basic[OF assms(1)]
  have sub: "set (remove_at i as) \<subseteq> set as - {as ! i}" and d: "distinct (remove_at i as)"
  proof -
    have "distinct (take i as @ as ! i # drop (Suc i) as)" using h(2) assms(2) by (simp flip: id_take_nth_drop)
    then show "set (remove_at i as) \<subseteq> set as - {as ! i}" "distinct (remove_at i as)"
      by (auto simp: remove_at_def dest: in_set_takeD in_set_dropD)
  qed
  have "map (boxes (set_pool_state b bs (clear_box (as ! i) st))) (remove_at i as) = map (boxes st) (remove_at i as)"
    using sub by (auto simp: set_pool_state_def clear_box_def)
  also have "\<dots> = remove_at i (map (boxes st) as)" by (simp add: remove_at_def take_map drop_map)
  also have "\<dots> = map (\<lambda>c. Some (ClientBox c)) (remove_at i cs)" by (simp add: assms(4) remove_at_def take_map drop_map)
  finally have m: "map (boxes (set_pool_state b bs (clear_box (as ! i) st))) (remove_at i as) = map (\<lambda>c. Some (ClientBox c)) (remove_at i cs)" .
  have "balancers (set_pool_state b bs (clear_box (as ! i) st)) b = Some (sh\<lparr>sh_state := bs\<rparr>)" using assms(3) by (simp add: set_pool_state_def clear_box_def)
  moreover have "a \<noteq> as ! i" using h(2) assms(2) by auto
  ultimately show ?thesis using m assms(5-7) sub d h set_remove_at[of i cs]
    by (intro in_handI[where sh = "sh\<lparr>sh_state := bs\<rparr>" and cs = "remove_at i cs"]) (auto simp: set_pool_state_def clear_box_def simp del: map_eq_conv)
qed

lemma release_in_hand:
  assumes "in_hand E a b as st" and "i < length as"
  shows "skaidb_pool_release (Ref a []) (Ref (as ! i) []) st = (Inr (), st') \<Longrightarrow> in_hand E a b (remove_at i as) st'"
    and "skaidb_client_free (Ref (as ! i) []) st = (Inr (), st') \<Longrightarrow> in_hand E a b (remove_at i as) st'"
    and "skaidb_pool_release Null (Ref (as ! i) []) st = (Inr (), st') \<Longrightarrow> in_hand E a b (remove_at i as) st'"
proof -
  obtain c where c: "boxes st (as ! i) = Some (ClientBox c)" using in_hand_client[OF assms] .
  obtain sh cs l where sh: "balancers st b = Some sh" "conf_self (sh_conf sh) = b" "map (boxes st) as = map (\<lambda>c. Some (ClientBox c)) cs"
    "reachable b (f64 E) (sh_opts sh) (sh_state sh, cs)" "i < length cs" "cs ! i = c" "link c = Some l" "link_pool l = b"
    "\<forall>c \<in> set cs. out_of c = Some True" using in_hand_linked[OF assms c] .
  note remove = in_hand_remove[OF assms sh(1,3) _ sh(2,9)]
  have a: "boxes st a = Some (PoolBox (Balanced b)) \<or> boxes st a = None" "a \<noteq> as ! i" using in_hand_basic[OF assms(1)] assms(2) by auto
  have "reachable b (f64 E) (sh_opts sh) (checkin b (sh_opts sh) c (sh_state sh), remove_at i cs)"
    using reachable.stepped[OF sh(4) pool_step.checkin[of i]] sh(5,6) by simp
  from remove[OF this] show "in_hand E a b (remove_at i as) st'" if "skaidb_pool_release (Ref a []) (Ref (as ! i) []) st = (Inr (), st')"
    using that c sh(1,7,8) a
    by (auto simp: skaidb_pool_release_def from_raw_def whole_def as_client_def as_pool_def sbind_def clear_box_def pool_release_def Let_def)
  have "reachable b (f64 E) (sh_opts sh) (drop_client c (sh_state sh), remove_at i cs)"
    using reachable.stepped[OF sh(4) pool_step.drop[of i]] sh(5,6) by simp
  note dropped = remove[OF this]
  show "in_hand E a b (remove_at i as) st'" if "skaidb_client_free (Ref (as ! i) []) st = (Inr (), st')"
    using dropped that c sh(1,7,8) a
    by (simp add: skaidb_client_free_def from_raw_def whole_def as_client_def sbind_def clear_box_def drop_linked_def shared_of_def)
  show "in_hand E a b (remove_at i as) st'" if "skaidb_pool_release Null (Ref (as ! i) []) st = (Inr (), st')"
    using dropped that c sh(1,7,8) a
    by (simp add: skaidb_pool_release_def from_raw_def whole_def as_client_def sbind_def clear_box_def drop_linked_def shared_of_def)
qed

lemma free_in_hand:
  assumes "in_hand E a b as st" and "skaidb_pool_free (Ref a []) st = (Inr (), st')"
  shows "in_hand E a b as st'"
proof -
  obtain sh cs where sh: "balancers st b = Some sh" "conf_self (sh_conf sh) = b" "map (boxes st) as = map (\<lambda>c. Some (ClientBox c)) cs"
    "\<forall>c \<in> set cs. out_of c = Some True" "reachable b (f64 E) (sh_opts sh) (sh_state sh, cs)" using in_handE[OF assms(1)] .
  note h = in_hand_basic[OF assms(1)]
  have st': "st' = set_pool_state b (close (sh_state sh)) (clear_box a st)"
    using assms(2) h(1) sh(1)
    by (auto simp: skaidb_pool_free_def from_raw_def whole_def as_pool_def sbind_def pool_close_def clear_box_def)
  have "reachable b (f64 E) (sh_opts sh) (close (sh_state sh), cs)" by (rule reachable.stepped[OF sh(5) pool_step.close])
  moreover have "map (boxes st') as = map (boxes st) as" using h(2) by (auto simp: st' set_pool_state_def clear_box_def)
  ultimately show ?thesis using h sh
    by (intro in_handI[where sh = "sh\<lparr>sh_state := close (sh_state sh)\<rparr>" and cs = cs])
      (auto simp: st' set_pool_state_def clear_box_def simp del: map_eq_conv)
qed

lemma pass_in_hand:
  assumes "in_hand E a b as st" and "balancers st b = Some sh" and "tick_pool (E\<lparr>opts := sh_opts sh\<rparr>) (sh_conf sh) (process st, sh_state sh) = (r, (p, bs))"
    and "clean r"
  shows "in_hand E a b as (set_pool_state b bs (st\<lparr>process := p\<rparr>))"
proof -
  obtain cs where sh: "conf_self (sh_conf sh) = b" "map (boxes st) as = map (\<lambda>c. Some (ClientBox c)) cs"
    "\<forall>c \<in> set cs. out_of c = Some True" "reachable b (f64 E) (sh_opts sh) (sh_state sh, cs)"
    using in_handE[OF assms(1)] assms(2) by (metis option.inject)
  have "reachable b (f64 E) (sh_opts sh) (bs, cs)" using tick_sound[OF _ assms(3,4), of cs] sh(1,4) by simp
  then show ?thesis by (rule in_hand_state[OF assms(1,2) _ sh(2,1,3)])
qed

section \<open>Programs\<close>

text \<open>A call on a connection in hand. A stream is read and freed while its connection, if it still has one, is in hand.\<close>

inductive hand_call :: "('w, 't, 's, 'h, 'f) env \<Rightarrow> nat list \<Rightarrow> ('w, 's, 'f) c_state \<Rightarrow> ('w, 's, 'f) c_state \<Rightarrow> bool"
  for E :: "('w, 't, 's, 'h, 'f) env" and as st where
  executed: "i < length as \<Longrightarrow> skaidb_execute E (Ref (as ! i) []) sql out st = (r, st') \<Longrightarrow> hand_call E as st st'"
| executed_with: "i < length as \<Longrightarrow> skaidb_execute_with E (Ref (as ! i) []) sql k out st = (r, st') \<Longrightarrow> hand_call E as st st'"
| pipelined: "i < length as \<Longrightarrow> skaidb_pipeline E (Ref (as ! i) []) stmts n out st = (r, st') \<Longrightarrow> hand_call E as st st'"
| prepared: "i < length as \<Longrightarrow> skaidb_prepare E (Ref (as ! i) []) sql out st = (r, st') \<Longrightarrow> hand_call E as st st'"
| executed_prepared: "i < length as \<Longrightarrow> skaidb_execute_prepared E (Ref (as ! i) []) stmt params n out st = (r, st') \<Longrightarrow> hand_call E as st st'"
| executed_prepared_with: "i < length as \<Longrightarrow> skaidb_execute_prepared_with E (Ref (as ! i) []) stmt params n k out st = (r, st')
    \<Longrightarrow> hand_call E as st st'"
| batched: "i < length as \<Longrightarrow> skaidb_execute_batch E (Ref (as ! i) []) stmt rows n_rows n no_affected st = (u, st') \<Longrightarrow> hand_call E as st st'"
| streamed: "i < length as \<Longrightarrow> skaidb_query_stream E (Ref (as ! i) []) sql out st = (r, st') \<Longrightarrow> hand_call E as st st'"
| streamed_with: "i < length as \<Longrightarrow> skaidb_query_stream_with E (Ref (as ! i) []) sql k out st = (r, st') \<Longrightarrow> hand_call E as st st'"
| streamed_params: "i < length as \<Longrightarrow> skaidb_query_stream_params E (Ref (as ! i) []) sql params n out st = (r, st') \<Longrightarrow> hand_call E as st st'"
| streamed_params_with: "i < length as \<Longrightarrow> skaidb_query_stream_params_with E (Ref (as ! i) []) sql params n k out st = (r, st') \<Longrightarrow> hand_call E as st st'"
| fetched: "(\<And>s c. boxes st q = Some (StreamBox s) \<Longrightarrow> boxes st (s_client s) = Some (ClientBox c) \<Longrightarrow> s_client s \<in> set as) \<Longrightarrow>
    skaidb_stream_next fuel E (Ref q []) no_row no_n st = (v, st') \<Longrightarrow> hand_call E as st st'"
| next_set: "(\<And>s c. boxes st q = Some (StreamBox s) \<Longrightarrow> boxes st (s_client s) = Some (ClientBox c) \<Longrightarrow> s_client s \<in> set as) \<Longrightarrow>
    skaidb_stream_next_set (Ref q []) st = (x, st') \<Longrightarrow> hand_call E as st st'"
| stream_freed: "(\<And>s c. boxes st q = Some (StreamBox s) \<Longrightarrow> boxes st (s_client s) = Some (ClientBox c) \<Longrightarrow> s_client s \<in> set as) \<Longrightarrow>
    skaidb_stream_free fuel E (Ref q []) st = (y, st') \<Longrightarrow> hand_call E as st st'"
| polled: "i < length as \<Longrightarrow> skaidb_stream_poll E (Ref (as ! i) []) sql after n no_events no_next st = (r', st') \<Longrightarrow> hand_call E as st st'"
| bound: "i < length as \<Longrightarrow> skaidb_client_use_database E (Ref (as ! i) []) sql st = (x, st') \<Longrightarrow> hand_call E as st st'"
| budgeted: "i < length as \<Longrightarrow> skaidb_client_set_scan_budget_rows E (Ref (as ! i) []) n_budget st = (x, st') \<Longrightarrow> hand_call E as st st'"
| redialled: "i < length as \<Longrightarrow> skaidb_client_reconnect E (Ref (as ! i) []) st = (x, st') \<Longrightarrow> hand_call E as st st'"
| configured: "i < length as \<Longrightarrow> skaidb_client_set_consistency (Ref (as ! i) []) k st = (y, st') \<Longrightarrow> hand_call E as st st'"
| extended: "i < length as \<Longrightarrow> skaidb_client_add_endpoints (Ref (as ! i) []) stmts n st = (x, st') \<Longrightarrow> hand_call E as st st'"

text \<open>A program over the pool at \<open>a\<close> with the balancer \<open>b\<close>: \<open>passed\<close> is a pass of the background thread, \<open>elsewhere\<close> whatever leaves the pool,
  its balancer and the connections in hand alone: values, results, other connections, other pools.\<close>

inductive pool_program :: "('w, 't, 's, 'h, 'f) env \<Rightarrow> nat \<Rightarrow> nat \<Rightarrow> nat list \<times> ('w, 's, 'f) c_state \<Rightarrow> nat list \<times> ('w, 's, 'f) c_state \<Rightarrow> bool"
  for E :: "('w, 't, 's, 'h, 'f) env" and a b where
  start: "pool_program E a b s s"
| acquired: "pool_program E a b s (as, st) \<Longrightarrow>
    skaidb_pool_acquire E (Ref a []) out st = (Inr (status, Some (Ref q [])), st')
      \<or> skaidb_pool_acquire_affinity E (Ref a []) key out st = (Inr (status, Some (Ref q [])), st') \<Longrightarrow>
    pool_program E a b s (as @ [q], st')"
| not_acquired: "pool_program E a b s (as, st) \<Longrightarrow>
    skaidb_pool_acquire E (Ref a []) out st = (Inr (status, None), st')
      \<or> skaidb_pool_acquire_affinity E (Ref a []) key out st = (Inr (status, None), st') \<Longrightarrow>
    pool_program E a b s (as, st')"
| used: "pool_program E a b s (as, st) \<Longrightarrow> hand_call E as st st' \<Longrightarrow> pool_program E a b s (as, st')"
| released: "pool_program E a b s (as, st) \<Longrightarrow> i < length as \<Longrightarrow> pool_ptr = Ref a [] \<or> pool_ptr = Null \<Longrightarrow>
    skaidb_pool_release pool_ptr (Ref (as ! i) []) st = (Inr (), st') \<Longrightarrow> pool_program E a b s (remove_at i as, st')"
| freed: "pool_program E a b s (as, st) \<Longrightarrow> i < length as \<Longrightarrow> skaidb_client_free (Ref (as ! i) []) st = (Inr (), st')
    \<Longrightarrow> pool_program E a b s (remove_at i as, st')"
| pool_freed: "pool_program E a b s (as, st) \<Longrightarrow> skaidb_pool_free (Ref a []) st = (Inr (), st') \<Longrightarrow> pool_program E a b s (as, st')"
| passed: "pool_program E a b s (as, st) \<Longrightarrow> balancers st b = Some sh \<Longrightarrow>
    tick_pool (E\<lparr>opts := sh_opts sh\<rparr>) (sh_conf sh) (process st, sh_state sh) = (go, (p, bs)) \<Longrightarrow> clean go \<Longrightarrow>
    pool_program E a b s (as, set_pool_state b bs (st\<lparr>process := p\<rparr>))"
| elsewhere: "pool_program E a b s (as, st) \<Longrightarrow> (\<And>q. q \<in> set (a # as) \<Longrightarrow> boxes st' q = boxes st q) \<Longrightarrow> balancers st' b = balancers st b \<Longrightarrow>
    brk st \<le> brk st' \<Longrightarrow> pool_program E a b s (as, st')"

lemma stays_result: "stays E a b as m \<Longrightarrow> m st = (r, st') \<Longrightarrow> in_hand E a b as st \<Longrightarrow> in_hand E a b as st'"
  unfolding stays_def by (metis snd_conv)

lemma hand_call_in_hand: "hand_call E as st st' \<Longrightarrow> in_hand E a b as st \<Longrightarrow> in_hand E a b as st'"
proof (induction rule: hand_call.induct)
  case (fetched q fuel no_row no_n v st')
  then show ?case using stream_in_hand(1)[of E a b as st q fuel no_row no_n] by (metis snd_conv)
next
  case (next_set q x st')
  then show ?case using stream_in_hand(2)[of E a b as st q] by (metis snd_conv)
next
  case (stream_freed q fuel y st')
  then show ?case using stream_in_hand(3)[of E a b as st q fuel] by (metis snd_conv)
qed (auto intro: stays_calls[THEN stays_result] stays_prepared[THEN stays_result] stays_open_stream[THEN stays_result])

lemma acquired_in_hand:
  assumes "in_hand E a b as st"
    and "skaidb_pool_acquire E (Ref a []) out st = (Inr (status, p), st') \<or> skaidb_pool_acquire_affinity E (Ref a []) key out st = (Inr (status, p), st')"
  shows "(p = None \<and> in_hand E a b as st') \<or> (\<exists>q. p = Some (Ref q []) \<and> in_hand E a b (as @ [q]) st')"
proof (cases out)
  case True
  then show ?thesis
    using assms by (auto simp: skaidb_pool_acquire_def skaidb_pool_acquire_affinity_def boxed_def fail_def sbind_def)
next
  case False
  have pb: "boxes st a = Some (PoolBox (Balanced b))"
    using assms(2) in_hand_basic(1)[OF assms(1)] False
    by (auto simp: skaidb_pool_acquire_def skaidb_pool_acquire_affinity_def boxed_def pool_mut_def whole_def sbind_def undefined_behaviour_def)
  obtain kr st1 where kr: "cstr_opt key ''affinity'' st = (kr, st1)" by fastforce
  have cases: "(\<exists>k. kr = Inr k \<and> st1 = st) \<or> (\<exists>e. kr = Inl e \<and> (st1 = st \<or> (\<exists>msg. st1 = set_error msg st)))"
    using argument_strings(2)[of key "''affinity''"] kr unfolding argument_def by (metis Pair_inject)
  from assms(2) show ?thesis
  proof
    assume "skaidb_pool_acquire E (Ref a []) out st = (Inr (status, p), st')"
    then have "boxed out (sbind (pool_acquire E a (Balanced b) None) (\<lambda>c. sret (ClientBox c))) st = (Inr (status, p), st')"
      using pb by (auto simp: skaidb_pool_acquire_def boxed_def pool_mut_def whole_def as_pool_def sbind_def)
    then show ?thesis by (rule acquire_in_hand[OF assms(1)])
  next
    assume m: "skaidb_pool_acquire_affinity E (Ref a []) key out st = (Inr (status, p), st')"
    show ?thesis
    proof (cases kr)
      case (Inr k)
      then have "boxed out (sbind (pool_acquire E a (Balanced b) k) (\<lambda>c. sret (ClientBox c))) st = (Inr (status, p), st')"
        using m pb kr cases by (auto simp: skaidb_pool_acquire_affinity_def boxed_def pool_mut_def whole_def as_pool_def sbind_def)
      then show ?thesis by (rule acquire_in_hand[OF assms(1)])
    next
      case (Inl e)
      then show ?thesis using assms(1) m pb kr cases
        by (cases e) (auto simp: skaidb_pool_acquire_affinity_def boxed_def pool_mut_def whole_def as_pool_def sbind_def fail_def split: if_splits)
    qed
  qed
qed

lemma pool_program_in_hand:
  assumes "pool_program E a b s s'" and "in_hand E a b (fst s) (snd s)"
  shows "in_hand E a b (fst s') (snd s')"
  using assms
proof (induction rule: pool_program.induct)
  case (acquired s as st out status q st' key)
  then show ?case using acquired_in_hand[OF _ acquired.hyps(2)] by auto
next
  case (not_acquired s as st out status st' key)
  then show ?case using acquired_in_hand[OF _ not_acquired.hyps(2)] by auto
next
  case (released s as st i pool_ptr st')
  then show ?case using release_in_hand(1,3)[of E a b as st i] by auto
next
  case (elsewhere s as st st')
  then show ?case using in_hand_frame[of E a b as st st'] by simp
qed (auto intro: release_in_hand hand_call_in_hand free_in_hand pass_in_hand)

lemma sbind_returns: "sbind m f st = (Inr y, st') \<longleftrightarrow> (\<exists>x st1. m st = (Inr x, st1) \<and> f x st1 = (Inr y, st'))"
  by (auto simp: sbind_def split: prod.splits sum.splits)

lemma throw_not_Inr: "throw (fail s msg) st \<noteq> (Inr x, st')"
  by (simp add: throw_def fail_def sbind_def)

lemma build_pool_made:
  assumes "build_pool E seed0 bd st = (Inr box, st')"
  shows "\<exists>sh. box = PoolBox (Balanced (brk st)) \<and> brk st' = Suc (brk st) \<and> balancers st' (brk st) = Some sh \<and> conf_self (sh_conf sh) = brk st
    \<and> reachable (brk st) (f64 E) (sh_opts sh) (sh_state sh, [])"
  using assms unfolding build_pool_def
  by (auto simp: Let_def throw_not_Inr throw_def fail_driver_def fail_def sbind_def intro: reachable.built
      split: prod.splits sum.splits driver_error.splits io_error.splits)

lemma pool_new_in_hand:
  assumes "skaidb_pool_new_balanced E tls_new seed0 three eps n u pw tls db o1 out st0 = (Inr (status, Some (Ref a [])), st)"
  shows "\<exists>b. boxes st a = Some (PoolBox (Balanced b)) \<and> in_hand E a b [] st"
proof -
  obtain bd st1 box st2 where made: "build_pool E seed0 bd st1 = (Inr box, st2)" and st: "alloc box st2 = (a, st)"
    using assms unfolding skaidb_pool_new_balanced_def boxed_def
    by (auto simp: sbind_returns throw_not_Inr Let_def fail_def split: if_splits prod.splits sum.splits fault.splits)
  obtain sh where sh: "box = PoolBox (Balanced (brk st1))" "balancers st2 (brk st1) = Some sh" "conf_self (sh_conf sh) = brk st1"
    "reachable (brk st1) (f64 E) (sh_opts sh) (sh_state sh, [])" using build_pool_made[OF made] by blast
  have "in_hand E a (brk st1) [] st" using sh st
    by (intro in_handI[where sh = sh and cs = "[]"]) (auto simp: alloc_def)
  moreover have "boxes st a = Some (PoolBox (Balanced (brk st1)))" using sh(1) st by (auto simp: alloc_def)
  ultimately show ?thesis by blast
qed

section \<open>A login for the examples\<close>

text \<open>Every endpoint accepts the password and answers the client's first request.\<close>

definition login_env :: "(unit, bytes \<times> bytes, bytes \<times> bytes, unit, nat) env" where
  "login_env = (sample_env [])\<lparr>net := (net (sample_env []))\<lparr>
     tcp_connect := \<lambda>_ w. (Inr ([], sample_transcript @ frame_bytes (response_encode Ddl)), w), process_id := 7\<rparr>\<rparr>"

definition login_u :: login where
  "login_u = \<lparr>login_username = [0x75], login_password = [0x70], gssapi_spn = None, cert_auth = False, login_tls = None\<rparr>"

lemma send_hello_stream:
  assumes "send_hello E d = (r, d')"
  shows "\<exists>s. d' = set_stream s d"
proof -
  have s: "\<exists>s. snd (send E x d) = set_stream s d" "\<exists>s. snd (recv E d) = set_stream s d" for x d
    by (auto simp: send_def recv_def split: sum.split)
  have "set_stream s1 (set_stream s2 d) = set_stream s1 d" for s1 s2 by (simp add: set_stream_def)
  then show ?thesis using assms s(1)[of "client_encode (hello E)" d] s(2)
    by (auto simp: send_hello_def attempt_def forget_def sbind_def slift_def split: prod.splits sum.splits) (metis snd_conv)+
qed

lemma login_dial: "\<exists>s p. dial (net login_env) ep login_u sample_process = (Inr s, p) \<and> snd s = frame_bytes (response_encode Ddl)"
proof -
  let ?cf = "auth_challenge_encode sample_challenge" and ?o = "auth_outcome_encode (AuthOk sample_signature)" and ?r = "frame_bytes (response_encode Ddl)"
  have "\<exists>s' p'. handshake mem_stream 7 [0x75] [0x70] ([], sample_transcript @ ?r) sample_process = (outcome ?o (\<lambda>sig.
      if [0x70::8 word] \<noteq> [] \<and> server_signature [0x70] (salt sample_challenge) (iterations sample_challenge) (scram_message 7 (scram_nonce sample_process) [0x75] sample_challenge) \<noteq> sig
      then Inl (Err (Auth (of_str ''server signature mismatch''))) else Inr s'), p')
    \<and> snd s' = ?r \<and> fst s' = fst ([], sample_transcript @ ?r) @ frame_bytes (scram_start 7 (scram_nonce sample_process) [0x75])
      @ frame_bytes (scram_finish 7 (scram_nonce sample_process) [0x75] [0x70] sample_challenge)
    \<and> cache_ok (salted p') \<and> scram_nonce p' = scram_nonce sample_process + 1 \<and> world p' = world sample_process"
    by (rule handshake_run[OF mem_stream_duplex])
      (use sample_frames outcome_signature[OF sample_signature_length] in \<open>simp_all add: sample_process_def sample_challenge_def[symmetric]
        sample_transcript_def cache_state_ok[OF cache_state.empty]\<close>)
  moreover have out: "outcome ?o f = f sample_signature" for f :: "bytes \<Rightarrow> (driver_error, bytes \<times> bytes) res"
    using outcome_signature(1)[OF sample_signature_length] by (simp add: outcome_def)
  moreover have sig: "server_signature [0x70] (salt sample_challenge) (iterations sample_challenge) (scram_message 7 (scram_nonce sample_process) [0x75] sample_challenge)
      = sample_signature" by (simp add: sample_signature_def sample_challenge_def sample_process_def)
  ultimately obtain s' p' where "handshake mem_stream 7 [0x75] [0x70] ([], sample_transcript @ ?r) sample_process = (Inr s', p')" "snd s' = ?r"
    unfolding out sig by fastforce
  then show ?thesis by (simp add: dial_def login_u_def login_env_def sample_env_def sample_process_def)
qed

lemma login_checkout:
  assumes "members st = seed_members [[0x68]]" and "idle st = []" and "\<not> closed st" and "read_your_writes o0 = 0" and "load_balancing o0 = LbRandom" and "\<not> discover o0"
  shows "\<exists>c p st'. checkout (login_env\<lparr>opts := o0\<rparr>) \<lparr>conf_self = b, conf_login = login_u, conf_database = None, conf_consistency = q\<rparr> None (sample_process, st) = (Inr c, (p, st'))
    \<and> counted [0x68] c \<and> bt_get (members st') [0x68] \<noteq> None"
proof -
  let ?E = "login_env\<lparr>opts := o0\<rparr>" and ?P = "\<lparr>conf_self = b, conf_login = login_u, conf_database = None, conf_consistency = q\<rparr>"
  let ?l = "(link_new b)\<lparr>link_member := [0x68]\<rparr>"
  obtain s p where d: "dial (net ?E) [0x68] login_u sample_process = (Inr s, p)" "snd s = frame_bytes (response_encode Ddl)"
    using login_dial[of "[0x68]"] by (auto simp: login_env_def)
  let ?d = "\<lparr>me = new_client [[0x68]] login_u (Some (link_new b)) [0x68] s, proc = p, pool = st\<rparr>"
  have len: "sendable [hello ?E]" by (simp add: sendable_def hello_def client_encode_simps MAX_FRAME_LEN_def login_env_def sample_env_def of_str_def)
  have dup: "duplex (io (net ?E)) fst snd" by (simp add: login_env_def sample_env_def mem_stream_duplex)
  from send_hello_ok[OF dup len sample_ddl(3), of ?d "[]"] d(2) obtain d1 where h: "send_hello ?E ?d = (Inr (), d1)" by (auto simp: new_client_def)
  from send_hello_stream[OF h] obtain s1 where d1: "d1 = set_stream s1 ?d" ..
  let ?c = "(me d1)\<lparr>default_consistency := q\<rparr>"
  have c: "link ?c = Some ?l" "pool d1 = st" using d1 by (simp_all add: set_stream_def new_client_def)
  have "decide ?E sample_sys None st = (Some (None, [], [[0x68]]), st)"
    using assms by (simp add: decide_def pick_def pick_affinity_def take_idle_def order_def shuffle_def seed_members_def member_new_def usable_def)
  moreover have "dial_pool ?E ?P [[0x68]] True (sample_process, st) = (Inr ?c, (proc d1, st))"
    using d(1) h c(2) by (simp add: dial_pool_def open_client_def)
  moreover have "discover_client ?E ?c (proc d1, st) = (Inr ?c, (proc d1, st))"
    using assms(6) by (simp add: discover_client_def pool_clock_def locked_def discover_through_def login_env_def sample_env_def)
  ultimately have "checkout_once ?E ?P None (sample_process, st) = (Inr (Some ?c), (proc d1, st))"
    using c(1) by (simp add: checkout_once_def pool_clock_def locked_def login_env_def sample_env_def sample_process_def link_broken_def link_new_def)
  moreover obtain c' st' where out: "check_out None (?c, st) = (c', st')" by fastforce
  ultimately have "checkout ?E ?P None (sample_process, st) = (Inr c', (proc d1, st'))"
    by (simp add: checkout_def CHECKOUT_ATTEMPTS_def numeral_3_eq_3 locked_def)
  moreover have "counted [0x68] c'" "bt_get (members st') [0x68] \<noteq> None"
    using out c(1) assms(1) by (auto simp: check_out_def counted_def seed_members_def member_new_def)
  ultimately show ?thesis by blast
qed

section \<open>Properties\<close>

text \<open>C7: Whatever a C program does with a balanced pool it made, checking connections out, running statements, prepared statements,
  batches and streams on them in any order, releasing and freeing them and the pool, with the passes of the pool's background
  thread and anything that does not concern the pool in between: the connections in its hands are pairwise different objects of
  this pool, each checked out; each member counts at most the connections in the program's hands that are out at that member, and
  exactly those where discovery is off, as it is by default; and the pool keeps at most the maximum of idle connections, none once it
  is closed, none of them broken or still counted as out.\<close>

theorem c_pool_program_sound:
  assumes "skaidb_pool_new_balanced E tls_new seed0 three eps n u pw tls db o1 out st0 = (Inr (status, Some (Ref a [])), st)"
    and "boxes st a = Some (PoolBox (Balanced b))" and "pool_program E a b ([], st) (as, st')"
  shows "\<exists>sh cs. balancers st' b = Some sh \<and> distinct as \<and> map (boxes st') as = map (\<lambda>c. Some (ClientBox c)) cs
    \<and> (\<forall>c \<in> set cs. \<exists>l. link c = Some l \<and> link_pool l = b \<and> link_out l)
    \<and> (\<forall>ep m. bt_get (members (sh_state sh)) ep = Some m \<longrightarrow> in_use m \<le> length (filter (counted ep) cs))
    \<and> (\<not> discover (sh_opts sh) \<longrightarrow> (\<forall>ep m. bt_get (members (sh_state sh)) ep = Some m \<longrightarrow> in_use m = length (filter (counted ep) cs)))
    \<and> length (idle (sh_state sh)) \<le> maxsize (sh_opts sh) \<and> (closed (sh_state sh) \<longrightarrow> idle (sh_state sh) = [])
    \<and> (\<forall>c \<in> set (idle (sh_state sh)). idle_ok b c)"
proof -
  have "in_hand E a b [] st" using pool_new_in_hand[OF assms(1)] assms(2) by auto
  then have h: "in_hand E a b as st'" using pool_program_in_hand[OF assms(3)] by simp
  obtain sh cs where sh: "balancers st' b = Some sh" "conf_self (sh_conf sh) = b" "map (boxes st') as = map (\<lambda>c. Some (ClientBox c)) cs"
    "\<forall>c \<in> set cs. out_of c = Some True" "reachable b (f64 E) (sh_opts sh) (sh_state sh, cs)" using in_handE[OF h] .
  note inv = reachable_inv[OF sh(5)]
  have "\<exists>l. link c = Some l \<and> link_pool l = b \<and> link_out l" if "c \<in> set cs" for c
    using inv that sh(4) by (fastforce simp: pool_inv_def held_ok_def out_of_def split: option.splits)
  moreover have "distinct as" using in_hand_basic(2)[OF h] by simp
  moreover have "in_use m = length (filter (counted ep) cs)" if "\<not> discover (sh_opts sh)" "bt_get (members (sh_state sh)) ep = Some m" for ep m
    using fixed_members_exact[OF sh(5) that(1), of ep] that(2) by (simp add: counts_exactly_def)
  ultimately show ?thesis using sh(1,3) inv
    by (intro exI[of _ sh] exI[of _ cs]) (auto simp: pool_inv_def idle_inv_def members_inv_def out_count_def simp del: map_eq_conv)
qed

theorem c_pool_program_sound_witness:
  "\<exists>a b q st st' sh c. skaidb_pool_new_balanced login_env (\<lambda>_ _ w. (Inl (Server []), w)) (\<lambda>w. (4, w)) 3 (Some [Some [0x68]]) 1 (Some [0x75]) (Some [0x70]) None None None False
      sample_memory = (Inr (SKAIDB_OK, Some (Ref a [])), st)
    \<and> pool_program login_env a b ([], st) ([q], st') \<and> boxes st' q = Some (ClientBox c) \<and> balancers st' b = Some sh
    \<and> counted [0x68] c \<and> map_option in_use (bt_get (members (sh_state sh)) [0x68]) = Some 1"
proof -
  let ?new = "skaidb_pool_new_balanced login_env (\<lambda>_ _ w. (Inl (Server []), w)) (\<lambda>w. (4, w)) 3 (Some [Some [0x68]]) 1 (Some [0x75]) (Some [0x70]) None None None False sample_memory"
  let ?b = "balanced_builder 3 [[0x68]] [0x75] [0x70] None None LbRandom Lifo (pool_options_default 3) :: nat pool_builder"
  let ?o0 = "b_options ?b"
  have o0: "read_your_writes ?o0 = 0" "load_balancing ?o0 = LbRandom" "\<not> discover ?o0"
    by (simp_all add: balanced_builder_facts pool_options_default_def millis_def from_millis_def)
  obtain bs :: "(bytes \<times> bytes, nat) balancer_state" where bs: "build (f64 login_env) sample_sys 4 ?b = Inr bs"
    "members bs = seed_members [[0x68]]" "idle bs = []" "\<not> closed bs"
  proof -
    have "dedup [[0x68]] = [[0x68 :: 8 word]]" by (simp add: dedup_def dedup_step_def)
    then show thesis using that
      by (force simp: build_def balanced_builder_facts pool_options_default_def login_env_def sample_env_def sample_f64_def Let_def)
  qed
  let ?k = "brk sample_memory" and ?sh = "\<lparr>sh_conf = conf_of (brk sample_memory) ?b, sh_opts = ?o0, sh_state = bs\<rparr>"
  let ?st1 = "sample_memory\<lparr>brk := Suc ?k, balancers := (balancers sample_memory)(?k \<mapsto> ?sh)\<rparr>"
  have made: "build_pool login_env (\<lambda>w. (4, w)) ?b sample_memory = (Inr (PoolBox (Balanced ?k)), ?st1)"
    using bs(1) by (simp add: build_pool_def Let_def login_env_def sample_env_def sample_memory_def sample_process_def)
  let ?a = "Suc ?k" and ?st = "?st1\<lparr>boxes := (boxes sample_memory)(Suc ?k \<mapsto> PoolBox (Balanced ?k)), brk := Suc (Suc ?k)\<rparr>"
  have new: "?new = (Inr (SKAIDB_OK, Some (Ref ?a [])), ?st)"
    using made by (simp add: skaidb_pool_new_balanced_def boxed_def sbind_def cstr_list_def cstr_def tls_config_of_def cstr_opt_def Let_def policy_of_def
        idle_order_of_def pool_options_default_def alloc_def)
  have conf: "conf_of ?k ?b = \<lparr>conf_self = ?k, conf_login = login_u, conf_database = None, conf_consistency = b_consistency ?b\<rparr>"
    by (simp add: conf_of_def login_u_def balanced_builder_def Let_def builder_def credentials_def set_tls_def set_database_def set_maxsize_def set_load_balancing_def
      set_idle_order_def set_discover_def set_refresh_interval_def set_read_your_writes_def set_eject_errors_def set_eject_latency_factor_def
      set_eject_latency_floor_def set_eject_backoff_def set_eject_backoff_max_def)
  obtain c p bs' where co: "checkout (login_env\<lparr>opts := ?o0\<rparr>) (conf_of ?k ?b) None (sample_process, bs) = (Inr c, (p, bs'))"
    and c: "counted [0x68] c" "bt_get (members bs') [0x68] \<noteq> None"
    using login_checkout[OF bs(2-4) o0, of ?k "b_consistency ?b"] unfolding conf by blast
  let ?st2 = "set_pool_state ?k bs' (?st\<lparr>process := p\<rparr>)"
  let ?q = "brk ?st2" and ?st' = "?st2\<lparr>boxes := (boxes ?st2)(brk ?st2 \<mapsto> ClientBox c), brk := Suc (brk ?st2)\<rparr>"
  have acq: "skaidb_pool_acquire login_env (Ref ?a []) False ?st = (Inr (SKAIDB_OK, Some (Ref ?q [])), ?st')"
    using co by (simp add: skaidb_pool_acquire_def boxed_def pool_mut_def whole_def as_pool_def sbind_def pool_acquire_def driver_result_def alloc_def sample_memory_def)
  have q: "boxes ?st' ?q = Some (ClientBox c)" "balancers ?st' ?k = Some (?sh\<lparr>sh_state := bs'\<rparr>)"
    by (simp_all add: set_pool_state_def)
  obtain q st' where run: "skaidb_pool_acquire login_env (Ref ?a []) False ?st = (Inr (SKAIDB_OK, Some (Ref q [])), st')"
    "boxes st' q = Some (ClientBox c)" "balancers st' ?k = Some (?sh\<lparr>sh_state := bs'\<rparr>)" using acq q by blast
  have b: "boxes ?st ?a = Some (PoolBox (Balanced ?k))" by simp
  obtain st where st: "?new = (Inr (SKAIDB_OK, Some (Ref ?a [])), st)" "boxes st ?a = Some (PoolBox (Balanced ?k))"
    "skaidb_pool_acquire login_env (Ref ?a []) False st = (Inr (SKAIDB_OK, Some (Ref q [])), st')" using new b run(1) by blast
  have pp: "pool_program login_env ?a ?k ([], st) ([q], st')"
    using pool_program.acquired[OF pool_program.start[of login_env ?a ?k "([], st)"] disjI1[OF st(3)]] by simp
  have "map_option in_use (bt_get (members bs') [0x68]) = Some 1"
    using c_pool_program_sound[OF st(1,2) pp] run(2,3) c o0(3) by auto
  then show ?thesis using st(1) pp run(2,3) c(1) by (intro exI[of _ ?a] exI[of _ ?k] exI[of _ q] exI[of _ st] exI[of _ st']) simp
qed

end
