(* ===== verification/C_Streaming.thy ===== *)
theory C_Streaming
  imports C_Session
begin

text \<open>
  A streamed query across the C interface, from the C string to the cells: opening the stream, the loop of a C program over
  \<^verbatim>\<open>skaidb_stream_next\<close>, and freeing the stream, over the driver's stream and a live connection.
\<close>

section \<open>A C program that reads a stream\<close>

text \<open>The program reads the cells of a row through the pointers it was given, right after the call; a pointer
  that is not valid is undefined behaviour.\<close>

definition read_cells :: "(ptr list \<times> nat) option \<Rightarrow> ('w, 's, 'f, row) c_op" where
  "read_cells out st = (case out of
     None \<Rightarrow> (Inr [], st)
   | Some (ps, n) \<Rightarrow> (case those (map (\<lambda>i. if i < length ps then deref_val (ps ! i) st else None) [0..<n]) of
       Some row \<Rightarrow> (Inr row, st)
     | None \<Rightarrow> (Inl undefined_behaviour, st)))"

primrec c_fetch :: "nat \<Rightarrow> nat \<Rightarrow> ('w, 't, 's, 'h, 'f) env \<Rightarrow> ptr \<Rightarrow> ('w, 's, 'f, (skaidb_status \<times> row) list) c_op" where
  "c_fetch 0 fuel E p = sret []"
| "c_fetch (Suc k) fuel E p =
    sbind (skaidb_stream_next fuel E p False False) (\<lambda>(status, out). sbind (read_cells out) (\<lambda>row.
    sbind (c_fetch k fuel E p) (\<lambda>rest. sret ((status, row) # rest))))"

section \<open>Streams in the heap\<close>

lemma streams_me: "me d = me d' \<Longrightarrow> streams pending rest fs rows (rs, d) \<Longrightarrow> streams pending rest fs rows (rs, d')"
  by (auto simp: streams_def)

definition unpooled :: "'s client \<Rightarrow> ('w, 's, 'f) c_state \<Rightarrow> ('w, 's, 'f) driver" where
  "unpooled c st = \<lparr>me = c, proc = process st, pool = no_pool\<rparr>"

lemma me_unpooled [simp]: "me (unpooled c st) = c"
  by (simp add: unpooled_def)

text \<open>The stream at \<open>b\<close> over the client at \<open>a\<close> is to yield \<open>rows\<close> and to end at \<open>rest\<close>, within \<open>n\<close> frames.\<close>

definition c_streams :: "('s \<Rightarrow> bytes) \<Rightarrow> bytes \<Rightarrow> nat \<Rightarrow> row list \<Rightarrow> nat \<Rightarrow> nat \<Rightarrow> ('w, 's, 'f) c_state \<Rightarrow> bool" where
  "c_streams pending rest n rows b a st \<longleftrightarrow> (\<exists>s c fs. boxes st b = Some (StreamBox s) \<and> s_client s = a \<and> boxes st a = Some (ClientBox c)
     \<and> length fs < n \<and> streams pending rest fs rows (s_stream s, unpooled c st))"

lemma c_streamsI:
  assumes "boxes st b = Some (StreamBox s)" and "s_client s = a" and "boxes st a = Some (ClientBox (me d))" and "length fs < n"
    and "streams pending rest fs rows (s_stream s, d)"
  shows "c_streams pending rest n rows b a st"
  unfolding c_streams_def using assms streams_me[OF _ assms(5), of "unpooled (me d) st"] by auto

lemma put_back_at: "boxes (put_back a c d st) = (boxes st)(a \<mapsto> ClientBox (me d))"
  by (auto simp: put_back_def put_box_def set_pool_state_def Let_def split: option.split prod.split)

lemma on_stream_run:
  assumes "boxes st (s_client s) = Some (ClientBox c)" and "pool_view E c st = (E', pl)"
    and "m E' (s_stream s, \<lparr>me = c, proc = process st, pool = pl\<rparr>) = (r, (rs, d))"
  shows "on_stream E s m st = (Inr (r, rs), put_back (s_client s) c d st)"
  using assms by (simp add: on_stream_def whole_def as_client_def sbind_def)

lemma stream_step_yields:
  fixes E :: "('w, 't, 's, 'h, 'f) env"
  assumes d: "duplex (io (net E)) sent pending" and s: "boxes st b = Some (StreamBox s)" "boxes st (s_client s) = Some (ClientBox c)"
    and fs: "length fs < n" "streams pending rest fs rows (s_stream s, unpooled c st)"
  shows "\<exists>rs st' (d' :: ('w, 's, 'f) driver) fs'. stream_step n E s st = (Inr (Inr (case rows of [] \<Rightarrow> None | r # _ \<Rightarrow> Some r), rs), st')
    \<and> boxes st' = (boxes st)(s_client s \<mapsto> ClientBox (me d')) \<and> length fs' < n \<and> streams pending rest fs' (tl rows) (rs, d')"
proof (cases "borrows s")
  case True
  obtain E' pl where v: "pool_view E c st = (E', pl)" by fastforce
  have d': "duplex (io (net E')) sent pending" using d pool_view_net[OF v] by simp
  have st: "streams pending rest fs rows (s_stream s, \<lparr>me = c, proc = process st, pool = pl\<rparr>)" by (rule streams_me[OF _ fs(2)]) simp
  from next_row_streams[OF d' st fs(1)] obtain fs' rs d1 where
    n: "next_row n E' (s_stream s, \<lparr>me = c, proc = process st, pool = pl\<rparr>) = (Inr (case rows of [] \<Rightarrow> None | r # _ \<Rightarrow> Some r), (rs, d1))"
    "length fs' \<le> length fs" "streams pending rest fs' (tl rows) (rs, d1)" by (metis surj_pair)
  show ?thesis using True on_stream_run[where m = "next_row n", OF s(2) v n(1)] n(2,3) fs(1) put_back_at
    by (intro exI[of _ rs] exI[of _ "put_back (s_client s) c d1 st"] exI[of _ d1] exI[of _ fs']) (auto simp: stream_step_def)
next
  case False
  show ?thesis
  proof (cases "rs_chunk (s_stream s)")
    case Nil
    with False fs(2) have "rows = []" by (auto simp: borrows_def streams_def)
    with False Nil fs s(2) show ?thesis
      by (intro exI[of _ "s_stream s"] exI[of _ st] exI[of _ "unpooled c st"] exI[of _ fs])
        (auto simp: stream_step_def)
  next
    case (Cons r rs)
    with fs(2) have "\<exists>qs. rows = r # qs" by (auto simp: streams_def split: if_splits)
    then obtain qs where q: "rows = r # qs" by blast
    have "streams pending rest fs qs ((s_stream s)\<lparr>rs_chunk := rs\<rparr>, unpooled c st)"
      using fs(2) Cons q by (auto simp: streams_def split: if_splits)
    with False Cons fs(1) s(2) q show ?thesis
      by (intro exI[of _ "(s_stream s)\<lparr>rs_chunk := rs\<rparr>"] exI[of _ st] exI[of _ "unpooled c st"] exI[of _ fs])
        (auto simp: stream_step_def)
  qed
qed

lemma those_Some: "those (map Some xs) = Some xs"
  by (induction xs) simp_all

text \<open>One round of the program's loop.\<close>

lemma c_next_yields:
  fixes E :: "('w, 't, 's, 'h, 'f) env"
  assumes d: "duplex (io (net E)) sent pending" and "c_streams pending rest n rows b a st"
  shows "\<exists>out st'. skaidb_stream_next n E (Ref b []) False False st = (Inr (case rows of [] \<Rightarrow> SKAIDB_END | _ \<Rightarrow> SKAIDB_OK, out), st')
    \<and> read_cells out st' = (Inr (case rows of [] \<Rightarrow> [] | r # _ \<Rightarrow> r), st') \<and> c_streams pending rest n (tl rows) b a st'"
proof -
  from assms(2) obtain s c fs where s: "boxes st b = Some (StreamBox s)" "s_client s = a" "boxes st (s_client s) = Some (ClientBox c)"
    "length fs < n" "streams pending rest fs rows (s_stream s, unpooled c st)"
    by (auto simp: c_streams_def)
  from stream_step_yields[OF d s(1,3-5)] obtain rs st1 fs1 and d1 :: "('w, 's, 'f) driver" where
    n: "stream_step n E s st = (Inr (Inr (case rows of [] \<Rightarrow> None | r # _ \<Rightarrow> Some r), rs), st1)"
    "boxes st1 = (boxes st)(a \<mapsto> ClientBox (me d1))" "length fs1 < n" "streams pending rest fs1 (tl rows) (rs, d1)"
    using s(2) by blast
  have run: "skaidb_stream_next n E (Ref b []) False False st
      = stream_outcome E b (s\<lparr>s_stream := rs\<rparr>) (Inr (case rows of [] \<Rightarrow> None | r # _ \<Rightarrow> Some r)) st1"
    using s(1) n(1) by (simp add: skaidb_stream_next_def whole_def as_stream_def sbind_def)
  have ne: "a \<noteq> b" using s by auto
  show ?thesis
  proof (cases rows)
    case Nil
    then show ?thesis unfolding run using n ne s(2)
      by (intro exI[of _ "Some ([], 0)"] exI[of _ "put_box b (StreamBox (s\<lparr>s_stream := rs\<rparr>)) st1"])
        (auto simp: stream_outcome_def read_cells_def put_box_def intro!: c_streamsI[where d = d1 and fs = fs1])
  next
    case (Cons r qs)
    let ?s = "s\<lparr>s_stream := rs, s_current := r, s_turn := Suc (s_turn s)\<rparr>"
    let ?out = "Some (map (\<lambda>i. Ref b [AtRow (Suc (s_turn s)) i]) [0..<length r], length r)"
    let ?st = "put_box b (StreamBox ?s) st1"
    have "map (\<lambda>i. if i < length r then deref_val (map (\<lambda>i. Ref b [AtRow (Suc (s_turn s)) i]) [0..<length r] ! i) ?st else None) [0..<length r]
        = map Some r"
      by (rule nth_equalityI) (auto simp: deref_val_def put_box_def box_val_def)
    then have "read_cells ?out ?st = (Inr r, ?st)" by (simp add: read_cells_def those_Some)
    with Cons show ?thesis unfolding run using n ne s(2)
      by (intro exI[of _ ?out] exI[of _ ?st]) (auto simp: stream_outcome_def Let_def put_box_def intro!: c_streamsI[where d = d1 and fs = fs1])
  qed
qed

definition c_yields :: "row list \<Rightarrow> nat \<Rightarrow> (skaidb_status \<times> row) list" where
  "c_yields rows k = map (\<lambda>r. (SKAIDB_OK, r)) (take k rows) @ replicate (k - length rows) (SKAIDB_END, [])"

lemma c_yields_Suc:
  "c_yields rows (Suc k) = (case rows of [] \<Rightarrow> SKAIDB_END | _ \<Rightarrow> SKAIDB_OK, case rows of [] \<Rightarrow> [] | r # _ \<Rightarrow> r) # c_yields (tl rows) k"
  by (cases rows) (auto simp: c_yields_def replicate_append_same)

lemma c_fetch_yields:
  fixes E :: "('w, 't, 's, 'h, 'f) env"
  assumes d: "duplex (io (net E)) sent pending"
  shows "c_streams pending rest n rows b a st \<Longrightarrow>
    \<exists>st'. c_fetch k n E (Ref b []) st = (Inr (c_yields rows k), st') \<and> c_streams pending rest n (drop k rows) b a st'"
proof (induction k arbitrary: rows st)
  case 0
  then show ?case by (simp add: c_yields_def)
next
  case (Suc k)
  from c_next_yields[OF d Suc.prems] obtain out st1 where
    n: "skaidb_stream_next n E (Ref b []) False False st = (Inr (case rows of [] \<Rightarrow> SKAIDB_END | _ \<Rightarrow> SKAIDB_OK, out), st1)"
    "read_cells out st1 = (Inr (case rows of [] \<Rightarrow> [] | r # _ \<Rightarrow> r), st1)" "c_streams pending rest n (tl rows) b a st1" by blast
  from Suc.IH[OF n(3)] obtain st2 where
    "c_fetch k n E (Ref b []) st1 = (Inr (c_yields (tl rows) k), st2)" "c_streams pending rest n (drop k (tl rows)) b a st2" by blast
  then show ?case using n(1,2) by (simp add: c_yields_Suc drop_Suc)
qed

lemma c_free_drains:
  fixes E :: "('w, 't, 's, 'h, 'f) env"
  assumes d: "duplex (io (net E)) sent pending" and "c_streams pending rest n rows b a st"
  shows "\<exists>st' c. skaidb_stream_free n E (Ref b []) st = (Inr (), st') \<and> boxes st' b = None
    \<and> boxes st' a = Some (ClientBox c) \<and> pending (stream c) = rest"
proof -
  from assms(2) obtain s c fs where s: "boxes st b = Some (StreamBox s)" "s_client s = a" "boxes st a = Some (ClientBox c)"
    "length fs < n" "streams pending rest fs rows (s_stream s, unpooled c st)"
    by (auto simp: c_streams_def)
  have ne: "a \<noteq> b" using s by auto
  let ?st = "clear_box b st"
  have raw: "from_raw as_stream (Ref b []) st = (Inr s, ?st)" using s(1) by (simp add: from_raw_def whole_def as_stream_def sbind_def)
  show ?thesis
  proof (cases "rs_done (s_stream s)")
    case True
    with s raw ne show ?thesis by (auto simp: skaidb_stream_free_def clear_box_def streams_def)
  next
    case False
    obtain E' pl where v: "pool_view E c ?st = (E', pl)" by fastforce
    have d': "duplex (io (net E')) sent pending" using d pool_view_net[OF v] by simp
    have str: "streams pending rest fs rows (s_stream s, \<lparr>me = c, proc = process ?st, pool = pl\<rparr>)" by (rule streams_me[OF _ s(5)]) simp
    from drop_streams[OF d' str s(4)] obtain rs d1 where
      dr: "drop_stream n E' (s_stream s, \<lparr>me = c, proc = process ?st, pool = pl\<rparr>) = (Inr (), (rs, d1))" "pending (stream (me d1)) = rest"
      by (metis prod.collapse snd_conv)
    have "boxes ?st (s_client s) = Some (ClientBox c)" using s ne by (simp add: clear_box_def)
    from on_stream_run[where m = "drop_stream n", OF this v dr(1)] have
      "skaidb_stream_free n E (Ref b []) st = (Inr (), put_back a c d1 ?st)"
      using False raw s(2) by (simp add: skaidb_stream_free_def driver_result_def sbind_def)
    with dr(2) ne show ?thesis by (auto simp: put_back_at clear_box_def)
  qed
qed

section \<open>Properties\<close>

text \<open>C30: A streamed query through the C interface: the text of the C string is sent once, as one frame; every call of
  \<^verbatim>\<open>skaidb_stream_next\<close> gives the next row of the chunks, through pointers that are valid when it returns, and the end
  status after the last row and from then on; and whenever the stream is freed, after any number of rows, the client
  stands at its next answer. The loops of the driver need one more round than there are frames.\<close>

theorem c_stream_yields:
  fixes E :: "('w, 't, 's, 'h, 'f) env"
  assumes "duplex (io (net E)) sent pending" and "heap_ok st" and "boxes st a = Some (ClientBox c)" and "utf8_ok sql" and "0 \<notin> set sql"
    and "length (client_encode (QueryStream sql [] (default_consistency c))) \<le> MAX_FRAME_LEN"
    and "length h \<le> MAX_FRAME_LEN" and "response_decode h = Inr (RowsHeader cols)"
    and "list_all2 (\<lambda>f c. length f \<le> MAX_FRAME_LEN \<and> response_decode f = Inr (RowsChunk c)) chunks cs"
    and "length e \<le> MAX_FRAME_LEN" and "response_decode e = Inr RowsEnd" and "length chunks + 1 < n"
    and "pending (stream c) = frame_bytes h @ concat (map frame_bytes chunks) @ frame_bytes e @ rest"
  shows "\<exists>b st1 st2 st3 c3. skaidb_query_stream E (Ref a []) (Some sql) False st = (Inr (SKAIDB_OK, Some (Ref b [])), st1)
    \<and> skaidb_stream_column_count (Ref b []) st1 = (Inr (length cols), st1)
    \<and> c_fetch k n E (Ref b []) st1 = (Inr (map (\<lambda>r. (SKAIDB_OK, r)) (take k (concat cs)) @ replicate (k - length (concat cs)) (SKAIDB_END, [])), st2)
    \<and> skaidb_stream_free n E (Ref b []) st2 = (Inr (), st3) \<and> boxes st3 b = None
    \<and> boxes st3 a = Some (ClientBox c3) \<and> pending (stream c3) = rest"
proof -
  let ?q = "QueryStream sql [] (default_consistency c)"
  let ?rs = "\<lparr>rs_columns = cols, rs_affected = 0, rs_chunk = [], rs_more = [], rs_done = False\<rparr>"
  let ?P = "\<lambda>c1. pending (stream c1) = concat (map frame_bytes (chunks @ [e])) @ rest"
  have "\<exists>d. query_stream_params E' sql [] \<lparr>me = c, proc = process st, pool = pl\<rparr> = (Inr ?rs, d) \<and> ?P (me d)"
    if "pool_view E c st = (E', pl)" for E' pl
    using query_stream_ok[of E' sent pending sql "[]" "default_consistency c" h "RowsHeader cols" "\<lparr>me = c, proc = process st, pool = pl\<rparr>"
        "concat (map frame_bytes (chunks @ [e])) @ rest"] pool_view_net[OF that] assms
    by (auto simp: query_stream_params_def progressed_def start_stream_def)
  from on_driver_answer[where m = "\<lambda>E. query_stream_params E sql []" and P = ?P, OF this] obtain st1 c1 where
    st1: "on_driver E a c (\<lambda>E. query_stream_params E sql []) st = driver_result E (Inr ?rs) st1" "boxes st1 = (boxes st)(a \<mapsto> ClientBox c1)"
    "brk st1 = brk st" "?P c1" by blast
  let ?s = "\<lparr>s_client = a, s_stream = ?rs, s_columns = map c_string_lossy cols, s_past_columns = [], s_current = [], s_turn = 0\<rparr>"
  let ?b = "brk st1" and ?st = "snd (alloc (StreamBox ?s) st1)"
  have ne: "?b \<noteq> a" using assms(2,3) st1(3) by (auto simp: heap_ok_def)
  have opened: "skaidb_query_stream E (Ref a []) (Some sql) False st = (Inr (SKAIDB_OK, Some (Ref ?b [])), ?st)"
    using assms(3,4,5) st1(1)
    by (simp add: skaidb_query_stream_def open_stream_def boxed_def client_mut_def whole_def as_client_def sbind_def cstr_ok driver_result_def alloc_def)
  have count: "skaidb_stream_column_count (Ref ?b []) ?st = (Inr (length cols), ?st)"
    by (simp add: skaidb_stream_column_count_def whole_def as_stream_def sbind_def alloc_def)
  have "streams pending rest (chunks @ [e]) (concat cs) (?rs, unpooled c1 ?st)"
    using st1(4) assms(9-11) by (auto simp: streams_def)
  then have "c_streams pending rest n (concat cs) ?b a ?st"
    using st1(2) ne assms(12) by (intro c_streamsI[where d = "unpooled c1 ?st" and s = ?s]) (auto simp: alloc_def)
  from c_fetch_yields[OF assms(1) this, of k] obtain st2 where
    f: "c_fetch k n E (Ref ?b []) ?st = (Inr (c_yields (concat cs) k), st2)" "c_streams pending rest n (drop k (concat cs)) ?b a st2" by blast
  from c_free_drains[OF assms(1) f(2)] opened count f(1) show ?thesis unfolding c_yields_def by blast
qed

theorem c_stream_yields_witness:
  "\<exists>b st1 st2 st3 c3. skaidb_query_stream (sample_env []) (Ref 1 []) (Some [0x78]) False
      (sample_memory\<lparr>boxes := [1 \<mapsto> ClientBox (me (set_stream ([], frame_bytes (response_encode (RowsHeader [[0x61]]))
         @ frame_bytes (response_encode (RowsChunk [[VNull]])) @ frame_bytes (response_encode RowsEnd) @ [7]) sample_driver))], brk := 2\<rparr>)
      = (Inr (SKAIDB_OK, Some (Ref b [])), st1)
    \<and> c_fetch 2 3 (sample_env []) (Ref b []) st1 = (Inr [(SKAIDB_OK, [VNull]), (SKAIDB_END, [])], st2)
    \<and> skaidb_stream_free 3 (sample_env []) (Ref b []) st2 = (Inr (), st3)
    \<and> boxes st3 1 = Some (ClientBox c3) \<and> snd (stream c3) = [7]"
proof -
  let ?h = "response_encode (RowsHeader [[0x61]])" and ?c = "response_encode (RowsChunk [[VNull]])" and ?e = "response_encode RowsEnd"
  let ?cl = "me (set_stream ([], frame_bytes ?h @ frame_bytes ?c @ frame_bytes ?e @ [7]) sample_driver)"
  let ?st = "sample_memory\<lparr>boxes := [1 \<mapsto> ClientBox ?cl], brk := 2\<rparr>"
  have dec: "response_decode ?h = Inr (RowsHeader [[0x61]])" "response_decode ?c = Inr (RowsChunk [[VNull]])" "response_decode ?e = Inr RowsEnd"
    using response_decode_encode[of "RowsHeader [[0x61]]" "[]"] response_decode_encode[of "RowsChunk [[VNull]]" "[]"]
      response_decode_encode[of RowsEnd "[]"]
    by (simp_all add: response_ok_def columns_ok_def rows_ok_def row_ok_def str_ok_def cell_ok_def storable_def fits_def
        response_encode_simps vec32_def enc_cell_def)
  have len: "length ?h \<le> MAX_FRAME_LEN" "length ?c \<le> MAX_FRAME_LEN" "length ?e \<le> MAX_FRAME_LEN"
    by (simp_all add: response_encode_simps vec32_def enc_cell_def MAX_FRAME_LEN_def)
  have ch: "list_all2 (\<lambda>f c. length f \<le> MAX_FRAME_LEN \<and> response_decode f = Inr (RowsChunk c)) [?c] [[[VNull]]]"
    using dec(2) len(2) by simp
  have q: "length (client_encode (QueryStream [0x78] [] (default_consistency ?cl))) \<le> MAX_FRAME_LEN"
    by (simp add: client_encode_simps MAX_FRAME_LEN_def)
  from c_stream_yields[OF sample_env_duplex _ _ _ _ q len(1) dec(1) ch len(3) dec(3), of ?st 1 3 "[7]" "[]" 2]
  show ?thesis by (auto simp: heap_ok_def)
qed

end
