(* ===== verification/Client_Life.thy ===== *)
theory Client_Life
  imports Driver_Steps
begin

text \<open>
  The life of a connection: opened at one of its endpoints, used through every method of \<^verbatim>\<open>Client\<close>, of a prepared
  statement and of a stream of rows, in any order and with failovers wherever they happen, while other
  threads move the process and the pool.
\<close>

section \<open>Definitions\<close>

definition homed :: "'s client \<Rightarrow> bool" where
  "homed c \<longleftrightarrow> endpoint_of c \<in> set (endpoints_of c)"

text \<open>What no method changes: the login and the consistency level of the session, and that the connection is one of its endpoints.\<close>

definition stays :: "('w, 's, 'f) driver \<Rightarrow> ('w, 's, 'f) driver \<Rightarrow> bool" where
  "stays d d' \<longleftrightarrow> client_login (me d') = client_login (me d) \<and> default_consistency (me d') = default_consistency (me d)
     \<and> (homed (me d) \<longrightarrow> homed (me d'))"

text \<open>The connections a login can lead to.\<close>

inductive connection :: "('w, 't, 's, 'h, 'f) env \<Rightarrow> login \<Rightarrow> ('w, 's, 'f) driver \<Rightarrow> bool" for E lg where
  opened: "open_client E ordered lg lnk (p, st) = (Inr c, (p', st')) \<Longrightarrow> connection E lg \<lparr>me = c, proc = p', pool = st'\<rparr>"
| elsewhere: "connection E lg d \<Longrightarrow> connection E lg (d\<lparr>proc := p, pool := st\<rparr>)"
| handed_out: "connection E lg d \<Longrightarrow> connection E lg (d\<lparr>me := (me d)\<lparr>link := l\<rparr>\<rparr>)"
| consistency: "connection E lg d \<Longrightarrow> connection E lg (d\<lparr>me := set_consistency c (me d)\<rparr>)"
| endpoints: "connection E lg d \<Longrightarrow> connection E lg (d\<lparr>me := add_endpoints extra (me d)\<rparr>)"
| execute: "connection E lg d \<Longrightarrow> execute_with E sql c d = (r1, d') \<Longrightarrow> connection E lg d'"
| poll: "connection E lg d \<Longrightarrow> stream_poll E strm after limit d = (r2, d') \<Longrightarrow> connection E lg d'"
| database: "connection E lg d \<Longrightarrow> use_database E db d = (r3, d') \<Longrightarrow> connection E lg d'"
| budget: "connection E lg d \<Longrightarrow> set_scan_budget_rows E n d = (r4, d') \<Longrightarrow> connection E lg d'"
| pipeline: "connection E lg d \<Longrightarrow> pipeline_with E stmts c d = (r5, d') \<Longrightarrow> connection E lg d'"
| prepare: "connection E lg d \<Longrightarrow> prepare E sql d = (r6, d') \<Longrightarrow> connection E lg d'"
| prepared: "connection E lg d \<Longrightarrow> execute_prepared E params (stmt, d) = (r7, (stmt', d')) \<Longrightarrow> connection E lg d'"
| batch: "connection E lg d \<Longrightarrow> execute_batch E rows (stmt, d) = (r8, (stmt', d')) \<Longrightarrow> connection E lg d'"
| streamed: "connection E lg d \<Longrightarrow> query_stream_params_with E sql params c d = (r9, d') \<Longrightarrow> connection E lg d'"
| row: "connection E lg d \<Longrightarrow> next_row n E (rs, d) = (r10, (rs', d')) \<Longrightarrow> connection E lg d'"
| dropped: "connection E lg d \<Longrightarrow> drop_stream n E (rs, d) = (r11, (rs', d')) \<Longrightarrow> connection E lg d'"
| reconnect: "connection E lg d \<Longrightarrow> reconnect E d = (r12, d') \<Longrightarrow> connection E lg d'"

section \<open>Every method stays\<close>

lemma homed_report:
  assumes "\<And>t c st. link_only c (fst (f t (c, st))) \<and> client_endpoints (fst (f t (c, st))) = client_endpoints c"
  shows "stays d (report E f d)"
proof (cases "link (me d) = None")
  case False
  obtain t w where t: "pool_in E (world (proc d)) = (t, w)" by fastforce
  obtain c st where c: "f t (me d, pool d) = (c, st)" by fastforce
  with assms[of "me d" t "pool d"] t False show ?thesis
    by (simp add: stays_def report_def homed_def link_only_def settings_def endpoint_of_def endpoints_of_def)
qed (simp add: report_def stays_def)

lemma reports_endpoints:
  "client_endpoints (fst (observed_ok F o0 t e (c, st))) = client_endpoints c"
  "client_endpoints (fst (transport_failed o0 t (c, st))) = client_endpoints c"
  by (auto simp: observed_ok_def transport_failed_def split: option.splits prod.splits)

lemma stays_take_over: "ep \<in> set ordered \<Longrightarrow> stays d (take_over ordered ep s d)"
  by (auto simp: stays_def take_over_def reconnected_def homed_def endpoint_of_def endpoints_of_def Let_def split: option.splits prod.splits)

interpretation life: driver_steps E stays for E
proof unfold_locales
  show "stays d (report E (\<lambda>i. observed_ok (f64 E) (opts E) i e) d)" for d e
    by (rule homed_report) (simp add: link_only_pool_reports reports_endpoints)
  show "stays d (report E (transport_failed (opts E)) d)" for d
    by (rule homed_report) (simp add: link_only_pool_reports reports_endpoints)
  show "stays d (report E (\<lambda>t (c, st). (c, observe_statement (opts E) t w c st)) d)" for d w
    by (rule homed_report) simp
  show "stays d (report E (\<lambda>t (c, st). (c, failed (opts E) t ep st)) d)" for d ep
    by (rule homed_report) simp
  show "stays d (take_over ordered ep s d)" if "ep \<in> set ordered" for d ordered ep s
    by (rule stays_take_over[OF that])
qed (auto simp: stays_def homed_def endpoint_of_def endpoints_of_def set_stream_def)

lemma open_loop_homed:
  "open_loop E ordered lg lnk said eps ps = (Inr c, ps') \<Longrightarrow> set eps \<subseteq> set ordered \<Longrightarrow> homed c \<and> client_login c = lg"
proof (induction eps arbitrary: said ps)
  case (Cons ep eps)
  obtain p st where ps: "ps = (p, st)" by fastforce
  obtain q p1 where q: "dial (net E) ep lg p = (q, p1)" by fastforce
  show ?case
  proof (cases q)
    case (Inr s)
    let ?d = "\<lparr>me = new_client ordered lg lnk ep s, proc = p1, pool = st\<rparr>"
    obtain r d where d: "send_hello E ?d = (r, d)" by fastforce
    have "stays ?d d" by (rule doesD[OF life.does_session(3) d])
    moreover have "c = me d" using Cons.prems(1) ps q Inr d by (auto simp: rbind_eq_Inr)
    moreover have "homed (new_client ordered lg lnk ep s)" "client_login (new_client ordered lg lnk ep s) = lg"
      using Cons.prems(2) by (auto simp: homed_def new_client_def endpoint_of_def endpoints_of_def)
    ultimately show ?thesis by (simp add: stays_def)
  next
    case (Inl x)
    with Cons ps q show ?thesis by (cases x) auto
  qed
qed simp

lemma add_endpoints_same:
  "connected (add_endpoints extra c) = connected c \<and> client_login (add_endpoints extra c) = client_login c
   \<and> set (client_endpoints (add_endpoints extra c)) = set (client_endpoints c) \<union> set extra"
  unfolding add_endpoints_def by (induction extra arbitrary: c) auto

lemma homed_step: "homed (me d) \<and> client_login (me d) = lg \<Longrightarrow> stays d d' \<Longrightarrow> homed (me d') \<and> client_login (me d') = lg"
  by (simp add: stays_def)

lemma on_second: "does (\<lambda>s s'. stays (snd s) (snd s')) m \<Longrightarrow> m (x, d) = (r, (x', d')) \<Longrightarrow> stays d d'"
  by (drule doesD) auto

lemma connection_homed: "connection E lg d \<Longrightarrow> homed (me d) \<and> client_login (me d) = lg"
proof (induction rule: connection.induct)
  case (opened ordered lnk p st c p' st')
  then show ?case using open_loop_homed unfolding open_client_def by fastforce
next
  case (endpoints d extra)
  with add_endpoints_same[of extra "me d"] show ?case by (auto simp: homed_def endpoint_of_def endpoints_of_def)
next
  case (execute d sql c r1 d')
  show ?case by (rule homed_step[OF execute.IH doesD[OF life.does_execute(2) execute.hyps(2)]])
next
  case (poll d strm after limit r2 d')
  show ?case by (rule homed_step[OF poll.IH doesD[OF life.does_execute(4) poll.hyps(2)]])
next
  case (database d db r3 d')
  show ?case by (rule homed_step[OF database.IH doesD[OF life.does_settings(1) database.hyps(2)]])
next
  case (budget d n r4 d')
  show ?case by (rule homed_step[OF budget.IH doesD[OF life.does_settings(2) budget.hyps(2)]])
next
  case (pipeline d stmts c r5 d')
  show ?case by (rule homed_step[OF pipeline.IH doesD[OF life.does_pipeline pipeline.hyps(2)]])
next
  case (prepare d sql r6 d')
  show ?case by (rule homed_step[OF prepare.IH doesD[OF life.does_prepare prepare.hyps(2)]])
next
  case (prepared d params stmt r7 stmt' d')
  show ?case by (rule homed_step[OF prepared.IH on_second[OF life.does_prepared(1) prepared.hyps(2)]])
next
  case (batch d rows stmt r8 stmt' d')
  show ?case by (rule homed_step[OF batch.IH on_second[OF life.does_prepared(2) batch.hyps(2)]])
next
  case (streamed d sql params c r9 d')
  show ?case by (rule homed_step[OF streamed.IH doesD[OF life.does_query_stream streamed.hyps(2)]])
next
  case (row d n rs r10 rs' d')
  show ?case by (rule homed_step[OF row.IH on_second[OF life.does_stream(1) row.hyps(2)]])
next
  case (dropped d n rs r11 rs' d')
  show ?case by (rule homed_step[OF dropped.IH on_second[OF life.does_stream(2) dropped.hyps(2)]])
next
  case (reconnect d r12 d')
  show ?case by (rule homed_step[OF reconnect.IH doesD[OF life.does_reconnect reconnect.hyps(2)]])
qed (auto simp: homed_def endpoint_of_def endpoints_of_def set_consistency_def)

section \<open>Properties\<close>

text \<open>C36: Through every method and every failover, a connection stands at one of the endpoints it lists, and it authenticates with
  the login it was opened with: no method puts another user, password or TLS setting in its place.\<close>

theorem connection_stays_home:
  assumes "connection E lg d"
  shows "endpoint_of (me d) \<in> set (endpoints_of (me d)) \<and> client_login (me d) = lg"
  using connection_homed[OF assms] by (simp add: homed_def)

theorem connection_stays_home_witness:
  "\<exists>c p st. open_client (sample_env (frame_bytes (response_encode Ddl))) [[0x61]] cert_login None (sample_process, pool sample_driver) = (Inr c, (p, st))
    \<and> endpoint_of c \<in> set (endpoints_of c)"
proof -
  let ?E = "sample_env (frame_bytes (response_encode Ddl))"
  from sample_dial[of "frame_bytes (response_encode Ddl)" "[0x61]" sample_process] obtain s p where
    d: "dial (net ?E) [0x61] cert_login sample_process = (Inr s, p)" "snd s = frame_bytes (response_encode Ddl)" by blast
  let ?d = "\<lparr>me = new_client [[0x61]] cert_login None [0x61] s, proc = p, pool = pool sample_driver\<rparr>"
  have len: "sendable [hello ?E]"
    by (simp add: sendable_def hello_def client_encode_simps MAX_FRAME_LEN_def sample_env_def of_str_def)
  from send_hello_ok[OF sample_env_duplex len sample_ddl(3), of ?d "[]"] d(2) obtain d1 where
    h: "send_hello ?E ?d = (Inr (), d1)" by (auto simp: new_client_def)
  have o: "open_client ?E [[0x61]] cert_login None (sample_process, pool sample_driver) = (Inr (me d1), (proc d1, pool d1))"
    using d(1) h by (simp add: open_client_def)
  from connection_stays_home[OF connection.opened[OF o]] o show ?thesis by simp
qed

end
