(* ===== verification/Channel_Binding.thy ===== *)
theory Channel_Binding
  imports Text
begin

text \<open>
  TLS channel binding (\<^verbatim>\<open>skaidb-net/src/lib.rs\<close>): the walk over a certificate's DER bytes to its signature
  algorithm, and the binding data. The digests of \<^verbatim>\<open>ring\<close> are arguments. A \<^verbatim>\<open>None\<close> of the source is
  \<open>Inl (Err ())\<close> and a slice out of range is a panic.
\<close>

section \<open>Definitions\<close>

datatype sig_hash = Sha256 | Sha384 | Sha512

definition byte_slice :: "bytes \<Rightarrow> nat \<Rightarrow> nat \<Rightarrow> bytes opt" where
  "byte_slice b i j = (if i \<le> j \<and> j \<le> length b then Inr (take (j - i) (drop i b)) else Inl (Panic ''slice index''))"

definition byte_at :: "bytes \<Rightarrow> nat \<Rightarrow> u8 opt" where
  "byte_at b i = (if i < length b then Inr (b ! i) else Inl (Err ()))"

primrec tlv_len :: "bytes \<Rightarrow> nat list \<Rightarrow> nat \<Rightarrow> nat opt" where
  "tlv_len b [] n = Inr n"
| "tlv_len b (i # ks) n = rbind (byte_at b (2 + i)) (\<lambda>x. tlv_len b ks (n * 256 + unat x))"

definition tlv :: "bytes \<Rightarrow> ((u8 \<times> bytes) \<times> bytes) opt" where
  "tlv b =
    rbind (byte_at b 0) (\<lambda>tag.
    rbind (byte_at b 1) (\<lambda>first.
    rbind (if unat first < 0x80 then Inr (unat first, 2)
           else let n = unat first mod 0x80 in
                if n = 0 \<or> n > 4 then Inl (Err ())
                else rbind (tlv_len b [0..<n] 0) (\<lambda>len. Inr (len, 2 + n))) (\<lambda>(len, hdr).
    let stop = hdr + len in
    if stop > length b then Inl (Err ())
    else rbind (byte_slice b hdr stop) (\<lambda>body. rbind (byte_slice b stop (length b)) (\<lambda>rest. Inr ((tag, body), rest))))))"

definition signature_oid :: "bytes \<Rightarrow> bytes opt" where
  "signature_oid der =
    rbind (tlv der) (\<lambda>((_, cert), _).
    rbind (tlv cert) (\<lambda>((_, tbs), rest).
    rbind (tlv rest) (\<lambda>((_, alg), _).
    rbind (tlv alg) (\<lambda>((tag, oid), _). if tag = 0x06 then Inr oid else Inl (Err ())))))"

definition OID_RSA384 :: bytes where "OID_RSA384 = [0x2A, 0x86, 0x48, 0x86, 0xF7, 0x0D, 0x01, 0x01, 0x0C]"
definition OID_ECDSA384 :: bytes where "OID_ECDSA384 = [0x2A, 0x86, 0x48, 0xCE, 0x3D, 0x04, 0x03, 0x03]"
definition OID_RSA512 :: bytes where "OID_RSA512 = [0x2A, 0x86, 0x48, 0x86, 0xF7, 0x0D, 0x01, 0x01, 0x0D]"
definition OID_ECDSA512 :: bytes where "OID_ECDSA512 = [0x2A, 0x86, 0x48, 0xCE, 0x3D, 0x04, 0x03, 0x04]"

definition hash_of_oid :: "bytes \<Rightarrow> sig_hash" where
  "hash_of_oid oid = (if oid = OID_RSA384 \<or> oid = OID_ECDSA384 then Sha384 else if oid = OID_RSA512 \<or> oid = OID_ECDSA512 then Sha512 else Sha256)"

definition signature_hash :: "bytes \<Rightarrow> sig_hash opt" where
  "signature_hash der = (case signature_oid der of
     Inr oid \<Rightarrow> Inr (hash_of_oid oid)
   | Inl (Err _) \<Rightarrow> Inr Sha256
   | Inl x \<Rightarrow> Inl x)"

definition tls_server_end_point :: "(sig_hash \<Rightarrow> bytes \<Rightarrow> bytes) \<Rightarrow> bytes \<Rightarrow> bytes opt" where
  "tls_server_end_point digest cert_der =
    rbind (signature_hash cert_der) (\<lambda>alg. Inr (of_str ''tls-server-end-point:'' @ digest alg cert_der))"

section \<open>DER\<close>

text \<open>The encoding of a value: its tag, its length in the short form or in the fewest bytes of the long form,
  and its bytes.\<close>

fun base256 :: "nat \<Rightarrow> bytes" where
  "base256 n = (if n < 256 then [word_of_nat n] else base256 (n div 256) @ [word_of_nat (n mod 256)])"

declare base256.simps [simp del]

definition der_length :: "nat \<Rightarrow> bytes" where
  "der_length n = (if n < 128 then [word_of_nat n] else word_of_nat (128 + length (base256 n)) # base256 n)"

definition der :: "u8 \<Rightarrow> bytes \<Rightarrow> bytes" where
  "der tag body = tag # der_length (length body) @ body"

definition value256 :: "bytes \<Rightarrow> nat" where
  "value256 bs = foldl (\<lambda>n x. n * 256 + unat x) 0 bs"

lemma base256_value [simp]: "value256 (base256 n) = n"
proof (induction n rule: base256.induct)
  case (1 n)
  show ?case
  proof (cases "n < 256")
    case True
    then show ?thesis by (simp add: base256.simps[of n] value256_def unat_of_nat)
  next
    case False
    then have "foldl (\<lambda>n x. n * 256 + unat x) 0 (base256 (n div 256)) = n div 256" using 1 by (simp add: value256_def)
    then show ?thesis using False by (simp add: base256.simps[of n] value256_def unat_of_nat)
  qed
qed

lemma length_base256: "0 < k \<Longrightarrow> n < 256 ^ k \<Longrightarrow> 0 < length (base256 n) \<and> length (base256 n) \<le> k"
proof (induction k arbitrary: n)
  case (Suc k)
  show ?case
  proof (cases "n < 256")
    case False
    then have "0 < k" using Suc.prems(2) by (cases k) auto
    moreover have "n div 256 < 256 ^ k" using Suc.prems(2) by (simp add: less_mult_imp_div_less)
    ultimately show ?thesis using Suc.IH False by (simp add: base256.simps[of n])
  qed (simp add: base256.simps)
qed simp

lemma length_der: "length body < 2 ^ 32 \<Longrightarrow> length (der tag body) \<le> length body + 6"
  using length_base256[of 4 "length body"] by (simp add: der_def der_length_def)

lemma tlv_len_reads:
  "tlv_len (x # y # bs @ cs) [k..<length bs] n = Inr (foldl (\<lambda>n x. n * 256 + unat x) n (drop k bs))"
proof (induction "length bs - k" arbitrary: k n)
  case (Suc d)
  then have k: "k < length bs" by simp
  then have "[k..<length bs] = k # [Suc k..<length bs]" "drop k bs = bs ! k # drop (Suc k) bs"
    by (simp_all add: upt_conv_Cons Cons_nth_drop_Suc)
  then show ?case using Suc.hyps(1)[of "Suc k"] Suc.hyps(2) k by (simp add: byte_at_def nth_append)
qed simp

lemma tlv_der [simp]:
  assumes "length body < 2 ^ 32"
  shows "tlv (der tag body @ rest) = Inr ((tag, body), rest)"
proof (cases "length body < 128")
  case True
  then show ?thesis by (simp add: tlv_def der_def der_length_def byte_at_def byte_slice_def Let_def unat_of_nat)
next
  case False
  let ?l = "base256 (length body)" and ?n = "length (base256 (length body))"
  have l: "0 < ?n" "?n \<le> 4" using length_base256[of 4 "length body"] assms by simp_all
  have f: "unat (word_of_nat (128 + ?n) :: u8) = 128 + ?n" by (subst unat_of_nat) (use l in simp)
  have "tlv_len (tag # word_of_nat (128 + ?n) # ?l @ body @ rest) [0..<?n] 0 = Inr (length body)"
    using tlv_len_reads[of tag "word_of_nat (128 + ?n)" ?l "body @ rest" 0 0] base256_value[of "length body"] by (simp add: value256_def)
  then show ?thesis
    using False l f by (simp add: tlv_def der_def der_length_def byte_at_def byte_slice_def Let_def del: of_nat_add)
qed

lemma tlv_clean [intro]: "clean (tlv b)"
proof -
  have "clean (tlv_len b ks n)" for ks n
    by (induction ks arbitrary: n) (auto simp: byte_at_def intro: clean_rbind)
  then show ?thesis by (auto simp: tlv_def byte_at_def byte_slice_def Let_def intro!: clean_rbind)
qed

section \<open>Properties\<close>

text \<open>The walk over a certificate never panics and always names a hash, whatever bytes it is given.\<close>

theorem signature_hash_total: "\<exists>h. signature_hash b = Inr h"
proof -
  have "clean (signature_oid b)"
    unfolding signature_oid_def by (auto intro!: clean_rbind split: prod.splits)
  then show ?thesis by (auto simp: signature_hash_def clean_def split: sum.splits)
qed

text \<open>Of a certificate, the binding uses the hash of its outer signature algorithm: SHA-384 or SHA-512 for the
  four algorithms with those hashes and SHA-256 for any other, which is what RFC 5929 asks for.\<close>

theorem end_point_of_certificate:
  assumes "length oid < 2 ^ 16" and "length params < 2 ^ 16" and "length tbs < 2 ^ 24" and "length sig < 2 ^ 24"
  defines "cert \<equiv> der 0x30 (der 0x30 tbs @ der 0x30 (der 0x06 oid @ params) @ sig)"
  shows "tls_server_end_point digest cert = Inr (of_str ''tls-server-end-point:'' @ digest (hash_of_oid oid) cert)"
proof -
  let ?alg = "der 0x06 oid @ params"
  let ?body = "der 0x30 tbs @ der 0x30 ?alg @ sig"
  have oid: "length (der 0x06 oid) \<le> length oid + 6" by (rule length_der) (use assms(1) in simp)
  then have alg: "length ?alg < 2 ^ 32" using assms(1,2) by simp
  have "length (der 0x30 tbs) \<le> length tbs + 6" by (rule length_der) (use assms(3) in simp)
  moreover have "length (der 0x30 ?alg) \<le> length ?alg + 6" by (rule length_der[OF alg])
  ultimately have "length ?body < 2 ^ 32" using assms oid by simp
  then have c: "tlv cert = Inr ((0x30, ?body), [])" unfolding cert_def by (metis tlv_der append_Nil2)
  have "signature_oid cert = Inr oid"
    unfolding signature_oid_def using c alg assms(1,3) by simp
  then show ?thesis by (simp add: tls_server_end_point_def signature_hash_def)
qed

theorem end_point_of_certificate_witness:
  "tls_server_end_point (\<lambda>h _. if h = Sha384 then [1] else [0]) (der 0x30 (der 0x30 [7] @ der 0x30 (der 0x06 OID_ECDSA384 @ []) @ [9]))
     = Inr (of_str ''tls-server-end-point:'' @ [1])"
  using end_point_of_certificate[of OID_ECDSA384 "[]" "[7]" "[9]" "\<lambda>h _. if h = Sha384 then [1] else [0]"]
  by (simp add: OID_ECDSA384_def hash_of_oid_def)

end
