(* ===== verification/Kerberos.thy ===== *)
theory Kerberos
  imports Auth_Client Net_Stream Channel_Binding
begin

text \<open>
  The Kerberos wrapper (\<^verbatim>\<open>skaidb-gssapi/src/lib.rs\<close>): both sides of a security-context negotiation over
  \<^verbatim>\<open>cross-krb5\<close>, which is the parameter \<open>krb5_lib\<close>, and the channel binding the driver asks for. The driver's token
  loop (\<open>handshake_gssapi\<close>) is run over the wrapper, against an acceptor that is driven by it.
\<close>

section \<open>Definitions\<close>

datatype gss_error = NotSupported | Krb5 rstr

definition gss_error_text :: "gss_error \<Rightarrow> rstr" where
  "gss_error_text e = (case e of
     NotSupported \<Rightarrow> of_str ''GSSAPI authentication is not supported in this build''
   | Krb5 msg \<Rightarrow> of_str ''kerberos: '' @ msg)"

text \<open>What the library offers: \<^verbatim>\<open>Step\<close>, the two contexts at their default flags, the principal of an accepted
  context and the text of its errors. An acceptor finds its keytab through the environment.\<close>

datatype ('p, 'x) krb_step = KContinue 'p bytes | KFinished 'x "bytes option"

type_synonym environment = "rstr \<rightharpoonup> rstr"

record ('ci, 'cx, 'si, 'sx, 'e) krb5_lib =
  client_ctx :: "rstr option \<Rightarrow> rstr \<Rightarrow> bytes option \<Rightarrow> 'e + 'ci \<times> bytes"
  client_ctx_step :: "'ci \<Rightarrow> bytes \<Rightarrow> 'e + ('ci, 'cx) krb_step"
  server_ctx :: "environment \<Rightarrow> rstr option \<Rightarrow> bytes option \<Rightarrow> 'e + 'si"
  server_ctx_step :: "'si \<Rightarrow> bytes \<Rightarrow> 'e + ('si, 'sx) krb_step"
  ctx_client :: "'sx \<Rightarrow> 'e + rstr"
  krb_text :: "'e \<Rightarrow> rstr"

definition is_supported :: "bool \<Rightarrow> bool" where
  "is_supported kerberos_feature = kerberos_feature"

definition set_keytab :: "rstr \<Rightarrow> environment \<Rightarrow> environment" where
  "set_keytab path env = env(of_str ''KRB5_KTNAME'' \<mapsto> path)"

datatype 'h server_step = SContinue 'h bytes | SDone rstr "bytes option"

definition krb_err :: "('ci, 'cx, 'si, 'sx, 'e) krb5_lib \<Rightarrow> 'e + 'a \<Rightarrow> ('a \<Rightarrow> gss_error + 'b) \<Rightarrow> gss_error + 'b" where
  "krb_err L r f = (case r of Inl e \<Rightarrow> Inl (Krb5 (krb_text L e)) | Inr x \<Rightarrow> f x)"

definition server_handshake_new :: "('ci, 'cx, 'si, 'sx, 'e) krb5_lib \<Rightarrow> environment \<Rightarrow> rstr option \<Rightarrow> bytes option \<Rightarrow> gss_error + 'si" where
  "server_handshake_new L env spn bindings = krb_err L (server_ctx L env spn bindings) Inr"

definition server_handshake_step :: "('ci, 'cx, 'si, 'sx, 'e) krb5_lib \<Rightarrow> 'si \<Rightarrow> bytes \<Rightarrow> gss_error + 'si server_step" where
  "server_handshake_step L h client_token = krb_err L (server_ctx_step L h client_token) (\<lambda>st. case st of
     KContinue nxt t \<Rightarrow> Inr (SContinue nxt t)
   | KFinished ctx t \<Rightarrow> krb_err L (ctx_client L ctx) (\<lambda>princ. Inr (SDone princ t)))"

definition client_handshake_new :: "('ci, 'cx, 'si, 'sx, 'e) krb5_lib \<Rightarrow> rstr \<Rightarrow> rstr option \<Rightarrow> bytes option \<Rightarrow> gss_error + 'ci \<times> bytes" where
  "client_handshake_new L target_spn princ bindings = krb_err L (client_ctx L princ target_spn bindings) Inr"

definition client_handshake_step :: "('ci, 'cx, 'si, 'sx, 'e) krb5_lib \<Rightarrow> 'ci \<Rightarrow> bytes \<Rightarrow> gss_error + 'ci client_step" where
  "client_handshake_step L h server_token = krb_err L (client_ctx_step L h server_token) (\<lambda>st. case st of
     KContinue nxt t \<Rightarrow> Inr (Continue nxt t)
   | KFinished _ t \<Rightarrow> Inr (Done t))"

text \<open>The wrapper as the driver calls it: for the ambient identity, with its errors as text.\<close>

definition gss_wrapper :: "('ci, 'cx, 'si, 'sx, 'e) krb5_lib \<Rightarrow> 'ci gss_ops" where
  "gss_wrapper L = \<lparr>
     gss_new = (\<lambda>spn bindings. case client_handshake_new L spn None bindings of Inl e \<Rightarrow> Inl (gss_error_text e) | Inr x \<Rightarrow> Inr x),
     gss_step = (\<lambda>h t. case client_handshake_step L h t of Inl e \<Rightarrow> Inl (gss_error_text e) | Inr x \<Rightarrow> Inr x)\<rparr>"

text \<open>The binding of a connection: the end-point data of the certificate the server showed.\<close>

definition stream_binding :: "(sig_hash \<Rightarrow> bytes \<Rightarrow> bytes) \<Rightarrow> ('p, 'c, 'v) net_parts \<Rightarrow> ('p, 'c, 'v) net_stream \<Rightarrow> bytes option opt" where
  "stream_binding digest P s = (case peer_certificate_der P s of
     None \<Rightarrow> Inr None
   | Some cert \<Rightarrow> rbind (tls_server_end_point digest cert) (\<lambda>b. Inr (Some b)))"

definition binding_of :: "(sig_hash \<Rightarrow> bytes \<Rightarrow> bytes) \<Rightarrow> ('p, 'c, 'v) net_parts \<Rightarrow> ('p, 'c, 'v) net_stream \<Rightarrow> bytes option" where
  "binding_of digest P s = (case stream_binding digest P s of Inr b \<Rightarrow> b | Inl _ \<Rightarrow> None)"

section \<open>Negotiations\<close>

text \<open>The two sides of an exchange, as the library sees them. The initiator is fed the acceptor's tokens; its answers are
  collected, and at the end its context is established. The acceptor is fed the initiator's tokens; its answers are
  collected until its context is established, which names the peer.\<close>

fun initiates :: "('ci, 'cx, 'si, 'sx, 'e) krb5_lib \<Rightarrow> 'ci option \<Rightarrow> bytes list \<Rightarrow> bytes list option" where
  "initiates L h [] = (case h of None \<Rightarrow> Some [] | Some _ \<Rightarrow> None)"
| "initiates L None (u # us) = None"
| "initiates L (Some h) (u # us) = (case client_ctx_step L h u of
     Inl _ \<Rightarrow> None
   | Inr (KContinue h' t) \<Rightarrow> map_option (\<lambda>ts. t # ts) (initiates L (Some h') us)
   | Inr (KFinished _ (Some t)) \<Rightarrow> map_option (\<lambda>ts. t # ts) (initiates L None us)
   | Inr (KFinished _ None) \<Rightarrow> initiates L None us)"

fun accepts_as :: "('ci, 'cx, 'si, 'sx, 'e) krb5_lib \<Rightarrow> 'si \<Rightarrow> bytes list \<Rightarrow> (bytes list \<times> rstr) option" where
  "accepts_as L h [] = None"
| "accepts_as L h (t # ts) = (case server_ctx_step L h t of
     Inl _ \<Rightarrow> None
   | Inr (KFinished ctx u) \<Rightarrow> (case ctx_client L ctx of
       Inr princ \<Rightarrow> if ts = [] then Some (case u of None \<Rightarrow> [] | Some u \<Rightarrow> [u], princ) else None
     | Inl _ \<Rightarrow> None)
   | Inr (KContinue h' u) \<Rightarrow> map_option (\<lambda>(us, p). (u # us, p)) (accepts_as L h' ts))"

text \<open>A server that is driven by the wrapper.\<close>

fun serve :: "('ci, 'cx, 'si, 'sx, 'e) krb5_lib \<Rightarrow> 'si \<Rightarrow> bytes list \<Rightarrow> (bytes list \<times> rstr) option" where
  "serve L h [] = None"
| "serve L h (t # ts) = (case server_handshake_step L h t of
     Inl _ \<Rightarrow> None
   | Inr (SDone princ u) \<Rightarrow> if ts = [] then Some (case u of None \<Rightarrow> [] | Some u \<Rightarrow> [u], princ) else None
   | Inr (SContinue h' u) \<Rightarrow> map_option (\<lambda>(us, p). (u # us, p)) (serve L h' ts))"

lemma serve_accepts: "serve L h ts = accepts_as L h ts"
  by (induction L h ts rule: serve.induct)
    (auto simp: server_handshake_step_def krb_err_def split: sum.splits krb_step.splits)

definition token_frame :: "bytes \<Rightarrow> bytes" where
  "token_frame t = frame_bytes (auth_token_encode \<lparr>token = t\<rparr>)"

definition token_fits :: "bytes \<Rightarrow> bool" where
  "token_fits t \<longleftrightarrow> length t + 5 \<le> MAX_FRAME_LEN"

lemma token_roundtrip:
  assumes "token_fits t"
  shows "auth_token_decode (auth_token_encode \<lparr>token = t\<rparr>) = Inr \<lparr>token = t\<rparr>"
    and "length (auth_token_encode \<lparr>token = t\<rparr>) \<le> MAX_FRAME_LEN"
proof -
  have len: "length (auth_token_encode \<lparr>token = t\<rparr>) = length t + 5"
    by (simp add: auth_token_encode_def put_bytes_def)
  with assms show "length (auth_token_encode \<lparr>token = t\<rparr>) \<le> MAX_FRAME_LEN" by (simp add: token_fits_def)
  have "length t < 2 ^ 32" using assms by (simp add: token_fits_def MAX_FRAME_LEN_def)
  then show "auth_token_decode (auth_token_encode \<lparr>token = t\<rparr>) = Inr \<lparr>token = t\<rparr>"
    using reader_at[of T_TOKEN "len_bytes t"] cur_bytes_at[of "[T_TOKEN]" t "[]" H_over H_short]
    by (simp add: auth_token_encode_def auth_token_decode_def put_len fits_def)
qed

lemma outcome_is_no_token:
  "ok_of (auth_token_decode (auth_outcome_encode oc)) = (Inr None :: (driver_error, auth_token option) res)"
  by (cases oc) (simp_all add: auth_token_decode_def auth_outcome_encode_def reader_new_def cur_new_def cur_u8_def cur_take_def
      put_str_def put_bytes_def)

lemma gss_wrapper_simps:
  "gss_new (gss_wrapper L) spn b = (case client_handshake_new L spn None b of Inl e \<Rightarrow> Inl (gss_error_text e) | Inr x \<Rightarrow> Inr x)"
  "gss_step (gss_wrapper L) h t = (case client_handshake_step L h t of Inl e \<Rightarrow> Inl (gss_error_text e) | Inr x \<Rightarrow> Inr x)"
  by (simp_all add: gss_wrapper_def)

text \<open>One round of the token loop, for a frame the server has sent.\<close>

lemma gss_loop_outcome:
  assumes "duplex ops sent pending" and "pending s = frame_bytes (auth_outcome_encode (AuthOk sig)) @ rest" and "length sig = 32"
  shows "\<exists>s'. gss_loop (Suc n) ops g ctx s = Inr s' \<and> pending s' = rest \<and> sent s' = sent s"
proof -
  from recv_frame[OF assms(1,2)] outcome_signature(2)[OF assms(3)] obtain s' where
    "read_frame (rd ops) s = Inr (auth_outcome_encode (AuthOk sig), s')" "pending s' = rest" "sent s' = sent s" by blast
  then show ?thesis using outcome_signature(1)[OF assms(3)] by (simp add: outcome_is_no_token)
qed

lemma gss_loop_token:
  assumes "duplex ops sent pending" and "pending s = token_frame u @ rest" and "token_fits u"
  shows "\<exists>s1. pending s1 = rest \<and> sent s1 = sent s
    \<and> gss_loop (Suc n) ops g (Some h) s = (case gss_step g h u of
          Inl e \<Rightarrow> Inl (Err (Auth e))
        | Inr (Continue nxt t) \<Rightarrow>
            rbind (map_err Io (write_frame (wr ops) s1 (auth_token_encode \<lparr>token = t\<rparr>))) (gss_loop n ops g (Some nxt))
        | Inr (Done (Some t)) \<Rightarrow>
            rbind (map_err Io (write_frame (wr ops) s1 (auth_token_encode \<lparr>token = t\<rparr>))) (gss_loop n ops g None)
        | Inr (Done None) \<Rightarrow> gss_loop n ops g None s1)"
proof -
  from recv_frame[OF assms(1) assms(2)[unfolded token_frame_def] token_roundtrip(2)[OF assms(3)]] obtain s1 where
    "read_frame (rd ops) s = Inr (auth_token_encode \<lparr>token = u\<rparr>, s1)" "pending s1 = rest" "sent s1 = sent s" by blast
  then show ?thesis using token_roundtrip(1)[OF assms(3)] by (intro exI[of _ s1]) simp
qed

lemma send_token:
  assumes "duplex ops sent pending" and "token_fits t"
  shows "\<exists>s'. write_frame (wr ops) s (auth_token_encode \<lparr>token = t\<rparr>) = Inr s'
    \<and> sent s' = sent s @ token_frame t \<and> pending s' = pending s"
  using send_frame[OF assms(1) token_roundtrip(2)[OF assms(2)]] by (simp add: token_frame_def)

text \<open>The loop of the driver is the initiator: it sends the initiator's tokens and stops at the outcome.\<close>

lemma client_step_cases:
  "client_handshake_step L h u = (case client_ctx_step L h u of
     Inl e \<Rightarrow> Inl (Krb5 (krb_text L e)) | Inr (KContinue h' t) \<Rightarrow> Inr (Continue h' t) | Inr (KFinished _ t) \<Rightarrow> Inr (Done t))"
  by (auto simp: client_handshake_step_def krb_err_def split: sum.splits krb_step.splits)

lemma gss_loop_initiates:
  assumes d: "duplex ops sent pending" and sig: "length sig = 32"
  shows "initiates L h us = Some ts \<Longrightarrow> length us < n \<Longrightarrow> (\<forall>t \<in> set us \<union> set ts. token_fits t) \<Longrightarrow>
    pending s = concat (map token_frame us) @ frame_bytes (auth_outcome_encode (AuthOk sig)) @ rest \<Longrightarrow>
    \<exists>s'. gss_loop n ops (gss_wrapper L) h s = Inr s' \<and> pending s' = rest \<and> sent s' = sent s @ concat (map token_frame ts)"
proof (induction L h us arbitrary: ts n s rule: initiates.induct)
  case (1 L h)
  then obtain m where "n = Suc m" by (cases n) auto
  moreover have "h = None" "ts = []" using "1.prems"(1) by (auto split: option.splits)
  ultimately show ?case using gss_loop_outcome[OF d _ sig, of s rest m "gss_wrapper L" None] "1.prems"(4)
    by (simp del: gss_loop.simps)
next
  case (3 L h u us)
  then obtain m where n: "n = Suc m" "length us < m" by (cases n) auto
  have u: "pending s = token_frame u @ concat (map token_frame us) @ frame_bytes (auth_outcome_encode (AuthOk sig)) @ rest"
    "token_fits u" using "3.prems" by auto
  from gss_loop_token[OF d u, of m "gss_wrapper L" h] obtain s1 where s1:
    "pending s1 = concat (map token_frame us) @ frame_bytes (auth_outcome_encode (AuthOk sig)) @ rest" "sent s1 = sent s"
    "gss_loop n ops (gss_wrapper L) (Some h) s = (case gss_step (gss_wrapper L) h u of
          Inl e \<Rightarrow> Inl (Err (Auth e))
        | Inr (Continue nxt t) \<Rightarrow>
            rbind (map_err Io (write_frame (wr ops) s1 (auth_token_encode \<lparr>token = t\<rparr>))) (gss_loop m ops (gss_wrapper L) (Some nxt))
        | Inr (Done (Some t)) \<Rightarrow>
            rbind (map_err Io (write_frame (wr ops) s1 (auth_token_encode \<lparr>token = t\<rparr>))) (gss_loop m ops (gss_wrapper L) None)
        | Inr (Done None) \<Rightarrow> gss_loop m ops (gss_wrapper L) None s1)" unfolding n(1) by blast
  obtain st where st: "client_ctx_step L h u = Inr st" using "3.prems"(1) by (cases "client_ctx_step L h u") auto
  have answered: "\<exists>s'. rbind (map_err Io (write_frame (wr ops) s1 (auth_token_encode \<lparr>token = t\<rparr>))) (gss_loop m ops (gss_wrapper L) c) = Inr s'
      \<and> pending s' = rest \<and> sent s' = sent s @ concat (map token_frame ts)"
    if ts: "ts = t # ts'" and ih: "\<And>s2. pending s2 = pending s1 \<Longrightarrow> \<exists>s'. gss_loop m ops (gss_wrapper L) c s2 = Inr s' \<and> pending s' = rest
      \<and> sent s' = sent s2 @ concat (map token_frame ts')" for c t ts'
  proof -
    have "token_fits t" using "3.prems"(3) ts by simp
    from send_token[OF d this, of s1] obtain s2 where "write_frame (wr ops) s1 (auth_token_encode \<lparr>token = t\<rparr>) = Inr s2"
      "sent s2 = sent s @ token_frame t" "pending s2 = pending s1" using s1(2) by metis
    with ih[of s2] ts show ?thesis by auto
  qed
  show ?case
  proof (cases st)
    case (KContinue h' t)
    then obtain ts' where ts': "initiates L (Some h') us = Some ts'" "ts = t # ts'" using "3.prems"(1) st by auto
    show ?thesis unfolding s1(3) gss_wrapper_simps client_step_cases
      using answered[OF ts'(2), of "Some h'"] "3.IH"(1)[OF st KContinue ts'(1) n(2)] "3.prems"(3) ts'(2) s1(1) st KContinue by simp
  next
    case (KFinished x o')
    show ?thesis
    proof (cases o')
      case None
      with KFinished st "3.prems"(1) have "initiates L None us = Some ts" by simp
      with "3.IH"(2)[OF st KFinished None this n(2), of s1] s1 "3.prems"(3) st KFinished None show ?thesis by (simp add: gss_wrapper_simps client_step_cases)
    next
      case (Some t)
      then obtain ts' where ts': "initiates L None us = Some ts'" "ts = t # ts'" using "3.prems"(1) st KFinished by auto
      show ?thesis unfolding s1(3) gss_wrapper_simps client_step_cases
        using answered[OF ts'(2), of None] "3.IH"(3)[OF st KFinished Some ts'(1) n(2)] "3.prems"(3) ts'(2) s1(1) st KFinished Some by simp
    qed
  qed
qed simp

lemma stream_binding_total: "\<exists>b. stream_binding digest P s = Inr b"
proof -
  have "\<exists>b. tls_server_end_point digest c = Inr b" for c
    using signature_hash_total[of c] by (auto simp: tls_server_end_point_def)
  then show ?thesis by (auto simp: stream_binding_def rbind_eq_Inr split: option.splits)
qed

definition gss_start :: "nat \<Rightarrow> u64 \<Rightarrow> rstr \<Rightarrow> bytes" where
  "gss_start pid n user = auth_start_encode \<lparr>username = user, client_nonce = nonce_text pid n, mechanism = Gssapi\<rparr>"

text \<open>The frames before the loop.\<close>

lemma handshake_gssapi_run:
  assumes d: "duplex (io N) sent pending" and "kerberos N = Some g" and "gss_new g spn (channel_binding N s) = Inr (ctx, t0)"
    and len: "length (gss_start (process_id N) (gss_nonce p) user) \<le> MAX_FRAME_LEN" and "token_fits t0"
  shows "\<exists>s1. handshake_gssapi N user spn s p = (gss_loop (gss_rounds N) (io N) g (Some ctx) s1, p\<lparr>gss_nonce := gss_nonce p + 1\<rparr>)
    \<and> pending s1 = pending s
    \<and> sent s1 = sent s @ frame_bytes (gss_start (process_id N) (gss_nonce p) user) @ token_frame t0"
proof -
  from send_frame[OF d len] obtain s0 where s0: "write_frame (wr (io N)) s (gss_start (process_id N) (gss_nonce p) user) = Inr s0"
    "sent s0 = sent s @ frame_bytes (gss_start (process_id N) (gss_nonce p) user)" "pending s0 = pending s" by blast
  from send_token[OF d assms(5), of s0] obtain s1 where "write_frame (wr (io N)) s0 (auth_token_encode \<lparr>token = t0\<rparr>) = Inr s1"
    "sent s1 = sent s0 @ token_frame t0" "pending s1 = pending s0" by blast
  with s0 assms(2,3) show ?thesis
    by (intro exI[of _ s1]) (simp add: handshake_gssapi_def gss_start_def[symmetric])
qed

section \<open>Properties\<close>

text \<open>A Kerberos login works end to end, through the wrapper, the messages and the framing: when the two sides of the
  library agree (the initiator, fed the acceptor's tokens, answers with tokens that make the acceptor send just
  these), and the server ends with an outcome that accepts, the driver is logged in; it has sent its start message and
  exactly the initiator's tokens, from which a server driven by the wrapper knows the principal.\<close>

lemma kerberos_login:
  assumes "duplex (io N) sent pending" and "kerberos N = Some (gss_wrapper L)"
    and "client_ctx L None spn (channel_binding N s) = Inr (ctx, t0)"
    and "initiates L (Some ctx) us = Some ts" and "accepts_as L acc (t0 # ts) = Some (us, princ)"
    and "length (gss_start (process_id N) (gss_nonce p) user) \<le> MAX_FRAME_LEN"
    and "\<forall>t \<in> set (t0 # us @ ts). token_fits t" and "length us < gss_rounds N" and "length sig = 32"
    and "pending s = concat (map token_frame us) @ frame_bytes (auth_outcome_encode (AuthOk sig)) @ rest"
  shows "\<exists>s' p' frames. handshake_gssapi N user spn s p = (Inr s', p') \<and> pending s' = rest
    \<and> sent s' = sent s @ frame_bytes (gss_start (process_id N) (gss_nonce p) user) @ concat (map frame_bytes frames)
    \<and> serve L acc (map (\<lambda>f. case auth_token_decode f of Inr t \<Rightarrow> token t | Inl _ \<Rightarrow> []) frames) = Some (us, princ)"
proof -
  have new: "gss_new (gss_wrapper L) spn (channel_binding N s) = Inr (ctx, t0)" by (simp add: gss_wrapper_simps client_handshake_new_def krb_err_def assms(3))
  from handshake_gssapi_run[OF assms(1,2) new assms(6)] assms(7) obtain s1 where s1:
    "handshake_gssapi N user spn s p = (gss_loop (gss_rounds N) (io N) (gss_wrapper L) (Some ctx) s1, p\<lparr>gss_nonce := gss_nonce p + 1\<rparr>)"
    "pending s1 = pending s" "sent s1 = sent s @ frame_bytes (gss_start (process_id N) (gss_nonce p) user) @ token_frame t0" by auto
  from gss_loop_initiates[OF assms(1,9,4,8), of s1 rest] assms(7,10) s1(2) obtain s' where
    s': "gss_loop (gss_rounds N) (io N) (gss_wrapper L) (Some ctx) s1 = Inr s'" "pending s' = rest"
    "sent s' = sent s1 @ concat (map token_frame ts)" by auto
  let ?fs = "map (\<lambda>t. auth_token_encode \<lparr>token = t\<rparr>) (t0 # ts)"
  have "map (\<lambda>f. case auth_token_decode f of Inr t \<Rightarrow> token t | Inl _ \<Rightarrow> []) ?fs = t0 # ts"
    using token_roundtrip(1) assms(7) by (auto simp: map_idI)
  moreover have "token_frame t0 @ concat (map token_frame ts) = concat (map frame_bytes ?fs)"
    by (simp add: token_frame_def[abs_def] comp_def)
  ultimately show ?thesis using s1 s' assms(5)[folded serve_accepts] by (intro exI[of _ s'] exI[of _ "p\<lparr>gss_nonce := gss_nonce p + 1\<rparr>"] exI[of _ ?fs]) simp
qed

text \<open>C32: A Kerberos login inside TLS, from the sockets up: whatever way the session splits reads and writes, the driver binds its
  context to the certificate the server showed, with the hash of that certificate's signature algorithm, and when the two
  sides of the library agree on that binding and the server accepts, the driver is logged in; the server has read the start
  message and exactly the initiator's tokens, from which a server driven by the wrapper knows the principal, and the
  next answer is the next thing to read.\<close>

theorem kerberos_over_tls:
  assumes "byte_stream (socket P) sent_p pend_p" and "byte_stream (client_tls P) sent_c pend_c" and "byte_stream (server_tls P) sent_v pend_v"
    and "io N = std_io (net_ops P)" and "channel_binding N = binding_of digest P" and "kerberos N = Some (gss_wrapper L)"
    and "client_peer P x = Some (cert # chain)" and "signature_hash cert = Inr h"
    and "client_ctx L None spn (Some (of_str ''tls-server-end-point:'' @ digest h cert)) = Inr (ctx, t0)"
    and "initiates L (Some ctx) us = Some ts" and "accepts_as L acc (t0 # ts) = Some (us, princ)"
    and "length (gss_start (process_id N) (gss_nonce p) user) \<le> MAX_FRAME_LEN"
    and "\<forall>t \<in> set (t0 # us @ ts). token_fits t" and "length us < gss_rounds N" and "length sig = 32"
    and "pend_c x = concat (map token_frame us) @ frame_bytes (auth_outcome_encode (AuthOk sig)) @ rest"
  shows "\<exists>s' p' frames. handshake_gssapi N user spn (ClientTls x) p = (Inr s', p') \<and> by_kind pend_p pend_c pend_v s' = rest
    \<and> by_kind sent_p sent_c sent_v s' = sent_c x @ frame_bytes (gss_start (process_id N) (gss_nonce p) user) @ concat (map frame_bytes frames)
    \<and> serve L acc (map (\<lambda>f. case auth_token_decode f of Inr t \<Rightarrow> token t | Inl _ \<Rightarrow> []) frames) = Some (us, princ)"
proof -
  have d: "duplex (io N) (by_kind sent_p sent_c sent_v) (by_kind pend_p pend_c pend_v)"
    unfolding assms(4) by (rule byte_stream.std_io_duplex[OF net_sockets.stream_byte_stream[OF net_sockets.intro[OF assms(1-3)]]])
  have b: "channel_binding N (ClientTls x) = Some (of_str ''tls-server-end-point:'' @ digest h cert)"
    using assms(7,8) by (simp add: assms(5) binding_of_def stream_binding_def peer_certificate_der_def first_of_def tls_server_end_point_def)
  from kerberos_login[OF d assms(6) assms(9)[folded b] assms(10-15), of rest] assms(16) show ?thesis by (simp add: by_kind_def)
qed

text \<open>C35: The driver does not ask that the context is established: a server that answers the first token with an outcome that
  accepts is believed, whatever the mechanism and without a single token of the server, so a Kerberos login
  does not show the driver who the server is.\<close>

theorem kerberos_server_unproved:
  assumes "duplex (io N) sent pending" and "kerberos N = Some g" and "gss_new g spn (channel_binding N s) = Inr (ctx, t0)"
    and "length (gss_start (process_id N) (gss_nonce p) user) \<le> MAX_FRAME_LEN" and "token_fits t0" and "0 < gss_rounds N" and "length sig = 32"
    and "pending s = frame_bytes (auth_outcome_encode (AuthOk sig)) @ rest"
  shows "\<exists>s'. handshake_gssapi N user spn s p = (Inr s', p\<lparr>gss_nonce := gss_nonce p + 1\<rparr>) \<and> pending s' = rest"
proof -
  from handshake_gssapi_run[OF assms(1-5)] obtain s1 where s1:
    "handshake_gssapi N user spn s p = (gss_loop (gss_rounds N) (io N) g (Some ctx) s1, p\<lparr>gss_nonce := gss_nonce p + 1\<rparr>)"
    "pending s1 = pending s" by blast
  obtain n where "gss_rounds N = Suc n" using assms(6) by (cases "gss_rounds N") auto
  with gss_loop_outcome[OF assms(1) _ assms(7), of s1 rest n g "Some ctx"] s1 assms(8) show ?thesis by (metis)
qed

text \<open>Over TLS the context is bound to the certificate the server showed, with the hash of its signature algorithm;
  without one, as over plain TCP, it is unbound. Computing the binding never panics.\<close>

theorem stream_binding_cases:
  "stream_binding digest P s = Inr (binding_of digest P s)
   \<and> (binding_of digest P s = None \<longleftrightarrow> peer_certificate_der P s = None)
   \<and> binding_of digest P (Plain x) = None"
  using stream_binding_total[of digest P s]
  by (auto simp: binding_of_def stream_binding_def peer_certificate_der_def rbind_eq_Inr split: option.splits)

text \<open>A mechanism of three tokens for the witnesses: the acceptor answers the first token with a challenge and is
  done at the second.\<close>

definition sample_krb5 :: "(unit, unit, nat, unit, unit) krb5_lib" where
  "sample_krb5 = \<lparr>client_ctx = (\<lambda>_ _ _. Inr ((), [1])), client_ctx_step = (\<lambda>_ _. Inr (KFinished () (Some [3]))),
     server_ctx = (\<lambda>_ _ _. Inr 0), server_ctx_step = (\<lambda>n t. if n = 0 then Inr (KContinue 1 [2]) else Inr (KFinished () None)),
     ctx_client = (\<lambda>_. Inr [0x75]), krb_text = (\<lambda>_. [])\<rparr>"

definition sample_parts :: "(bytes \<times> bytes, bytes \<times> bytes, bytes \<times> bytes) net_parts" where
  "sample_parts = (slow_parts 2)\<lparr>client_peer := (\<lambda>_. Some [[]])\<rparr>"

definition sample_net :: "(unit, unit, (bytes \<times> bytes, bytes \<times> bytes, bytes \<times> bytes) net_stream, unit) net_ops" where
  "sample_net = \<lparr>io = std_io (net_ops sample_parts), tcp_connect = (\<lambda>_ w. (Inl (Err UnexpectedEof), w)),
     connect_tls = (\<lambda>_ _. Inl (Err UnexpectedEof)), plain = (\<lambda>_. Plain ([], [])), channel_binding = binding_of (\<lambda>_ _. [5]) sample_parts,
     kerberos = Some (gss_wrapper sample_krb5), gss_rounds = 2, process_id = 7\<rparr>"

lemma sample_sockets:
  "byte_stream (socket sample_parts) fst snd" "byte_stream (client_tls sample_parts) fst snd" "byte_stream (server_tls sample_parts) fst snd"
  using slow.byte_stream_axioms[of 2] by (simp_all add: sample_parts_def slow_parts_def)

lemma sample_hash: "signature_hash [] = Inr Sha256"
  by (simp add: signature_hash_def signature_oid_def tlv_def byte_at_def)

lemma sample_start: "length (gss_start 7 0 [0x75]) \<le> MAX_FRAME_LEN"
  by (simp add: gss_start_def MAX_FRAME_LEN_def auth_start_encode_def put_str_def put_bytes_def nonce_text_def of_str_def show_nat.simps)

theorem kerberos_over_tls_witness:
  "\<exists>s' p' frames. handshake_gssapi sample_net [0x75] [0x73]
      (ClientTls ([], token_frame [2] @ frame_bytes (auth_outcome_encode (AuthOk (replicate 32 0))))) sample_process = (Inr s', p')
    \<and> by_kind snd snd snd s' = []
    \<and> by_kind fst fst fst s' = frame_bytes (gss_start 7 0 [0x75]) @ concat (map frame_bytes frames)
    \<and> serve sample_krb5 0 (map (\<lambda>f. case auth_token_decode f of Inr t \<Rightarrow> token t | Inl _ \<Rightarrow> []) frames) = Some ([[2]], [0x75])"
proof -
  have n: "io sample_net = std_io (net_ops sample_parts)" "channel_binding sample_net = binding_of (\<lambda>_ _. [5]) sample_parts"
    "kerberos sample_net = Some (gss_wrapper sample_krb5)" "process_id sample_net = 7" "gss_rounds sample_net = 2"
    "gss_nonce sample_process = 0" "client_peer sample_parts x = Some [[]]" for x
    by (simp_all add: sample_net_def sample_process_def sample_parts_def)
  have k: "client_ctx sample_krb5 a b c = Inr ((), [1])" "initiates sample_krb5 (Some ()) [[2]] = Some [[3]]"
    "accepts_as sample_krb5 0 [[1], [3]] = Some ([[2]], [0x75])" for a b c
    by (simp_all add: sample_krb5_def)
  from kerberos_over_tls[OF sample_sockets n(1-3), of "([], token_frame [2] @ frame_bytes (auth_outcome_encode (AuthOk (replicate 32 0))))"
      "[]" "[]" Sha256 "[0x73]" "()" "[1]" "[[2]]" "[[3]]" 0 "[0x75]" sample_process "[0x75]" "replicate 32 0" "[]"]
  show ?thesis using n(4-7) k sample_start sample_hash by (simp add: token_fits_def MAX_FRAME_LEN_def)
qed

theorem kerberos_server_unproved_witness:
  "\<exists>s'. handshake_gssapi sample_net [0x75] [0x73] (ClientTls ([], frame_bytes (auth_outcome_encode (AuthOk (replicate 32 0))))) sample_process
    = (Inr s', sample_process\<lparr>gss_nonce := 1\<rparr>)"
proof -
  have d: "duplex (io sample_net) (by_kind fst fst fst) (by_kind snd snd snd)"
    unfolding sample_net_def using byte_stream.std_io_duplex[OF net_sockets.stream_byte_stream[OF net_sockets.intro[OF sample_sockets]]] by simp
  from kerberos_server_unproved[OF d, of "gss_wrapper sample_krb5" "[0x73]" "ClientTls ([], frame_bytes (auth_outcome_encode (AuthOk (replicate 32 0))))"
      "()" "[1]" sample_process "[0x75]" "replicate 32 0" "[]"] sample_start
  show ?thesis by (auto simp: sample_net_def sample_krb5_def sample_process_def client_handshake_new_def gss_wrapper_simps
        krb_err_def token_fits_def MAX_FRAME_LEN_def by_kind_def)
qed

end
