(* ===== verification/Server_Log.thy ===== *)
theory Server_Log
  imports Text "HOL-Library.Signed_Division"
begin

text \<open>
  The server log (\<^verbatim>\<open>skaidb-types/src/slog.rs\<close>): the timestamp of a line, computed without a calendar library,
  the digits it is printed with, and the process-wide sink and observer. Wall time is an argument. The
  arithmetic on \<^verbatim>\<open>i64\<close> is on \<open>int\<close>, with \<^verbatim>\<open>/\<close> and \<^verbatim>\<open>%\<close> as \<open>sdiv\<close> and \<open>smod\<close>; \<open>civil_bounds\<close> bounds what it
  computes.
\<close>

section \<open>Digits\<close>

text \<open>Digits are written from the end of a buffer of 20 bytes; \<open>i\<close> is the position of the last one written.\<close>

function digit_loop :: "nat \<Rightarrow> nat \<Rightarrow> bytes \<Rightarrow> ('e, nat \<times> bytes) res" where
  "digit_loop v i buf =
    (if i = 0 then Inl (Panic ''attempt to subtract with overflow'')
     else let i = i - 1; buf = buf[i := 0x30 + word_of_nat (v mod 10)]; v = v div 10
          in if v = 0 then Inr (i, buf) else digit_loop v i buf)"
  by pat_completeness auto
termination by (relation "measure (\<lambda>(v, i, buf). i)") auto

declare digit_loop.simps [simp del]

definition push_u64 :: "rstr \<Rightarrow> u64 \<Rightarrow> ('e, rstr) res" where
  "push_u64 out n = rbind (digit_loop (unat n) 20 (replicate 20 0x30)) (\<lambda>(i, buf). Inr (out @ drop i buf))"

text \<open>The fixed-width digits of the short path: \<open>div\<close> runs over the powers of ten below the width.\<close>

primrec fixed_digits :: "nat \<Rightarrow> nat \<Rightarrow> rstr" where
  "fixed_digits 0 v = []"
| "fixed_digits (Suc w) v = (0x30 + word_of_nat (v div 10 ^ w mod 10)) # fixed_digits w v"

definition push_padded :: "rstr \<Rightarrow> int \<Rightarrow> nat \<Rightarrow> ('e, rstr) res" where
  "push_padded out n width =
    (if n \<ge> 0 \<and> 1 \<le> width \<and> width \<le> 4 \<and> nat n < 10 ^ width then Inr (out @ fixed_digits width (nat n))
     else
       let out = (if n < 0 then out @ [0x2D] else out) in
       rbind (digit_loop (nat \<bar>n\<bar>) 20 (replicate 20 0x30)) (\<lambda>(i, buf).
       if width > 20 then Inl (Panic ''attempt to subtract with overflow'')
       else Inr (out @ drop (min i (20 - width)) buf)))"

section \<open>The date of a day\<close>

definition civil :: "int \<Rightarrow> int \<times> int \<times> int" where
  "civil days =
    (let z = days + 719468;
         era = (if z \<ge> 0 then z else z - 146096) sdiv 146097;
         doe = z - era * 146097;
         yoe = (doe - doe sdiv 1460 + doe sdiv 36524 - doe sdiv 146096) sdiv 365;
         y = yoe + era * 400;
         doy = doe - (365 * yoe + yoe sdiv 4 - yoe sdiv 100);
         mp = (5 * doy + 2) sdiv 153;
         d = doy - (153 * mp + 2) sdiv 5 + 1;
         m = (if mp < 10 then mp + 3 else mp - 9)
     in ((if m \<le> 2 then y + 1 else y), m, d))"

definition log_timestamp_into :: "rstr \<Rightarrow> int \<Rightarrow> ('e, rstr) res" where
  "log_timestamp_into out ms =
    (let days = ms div 86400000; rest = ms mod 86400000; (y, m, d) = civil days;
         secs = rest sdiv 1000; ms_part = rest smod 1000;
         hh = secs sdiv 3600; mm = (secs smod 3600) sdiv 60; ss = secs smod 60 in
     rbind (push_padded out y 4) (\<lambda>out.
     rbind (push_padded (out @ of_str ''-'') m 2) (\<lambda>out.
     rbind (push_padded (out @ of_str ''-'') d 2) (\<lambda>out.
     rbind (push_padded (out @ of_str ''T'') hh 2) (\<lambda>out.
     rbind (push_padded (out @ of_str '':'') mm 2) (\<lambda>out.
     rbind (push_padded (out @ of_str '':'') ss 2) (\<lambda>out.
     rbind (push_padded (out @ of_str ''.'') ms_part 3) (\<lambda>out.
     Inr (out @ of_str ''Z'')))))))))"

definition log_timestamp :: "int \<Rightarrow> ('e, rstr) res" where
  "log_timestamp ms = log_timestamp_into [] ms"

section \<open>The log\<close>

datatype sink = Stderr | File rstr

record 'o log_state =
  server_log_sink :: "sink option"
  log_observer :: "'o option"
  seen :: "('o \<times> rstr) list"
  file_text :: "rstr \<Rightarrow> rstr"
  stderr_text :: rstr

definition set_log_observer :: "'o \<Rightarrow> 'o log_state \<Rightarrow> 'o log_state" where
  "set_log_observer f s = (case log_observer s of None \<Rightarrow> s\<lparr>log_observer := Some f\<rparr> | Some _ \<Rightarrow> s)"

text \<open>\<open>opened\<close> is the outcome of opening the file for appending, an error with its text.\<close>

definition init_server_log :: "(rstr, unit) res \<Rightarrow> rstr \<Rightarrow> 'o log_state \<Rightarrow> 'o log_state" where
  "init_server_log opened path s =
    (let (chosen, s) =
       (if path = [] then (Stderr, s)
        else case opened of
          Inr _ \<Rightarrow> (File path, s)
        | Inl (Err e) \<Rightarrow> (Stderr, s\<lparr>stderr_text := stderr_text s @ of_str ''skaidb: cannot open log file '' @ path @ of_str '': '' @ e
            @ of_str ''; logging to stderr instead'' @ [0x0A]\<rparr>)
        | Inl _ \<Rightarrow> (Stderr, s))
     in case server_log_sink s of None \<Rightarrow> s\<lparr>server_log_sink := Some chosen\<rparr> | Some _ \<Rightarrow> s)"

text \<open>Writing is best effort: \<open>wrote\<close> is how many bytes of the line the file takes.\<close>

definition server_log :: "int \<Rightarrow> nat \<Rightarrow> rstr \<Rightarrow> 'o log_state \<Rightarrow> ('e, 'o log_state) res" where
  "server_log ms wrote msg s =
    (let s = (case log_observer s of Some f \<Rightarrow> s\<lparr>seen := seen s @ [(f, msg)]\<rparr> | None \<Rightarrow> s) in
     rbind (log_timestamp ms) (\<lambda>ts.
     let line = ts @ of_str '' '' @ msg @ [0x0A] in
     case server_log_sink s of
       Some (File p) \<Rightarrow> Inr (s\<lparr>file_text := (file_text s)(p := file_text s p @ take wrote line)\<rparr>)
     | _ \<Rightarrow> Inr (s\<lparr>stderr_text := stderr_text s @ line\<rparr>)))"

section \<open>Digits: lemmas\<close>

lemma dec_char_word: "d < 10 \<Longrightarrow> 0x30 + word_of_nat d = dec_char d"
  by (simp add: dec_char_def)

lemma digit_loop_show:
  "v < 10 ^ i \<Longrightarrow> 0 < i \<Longrightarrow> i \<le> length buf \<Longrightarrow>
   \<exists>j buf'. (digit_loop v i buf :: ('e, nat \<times> bytes) res) = Inr (j, buf') \<and> j + length (show_nat v) = i
     \<and> buf' = take j buf @ show_nat v @ drop i buf"
proof (induction v i buf rule: digit_loop.induct)
  case (1 v i buf)
  let ?c = "dec_char (v mod 10)" and ?i = "i - 1"
  have c: "0x30 + word_of_nat (v mod 10) = ?c" by (rule dec_char_word) simp
  have cut: "buf[?i := ?c] = take ?i buf @ ?c # drop i buf"
    using 1(3,4) by (simp add: upd_conv_take_nth_drop)
  show ?case
  proof (cases "v < 10")
    case True
    then show ?thesis using 1(3,4) c cut by (subst digit_loop.simps) (simp add: Let_def show_nat_small)
  next
    case False
    have lt: "v div 10 < 10 ^ ?i" using 1(2,3) by (simp add: less_mult_imp_div_less power_eq_if)
    have le: "?i \<le> length buf" using 1(4) by simp
    have i1: "0 < ?i" using lt False by (cases "?i = 0") auto
    have nz: "v div 10 \<noteq> 0" using False by (simp add: div_eq_0_iff)
    have step: "(digit_loop v i buf :: ('e, nat \<times> bytes) res) = digit_loop (v div 10) ?i (buf[?i := ?c])"
      using nz 1(3) c by (subst digit_loop.simps) (simp add: Let_def)
    have "\<exists>j buf'. (digit_loop (v div 10) ?i (buf[?i := ?c]) :: ('e, nat \<times> bytes) res) = Inr (j, buf') \<and> j + length (show_nat (v div 10)) = ?i
       \<and> buf' = take j (buf[?i := ?c]) @ show_nat (v div 10) @ drop ?i (buf[?i := ?c])"
      using 1(1)[OF _ refl refl refl] 1(3,4) le lt i1 nz c by simp
    then obtain j buf' where j: "(digit_loop v i buf :: ('e, nat \<times> bytes) res) = Inr (j, buf')" "j + length (show_nat (v div 10)) = ?i"
      "buf' = take j (buf[?i := ?c]) @ show_nat (v div 10) @ drop ?i (buf[?i := ?c])" using step by auto
    have "drop ?i (buf[?i := ?c]) = ?c # drop i buf" using 1(3,4) cut by simp
    moreover have "take j (buf[?i := ?c]) = take j buf" using j(2) by (simp add: take_update_cancel)
    ultimately show ?thesis
      using j False 1(3) by (auto simp: show_nat.simps[of v])
  qed
qed

lemma digit_loop_u64:
  assumes "v < 10 ^ 20"
  shows "\<exists>j. digit_loop v 20 (replicate 20 0x30) = Inr (j, replicate j 0x30 @ show_nat v) \<and> j + length (show_nat v) = 20"
  using digit_loop_show[OF assms, of "replicate 20 0x30"] by (auto simp: min_def)

lemma length_fixed_digits [simp]: "length (fixed_digits w v) = w"
  by (induction w) simp_all

lemma fixed_digits_snoc:
  "fixed_digits (Suc w) v = fixed_digits w (v div 10) @ [dec_char (v mod 10)]"
proof (induction w)
  case (Suc w)
  have "v div 10 ^ Suc w = v div 10 div 10 ^ w" by (simp add: div_mult2_eq)
  with Suc show ?case by simp
qed (simp add: dec_char_word)

text \<open>The digits of \<open>n\<close>, padded with zeros on the left to \<open>width\<close>.\<close>

definition padded :: "nat \<Rightarrow> nat \<Rightarrow> rstr" where
  "padded width n = replicate (width - length (show_nat n)) 0x30 @ show_nat n"

lemma fixed_digits_padded: "0 < w \<Longrightarrow> n < 10 ^ w \<Longrightarrow> fixed_digits w n = padded w n"
proof (induction w arbitrary: n)
  case (Suc w)
  show ?case
  proof (cases "w = 0")
    case True
    then show ?thesis using Suc.prems by (simp add: padded_def show_nat_small dec_char_word)
  next
    case False
    have "n div 10 < 10 ^ w" using Suc.prems(2) by (simp add: less_mult_imp_div_less)
    then have "fixed_digits (Suc w) n = padded w (n div 10) @ [dec_char (n mod 10)]"
      using Suc.IH False fixed_digits_snoc by simp
    also have "\<dots> = padded (Suc w) n"
    proof (cases "n < 10")
      case True
      have "replicate (w - Suc 0) (0x30 :: u8) @ [dec_char 0] = replicate w 0x30"
        using False by (cases w) (simp_all add: dec_char_def replicate_append_same)
      then show ?thesis using True False by (simp add: padded_def show_nat_small)
    qed (simp add: padded_def show_nat.simps[of n])
    finally show ?thesis .
  qed
qed simp

lemma push_padded_show:
  assumes "0 \<le> n" and "n < 2 ^ 63" and "0 < w" and "w \<le> 20"
  shows "(push_padded out n w :: ('e, rstr) res) = Inr (out @ padded w (nat n))"
proof (cases "w \<le> 4 \<and> nat n < 10 ^ w")
  case True
  then show ?thesis using assms fixed_digits_padded by (simp add: push_padded_def)
next
  case False
  have "nat n < 10 ^ 20" using assms(1,2) by simp
  then obtain j where "(digit_loop (nat n) 20 (replicate 20 0x30) :: ('e, nat \<times> bytes) res) = Inr (j, replicate j 0x30 @ show_nat (nat n))"
    "j + length (show_nat (nat n)) = 20" using digit_loop_u64 by blast
  moreover have "drop (min j (20 - w)) (replicate j 0x30) = replicate (w - length (show_nat (nat n))) (0x30 :: u8)"
    using calculation(2) assms(4) by (auto simp: min_def intro: arg_cong[where f = "\<lambda>k. replicate k (0x30 :: u8)"])
  ultimately show ?thesis
    using False assms by (auto simp: push_padded_def Let_def padded_def)
qed

section \<open>The calendar\<close>

definition leap :: "int \<Rightarrow> bool" where
  "leap y \<longleftrightarrow> y mod 4 = 0 \<and> (y mod 100 \<noteq> 0 \<or> y mod 400 = 0)"

definition days_in_month :: "int \<Rightarrow> int \<Rightarrow> int" where
  "days_in_month y m = (if m = 2 then (if leap y then 29 else 28) else if m \<in> {4, 6, 9, 11} then 30 else 31)"

definition next_date :: "int \<times> int \<times> int \<Rightarrow> int \<times> int \<times> int" where
  "next_date = (\<lambda>(y, m, d). if d < days_in_month y m then (y, m, d + 1) else if m < 12 then (y, m + 1, 1) else (y + 1, 1, 1))"

lemma sdiv_nonneg: "0 \<le> a \<Longrightarrow> 0 < b \<Longrightarrow> a sdiv b = a div (b :: int)"
  by (cases "a = 0") (simp_all add: signed_divide_int_def)

lemma smod_nonneg: "0 \<le> a \<Longrightarrow> 0 < b \<Longrightarrow> a smod b = a mod (b :: int)"
  by (cases "a = 0") (simp_all add: signed_modulo_int_def)

lemma era_floor: "(if z \<ge> 0 then z else z - 146096) sdiv 146097 = z div (146097 :: int)"
proof (cases "z \<ge> 0")
  case False
  let ?q = "(146096 - z) div 146097" and ?r = "(146096 - z) mod 146097"
  have "146096 - z = 146097 * ?q + ?r" by simp
  then have z: "z = 146097 * (- ?q) + (146096 - ?r)" by linarith
  have "0 \<le> ?r" "?r < 146097" by simp_all
  then have "0 \<le> 146096 - ?r" "146096 - ?r < 146097" by linarith+
  from int_div_pos_eq[OF z this] have "z div 146097 = - ?q" .
  moreover have "(z - 146096) sdiv 146097 = - ?q" using False by (simp add: signed_divide_int_def)
  ultimately show ?thesis using False by simp
qed (simp add: sdiv_nonneg)

text \<open>Years that start in March: the days before the year \<open>y\<close>, and the date of a day of that year.\<close>

definition year_start :: "int \<Rightarrow> int" where
  "year_start y = 365 * y + y div 4 - y div 100 + y div 400"

definition month_day :: "int \<Rightarrow> int \<times> int" where
  "month_day doy = (let mp = (5 * doy + 2) div 153 in (if mp < 10 then mp + 3 else mp - 9, doy - (153 * mp + 2) div 5 + 1))"

definition date_of :: "int \<Rightarrow> int \<Rightarrow> int \<times> int \<times> int" where
  "date_of y t = (let (m, d) = month_day t in (if m \<le> 2 then y + 1 else y, m, d))"

definition day_of_year :: "int \<Rightarrow> int \<Rightarrow> bool" where
  "day_of_year y t \<longleftrightarrow> 0 \<le> t \<and> (t \<le> 364 \<or> t = 365 \<and> leap (y + 1))"

lemma div_succ: "0 < (k :: int) \<Longrightarrow> (y + 1) div k = y div k + (if (y + 1) mod k = 0 then 1 else 0)"
proof -
  assume k: "0 < k"
  have y: "y = k * (y div k) + y mod k" "0 \<le> y mod k" "y mod k < k" using k by simp_all
  show ?thesis
  proof (cases "y mod k + 1 = k")
    case True
    then have "y + 1 = k * (y div k) + k" using y(1) by linarith
    then have "y + 1 = k * (y div k + 1)" by (simp add: distrib_left)
    then show ?thesis using k by simp
  next
    case False
    have e: "y + 1 = k * (y div k) + (y mod k + 1)" using y(1) by linarith
    have b: "0 \<le> y mod k + 1" "y mod k + 1 < k" using y False by linarith+
    from int_div_pos_eq[OF e b] int_mod_pos_eq[OF e b] show ?thesis using y(2) by simp
  qed
qed

lemma year_start_succ: "year_start (y + 1) = year_start y + (if leap (y + 1) then 366 else 365)"
proof -
  define a b c where abc: "a \<longleftrightarrow> (y + 1) mod 4 = 0" "b \<longleftrightarrow> (y + 1) mod 100 = 0" "c \<longleftrightarrow> (y + 1) mod 400 = 0"
  have imp: "b \<longrightarrow> a" "c \<longrightarrow> b"
    using dvd_trans[of 4 100 "y + 1"] dvd_trans[of 100 400 "y + 1"] unfolding abc dvd_eq_mod_eq_0[symmetric] by auto
  have D: "(y + 1) div 4 = y div 4 + (if a then 1 else 0)" "(y + 1) div 100 = y div 100 + (if b then 1 else 0)"
    "(y + 1) div 400 = y div 400 + (if c then 1 else 0)" unfolding abc by (rule div_succ, simp)+
  have L: "leap (y + 1) \<longleftrightarrow> a \<and> (\<not> b \<or> c)" unfolding abc leap_def by simp
  have "p' = p + (if a then 1 else 0) \<Longrightarrow> q' = q + (if b then 1 else 0) \<Longrightarrow> r' = r + (if c then 1 else 0) \<Longrightarrow>
      365 * (y + 1) + p' - q' + r' = 365 * y + p - q + r + (if a \<and> (\<not> b \<or> c) then 366 else 365)" for p p' q q' r r' :: int
    using imp by (cases a; cases b; cases c) simp_all
  from this[OF D] show ?thesis unfolding year_start_def L .
qed

lemma day_exists: "\<exists>y t. z = year_start y + t \<and> day_of_year y t"
proof (induction z rule: int_induct[where k = 0])
  case base
  show ?case by (rule exI[of _ 0], rule exI[of _ 0]) (simp add: year_start_def day_of_year_def)
next
  case (step1 z)
  then obtain y t where z: "z = year_start y + t" "day_of_year y t" by blast
  show ?case
  proof (cases "day_of_year y (t + 1)")
    case True
    with z show ?thesis by (metis add.assoc)
  next
    case False
    with z have "z + 1 = year_start (y + 1) + 0" by (auto simp: day_of_year_def year_start_succ)
    moreover have "day_of_year (y + 1) 0" by (simp add: day_of_year_def)
    ultimately show ?thesis by blast
  qed
next
  case (step2 z)
  then obtain y t where z: "z = year_start y + t" "day_of_year y t" by blast
  show ?case
  proof (cases "t = 0")
    case False
    with z have "z - 1 = year_start y + (t - 1)" "day_of_year y (t - 1)" by (auto simp: day_of_year_def)
    then show ?thesis by blast
  next
    case True
    with z year_start_succ[of "y - 1"]
    have "z - 1 = year_start (y - 1) + (if leap y then 365 else 364)" by simp
    moreover have "day_of_year (y - 1) (if leap y then 365 else 364)" by (simp add: day_of_year_def)
    ultimately show ?thesis by blast
  qed
qed

lemma month_table:
  assumes "0 \<le> t" and "t \<le> 365"
  shows "month_day t =
    (if t < 31 then (3, t + 1) else if t < 61 then (4, t - 30) else if t < 92 then (5, t - 60) else if t < 122 then (6, t - 91)
     else if t < 153 then (7, t - 121) else if t < 184 then (8, t - 152) else if t < 214 then (9, t - 183) else if t < 245 then (10, t - 213)
     else if t < 275 then (11, t - 244) else if t < 306 then (12, t - 274) else if t < 337 then (1, t - 305) else (2, t - 336))"
proof -
  have mp: "(5 * t + 2) div 153 = i" if "153 * i \<le> 5 * t + 2" "5 * t + 2 < 153 * i + 153" for i
    by (rule int_div_pos_eq[of _ _ _ "5 * t + 2 - 153 * i"]) (use that in auto)
  show ?thesis
    unfolding month_day_def Let_def using assms
    by (simp add: mp[of 0] mp[of 1] mp[of 2] mp[of 3] mp[of 4] mp[of 5] mp[of 6] mp[of 7] mp[of 8] mp[of 9] mp[of 10] mp[of 11])
qed

lemma date_of_next:
  assumes "day_of_year y t"
  shows "next_date (date_of y t) = (if day_of_year y (t + 1) then date_of y (t + 1) else date_of (y + 1) 0)"
proof -
  have t: "0 \<le> t" "t \<le> 365" using assms by (auto simp: day_of_year_def)
  have t1: "t + 1 \<le> 365" if "day_of_year y (t + 1)" using that by (auto simp: day_of_year_def)
  have d0: "date_of (y + 1) 0 = (y + 1, 3, 1)" by (simp add: date_of_def month_table)
  show ?thesis
  proof (cases "day_of_year y (t + 1)")
    case True
    then show ?thesis using t t1[OF True] assms
      by (simp add: date_of_def month_table next_date_def days_in_month_def day_of_year_def) auto
  next
    case False
    with assms have "t = 365 \<and> leap (y + 1) \<or> t = 364 \<and> \<not> leap (y + 1)" by (auto simp: day_of_year_def)
    then show ?thesis using d0 False by (auto simp: date_of_def month_table next_date_def days_in_month_def)
  qed
qed

lemma civil_era:
  fixes c a b t :: int
  assumes "0 \<le> c" "c \<le> 3" "0 \<le> a" "a \<le> 24" "0 \<le> b" "b \<le> 3" "0 \<le> t"
    and t: "t \<le> 364 \<or> t = 365 \<and> b = 3 \<and> (a \<noteq> 24 \<or> c = 3)"
  defines "doe \<equiv> 36524 * c + 1461 * a + 365 * b + t"
  shows "(doe - doe div 1460 + doe div 36524 - doe div 146096) div 365 = 100 * c + 4 * a + b" and "0 \<le> doe" and "doe < 146097"
proof -
  show "0 \<le> doe" "doe < 146097" using assms(1-7) t unfolding doe_def by auto
  have "doe div 36524 - doe div 146096 = c"
  proof (cases "doe = 146096")
    case True
    then have "c = 3" using assms(1-7) t unfolding doe_def by auto
    with True show ?thesis by simp
  next
    case False
    have "doe div 36524 = c"
      by (rule int_div_pos_eq[of _ _ _ "1461 * a + 365 * b + t"]) (use assms(1-7) t False in \<open>auto simp: doe_def\<close>)
    moreover have "doe div 146096 = 0" using \<open>0 \<le> doe\<close> \<open>doe < 146097\<close> False by simp
    ultimately show ?thesis by simp
  qed
  moreover have "(doe - q + c) div 365 = 100 * c + 4 * a + b" if q: "q = doe div 1460" for q
  proof (cases "24 * c + a + 365 * b + t < 1460")
    case True
    have "doe div 1460 = 25 * c + a"
      by (rule int_div_pos_eq[of _ _ _ "24 * c + a + 365 * b + t"]) (use assms(1-7) True in \<open>auto simp: doe_def\<close>)
    then have "doe - q + c = 365 * (100 * c + 4 * a + b) + t" unfolding q doe_def by simp
    then show ?thesis by (rule int_div_pos_eq) (use assms(1-7) t True in auto)
  next
    case False
    have "doe div 1460 = 25 * c + a + 1"
      by (rule int_div_pos_eq[of _ _ _ "24 * c + a + 365 * b + t - 1460"]) (use assms(1-7) t False in \<open>auto simp: doe_def\<close>)
    then have "doe - q + c = 365 * (100 * c + 4 * a + b) + (t - 1)" unfolding q doe_def by simp
    then show ?thesis by (rule int_div_pos_eq) (use assms(1-7) t False in auto)
  qed
  ultimately show "(doe - doe div 1460 + doe div 36524 - doe div 146096) div 365 = 100 * c + 4 * a + b"
    by (smt (verit))
qed

lemma leap_digits:
  fixes e c a b :: int
  assumes "0 \<le> c" "c \<le> 3" "0 \<le> a" "a \<le> 24" "0 \<le> b" "b \<le> 3"
  shows "leap (400 * e + 100 * c + 4 * a + b + 1) \<longleftrightarrow> b = 3 \<and> (a \<noteq> 24 \<or> c = 3)"
proof -
  let ?y = "400 * e + 100 * c + 4 * a + b + 1"
  have m4: "?y mod 4 = (b + 1) mod 4" using mod_mult_self4[of 4 "100 * e + 25 * c + a" "b + 1"] by (simp add: algebra_simps)
  have m100: "?y mod 100 = (4 * a + b + 1) mod 100" using mod_mult_self4[of 100 "4 * e + c" "4 * a + b + 1"] by (simp add: algebra_simps)
  have m400: "?y mod 400 = (100 * c + 4 * a + b + 1) mod 400" using mod_mult_self4[of 400 e "100 * c + 4 * a + b + 1"] by (simp add: algebra_simps)
  show ?thesis
  proof (cases "b = 3")
    case True
    have "(4 * a + 3 + 1) mod 100 = 0 \<longleftrightarrow> a = 24" using assms(3,4) by (cases "a = 24") auto
    moreover have "a = 24 \<Longrightarrow> (100 * c + 4 * a + 3 + 1) mod 400 = 0 \<longleftrightarrow> c = 3" using assms(1,2) by (cases "c = 3") auto
    ultimately show ?thesis unfolding leap_def m4 m100 m400 unfolding True by fastforce
  next
    case False
    then have "(b + 1) mod 4 \<noteq> 0" using assms(5,6) by simp
    then show ?thesis unfolding leap_def m4 using False by simp
  qed
qed

lemma civil_date:
  assumes "day_of_year y t"
  shows "civil (year_start y + t - 719468) = date_of y t"
proof -
  define e c a b where eca: "e = y div 400" "c = y mod 400 div 100" "a = y mod 100 div 4" "b = y mod 4"
  have y: "y = 400 * e + 100 * c + 4 * a + b"
  proof -
    have "y mod 400 mod 100 = y mod 100" "y mod 100 mod 4 = y mod 4" by (simp_all add: mod_mod_cancel)
    moreover have "y = 400 * (y div 400) + y mod 400" "y mod 400 = 100 * (y mod 400 div 100) + y mod 400 mod 100"
      "y mod 100 = 4 * (y mod 100 div 4) + y mod 100 mod 4" by simp_all
    ultimately show ?thesis unfolding eca by linarith
  qed
  have bd: "0 \<le> c" "c \<le> 3" "0 \<le> a" "a \<le> 24" "0 \<le> b" "b \<le> 3" unfolding eca by (auto simp: pos_imp_zdiv_nonneg_iff intro: order_trans)
  let ?yoe = "100 * c + 4 * a + b"
  have dy: "?yoe div 4 = 25 * c + a" by (rule int_div_pos_eq[of _ _ _ b]) (use bd in auto)
  have dy100: "?yoe div 100 = c" by (rule int_div_pos_eq[of _ _ _ "4 * a + b"]) (use bd in auto)
  have "y div 4 = 100 * e + (25 * c + a)" by (rule int_div_pos_eq[of _ _ _ b]) (use bd y in auto)
  moreover have "y div 100 = 4 * e + c" by (rule int_div_pos_eq[of _ _ _ "4 * a + b"]) (use bd y in auto)
  moreover have "y div 400 = e" by (rule int_div_pos_eq[of _ _ _ "100 * c + 4 * a + b"]) (use bd y in auto)
  ultimately have dv: "y div 4 = 100 * e + (25 * c + a)" "y div 100 = 4 * e + c" "y div 400 = e" by blast+
  let ?doe = "36524 * c + 1461 * a + 365 * b + t"
  have z: "year_start y + t = 146097 * e + ?doe" unfolding year_start_def dv using y by simp
  have lp: "leap (y + 1) \<longleftrightarrow> b = 3 \<and> (a \<noteq> 24 \<or> c = 3)" unfolding y by (rule leap_digits[OF bd])
  have t: "0 \<le> t" "t \<le> 364 \<or> t = 365 \<and> b = 3 \<and> (a \<noteq> 24 \<or> c = 3)" using assms lp by (auto simp: day_of_year_def)
  note ce = civil_era[OF bd t]
  have era: "(year_start y + t) div 146097 = e" unfolding z by (rule int_div_pos_eq[OF refl ce(2,3)])
  have doy: "?doe - (365 * ?yoe + ?yoe div 4 - ?yoe div 100) = t" unfolding dy dy100 by simp
  let ?n = "?doe - ?doe div 1460 + ?doe div 36524 - ?doe div 146096"
  have yoe: "0 \<le> ?yoe" using bd by simp
  have "0 \<le> ?n div 365" unfolding ce(1) by (rule yoe)
  then have n: "0 \<le> ?n" by (simp only: pos_imp_zdiv_nonneg_iff zero_less_numeral)
  have sd: "?doe sdiv 1460 = ?doe div 1460" "?doe sdiv 36524 = ?doe div 36524" "?doe sdiv 146096 = ?doe div 146096"
    "?n sdiv 365 = ?yoe" "?yoe sdiv 4 = ?yoe div 4" "?yoe sdiv 100 = ?yoe div 100"
    using sdiv_nonneg[OF ce(2)] sdiv_nonneg[OF n] sdiv_nonneg[OF yoe] ce(1) by (simp_all only: zero_less_numeral)
  have dz: "year_start y + t - e * 146097 = ?doe" using z by simp
  have mp: "0 \<le> (5 * t + 2) div 153" using t(1) by (simp add: pos_imp_zdiv_nonneg_iff)
  have "civil (year_start y + t - 719468) = (let mp = (5 * t + 2) sdiv 153; m = (if mp < 10 then mp + 3 else mp - 9)
      in (if m \<le> 2 then ?yoe + e * 400 + 1 else ?yoe + e * 400, m, t - (153 * mp + 2) sdiv 5 + 1))"
    unfolding civil_def Let_def diff_add_cancel era_floor era dz sd doy ..
  also have "\<dots> = date_of y t" using mp t(1) y by (simp add: sdiv_nonneg date_of_def month_day_def Let_def)
  finally show ?thesis .
qed

lemma year_start_mono: "y \<le> y' \<Longrightarrow> year_start y \<le> year_start y'"
  by (induction y' rule: int_ge_induct) (auto simp: year_start_succ)

lemma civil_bounds:
  assumes "0 \<le> days" and "days < 2932897" and "civil days = (y, m, d)"
  shows "1969 \<le> y" "y \<le> 9999" "1 \<le> m" "m \<le> 12" "1 \<le> d" "d \<le> 31"
proof -
  obtain y0 t where z: "days + 719468 = year_start y0 + t" "day_of_year y0 t" using day_exists by blast
  have "days = year_start y0 + t - 719468" using z(1) by linarith
  then have c: "date_of y0 t = (y, m, d)" using assms(3) by (simp only: civil_date[OF z(2)])
  have t: "0 \<le> t" "t \<le> 365" using z(2) by (auto simp: day_of_year_def)
  show "1 \<le> m" "m \<le> 12" "1 \<le> d" "d \<le> 31"
    using c t by (auto simp: date_of_def month_table split: if_splits)
  have ys: "year_start 1969 = 719162" "year_start 9999 = 3652059" "year_start 10000 = 3652425" by (simp_all add: year_start_def)
  have lo: "1969 \<le> y0"
  proof (rule ccontr)
    assume "\<not> 1969 \<le> y0"
    then have "year_start (y0 + 1) \<le> year_start 1969" by (intro year_start_mono) simp
    moreover have "year_start y0 + t < year_start (y0 + 1)" using z(2) by (auto simp: year_start_succ day_of_year_def)
    ultimately show False using z(1) ys assms(1) by linarith
  qed
  have hi: "y0 \<le> 9999" using year_start_mono[of 10000 y0] z(1) ys assms(2) t by linarith
  have "t < 306 \<or> y0 \<le> 9998" using z(1) ys assms(2) hi by (cases "y0 = 9999") auto
  then show "1969 \<le> y" "y \<le> 9999" using c t lo hi by (auto simp: date_of_def month_table split: if_splits)
qed

lemma clock_fields:
  assumes "0 \<le> r" and "r < (86400000 :: int)"
  shows "r = 3600000 * (r div 1000 div 3600) + 60000 * (r div 1000 mod 3600 div 60) + 1000 * (r div 1000 mod 60) + r mod 1000
    \<and> 0 \<le> r div 1000 div 3600 \<and> r div 1000 div 3600 < 24 \<and> 0 \<le> r div 1000 mod 3600 div 60 \<and> r div 1000 mod 3600 div 60 < 60
    \<and> 0 \<le> r div 1000 mod 60 \<and> r div 1000 mod 60 < 60 \<and> 0 \<le> r mod 1000 \<and> r mod 1000 < 1000"
proof -
  define s where s: "s = r div 1000"
  have r: "r = 1000 * s + r mod 1000" unfolding s by simp
  have "s < 86400" using assms(2) r pos_mod_sign[of 1000 r] by linarith
  moreover have s0: "0 \<le> s" unfolding s using assms(1) by (simp add: pos_imp_zdiv_nonneg_iff)
  ultimately have h: "0 \<le> s div 3600" "s div 3600 < 24" by (auto simp: pos_imp_zdiv_nonneg_iff)
  have s1: "s = 3600 * (s div 3600) + s mod 3600" by simp
  have "s mod 3600 mod 60 = s mod 60" by (rule mod_mod_cancel) simp
  then have s2: "s mod 3600 = 60 * (s mod 3600 div 60) + s mod 60" by (metis mult_div_mod_eq)
  have m: "0 \<le> s mod 3600 div 60" "s mod 3600 div 60 < 60" by (auto simp: pos_imp_zdiv_nonneg_iff)
  have "r = 3600000 * (s div 3600) + 60000 * (s mod 3600 div 60) + 1000 * (s mod 60) + r mod 1000"
    using r s1 s2 by linarith
  with h m show ?thesis unfolding s by auto
qed

lemma length_padded: "0 < w \<Longrightarrow> n < 10 ^ w \<Longrightarrow> length (padded w n) = w"
  using length_show_nat[of w n] by (simp add: padded_def)

section \<open>Properties\<close>

text \<open>C38: The date of a log line is the date of its day: day 0 is 1970-01-01 and each following day is the next
  date of the calendar, leap years by the Gregorian rule included, before and after the epoch.\<close>

theorem civil_follows_calendar:
  "civil 0 = (1970, 1, 1) \<and> civil (n + 1) = next_date (civil n)"
proof
  obtain y t where z: "n + 719468 = year_start y + t" "day_of_year y t" using day_exists by blast
  have "n = year_start y + t - 719468" using z(1) by linarith
  then have c: "civil n = date_of y t" by (simp only: civil_date[OF z(2)])
  show "civil (n + 1) = next_date (civil n)"
  proof (cases "day_of_year y (t + 1)")
    case True
    have "n + 1 = year_start y + (t + 1) - 719468" using z(1) by simp
    then have "civil (n + 1) = date_of y (t + 1)" by (simp only: civil_date[OF True])
    then show ?thesis using c date_of_next[OF z(2)] True by simp
  next
    case False
    have "n + 1 = year_start (y + 1) + 0 - 719468" using z False by (auto simp: day_of_year_def year_start_succ)
    moreover have "day_of_year (y + 1) 0" by (simp add: day_of_year_def)
    ultimately have "civil (n + 1) = date_of (y + 1) 0" by (simp only: civil_date)
    then show ?thesis using c date_of_next[OF z(2)] False by simp
  qed
  have "day_of_year 1969 306" by (simp add: day_of_year_def)
  from civil_date[OF this(1)] show "civil 0 = (1970, 1, 1)" by (simp add: date_of_def month_table year_start_def)
qed

lemma timestamp_fields:
  assumes "0 \<le> ms" and "ms < 253402300800000"
  shows "\<exists>y m d hh mm ss f. civil (ms div 86400000) = (y, m, d) \<and> ms mod 86400000 = 3600000 * hh + 60000 * mm + 1000 * ss + f
    \<and> 0 \<le> hh \<and> hh < 24 \<and> 0 \<le> mm \<and> mm < 60 \<and> 0 \<le> ss \<and> ss < 60 \<and> 0 \<le> f \<and> f < 1000
    \<and> (log_timestamp ms :: ('e, rstr) res) = Inr (padded 4 (nat y) @ of_str ''-'' @ padded 2 (nat m) @ of_str ''-'' @ padded 2 (nat d) @ of_str ''T''
        @ padded 2 (nat hh) @ of_str '':'' @ padded 2 (nat mm) @ of_str '':'' @ padded 2 (nat ss) @ of_str ''.'' @ padded 3 (nat f) @ of_str ''Z'')
    \<and> (\<exists>s. (log_timestamp ms :: ('e, rstr) res) = Inr s \<and> length s = 24)"
proof -
  obtain y m d where ymd: "civil (ms div 86400000) = (y, m, d)" by (metis prod_cases3)
  have "0 \<le> ms div 86400000" "ms div 86400000 < 2932897"
    using assms(1) zdiv_mono1[of ms "253402300799999" 86400000] assms(2) by (simp_all add: pos_imp_zdiv_nonneg_iff)
  note b = civil_bounds[OF this ymd]
  define r where r: "r = ms mod 86400000"
  have r0: "0 \<le> r" "r < 86400000" unfolding r by simp_all
  obtain hh mm ss f where t: "hh = r sdiv 1000 sdiv 3600" "mm = r sdiv 1000 smod 3600 sdiv 60" "ss = r sdiv 1000 smod 60" "f = r smod 1000" by blast
  have n: "0 \<le> r div 1000" "0 \<le> r div 1000 mod 3600" using r0 by (simp_all add: pos_imp_zdiv_nonneg_iff)
  have t': "hh = r div 1000 div 3600" "mm = r div 1000 mod 3600 div 60" "ss = r div 1000 mod 60" "f = r mod 1000"
    unfolding t using r0(1) n by (simp_all add: sdiv_nonneg smod_nonneg)
  have tb: "0 \<le> hh" "hh < 24" "0 \<le> mm" "mm < 60" "0 \<le> ss" "ss < 60" "0 \<le> f" "f < 1000" "r = 3600000 * hh + 60000 * mm + 1000 * ss + f"
    using clock_fields[OF r0] unfolding t' by blast+
  have "log_timestamp ms = (Inr (padded 4 (nat y) @ of_str ''-'' @ padded 2 (nat m) @ of_str ''-'' @ padded 2 (nat d) @ of_str ''T''
        @ padded 2 (nat hh) @ of_str '':'' @ padded 2 (nat mm) @ of_str '':'' @ padded 2 (nat ss) @ of_str ''.'' @ padded 3 (nat f) @ of_str ''Z'') :: ('e, rstr) res)"
    unfolding log_timestamp_def log_timestamp_into_def Let_def ymd r[symmetric] prod.case t[symmetric]
    using b tb by (simp add: push_padded_show)
  moreover have "length (padded 4 (nat y)) = 4" "length (padded 3 (nat f)) = 3"
    using b tb by (simp_all add: length_padded)
  moreover have "length (padded 2 (nat x)) = 2" if "0 \<le> x" "x < 100" for x :: int using that by (simp add: length_padded)
  ultimately show ?thesis using ymd tb b r by (intro exI conjI) (assumption | simp add: of_str_def)+
qed

lemma log_timestamp_total: "0 \<le> ms \<Longrightarrow> ms < 253402300800000 \<Longrightarrow> \<exists>s. log_timestamp ms = (Inr s :: ('e, rstr) res) \<and> length s = 24"
  using timestamp_fields[of ms] by blast

text \<open>The stamp of a log line is the ISO-8601 form of the time: four digits of the year, two each of month,
  day, hour, minute and second, three of the millisecond, 24 bytes in all until the year 10000, and the fields
  add up to the time. The hand-written digits never panic and print what a formatter prints.\<close>

theorem log_timestamp_iso:
  assumes "0 \<le> ms" and "ms < 253402300800000"
  shows "\<exists>y m d hh mm ss f. civil (ms div 86400000) = (y, m, d) \<and> ms mod 86400000 = 3600000 * hh + 60000 * mm + 1000 * ss + f
    \<and> 0 \<le> hh \<and> hh < 24 \<and> 0 \<le> mm \<and> mm < 60 \<and> 0 \<le> ss \<and> ss < 60 \<and> 0 \<le> f \<and> f < 1000
    \<and> (log_timestamp ms :: ('e, rstr) res) = Inr (padded 4 (nat y) @ of_str ''-'' @ padded 2 (nat m) @ of_str ''-'' @ padded 2 (nat d) @ of_str ''T''
        @ padded 2 (nat hh) @ of_str '':'' @ padded 2 (nat mm) @ of_str '':'' @ padded 2 (nat ss) @ of_str ''.'' @ padded 3 (nat f) @ of_str ''Z'')
    \<and> (\<exists>s. (log_timestamp ms :: ('e, rstr) res) = Inr s \<and> length s = 24)"
  by (rule timestamp_fields[OF assms])

theorem log_timestamp_iso_witness:
  "civil (1784572933123 div 86400000) = (2026, 7, 20)
   \<and> (\<exists>s. log_timestamp 1784572933123 = (Inr s :: (unit, rstr) res) \<and> length s = 24)"
proof
  show "civil (1784572933123 div 86400000) = (2026, 7, 20)"
    using civil_date[of 2026 141] by (simp add: day_of_year_def year_start_def date_of_def month_table)
  show "\<exists>s. log_timestamp 1784572933123 = (Inr s :: (unit, rstr) res) \<and> length s = 24"
    using log_timestamp_iso[of 1784572933123] by auto
qed

text \<open>The digit printers print what the formatter prints: a counter as its decimal digits, a padded field
  with zeros on the left, wider values in full; no counter overruns the buffer.\<close>

theorem digits_match_formatter:
  "(push_u64 out n :: ('e, rstr) res) = Inr (out @ show_nat (unat n))
   \<and> (0 < w \<and> w \<le> 20 \<and> 0 \<le> k \<and> k < 2 ^ 63 \<longrightarrow> (push_padded out k w :: ('e, rstr) res) = Inr (out @ padded w (nat k)))"
proof -
  have "unat n < 10 ^ 20" using unat_bound[of n] by simp
  from digit_loop_u64[OF this, where 'a = 'e] show ?thesis by (auto simp: push_u64_def push_padded_show)
qed

theorem digits_match_formatter_witness: "push_padded [] 7 2 = (Inr (of_str ''07'') :: (unit, rstr) res)"
  using digits_match_formatter[of "[]" 0 2 7, where 'e = unit] by (simp add: padded_def show_nat.simps dec_char_def of_str_def)

text \<open>A negative number is padded after its sign, one byte wider than the formatter would print it.\<close>

theorem negative_padding_differs: "push_padded [] (- 5) 4 = (Inr (of_str ''-0005'') :: ('e, rstr) res)"
proof -
  obtain j where "(digit_loop 5 20 (replicate 20 0x30) :: ('e, nat \<times> bytes) res) = Inr (j, replicate j 0x30 @ show_nat 5)" "j + length (show_nat 5) = 20"
    using digit_loop_u64[of 5, where 'a = 'e] by auto
  moreover from this(2) have "j = 19" by (simp add: show_nat_small)
  ultimately show ?thesis by (simp add: push_padded_def show_nat_small dec_char_def of_str_def numeral_3_eq_3)
qed

text \<open>Every line of the log goes to one sink, the first one set up: a file takes lines in call order, each whole
  when the writes are, and standard error takes them until and unless a file could be opened.\<close>

theorem server_log_appends:
  assumes "server_log_sink s = Some (File p)" and "log_timestamp ms = (Inr ts :: ('e, rstr) res)" and "length (ts @ of_str '' '' @ msg @ [0x0A]) \<le> wrote"
  shows "\<exists>s'. (server_log ms wrote msg (init_server_log opened q s) :: ('e, 'o log_state) res) = Inr s'
    \<and> file_text s' p = file_text s p @ ts @ of_str '' '' @ msg @ [0x0A] \<and> server_log_sink s' = Some (File p)
    \<and> seen s' = seen s @ (case log_observer s of Some f \<Rightarrow> [(f, msg)] | None \<Rightarrow> [])"
proof -
  let ?i = "init_server_log opened q s"
  have i: "server_log_sink ?i = Some (File p)" "file_text ?i = file_text s" "seen ?i = seen s" "log_observer ?i = log_observer s"
    using assms(1) by (auto simp: init_server_log_def Let_def split: sum.splits fault.splits)
  then show ?thesis using assms(2,3) by (cases "log_observer s") (simp_all add: server_log_def)
qed

theorem server_log_appends_witness:
  "\<exists>s' ts. server_log 0 100 [0x61] \<lparr>server_log_sink = Some (File [0x70]), log_observer = Some (1 :: nat), seen = [], file_text = (\<lambda>_. []), stderr_text = []\<rparr>
     = (Inr s' :: (unit, nat log_state) res) \<and> file_text s' [0x70] = ts @ of_str '' '' @ [0x61, 0x0A] \<and> length ts = 24"
proof -
  let ?s = "\<lparr>server_log_sink = Some (File [0x70]), log_observer = Some (1 :: nat), seen = [], file_text = (\<lambda>_. []), stderr_text = []\<rparr>"
  obtain ts where ts: "log_timestamp 0 = (Inr ts :: (unit, rstr) res)" "length ts = 24"
    using log_timestamp_total[of 0] by auto
  have i: "init_server_log (Inr ()) [] ?s = ?s" by (simp add: init_server_log_def)
  have "server_log_sink ?s = Some (File [0x70])" "length (ts @ of_str '' '' @ [0x61] @ [0x0A]) \<le> 100" using ts(2) by (simp_all add: of_str_def)
  from server_log_appends[OF this(1) ts(1) this(2), of "Inr ()" "[]"] ts(2) i show ?thesis by auto
qed

end
