(* ===== verification/Ternary.thy ===== *)
theory Ternary
  imports Skaidb_Prelude
begin

text \<open>
  Three-valued logic of SQL predicates (\<^verbatim>\<open>skaidb-types/src/ternary.rs\<close>) and what it means: a ternary value
  stands for the set of truth values a predicate can take once its unknown parts are known.
\<close>

datatype ternary = TTrue | TFalse | Unknown

definition from_bool :: "bool \<Rightarrow> ternary" where
  "from_bool b = (if b then TTrue else TFalse)"

definition from_option :: "bool option \<Rightarrow> ternary" where
  "from_option b = (case b of Some v \<Rightarrow> from_bool v | None \<Rightarrow> Unknown)"

definition ternary_and :: "ternary \<Rightarrow> ternary \<Rightarrow> ternary" where
  "ternary_and a b = (if a = TFalse \<or> b = TFalse then TFalse else if a = TTrue \<and> b = TTrue then TTrue else Unknown)"

definition ternary_or :: "ternary \<Rightarrow> ternary \<Rightarrow> ternary" where
  "ternary_or a b = (if a = TTrue \<or> b = TTrue then TTrue else if a = TFalse \<and> b = TFalse then TFalse else Unknown)"

primrec ternary_not :: "ternary \<Rightarrow> ternary" where
  "ternary_not TTrue = TFalse"
| "ternary_not TFalse = TTrue"
| "ternary_not Unknown = Unknown"

definition is_true :: "ternary \<Rightarrow> bool" where
  "is_true t = (t = TTrue)"

section \<open>Meaning\<close>

primrec possible :: "ternary \<Rightarrow> bool set" where
  "possible TTrue = {True}"
| "possible TFalse = {False}"
| "possible Unknown = {True, False}"

text \<open>A predicate over columns that may be \<^verbatim>\<open>NULL\<close>, evaluated as a \<^verbatim>\<open>WHERE\<close> clause.\<close>

datatype predicate = Col nat | PAnd predicate predicate | POr predicate predicate | PNot predicate

primrec evaluate :: "(nat \<Rightarrow> bool option) \<Rightarrow> predicate \<Rightarrow> ternary" where
  "evaluate row (Col i) = from_option (row i)"
| "evaluate row (PAnd p q) = ternary_and (evaluate row p) (evaluate row q)"
| "evaluate row (POr p q) = ternary_or (evaluate row p) (evaluate row q)"
| "evaluate row (PNot p) = ternary_not (evaluate row p)"

primrec holds :: "(nat \<Rightarrow> bool) \<Rightarrow> predicate \<Rightarrow> bool" where
  "holds f (Col i) = f i"
| "holds f (PAnd p q) = (holds f p \<and> holds f q)"
| "holds f (POr p q) = (holds f p \<or> holds f q)"
| "holds f (PNot p) = (\<not> holds f p)"

lemma possible_from_option: "possible (from_option b) = (case b of Some v \<Rightarrow> {v} | None \<Rightarrow> UNIV)"
  by (cases b) (auto simp: from_option_def from_bool_def)

lemma possible_not: "possible (ternary_not a) = Not ` possible a"
  by (cases a) auto

lemma possible_and: "possible (ternary_and a b) = {x \<and> y | x y. x \<in> possible a \<and> y \<in> possible b}"
  by (cases a; cases b) (auto simp: ternary_and_def)

lemma possible_or: "possible (ternary_or a b) = {x \<or> y | x y. x \<in> possible a \<and> y \<in> possible b}"
  by (cases a; cases b) (auto simp: ternary_or_def)

lemma ternary_laws:
  "ternary_and a b = ternary_and b a" "ternary_or a b = ternary_or b a"
  "ternary_not (ternary_and a b) = ternary_or (ternary_not a) (ternary_not b)" "ternary_not (ternary_not a) = a"
  by (cases a; cases b; simp add: ternary_and_def ternary_or_def)+

lemma evaluate_sound: "(\<And>i v. row i = Some v \<Longrightarrow> f i = v) \<Longrightarrow> holds f p \<in> possible (evaluate row p)"
proof (induction p)
  case (Col i)
  then show ?case by (cases "row i") (auto simp: possible_from_option)
qed (auto simp: possible_and possible_or possible_not)

section \<open>Properties\<close>

text \<open>The connectives are exact: the truth values a conjunction, disjunction or negation can take are those
  of its operands combined. A row is kept by a predicate with \<^verbatim>\<open>NULL\<close>s only when the predicate holds
  whatever the missing values are.\<close>

theorem ternary_sound:
  "possible (ternary_and a b) = {x \<and> y | x y. x \<in> possible a \<and> y \<in> possible b}
   \<and> possible (ternary_or a b) = {x \<or> y | x y. x \<in> possible a \<and> y \<in> possible b}
   \<and> possible (ternary_not a) = Not ` possible a
   \<and> (is_true (evaluate row p) \<and> (\<forall>i v. row i = Some v \<longrightarrow> f i = v) \<longrightarrow> holds f p)"
  using evaluate_sound[of row f p] by (auto simp: possible_and possible_or possible_not is_true_def)

theorem ternary_sound_witness: "holds (\<lambda>_. True) (POr (Col 0) (Col 1))"
  using ternary_sound[where row = "(\<lambda>_. None)(0 := Some True)" and p = "POr (Col 0) (Col 1)" and f = "\<lambda>_. True"]
  by (simp add: is_true_def ternary_or_def from_option_def from_bool_def)

end
