(* ===== verification/Ring_Hash.thy ===== *)
theory Ring_Hash
  imports Skaidb_Prelude
begin

unbundle bit_operations_syntax

text \<open>
  The key-placement hash (\<^verbatim>\<open>ring_hash\<close> of \<^verbatim>\<open>skaidb-types/src/lib.rs\<close>): 64-bit FNV-1a and a splitmix64 finalizer.
\<close>

definition fnv_step :: "u8 \<Rightarrow> u64 \<Rightarrow> u64" where
  "fnv_step b h = (h XOR ucast b) * 0x100000001B3"

definition ring_hash :: "bytes \<Rightarrow> u64" where
  "ring_hash bs =
    (let h = fold fnv_step bs 0xCBF29CE484222325;
         z = h;
         z = (z XOR drop_bit 30 z) * 0xBF58476D1CE4E5B9;
         z = (z XOR drop_bit 27 z) * 0x94D049BB133111EB
     in z XOR drop_bit 31 z)"

section \<open>The steps are reversible\<close>

lemma mult_inverse:
  fixes c d x y :: u64
  assumes "c * d = 1"
  shows "x * c = y * c \<longleftrightarrow> x = y"
proof
  assume "x * c = y * c"
  then have "x * c * d = y * c * d" by simp
  then show "x = y" using assms by (simp only: mult.assoc mult_1_right)
qed simp

lemma xor_zero:
  fixes a b :: u64
  shows "a XOR b = 0 \<longleftrightarrow> a = b"
proof
  assume "a XOR b = 0"
  then have "a XOR (a XOR b) = a" by simp
  then show "a = b" by (simp flip: xor.assoc)
qed simp

lemma shift_fixed: "0 < k \<Longrightarrow> drop_bit k d = (d :: u64) \<Longrightarrow> d = 0"
proof -
  assume k: "0 < k" "drop_bit k d = d"
  then have "unat d div 2 ^ k = unat d" by (metis drop_bit_eq_div unat_drop_bit_eq)
  moreover have "1 < (2 :: nat) ^ k" using k(1) one_less_power[of "2 :: nat" k] by simp
  ultimately have "unat d = 0" by (metis div_less_dividend nat_less_le neq0_conv)
  then show ?thesis by (simp add: unat_eq_0)
qed

lemma xor_shift_inj:
  fixes x y :: u64
  assumes "0 < k"
  shows "x XOR drop_bit k x = y XOR drop_bit k y \<longleftrightarrow> x = y"
proof
  assume e: "x XOR drop_bit k x = y XOR drop_bit k y"
  have "drop_bit k (x XOR y) = x XOR y"
  proof -
    have "(x XOR drop_bit k x) XOR (y XOR drop_bit k y) = 0" using e by simp
    then have "(x XOR y) XOR drop_bit k (x XOR y) = 0" by (simp add: drop_bit_xor ac_simps)
    then show ?thesis unfolding xor_zero ..
  qed
  from shift_fixed[OF assms this] show "x = y" by (simp add: xor_zero)
qed simp

lemma xor_cancel:
  fixes a b c :: u64
  shows "a XOR c = b XOR c \<longleftrightarrow> a = b" "c XOR a = c XOR b \<longleftrightarrow> a = b"
proof -
  have "(a XOR c) XOR (b XOR c) = a XOR b" "(c XOR a) XOR (c XOR b) = a XOR b" by (simp_all add: ac_simps)
  then show "a XOR c = b XOR c \<longleftrightarrow> a = b" "c XOR a = c XOR b \<longleftrightarrow> a = b" by (metis xor_zero)+
qed

lemma fnv_step_inj: "fnv_step b h = fnv_step b h' \<longleftrightarrow> h = h'"
proof -
  have "(0x100000001B3 :: u64) * 0xCE965057AFF6957B = 1" by simp
  from mult_inverse[OF this] show ?thesis unfolding fnv_step_def by (simp only: xor_cancel)
qed

lemma byte_back: "(ucast (ucast (b :: u8) :: u64) :: u8) = b"
  by (simp add: unsigned_ucast_eq bit_eq_iff bit_simps)

lemma fnv_step_byte: "fnv_step b h = fnv_step b' h \<longleftrightarrow> b = b'"
proof -
  have "(0x100000001B3 :: u64) * 0xCE965057AFF6957B = 1" by simp
  from mult_inverse[OF this] have "fnv_step b h = fnv_step b' h \<longleftrightarrow> h XOR ucast b = h XOR ucast b'" unfolding fnv_step_def .
  also have "\<dots> \<longleftrightarrow> (ucast b :: u64) = ucast b'" by (rule xor_cancel)
  also have "\<dots> \<longleftrightarrow> b = b'" using byte_back[of b] byte_back[of b'] by metis
  finally show ?thesis .
qed

lemma fold_fnv_inj: "fold fnv_step bs h = fold fnv_step bs h' \<longleftrightarrow> h = h'"
  by (induction bs arbitrary: h h') (simp_all add: fnv_step_inj)

definition finalize :: "u64 \<Rightarrow> u64" where
  "finalize z = (let z = (z XOR drop_bit 30 z) * 0xBF58476D1CE4E5B9; z = (z XOR drop_bit 27 z) * 0x94D049BB133111EB in z XOR drop_bit 31 z)"

lemma finalize_inj: "finalize x = finalize y \<longleftrightarrow> x = y"
proof -
  have "(0xBF58476D1CE4E5B9 :: u64) * 0x96DE1B173F119089 = 1" "(0x94D049BB133111EB :: u64) * 0x319642B2D24D8EC3 = 1" by simp_all
  note m = this[THEN mult_inverse]
  show ?thesis unfolding finalize_def Let_def by (simp only: xor_shift_inj zero_less_numeral m)
qed

lemma ring_hash_finalize: "ring_hash bs = finalize (fold fnv_step bs 0xCBF29CE484222325)"
  by (simp add: ring_hash_def finalize_def Let_def)

section \<open>Properties\<close>

text \<open>Changing one byte of a key always changes its place on the ring, and the finalizer loses nothing: two
  keys share a place exactly when their FNV-1a values agree.\<close>

theorem ring_hash_separates:
  "(ring_hash (xs @ a # ys) = ring_hash (xs @ b # ys) \<longleftrightarrow> a = b)
   \<and> (ring_hash k = ring_hash k' \<longleftrightarrow> fold fnv_step k 0xCBF29CE484222325 = fold fnv_step k' 0xCBF29CE484222325)"
  by (simp add: ring_hash_finalize finalize_inj fold_fnv_inj fnv_step_byte)

end
