(* ===== verification/Dir_Size.thy ===== *)
theory Dir_Size
  imports Skaidb_Prelude
begin

text \<open>
  The cached size of a directory (\<^verbatim>\<open>skaidb-types/src/dir_size.rs\<close>): the recursive walk, and the cache that
  reads answer from while at most one background thread walks. The atomics are the fields of a record and
  every access to one is a step, so \<open>dstep\<close> has all interleavings. Wall time and the directory a walk finds
  are arguments. Also the counter of full disks (\<^verbatim>\<open>diskfull.rs\<close>).
\<close>

section \<open>The walk\<close>

text \<open>A directory as \<^verbatim>\<open>read_dir\<close> gives it: entries whose metadata cannot be read are \<open>None\<close>, a directory that
  cannot be opened is \<open>Closed\<close>.\<close>

datatype node = Regular u64 | Dir "node option list" | Closed

fun walk :: "node \<Rightarrow> u64" and walk_entries :: "node option list \<Rightarrow> u64 \<Rightarrow> u64" where
  "walk (Dir es) = walk_entries es 0"
| "walk (Regular n) = 0"
| "walk Closed = 0"
| "walk_entries [] acc = acc"
| "walk_entries (e # es) acc =
    (case e of
       None \<Rightarrow> walk_entries es acc
     | Some (Regular n) \<Rightarrow> walk_entries es (acc + n)
     | Some d \<Rightarrow> walk_entries es (acc + walk d))"

section \<open>The cache\<close>

record dir_size =
  size_bytes :: u64
  refreshed_ms :: nat
  refreshing :: bool

definition REFRESH_ms :: nat where "REFRESH_ms = 300000"

definition dir_size_new :: dir_size where
  "dir_size_new = \<lparr>size_bytes = 0, refreshed_ms = 0, refreshing = False\<rparr>"

text \<open>\<^verbatim>\<open>refreshing.swap(true)\<close>: whether this caller is to start a walk.\<close>

definition claim :: "dir_size \<Rightarrow> bool \<times> dir_size" where
  "claim s = (\<not> refreshing s, s\<lparr>refreshing := True\<rparr>)"

definition is_stale :: "nat \<Rightarrow> dir_size \<Rightarrow> bool" where
  "is_stale now s = (REFRESH_ms \<le> now - refreshed_ms s)"

definition release :: "dir_size \<Rightarrow> dir_size" where
  "release s = s\<lparr>refreshing := False\<rparr>"

text \<open>The two stores of \<^verbatim>\<open>refresh_now\<close>.\<close>

definition store_bytes :: "node \<Rightarrow> dir_size \<Rightarrow> dir_size" where
  "store_bytes dir s = s\<lparr>size_bytes := walk dir\<rparr>"

definition store_stamp :: "nat \<Rightarrow> dir_size \<Rightarrow> dir_size" where
  "store_stamp now s = s\<lparr>refreshed_ms := max now 1\<rparr>"

definition refresh_now :: "node \<Rightarrow> nat \<Rightarrow> dir_size \<Rightarrow> u64 \<times> dir_size" where
  "refresh_now dir now s = (walk dir, store_stamp now (store_bytes dir s))"

section \<open>Threads\<close>

datatype phase = Walking | Stored | Stamped

record walkers =
  cache :: dir_size
  claimed :: nat
  background :: "phase list"
  foreground :: "phase list"
  sizes :: "u64 set"

inductive dstep :: "walkers \<Rightarrow> walkers \<Rightarrow> bool" where
  get_stale: "is_stale now (cache w) \<Longrightarrow> claim (cache w) = (mine, s) \<Longrightarrow>
    dstep w (w\<lparr>cache := s, claimed := claimed w + of_bool mine\<rparr>)"
| spawned: "claimed w = Suc n \<Longrightarrow> dstep w (w\<lparr>claimed := n, background := background w @ [Walking]\<rparr>)"
| spawn_failed: "claimed w = Suc n \<Longrightarrow> dstep w (w\<lparr>claimed := n, cache := release (cache w)\<rparr>)"
| walked: "i < length (background w) \<Longrightarrow> background w ! i = Walking \<Longrightarrow>
    dstep w (w\<lparr>cache := store_bytes dir (cache w), background := (background w)[i := Stored], sizes := insert (walk dir) (sizes w)\<rparr>)"
| stamped: "i < length (background w) \<Longrightarrow> background w ! i = Stored \<Longrightarrow>
    dstep w (w\<lparr>cache := store_stamp now (cache w), background := (background w)[i := Stamped]\<rparr>)"
| finished: "i < length (background w) \<Longrightarrow> background w ! i = Stamped \<Longrightarrow>
    dstep w (w\<lparr>cache := release (cache w), background := take i (background w) @ drop (Suc i) (background w)\<rparr>)"
| now_started: "dstep w (w\<lparr>foreground := foreground w @ [Walking]\<rparr>)"
| now_walked: "i < length (foreground w) \<Longrightarrow> foreground w ! i = Walking \<Longrightarrow>
    dstep w (w\<lparr>cache := store_bytes dir (cache w), foreground := (foreground w)[i := Stored], sizes := insert (walk dir) (sizes w)\<rparr>)"
| now_stamped: "i < length (foreground w) \<Longrightarrow> foreground w ! i = Stored \<Longrightarrow>
    dstep w (w\<lparr>cache := store_stamp now (cache w), foreground := take i (foreground w) @ drop (Suc i) (foreground w)\<rparr>)"

text \<open>\<^verbatim>\<open>DirSize::new\<close> claims the first walk before it returns.\<close>

inductive dreachable :: "walkers \<Rightarrow> bool" where
  created: "claim dir_size_new = (mine, s) \<Longrightarrow>
    dreachable \<lparr>cache = s, claimed = of_bool mine, background = [], foreground = [], sizes = {}\<rparr>"
| dstepped: "dreachable w \<Longrightarrow> dstep w w' \<Longrightarrow> dreachable w'"

definition dinv :: "walkers \<Rightarrow> bool" where
  "dinv w \<longleftrightarrow> claimed w + length (background w) = of_bool (refreshing (cache w))
     \<and> (size_bytes (cache w) = 0 \<and> sizes w = {} \<or> size_bytes (cache w) \<in> sizes w)"

lemma dstep_inv: "dstep w w' \<Longrightarrow> dinv w \<Longrightarrow> dinv w'"
proof (induction rule: dstep.induct)
  case (finished i w)
  then show ?case by (cases "refreshing (cache w)") (auto simp: dinv_def release_def)
next
  case (spawn_failed w n)
  then show ?case by (cases "refreshing (cache w)") (auto simp: dinv_def release_def)
qed (auto simp: dinv_def claim_def release_def store_bytes_def store_stamp_def)

lemma dreachable_inv: "dreachable w \<Longrightarrow> dinv w"
proof (induction rule: dreachable.induct)
  case (created mine s)
  then show ?case by (auto simp: dinv_def claim_def dir_size_new_def)
next
  case (dstepped w w')
  from dstep_inv[OF dstepped.hyps(2) dstepped.IH] show ?case .
qed

section \<open>Full disks\<close>

record io_fault =
  kind_storage_full :: bool
  raw_os_error :: "int option"

definition is_enospc :: "io_fault \<Rightarrow> bool" where
  "is_enospc e = (kind_storage_full e \<or> raw_os_error e = Some 28)"

record 'h disk_guard =
  enospc_total :: u64
  enospc_hook :: "'h option"
  hook_runs :: "'h list"

definition note_io_error :: "io_fault \<Rightarrow> 'h disk_guard \<Rightarrow> 'h disk_guard" where
  "note_io_error e g =
    (if is_enospc e
     then let g = g\<lparr>enospc_total := enospc_total g + 1\<rparr> in
          (case enospc_hook g of Some h \<Rightarrow> g\<lparr>hook_runs := hook_runs g @ [h]\<rparr> | None \<Rightarrow> g)
     else g)"

definition install_enospc_hook :: "'h \<Rightarrow> 'h disk_guard \<Rightarrow> 'h disk_guard" where
  "install_enospc_hook h g = (case enospc_hook g of None \<Rightarrow> g\<lparr>enospc_hook := Some h\<rparr> | Some _ \<Rightarrow> g)"

lemma fold_note_io_error:
  "enospc_total (fold note_io_error es g) = enospc_total g + of_nat (length (filter is_enospc es))
   \<and> enospc_hook (fold note_io_error es g) = enospc_hook g
   \<and> hook_runs (fold note_io_error es g) = hook_runs g @ (case enospc_hook g of Some h \<Rightarrow> replicate (length (filter is_enospc es)) h | None \<Rightarrow> [])"
proof (induction es arbitrary: g)
  case (Cons e es)
  have "enospc_hook (note_io_error e g) = enospc_hook g"
    by (simp add: note_io_error_def Let_def split: option.splits)
  with Cons.IH[of "note_io_error e g"] show ?case
    by (auto simp: note_io_error_def Let_def split: option.splits)
qed (simp split: option.splits)

section \<open>Properties\<close>

text \<open>However readers, walks and failed spawns interleave: at most one background walk runs or is about to, and
  the flag that keeps others away is set exactly while one does, so it is never left behind; and a read
  answers 0 before the first walk has ended and afterwards the size some walk found.\<close>

theorem dir_size_single_walk:
  assumes "dreachable w"
  shows "claimed w + length (background w) \<le> 1 \<and> (refreshing (cache w) \<longleftrightarrow> claimed w + length (background w) = 1)
    \<and> (size_bytes (cache w) \<in> sizes w \<or> sizes w = {} \<and> size_bytes (cache w) = 0)"
  using dreachable_inv[OF assms] by (cases "refreshing (cache w)") (auto simp: dinv_def)

theorem dir_size_single_walk_witness:
  "\<exists>w. dreachable w \<and> background w = [Walking] \<and> claimed w = 0 \<and> refreshing (cache w)"
proof -
  let ?s = "dir_size_new\<lparr>refreshing := True\<rparr>"
  let ?w = "\<lparr>cache = ?s, claimed = 1, background = [], foreground = [], sizes = {}\<rparr>"
  have "dreachable ?w" using dreachable.created[of True ?s] by (simp add: claim_def dir_size_new_def)
  from dreachable.dstepped[OF this dstep.spawned[of _ 0]]
  have r: "dreachable (?w\<lparr>claimed := 0, background := [Walking]\<rparr>)" by simp
  from dir_size_single_walk[OF r] r show ?thesis by (intro exI[of _ "?w\<lparr>claimed := 0, background := [Walking]\<rparr>"]) simp
qed

text \<open>The counter of full disks counts exactly the errors that mean one, and the hook runs once for each.\<close>

theorem enospc_counted:
  "enospc_total (fold note_io_error es (install_enospc_hook h g)) = enospc_total g + of_nat (length (filter is_enospc es))
   \<and> hook_runs (fold note_io_error es (install_enospc_hook h g))
       = hook_runs g @ replicate (length (filter is_enospc es)) (case enospc_hook g of Some first \<Rightarrow> first | None \<Rightarrow> h)"
  using fold_note_io_error[of es "install_enospc_hook h g"] by (auto simp: install_enospc_hook_def split: option.splits)

end
